(* ===== verification/Prelude.thy ===== *)
theory Prelude
  imports Main "HOL-Library.Word"
begin

text \<open>
  Shared vocabulary of the development: the ways a C function of the program can stop
  without returning (\<open>fault\<close>), results that carry such a stop, C's view of a byte as a
  signed \<open>char\<close>, C strings cut at the first NUL, and generic lemmas on lists.
\<close>

section \<open>Failing computations\<close>

text \<open>
  A failed \<open>assert\<close> aborts the process (the program is built without \<open>NDEBUG\<close>), a
  dereferenced NULL pointer traps, a pointer to released storage must not be used, and a
  variadic call whose arguments do not match its format and a shift by the width of its operand
  are undefined behaviour. Everything
  else is a returned value.
\<close>

datatype fault = AssertFailed | NullDeref | BadVarArg | Dangling | Undefined

type_synonym 'a res = "fault + 'a"

definition bind_res :: "'a res \<Rightarrow> ('a \<Rightarrow> 'b res) \<Rightarrow> 'b res" where
  "bind_res m f = (case m of Inl e \<Rightarrow> Inl e | Inr x \<Rightarrow> f x)"

lemma bind_res_simps [simp]:
  "bind_res (Inl e) f = Inl e"
  "bind_res (Inr x) f = f x"
  by (simp_all add: bind_res_def)

lemma bind_res_assoc [simp]:
  "bind_res (bind_res m f) g = bind_res m (\<lambda>x. bind_res (f x) g)"
  by (simp add: bind_res_def split: sum.splits)

lemma bind_res_eq_Inr [simp]:
  "bind_res m f = Inr y \<longleftrightarrow> (\<exists>x. m = Inr x \<and> f x = Inr y)"
  by (cases m) auto

lemma bind_res_cong [fundef_cong]:
  "\<lbrakk> m = m'; \<And>x. m' = Inr x \<Longrightarrow> f x = f' x \<rbrakk> \<Longrightarrow> bind_res m f = bind_res m' f'"
  by (cases m') auto

text \<open>
  A postcondition of a computation: \<open>E\<close> on the fault it ends in, \<open>Q\<close> on its result.
\<close>

definition res_post :: "(fault \<Rightarrow> bool) \<Rightarrow> ('a \<Rightarrow> bool) \<Rightarrow> 'a res \<Rightarrow> bool" where
  "res_post E Q r = (case r of Inl f \<Rightarrow> E f | Inr x \<Rightarrow> Q x)"

lemma res_post_simps [simp]:
  "res_post E Q (Inl f) = E f" "res_post E Q (Inr x) = Q x"
  by (simp_all add: res_post_def)

lemma res_post_bind: "res_post E Q (bind_res m f) \<longleftrightarrow> res_post E (\<lambda>x. res_post E Q (f x)) m"
  by (cases m) simp_all

lemma res_post_mono:
  "res_post E Q r \<Longrightarrow> (\<And>f. E f \<Longrightarrow> E' f) \<Longrightarrow> (\<And>x. Q x \<Longrightarrow> Q' x) \<Longrightarrow> res_post E' Q' r"
  by (cases r) simp_all

lemma res_postD: "res_post E Q r \<Longrightarrow> r = Inr x \<Longrightarrow> Q x"
  by simp

text \<open>
  A computation that may also not return: \<open>None\<close>.
\<close>

definition bind_opt :: "'a res option \<Rightarrow> ('a \<Rightarrow> 'b res option) \<Rightarrow> 'b res option" where
  "bind_opt m f = (case m of None \<Rightarrow> None | Some (Inl e) \<Rightarrow> Some (Inl e) | Some (Inr x) \<Rightarrow> f x)"

lemma bind_opt_simps [simp]:
  "bind_opt None f = None" "bind_opt (Some (Inl e)) f = Some (Inl e)" "bind_opt (Some (Inr x)) f = f x"
  by (simp_all add: bind_opt_def)

lemma bind_opt_eq_Inr:
  "bind_opt m f = Some (Inr y) \<longleftrightarrow> (\<exists>x. m = Some (Inr x) \<and> f x = Some (Inr y))"
  by (auto simp: bind_opt_def split: option.splits sum.splits)

section \<open>Bytes and C strings\<close>

text \<open>A byte read through a (signed) \<open>char\<close>, as the scanners compare it.\<close>

definition schar :: "char \<Rightarrow> int" where
  "schar c = (let n = of_char c :: int in if n < 128 then n else n - 256)"

lemma schar_bounds: "-128 \<le> schar c" "schar c < 128"
proof -
  have "(of_char c :: int) < 256" "0 \<le> (of_char c :: int)"
    by (simp_all add: of_char_def horner_sum_simps split: char.split)
  then show "-128 \<le> schar c" "schar c < 128"
    by (simp_all add: schar_def Let_def)
qed

section \<open>Machine integers\<close>

text \<open>
  A value of type \<open>int\<close> after an operation: 32 bits in two's complement, which wrap around in
  the way the compilers the program is built with let them.
\<close>

definition i32 :: "int \<Rightarrow> int" where
  "i32 x = (x + 2 ^ 31) mod 2 ^ 32 - 2 ^ 31"

lemma i32_id [simp]: "- (2 ^ 31) \<le> x \<Longrightarrow> x < 2 ^ 31 \<Longrightarrow> i32 x = x"
  by (simp add: i32_def)

end
