(* ===== verification/CStdlib.thy ===== *)
theory CStdlib
  imports Prelude
begin

text \<open>
  The parts of the C library the program formats and reads numbers with: \<open>%llu\<close> and
  \<open>%zu\<close>, \<open>strtoul\<close> and \<open>strtoull\<close> in base 10 (both on 64 bits), \<open>%f\<close> and
  \<open>strtod\<close> on IEEE doubles kept as their 64 bits, and \<open>%s\<close>. A conversion out of range
  sets \<open>errno\<close>; the flag is part of the result.
\<close>

section \<open>Strings\<close>

definition NUL :: char where "NUL = CHR 0x00"

text \<open>What a C string holds: the characters up to the first NUL.\<close>

definition cstr :: "string \<Rightarrow> string" where
  "cstr s = takeWhile (\<lambda>c. c \<noteq> NUL) s"

lemma cstr_id: "NUL \<notin> set s \<Longrightarrow> cstr s = s"
  by (auto simp: cstr_def takeWhile_eq_all_conv)

lemma cstr_append: "NUL \<notin> set s \<Longrightarrow> cstr (s @ t) = s @ cstr t"
  by (induction s) (auto simp: cstr_def)

text \<open>\<open>%s\<close>; the C library prints a NULL argument as \<open>(null)\<close>.\<close>

fun fmt_s :: "string option \<Rightarrow> string" where
  "fmt_s None = ''(null)''"
| "fmt_s (Some s) = cstr s"

section \<open>Unsigned decimal numbers\<close>

definition digit_char :: "int \<Rightarrow> char" where
  "digit_char d = char_of (48 + d)"

definition is_digit_char :: "char \<Rightarrow> bool" where
  "is_digit_char c \<longleftrightarrow> (let n = of_char c :: int in 48 \<le> n \<and> n \<le> 57)"

definition digit_val :: "char \<Rightarrow> int" where
  "digit_val c = of_char c - 48"

definition is_space_char :: "char \<Rightarrow> bool" where
  "is_space_char c \<longleftrightarrow> (let n = of_char c :: int in n = 32 \<or> 9 \<le> n \<and> n \<le> 13)"

text \<open>\<open>%llu\<close> and \<open>%zu\<close> of a number that is not negative.\<close>

function fmt_u :: "int \<Rightarrow> string" where
  "fmt_u n = (if n < 10 then [digit_char n] else fmt_u (n div 10) @ [digit_char (n mod 10)])"
  by pat_completeness auto
termination by (relation "measure nat") auto

declare fmt_u.simps [simp del]

definition digits_val :: "string \<Rightarrow> int" where
  "digits_val ds = foldl (\<lambda>n c. 10 * n + digit_val c) 0 ds"

text \<open>
  \<open>strtoul\<close> and \<open>strtoull\<close> in base 10: leading white space, an optional sign, then the
  longest run of digits; (value, characters consumed, range error). Without a digit
  nothing is consumed. Out of range the value is \<open>ULONG_MAX\<close>; a minus sign negates in the
  unsigned type.
\<close>

definition strtoull :: "string \<Rightarrow> 64 word \<times> nat \<times> bool" where
  "strtoull s =
     (let sp = takeWhile is_space_char s;
          s1 = drop (length sp) s;
          sg = (case s1 of c # _ \<Rightarrow> if c = CHR ''-'' \<or> c = CHR ''+'' then [c] else [] | [] \<Rightarrow> []);
          ds = takeWhile is_digit_char (drop (length sg) s1);
          v = digits_val ds
      in if ds = [] then (0, 0, False)
         else (if v < 2 ^ 64
               then (if sg = ''-'' then - word_of_int v else word_of_int v)
               else - 1,
               length sp + length sg + length ds,
               \<not> v < 2 ^ 64))"

section \<open>Doubles\<close>

type_synonym double = "64 word"

definition round_half_even :: "int \<Rightarrow> int \<Rightarrow> int" where
  "round_half_even n d =
     (let q = n div d; r = n mod d
      in if 2 * r > d \<or> 2 * r = d \<and> odd q then q + 1 else q)"

function bit_length :: "int \<Rightarrow> int" where
  "bit_length n = (if n \<le> 0 then 0 else 1 + bit_length (n div 2))"
  by pat_completeness auto
termination by (relation "measure nat") auto

declare bit_length.simps [simp del]

text \<open>\<open>n / d / 2 ^ e\<close> as a fraction.\<close>

definition scale2 :: "int \<Rightarrow> int \<Rightarrow> int \<Rightarrow> int \<times> int" where
  "scale2 n d e = (if 0 \<le> e then (n, d * 2 ^ nat e) else (n * 2 ^ nat (- e), d))"

text \<open>
  The double nearest to \<open>n / d\<close> (ties to even), with the range error of an overflow or of
  an inexact subnormal result.
\<close>

definition double_of_ratio :: "bool \<Rightarrow> int \<Rightarrow> int \<Rightarrow> double \<times> bool" where
  "double_of_ratio neg n d =
     (let sgn = (if neg then 2 ^ 63 else 0 :: int)
      in if n = 0 then (word_of_int sgn, False)
         else
           let e0 = max (-1074) (bit_length n - bit_length d - 53);
               e1 = (case scale2 n d e0 of (a, b) \<Rightarrow> if a div b < 2 ^ 53 then e0 else e0 + 1);
               (a, b) = scale2 n d e1;
               r = round_half_even a b;
               (m, e) = (if r = 2 ^ 53 then (2 ^ 52, e1 + 1) else (r, e1))
           in if e > 971 then (word_of_int (sgn + 2047 * 2 ^ 52), True)
              else if m < 2 ^ 52 then (word_of_int (sgn + m), a mod b \<noteq> 0)
              else (word_of_int (sgn + (e + 1075) * 2 ^ 52 + (m - 2 ^ 52)), False))"

definition fmt_pad6 :: "int \<Rightarrow> string" where
  "fmt_pad6 n = map (\<lambda>i. digit_char (n div 10 ^ i mod 10)) [5, 4, 3, 2, 1, 0]"

text \<open>\<open>%f\<close>: six digits after the point, rounded to nearest (ties to even).\<close>

definition fmt_f :: "double \<Rightarrow> string" where
  "fmt_f w =
     (let b = uint w;
          sg = (if 2 ^ 63 \<le> b then ''-'' else []);
          ex = b div 2 ^ 52 mod 2048;
          fr = b mod 2 ^ 52
      in if ex = 2047 then sg @ (if fr = 0 then ''inf'' else ''nan'')
         else
           let m = (if ex = 0 then fr else fr + 2 ^ 52);
               e = (if ex = 0 then 1 else ex) - 1075;
               (a, d) = scale2 (m * 10 ^ 6) 1 (- e);
               n = round_half_even a d
           in sg @ fmt_u (n div 10 ^ 6) @ ''.'' @ fmt_pad6 (n mod 10 ^ 6))"

text \<open>
  \<open>strtod\<close> on decimal input: white space, sign, digits with an optional point, an
  optional exponent that counts only when it has a digit. (The infinity, NaN and
  hexadecimal forms are left out: the scanner calls \<open>strtod\<close> only on text that starts with
  an optional sign, digits, a point and a digit.)
\<close>

definition strtod :: "string \<Rightarrow> double \<times> nat \<times> bool" where
  "strtod s =
     (let sp = takeWhile is_space_char s;
          s1 = drop (length sp) s;
          sg = (case s1 of c # _ \<Rightarrow> if c = CHR ''-'' \<or> c = CHR ''+'' then [c] else [] | [] \<Rightarrow> []);
          s2 = drop (length sg) s1;
          ip = takeWhile is_digit_char s2;
          s3 = drop (length ip) s2;
          pt = (case s3 of c # _ \<Rightarrow> if c = CHR ''.'' then [c] else [] | [] \<Rightarrow> []);
          fp = (if pt = [] then [] else takeWhile is_digit_char (drop 1 s3));
          s4 = drop (length pt + length fp) s3;
          ex = (case s4 of
                  c # rest \<Rightarrow>
                    if c = CHR ''e'' \<or> c = CHR ''E'' then
                      let es = (case rest of x # _ \<Rightarrow> if x = CHR ''-'' \<or> x = CHR ''+'' then [x] else [] | [] \<Rightarrow> []);
                          ds = takeWhile is_digit_char (drop (length es) rest)
                      in if ds = [] then (0, 0)
                         else (1 + length es + length ds,
                               if es = ''-'' then - digits_val ds else digits_val ds)
                    else (0, 0)
                | [] \<Rightarrow> (0, 0));
          m = digits_val (ip @ fp);
          k = snd ex - int (length fp);
          (n, d) = (if 0 \<le> k then (m * 10 ^ nat k, 1) else (m, 10 ^ nat (- k)));
          (w, er) = double_of_ratio (sg = ''-'') n d
      in if ip = [] \<and> fp = [] then (0, 0, False)
         else (w, length sp + length sg + length ip + length pt + length fp + fst ex, er))"

section \<open>Printed numbers read back\<close>

lemma of_char_digit_char: "0 \<le> d \<Longrightarrow> d < 10 \<Longrightarrow> (of_char (digit_char d) :: int) = 48 + d"
  by (simp add: digit_char_def)

lemma digit_val_digit_char [simp]: "0 \<le> d \<Longrightarrow> d < 10 \<Longrightarrow> digit_val (digit_char d) = d"
  by (simp add: digit_val_def of_char_digit_char)

lemma is_digit_digit_char [simp]: "0 \<le> d \<Longrightarrow> d < 10 \<Longrightarrow> is_digit_char (digit_char d)"
  by (simp add: is_digit_char_def of_char_digit_char)

lemma fmt_u_digits: "0 \<le> n \<Longrightarrow> \<forall>c \<in> set (fmt_u n). is_digit_char c"
proof (induction n rule: fmt_u.induct)
  case (1 n)
  then show ?case by (subst fmt_u.simps) auto
qed

lemma fmt_u_nonempty [simp]: "fmt_u n \<noteq> []"
  by (subst fmt_u.simps) simp

lemma digits_val_append: "digits_val (ds @ [c]) = 10 * digits_val ds + digit_val c"
  by (simp add: digits_val_def)

lemma digits_val_fmt_u: "0 \<le> n \<Longrightarrow> digits_val (fmt_u n) = n"
proof (induction n rule: fmt_u.induct)
  case (1 n)
  show ?case
  proof (cases "n < 10")
    case True
    with "1.prems" show ?thesis by (subst fmt_u.simps) (simp add: digits_val_def)
  next
    case False
    with 1 show ?thesis by (subst fmt_u.simps) (simp add: digits_val_append)
  qed
qed

lemma is_digit_not_space: "is_digit_char c \<Longrightarrow> \<not> is_space_char c"
  by (auto simp: is_digit_char_def is_space_char_def Let_def)

lemma is_digit_not_sign: "is_digit_char c \<Longrightarrow> c \<noteq> CHR ''-'' \<and> c \<noteq> CHR ''+''"
  by (auto simp: is_digit_char_def Let_def)

lemma strtoull_digits:
  assumes "ds \<noteq> []" and "\<forall>c \<in> set ds. is_digit_char c"
    and "rest = [] \<or> \<not> is_digit_char (hd rest)"
  shows "strtoull (ds @ rest) =
    (if digits_val ds < 2 ^ 64 then word_of_int (digits_val ds) else -1,
     length ds, \<not> digits_val ds < 2 ^ 64)"
proof -
  obtain d ds' where ds: "ds = d # ds'" using assms(1) by (cases ds) auto
  have sp: "takeWhile is_space_char (ds @ rest) = []"
    using assms(2) ds is_digit_not_space by simp
  have tw: "takeWhile is_digit_char (ds @ rest) = ds"
    using assms(2,3) by (cases rest) (auto simp: takeWhile_append)
  show ?thesis
    using ds sp tw assms(2) is_digit_not_sign [of d]
    by (simp add: strtoull_def Let_def)
qed

lemma strtoull_fmt_u:
  assumes "rest = [] \<or> \<not> is_digit_char (hd rest)"
  shows "strtoull (fmt_u (uint (w :: 64 word)) @ rest) = (w, length (fmt_u (uint w)), False)"
proof -
  have "uint w < 2 ^ 64" using unsigned_less [of w] by simp
  then show ?thesis
    using strtoull_digits [OF fmt_u_nonempty fmt_u_digits assms, of "uint w"]
    by (simp add: digits_val_fmt_u)
qed

end
