(* ===== verification/Bstring.thy ===== *)
theory Bstring
  imports CStdlib
begin

text \<open>
  The bstring operations the rest of the program calls
  (\<open>src/myriad/bstring/bstrlib.c\<close> and the accessor macros of \<open>bstrlib.h\<close>), on the
  contents of a bstring. A \<open>bstring\<close> is a pointer: \<open>None\<close> is NULL and \<open>Some s\<close> a valid
  string of the \<open>slen\<close> bytes \<open>s\<close>; allocation is taken to succeed.
\<close>

type_synonym bstring = "string option"

fun blength :: "bstring \<Rightarrow> int" where
  "blength None = 0"
| "blength (Some s) = int (length s)"

text \<open>
  \<open>bchar(b, p)\<close>: the position is compared as an \<open>unsigned\<close>, so it wraps at 32 bits; the
  length is an \<open>int\<close> that is not negative.
\<close>

definition bchar :: "bstring \<Rightarrow> int \<Rightarrow> char" where
  "bchar b p =
     (if p mod 2 ^ 32 < blength b then the b ! nat (p mod 2 ^ 32) else NUL)"

text \<open>\<open>blk2bstr(blk, len)\<close> with the block as the list of bytes it points to.\<close>

definition blk2bstr :: "string \<Rightarrow> int \<Rightarrow> bstring" where
  "blk2bstr blk len = (if len < 0 then None else Some (take (nat len) blk))"

fun bconcat :: "bstring \<Rightarrow> bstring \<Rightarrow> bstring" where
  "bconcat (Some a) (Some b) = Some (a @ b)"
| "bconcat a b = a"

text \<open>
  \<open>bformata(b, fmt, ...)\<close>: the formatted output is collected in a C string first, so it
  ends at a NUL it contains.
\<close>

definition bformata :: "string \<Rightarrow> string \<Rightarrow> string" where
  "bformata b out = b @ cstr out"

text \<open>\<open>biseq\<close>: \<open>None\<close> is the error value -1.\<close>

fun biseq :: "bstring \<Rightarrow> bstring \<Rightarrow> int" where
  "biseq (Some a) (Some b) = (if a = b then 1 else 0)"
| "biseq a b = -1"

fun biseqcstr_loop :: "string \<Rightarrow> string \<Rightarrow> int" where
  "biseqcstr_loop [] s = (if s = [] then 1 else 0)"
| "biseqcstr_loop (c # cs) s =
     (case s of [] \<Rightarrow> 0 | x # xs \<Rightarrow> if c \<noteq> x then 0 else biseqcstr_loop cs xs)"

text \<open>The C string argument is given by its characters before the terminating NUL.\<close>

fun biseqcstr :: "bstring \<Rightarrow> string \<Rightarrow> int" where
  "biseqcstr None s = -1"
| "biseqcstr (Some b) s = biseqcstr_loop b s"

fun bstrcmp_loop :: "string \<Rightarrow> string \<Rightarrow> int" where
  "bstrcmp_loop (x # xs) (y # ys) =
     (if schar x - schar y \<noteq> 0 then schar x - schar y
      else if x = NUL then 0
      else bstrcmp_loop xs ys)"
| "bstrcmp_loop (x # xs) [] = 1"
| "bstrcmp_loop [] (y # ys) = -1"
| "bstrcmp_loop [] [] = 0"

definition SHRT_MIN :: int where "SHRT_MIN = -32768"

fun bstrcmp :: "bstring \<Rightarrow> bstring \<Rightarrow> int" where
  "bstrcmp (Some a) (Some b) = bstrcmp_loop a b"
| "bstrcmp a b = SHRT_MIN"

definition bmidstr :: "bstring \<Rightarrow> int \<Rightarrow> int \<Rightarrow> bstring" where
  "bmidstr b left len =
     (case b of
        None \<Rightarrow> None
      | Some s \<Rightarrow>
          let len1 = (if left < 0 then len + left else len);
              left1 = (if left < 0 then 0 else left);
              len2 = (if len1 > blength b - left1 then blength b - left1 else len1)
          in if len2 \<le> 0 then Some [] else blk2bstr (drop (nat left1) s) len2)"

section \<open>Comparisons decide equality and order\<close>

lemma biseqcstr_loop_iff: "biseqcstr_loop b s = (if b = s then 1 else 0)"
  by (induction b s rule: biseqcstr_loop.induct) (auto split: list.splits)

lemma biseqcstr_iff: "biseqcstr (Some b) s = (if b = s then 1 else 0)"
  by (simp add: biseqcstr_loop_iff)

lemma of_char_int_bounds: "0 \<le> (of_char c :: int)" "(of_char c :: int) < 256"
  by (simp_all add: of_char_def horner_sum_simps split: char.split)

lemma schar_inject [simp]: "schar x = schar y \<longleftrightarrow> x = y"
proof
  assume "schar x = schar y"
  then have "of_char x = (of_char y :: int)"
    using of_char_int_bounds [of x] of_char_int_bounds [of y]
    by (simp add: schar_def Let_def split: if_splits)
  then show "x = y" by simp
qed simp

lemma bstrcmp_refl [simp]: "bstrcmp_loop a a = 0"
  by (induction a) auto

lemma bstrcmp_loop_Cons_less:
  "bstrcmp_loop (x # xs) (y # ys) < 0 \<longleftrightarrow>
     schar x < schar y \<or> x = y \<and> x \<noteq> NUL \<and> bstrcmp_loop xs ys < 0"
  by (cases "x = y") simp_all

lemma bstrcmp_loop_Cons_zero:
  "bstrcmp_loop (x # xs) (y # ys) = 0 \<longleftrightarrow>
     x = y \<and> (x = NUL \<or> bstrcmp_loop xs ys = 0)"
  by (cases "x = y") simp_all

lemma bstrcmp_loop_Cons_greater:
  "0 < bstrcmp_loop (x # xs) (y # ys) \<longleftrightarrow>
     schar y < schar x \<or> x = y \<and> x \<noteq> NUL \<and> 0 < bstrcmp_loop xs ys"
  by (cases "x = y") simp_all

lemmas bstrcmp_loop_Cons =
  bstrcmp_loop_Cons_less bstrcmp_loop_Cons_zero bstrcmp_loop_Cons_greater

lemma bstrcmp_zero_iff:
  "NUL \<notin> set a \<Longrightarrow> NUL \<notin> set b \<Longrightarrow> bstrcmp_loop a b = 0 \<longleftrightarrow> a = b"
proof (induction a b rule: bstrcmp_loop.induct)
  case (1 x xs y ys)
  then show ?case
    unfolding bstrcmp_loop_Cons by (cases "x = y"; cases "y = NUL"; simp)
qed simp_all

lemma bstrcmp_less_sym: "bstrcmp_loop b a < 0 \<longleftrightarrow> 0 < bstrcmp_loop a b"
proof (induction a b rule: bstrcmp_loop.induct)
  case (1 x xs y ys)
  then show ?case
    unfolding bstrcmp_loop_Cons by (cases "x = y"; cases "x = NUL"; simp)
qed simp_all

lemma bstrcmp_less_trans:
  "bstrcmp_loop a b < 0 \<Longrightarrow> bstrcmp_loop b c < 0 \<Longrightarrow> bstrcmp_loop a c < 0"
proof (induction a b arbitrary: c rule: bstrcmp_loop.induct)
  case (1 x xs y ys)
  show ?case
  proof (cases c)
    case Nil
    with "1.prems" show ?thesis by simp
  next
    case (Cons z zs)
    have "x = y \<Longrightarrow> x \<noteq> NUL \<Longrightarrow> bstrcmp_loop xs ys < 0 \<Longrightarrow> bstrcmp_loop ys zs < 0 \<Longrightarrow>
      bstrcmp_loop xs zs < 0"
      using "1.IH" by simp
    with "1.prems" show ?thesis
      unfolding Cons bstrcmp_loop_Cons by (elim disjE conjE; simp)
  qed
next
  case (3 y ys)
  then show ?case by (cases c) simp_all
qed simp_all

end
