(* ===== verification/Node.thy ===== *)
theory Node
  imports Bstring
begin

text \<open>
  The stackish document tree of \<open>src/stackish/node.c\<close>: building nodes, the two format
  interpreters \<open>Node_cons\<close> and \<open>Node_decons\<close>, and the canonical text of
  \<open>Node_catbstr\<close>.

  A \<open>struct Node\<close> is a value of type \<open>node\<close>; the list of children is the chain that
  starts at \<open>child\<close> and is linked by \<open>sibling\<close>, newest first, as \<open>LIST_ADD\<close> leaves
  it. A \<open>Node *\<close> together with the siblings after it is a list (NULL is the empty list).
  \<open>nd_linked\<close> says that the \<open>parent\<close> pointer is set. \<open>TYPE_INVALID\<close> is never
  stored in a node.
\<close>

section \<open>Nodes\<close>

datatype NodeType =
  TYPE_NUMBER | TYPE_STRING | TYPE_BLOB | TYPE_FLOAT | TYPE_INVALID | TYPE_GROUP

datatype nvalue =
  VNumber "64 word" | VString bstring | VBlob bstring | VFloat double | VGroup

datatype node =
  Nd (nd_name: bstring) (nd_value: nvalue) (nd_linked: bool) (nd_child: "node list")

fun nvalue_type :: "nvalue \<Rightarrow> NodeType" where
  "nvalue_type (VNumber _) = TYPE_NUMBER"
| "nvalue_type (VString _) = TYPE_STRING"
| "nvalue_type (VBlob _) = TYPE_BLOB"
| "nvalue_type (VFloat _) = TYPE_FLOAT"
| "nvalue_type VGroup = TYPE_GROUP"

definition nd_type :: "node \<Rightarrow> NodeType" where
  "nd_type n = nvalue_type (nd_value n)"

definition LIST_ADD :: "'a \<Rightarrow> 'a list \<Rightarrow> 'a list" where
  "LIST_ADD elem list = elem # list"

definition set_child :: "node list \<Rightarrow> node \<Rightarrow> node" where
  "set_child ch n = Nd (nd_name n) (nd_value n) (nd_linked n) ch"

text \<open>
  \<open>Node_create\<close> with the union already filled by the \<open>Node_new_*\<close> functions: the new
  node, linked when it has a parent. \<open>attach\<close> is the \<open>LIST_ADD\<close> on the parent; the two
  are separate because a group stays the current node while its parent waits.
\<close>

definition Node_create :: "bool \<Rightarrow> nvalue \<Rightarrow> node" where
  "Node_create has_parent v = Nd None v has_parent []"

definition attach :: "node \<Rightarrow> node \<Rightarrow> node" where
  "attach parent n = set_child (LIST_ADD n (nd_child parent)) parent"

text \<open>\<open>Node_name\<close> asserts that the name is not NULL.\<close>

fun Node_name :: "node \<Rightarrow> bstring \<Rightarrow> node res" where
  "Node_name (Nd _ v l ch) None = Inl AssertFailed"
| "Node_name (Nd _ v l ch) (Some s) = Inr (Nd (Some s) v l ch)"

definition Node_add_child :: "node option \<Rightarrow> node option \<Rightarrow> node res" where
  "Node_add_child parent child =
     (case parent of
        None \<Rightarrow> Inl AssertFailed
      | Some p \<Rightarrow>
          (case child of
             None \<Rightarrow> Inl AssertFailed
           | Some c \<Rightarrow> Inr (attach p (Nd (nd_name c) (nd_value c) True (nd_child c)))))"

text \<open>
  \<open>Node_add_sib\<close>: \<open>sib2\<close> goes in front of the chain that starts at \<open>sib1\<close> and takes
  over its parent pointer. The parent's \<open>child\<close> pointer is not changed; the result is the
  chain that starts at \<open>sib2\<close>.
\<close>

fun Node_add_sib :: "node list \<Rightarrow> node option \<Rightarrow> node list res" where
  "Node_add_sib [] _ = Inl AssertFailed"
| "Node_add_sib (s # ss) None = Inl AssertFailed"
| "Node_add_sib (s # ss) (Some n) =
     Inr (LIST_ADD (Nd (nd_name n) (nd_value n) (nd_linked s) (nd_child n)) (s # ss))"

section \<open>Building a tree from a format\<close>

text \<open>
  The variable arguments of \<open>Node_cons\<close>. A group given for \<open>G\<close> is the root of its tree: the
  code would also take a group that already has a parent, which is then a child of two nodes.
  A tree cannot show that, so such an argument is given the fault \<open>BadVarArg\<close> and no property
  speaks of it.
\<close>

datatype carg =
  CNumber "64 word" | CFloat double | CBstr bstring | CWord "string option" | CGroup "node option"

text \<open>
  The state of the loop: \<open>cur_node\<close> with its ancestors as a stack, and the finished
  \<open>root\<close>. A group is attached to its parent when the loop moves up from it.
\<close>

record cons_state =
  c_root :: "node option"
  c_stack :: "node list"

text \<open>\<open>UP\<close>: the last node of the stack is the root of its tree.\<close>

fun cons_up :: "cons_state \<Rightarrow> cons_state" where
  "cons_up s =
     (case c_stack s of
        [] \<Rightarrow> s
      | [n] \<Rightarrow> s\<lparr> c_stack := [], c_root := (case c_root s of None \<Rightarrow> Some n | Some r \<Rightarrow> Some r) \<rparr>
      | n # p # st \<Rightarrow> s\<lparr> c_stack := attach p n # st \<rparr>)"

text \<open>A leaf with no current node is created and lost.\<close>

definition cons_leaf :: "nvalue \<Rightarrow> cons_state \<Rightarrow> cons_state" where
  "cons_leaf v s =
     (case c_stack s of
        [] \<Rightarrow> s
      | p # st \<Rightarrow> s\<lparr> c_stack := attach p (Node_create True v) # st \<rparr>)"

text \<open>
  One character of the format. \<open>None\<close> is the jump to \<open>_check_fail\<close>; the arguments left
  over are returned. \<open>er\<close> says that \<open>errno\<close> was set, which every \<open>check\<close> takes as a
  failure.
\<close>

fun cons_step :: "bool \<Rightarrow> char \<Rightarrow> carg list \<Rightarrow> cons_state \<Rightarrow> (carg list \<times> cons_state) option res" where
  "cons_step er c args s =
     (if c = CHR ''['' then
        Inr (Some (args, s\<lparr> c_stack := Node_create (c_stack s \<noteq> []) VGroup # c_stack s \<rparr>))
      else if c = CHR ''n'' then
        (case args of
           CNumber w # rest \<Rightarrow> Inr (Some (rest, cons_leaf (VNumber w) s))
         | _ \<Rightarrow> Inl BadVarArg)
      else if c = CHR ''f'' then
        (case args of
           CFloat w # rest \<Rightarrow> Inr (Some (rest, cons_leaf (VFloat w) s))
         | _ \<Rightarrow> Inl BadVarArg)
      else if c = CHR ''b'' then
        (case args of
           CBstr b # rest \<Rightarrow>
             if b = None \<or> er then Inr None else Inr (Some (rest, cons_leaf (VBlob b) s))
         | _ \<Rightarrow> Inl BadVarArg)
      else if c = CHR ''s'' then
        (case args of
           CBstr b # rest \<Rightarrow>
             if b = None \<or> er then Inr None else Inr (Some (rest, cons_leaf (VString b) s))
         | _ \<Rightarrow> Inl BadVarArg)
      else if c = CHR '']'' then
        (if c_stack s = [] then Inl NullDeref else Inr (Some (args, cons_up s)))
      else if c = CHR ''@'' then
        (case args of
           CWord w # rest \<Rightarrow>
             if w = None \<or> er then Inr None
             else (case c_stack s of
                     [] \<Rightarrow> Inl NullDeref
                   | n # st \<Rightarrow>
                       (case nd_child n of
                          [] \<Rightarrow> Inl AssertFailed
                        | ch # sibs \<Rightarrow>
                            bind_res (Node_name ch (map_option cstr w)) (\<lambda>ch'.
                              Inr (Some (rest, s\<lparr> c_stack := set_child (ch' # sibs) n # st \<rparr>)))))
         | _ \<Rightarrow> Inl BadVarArg)
      else if c = CHR ''w'' then
        (case args of
           CWord w # rest \<Rightarrow>
             if w = None \<or> er then Inr None
             else (case c_stack s of
                     [] \<Rightarrow> Inl AssertFailed
                   | n # st \<Rightarrow>
                       bind_res (Node_name n (map_option cstr w)) (\<lambda>n'.
                         Inr (Some (rest, cons_up (s\<lparr> c_stack := n' # st \<rparr>)))))
         | _ \<Rightarrow> Inl BadVarArg)
      else if c = CHR ''G'' then
        (case args of
           CGroup g # rest \<Rightarrow>
             if g = None \<or> er then Inr None
             else if nd_linked (the g) then Inl BadVarArg
             else (case c_stack s of
                     [] \<Rightarrow> Inl NullDeref
                   | n # st \<Rightarrow> Inr (Some (rest, s\<lparr> c_stack := attach n (the g) # st \<rparr>)))
         | _ \<Rightarrow> Inl BadVarArg)
      else if c = CHR '' '' \<or> c = CHR 0x09 \<or> c = CHR 0x0A then Inr (Some (args, s))
      else Inr None)"

fun cons_loop :: "bool \<Rightarrow> string \<Rightarrow> carg list \<Rightarrow> cons_state \<Rightarrow> cons_state option res" where
  "cons_loop er [] args s = Inr (Some s)"
| "cons_loop er (c # cs) args s =
     bind_res (cons_step er c args s) (\<lambda>r.
       case r of
         None \<Rightarrow> Inr None
       | Some (args', s') \<Rightarrow> cons_loop er cs args' s')"

definition Node_cons :: "bool \<Rightarrow> string \<Rightarrow> carg list \<Rightarrow> node option res" where
  "Node_cons er format args =
     bind_res (cons_loop er format args \<lparr> c_root = None, c_stack = [] \<rparr>) (\<lambda>r.
       case r of
         None \<Rightarrow> Inr None
       | Some s \<Rightarrow> if c_stack s = [] then Inr (c_root s) else Inl AssertFailed)"

section \<open>Taking a tree apart by a format\<close>

text \<open>
  A node pointer into a tree: the node, the siblings after it, and the way up (each
  ancestor with the siblings after it).
\<close>

datatype cursor = Cur (cu_node: node) (cu_sibs: "node list") (cu_path: "(node \<times> node list) list")

definition root_cursor :: "node \<Rightarrow> cursor" where
  "root_cursor n = Cur n [] []"

fun cur_child :: "cursor \<Rightarrow> cursor option" where
  "cur_child (Cur n sibs path) =
     (case nd_child n of [] \<Rightarrow> None | c # cs \<Rightarrow> Some (Cur c cs ((n, sibs) # path)))"

fun cur_parent :: "cursor \<Rightarrow> cursor option" where
  "cur_parent (Cur n sibs path) =
     (if nd_linked n then (case path of [] \<Rightarrow> None | (p, ps) # rest \<Rightarrow> Some (Cur p ps rest))
      else None)"

text \<open>\<open>NEXT\<close> stays on the last sibling.\<close>

fun cur_next :: "cursor \<Rightarrow> cursor" where
  "cur_next (Cur n [] path) = Cur n [] path"
| "cur_next (Cur n (s # ss) path) = Cur s ss path"

text \<open>
  The variable arguments of \<open>Node_decons\<close> (output pointers, a group pointer with whether
  it holds NULL, a name to compare, or a NULL pointer) and what is stored through them.
\<close>

datatype darg = DNumber | DFloat | DStr | DGroup bool | DWord string | DNull

datatype dout = ONumber "64 word" | OFloat double | OStr bstring | OGroup cursor

definition bstrcpy :: "bstring \<Rightarrow> bstring" where
  "bstrcpy b = b"

definition name_is :: "node \<Rightarrow> string \<Rightarrow> bool" where
  "name_is n w \<longleftrightarrow> nd_name n \<noteq> None \<and> biseqcstr (nd_name n) (cstr w) \<noteq> 0"

text \<open>
  One character of the format at a node: \<open>None\<close> is the jump to \<open>_check_fail\<close>, otherwise
  the arguments left, the value stored (if any) and the next \<open>cur_node\<close>. Each \<open>UP\<close> that
  reaches NULL leaves the \<open>switch\<close> at once, before the name is compared.
\<close>

fun decons_step :: "bool \<Rightarrow> bool \<Rightarrow> char \<Rightarrow> darg list \<Rightarrow> cursor \<Rightarrow>
    (darg list \<times> dout list \<times> cursor option) option res" where
  "decons_step er copy c args cu =
     (if c = CHR ''['' then Inr (Some (args, [], cur_child cu))
      else if c = CHR ''n'' then
        (case args of
           DNumber # rest \<Rightarrow>
             (case nd_value (cu_node cu) of
                VNumber w \<Rightarrow> if er then Inr None else Inr (Some (rest, [ONumber w], Some (cur_next cu)))
              | _ \<Rightarrow> Inr None)
         | DNull # _ \<Rightarrow> Inr None
         | _ \<Rightarrow> Inl BadVarArg)
      else if c = CHR ''f'' then
        (case args of
           DFloat # rest \<Rightarrow>
             (case nd_value (cu_node cu) of
                VFloat w \<Rightarrow> if er then Inr None else Inr (Some (rest, [OFloat w], Some (cur_next cu)))
              | _ \<Rightarrow> Inr None)
         | DNull # _ \<Rightarrow> Inl NullDeref
         | _ \<Rightarrow> Inl BadVarArg)
      else if c = CHR ''s'' then
        (case args of
           DStr # rest \<Rightarrow>
             (case nd_value (cu_node cu) of
                VString b \<Rightarrow>
                  if er then Inr None
                  else Inr (Some (rest, [OStr (if copy then bstrcpy b else b)], Some (cur_next cu)))
              | _ \<Rightarrow> Inr None)
         | DNull # _ \<Rightarrow> Inr None
         | _ \<Rightarrow> Inl BadVarArg)
      else if c = CHR ''b'' then
        (case args of
           DStr # rest \<Rightarrow>
             (case nd_value (cu_node cu) of
                VBlob b \<Rightarrow>
                  if er then Inr None
                  else Inr (Some (rest, [OStr (if copy then bstrcpy b else b)], Some (cur_next cu)))
              | _ \<Rightarrow> Inr None)
         | DNull # _ \<Rightarrow> Inr None
         | _ \<Rightarrow> Inl BadVarArg)
      else if c = CHR '']'' then
        Inr (Some (args, [], map_option cur_next (cur_parent cu)))
      else if c = CHR ''@'' then
        (case args of
           DWord w # rest \<Rightarrow>
             if er \<or> \<not> name_is (cu_node cu) w then Inr None else Inr (Some (rest, [], Some cu))
         | DNull # _ \<Rightarrow> Inr None
         | _ \<Rightarrow> Inl BadVarArg)
      else if c = CHR ''w'' then
        (case cur_parent cu of
           None \<Rightarrow> Inr (Some (args, [], None))
         | Some up \<Rightarrow>
             (case args of
                DWord w # rest \<Rightarrow>
                  if er \<or> \<not> name_is (cu_node up) w then Inr None
                  else Inr (Some (rest, [], Some (cur_next up)))
              | DNull # _ \<Rightarrow> Inr None
              | _ \<Rightarrow> Inl BadVarArg))
      else if c = CHR ''G'' then
        (case args of
           DGroup isnull # rest \<Rightarrow>
             if er \<or> \<not> isnull then Inr None else Inr (Some (rest, [OGroup cu], Some (cur_next cu)))
         | DNull # _ \<Rightarrow> Inr None
         | _ \<Rightarrow> Inl BadVarArg)
      else if c = CHR ''.'' then Inr (Some (args, [], Some (cur_next cu)))
      else Inr None)"

text \<open>
  The loop; \<open>None\<close> for \<open>cur_node\<close> is NULL, which ends the loop with the rest of the
  format unread. The final \<open>check\<close> needs the format exhausted and \<open>errno\<close> clear.
\<close>

fun decons_loop :: "bool \<Rightarrow> bool \<Rightarrow> string \<Rightarrow> darg list \<Rightarrow> dout list \<Rightarrow> cursor option \<Rightarrow>
    dout list option res" where
  "decons_loop er copy [] args outs cu = (if er then Inr None else Inr (Some outs))"
| "decons_loop er copy (c # cs) args outs None = Inr None"
| "decons_loop er copy (c # cs) args outs (Some cu) =
     bind_res (decons_step er copy c args cu) (\<lambda>r.
       case r of
         None \<Rightarrow> Inr None
       | Some (args', ou, cu') \<Rightarrow> decons_loop er copy cs args' (outs @ ou) cu')"

definition Node_decons :: "bool \<Rightarrow> cursor option \<Rightarrow> bool \<Rightarrow> string \<Rightarrow> darg list \<Rightarrow> dout list option res" where
  "Node_decons er root copy format args =
     (case root of
        None \<Rightarrow> Inl AssertFailed
      | Some cu \<Rightarrow> decons_loop er copy format args [] (Some cu))"

text \<open>
  What a call stores through its pointers, also when it fails on the way: the values up to the
  failing character. (\<open>f\<close> stores before it looks at the type; the bits it then stores are not
  given here.)
\<close>

fun decons_written :: "bool \<Rightarrow> bool \<Rightarrow> string \<Rightarrow> darg list \<Rightarrow> dout list \<Rightarrow> cursor option \<Rightarrow> dout list" where
  "decons_written er copy [] args outs cu = outs"
| "decons_written er copy (c # cs) args outs None = outs"
| "decons_written er copy (c # cs) args outs (Some cu) =
     (case decons_step er copy c args cu of
        Inr (Some (args', ou, cu')) \<Rightarrow> decons_written er copy cs args' (outs @ ou) cu'
      | _ \<Rightarrow> outs)"

definition Node_decons_written :: "bool \<Rightarrow> cursor option \<Rightarrow> bool \<Rightarrow> string \<Rightarrow> darg list \<Rightarrow> dout list" where
  "Node_decons_written er root copy format args = decons_written er copy format args [] root"

declare cons_step.simps [simp del] decons_step.simps [simp del]

lemma decons_written_all:
  "decons_loop er copy format args outs cu = Inr (Some r) \<Longrightarrow> decons_written er copy format args outs cu = r"
  by (induction er copy format args outs cu rule: decons_loop.induct) (auto split: if_splits option.splits)

lemma Node_decons_written_all:
  "Node_decons er root copy format args = Inr (Some r) \<Longrightarrow> Node_decons_written er root copy format args = r"
  by (auto simp: Node_decons_def Node_decons_written_def split: option.splits intro: decons_written_all)

section \<open>The canonical text\<close>

definition catb :: "string \<Rightarrow> bstring \<Rightarrow> string" where
  "catb str b = the (bconcat (Some str) b)"

definition cat_value :: "string \<Rightarrow> bstring \<Rightarrow> nvalue \<Rightarrow> char \<Rightarrow> string" where
  "cat_value str nm v sep =
     (case v of
        VBlob b \<Rightarrow>
          bformata (catb (bformata str (CHR 0x27 # fmt_u (blength b) @ '':'')) b) [CHR 0x27, sep]
      | VString b \<Rightarrow> bformata str (CHR 0x22 # fmt_s b @ [CHR 0x22, sep])
      | VNumber w \<Rightarrow> bformata str (fmt_u (uint w) @ [sep])
      | VFloat d \<Rightarrow> bformata str (fmt_f d @ [sep])
      | VGroup \<Rightarrow>
          if nm = None \<or> bchar nm 0 = CHR ''@'' then bformata str [CHR '']'', sep] else str)"

text \<open>\<open>Node_catbstr\<close> on the chain that starts at the node; the siblings come first.\<close>

function Node_catbstr :: "string \<Rightarrow> node list \<Rightarrow> char \<Rightarrow> bool \<Rightarrow> string" where
  "Node_catbstr str [] sep follow = str"
| "Node_catbstr str (Nd nm v l ch # sibs) sep follow =
     (let s1 = (if follow \<and> sibs \<noteq> [] then Node_catbstr str sibs sep follow else str);
          s2 = (if nvalue_type v = TYPE_GROUP then bformata s1 [CHR ''['', sep] else s1);
          s3 = (if ch \<noteq> [] then Node_catbstr s2 ch sep True else s2);
          s4 = cat_value s3 nm v sep
      in if nm \<noteq> None then bformata s4 (fmt_s nm @ [sep]) else s4)"
  by pat_completeness auto
termination
  by (relation "measure (\<lambda>(str, ns, sep, follow). size_list size ns)") auto

definition Node_bstr :: "node list \<Rightarrow> bool \<Rightarrow> string res" where
  "Node_bstr d follow =
     (if d = [] then Inl AssertFailed
      else Inr (Node_catbstr [] d CHR '' '' follow @ [CHR 0x0A]))"

text \<open>
  \<open>Node_dump\<close> writes the text with every byte but the last made printable, and a newline
  if it does not end in one.
\<close>

definition isprint :: "char \<Rightarrow> bool" where
  "isprint c \<longleftrightarrow> (let n = of_char c :: nat in 32 \<le> n \<and> n \<le> 126)"

definition dump_char :: "char \<Rightarrow> char" where
  "dump_char c = (if isprint c then c else char_of ((of_char c :: nat) mod (126 - 32) + 32))"

definition Node_dump :: "node list \<Rightarrow> bool \<Rightarrow> string res" where
  "Node_dump d follow =
     bind_res (Node_bstr d follow) (\<lambda>str.
       let out = map dump_char (butlast str) @ [last str]
       in Inr (if bchar (Some out) (blength (Some out) - 1) \<noteq> CHR 0x0A then out @ [CHR 0x0A] else out))"

section \<open>Attaching a list of children\<close>

lemma attach_value [simp]: "nd_value (attach p n) = nd_value p"
  by (simp add: attach_def set_child_def)

lemma foldl_attach_value [simp]: "nd_value (foldl attach p ns) = nd_value p"
  by (induction ns arbitrary: p) simp_all

lemma attach_fold: "foldl attach p ns = set_child (rev ns @ nd_child p) p"
proof (induction ns arbitrary: p)
  case Nil
  show ?case by (cases p) (simp add: set_child_def)
next
  case (Cons n ns)
  then show ?case by (simp add: attach_def set_child_def LIST_ADD_def)
qed

end
