(* ===== verification/NodeFormat.thy ===== *)
theory NodeFormat
  imports Node
begin

text \<open>
  \<open>Node_cons\<close> and \<open>Node_decons\<close> undo each other: a document description is turned into
  a format and arguments for each of the two, the one for \<open>Node_decons\<close> running the
  children backwards, since the newest child comes first in its chain.
\<close>

section \<open>Document descriptions\<close>

datatype leaf = LNumber "64 word" | LFloat double | LString string | LBlob string

datatype gname = GWord string | GAttr string | GNone

datatype item = Leaf leaf "string option" | Grp "item list" gname

primrec leaf_char :: "leaf \<Rightarrow> char" where
  "leaf_char (LNumber _) = CHR ''n''"
| "leaf_char (LFloat _) = CHR ''f''"
| "leaf_char (LString _) = CHR ''s''"
| "leaf_char (LBlob _) = CHR ''b''"

primrec leaf_value :: "leaf \<Rightarrow> nvalue" where
  "leaf_value (LNumber w) = VNumber w"
| "leaf_value (LFloat d) = VFloat d"
| "leaf_value (LString s) = VString (Some s)"
| "leaf_value (LBlob s) = VBlob (Some s)"

primrec leaf_carg :: "leaf \<Rightarrow> carg" where
  "leaf_carg (LNumber w) = CNumber w"
| "leaf_carg (LFloat d) = CFloat d"
| "leaf_carg (LString s) = CBstr (Some s)"
| "leaf_carg (LBlob s) = CBstr (Some s)"

primrec leaf_darg :: "leaf \<Rightarrow> darg" where
  "leaf_darg (LNumber w) = DNumber"
| "leaf_darg (LFloat d) = DFloat"
| "leaf_darg (LString s) = DStr"
| "leaf_darg (LBlob s) = DStr"

primrec leaf_out :: "leaf \<Rightarrow> dout" where
  "leaf_out (LNumber w) = ONumber w"
| "leaf_out (LFloat d) = OFloat d"
| "leaf_out (LString s) = OStr (Some s)"
| "leaf_out (LBlob s) = OStr (Some s)"

primrec gname_name :: "gname \<Rightarrow> bstring" where
  "gname_name (GWord w) = Some (cstr w)"
| "gname_name (GAttr a) = Some (cstr a)"
| "gname_name GNone = None"

text \<open>The node a description stands for, below a parent or as a root.\<close>

fun item_node :: "bool \<Rightarrow> item \<Rightarrow> node" where
  "item_node linked (Leaf l a) = Nd (map_option cstr a) (leaf_value l) linked []"
| "item_node linked (Grp its nm) =
     Nd (gname_name nm) VGroup linked (rev (map (item_node True) its))"

fun cons_fmt :: "item \<Rightarrow> string" where
  "cons_fmt (Leaf l a) = leaf_char l # (case a of None \<Rightarrow> [] | Some _ \<Rightarrow> ''@'')"
| "cons_fmt (Grp its nm) =
     ''['' @ concat (map cons_fmt its) @
     (case nm of GWord _ \<Rightarrow> ''w'' | GAttr _ \<Rightarrow> '']@'' | GNone \<Rightarrow> '']'')"

fun cons_args :: "item \<Rightarrow> carg list" where
  "cons_args (Leaf l a) = leaf_carg l # (case a of None \<Rightarrow> [] | Some w \<Rightarrow> [CWord (Some w)])"
| "cons_args (Grp its nm) =
     concat (map cons_args its) @
     (case nm of GWord w \<Rightarrow> [CWord (Some w)] | GAttr a \<Rightarrow> [CWord (Some a)] | GNone \<Rightarrow> [])"

fun decons_fmt :: "item \<Rightarrow> string" where
  "decons_fmt (Leaf l a) = (case a of None \<Rightarrow> [] | Some _ \<Rightarrow> ''@'') @ [leaf_char l]"
| "decons_fmt (Grp its nm) =
     (case nm of GAttr _ \<Rightarrow> ''@['' | _ \<Rightarrow> ''['') @ concat (rev (map decons_fmt its)) @
     (case nm of GWord _ \<Rightarrow> ''w'' | _ \<Rightarrow> '']'')"

fun decons_args :: "item \<Rightarrow> darg list" where
  "decons_args (Leaf l a) = (case a of None \<Rightarrow> [] | Some w \<Rightarrow> [DWord w]) @ [leaf_darg l]"
| "decons_args (Grp its nm) =
     (case nm of GAttr a \<Rightarrow> [DWord a] | _ \<Rightarrow> []) @ concat (rev (map decons_args its)) @
     (case nm of GWord w \<Rightarrow> [DWord w] | _ \<Rightarrow> [])"

fun decons_outs :: "item \<Rightarrow> dout list" where
  "decons_outs (Leaf l a) = [leaf_out l]"
| "decons_outs (Grp its nm) = concat (rev (map decons_outs its))"

text \<open>
  No group without children: \<open>Node_decons\<close> steps into a group by its first child, so an
  empty one leaves it without a current node.
\<close>

fun item_full :: "item \<Rightarrow> bool" where
  "item_full (Leaf l a) \<longleftrightarrow> True"
| "item_full (Grp its nm) \<longleftrightarrow> its \<noteq> [] \<and> list_all item_full its"

fun is_root_item :: "item \<Rightarrow> bool" where
  "is_root_item (Grp its (GAttr _)) \<longleftrightarrow> False"
| "is_root_item (Grp its _) \<longleftrightarrow> True"
| "is_root_item (Leaf _ _) \<longleftrightarrow> False"

section \<open>Building a described document\<close>

lemma cons_leaf_stack: "c_stack s = p # st \<Longrightarrow>
  cons_leaf v s = s\<lparr> c_stack := attach p (Node_create True v) # st \<rparr>"
  by (simp add: cons_leaf_def)

lemma cons_step_leaf:
  "c_stack s = p # st \<Longrightarrow> cons_step False (leaf_char l) (leaf_carg l # args) s =
     Inr (Some (args, s\<lparr> c_stack := attach p (Node_create True (leaf_value l)) # st \<rparr>))"
  by (cases l) (simp_all add: cons_step.simps cons_leaf_stack)

lemma cons_step_attr:
  "c_stack s = attach p n # st \<Longrightarrow> cons_step False CHR ''@'' (CWord (Some a) # args) s =
     Inr (Some (args, s\<lparr> c_stack := attach p (Nd (Some (cstr a)) (nd_value n) (nd_linked n) (nd_child n)) # st \<rparr>))"
  by (cases n) (simp add: cons_step.simps attach_def set_child_def LIST_ADD_def)

lemma cons_step_open:
  "cons_step er CHR ''['' args s =
     Inr (Some (args, s\<lparr> c_stack := Node_create (c_stack s \<noteq> []) VGroup # c_stack s \<rparr>))"
  by (simp add: cons_step.simps)

lemma cons_step_close:
  "c_stack s \<noteq> [] \<Longrightarrow> cons_step er CHR '']'' args s = Inr (Some (args, cons_up s))"
  by (simp add: cons_step.simps)

lemma cons_step_word:
  "c_stack s = n # st \<Longrightarrow> cons_step False CHR ''w'' (CWord (Some w) # args) s =
     Inr (Some (args, cons_up (s\<lparr> c_stack := Nd (Some (cstr w)) (nd_value n) (nd_linked n) (nd_child n) # st \<rparr>)))"
  by (cases n) (simp add: cons_step.simps)

lemmas cons_steps =
  cons_step_leaf cons_step_attr cons_step_open cons_step_close cons_step_word

text \<open>
  Running the format of an item below an open group attaches the item's node to it.
\<close>

lemma cons_loop_items:
  assumes IH: "\<And>it p st s fmt args. it \<in> set its \<Longrightarrow> c_stack s = p # st \<Longrightarrow>
      cons_loop False (cons_fmt it @ fmt) (cons_args it @ args) s =
      cons_loop False fmt args (s\<lparr> c_stack := attach p (item_node True it) # st \<rparr>)"
    and stack: "c_stack s = p # st"
  shows "cons_loop False (concat (map cons_fmt its) @ fmt) (concat (map cons_args its) @ args) s =
    cons_loop False fmt args (s\<lparr> c_stack := foldl attach p (map (item_node True) its) # st \<rparr>)"
  using assms
proof (induction its arbitrary: s p)
  case Nil
  then show ?case by (cases s) simp
next
  case (Cons it its)
  then show ?case by simp
qed

lemma cons_loop_item:
  "c_stack s = p # st \<Longrightarrow>
     cons_loop False (cons_fmt it @ fmt) (cons_args it @ args) s =
     cons_loop False fmt args (s\<lparr> c_stack := attach p (item_node True it) # st \<rparr>)"
proof (induction it arbitrary: s p st fmt args)
  case (Leaf l a)
  show ?case
  proof (cases a)
    case None
    with Leaf show ?thesis by (simp add: cons_step_leaf Node_create_def)
  next
    case (Some w)
    with Leaf show ?thesis
      by (simp add: cons_step_leaf cons_step_attr [where p = p and st = st] Node_create_def)
  qed
next
  case (Grp its nm)
  define g where "g = set_child (rev (map (item_node True) its)) (Node_create True VGroup)"
  have body: "cons_loop False (''['' @ concat (map cons_fmt its) @ fmt') (concat (map cons_args its) @ args') s =
      cons_loop False fmt' args' (s\<lparr> c_stack := g # p # st \<rparr>)" for fmt' args'
    using Grp.prems
    by (simp add: cons_step_open cons_loop_items [OF Grp.IH] attach_fold g_def Node_create_def set_child_def)
  show ?case
  proof (cases nm)
    case (GWord w)
    then show ?thesis
      using body [of "''w'' @ fmt" "CWord (Some w) # args"]
      by (simp add: cons_step_word g_def set_child_def Node_create_def)
  next
    case (GAttr a)
    then show ?thesis
      using body [of "'']@'' @ fmt" "CWord (Some a) # args"]
      by (simp add: cons_step_close cons_step_attr [where p = p and st = st] g_def set_child_def Node_create_def)
  next
    case GNone
    then show ?thesis
      using body [of "'']'' @ fmt" args]
      by (simp add: cons_step_close g_def set_child_def Node_create_def)
  qed
qed

lemma cons_root:
  assumes "is_root_item it"
  shows "Node_cons False (cons_fmt it) (cons_args it) = Inr (Some (item_node False it))"
proof (cases it)
  case (Leaf l a)
  with assms show ?thesis by simp
next
  case (Grp its nm)
  define s0 :: cons_state where "s0 = \<lparr> c_root = None, c_stack = [] \<rparr>"
  define g where "g = set_child (rev (map (item_node True) its)) (Node_create False VGroup)"
  have body: "cons_loop False (''['' @ concat (map cons_fmt its) @ fmt') (concat (map cons_args its) @ args') s0 =
      cons_loop False fmt' args' (s0\<lparr> c_stack := [g] \<rparr>)" for fmt' args'
    by (simp add: s0_def cons_step_open cons_loop_items [OF cons_loop_item] attach_fold g_def
        Node_create_def set_child_def)
  have "cons_loop False (cons_fmt it) (cons_args it) s0 =
      Inr (Some \<lparr> c_root = Some (item_node False it), c_stack = [] \<rparr>)"
  proof (cases nm)
    case (GWord w)
    then show ?thesis
      using body [of "''w''" "[CWord (Some w)]"] Grp
      by (simp add: s0_def cons_step_word g_def set_child_def Node_create_def del: bind_res_eq_Inr)
  next
    case (GAttr a)
    with Grp assms show ?thesis by simp
  next
    case GNone
    then show ?thesis
      using body [of "'']''" "[]"] Grp
      by (simp add: s0_def cons_step_close g_def set_child_def Node_create_def del: bind_res_eq_Inr)
  qed
  then show ?thesis by (simp add: Node_cons_def s0_def)
qed

section \<open>Taking a described document apart\<close>

lemma decons_step_leaf:
  "nd_value (cu_node cu) = leaf_value l \<Longrightarrow> decons_step False copy (leaf_char l) (leaf_darg l # args) cu =
     Inr (Some (args, [leaf_out l], Some (cur_next cu)))"
  by (cases l) (simp_all add: decons_step.simps bstrcpy_def)

lemma name_is_cstr [simp]: "name_is (Nd (Some (cstr w)) v l ch) w"
  by (simp add: name_is_def biseqcstr_iff del: biseqcstr.simps)

lemma decons_step_attr:
  "name_is (cu_node cu) w \<Longrightarrow> decons_step False copy CHR ''@'' (DWord w # args) cu = Inr (Some (args, [], Some cu))"
  by (simp add: decons_step.simps)

lemma decons_step_open: "decons_step er copy CHR ''['' args cu = Inr (Some (args, [], cur_child cu))"
  by (simp add: decons_step.simps)

lemma decons_step_close:
  "decons_step er copy CHR '']'' args cu = Inr (Some (args, [], map_option cur_next (cur_parent cu)))"
  by (simp add: decons_step.simps)

lemma decons_step_word:
  "cur_parent cu = Some up \<Longrightarrow> name_is (cu_node up) w \<Longrightarrow>
     decons_step False copy CHR ''w'' (DWord w # args) cu = Inr (Some (args, [], Some (cur_next up)))"
  by (simp add: decons_step.simps)

lemmas decons_steps =
  decons_step_leaf decons_step_attr decons_step_open decons_step_close decons_step_word

text \<open>The cursor runs through a chain of children and stays on the last one.\<close>

lemma decons_loop_items:
  assumes IH: "\<And>it sibs path fmt args outs. it \<in> set its \<Longrightarrow>
      decons_loop False copy (decons_fmt it @ fmt) (decons_args it @ args) outs
        (Some (Cur (item_node True it) sibs path)) =
      decons_loop False copy fmt args (outs @ decons_outs it)
        (Some (cur_next (Cur (item_node True it) sibs path)))"
    and ne: "its \<noteq> []"
  shows "decons_loop False copy (concat (map decons_fmt its) @ fmt) (concat (map decons_args its) @ args) outs
      (Some (Cur (item_node True (hd its)) (map (item_node True) (tl its)) path)) =
    decons_loop False copy fmt args (outs @ concat (map decons_outs its))
      (Some (Cur (item_node True (last its)) [] path))"
  using ne IH
proof (induction its arbitrary: outs rule: list_nonempty_induct)
  case (single it)
  then show ?case by simp
next
  case (cons it its)
  have "decons_loop False copy (decons_fmt it @ concat (map decons_fmt its) @ fmt)
      (decons_args it @ concat (map decons_args its) @ args) outs
      (Some (Cur (item_node True it) (map (item_node True) its) path)) =
    decons_loop False copy (concat (map decons_fmt its) @ fmt)
      (concat (map decons_args its) @ args) (outs @ decons_outs it)
      (Some (cur_next (Cur (item_node True it) (map (item_node True) its) path)))"
    by (rule cons.prems) simp
  also have "cur_next (Cur (item_node True it) (map (item_node True) its) path) =
      Cur (item_node True (hd its)) (map (item_node True) (tl its)) path"
    using cons.hyps by (cases its) simp_all
  also note cons.IH [OF cons.prems]
  finally show ?case using cons.hyps by simp
qed

lemma item_node_linked [simp]: "nd_linked (item_node l it) = l"
  by (cases it) simp_all

lemma decons_group:
  assumes IH: "\<And>it sibs path fmt args outs. it \<in> set its \<Longrightarrow>
      decons_loop False copy (decons_fmt it @ fmt) (decons_args it @ args) outs
        (Some (Cur (item_node True it) sibs path)) =
      decons_loop False copy fmt args (outs @ decons_outs it)
        (Some (cur_next (Cur (item_node True it) sibs path)))"
    and ne: "its \<noteq> []"
    and g: "g = item_node linked (Grp its nm)"
  shows "decons_loop False copy (decons_fmt (Grp its nm) @ fmt) (decons_args (Grp its nm) @ args) outs
      (Some (Cur g sibs path)) =
    decons_loop False copy fmt args (outs @ decons_outs (Grp its nm)) (Some (cur_next (Cur g sibs path)))"
proof -
  have kids: "cur_child (Cur g sibs path) = Some (Cur (item_node True (last its))
      (map (item_node True) (tl (rev its))) ((g, sibs) # path))"
    using ne by (cases its rule: rev_cases) (simp_all add: g rev_map)
  have body: "decons_loop False copy (''['' @ concat (rev (map decons_fmt its)) @ fmt')
      (concat (rev (map decons_args its)) @ args') outs (Some (Cur g sibs path)) =
    decons_loop False copy fmt' args' (outs @ decons_outs (Grp its nm))
      (Some (Cur (item_node True (hd its)) [] ((g, sibs) # path)))" for fmt' args'
    using decons_loop_items [of "rev its" copy fmt' args' outs "(g, sibs) # path", OF IH] ne
    by (simp add: decons_step_open kids hd_rev last_rev rev_map del: cur_child.simps)
  have up: "cur_parent (Cur (item_node True (hd its)) [] ((g, sibs) # path)) = Some (Cur g sibs path)"
    by simp
  have name: "nm = GWord w \<or> nm = GAttr w \<Longrightarrow> name_is g w" for w
    by (auto simp: g)
  show ?thesis
  proof (cases nm)
    case (GWord w)
    then show ?thesis
      using body [of "''w'' @ fmt" "DWord w # args"]
      by (simp add: decons_step_word [OF up] name)
  next
    case (GAttr a)
    then show ?thesis
      using body [of "'']'' @ fmt" args]
      by (simp add: decons_step_attr decons_step_close name)
  next
    case GNone
    then show ?thesis
      using body [of "'']'' @ fmt" args] by (simp add: decons_step_close)
  qed
qed

lemma decons_loop_item:
  "item_full it \<Longrightarrow>
     decons_loop False copy (decons_fmt it @ fmt) (decons_args it @ args) outs
       (Some (Cur (item_node linked it) sibs path)) =
     decons_loop False copy fmt args (outs @ decons_outs it)
       (Some (cur_next (Cur (item_node linked it) sibs path)))"
proof (induction it arbitrary: linked sibs path fmt args outs)
  case (Leaf l a)
  then show ?case
    by (cases a) (simp_all add: decons_step_leaf decons_step_attr)
next
  case (Grp its nm)
  then have ne: "its \<noteq> []" and ok: "it \<in> set its \<Longrightarrow> item_full it" for it
    by (auto simp: list_all_iff)
  show ?case
    by (rule decons_group [OF Grp.IH [OF _ ok] ne refl])
qed

text \<open>A description with an empty group stops at the first one the cursor steps into.\<close>

lemma decons_loop_stuck: "fmt \<noteq> [] \<Longrightarrow> decons_loop er copy fmt args outs None = Inr None"
  by (cases fmt) simp_all

lemma decons_prefix:
  "list_all item_full its \<Longrightarrow> \<exists>outs'. decons_loop False copy (concat (map decons_fmt its) @ fmt)
       (concat (map decons_args its) @ args) outs (Some (Cur (item_node True (hd (its @ [it])))
         (map (item_node True) (tl (its @ [it]) @ its2)) path)) =
     decons_loop False copy fmt args outs' (Some (Cur (item_node True it) (map (item_node True) its2) path))"
proof (induction its arbitrary: outs)
  case (Cons i its)
  have "decons_loop False copy (decons_fmt i @ concat (map decons_fmt its) @ fmt)
      (decons_args i @ concat (map decons_args its) @ args) outs
      (Some (Cur (item_node True i) (map (item_node True) (its @ it # its2)) path)) =
    decons_loop False copy (concat (map decons_fmt its) @ fmt) (concat (map decons_args its) @ args)
      (outs @ decons_outs i) (Some (cur_next (Cur (item_node True i) (map (item_node True) (its @ it # its2)) path)))"
    using Cons.prems by (intro decons_loop_item) simp
  moreover have "cur_next (Cur (item_node True i) (map (item_node True) (its @ it # its2)) path) =
      Cur (item_node True (hd (its @ [it]))) (map (item_node True) (tl (its @ [it]) @ its2)) path"
    by (cases its) simp_all
  ultimately show ?case using Cons by simp
qed auto

lemma decons_loop_empty:
  "\<not> item_full it \<Longrightarrow>
     decons_loop False copy (decons_fmt it @ fmt) (decons_args it @ args) outs
       (Some (Cur (item_node linked it) sibs path)) = Inr None"
proof (induction it arbitrary: linked sibs path fmt args outs)
  case (Grp its nm)
  define g where "g = item_node linked (Grp its nm)"
  define tail where "tail = (case nm of GWord _ \<Rightarrow> ''w'' | _ \<Rightarrow> '']'') @ fmt"
  define targs where "targs = (case nm of GWord w \<Rightarrow> [DWord w] | _ \<Rightarrow> []) @ args"
  have name: "name_is g w" if "nm = GAttr w" for w using that by (simp add: g_def)
  have head: "decons_loop False copy (decons_fmt (Grp its nm) @ fmt) (decons_args (Grp its nm) @ args) outs (Some (Cur g sibs path)) =
      decons_loop False copy (concat (map decons_fmt (rev its)) @ tail) (concat (map decons_args (rev its)) @ targs) outs
        (cur_child (Cur g sibs path))"
    by (cases nm) (simp_all add: decons_step_open decons_step_attr name tail_def targs_def rev_map del: cur_child.simps)
  have "decons_loop False copy (concat (map decons_fmt (rev its)) @ tail) (concat (map decons_args (rev its)) @ targs) outs
      (cur_child (Cur g sibs path)) = Inr None"
  proof (cases "its = []")
    case True
    then show ?thesis by (cases nm) (simp_all add: g_def tail_def)
  next
    case False
    with Grp.prems have "\<exists>it \<in> set (rev its). \<not> item_full it" by (auto simp: list_all_iff)
    then obtain xs it ys where its: "rev its = xs @ it # ys" "\<not> item_full it" "list_all item_full xs"
      using split_list_first_prop [of "rev its" "\<lambda>i. \<not> item_full i"] by (auto simp: list_all_iff)
    have member: "it \<in> set its" using arg_cong [OF its(1), of set] by auto
    have "cur_child (Cur g sibs path) = Some (Cur (item_node True (hd (xs @ [it])))
        (map (item_node True) (tl (xs @ [it]) @ ys)) ((g, sibs) # path))"
      using its(1) by (cases xs) (simp_all add: g_def rev_map)
    then show ?thesis
      using decons_prefix [OF its(3), of copy "decons_fmt it @ concat (map decons_fmt ys) @ tail"
          "decons_args it @ concat (map decons_args ys) @ targs" outs it ys "(g, sibs) # path"]
        Grp.IH [OF member its(2)]
      by (auto simp: its(1) simp del: cur_child.simps)
  qed
  with head show ?case by (simp add: g_def)
qed simp

section \<open>What the two formats promise\<close>

text \<open>
  (C7) For every description of a document whose root is a group with a word or without a name,
  nested to any depth, \<open>Node_cons\<close> builds the tree that the format describes. \<open>Node_decons\<close>
  with the mirrored format accepts that tree and returns the values that went in when no group
  of the description is empty, and reports a failure when one is.
\<close>

theorem cons_decons:
  assumes root: "is_root_item it"
  shows "Node_cons False (cons_fmt it) (cons_args it) = Inr (Some (item_node False it)) \<and>
    Node_decons False (Some (root_cursor (item_node False it))) copy (decons_fmt it) (decons_args it) =
      Inr (if item_full it then Some (decons_outs it) else None)"
  using cons_root [OF root] decons_loop_item [of it copy "[]" "[]" "[]" False "[]" "[]"]
    decons_loop_empty [of it copy "[]" "[]" "[]" False "[]" "[]"]
  by (simp add: Node_decons_def root_cursor_def)

theorem cons_decons_witness:
  "Node_cons False ''[n@[sbw]''
     [CNumber 7, CWord (Some ''@id''), CBstr (Some ''me''), CBstr (Some ''k''), CWord (Some ''key'')] =
   Inr (Some (Nd None VGroup False
     [Nd (Some ''key'') VGroup True [Nd None (VBlob (Some ''k'')) True [], Nd None (VString (Some ''me'')) True []],
      Nd (Some ''@id'') (VNumber 7) True []])) \<and>
   Node_decons False (Some (root_cursor (Nd None VGroup False
     [Nd (Some ''key'') VGroup True [Nd None (VBlob (Some ''k'')) True [], Nd None (VString (Some ''me'')) True []],
      Nd (Some ''@id'') (VNumber 7) True []]))) True ''[[bsw@n]'' [DStr, DStr, DWord ''key'', DWord ''@id'', DNumber] =
   Inr (Some [OStr (Some ''k''), OStr (Some ''me''), ONumber 7]) \<and>
   Node_decons False (Some (root_cursor (Nd (Some ''m'') VGroup False [Nd (Some ''w'') VGroup True []]))) True
     ''[[ww'' [DWord ''w'', DWord ''m''] = Inr None"
proof -
  define it where "it = Grp [Leaf (LNumber 7) (Some ''@id''),
    Grp [Leaf (LString ''me'') None, Leaf (LBlob ''k'') None] (GWord ''key'')] GNone"
  have nul: "cstr ''@id'' = ''@id''" "cstr ''key'' = ''key''" "cstr ''w'' = ''w''" "cstr ''m'' = ''m''"
    by (simp_all add: cstr_def NUL_def)
  define empty where "empty = Grp [Grp [] (GWord ''w'')] (GWord ''m'')"
  have "is_root_item it" "is_root_item empty" by (simp_all add: it_def empty_def)
  from cons_decons [OF this(1), of True] cons_decons [OF this(2), of True] show ?thesis by (simp add: it_def empty_def nul)
qed

text \<open>
  (C23) The word of a group that was added with \<open>G\<close> is not compared: \<open>Node_cons\<close> leaves
  the parent pointer of the added group NULL, so the \<open>UP\<close> of \<open>w\<close> in \<open>Node_decons\<close>
  reaches NULL and leaves the \<open>switch\<close> before the comparison. The format ends there, and
  the call reports success for every word.
\<close>

theorem group_word_unchecked:
  assumes "\<not> nd_linked g"
  shows "\<exists>t. Node_cons False ''[Gw'' [CGroup (Some g), CWord (Some w)] = Inr (Some t) \<and>
    Node_decons False (Some (root_cursor t)) copy ''[Gw'' [DGroup True, DWord other] =
      Inr (Some [OGroup (Cur g [] [(t, [])])])"
proof -
  define t where "t = Nd (Some (cstr w)) VGroup False [g]"
  have "Node_cons False ''[Gw'' [CGroup (Some g), CWord (Some w)] = Inr (Some t)"
    using assms
    by (simp add: Node_cons_def cons_step.simps Node_create_def attach_def set_child_def LIST_ADD_def t_def)
  moreover have "Node_decons False (Some (root_cursor t)) copy ''[Gw'' [DGroup True, DWord other] =
      Inr (Some [OGroup (Cur g [] [(t, [])])])"
    using assms by (simp add: Node_decons_def root_cursor_def decons_step.simps t_def)
  ultimately show ?thesis by blast
qed

theorem group_word_unchecked_witness:
  "\<exists>t. Node_cons False ''[Gw'' [CGroup (Some (Node_create False VGroup)), CWord (Some ''chat'')] = Inr (Some t) \<and>
    Node_decons False (Some (root_cursor t)) False ''[Gw'' [DGroup True, DWord ''route''] =
      Inr (Some [OGroup (Cur (Node_create False VGroup) [] [(t, [])])])"
  by (rule group_word_unchecked) (simp add: Node_create_def)

end
