(* ===== verification/Ragel.thy ===== *)
theory Ragel
  imports Prelude
begin

text \<open>
  The table-driven state machines that Ragel generated for the program: the stackish
  scanner (\<open>src/stackish/stackish.c\<close>), the connection machine
  (\<open>src/hub/connection.c\<close>) and the hub machine (\<open>src/hub/hub.c\<close>) share one
  interpreter: a binary search of the current character among the state's single keys and
  then among its key ranges, the table look-up of the target state and the action list,
  and the loop over the input. The locale \<open>ragel_machine\<close> states what a set of tables
  promises to the rest of the development: that the look-up computes a given transition
  function.
\<close>

section \<open>Tables\<close>

record ragel_tables =
  r_actions :: "nat list"
  r_key_offsets :: "nat list"
  r_trans_keys :: "int list"
  r_single_lengths :: "nat list"
  r_range_lengths :: "nat list"
  r_index_offsets :: "nat list"
  r_indicies :: "nat list option"
  r_trans_targs :: "nat list"
  r_trans_actions :: "nat list"

text \<open>
  The two searches, with \<open>_lower\<close>, \<open>_mid\<close> and \<open>_upper\<close> as offsets from \<open>_keys\<close>.
  The range search steps over pairs: \<open>(((_upper-_lower) >> 1) & ~1)\<close> is twice the
  quarter of the distance.
\<close>

function search_single :: "int list \<Rightarrow> int \<Rightarrow> int \<Rightarrow> int \<Rightarrow> nat option" where
  "search_single keys c lower upper =
     (if upper < lower then None
      else let mid = lower + (upper - lower) div 2
           in if c < keys ! nat mid then search_single keys c lower (mid - 1)
              else if c > keys ! nat mid then search_single keys c (mid + 1) upper
              else Some (nat mid))"
  by pat_completeness auto
termination
  by (relation "measure (\<lambda>(keys, c, lower, upper). nat (upper - lower + 1))") auto

function search_range :: "int list \<Rightarrow> int \<Rightarrow> int \<Rightarrow> int \<Rightarrow> nat option" where
  "search_range keys c lower upper =
     (if upper < lower then None
      else let mid = lower + 2 * ((upper - lower) div 4)
           in if c < keys ! nat mid then search_range keys c lower (mid - 2)
              else if c > keys ! nat (mid + 1) then search_range keys c (mid + 2) upper
              else Some (nat mid))"
  by pat_completeness auto
termination
  by (relation "measure (\<lambda>(keys, c, lower, upper). nat (upper - lower + 2))") auto

declare search_single.simps [simp del] search_range.simps [simp del]

definition ragel_trans :: "ragel_tables \<Rightarrow> nat \<Rightarrow> int \<Rightarrow> nat" where
  "ragel_trans T cs c =
     (let keys = drop (r_key_offsets T ! cs) (r_trans_keys T);
          trans = r_index_offsets T ! cs;
          klen = r_single_lengths T ! cs;
          rlen = r_range_lengths T ! cs
      in case (if klen > 0 then search_single keys c 0 (int klen - 1) else None) of
           Some mid \<Rightarrow> trans + mid
         | None \<Rightarrow>
             (case (if rlen > 0 then search_range (drop klen keys) c 0 (2 * int rlen - 2) else None) of
                Some mid \<Rightarrow> trans + klen + mid div 2
              | None \<Rightarrow> trans + klen + rlen))"

text \<open>The target state and the action list of a transition, after \<open>_match\<close>.\<close>

definition ragel_entry :: "ragel_tables \<Rightarrow> nat \<Rightarrow> nat \<times> nat list" where
  "ragel_entry T t =
     (let i = (case r_indicies T of None \<Rightarrow> t | Some ix \<Rightarrow> ix ! t);
          a = r_trans_actions T ! i
      in (r_trans_targs T ! i,
          if a = 0 then [] else take (r_actions T ! a) (drop (Suc a) (r_actions T))))"

definition ragel_next :: "ragel_tables \<Rightarrow> nat \<Rightarrow> int \<Rightarrow> nat \<times> nat list" where
  "ragel_next T cs c = ragel_entry T (ragel_trans T cs c)"

section \<open>The execution loop\<close>

text \<open>
  An action of the machine ends normally (\<open>break\<close> out of the \<open>switch\<close>), jumps to
  \<open>_again\<close> after setting the state (\<open>fgoto\<close>), or jumps to \<open>_out\<close> (\<open>fbreak\<close>).
\<close>

datatype ctl = Next_action | Goto_again | Goto_out

type_synonym 's action = "nat \<Rightarrow> nat \<Rightarrow> 's \<Rightarrow> (ctl \<times> 's) res"

fun run_actions :: "'s action \<Rightarrow> nat list \<Rightarrow> nat \<Rightarrow> 's \<Rightarrow> (bool \<times> 's) res" where
  "run_actions act [] p s = Inr (False, s)"
| "run_actions act (a # acts) p s =
     bind_res (act a p s) (\<lambda>(k, s').
       case k of
         Next_action \<Rightarrow> run_actions act acts p s'
       | Goto_again \<Rightarrow> Inr (False, s')
       | Goto_out \<Rightarrow> Inr (True, s'))"

text \<open>
  \<open>get\<close> and \<open>put\<close> read and write the machine's \<open>cs\<close>; the list is the input from
  \<open>p\<close> to \<open>pe\<close>. The result is the final \<open>p\<close> with the machine's state.
\<close>

fun ragel_exec :: "(nat \<Rightarrow> int \<Rightarrow> nat \<times> nat list) \<Rightarrow> ('s \<Rightarrow> nat) \<Rightarrow> (nat \<Rightarrow> 's \<Rightarrow> 's) \<Rightarrow>
    's action \<Rightarrow> int list \<Rightarrow> nat \<Rightarrow> 's \<Rightarrow> (nat \<times> 's) res" where
  "ragel_exec nxt get put act [] p s = Inr (p, s)"
| "ragel_exec nxt get put act (c # cs) p s =
     (if get s = 0 then Inr (p, s)
      else let (targ, acts) = nxt (get s) c
           in bind_res (run_actions act acts p (put targ s)) (\<lambda>(out, s').
                if out \<or> get s' = 0 then Inr (p, s')
                else ragel_exec nxt get put act cs (Suc p) s'))"

section \<open>The searches find the key\<close>

text \<open>Reference definitions: the same look-ups by a scan from the left.\<close>

fun scan_single :: "int list \<Rightarrow> int \<Rightarrow> nat \<Rightarrow> nat option" where
  "scan_single [] c i = None"
| "scan_single (k # ks) c i = (if c = k then Some i else scan_single ks c (Suc i))"

fun scan_range :: "int list \<Rightarrow> int \<Rightarrow> nat \<Rightarrow> nat option" where
  "scan_range (lo # hi # ks) c i =
     (if lo \<le> c \<and> c \<le> hi then Some i else scan_range ks c (Suc i))"
| "scan_range ks c i = None"

lemma search_single_unfold:
  assumes "\<not> upper < lower"
  shows "search_single keys c lower upper =
    (if c < keys ! nat (lower + (upper - lower) div 2)
     then search_single keys c lower (lower + (upper - lower) div 2 - 1)
     else if c > keys ! nat (lower + (upper - lower) div 2)
     then search_single keys c (lower + (upper - lower) div 2 + 1) upper
     else Some (nat (lower + (upper - lower) div 2)))"
  using assms by (subst search_single.simps) (simp only: if_False Let_def)

lemma search_range_unfold:
  assumes "\<not> upper < lower"
  shows "search_range keys c lower upper =
    (if c < keys ! nat (lower + 2 * ((upper - lower) div 4))
     then search_range keys c lower (lower + 2 * ((upper - lower) div 4) - 2)
     else if c > keys ! nat (lower + 2 * ((upper - lower) div 4) + 1)
     then search_range keys c (lower + 2 * ((upper - lower) div 4) + 2) upper
     else Some (nat (lower + 2 * ((upper - lower) div 4))))"
  using assms by (subst search_range.simps) (simp only: if_False Let_def)

lemma search_single_Some:
  "search_single keys c lower upper = Some m \<Longrightarrow> 0 \<le> lower \<Longrightarrow>
     lower \<le> int m \<and> int m \<le> upper \<and> keys ! m = c"
proof (induction keys c lower upper rule: search_single.induct)
  case (1 keys c lower upper)
  define mid where "mid = lower + (upper - lower) div 2"
  show ?case
  proof (cases "upper < lower")
    case True
    with "1.prems" show ?thesis by (simp add: search_single.simps)
  next
    case False
    then have mid: "lower \<le> mid" "mid \<le> upper" by (auto simp: mid_def)
    from "1.prems"(1) have eq:
      "(if c < keys ! nat mid then search_single keys c lower (mid - 1)
        else if c > keys ! nat mid then search_single keys c (mid + 1) upper
        else Some (nat mid)) = Some m"
      unfolding search_single_unfold [OF False] mid_def .
    consider "c < keys ! nat mid" | "c > keys ! nat mid" | "c = keys ! nat mid"
      by linarith
    then show ?thesis
    proof cases
      case 1
      with eq "1.IH"(1) [OF False mid_def 1] "1.prems"(2) mid show ?thesis by auto
    next
      case 2
      with eq "1.IH"(2) [OF False mid_def] "1.prems"(2) mid show ?thesis by auto
    next
      case 3
      with eq "1.prems"(2) mid show ?thesis by auto
    qed
  qed
qed

lemma search_single_None:
  "search_single keys c lower upper = None \<Longrightarrow> 0 \<le> lower \<Longrightarrow> upper < int n \<Longrightarrow>
     sorted_wrt (<) (take n keys) \<Longrightarrow> n \<le> length keys \<Longrightarrow>
     lower \<le> int i \<Longrightarrow> int i \<le> upper \<Longrightarrow> keys ! i \<noteq> c"
proof (induction keys c lower upper rule: search_single.induct)
  case (1 keys c lower upper)
  define mid where "mid = lower + (upper - lower) div 2"
  from "1.prems" have False: "\<not> upper < lower" by linarith
  then have mid: "lower \<le> mid" "mid \<le> upper" by (auto simp: mid_def)
  from "1.prems"(1) have eq:
    "(if c < keys ! nat mid then search_single keys c lower (mid - 1)
      else if c > keys ! nat mid then search_single keys c (mid + 1) upper
      else Some (nat mid)) = None"
    unfolding search_single_unfold [OF False] mid_def .
  have less: "j < k \<Longrightarrow> k < n \<Longrightarrow> keys ! j < keys ! k" for j k
    using "1.prems"(4,5) by (auto simp: sorted_wrt_iff_nth_less)
  consider "c < keys ! nat mid" | "c > keys ! nat mid"
    using eq by (fastforce split: if_splits)
  then show ?case
  proof cases
    case 1
    show ?thesis
    proof (cases "int i \<le> mid - 1")
      case True
      with eq 1 "1.IH"(1) [OF False mid_def 1] "1.prems" mid show ?thesis by auto
    next
      case False
      then have "nat mid \<le> i" by simp
      moreover have "i < n" using "1.prems" by linarith
      ultimately have "keys ! nat mid \<le> keys ! i"
        using less [of "nat mid" i] by (cases "nat mid = i") auto
      with 1 show ?thesis by simp
    qed
  next
    case 2
    show ?thesis
    proof (cases "mid + 1 \<le> int i")
      case True
      with eq 2 "1.IH"(2) [OF False mid_def _ 2] "1.prems" mid show ?thesis by auto
    next
      case False
      then have "i \<le> nat mid" using "1.prems"(2) mid by linarith
      moreover have "nat mid < n" using "1.prems" mid by linarith
      ultimately have "keys ! i \<le> keys ! nat mid"
        using less [of i "nat mid"] by (cases "nat mid = i") auto
      with 2 show ?thesis by simp
    qed
  qed
qed

lemma scan_single_None: "scan_single ks c i = None \<longleftrightarrow> c \<notin> set ks"
  by (induction ks arbitrary: i) auto

lemma scan_single_nth:
  "distinct ks \<Longrightarrow> m < length ks \<Longrightarrow> ks ! m = c \<Longrightarrow> scan_single ks c i = Some (i + m)"
proof (induction ks arbitrary: i m)
  case (Cons k ks)
  then show ?case by (cases m) auto
qed simp

lemma search_single_scan:
  assumes srt: "sorted_wrt (<) (take n keys)" and n: "n \<le> length keys"
  shows "search_single keys c 0 (int n - 1) = scan_single (take n keys) c 0"
proof (cases "search_single keys c 0 (int n - 1)")
  case None
  have "c \<notin> set (take n keys)"
  proof
    assume "c \<in> set (take n keys)"
    then obtain i where "i < n" "keys ! i = c"
      using n by (auto simp: in_set_conv_nth)
    with search_single_None [OF None _ _ srt n, of i] show False by simp
  qed
  with None show ?thesis by (simp add: scan_single_None [THEN iffD2])
next
  case (Some m)
  from search_single_Some [OF Some] have "m < n" "take n keys ! m = c" by auto
  moreover have "distinct (take n keys)"
    using srt by (simp add: strict_sorted_iff)
  ultimately show ?thesis
    using Some n scan_single_nth [of "take n keys" m c 0] by simp
qed


lemma search_range_Some:
  "search_range keys c lower upper = Some m \<Longrightarrow> 0 \<le> lower \<Longrightarrow> even lower \<Longrightarrow>
     even m \<and> lower \<le> int m \<and> int m \<le> upper \<and> keys ! m \<le> c \<and> c \<le> keys ! Suc m"
proof (induction keys c lower upper rule: search_range.induct)
  case (1 keys c lower upper)
  define mid where "mid = lower + 2 * ((upper - lower) div 4)"
  show ?case
  proof (cases "upper < lower")
    case True
    with "1.prems" show ?thesis by (simp add: search_range.simps)
  next
    case False
    then have mid: "lower \<le> mid" "mid \<le> upper" "even mid"
      using "1.prems"(3) by (auto simp: mid_def)
    from "1.prems"(1) have eq:
      "(if c < keys ! nat mid then search_range keys c lower (mid - 2)
        else if c > keys ! nat (mid + 1) then search_range keys c (mid + 2) upper
        else Some (nat mid)) = Some m"
      unfolding search_range_unfold [OF False] mid_def .
    consider "c < keys ! nat mid" | "\<not> c < keys ! nat mid" "c > keys ! nat (mid + 1)"
      | "keys ! nat mid \<le> c" "c \<le> keys ! nat (mid + 1)"
      by linarith
    then show ?thesis
    proof cases
      case 1
      with eq "1.IH"(1) [OF False mid_def 1] "1.prems"(2,3) mid show ?thesis by auto
    next
      case 2
      with eq "1.IH"(2) [OF False mid_def 2] "1.prems"(2,3) mid show ?thesis by auto
    next
      case 3
      with eq have "m = nat mid" by simp
      with 3 "1.prems"(2) mid show ?thesis
        by (auto simp: nat_add_distrib even_nat_iff)
    qed
  qed
qed

lemma search_range_None:
  "search_range keys c lower upper = None \<Longrightarrow> 0 \<le> lower \<Longrightarrow> even lower \<Longrightarrow> even upper \<Longrightarrow>
     upper < 2 * int n \<Longrightarrow> sorted (take (2 * n) keys) \<Longrightarrow> 2 * n \<le> length keys \<Longrightarrow>
     even i \<Longrightarrow> lower \<le> int i \<Longrightarrow> int i \<le> upper \<Longrightarrow> \<not> (keys ! i \<le> c \<and> c \<le> keys ! Suc i)"
proof (induction keys c lower upper rule: search_range.induct)
  case (1 keys c lower upper)
  define mid where "mid = lower + 2 * ((upper - lower) div 4)"
  from "1.prems" have False: "\<not> upper < lower" by linarith
  then have mid: "lower \<le> mid" "mid \<le> upper" "even mid"
    using "1.prems"(3) by (auto simp: mid_def)
  from "1.prems"(1) have eq:
    "(if c < keys ! nat mid then search_range keys c lower (mid - 2)
      else if c > keys ! nat (mid + 1) then search_range keys c (mid + 2) upper
      else Some (nat mid)) = None"
    unfolding search_range_unfold [OF False] mid_def .
  have le: "j \<le> k \<Longrightarrow> k < 2 * n \<Longrightarrow> keys ! j \<le> keys ! k" for j k
    using "1.prems"(6,7) sorted_nth_mono [of "take (2 * n) keys" j k] by simp
  consider "c < keys ! nat mid" | "\<not> c < keys ! nat mid" "c > keys ! nat (mid + 1)"
    using eq by (fastforce split: if_splits)
  then show ?case
  proof cases
    case 1
    show ?thesis
    proof (cases "int i \<le> mid - 2")
      case True
      with eq 1 "1.IH"(1) [OF False mid_def 1] "1.prems" mid show ?thesis by auto
    next
      case False
      then have "mid \<le> int i" using "1.prems"(8) mid(3) by presburger
      then have "nat mid \<le> i" by simp
      moreover have "i < 2 * n" using "1.prems" by linarith
      ultimately have "keys ! nat mid \<le> keys ! i" by (rule le)
      with 1 show ?thesis by simp
    qed
  next
    case 2
    show ?thesis
    proof (cases "mid + 2 \<le> int i")
      case True
      with eq 2 "1.IH"(2) [OF False mid_def 2] "1.prems" mid show ?thesis by auto
    next
      case False
      then have "int i \<le> mid" using "1.prems"(8) mid(3) by presburger
      then have "Suc i \<le> nat (mid + 1)" using "1.prems"(2) mid by linarith
      moreover have "mid + 1 < 2 * int n"
        using "1.prems"(4,5) mid(2,3) by presburger
      then have "nat (mid + 1) < 2 * n" using "1.prems"(2) mid(1) by linarith
      ultimately have "keys ! Suc i \<le> keys ! nat (mid + 1)" by (rule le)
      with 2 show ?thesis by simp
    qed
  qed
qed

lemma scan_range_None:
  "scan_range ks c j = None \<longleftrightarrow>
     (\<forall>i. Suc (2 * i) < length ks \<longrightarrow> \<not> (ks ! (2 * i) \<le> c \<and> c \<le> ks ! Suc (2 * i)))"
proof (induction ks c j rule: scan_range.induct)
  case (1 lo hi ks c j)
  show ?case (is "_ \<longleftrightarrow> (\<forall>i. ?P i)")
  proof -
    have "(\<forall>i. ?P i) \<longleftrightarrow> ?P 0 \<and> (\<forall>i. ?P (Suc i))"
      by (metis nat.exhaust)
    with 1 show ?thesis by auto
  qed
qed auto

lemma scan_range_nth:
  "sorted_wrt (<) ks \<Longrightarrow> Suc (2 * m) < length ks \<Longrightarrow> ks ! (2 * m) \<le> c \<Longrightarrow> c \<le> ks ! Suc (2 * m) \<Longrightarrow>
     scan_range ks c j = Some (j + m)"
proof (induction ks c j arbitrary: m rule: scan_range.induct)
  case (1 lo hi ks c j)
  show ?case
  proof (cases m)
    case 0
    with 1 show ?thesis by simp
  next
    case (Suc k)
    with "1.prems" have "ks ! (2 * k) \<in> set ks" "ks ! (2 * k) \<le> c" by auto
    with "1.prems"(1) have "hi < c" by fastforce
    moreover have "scan_range ks c (Suc j) = Some (Suc j + k)"
      using "1.prems" Suc calculation by (intro "1.IH") auto
    ultimately show ?thesis using Suc by simp
  qed
qed auto


lemma search_range_scan:
  assumes srt: "sorted_wrt (<) (take (2 * n) keys)" and n: "2 * n \<le> length keys"
  shows "map_option (\<lambda>m. m div 2) (search_range keys c 0 (2 * int n - 2)) =
    scan_range (take (2 * n) keys) c 0"
proof (cases "search_range keys c 0 (2 * int n - 2)")
  case None
  have "sorted (take (2 * n) keys)"
    using srt by (simp add: strict_sorted_iff)
  from search_range_None [OF None _ _ _ _ this n]
  have "\<not> (keys ! (2 * i) \<le> c \<and> c \<le> keys ! Suc (2 * i))" if "Suc (2 * i) < 2 * n" for i
    using that by (simp del: mult_Suc_right)
  then have "scan_range (take (2 * n) keys) c 0 = None"
    using n by (simp add: scan_range_None [THEN iffD2])
  with None show ?thesis by simp
next
  case (Some m)
  from search_range_Some [OF Some] obtain k where k: "m = 2 * k" "k < n"
    "keys ! (2 * k) \<le> c" "c \<le> keys ! Suc (2 * k)"
    by (auto elim!: evenE)
  then have "scan_range (take (2 * n) keys) c 0 = Some (0 + k)"
    using srt n by (intro scan_range_nth) auto
  with Some k show ?thesis by simp
qed

text \<open>
  Well-formed tables: for every state the keys are there and in strictly increasing
  order, so that the binary searches agree with the scans.
\<close>

definition wf_keys :: "ragel_tables \<Rightarrow> nat \<Rightarrow> bool" where
  "wf_keys T cs \<longleftrightarrow>
     (let keys = drop (r_key_offsets T ! cs) (r_trans_keys T);
          klen = r_single_lengths T ! cs;
          rlen = r_range_lengths T ! cs
      in klen + 2 * rlen \<le> length keys \<and>
         sorted_wrt (<) (take klen keys) \<and>
         sorted_wrt (<) (take (2 * rlen) (drop klen keys)))"

definition scan_trans :: "ragel_tables \<Rightarrow> nat \<Rightarrow> int \<Rightarrow> nat" where
  "scan_trans T cs c =
     (let keys = drop (r_key_offsets T ! cs) (r_trans_keys T);
          klen = r_single_lengths T ! cs;
          rlen = r_range_lengths T ! cs
      in case scan_single (take klen keys) c 0 of
           Some i \<Rightarrow> r_index_offsets T ! cs + i
         | None \<Rightarrow>
             (case scan_range (take (2 * rlen) (drop klen keys)) c 0 of
                Some i \<Rightarrow> r_index_offsets T ! cs + klen + i
              | None \<Rightarrow> r_index_offsets T ! cs + klen + rlen))"

lemma ragel_trans_scan:
  assumes "wf_keys T cs"
  shows "ragel_trans T cs c = scan_trans T cs c"
proof -
  define keys where "keys = drop (r_key_offsets T ! cs) (r_trans_keys T)"
  define klen where "klen = r_single_lengths T ! cs"
  define rlen where "rlen = r_range_lengths T ! cs"
  have wf: "sorted_wrt (<) (take klen keys)" "klen \<le> length keys"
    "sorted_wrt (<) (take (2 * rlen) (drop klen keys))" "2 * rlen \<le> length (drop klen keys)"
    using assms by (auto simp: wf_keys_def keys_def klen_def rlen_def Let_def)
  have single: "(if klen > 0 then search_single keys c 0 (int klen - 1) else None) =
      scan_single (take klen keys) c 0"
    using search_single_scan [OF wf(1,2)] by simp
  have range: "map_option (\<lambda>m. m div 2)
      (if rlen > 0 then search_range (drop klen keys) c 0 (2 * int rlen - 2) else None) =
      scan_range (take (2 * rlen) (drop klen keys)) c 0"
    using search_range_scan [OF wf(3,4)] by simp
  show ?thesis
    unfolding ragel_trans_def scan_trans_def Let_def
    unfolding keys_def [symmetric] klen_def [symmetric] rlen_def [symmetric]
    unfolding single range [symmetric]
    by (auto split: option.splits)
qed

text \<open>
  The row of a state: its single keys and its key ranges, each with the transition it
  selects, and the transition taken when none matches. Rows of concrete tables evaluate
  to literals.
\<close>

type_synonym ragel_row =
  "(int \<times> nat \<times> nat list) list \<times> ((int \<times> int) \<times> nat \<times> nat list) list \<times> (nat \<times> nat list)"

fun key_pairs :: "int list \<Rightarrow> (int \<times> int) list" where
  "key_pairs (lo # hi # ks) = (lo, hi) # key_pairs ks"
| "key_pairs ks = []"

definition ragel_row :: "ragel_tables \<Rightarrow> nat \<Rightarrow> ragel_row" where
  "ragel_row T cs =
     (let keys = drop (r_key_offsets T ! cs) (r_trans_keys T);
          off = r_index_offsets T ! cs;
          klen = r_single_lengths T ! cs;
          rlen = r_range_lengths T ! cs
      in (zip (take klen keys) (map (ragel_entry T) [off ..< off + klen]),
          zip (key_pairs (take (2 * rlen) (drop klen keys)))
            (map (ragel_entry T) [off + klen ..< off + klen + rlen]),
          ragel_entry T (off + klen + rlen)))"

fun row_ranges :: "((int \<times> int) \<times> 'e) list \<Rightarrow> int \<Rightarrow> 'e \<Rightarrow> 'e" where
  "row_ranges [] c d = d"
| "row_ranges (((lo, hi), e) # rs) c d = (if lo \<le> c \<and> c \<le> hi then e else row_ranges rs c d)"

fun row_singles :: "(int \<times> 'e) list \<Rightarrow> int \<Rightarrow> 'e \<Rightarrow> 'e" where
  "row_singles [] c d = d"
| "row_singles ((k, e) # ks) c d = (if c = k then e else row_singles ks c d)"

fun row_lookup :: "ragel_row \<Rightarrow> int \<Rightarrow> nat \<times> nat list" where
  "row_lookup (singles, ranges, d) c = row_singles singles c (row_ranges ranges c d)"

lemma row_singles_scan:
  "row_singles (zip ks (map f [i ..< i + length ks])) c d =
     (case scan_single ks c i of None \<Rightarrow> d | Some j \<Rightarrow> f j)"
proof (induction ks arbitrary: i)
  case (Cons k ks)
  have "[i ..< i + length (k # ks)] = i # [Suc i ..< Suc i + length ks]"
    by (simp add: upt_rec)
  with Cons [of "Suc i"] show ?case by simp
qed simp

lemma row_ranges_scan:
  "row_ranges (zip (key_pairs ks) (map f [i ..< i + length (key_pairs ks)])) c d =
     (case scan_range ks c i of None \<Rightarrow> d | Some j \<Rightarrow> f j)"
proof (induction ks c i rule: scan_range.induct)
  case (1 lo hi ks c i)
  have "[i ..< i + length (key_pairs (lo # hi # ks))] = i # [Suc i ..< Suc i + length (key_pairs ks)]"
    by (simp add: upt_rec)
  with 1 show ?case by simp
qed simp_all

lemma length_key_pairs: "length (key_pairs ks) = length ks div 2"
  by (induction ks rule: key_pairs.induct) simp_all

lemma scan_single_shift: "scan_single ks c (i + n) = map_option (\<lambda>j. i + j) (scan_single ks c n)"
  by (induction ks arbitrary: n) (simp_all flip: add_Suc_right)

lemma scan_range_shift: "scan_range ks c (i + n) = map_option (\<lambda>j. i + j) (scan_range ks c n)"
  by (induction ks c n rule: scan_range.induct) (simp_all flip: add_Suc_right)

lemma ragel_next_row:
  assumes "wf_keys T cs"
  shows "ragel_next T cs c = row_lookup (ragel_row T cs) c"
proof -
  define keys where "keys = drop (r_key_offsets T ! cs) (r_trans_keys T)"
  define klen where "klen = r_single_lengths T ! cs"
  define rlen where "rlen = r_range_lengths T ! cs"
  define off where "off = r_index_offsets T ! cs"
  have len: "length (take klen keys) = klen" "length (key_pairs (take (2 * rlen) (drop klen keys))) = rlen"
    using assms
    by (auto simp: wf_keys_def keys_def klen_def rlen_def Let_def length_key_pairs)
  have "row_lookup (ragel_row T cs) c =
    (case scan_single (take klen keys) c (off + 0) of
       Some j \<Rightarrow> ragel_entry T j
     | None \<Rightarrow>
         (case scan_range (take (2 * rlen) (drop klen keys)) c (off + klen + 0) of
            Some j \<Rightarrow> ragel_entry T j
          | None \<Rightarrow> ragel_entry T (off + klen + rlen)))"
    unfolding ragel_row_def Let_def row_lookup.simps
    unfolding keys_def [symmetric] klen_def [symmetric] rlen_def [symmetric] off_def [symmetric]
    using row_singles_scan [of "take klen keys" "ragel_entry T" off]
      row_ranges_scan [of "take (2 * rlen) (drop klen keys)" "ragel_entry T" "off + klen"]
    by (simp only: len add_0_right)
  also have "\<dots> = ragel_entry T (scan_trans T cs c)"
    unfolding scan_trans_def Let_def scan_single_shift scan_range_shift
    unfolding keys_def [symmetric] klen_def [symmetric] rlen_def [symmetric] off_def [symmetric]
    by (simp split: option.splits)
  finally show ?thesis
    by (simp only: ragel_next_def ragel_trans_scan [OF assms])
qed

section \<open>What a set of tables promises\<close>

text \<open>
  \<open>delta\<close> is the machine as the chart in the \<open>.rl\<close> file describes it; state 0 is
  Ragel's error state, from which nothing is looked up.
\<close>

locale ragel_machine =
  fixes T :: ragel_tables
    and nstates :: nat
    and delta :: "nat \<Rightarrow> int \<Rightarrow> nat \<times> nat list"
  assumes table_delta: "\<lbrakk> 0 < cs; cs < nstates; -128 \<le> c; c < 128 \<rbrakk> \<Longrightarrow> ragel_next T cs c = delta cs c"
    and delta_target: "\<lbrakk> 0 < cs; cs < nstates; -128 \<le> c; c < 128 \<rbrakk> \<Longrightarrow> fst (delta cs c) < nstates"
begin

lemma run_actions_state:
  assumes act: "\<And>a p s k s'. act a p s = Inr (k, s') \<Longrightarrow> get s < nstates \<Longrightarrow> get s' < nstates"
  shows "run_actions act acts p s = Inr (out, s') \<Longrightarrow> get s < nstates \<Longrightarrow> get s' < nstates"
proof (induction acts arbitrary: s)
  case (Cons a acts)
  from Cons.prems obtain k t where a: "act a p s = Inr (k, t)" by auto
  with act Cons.prems have t: "get t < nstates" by blast
  from a Cons.prems(1) Cons.IH [OF _ t] t show ?case
    by (cases k) auto
qed simp

text \<open>Running the tables is running the chart, and the state stays one of the table's.\<close>

lemma exec_delta:
  assumes act: "\<And>a p s k s'. act a p s = Inr (k, s') \<Longrightarrow> get s < nstates \<Longrightarrow> get s' < nstates"
    and put: "\<And>n s. get (put n s) = n"
    and input: "\<forall>c \<in> set cs. -128 \<le> c \<and> c < 128"
    and start: "get s < nstates"
  shows "ragel_exec (ragel_next T) get put act cs p s = ragel_exec delta get put act cs p s"
  using input start
proof (induction cs arbitrary: p s)
  case (Cons c cs)
  show ?case
  proof (cases "get s = 0")
    case False
    obtain targ acts where d: "delta (get s) c = (targ, acts)" by (cases "delta (get s) c")
    with False Cons.prems have nxt: "ragel_next T (get s) c = (targ, acts)" "targ < nstates"
      using table_delta [of "get s" c] delta_target [of "get s" c] by auto
    have step: "get s' < nstates" if "run_actions act acts p (put targ s) = Inr (out, s')" for out s'
      by (intro run_actions_state [of act get, OF act that]) (simp_all add: put nxt(2))
    show ?thesis
      using Cons.IH Cons.prems(1) False
      by (auto simp: d nxt(1) intro!: bind_res_cong dest: step)
  qed simp
qed simp

lemma exec_state:
  assumes act: "\<And>a p s k s'. act a p s = Inr (k, s') \<Longrightarrow> get s < nstates \<Longrightarrow> get s' < nstates"
    and put: "\<And>n s. get (put n s) = n"
    and input: "\<forall>c \<in> set cs. -128 \<le> c \<and> c < 128"
    and start: "get s < nstates"
    and run: "ragel_exec (ragel_next T) get put act cs p s = Inr (p', s')"
  shows "get s' < nstates"
  using input start run
proof (induction cs arbitrary: p s)
  case (Cons c cs)
  show ?case
  proof (cases "get s = 0")
    case True
    with Cons.prems show ?thesis by simp
  next
    case False
    obtain targ acts where nxt: "ragel_next T (get s) c = (targ, acts)"
      by (cases "ragel_next T (get s) c")
    with False Cons.prems have "targ < nstates"
      using table_delta [of "get s" c] delta_target [of "get s" c] by auto
    then have "get t < nstates" if "run_actions act acts p (put targ s) = Inr (out, t)" for out t
      by (intro run_actions_state [of act get, OF act that]) (simp_all add: put)
    with Cons.IH Cons.prems False nxt show ?thesis
      by (auto split: if_splits)
  qed
qed simp

end

end
