(* ===== verification/StackishTables.thy ===== *)
theory StackishTables
  imports Ragel
begin

text \<open>
  The tables of the stackish scanner, as Ragel generated them into
  \<open>src/stackish/stackish.c\<close>, and the chart they encode, written out state by state.
\<close>

section \<open>The generated tables\<close>

definition stackish_tables :: ragel_tables where
  "stackish_tables = \<lparr>
    r_actions = [
      0, 1, 0, 1, 1, 1, 2, 1, 3, 1, 4, 1, 5, 1, 6, 1, 7, 1, 8, 1, 9, 2, 0, 3, 2, 1, 0, 2,
      1, 4, 2, 1, 7, 2, 2, 0, 2, 2, 4, 2, 2, 7, 2, 6, 0, 2, 6, 4, 2, 6, 7, 2, 9, 0, 2, 9,
      4, 2, 9, 7],
    r_key_offsets = [
      0, 0, 1, 2, 4, 7, 8, 10, 13, 15, 19, 35, 51, 69, 87],
    r_trans_keys = [
      34, 34, 48, 57, 58, 48, 57, 39, 48, 57, 46, 48, 57, 48, 57, 65, 90, 97, 122, 32, 34,
      39, 43, 45, 64, 91, 93, 9, 13, 48, 57, 65, 90, 97, 122, 32, 34, 39, 43, 45, 64, 91,
      93, 9, 13, 48, 57, 65, 90, 97, 122, 32, 34, 39, 43, 64, 91, 93, 95, 9, 13, 45, 46,
      48, 58, 65, 90, 97, 122, 32, 34, 39, 43, 64, 91, 93, 95, 9, 13, 45, 46, 48, 58, 65,
      90, 97, 122, 32, 34, 39, 43, 45, 46, 64, 91, 93, 9, 13, 48, 57, 65, 90, 97, 122, 0],
    r_single_lengths = [
      0, 1, 1, 0, 1, 1, 0, 1, 0, 0, 8, 8, 8, 8, 9],
    r_range_lengths = [
      0, 0, 0, 1, 1, 0, 1, 1, 1, 2, 4, 4, 5, 5, 4],
    r_index_offsets = [
      0, 0, 2, 4, 6, 9, 11, 13, 16, 18, 21, 34, 47, 61, 75],
    r_indicies = None,
    r_trans_targs = [
      10, 2, 10, 2, 4, 0, 5, 4, 0, 10, 0, 7, 0, 8, 7, 0, 11, 0, 12, 12, 0, 10, 1, 3, 6, 6,
      9, 10, 10, 10, 14, 13, 13, 0, 10, 1, 3, 6, 6, 9, 10, 10, 10, 11, 13, 13, 0, 10, 1, 3,
      6, 9, 10, 10, 12, 10, 12, 12, 12, 12, 0, 10, 1, 3, 6, 9, 10, 10, 13, 10, 13, 13, 13,
      13, 0, 10, 1, 3, 6, 6, 8, 9, 10, 10, 10, 14, 13, 13, 0, 0],
    r_trans_actions = [
      21, 1, 7, 0, 1, 0, 17, 0, 0, 11, 0, 0, 0, 0, 0, 0, 0, 0, 0, 0, 0, 0, 0, 0, 1, 1, 1,
      9, 15, 0, 1, 1, 1, 0, 5, 5, 5, 33, 33, 33, 36, 39, 5, 0, 33, 33, 0, 19, 19, 19, 51,
      51, 54, 57, 0, 19, 0, 0, 0, 0, 0, 13, 13, 13, 42, 42, 45, 48, 0, 13, 0, 0, 0, 0, 0,
      3, 3, 3, 24, 24, 0, 24, 27, 30, 3, 0, 24, 24, 0, 0] \<rparr>"

section \<open>The chart\<close>

definition is_space :: "int \<Rightarrow> bool" where
  "is_space c \<longleftrightarrow> 9 \<le> c \<and> c \<le> 13 \<or> c = 32"

definition is_digit :: "int \<Rightarrow> bool" where
  "is_digit c \<longleftrightarrow> 48 \<le> c \<and> c \<le> 57"

definition is_alpha :: "int \<Rightarrow> bool" where
  "is_alpha c \<longleftrightarrow> 65 \<le> c \<and> c \<le> 90 \<or> 97 \<le> c \<and> c \<le> 122"

definition is_wordch :: "int \<Rightarrow> bool" where
  "is_wordch c \<longleftrightarrow> is_alpha c \<or> is_digit c \<or> 45 \<le> c \<and> c \<le> 46 \<or> c = 58 \<or> c = 95"

text \<open>
  The start of a token, after the actions \<open>acts\<close> that end the token before it: white
  space, a string, a blob, a signed float, an attribute, the two brackets, a number or a
  word.
\<close>

definition token_start :: "nat list \<Rightarrow> int \<Rightarrow> nat \<times> nat list" where
  "token_start acts c =
     (if is_space c then (10, acts)
      else if c = 34 then (1, acts)
      else if c = 39 then (3, acts)
      else if c = 43 \<or> c = 45 then (6, acts @ [0])
      else if c = 64 then (9, acts @ [0])
      else if c = 91 then (10, acts @ [4])
      else if c = 93 then (10, acts @ [7])
      else if is_digit c then (14, acts @ [0])
      else if is_alpha c then (13, acts @ [0])
      else (0, []))"

definition stackish_delta :: "nat \<Rightarrow> int \<Rightarrow> nat \<times> nat list" where
  "stackish_delta cs c =
     (if cs = 1 then (if c = 34 then (10, [0, 3]) else (2, [0]))
      else if cs = 2 then (if c = 34 then (10, [3]) else (2, []))
      else if cs = 3 then (if is_digit c then (4, [0]) else (0, []))
      else if cs = 4 then (if c = 58 then (5, [8]) else if is_digit c then (4, []) else (0, []))
      else if cs = 5 then (if c = 39 then (10, [5]) else (0, []))
      else if cs = 6 then (if is_digit c then (7, []) else (0, []))
      else if cs = 7 then (if c = 46 then (8, []) else if is_digit c then (7, []) else (0, []))
      else if cs = 8 then (if is_digit c then (11, []) else (0, []))
      else if cs = 9 then (if is_alpha c then (12, []) else (0, []))
      else if cs = 10 then token_start [] c
      else if cs = 11 then (if is_digit c then (11, []) else token_start [2] c)
      else if cs = 12 then (if is_wordch c then (12, []) else token_start [9] c)
      else if cs = 13 then (if is_wordch c then (13, []) else token_start [6] c)
      else if cs = 14 then
        (if c = 46 then (8, []) else if is_digit c then (14, []) else token_start [1] c)
      else (0, []))"

lemmas chart_defs = stackish_delta_def token_start_def is_space_def is_digit_def is_alpha_def is_wordch_def

section \<open>The tables encode the chart\<close>

lemma stackish_wf_keys: "list_all (wf_keys stackish_tables) [1 ..< 15]"
  by code_simp

lemma stackish_row:
  "ragel_row stackish_tables 1 =
     ([(34, 10, [0, 3])],
      [], 2, [0])"
  "ragel_row stackish_tables 2 =
     ([(34, 10, [3])],
      [], 2, [])"
  "ragel_row stackish_tables 3 =
     ([],
      [((48, 57), 4, [0])], 0, [])"
  "ragel_row stackish_tables 4 =
     ([(58, 5, [8])],
      [((48, 57), 4, [])], 0, [])"
  "ragel_row stackish_tables 5 =
     ([(39, 10, [5])],
      [], 0, [])"
  "ragel_row stackish_tables 6 =
     ([],
      [((48, 57), 7, [])], 0, [])"
  "ragel_row stackish_tables 7 =
     ([(46, 8, [])],
      [((48, 57), 7, [])], 0, [])"
  "ragel_row stackish_tables 8 =
     ([],
      [((48, 57), 11, [])], 0, [])"
  "ragel_row stackish_tables 9 =
     ([],
      [((65, 90), 12, []), ((97, 122), 12, [])], 0, [])"
  "ragel_row stackish_tables 10 =
     ([(32, 10, []), (34, 1, []), (39, 3, []), (43, 6, [0]), (45, 6, [0]), (64, 9, [0]),
       (91, 10, [4]), (93, 10, [7])],
      [((9, 13), 10, []), ((48, 57), 14, [0]), ((65, 90), 13, [0]), ((97, 122), 13, [0])], 0, [])"
  "ragel_row stackish_tables 11 =
     ([(32, 10, [2]), (34, 1, [2]), (39, 3, [2]), (43, 6, [2, 0]), (45, 6, [2, 0]),
       (64, 9, [2, 0]), (91, 10, [2, 4]), (93, 10, [2, 7])],
      [((9, 13), 10, [2]), ((48, 57), 11, []), ((65, 90), 13, [2, 0]),
       ((97, 122), 13, [2, 0])], 0, [])"
  "ragel_row stackish_tables 12 =
     ([(32, 10, [9]), (34, 1, [9]), (39, 3, [9]), (43, 6, [9, 0]), (64, 9, [9, 0]),
       (91, 10, [9, 4]), (93, 10, [9, 7]), (95, 12, [])],
      [((9, 13), 10, [9]), ((45, 46), 12, []), ((48, 58), 12, []), ((65, 90), 12, []),
       ((97, 122), 12, [])], 0, [])"
  "ragel_row stackish_tables 13 =
     ([(32, 10, [6]), (34, 1, [6]), (39, 3, [6]), (43, 6, [6, 0]), (64, 9, [6, 0]),
       (91, 10, [6, 4]), (93, 10, [6, 7]), (95, 13, [])],
      [((9, 13), 10, [6]), ((45, 46), 13, []), ((48, 58), 13, []), ((65, 90), 13, []),
       ((97, 122), 13, [])], 0, [])"
  "ragel_row stackish_tables 14 =
     ([(32, 10, [1]), (34, 1, [1]), (39, 3, [1]), (43, 6, [1, 0]), (45, 6, [1, 0]),
       (46, 8, []), (64, 9, [1, 0]), (91, 10, [1, 4]), (93, 10, [1, 7])],
      [((9, 13), 10, [1]), ((48, 57), 14, []), ((65, 90), 13, [1, 0]),
       ((97, 122), 13, [1, 0])], 0, [])"
  by code_simp+


lemma stackish_states:
  assumes "0 < cs" "cs < (15 :: nat)"
  shows "cs = 1 \<or> cs = 2 \<or> cs = 3 \<or> cs = 4 \<or> cs = 5 \<or> cs = 6 \<or> cs = 7 \<or>
     cs = 8 \<or> cs = 9 \<or> cs = 10 \<or> cs = 11 \<or> cs = 12 \<or> cs = 13 \<or> cs = 14"
proof -
  have "[1 ..< 15] = [1, 2, 3, 4, 5, 6, 7, 8, 9, 10, 11, 12, 13, 14 :: nat]" by code_simp
  moreover have "cs \<in> set [1 ..< 15]" using assms by simp
  ultimately show ?thesis by (simp only: list.set insert_iff empty_iff simp_thms)
qed

lemma stackish_table_delta:
  assumes "0 < cs" "cs < (15 :: nat)"
  shows "ragel_next stackish_tables cs c = stackish_delta cs c"
proof -
  have "wf_keys stackish_tables cs"
    using stackish_wf_keys assms by (simp add: list_all_iff)
  then have "ragel_next stackish_tables cs c = row_lookup (ragel_row stackish_tables cs) c"
    by (rule ragel_next_row)
  also have "\<dots> = stackish_delta cs c"
    using stackish_states [OF assms]
    by (elim disjE) (simp_all only: stackish_row, simp_all add: chart_defs)
  finally show ?thesis .
qed

lemma stackish_delta_target: "fst (stackish_delta cs c) < 15"
  by (simp add: stackish_delta_def token_start_def)

interpretation stackish: ragel_machine stackish_tables 15 stackish_delta
  by unfold_locales (simp_all add: stackish_table_delta stackish_delta_target)

text \<open>
  (C20) The generated tables, searched the way the generated code searches them, encode the
  chart: in every state and for every character the binary searches select the transition
  and the actions that the chart lists.
\<close>

theorem stackish_tables_chart:
  assumes "0 < cs" "cs < 15"
  shows "ragel_next stackish_tables cs c = stackish_delta cs c"
  using assms by (rule stackish_table_delta)

theorem stackish_tables_chart_witness: "ragel_next stackish_tables 13 32 = (10, [6])"
  using stackish_tables_chart [of 13 32] by (simp add: stackish_delta_def token_start_def is_wordch_def
      is_alpha_def is_digit_def is_space_def)

end
