(* ===== verification/NodeDestroy.thy ===== *)
theory NodeDestroy
  imports Node "HOL-Library.Multiset"
begin

text \<open>
  The non-recursive traversal of \<open>src/stackish/node_algo.h\<close> and \<open>Node_destroy\<close>, which
  runs it in post-order with \<open>sibling\<close> as the left and \<open>child\<close> as the right subtree.
  The traversal keeps its path in arrays of \<open>MAX_TREE_DEEP\<close> entries and asserts when
  they are full.
\<close>

section \<open>The traversal\<close>

definition MAX_TREE_DEEP :: nat where "MAX_TREE_DEEP = 128"

text \<open>
  The entries of \<open>_path_\<close>, \<open>_right_\<close> and \<open>_pass_\<close> below \<open>_pathi_\<close>, the topmost first.
\<close>

type_synonym frame = "node \<times> node list \<times> nat"

text \<open>The inner \<open>while\<close>: push down along \<open>left\<close>.\<close>

fun push_down :: "nat \<Rightarrow> node list \<Rightarrow> frame list \<Rightarrow> node list \<Rightarrow> (frame list \<times> node list) res" where
  "push_down order [] fs tr = Inr (fs, tr)"
| "push_down order (n # left) fs tr =
     (let fs' = (n, nd_child n, 0) # fs;
          tr' = (if order = 0 then tr @ [n] else tr)
      in if length fs' \<ge> MAX_TREE_DEEP then Inl AssertFailed
         else push_down order left fs' tr')"

text \<open>The \<open>do\<close> loop and the turn to the right: the next \<open>_cn_\<close>, the arrays, the trace.\<close>

fun pop_up :: "nat \<Rightarrow> frame list \<Rightarrow> node list \<Rightarrow> node list \<times> frame list \<times> node list" where
  "pop_up order [] tr = ([], [], tr)"
| "pop_up order ((n, right, pass) # fs) tr =
     (let tr' = (if order = 1 \<and> pass = 0 \<or> order = 2 \<and> (pass = 1 \<or> right = [])
                 then tr @ [n] else tr)
      in if fs \<noteq> [] \<and> right = [] then pop_up order fs tr'
         else (right, (n, [], Suc pass) # fs, tr'))"

definition frames_size :: "frame list \<Rightarrow> nat" where
  "frames_size fs = sum_list (map (\<lambda>(n, right, pass). size_list size right) fs)"

lemma push_down_size:
  "push_down order cn fs tr = Inr (fs', tr') \<Longrightarrow>
     frames_size fs' + length cn \<le> frames_size fs + size_list size cn"
proof (induction cn arbitrary: fs tr)
  case (Cons n left)
  from Cons.prems Cons.IH [of "(n, nd_child n, 0) # fs"]
  have "frames_size fs' + length left \<le> frames_size ((n, nd_child n, 0) # fs) + size_list size left"
    by (auto simp: Let_def split: if_splits)
  then show ?case by (cases n) (simp add: frames_size_def)
qed simp

lemma pop_up_size:
  "pop_up order fs tr = (cn, fs', tr') \<Longrightarrow> size_list size cn + frames_size fs' \<le> frames_size fs"
  by (induction order fs tr rule: pop_up.induct)
    (auto simp: Let_def frames_size_def split: if_splits)

lemma tree_map_size:
  assumes "cn \<noteq> []" "push_down order cn fs tr = Inr (fs1, tr1)"
    "(cn2, fs2, tr2) = pop_up order fs1 tr1"
  shows "size_list size cn2 + frames_size fs2 < size_list size cn + frames_size fs"
proof -
  have "0 < length cn" using assms(1) by simp
  with push_down_size [OF assms(2)] pop_up_size [OF assms(3) [symmetric]] show ?thesis
    by linarith
qed

function tree_map :: "nat \<Rightarrow> node list \<Rightarrow> frame list \<Rightarrow> node list \<Rightarrow> node list res" where
  "tree_map order cn fs tr =
     (if cn = [] then Inr tr
      else bind_res (push_down order cn fs tr) (\<lambda>(fs1, tr1).
        case pop_up order fs1 tr1 of (cn2, fs2, tr2) \<Rightarrow> tree_map order cn2 fs2 tr2))"
  by pat_completeness auto
termination
proof (relation "measure (\<lambda>(order, cn, fs, tr). size_list size cn + frames_size fs)", goal_cases)
  case (2 order cn fs tr x fs1 tr1 cn2 y fs2 tr2)
  then have ne: "cn \<noteq> []" and push: "push_down order cn fs tr = Inr (fs1, tr1)"
    and pop: "pop_up order fs1 tr1 = (cn2, fs2, tr2)"
    by auto
  from tree_map_size [OF ne push pop [symmetric]] show ?case by (simp add: pop)
qed simp

declare tree_map.simps [simp del]

section \<open>Destroying a tree\<close>

text \<open>What is released: the string of a blob or string node, the name, the node itself.\<close>

datatype freed = FString bstring | FName string | FNode node

definition Node_intern_destroy :: "node \<Rightarrow> freed list" where
  "Node_intern_destroy d =
     (case nd_value d of VBlob b \<Rightarrow> [FString b] | VString b \<Rightarrow> [FString b] | _ \<Rightarrow> []) @
     (case nd_name d of None \<Rightarrow> [] | Some s \<Rightarrow> [FName s]) @ [FNode d]"

definition Node_destroy :: "node list \<Rightarrow> freed list res" where
  "Node_destroy root =
     bind_res (tree_map 2 root [] []) (\<lambda>tr. Inr (concat (map Node_intern_destroy tr)))"

section \<open>The traversal visits every node once, in order\<close>

text \<open>Reference definitions: the recursive traversal and the depth of the binary tree.\<close>

function visit :: "nat \<Rightarrow> node list \<Rightarrow> node list" where
  "visit order [] = []"
| "visit order (Nd nm v l ch # left) =
     (if order = 0 then [Nd nm v l ch] else []) @ visit order left @
     (if order = 1 then [Nd nm v l ch] else []) @ visit order ch @
     (if order = 2 then [Nd nm v l ch] else [])"
  by pat_completeness auto
termination by (relation "measure (\<lambda>(order, ns). size_list size ns)") auto

function bt_depth :: "node list \<Rightarrow> nat" where
  "bt_depth [] = 0"
| "bt_depth (Nd nm v l ch # left) = Suc (max (bt_depth left) (bt_depth ch))"
  by pat_completeness auto
termination by (relation "measure (size_list size)") auto

text \<open>What the loop does after a subtree is finished.\<close>

definition resume :: "nat \<Rightarrow> frame list \<Rightarrow> node list \<Rightarrow> node list res" where
  "resume order fs tr =
     (if fs = [] then Inr tr
      else case pop_up order fs tr of (cn, fs', tr') \<Rightarrow> tree_map order cn fs' tr')"

definition descend :: "nat \<Rightarrow> node list \<Rightarrow> frame list \<Rightarrow> node list \<Rightarrow> node list res" where
  "descend order cn fs tr = bind_res (push_down order cn fs tr) (\<lambda>(fs1, tr1). resume order fs1 tr1)"

lemma descend_Nil [simp]: "descend order [] fs tr = resume order fs tr"
  by (simp add: descend_def)

lemma descend_Cons:
  "descend order (n # left) fs tr =
     (if Suc (length fs) \<ge> MAX_TREE_DEEP then Inl AssertFailed
      else descend order left ((n, nd_child n, 0) # fs) (if order = 0 then tr @ [n] else tr))"
  by (simp add: descend_def Let_def)

lemma tree_map_descend: "cn \<noteq> [] \<Longrightarrow> tree_map order cn fs tr = descend order cn fs tr"
  unfolding descend_def resume_def
  by (subst tree_map.simps)
    (auto intro!: bind_res_cong simp: tree_map.simps [of order "[]"] split: prod.splits)

lemma resume_leaf:
  "resume order ((n, [], 0) # fs) tr = resume order fs (if order = 1 \<or> order = 2 then tr @ [n] else tr)"
  by (simp add: resume_def tree_map.simps [of order "[]"] Let_def)

lemma resume_turn:
  "ch \<noteq> [] \<Longrightarrow> resume order ((n, ch, 0) # fs) tr =
     descend order ch ((n, [], 1) # fs) (if order = 1 then tr @ [n] else tr)"
  by (simp add: resume_def tree_map_descend Let_def)

lemma resume_back:
  "resume order ((n, [], Suc 0) # fs) tr = resume order fs (if order = 2 then tr @ [n] else tr)"
  by (simp add: resume_def tree_map.simps [of order "[]"] Let_def)

lemma descend_visit:
  "order \<le> 2 \<Longrightarrow> bt_depth cn + length fs < MAX_TREE_DEEP \<Longrightarrow>
     descend order cn fs tr = resume order fs (tr @ visit order cn)"
proof (induction order cn arbitrary: fs tr rule: visit.induct)
  case (1 order)
  then show ?case by simp
next
  case (2 order nm v l ch left)
  define n where "n = Nd nm v l ch"
  have n: "nd_child n = ch" by (simp add: n_def)
  have visit_n: "visit order (n # left) =
      (if order = 0 then [n] else []) @ visit order left @ (if order = 1 then [n] else []) @
      visit order ch @ (if order = 2 then [n] else [])"
    by (simp add: n_def)
  have "descend order (n # left) fs tr =
      resume order ((n, ch, 0) # fs) ((if order = 0 then tr @ [n] else tr) @ visit order left)"
    using 2 by (simp add: descend_Cons n)
  also have "\<dots> = resume order fs (tr @ visit order (n # left))"
  proof (cases "ch = []")
    case True
    with "2.prems"(1) show ?thesis by (simp add: resume_leaf visit_n)
  next
    case False
    have ch: "descend order ch ((n, [], Suc 0) # fs) tr' =
        resume order fs (tr' @ visit order ch @ (if order = 2 then [n] else []))" for tr'
      using "2.IH"(2) [of "(n, [], Suc 0) # fs" tr'] "2.prems" by (simp add: resume_back)
    show ?thesis by (simp add: resume_turn [OF False] ch visit_n)
  qed
  finally show ?case by (simp add: n_def)
qed

lemma descend_deep:
  "order \<le> 2 \<Longrightarrow> cn \<noteq> [] \<Longrightarrow> MAX_TREE_DEEP \<le> bt_depth cn + length fs \<Longrightarrow>
     descend order cn fs tr = Inl AssertFailed"
proof (induction order cn arbitrary: fs tr rule: visit.induct)
  case (1 order)
  then show ?case by simp
next
  case (2 order nm v l ch left)
  define n where "n = Nd nm v l ch"
  have n: "nd_child n = ch" by (simp add: n_def)
  define tr1 where "tr1 = (if order = 0 then tr @ [n] else tr)"
  show ?case
  proof (cases "Suc (length fs) < MAX_TREE_DEEP")
    case False
    then show ?thesis by (simp add: descend_Cons)
  next
    case len: True
    then have eq: "descend order (n # left) fs tr = descend order left ((n, ch, 0) # fs) tr1"
      by (simp add: descend_Cons n tr1_def)
    show ?thesis
    proof (cases "bt_depth left + Suc (length fs) < MAX_TREE_DEEP")
      case False
      then have "left \<noteq> []" using len by auto
      with False "2.IH"(1) [of "(n, ch, 0) # fs" tr1] "2.prems"(1)
      show ?thesis by (simp add: eq [unfolded n_def] n_def)
    next
      case True
      then have deep: "MAX_TREE_DEEP \<le> bt_depth ch + Suc (length fs)"
        using "2.prems"(3) by simp
      then have "ch \<noteq> []" using len by auto
      have "descend order left ((n, ch, 0) # fs) tr1 = resume order ((n, ch, 0) # fs) (tr1 @ visit order left)"
        using True "2.prems"(1) by (simp add: descend_visit)
      also have "\<dots> = Inl AssertFailed"
        unfolding resume_turn [OF \<open>ch \<noteq> []\<close>]
        using deep "2.prems"(1) by (intro "2.IH"(2)) (simp_all add: \<open>ch \<noteq> []\<close>)
      finally show ?thesis using eq by (simp add: n_def)
    qed
  qed
qed

text \<open>The traversal in each of its three orders, and when it asserts.\<close>

lemma tree_map_visit:
  assumes "order \<le> 2"
  shows "tree_map order root [] [] =
    (if bt_depth root < MAX_TREE_DEEP then Inr (visit order root) else Inl AssertFailed)"
proof (cases "root = []")
  case True
  then show ?thesis by (simp add: tree_map.simps MAX_TREE_DEEP_def)
next
  case False
  then show ?thesis
    using descend_visit [of order root "[]" "[]"] descend_deep [of order root "[]" "[]"] assms
    by (simp add: tree_map_descend resume_def)
qed

section \<open>What destroying a tree does\<close>

text \<open>All nodes of a chain.\<close>

function all_nodes :: "node list \<Rightarrow> node list" where
  "all_nodes [] = []"
| "all_nodes (Nd nm v l ch # sibs) = Nd nm v l ch # all_nodes ch @ all_nodes sibs"
  by pat_completeness auto
termination by (relation "measure (size_list size)") auto

lemma visit_all: "order \<le> 2 \<Longrightarrow> mset (visit order ns) = mset (all_nodes ns)"
  by (induction order ns rule: visit.induct) auto

lemma length_bt_depth: "length ns \<le> bt_depth ns"
  by (induction ns rule: bt_depth.induct) auto

text \<open>
  (C17) \<open>Node_destroy\<close> on any tree: when the tree, read with siblings to the left and children
  to the right, is less than \<open>MAX_TREE_DEEP\<close> deep, every node is released exactly once, in
  post-order, so after everything that hangs below it; a deeper tree fails the assertion.
\<close>

theorem Node_destroy_visits:
  "Node_destroy root =
     (if bt_depth root < MAX_TREE_DEEP then Inr (concat (map Node_intern_destroy (visit 2 root)))
      else Inl AssertFailed) \<and>
   mset (visit 2 root) = mset (all_nodes root)"
  using tree_map_visit [of 2 root] visit_all [of 2 root] by (simp add: Node_destroy_def)

text \<open>
  In particular a root with 127 or more children cannot be destroyed, flat as it is: the siblings
  count as depth.
\<close>

lemma destroy_wide_group:
  assumes "127 \<le> length (nd_child t)"
  shows "Node_destroy [t] = Inl AssertFailed"
proof -
  have "Suc (length (nd_child t)) \<le> bt_depth [t]"
    using length_bt_depth [of "nd_child t"] by (cases t) simp
  with assms show ?thesis
    using tree_map_visit [of 2 "[t]"] by (simp add: Node_destroy_def MAX_TREE_DEEP_def)
qed

end
