(* ===== verification/Stackish.thy ===== *)
theory Stackish
  imports StackishTables NodeDestroy
begin

text \<open>
  The stackish parser: the actions of \<open>src/stackish/stackish.c\<close>, the entry points that
  \<open>src/stackish/ragel.h\<close> defines for it, and \<open>Node_parse_seq\<close> of
  \<open>src/stackish/node.c\<close>, which drives the parser across the blobs of a document.

  \<open>current\<close> and \<open>root\<close> are kept as the stack of open groups: its head is \<open>current\<close>
  and its last element \<open>root\<close>; both are NULL when it is empty. A group joins its parent's
  children when the parser moves up from it. The flag \<open>sp_errno\<close> is the C library's
  \<open>errno\<close>, which every \<open>check\<close> reads.
\<close>

section \<open>The parser state and its helpers\<close>

record stackish_parser =
  sp_cs :: nat
  sp_more :: "64 word"
  sp_nread :: "64 word"
  sp_mark :: "64 word"
  sp_stack :: "node list"
  sp_errno :: bool

definition stackish_parser_start :: nat where "stackish_parser_start = 10"
definition stackish_parser_first_final :: nat where "stackish_parser_first_final = 10"
definition stackish_parser_error :: nat where "stackish_parser_error = 0"

definition stackish_parser_init :: "bool \<Rightarrow> stackish_parser" where
  "stackish_parser_init er =
     \<lparr> sp_cs = stackish_parser_start, sp_more = 0, sp_nread = 0, sp_mark = 0,
       sp_stack = [], sp_errno = er \<rparr>"

text \<open>\<open>LEN(AT, FPC)\<close>: the difference is taken in \<open>size_t\<close>, so it wraps when it is negative.\<close>

definition LEN :: "64 word \<Rightarrow> nat \<Rightarrow> 64 word" where
  "LEN at fpc = word_of_nat fpc - at"

text \<open>A \<open>size_t\<close> passed for the \<open>int\<close> length of \<open>blk2bstr\<close>.\<close>

definition size_to_int :: "64 word \<Rightarrow> int" where
  "size_to_int len = sint (ucast len :: 32 word)"

definition PTR_TO :: "string \<Rightarrow> 64 word \<Rightarrow> string" where
  "PTR_TO buffer at = drop (unat at) buffer"

text \<open>
  \<open>Node_from_str\<close>: the value of the new node and \<open>errno\<close> afterwards. \<open>None\<close> is the
  NULL result, after \<open>fail\<close> has cleared \<open>errno\<close>.
\<close>

definition Node_from_str :: "bool \<Rightarrow> NodeType \<Rightarrow> string \<Rightarrow> 64 word \<Rightarrow> nvalue option \<times> bool" where
  "Node_from_str er type start len =
     (case type of
        TYPE_BLOB \<Rightarrow> (Some (VBlob (blk2bstr start (size_to_int len))), er)
      | TYPE_STRING \<Rightarrow> (Some (VString (blk2bstr start (size_to_int len))), er)
      | TYPE_NUMBER \<Rightarrow>
          (case strtoull start of (number, n, erange) \<Rightarrow>
             if word_of_nat n \<noteq> len \<or> er \<or> erange then (None, False)
             else (Some (VNumber number), False))
      | TYPE_FLOAT \<Rightarrow>
          (case strtod start of (floating, n, erange) \<Rightarrow>
             if word_of_nat n \<noteq> len \<or> er \<or> erange then (None, False)
             else (Some (VFloat floating), False))
      | _ \<Rightarrow> (None, False))"

text \<open>\<open>handle_push\<close> returns whether a node was added.\<close>

definition handle_push :: "NodeType \<Rightarrow> string \<Rightarrow> 64 word \<Rightarrow> stackish_parser \<Rightarrow> bool \<times> stackish_parser" where
  "handle_push type start len s =
     (case sp_stack s of
        [] \<Rightarrow> (False, s\<lparr> sp_errno := False \<rparr>)
      | current # rest \<Rightarrow>
          if sp_errno s \<or> nd_type current \<noteq> TYPE_GROUP then (False, s\<lparr> sp_errno := False \<rparr>)
          else
            (case Node_from_str (sp_errno s) type start len of
               (None, er) \<Rightarrow> (False, s\<lparr> sp_errno := er \<rparr>)
             | (Some v, er) \<Rightarrow>
                 (True, s\<lparr> sp_errno := er, sp_stack := attach current (Node_create True v) # rest \<rparr>)))"

text \<open>
  \<open>handle_word\<close>: 1 when the document is done, 0 when not, -1 on a failure. A NULL
  \<open>start\<close> drops the name.
\<close>

definition handle_word :: "string option \<Rightarrow> 64 word \<Rightarrow> stackish_parser \<Rightarrow> (int \<times> stackish_parser) res" where
  "handle_word start len s =
     (case sp_stack s of
        [] \<Rightarrow> Inr (-1, s\<lparr> sp_errno := False \<rparr>)
      | current # rest \<Rightarrow>
          if sp_errno s then Inr (-1, s\<lparr> sp_errno := False \<rparr>)
          else
            bind_res
              (case start of
                 None \<Rightarrow> Inr (Nd None (nd_value current) (nd_linked current) (nd_child current))
               | Some p \<Rightarrow> Node_name current (blk2bstr p (size_to_int len)))
              (\<lambda>cur.
                 case rest of
                   [] \<Rightarrow> Inr (1, s\<lparr> sp_stack := [cur] \<rparr>)
                 | parent # up \<Rightarrow> Inr (0, s\<lparr> sp_stack := attach parent cur # up \<rparr>)))"

definition handle_group :: "stackish_parser \<Rightarrow> (int \<times> stackish_parser) res" where
  "handle_group s = handle_word None 0 s"

definition handle_attr :: "string \<Rightarrow> 64 word \<Rightarrow> stackish_parser \<Rightarrow> (bool \<times> stackish_parser) res" where
  "handle_attr start len s =
     (case sp_stack s of
        [] \<Rightarrow> Inl NullDeref
      | parent # rest \<Rightarrow>
          (case nd_child parent of
             [] \<Rightarrow> Inr (False, s\<lparr> sp_errno := False \<rparr>)
           | current # sibs \<Rightarrow>
               if sp_errno s then Inr (False, s\<lparr> sp_errno := False \<rparr>)
               else
                 bind_res (Node_name current (blk2bstr start (size_to_int len))) (\<lambda>cur.
                   Inr (True, s\<lparr> sp_stack := set_child (cur # sibs) parent # rest \<rparr>))))"

definition handle_start :: "stackish_parser \<Rightarrow> stackish_parser" where
  "handle_start s = s\<lparr> sp_stack := Node_create (sp_stack s \<noteq> []) VGroup # sp_stack s \<rparr>"

section \<open>The actions of the scanner\<close>

definition push_ctl :: "bool \<times> stackish_parser \<Rightarrow> (ctl \<times> stackish_parser) res" where
  "push_ctl r = Inr (if fst r then Next_action else Goto_out, snd r)"

definition word_ctl :: "int \<times> stackish_parser \<Rightarrow> (ctl \<times> stackish_parser) res" where
  "word_ctl r = Inr (if fst r \<noteq> 0 then Goto_out else Next_action, snd r)"

definition stackish_more_action :: "string \<Rightarrow> nat \<Rightarrow> stackish_parser \<Rightarrow> (ctl \<times> stackish_parser) res" where
  "stackish_more_action buffer p s =
     (case strtoull (PTR_TO buffer (sp_mark s)) of (m, n, erange) \<Rightarrow>
        if unat (sp_mark s) + n \<noteq> p then Inl AssertFailed
        else Inr (if m > 0 then Goto_out else Next_action,
                  s\<lparr> sp_more := m, sp_errno := sp_errno s \<or> erange, sp_mark := word_of_nat (Suc p) \<rparr>))"

definition stackish_action :: "string \<Rightarrow> stackish_parser action" where
  "stackish_action buffer a p s =
     (let start = PTR_TO buffer (sp_mark s); len = LEN (sp_mark s) p
      in if a = 0 then Inr (Next_action, s\<lparr> sp_mark := word_of_nat p \<rparr>)
         else if a = 1 then push_ctl (handle_push TYPE_NUMBER start len s)
         else if a = 2 then push_ctl (handle_push TYPE_FLOAT start len s)
         else if a = 3 then push_ctl (handle_push TYPE_STRING start len s)
         else if a = 4 then Inr (Next_action, handle_start s)
         else if a = 5 then
           (case handle_push TYPE_BLOB start len s of
              (ok, s') \<Rightarrow> push_ctl (ok, if ok then s'\<lparr> sp_more := 0 \<rparr> else s'))
         else if a = 6 then bind_res (handle_word (Some start) len s) word_ctl
         else if a = 7 then bind_res (handle_group s) word_ctl
         else if a = 8 then stackish_more_action buffer p s
         else if a = 9 then bind_res (handle_attr start len s) push_ctl
         else Inr (Next_action, s))"

section \<open>The entry points\<close>

text \<open>
  \<open>stackish_parser_execute\<close> on a buffer that ends in the NUL every bstring has; the
  returned \<open>nread\<close> is also stored.
\<close>

definition stackish_run :: "(nat \<Rightarrow> int \<Rightarrow> nat \<times> nat list) \<Rightarrow> string \<Rightarrow> nat \<Rightarrow> stackish_parser \<Rightarrow>
    (nat \<times> stackish_parser) res" where
  "stackish_run nxt buffer p s =
     ragel_exec nxt sp_cs (\<lambda>n s. s\<lparr> sp_cs := n \<rparr>) (stackish_action buffer)
       (map schar (drop p buffer)) p s"

definition stackish_parser_execute :: "string \<Rightarrow> 64 word \<Rightarrow> stackish_parser \<Rightarrow> stackish_parser res" where
  "stackish_parser_execute buffer off s =
     (if length buffer < unat off then Inl AssertFailed
      else
        bind_res (stackish_run (ragel_next stackish_tables) buffer (unat off) s) (\<lambda>(p, s').
          Inr (s'\<lparr> sp_nread := word_of_nat p \<rparr>)))"

definition stackish_parser_has_error :: "stackish_parser \<Rightarrow> bool" where
  "stackish_parser_has_error s \<longleftrightarrow> sp_cs s = stackish_parser_error"

definition stackish_parser_is_finished :: "stackish_parser \<Rightarrow> bool" where
  "stackish_parser_is_finished s \<longleftrightarrow> sp_cs s = stackish_parser_first_final"

definition stackish_parser_finish :: "stackish_parser \<Rightarrow> int" where
  "stackish_parser_finish s =
     (if stackish_parser_has_error s then -1 else if stackish_parser_is_finished s then 1 else 0)"

definition stackish_more :: "stackish_parser \<Rightarrow> 64 word" where
  "stackish_more s = sp_more s"

text \<open>The tree below \<open>parser->root\<close>: every open group joined to its parent.\<close>

fun close_stack :: "node list \<Rightarrow> node option" where
  "close_stack [] = None"
| "close_stack [n] = Some n"
| "close_stack (n # p # st) = close_stack (attach p n # st)"

definition sp_root :: "stackish_parser \<Rightarrow> node option" where
  "sp_root s = close_stack (sp_stack s)"

definition stackish_node_clear :: "stackish_parser \<Rightarrow> stackish_parser res" where
  "stackish_node_clear s =
     (case sp_root s of
        None \<Rightarrow> Inr s
      | Some r \<Rightarrow> bind_res (Node_destroy [r]) (\<lambda>_. Inr (s\<lparr> sp_stack := [] \<rparr>)))"

definition stackish_node_destroy :: "stackish_parser \<Rightarrow> unit res" where
  "stackish_node_destroy s =
     (case sp_root s of None \<Rightarrow> Inr () | Some r \<Rightarrow> bind_res (Node_destroy [r]) (\<lambda>_. Inr ()))"

section \<open>Parsing a document\<close>

text \<open>
  The loop over the blobs of a document. It may run forever (\<open>None\<close>): the next offset
  \<open>nread + more + 1\<close> is computed in \<open>size_t\<close> and may lie before \<open>nread\<close>. The flag of
  the result is \<open>False\<close> for the jump to \<open>_check_fail\<close>, which clears \<open>errno\<close>.
\<close>

definition blob_pending :: "string \<Rightarrow> stackish_parser \<Rightarrow> bool" where
  "blob_pending buf s \<longleftrightarrow>
     stackish_more s \<noteq> 0 \<and> \<not> stackish_parser_is_finished s \<and> unat (sp_nread s) < length buf"

definition next_off :: "stackish_parser \<Rightarrow> 64 word" where
  "next_off s = sp_nread s + stackish_more s + 1"

partial_function (option) blob_loop :: "string \<Rightarrow> stackish_parser \<Rightarrow> (bool \<times> stackish_parser) res option" where
  "blob_loop buf s =
     (if blob_pending buf s then
        if \<not> unat (next_off s) < length buf then Some (Inl AssertFailed)
        else
          (case stackish_parser_execute buf (next_off s) s of
             Inl f \<Rightarrow> Some (Inl f)
           | Inr s' \<Rightarrow>
               if stackish_parser_has_error s' \<or> sp_errno s'
               then Some (Inr (False, s'\<lparr> sp_errno := False \<rparr>))
               else blob_loop buf s')
      else Some (Inr (True, s)))"

declare blob_loop.simps [code]

text \<open>Skipping the newlines after the document.\<close>

fun skip_newlines :: "string \<Rightarrow> nat" where
  "skip_newlines (c # cs) = (if c = CHR 0x0A then Suc (skip_newlines cs) else 0)"
| "skip_newlines [] = 0"

record parse_result =
  pr_root :: "node option"
  pr_from :: "64 word"
  pr_errno :: bool

definition parse_done :: "string \<Rightarrow> stackish_parser \<Rightarrow> parse_result res" where
  "parse_done buf s =
     (let from = sp_nread s + 1
      in Inr \<lparr> pr_root = sp_root s,
               pr_from = from + word_of_nat (skip_newlines (drop (unat from) buf)),
               pr_errno = sp_errno s \<rparr>)"

definition parse_failed :: "64 word \<Rightarrow> stackish_parser \<Rightarrow> parse_result res" where
  "parse_failed nread s =
     bind_res (stackish_node_clear s) (\<lambda>_. Inr \<lparr> pr_root = None, pr_from = nread + 1, pr_errno = False \<rparr>)"

definition Node_parse_seq :: "bool \<Rightarrow> bstring \<Rightarrow> 64 word \<Rightarrow> parse_result res option" where
  "Node_parse_seq er buf from =
     (let s0 = stackish_parser_init er;
          lst = bchar buf (blength buf - 1)
      in case buf of
           None \<Rightarrow> Some (Inl AssertFailed)
         | Some b \<Rightarrow>
             if \<not> (lst = CHR '' '' \<or> lst = CHR 0x0A \<or> lst = CHR 0x09) \<or> er
             then Some (parse_failed from s0)
             else
               (case stackish_parser_execute b from s0 of
                  Inl f \<Rightarrow> Some (Inl f)
                | Inr s1 \<Rightarrow>
                    if stackish_parser_has_error s1 \<or> sp_errno s1
                    then Some (parse_failed (sp_nread s1) s1)
                    else
                      (case blob_loop b s1 of
                         None \<Rightarrow> None
                       | Some (Inl f) \<Rightarrow> Some (Inl f)
                       | Some (Inr (ok, s2)) \<Rightarrow>
                           Some (if ok then parse_done b s2 else parse_failed (sp_nread s2) s2))))"

definition Node_parse :: "bool \<Rightarrow> bstring \<Rightarrow> parse_result res option" where
  "Node_parse er buf = Node_parse_seq er buf 0"

end
