(* ===== verification/StackishRun.thy ===== *)
theory StackishRun
  imports Stackish
begin

text \<open>
  Running the stackish parser by the chart instead of the tables, and the text of single
  tokens: what one token does to the stack of open groups, wherever it stands in the buffer.
\<close>

section \<open>The tables run as the chart\<close>

lemmas handler_defs =
  handle_push_def handle_word_def handle_group_def handle_attr_def handle_start_def
  push_ctl_def word_ctl_def stackish_more_action_def

lemma handle_push_cs [simp]: "sp_cs (snd (handle_push ty st len s)) = sp_cs s"
  by (auto simp: handle_push_def split: list.splits prod.splits option.splits)

lemma handle_word_cs: "handle_word st len s = Inr (r, s') \<Longrightarrow> sp_cs s' = sp_cs s"
  by (cases "sp_stack s"; cases "tl (sp_stack s)") (auto simp: handle_word_def split: if_splits)

lemma handle_attr_cs: "handle_attr st len s = Inr (r, s') \<Longrightarrow> sp_cs s' = sp_cs s"
  by (auto simp: handle_attr_def split: list.splits if_splits)

lemma stackish_action_cs: "stackish_action buf a p s = Inr (k, s') \<Longrightarrow> sp_cs s' = sp_cs s"
  unfolding stackish_action_def Let_def
  by (auto simp: push_ctl_def word_ctl_def handle_start_def handle_group_def stackish_more_action_def
      dest!: handle_word_cs handle_attr_cs split: if_splits prod.splits)
    (metis handle_push_cs snd_conv)+

text \<open>Running from position \<open>p\<close>; the list is the rest of the buffer.\<close>

definition scan :: "string \<Rightarrow> string \<Rightarrow> nat \<Rightarrow> stackish_parser \<Rightarrow> (nat \<times> stackish_parser) res" where
  "scan buf rest p s =
     ragel_exec stackish_delta sp_cs (\<lambda>n s. s\<lparr> sp_cs := n \<rparr>) (stackish_action buf) (map schar rest) p s"

lemma stackish_run_scan:
  assumes "sp_cs s < 15"
  shows "stackish_run (ragel_next stackish_tables) buf p s = scan buf (drop p buf) p s"
  unfolding stackish_run_def scan_def
  by (rule stackish.exec_delta) (auto simp: assms schar_bounds stackish_action_cs)

lemma scan_Nil [simp]: "scan buf [] p s = Inr (p, s)"
  by (simp add: scan_def)

lemma scan_Cons:
  "scan buf (c # cs) p s =
     (if sp_cs s = 0 then Inr (p, s)
      else let (targ, acts) = stackish_delta (sp_cs s) (schar c)
           in bind_res (run_actions (stackish_action buf) acts p (s\<lparr> sp_cs := targ \<rparr>)) (\<lambda>(out, s').
                if out \<or> sp_cs s' = 0 then Inr (p, s') else scan buf cs (Suc p) s'))"
  unfolding scan_def by simp

section \<open>Runs of one kind of character\<close>

lemma schar_digit [simp]: "is_digit (schar c) = is_digit_char c"
  using of_char_int_bounds [of c] by (auto simp: is_digit_def is_digit_char_def schar_def Let_def)

lemma schar_space [simp]: "is_space (schar c) = is_space_char c"
  using of_char_int_bounds [of c] by (auto simp: is_space_def is_space_char_def schar_def Let_def)

definition is_alpha_char :: "char \<Rightarrow> bool" where
  "is_alpha_char c \<longleftrightarrow> is_alpha (schar c)"

definition is_word_char :: "char \<Rightarrow> bool" where
  "is_word_char c \<longleftrightarrow> is_wordch (schar c)"

lemma scan_loop:
  assumes "\<And>c. c \<in> set xs \<Longrightarrow> stackish_delta (sp_cs s) (schar c) = (sp_cs s, [])" and "sp_cs s \<noteq> 0"
  shows "scan buf (xs @ rest) p s = scan buf rest (p + length xs) s"
  using assms(1)
proof (induction xs arbitrary: p)
  case (Cons x xs)
  then show ?case using assms(2) by (simp add: scan_Cons)
qed simp


text \<open>
  Parser states with \<open>errno\<close> clear; between tokens the scanner is in its start state and
  no blob is open.
\<close>

definition pst :: "nat \<Rightarrow> 64 word \<Rightarrow> node list \<Rightarrow> 64 word \<Rightarrow> 64 word \<Rightarrow> stackish_parser" where
  "pst cs mo stack m r =
     \<lparr> sp_cs = cs, sp_more = mo, sp_nread = r, sp_mark = m, sp_stack = stack, sp_errno = False \<rparr>"

abbreviation ready :: "node list \<Rightarrow> 64 word \<Rightarrow> 64 word \<Rightarrow> stackish_parser" where
  "ready \<equiv> pst 10 0"

lemma pst_simps [simp]:
  "sp_cs (pst cs mo st m r) = cs" "sp_more (pst cs mo st m r) = mo" "sp_nread (pst cs mo st m r) = r"
  "sp_mark (pst cs mo st m r) = m" "sp_stack (pst cs mo st m r) = st" "\<not> sp_errno (pst cs mo st m r)"
  by (simp_all add: pst_def)

lemma pst_updates [simp]:
  "(pst cs mo st m r)\<lparr> sp_stack := st' \<rparr> = pst cs mo st' m r"
  "(pst cs mo st m r)\<lparr> sp_mark := m' \<rparr> = pst cs mo st m' r"
  "(pst cs mo st m r)\<lparr> sp_nread := r' \<rparr> = pst cs mo st m r'"
  "(pst cs mo st m r)\<lparr> sp_cs := cs' \<rparr> = pst cs' mo st m r"
  "(pst cs mo st m r)\<lparr> sp_more := mo' \<rparr> = pst cs mo' st m r"
  "(pst cs mo st m r)\<lparr> sp_errno := False \<rparr> = pst cs mo st m r"
  by (simp_all add: pst_def)

text \<open>Buffers are bstrings, so a position in them is below \<open>2 ^ 31\<close>.\<close>

lemma unat_pos: "p < 2 ^ 31 \<Longrightarrow> unat (word_of_nat p :: 64 word) = p"
  by (simp add: unsigned_of_nat take_bit_nat_eq_self)

lemma LEN_pos: "m \<le> p \<Longrightarrow> LEN (word_of_nat m) p = word_of_nat (p - m)"
  by (simp add: LEN_def)

lemma size_to_int_pos: "n < 2 ^ 31 \<Longrightarrow> size_to_int (word_of_nat n) = int n"
  by (simp add: size_to_int_def unsigned_of_nat signed_of_nat take_bit_nat_eq_self
      signed_take_bit_int_eq_self)

section \<open>Single tokens\<close>

lemma schar_consts [simp]:
  "schar CHR 0x22 = 34" "schar CHR 0x27 = 39" "schar CHR ''['' = 91" "schar CHR '']'' = 93"
  "schar CHR ''@'' = 64" "schar CHR '' '' = 32" "schar CHR '':'' = 58" "schar CHR ''.'' = 46"
  "schar CHR ''-'' = 45"
  by (simp_all add: schar_def)

lemma token_start_space [simp]: "token_start acts 32 = (10, acts)"
  by (simp add: token_start_def is_space_def)

lemma delta_simps [simp]:
  "stackish_delta 10 c = token_start [] c"
  "stackish_delta 13 c = (if is_wordch c then (13, []) else token_start [6] c)"
  "stackish_delta 12 c = (if is_wordch c then (12, []) else token_start [9] c)"
  "stackish_delta 11 c = (if is_digit c then (11, []) else token_start [2] c)"
  "stackish_delta 14 c = (if c = 46 then (8, []) else if is_digit c then (14, []) else token_start [1] c)"
  "stackish_delta 9 c = (if is_alpha c then (12, []) else (0, []))"
  "stackish_delta 8 c = (if is_digit c then (11, []) else (0, []))"
  "stackish_delta 7 c = (if c = 46 then (8, []) else if is_digit c then (7, []) else (0, []))"
  "stackish_delta 6 c = (if is_digit c then (7, []) else (0, []))"
  "stackish_delta 5 c = (if c = 39 then (10, [5]) else (0, []))"
  "stackish_delta 4 c = (if c = 58 then (5, [8]) else if is_digit c then (4, []) else (0, []))"
  "stackish_delta 3 c = (if is_digit c then (4, [0]) else (0, []))"
  "stackish_delta 2 c = (if c = 34 then (10, [3]) else (2, []))"
  "stackish_delta (Suc 0) c = (if c = 34 then (10, [0, 3]) else (2, [0]))"
  by (simp_all add: stackish_delta_def)

lemma char_classes [simp]:
  "\<not> is_wordch 32" "\<not> is_digit 32" "\<not> is_digit 58" "\<not> is_digit 46"
  by (simp_all add: is_wordch_def is_alpha_def is_digit_def)

lemma token_start_alpha: "is_alpha c \<Longrightarrow> token_start acts c = (13, acts @ [0])"
  by (auto simp: token_start_def is_alpha_def is_space_def is_digit_def)

lemma digit_char_consts [simp]:
  "\<not> is_digit_char CHR '' ''" "\<not> is_digit_char CHR '':''" "\<not> is_digit_char CHR ''.''"
  "\<not> is_digit_char CHR ''-''"
  by (simp_all add: is_digit_char_def)

lemma is_digit_not_point: "is_digit_char c \<Longrightarrow> schar c \<noteq> 46 \<and> schar c \<noteq> 58"
  using schar_digit [of c] by (auto simp: is_digit_def)

lemma token_start_digit: "is_digit c \<Longrightarrow> token_start acts c = (14, acts @ [0])"
  by (auto simp: token_start_def is_space_def is_digit_def)

lemma token_start_punct [simp]:
  "token_start acts 34 = (1, acts)" "token_start acts 39 = (3, acts)"
  "token_start acts 45 = (6, acts @ [0])" "token_start acts 64 = (9, acts @ [0])"
  "token_start acts 91 = (10, acts @ [4])" "token_start acts 93 = (10, acts @ [7])"
  by (simp_all add: token_start_def is_space_def is_digit_def is_alpha_def)

lemma action_simps [simp]:
  "stackish_action buf 0 p s = Inr (Next_action, s\<lparr> sp_mark := word_of_nat p \<rparr>)"
  "stackish_action buf (Suc 0) p s =
     push_ctl (handle_push TYPE_NUMBER (PTR_TO buf (sp_mark s)) (LEN (sp_mark s) p) s)"
  "stackish_action buf 2 p s =
     push_ctl (handle_push TYPE_FLOAT (PTR_TO buf (sp_mark s)) (LEN (sp_mark s) p) s)"
  "stackish_action buf 3 p s =
     push_ctl (handle_push TYPE_STRING (PTR_TO buf (sp_mark s)) (LEN (sp_mark s) p) s)"
  "stackish_action buf 4 p s = Inr (Next_action, handle_start s)"
  "stackish_action buf 5 p s =
     (case handle_push TYPE_BLOB (PTR_TO buf (sp_mark s)) (LEN (sp_mark s) p) s of
        (ok, s') \<Rightarrow> push_ctl (ok, if ok then s'\<lparr> sp_more := 0 \<rparr> else s'))"
  "stackish_action buf 6 p s =
     bind_res (handle_word (Some (PTR_TO buf (sp_mark s))) (LEN (sp_mark s) p) s) word_ctl"
  "stackish_action buf 7 p s = bind_res (handle_group s) word_ctl"
  "stackish_action buf 8 p s = stackish_more_action buf p s"
  "stackish_action buf 9 p s =
     bind_res (handle_attr (PTR_TO buf (sp_mark s)) (LEN (sp_mark s) p) s) push_ctl"
  by (simp_all add: stackish_action_def Let_def)

text \<open>A name or a run of bytes that stands at the mark is read back by \<open>blk2bstr\<close>.\<close>

lemma blk2bstr_at:
  assumes "drop p buf = w @ rest" "p + length w < 2 ^ 31"
  shows "blk2bstr (PTR_TO buf (word_of_nat p)) (size_to_int (LEN (word_of_nat p) (p + length w))) = Some w"
  using assms by (simp add: LEN_pos size_to_int_pos PTR_TO_def unat_pos blk2bstr_def)

definition word_name :: "string \<Rightarrow> bool" where
  "word_name w \<longleftrightarrow> w \<noteq> [] \<and> is_alpha_char (hd w) \<and> list_all is_word_char w"

definition attr_name :: "string \<Rightarrow> bool" where
  "attr_name a \<longleftrightarrow> a \<noteq> [] \<and> hd a = CHR ''@'' \<and> word_name (tl a)"

definition renamed :: "bstring \<Rightarrow> node \<Rightarrow> node" where
  "renamed nm n = Nd nm (nd_value n) (nd_linked n) (nd_child n)"

lemma Node_name_renamed [simp]: "Node_name n (Some w) = Inr (renamed (Some w) n)"
  by (cases n) (simp add: renamed_def)

lemma scan_open:
  "scan buf (''[ '' @ rest) p (ready st m r) =
     scan buf rest (p + 2) (ready (Node_create (st \<noteq> []) VGroup # st) m r)"
  by (simp add: scan_Cons handle_start_def)

lemma scan_close:
  "scan buf ('']'' @ rest) p (ready (n # st) m r) =
     (case st of
        [] \<Rightarrow> Inr (p, ready [renamed None n] m r)
      | par # up \<Rightarrow> scan buf rest (Suc p) (ready (attach par (renamed None n) # up) m r))"
  by (cases st) (simp_all add: scan_Cons handle_group_def handle_word_def word_ctl_def renamed_def)

lemma scan_space: "scan buf (CHR '' '' # rest) p (ready st m r) = scan buf rest (Suc p) (ready st m r)"
  by (simp add: scan_Cons)

lemma scan_word:
  assumes w: "word_name w" and buf: "drop p buf = w @ CHR '' '' # rest" and len: "p + length w < 2 ^ 31"
  shows "scan buf (w @ CHR '' '' # rest) p (ready (n # st) m r) =
    (case st of
       [] \<Rightarrow> Inr (p + length w, ready [renamed (Some w) n] (word_of_nat p) r)
     | par # up \<Rightarrow>
         scan buf rest (Suc (p + length w)) (ready (attach par (renamed (Some w) n) # up) (word_of_nat p) r))"
proof -
  obtain c cs where wc: "w = c # cs" using w by (cases w) (auto simp: word_name_def)
  define s where "s = pst 13 0 (n # st) (word_of_nat p) r"
  have first: "scan buf (w @ CHR '' '' # rest) p (ready (n # st) m r) =
      scan buf (cs @ CHR '' '' # rest) (Suc p) s"
    using w by (simp add: wc scan_Cons word_name_def is_alpha_char_def token_start_alpha s_def)
  also have "\<dots> = scan buf (CHR '' '' # rest) (p + length w) s"
    using w by (subst scan_loop) (auto simp: wc word_name_def list_all_iff is_word_char_def s_def)
  also have "\<dots> = (case st of
       [] \<Rightarrow> Inr (p + length w, ready [renamed (Some w) n] (word_of_nat p) r)
     | par # up \<Rightarrow>
         scan buf rest (Suc (p + length w)) (ready (attach par (renamed (Some w) n) # up) (word_of_nat p) r))"
    using blk2bstr_at [OF buf len]
    by (cases st) (simp_all add: s_def scan_Cons handle_word_def word_ctl_def)
  finally show ?thesis .
qed

lemma scan_attr:
  assumes a: "attr_name a" and buf: "drop p buf = a @ CHR '' '' # rest" and len: "p + length a < 2 ^ 31"
    and child: "nd_child n = ch # sibs"
  shows "scan buf (a @ CHR '' '' # rest) p (ready (n # st) m r) =
    scan buf rest (Suc (p + length a))
      (ready (set_child (renamed (Some a) ch # sibs) n # st) (word_of_nat p) r)"
proof -
  obtain c cs where ac: "a = CHR ''@'' # c # cs" and c: "is_alpha_char c" and cs: "list_all is_word_char cs"
    using a by (cases a; cases "tl a") (auto simp: attr_name_def word_name_def)
  define s where "s = pst 12 0 (n # st) (word_of_nat p) r"
  have first: "scan buf (a @ CHR '' '' # rest) p (ready (n # st) m r) =
      scan buf (cs @ CHR '' '' # rest) (Suc (Suc p)) s"
    using c by (simp add: ac scan_Cons is_alpha_char_def s_def)
  also have "\<dots> = scan buf (CHR '' '' # rest) (p + length a) s"
    using cs by (subst scan_loop) (auto simp: ac list_all_iff is_word_char_def s_def)
  also have "\<dots> = scan buf rest (Suc (p + length a))
      (ready (set_child (renamed (Some a) ch # sibs) n # st) (word_of_nat p) r)"
    using blk2bstr_at [OF buf len] child
    by (simp add: s_def scan_Cons handle_attr_def push_ctl_def)
  finally show ?thesis .
qed

lemma scan_number:
  assumes buf: "drop p buf = fmt_u (uint w) @ CHR '' '' # rest" and len: "length buf < 2 ^ 31"
    and g: "nd_value n = VGroup"
  shows "scan buf (fmt_u (uint w) @ CHR '' '' # rest) p (ready (n # st) m r) =
    scan buf rest (Suc (p + length (fmt_u (uint w))))
      (ready (attach n (Node_create True (VNumber w)) # st) (word_of_nat p) r)"
proof -
  obtain c cs where ds: "fmt_u (uint w) = c # cs" by (cases "fmt_u (uint w)") auto
  have dig: "is_digit_char c" "list_all is_digit_char cs"
    using fmt_u_digits [of "uint w"] by (auto simp: ds list_all_iff)
  have p: "p + length (fmt_u (uint w)) < 2 ^ 31"
    using arg_cong [OF buf, of length] len by simp
  define s where "s = pst 14 0 (n # st) (word_of_nat p) r"
  have first: "scan buf (fmt_u (uint w) @ CHR '' '' # rest) p (ready (n # st) m r) =
      scan buf (cs @ CHR '' '' # rest) (Suc p) s"
    using dig by (simp add: ds scan_Cons token_start_digit s_def)
  also have "\<dots> = scan buf (CHR '' '' # rest) (p + length (fmt_u (uint w))) s"
    using dig by (subst scan_loop) (auto simp: ds list_all_iff is_digit_not_point s_def)
  also have "\<dots> = scan buf rest (Suc (p + length (fmt_u (uint w))))
      (ready (attach n (Node_create True (VNumber w)) # st) (word_of_nat p) r)"
    using p g strtoull_fmt_u [of "CHR '' '' # rest" w] buf
    by (simp add: s_def scan_Cons handle_push_def push_ctl_def Node_from_str_def nd_type_def
        LEN_pos PTR_TO_def unat_pos)
  finally show ?thesis .
qed

lemma scan_string:
  assumes buf: "drop (Suc p) buf = t @ CHR 0x22 # rest" and len: "length buf < 2 ^ 31"
    and t: "CHR 0x22 \<notin> set t" and g: "nd_value n = VGroup"
  shows "scan buf (CHR 0x22 # t @ CHR 0x22 # rest) p (ready (n # st) m r) =
    scan buf rest (Suc (Suc (p + length t)))
      (ready (attach n (Node_create True (VString (Some t))) # st) (word_of_nat (Suc p)) r)"
proof -
  have p: "Suc p + length t < 2 ^ 31"
    using arg_cong [OF buf, of length] len by simp
  note blk = blk2bstr_at [OF buf p]
  have quote: "schar c = 34 \<longleftrightarrow> c = CHR 0x22" for c
    using schar_inject [of c "CHR 0x22"] by simp
  show ?thesis
  proof (cases t)
    case Nil
    with blk g show ?thesis
      by (simp add: scan_Cons handle_push_def push_ctl_def Node_from_str_def nd_type_def)
  next
    case (Cons c cs)
    define s where "s = pst 2 0 (n # st) (word_of_nat (Suc p)) r"
    have first: "scan buf (CHR 0x22 # t @ CHR 0x22 # rest) p (ready (n # st) m r) =
        scan buf (cs @ CHR 0x22 # rest) (Suc (Suc p)) s"
      using t quote [of c] by (auto simp: Cons scan_Cons s_def simp del: of_nat_Suc)
    also have "\<dots> = scan buf (CHR 0x22 # rest) (Suc p + length t) s"
      using t by (subst scan_loop) (auto simp: Cons quote s_def)
    also have "\<dots> = scan buf rest (Suc (Suc (p + length t)))
        (ready (attach n (Node_create True (VString (Some t))) # st) (word_of_nat (Suc p)) r)"
      using blk g
      by (simp add: s_def scan_Cons handle_push_def push_ctl_def Node_from_str_def nd_type_def)
    finally show ?thesis .
  qed
qed

text \<open>
  A blob stops the scanner at its colon, with the number of bytes to skip in \<open>more\<close>; a
  blob of no bytes is read in one run.
\<close>

lemma scan_blob_head:
  assumes buf: "drop (Suc p) buf = fmt_u (int n) @ CHR '':'' # rest" and len: "length buf < 2 ^ 31"
    and n: "n < 2 ^ 31"
  shows "scan buf (CHR 0x27 # fmt_u (int n) @ CHR '':'' # rest) p (ready st m r) =
    (let q = Suc p + length (fmt_u (int n))
     in if n > 0 then Inr (q, pst 5 (word_of_nat n) st (word_of_nat (Suc q)) r)
        else scan buf rest (Suc q) (pst 5 0 st (word_of_nat (Suc q)) r))"
proof -
  define w where "w = (word_of_nat n :: 64 word)"
  have w: "uint w = int n" "0 < w \<longleftrightarrow> 0 < n"
    using n by (simp_all add: w_def unsigned_of_nat take_bit_nat_eq_self word_less_nat_alt)
  obtain c cs where ds: "fmt_u (int n) = c # cs" by (cases "fmt_u (int n)") auto
  have dig: "is_digit_char c" "list_all is_digit_char cs"
    using fmt_u_digits [of "int n"] by (auto simp: ds list_all_iff)
  have p: "Suc p + length (fmt_u (int n)) < 2 ^ 31"
    using arg_cong [OF buf, of length] len by simp
  define s where "s = pst 4 0 st (word_of_nat (Suc p)) r"
  have first: "scan buf (CHR 0x27 # fmt_u (int n) @ CHR '':'' # rest) p (ready st m r) =
      scan buf (cs @ CHR '':'' # rest) (Suc (Suc p)) s"
    using dig by (simp add: ds scan_Cons s_def)
  also have "\<dots> = scan buf (CHR '':'' # rest) (Suc p + length (fmt_u (int n))) s"
    using dig by (subst scan_loop) (auto simp: ds list_all_iff is_digit_not_point s_def)
  also have "\<dots> = (let q = Suc p + length (fmt_u (int n))
     in if n > 0 then Inr (q, pst 5 (word_of_nat n) st (word_of_nat (Suc q)) r)
        else scan buf rest (Suc q) (pst 5 0 st (word_of_nat (Suc q)) r))"
    using p strtoull_fmt_u [of "CHR '':'' # rest" w] buf w
    by (simp add: s_def scan_Cons stackish_more_action_def PTR_TO_def unat_pos Let_def w_def
        del: of_nat_Suc of_nat_add bind_res_eq_Inr)
  finally show ?thesis .
qed

lemma scan_blob_tail:
  assumes buf: "drop p buf = b @ CHR 0x27 # rest" and len: "length buf < 2 ^ 31" and g: "nd_value n = VGroup"
  shows "scan buf (CHR 0x27 # rest) (p + length b) (pst 5 mo (n # st) (word_of_nat p) r) =
    scan buf rest (Suc (p + length b)) (ready (attach n (Node_create True (VBlob (Some b))) # st) (word_of_nat p) r)"
proof -
  have "p + length b < 2 ^ 31"
    using arg_cong [OF buf, of length] len by simp
  from blk2bstr_at [OF buf this] g show ?thesis
    by (simp add: scan_Cons handle_push_def push_ctl_def Node_from_str_def nd_type_def)
qed

text \<open>
  Floats that \<open>%f\<close> prints exactly: finite ones whose text reads back as the same double.
\<close>

definition float_exact :: "double \<Rightarrow> bool" where
  "float_exact d \<longleftrightarrow>
     uint d div 2 ^ 52 mod 2048 \<noteq> 2047 \<and> strtod (fmt_f d @ '' '') = (d, length (fmt_f d), False)"

definition float_text :: "string \<Rightarrow> string \<Rightarrow> string \<Rightarrow> bool" where
  "float_text sg ip fp \<longleftrightarrow>
     (sg = [] \<or> sg = ''-'') \<and> ip \<noteq> [] \<and> fp \<noteq> [] \<and> list_all is_digit_char ip \<and> list_all is_digit_char fp"

lemma fmt_f_text:
  assumes "uint d div 2 ^ 52 mod 2048 \<noteq> 2047"
  obtains sg ip fp where "fmt_f d = sg @ ip @ CHR ''.'' # fp" "float_text sg ip fp"
proof -
  define ex where "ex = uint d div 2 ^ 52 mod 2048"
  define m where "m = (if ex = 0 then uint d mod 2 ^ 52 else uint d mod 2 ^ 52 + 2 ^ 52)"
  obtain a b where ab: "scale2 (m * 10 ^ 6) 1 (- ((if ex = 0 then 1 else ex) - 1075)) = (a, b)"
    by (cases "scale2 (m * 10 ^ 6) 1 (- ((if ex = 0 then 1 else ex) - 1075))")
  have "0 \<le> m" by (simp add: m_def)
  with ab have "0 \<le> a" "0 < b" by (auto simp: scale2_def split: if_splits)
  then have n: "0 \<le> round_half_even a b"
    by (auto simp: round_half_even_def Let_def pos_imp_zdiv_nonneg_iff)
  define k where "k = round_half_even a b"
  have "fmt_f d = (if 2 ^ 63 \<le> uint d then ''-'' else []) @ fmt_u (k div 10 ^ 6) @ CHR ''.'' # fmt_pad6 (k mod 10 ^ 6)"
    using assms unfolding fmt_f_def Let_def ex_def [symmetric] m_def [symmetric] k_def
    by (simp only: ab prod.case if_False append.simps)
  moreover have "float_text (if 2 ^ 63 \<le> uint d then ''-'' else []) (fmt_u (k div 10 ^ 6)) (fmt_pad6 (k mod 10 ^ 6))"
    using n fmt_u_digits [of "k div 10 ^ 6"]
    by (simp add: float_text_def k_def list_all_iff fmt_pad6_def pos_imp_zdiv_nonneg_iff)
  ultimately show ?thesis using that by blast
qed

lemma takeWhile_digits:
  "list_all is_digit_char ds \<Longrightarrow> \<not> is_digit_char c \<Longrightarrow> takeWhile is_digit_char (ds @ c # rest) = ds"
  by (induction ds) auto

lemma digit_char_props:
  "is_digit_char c \<Longrightarrow> \<not> is_space_char c \<and> c \<noteq> CHR ''-'' \<and> c \<noteq> CHR ''+'' \<and> c \<noteq> CHR ''.''"
  using is_digit_not_space [of c] is_digit_not_sign [of c] by auto

lemma strtod_plain:
  assumes "float_text sg ip fp"
  shows "strtod (sg @ ip @ CHR ''.'' # fp @ CHR '' '' # rest) =
    (case double_of_ratio (sg = ''-'') (digits_val (ip @ fp)) (10 ^ length fp) of (w, er) \<Rightarrow>
       (w, length sg + length ip + 1 + length fp, er))"
proof -
  obtain c cs where ip: "ip = c # cs" using assms by (cases ip) (auto simp: float_text_def)
  have c: "\<not> is_space_char c" "c \<noteq> CHR ''-''" "c \<noteq> CHR ''+''"
    using assms digit_char_props [of c] by (auto simp: float_text_def ip)
  have ipw: "takeWhile is_digit_char (ip @ CHR ''.'' # fp @ CHR '' '' # rest) = ip"
    and fpw: "takeWhile is_digit_char (fp @ CHR '' '' # rest) = fp"
    using assms by (simp_all add: float_text_def takeWhile_digits)
  have sp: "\<not> is_space_char CHR ''-''" by (simp add: is_space_char_def)
  have k: "\<not> (0 :: int) \<le> - int (length fp)" using assms by (simp add: float_text_def)
  consider "sg = []" | "sg = ''-''" using assms by (auto simp: float_text_def)
  then show ?thesis
  proof cases
    case 1
    then show ?thesis
      using c ipw fpw k unfolding strtod_def ip by (simp add: Let_def split: prod.split)
  next
    case 2
    then show ?thesis
      using c ipw fpw k sp unfolding strtod_def ip by (simp add: Let_def split: prod.split)
  qed
qed

lemma scan_float:
  assumes d: "float_exact d" and buf: "drop p buf = fmt_f d @ CHR '' '' # rest"
    and len: "length buf < 2 ^ 31" and g: "nd_value n = VGroup"
  shows "scan buf (fmt_f d @ CHR '' '' # rest) p (ready (n # st) m r) =
    scan buf rest (Suc (p + length (fmt_f d)))
      (ready (attach n (Node_create True (VFloat d)) # st) (word_of_nat p) r)"
proof -
  obtain sg ip fp where shape: "fmt_f d = sg @ ip @ CHR ''.'' # fp" "float_text sg ip fp"
    using fmt_f_text [of d] d unfolding float_exact_def by blast
  then obtain c cs x xs where ip: "ip = c # cs" and fp: "fp = x # xs"
    by (cases ip; cases fp) (auto simp: float_text_def)
  have dig: "is_digit_char c" "list_all is_digit_char cs" "is_digit_char x" "list_all is_digit_char xs"
    using shape(2) by (simp_all add: float_text_def ip fp)
  have p: "p + length (fmt_f d) < 2 ^ 31"
    using arg_cong [OF buf, of length] len by simp
  have read: "strtod (fmt_f d @ CHR '' '' # rest) = (d, length (fmt_f d), False)"
    using d strtod_plain [OF shape(2), of rest] strtod_plain [OF shape(2), of "[]"]
    by (simp add: float_exact_def shape(1))
  define s where "s = pst (if sg = [] then 14 else 7) 0 (n # st) (word_of_nat p) r"
  have "scan buf (sg @ ip @ CHR ''.'' # fp @ CHR '' '' # rest) p (ready (n # st) m r) =
      scan buf (cs @ CHR ''.'' # fp @ CHR '' '' # rest) (p + length sg + 1) s"
    using dig shape(2)
    by (auto simp: float_text_def ip scan_Cons token_start_digit is_digit_not_point s_def)
  also have "\<dots> = scan buf (CHR ''.'' # fp @ CHR '' '' # rest) (p + length sg + length ip) s"
    using dig by (subst scan_loop) (auto simp: ip list_all_iff is_digit_not_point s_def)
  also have "\<dots> = scan buf (xs @ CHR '' '' # rest) (p + length sg + length ip + 2)
      (pst 11 0 (n # st) (word_of_nat p) r)"
    using dig by (simp add: fp scan_Cons s_def)
  also have "\<dots> = scan buf (CHR '' '' # rest) (p + length (fmt_f d)) (pst 11 0 (n # st) (word_of_nat p) r)"
    using dig by (subst scan_loop) (auto simp: fp shape(1) list_all_iff add.assoc)
  also have "\<dots> = scan buf rest (Suc (p + length (fmt_f d)))
      (ready (attach n (Node_create True (VFloat d)) # st) (word_of_nat p) r)"
    using p g read buf
    by (simp add: scan_Cons handle_push_def push_ctl_def Node_from_str_def nd_type_def
        LEN_pos PTR_TO_def unat_pos)
  finally show ?thesis by (simp add: shape(1))
qed

end
