(* ===== verification/Roundtrip.thy ===== *)
theory Roundtrip
  imports StackishRun
begin

text \<open>
  Printing and parsing: the tokens of a printable tree, that \<open>Node_catbstr\<close> writes them,
  and that \<open>Node_parse_seq\<close> reads them back, across the blobs that make it leave and
  re-enter the scanner.
\<close>

section \<open>Parsing from a position\<close>

text \<open>What \<open>Node_parse_seq\<close> does from an entry of the scanner on.\<close>

definition parse_from :: "string \<Rightarrow> nat \<Rightarrow> stackish_parser \<Rightarrow> (bool \<times> stackish_parser) res option" where
  "parse_from buf p s =
     (case scan buf (drop p buf) p s of
        Inl f \<Rightarrow> Some (Inl f)
      | Inr (p', s') \<Rightarrow>
          if sp_cs s' = 0 \<or> sp_errno s'
          then Some (Inr (False, s'\<lparr> sp_nread := word_of_nat p', sp_errno := False \<rparr>))
          else blob_loop buf (s'\<lparr> sp_nread := word_of_nat p' \<rparr>))"

lemma execute_scan:
  assumes "sp_cs s < 15" "unat off \<le> length buf"
  shows "stackish_parser_execute buf off s =
    (case scan buf (drop (unat off) buf) (unat off) s of
       Inl f \<Rightarrow> Inl f
     | Inr (p, s') \<Rightarrow> Inr (s'\<lparr> sp_nread := word_of_nat p \<rparr>))"
  using assms
  by (auto simp: stackish_parser_execute_def stackish_run_scan bind_res_def split: sum.splits)

lemma blob_loop_step:
  assumes "sp_cs s < 15" "blob_pending buf s" "unat (next_off s) < length buf"
  shows "blob_loop buf s = parse_from buf (unat (next_off s)) s"
  using assms
  by (subst blob_loop.simps)
    (auto simp: execute_scan parse_from_def stackish_parser_has_error_def stackish_parser_error_def
      split: sum.splits)

lemma blob_loop_done: "\<not> blob_pending buf s \<Longrightarrow> blob_loop buf s = Some (Inr (True, s))"
  by (subst blob_loop.simps) simp

lemma Node_parse_seq_from:
  assumes "b \<noteq> []" "last b \<in> {CHR '' '', CHR 0x0A, CHR 0x09}" "unat from \<le> length b" "length b < 2 ^ 31"
  shows "Node_parse_seq False (Some b) from =
    (case parse_from b (unat from) (ready [] 0 0) of
       None \<Rightarrow> None
     | Some (Inl f) \<Rightarrow> Some (Inl f)
     | Some (Inr (ok, s2)) \<Rightarrow> Some (if ok then parse_done b s2 else parse_failed (sp_nread s2) s2))"
proof -
  have "nat (int (length b) - 1) = length b - 1" by linarith
  then have "bchar (Some b) (blength (Some b) - 1) = last b"
    using assms(1,4) by (simp add: bchar_def last_conv_nth)
  moreover have "stackish_parser_init False = ready [] 0 0"
    by (simp add: stackish_parser_init_def stackish_parser_start_def pst_def)
  moreover have "parse_failed r (s\<lparr> sp_nread := r, sp_errno := False \<rparr>) = parse_failed r (s\<lparr> sp_nread := r \<rparr>)" for r s
    by (simp add: parse_failed_def stackish_node_clear_def sp_root_def split: option.split)
  ultimately show ?thesis
    using assms
    by (auto simp: Node_parse_seq_def execute_scan parse_from_def stackish_parser_has_error_def
        stackish_parser_error_def Let_def split: sum.splits option.splits)
qed

lemma parse_from_scan:
  assumes "scan buf (drop p buf) p s = scan buf (drop q buf) q s'"
  shows "parse_from buf p s = parse_from buf q s'"
  by (simp add: parse_from_def assms)

section \<open>Tokens and their effect\<close>

datatype tok =
  TOpen | TClose | TNum "64 word" | TFloat double | TStr string | TBlob string | TWord string | TAttr string

fun tok_text :: "tok \<Rightarrow> string" where
  "tok_text TOpen = ''[ ''"
| "tok_text TClose = ''] ''"
| "tok_text (TNum w) = fmt_u (uint w) @ '' ''"
| "tok_text (TFloat d) = fmt_f d @ '' ''"
| "tok_text (TStr t) = CHR 0x22 # t @ [CHR 0x22, CHR '' '']"
| "tok_text (TBlob b) = CHR 0x27 # fmt_u (int (length b)) @ '':'' @ b @ [CHR 0x27, CHR '' '']"
| "tok_text (TWord w) = w @ '' ''"
| "tok_text (TAttr a) = a @ '' ''"

fun tok_ok :: "tok \<Rightarrow> bool" where
  "tok_ok (TFloat d) \<longleftrightarrow> float_exact d"
| "tok_ok (TStr t) \<longleftrightarrow> CHR 0x22 \<notin> set t \<and> NUL \<notin> set t"
| "tok_ok (TWord w) \<longleftrightarrow> word_name w"
| "tok_ok (TAttr a) \<longleftrightarrow> attr_name a"
| "tok_ok _ \<longleftrightarrow> True"

definition leaf_eff :: "nvalue \<Rightarrow> node list \<Rightarrow> node list option" where
  "leaf_eff v st =
     (case st of
        [] \<Rightarrow> None
      | g # up \<Rightarrow> if nd_value g = VGroup then Some (attach g (Node_create True v) # up) else None)"

definition up_eff :: "bstring \<Rightarrow> node list \<Rightarrow> node list option" where
  "up_eff nm st =
     (case st of c # par # up \<Rightarrow> Some (attach par (renamed nm c) # up) | _ \<Rightarrow> None)"

text \<open>The stack after a token that does not end the document.\<close>

fun tok_eff :: "tok \<Rightarrow> node list \<Rightarrow> node list option" where
  "tok_eff TOpen st = Some (Node_create (st \<noteq> []) VGroup # st)"
| "tok_eff TClose st = up_eff None st"
| "tok_eff (TNum w) st = leaf_eff (VNumber w) st"
| "tok_eff (TFloat d) st = leaf_eff (VFloat d) st"
| "tok_eff (TStr t) st = leaf_eff (VString (Some t)) st"
| "tok_eff (TBlob b) st = leaf_eff (VBlob (Some b)) st"
| "tok_eff (TWord w) st = up_eff (Some w) st"
| "tok_eff (TAttr a) st =
     (case st of
        [] \<Rightarrow> None
      | g # up \<Rightarrow>
          (case nd_child g of
             [] \<Rightarrow> None
           | c # cs \<Rightarrow> Some (set_child (renamed (Some a) c # cs) g # up)))"

lemma drop_shift: "drop p buf = xs @ ys \<Longrightarrow> drop (p + length xs) buf = ys"
  by (metis add.commute append_eq_conv_conj drop_drop)

lemma parse_from_blob:
  assumes buf: "drop p buf = tok_text (TBlob b) @ rest" and len: "length buf < 2 ^ 31"
    and g: "nd_value g = VGroup"
  shows "\<exists>m' r'. parse_from buf p (ready (g # st) m r) =
    parse_from buf (p + length (tok_text (TBlob b)))
      (ready (attach g (Node_create True (VBlob (Some b))) # st) m' r')"
proof -
  define q where "q = Suc p + length (fmt_u (int (length b)))"
  have d: "drop (Suc p) buf = fmt_u (int (length b)) @ CHR '':'' # b @ CHR 0x27 # CHR '' '' # rest"
    using drop_shift [of p buf "[CHR 0x27]"] buf by simp
  have dq: "drop (Suc q) buf = b @ CHR 0x27 # CHR '' '' # rest"
    using drop_shift [of "Suc p" buf "fmt_u (int (length b)) @ [CHR '':'']"] d by (simp add: q_def)
  have dt: "drop (Suc q + length b) buf = CHR 0x27 # CHR '' '' # rest"
    using drop_shift [OF dq] .
  have dr: "drop (Suc (Suc (Suc q + length b))) buf = rest"
    using drop_shift [of "Suc q + length b" buf "[CHR 0x27, CHR '' '']"] dt by simp
  have lenb: "Suc q + length b < length buf"
    using arg_cong [OF dt, of length] by simp
  then have small: "length b < 2 ^ 31" "q < 2 ^ 31" using len by simp_all
  have e: "p + length (tok_text (TBlob b)) = Suc (Suc (Suc q + length b))"
    by (simp add: q_def)
  have scan1: "scan buf (drop p buf) p (ready (g # st) m r) =
    (if length b > 0 then Inr (q, pst 5 (word_of_nat (length b)) (g # st) (word_of_nat (Suc q)) r)
     else scan buf (drop (Suc q) buf) (Suc q) (pst 5 0 (g # st) (word_of_nat (Suc q)) r))"
    using scan_blob_head [OF d len small(1), of "g # st" m r]
    unfolding q_def [symmetric] Let_def dq buf by simp
  have scan2: "scan buf (drop (Suc q + length b) buf) (Suc q + length b) (pst 5 mo (g # st) (word_of_nat (Suc q)) r0) =
    scan buf (drop (p + length (tok_text (TBlob b))) buf) (p + length (tok_text (TBlob b)))
      (ready (attach g (Node_create True (VBlob (Some b))) # st) (word_of_nat (Suc q)) r0)" for mo r0
    unfolding dt e dr using scan_blob_tail [OF dq len g, of mo st r0] by (simp add: scan_space)
  show ?thesis
  proof (cases "length b > 0")
    case False
    then have "scan buf (drop p buf) p (ready (g # st) m r) =
      scan buf (drop (p + length (tok_text (TBlob b))) buf) (p + length (tok_text (TBlob b)))
      (ready (attach g (Node_create True (VBlob (Some b))) # st) (word_of_nat (Suc q)) r)"
      using scan1 scan2 [of 0 r] by simp
    from parse_from_scan [OF this] show ?thesis by blast
  next
    case True
    define s where "s = pst 5 (word_of_nat (length b)) (g # st) (word_of_nat (Suc q)) (word_of_nat q)"
    have next_pos: "unat (next_off s) = Suc q + length b"
    proof -
      have "next_off s = word_of_nat (Suc q + length b)"
        by (simp add: s_def next_off_def stackish_more_def)
      then show ?thesis using lenb len unat_pos [of "Suc q + length b"] by simp
    qed
    have more: "(word_of_nat (length b) :: 64 word) \<noteq> 0"
      using True small(1) unat_pos [of "length b"] by (metis unsigned_0 less_numeral_extra(3))
    have "blob_pending buf s"
      using True small lenb more
      by (simp add: blob_pending_def s_def stackish_more_def stackish_parser_is_finished_def
          stackish_parser_first_final_def unat_pos)
    then have "blob_loop buf s = parse_from buf (Suc q + length b) s"
      using blob_loop_step [of s buf] next_pos lenb by (simp add: s_def)
    also have "parse_from buf p (ready (g # st) m r) = blob_loop buf s"
      using scan1 True by (simp add: parse_from_def s_def)
    then show ?thesis
      using calculation parse_from_scan [OF scan2 [of "word_of_nat (length b)" "word_of_nat q"]]
      by (auto simp: s_def)
  qed
qed

lemma leaf_eff_Some:
  "leaf_eff v st = Some st' \<longleftrightarrow>
     (\<exists>g up. st = g # up \<and> nd_value g = VGroup \<and> st' = attach g (Node_create True v) # up)"
  by (auto simp: leaf_eff_def split: list.splits if_splits)

lemma up_eff_Some:
  "up_eff nm st = Some st' \<longleftrightarrow>
     (\<exists>c par up. st = c # par # up \<and> st' = attach par (renamed nm c) # up)"
  by (auto simp: up_eff_def split: list.splits)

text \<open>One token moves the parse behind it, with the token's effect on the stack.\<close>

lemma parse_from_token:
  assumes buf: "drop p buf = tok_text t @ rest" and len: "length buf < 2 ^ 31"
    and ok: "tok_ok t" and eff: "tok_eff t st = Some st'"
  shows "\<exists>m' r'. parse_from buf p (ready st m r) =
    parse_from buf (p + length (tok_text t)) (ready st' m' r')"
proof -
  have rest: "drop (p + length (tok_text t)) buf = rest"
    using drop_shift [OF buf] .
  have pl: "p + length (tok_text t) < 2 ^ 31 \<or> tok_text t = []"
  proof (cases "tok_text t")
    case (Cons c cs)
    then have "p + length (tok_text t) \<le> length buf"
      using arg_cong [OF buf, of length] by simp
    with len show ?thesis by simp
  qed simp
  have step: ?thesis
    if "scan buf (tok_text t @ rest) p (ready st m r) = scan buf rest (p + length (tok_text t)) (ready st' m' r')"
    for m' r'
    using parse_from_scan [of buf p "ready st m r" "p + length (tok_text t)" "ready st' m' r'"] that
    unfolding buf rest by blast
  show ?thesis
  proof (cases t)
    case TOpen
    with eff show ?thesis
      using scan_open [of buf rest p st m r] by (intro step [of m r]) simp
  next
    case TClose
    with eff obtain c par up where st: "st = c # par # up" "st' = attach par (renamed None c) # up"
      by (auto simp: up_eff_Some)
    then show ?thesis
      using scan_close [of buf "CHR '' '' # rest" p c "par # up" m r] TClose
      by (intro step [of m r]) (simp add: scan_space)
  next
    case (TNum w)
    with eff obtain g up where st: "st = g # up" "nd_value g = VGroup"
      "st' = attach g (Node_create True (VNumber w)) # up"
      by (auto simp: leaf_eff_Some)
    then show ?thesis
      using scan_number [of p buf w rest g up m r] buf len TNum by (intro step [of "word_of_nat p" r]) auto
  next
    case (TFloat d)
    with eff obtain g up where st: "st = g # up" "nd_value g = VGroup"
      "st' = attach g (Node_create True (VFloat d)) # up"
      by (auto simp: leaf_eff_Some)
    then show ?thesis
      using scan_float [of d p buf rest g up m r] buf len ok TFloat by (intro step [of "word_of_nat p" r]) auto
  next
    case (TStr x)
    with eff obtain g up where st: "st = g # up" "nd_value g = VGroup"
      "st' = attach g (Node_create True (VString (Some x))) # up"
      by (auto simp: leaf_eff_Some)
    have "drop (Suc p) buf = x @ CHR 0x22 # CHR '' '' # rest"
      using drop_shift [of p buf "[CHR 0x22]"] buf TStr by simp
    from scan_string [OF this len _ st(2), of up m r] ok TStr st show ?thesis
      by (intro step [of "word_of_nat (Suc p)" r]) (simp add: scan_space del: of_nat_Suc)
  next
    case (TBlob b)
    with eff obtain g up where st: "st = g # up" "nd_value g = VGroup"
      "st' = attach g (Node_create True (VBlob (Some b))) # up"
      by (auto simp: leaf_eff_Some)
    from parse_from_blob [OF buf [unfolded TBlob] len st(2), of up m r] st TBlob
    show ?thesis by simp
  next
    case (TWord w)
    with eff obtain c par up where st: "st = c # par # up" "st' = attach par (renamed (Some w) c) # up"
      by (auto simp: up_eff_Some)
    then show ?thesis
      using scan_word [of w p buf rest c "par # up" m r] buf pl ok TWord by (intro step [of "word_of_nat p" r]) auto
  next
    case (TAttr a)
    with eff obtain g up c cs where st: "st = g # up" "nd_child g = c # cs"
      "st' = set_child (renamed (Some a) c # cs) g # up"
      by (auto split: list.splits)
    then show ?thesis
      using scan_attr [of a p buf rest g c cs up m r] buf pl ok TAttr by (intro step [of "word_of_nat p" r]) auto
  qed
qed

fun toks_eff :: "tok list \<Rightarrow> node list \<Rightarrow> node list option" where
  "toks_eff [] st = Some st"
| "toks_eff (t # ts) st = (case tok_eff t st of None \<Rightarrow> None | Some st' \<Rightarrow> toks_eff ts st')"

definition toks_text :: "tok list \<Rightarrow> string" where
  "toks_text ts = concat (map tok_text ts)"

lemma toks_text_simps [simp]:
  "toks_text [] = []" "toks_text (t # ts) = tok_text t @ toks_text ts"
  "toks_text (ts @ us) = toks_text ts @ toks_text us"
  by (simp_all add: toks_text_def)

lemma toks_eff_append:
  "toks_eff (ts @ us) st = (case toks_eff ts st of None \<Rightarrow> None | Some st' \<Rightarrow> toks_eff us st')"
  by (induction ts arbitrary: st) (simp_all split: option.split)

lemma parse_from_tokens:
  assumes "drop p buf = toks_text ts @ rest" "length buf < 2 ^ 31" "list_all tok_ok ts"
    "toks_eff ts st = Some st'"
  shows "\<exists>m' r'. parse_from buf p (ready st m r) =
    parse_from buf (p + length (toks_text ts)) (ready st' m' r')"
  using assms
proof (induction ts arbitrary: p st m r)
  case (Cons t ts)
  from Cons.prems(4) obtain st1 where st1: "tok_eff t st = Some st1" "toks_eff ts st1 = Some st'"
    by (auto split: option.splits)
  have buf: "drop p buf = tok_text t @ toks_text ts @ rest"
    using Cons.prems(1) by simp
  obtain m1 r1 where one: "parse_from buf p (ready st m r) =
      parse_from buf (p + length (tok_text t)) (ready st1 m1 r1)"
    using parse_from_token [OF buf Cons.prems(2) _ st1(1), of m r] Cons.prems(3) by auto
  moreover obtain m2 r2 where "parse_from buf (p + length (tok_text t)) (ready st1 m1 r1) =
      parse_from buf (p + length (tok_text t) + length (toks_text ts)) (ready st' m2 r2)"
    using Cons.IH [OF drop_shift [OF buf] Cons.prems(2) _ st1(2), of m1 r1] Cons.prems(3) by auto
  ultimately show ?case by (auto simp: add.assoc)
qed auto

section \<open>The tokens of a tree\<close>

fun name_toks :: "bstring \<Rightarrow> tok list" where
  "name_toks None = []"
| "name_toks (Some a) = [TAttr a]"

fun close_toks :: "bstring \<Rightarrow> tok list" where
  "close_toks None = [TClose]"
| "close_toks (Some a) = (if bchar (Some a) 0 = CHR ''@'' then [TClose, TAttr a] else [TWord a])"

fun tokens :: "node \<Rightarrow> tok list" where
  "tokens (Nd nm v l ch) =
     (case v of
        VGroup \<Rightarrow> TOpen # concat (map tokens (rev ch)) @ close_toks nm
      | VNumber w \<Rightarrow> TNum w # name_toks nm
      | VFloat d \<Rightarrow> TFloat d # name_toks nm
      | VString t \<Rightarrow> TStr (the t) # name_toks nm
      | VBlob b \<Rightarrow> TBlob (the b) # name_toks nm)"

text \<open>
  Trees whose text can be read back: every node below the root is linked, only groups have
  children, names have the shape of a word (groups) or an attribute, strings hold neither
  a quote nor a NUL, and floats are printed exactly.
\<close>

fun printable_value :: "bstring \<Rightarrow> nvalue \<Rightarrow> bool" where
  "printable_value nm VGroup \<longleftrightarrow> (case nm of None \<Rightarrow> True | Some a \<Rightarrow> word_name a \<or> attr_name a)"
| "printable_value nm (VNumber w) \<longleftrightarrow> (case nm of None \<Rightarrow> True | Some a \<Rightarrow> attr_name a)"
| "printable_value nm (VFloat d) \<longleftrightarrow> (case nm of None \<Rightarrow> True | Some a \<Rightarrow> attr_name a) \<and> float_exact d"
| "printable_value nm (VString t) \<longleftrightarrow>
     (case nm of None \<Rightarrow> True | Some a \<Rightarrow> attr_name a) \<and>
     (case t of None \<Rightarrow> False | Some x \<Rightarrow> CHR 0x22 \<notin> set x \<and> NUL \<notin> set x)"
| "printable_value nm (VBlob b) \<longleftrightarrow> (case nm of None \<Rightarrow> True | Some a \<Rightarrow> attr_name a) \<and> b \<noteq> None"

fun printable :: "node \<Rightarrow> bool" where
  "printable (Nd nm v l ch) \<longleftrightarrow>
     l \<and> printable_value nm v \<and> (v \<noteq> VGroup \<longrightarrow> ch = []) \<and> list_all printable ch"

definition printable_root :: "node \<Rightarrow> bool" where
  "printable_root t \<longleftrightarrow>
     nd_value t = VGroup \<and> \<not> nd_linked t \<and>
     (case nd_name t of None \<Rightarrow> True | Some w \<Rightarrow> word_name w) \<and> list_all printable (nd_child t)"

fun textual :: "node \<Rightarrow> bool" where
  "textual (Nd nm v l ch) \<longleftrightarrow> printable_value nm v \<and> (v \<noteq> VGroup \<longrightarrow> ch = []) \<and> list_all textual ch"

lemma printable_textual: "printable n \<Longrightarrow> textual n"
  by (induction n) (auto simp: list_all_iff)

lemma printable_root_textual: "printable_root t \<Longrightarrow> textual t"
  by (cases t) (auto simp: printable_root_def list_all_iff printable_textual split: option.splits)

lemma attr_name_bchar: "attr_name a \<Longrightarrow> bchar (Some a) 0 = CHR ''@''"
  by (cases a) (auto simp: attr_name_def bchar_def)

lemma word_name_bchar: "word_name a \<Longrightarrow> bchar (Some a) 0 \<noteq> CHR ''@''"
  by (cases a) (auto simp: word_name_def bchar_def is_alpha_char_def is_alpha_def)

text \<open>Every token of such a tree is well-formed.\<close>

lemma close_toks_ok: "printable_value nm VGroup \<Longrightarrow> list_all tok_ok (close_toks nm)"
  by (cases nm) (auto simp: attr_name_bchar word_name_bchar)

lemma tokens_ok: "textual n \<Longrightarrow> list_all tok_ok (tokens n)"
proof (induction n)
  case (Nd nm v l ch)
  show ?case
  proof (cases v)
    case VGroup
    then show ?thesis
      using Nd close_toks_ok [of nm] by (auto simp: list_all_iff)
  qed (use Nd in \<open>auto split: option.splits\<close>)
qed

text \<open>The tokens of a subtree attach it to the open group.\<close>

lemma toks_eff_list:
  assumes IH: "\<And>n g st. n \<in> set ns \<Longrightarrow> nd_value g = VGroup \<Longrightarrow> toks_eff (tokens n) (g # st) = Some (attach g n # st)"
    and g: "nd_value g = VGroup"
  shows "toks_eff (concat (map tokens ns)) (g # st) = Some (foldl attach g ns # st)"
  using assms by (induction ns arbitrary: g) (simp_all add: toks_eff_append)

lemma renamed_simps [simp]:
  "renamed nm (Nd nm' v l ch) = Nd nm v l ch"
  by (simp add: renamed_def)

lemma attach_child [simp]: "nd_child (attach g n) = n # nd_child g"
  by (simp add: attach_def set_child_def LIST_ADD_def)

lemma set_child_attach: "set_child (n' # nd_child g) (attach g n) = attach g n'"
  by (simp add: attach_def set_child_def LIST_ADD_def)

lemma toks_eff_tokens:
  "printable n \<Longrightarrow> nd_value g = VGroup \<Longrightarrow> toks_eff (tokens n) (g # st) = Some (attach g n # st)"
proof (induction n arbitrary: g st)
  case (Nd nm v l ch)
  have l: "l" using Nd.prems by simp
  show ?case
  proof (cases v)
    case VGroup
    define o0 where "o0 = Node_create True VGroup"
    have o0: "nd_value o0 = VGroup" "nd_child o0 = []" "foldl attach o0 (rev ch) = Nd None VGroup True ch"
      by (simp_all add: o0_def Node_create_def attach_fold set_child_def)
    have "toks_eff (concat (map tokens (rev ch))) (o0 # g # st) = Some (Nd None VGroup True ch # g # st)"
      using toks_eff_list [of "rev ch" o0 "g # st", OF Nd.IH o0(1)] Nd.prems o0
      by (simp add: list_all_iff)
    then show ?thesis
      using Nd.prems VGroup l
      by (cases nm)
        (auto simp: toks_eff_append o0_def up_eff_def set_child_attach attr_name_bchar word_name_bchar)
  qed (use Nd in \<open>cases nm; auto simp: leaf_eff_def Node_create_def set_child_attach split: option.splits\<close>)+
qed

section \<open>The text of a tree is the text of its tokens\<close>

lemma word_char_not_NUL: "is_word_char c \<Longrightarrow> c \<noteq> NUL"
  by (auto simp: is_word_char_def is_wordch_def is_alpha_def is_digit_def NUL_def schar_def)

lemma digit_not_NUL: "is_digit_char c \<Longrightarrow> c \<noteq> NUL"
  by (auto simp: is_digit_char_def NUL_def)

lemma NUL_consts [simp]:
  "NUL \<noteq> CHR '' ''" "NUL \<noteq> CHR 0x22" "NUL \<noteq> CHR 0x27" "NUL \<noteq> CHR '':''" "NUL \<noteq> CHR ''[''"
  "NUL \<noteq> CHR '']''" "NUL \<noteq> CHR ''@''" "NUL \<noteq> CHR ''.''" "NUL \<noteq> CHR ''-''"
  by (simp_all add: NUL_def)

lemma word_name_NUL: "word_name w \<Longrightarrow> NUL \<notin> set w"
  using word_char_not_NUL by (auto simp: word_name_def list_all_iff)

lemma attr_name_NUL: "attr_name a \<Longrightarrow> NUL \<notin> set a"
  using word_name_NUL by (cases a) (auto simp: attr_name_def)

lemma fmt_u_NUL: "0 \<le> n \<Longrightarrow> NUL \<notin> set (fmt_u n)"
  using fmt_u_digits digit_not_NUL by blast

lemma fmt_f_NUL: "float_exact d \<Longrightarrow> NUL \<notin> set (fmt_f d)"
proof -
  assume "float_exact d"
  then obtain sg ip fp where "fmt_f d = sg @ ip @ CHR ''.'' # fp" "float_text sg ip fp"
    using fmt_f_text [of d] unfolding float_exact_def by blast
  then show ?thesis using digit_not_NUL by (auto simp: float_text_def list_all_iff)
qed

lemma bformata_id: "NUL \<notin> set out \<Longrightarrow> bformata str out = str @ out"
  by (simp add: bformata_def cstr_id)

lemmas bformata_ids = bformata_id cstr_id fmt_u_NUL fmt_f_NUL attr_name_NUL word_name_NUL

definition name_text :: "bstring \<Rightarrow> string" where
  "name_text nm = (case nm of None \<Rightarrow> [] | Some a \<Rightarrow> a @ '' '')"

lemma cat_name:
  "nm = None \<or> attr_name (the nm) \<or> word_name (the nm) \<Longrightarrow>
     (if nm \<noteq> None then bformata str (fmt_s nm @ [CHR '' '']) else str) = str @ name_text nm"
  by (cases nm) (auto simp: name_text_def bformata_ids)

lemma name_toks_text: "toks_text (name_toks nm) = name_text nm"
  by (cases nm) (simp_all add: name_text_def)

lemma close_toks_text:
  assumes "printable_value nm VGroup"
  shows "cat_value str nm VGroup CHR '' '' @ name_text nm = str @ toks_text (close_toks nm)"
  using assms
  by (cases nm) (auto simp: cat_value_def name_text_def bformata_id attr_name_bchar word_name_bchar)

lemma leaf_text:
  assumes "printable_value nm v" "v \<noteq> VGroup"
  shows "cat_value str nm v CHR '' '' @ name_text nm = str @ toks_text (tokens (Nd nm v l []))"
  using assms
  by (cases v)
    (auto simp: cat_value_def catb_def name_toks_text bformata_ids split: option.splits)

lemma value_named: "printable_value nm v \<Longrightarrow> nm = None \<or> attr_name (the nm) \<or> word_name (the nm)"
  by (cases v; cases nm) auto

lemma catbstr_tokens:
  "list_all textual ns \<Longrightarrow> Node_catbstr str ns CHR '' '' follow =
     str @ toks_text (concat (map tokens (rev (if follow then ns else take 1 ns))))"
proof (induction str ns "CHR '' ''" follow rule: Node_catbstr.induct)
  case (1 str follow)
  then show ?case by simp
next
  case (2 str nm v l ch sibs follow)
  define s1 where "s1 = (if follow \<and> sibs \<noteq> [] then Node_catbstr str sibs CHR '' '' follow else str)"
  have s1: "s1 = str @ toks_text (concat (map tokens (rev (if follow then sibs else []))))"
    using 2 by (auto simp: s1_def)
  have pv: "printable_value nm v" using "2.prems" by simp
  have "Node_catbstr str (Nd nm v l ch # sibs) CHR '' '' follow = s1 @ toks_text (tokens (Nd nm v l ch))"
  proof (cases "v = VGroup")
    case True
    have kids: "(if ch \<noteq> [] then Node_catbstr (s1 @ ''[ '') ch CHR '' '' True else s1 @ ''[ '') =
        s1 @ ''[ '' @ toks_text (concat (map tokens (rev ch)))"
      using 2 True by (auto simp: s1_def bformata_id)
    show ?thesis
      using pv True close_toks_text [of nm "s1 @ ''[ '' @ toks_text (concat (map tokens (rev ch)))"]
      by (simp add: s1_def [symmetric] bformata_id kids Let_def cat_name [OF value_named [OF pv]]
          del: append.simps not_None_eq)
  next
    case False
    then have "nvalue_type v \<noteq> TYPE_GROUP" "ch = []"
      using "2.prems" by (cases v; simp)+
    then show ?thesis
      using leaf_text [OF pv False, of s1 l]
      by (simp add: s1_def [symmetric] Let_def cat_name [OF value_named [OF pv]]
          del: tokens.simps not_None_eq)
  qed
  with s1 show ?case by simp
qed

section \<open>Reading a document back\<close>

lemma Node_bstr_text:
  assumes "textual t"
  shows "Node_bstr [t] follow = Inr (toks_text (tokens t) @ [CHR 0x0A])"
  using catbstr_tokens [of "[t]" "[]" follow] assms by (simp add: Node_bstr_def)

text \<open>The last token of a root ends the document.\<close>

lemma parse_from_last:
  assumes buf: "drop p buf = toks_text (close_toks nm) @ rest" and len: "length buf < 2 ^ 31"
    and nm: "case nm of None \<Rightarrow> True | Some w \<Rightarrow> word_name w"
  shows "\<exists>m'. parse_from buf p (ready [t] m r) =
    Some (Inr (True, ready [renamed nm t] m'
      (word_of_nat (p + (case nm of None \<Rightarrow> 0 | Some w \<Rightarrow> length w)))))"
proof (cases nm)
  case None
  then show ?thesis
    using scan_close [of buf "CHR '' '' # rest" p t "[]" m r] buf
    by (auto simp: parse_from_def blob_loop_done blob_pending_def stackish_more_def)
next
  case (Some w)
  have w: "word_name w" using nm Some by simp
  have d: "drop p buf = w @ CHR '' '' # rest"
    using buf word_name_bchar [OF w] Some by simp
  have "p + length w < 2 ^ 31"
    using arg_cong [OF d, of length] len by simp
  then show ?thesis
    using scan_word [OF w d, of t "[]" m r] Some d
    by (auto simp: parse_from_def blob_loop_done blob_pending_def stackish_more_def)
qed

lemma parse_document:
  assumes t: "printable_root t" and doc: "drop p buf = toks_text (tokens t) @ rest" and len: "length buf < 2 ^ 31"
  shows "\<exists>m'. parse_from buf p (ready [] m r) =
    Some (Inr (True, ready [t] m'
      (word_of_nat (p + length (toks_text (tokens t)) - (case nd_name t of None \<Rightarrow> 2 | Some w \<Rightarrow> 1)))))"
proof -
  obtain nm ch where tt: "t = Nd nm VGroup False ch"
    and nm: "case nm of None \<Rightarrow> True | Some w \<Rightarrow> word_name w" and ch: "list_all printable ch"
    using t by (cases t) (auto simp: printable_root_def)
  define body where "body = TOpen # concat (map tokens (rev ch))"
  have toks: "tokens t = body @ close_toks nm" by (simp add: tt body_def)
  define o0 where "o0 = Node_create False VGroup"
  have o0: "nd_value o0 = VGroup" "foldl attach o0 (rev ch) = Nd None VGroup False ch"
    by (simp_all add: o0_def Node_create_def attach_fold set_child_def)
  have "toks_eff (concat (map tokens (rev ch))) [o0] = Some [Nd None VGroup False ch]"
    using toks_eff_list [of "rev ch" o0 "[]", OF toks_eff_tokens o0(1)] ch o0(2)
    by (simp add: list_all_iff)
  then have eff: "toks_eff body [] = Some [Nd None VGroup False ch]"
    by (simp add: body_def o0_def)
  have ok: "list_all tok_ok body"
    using tokens_ok [OF printable_root_textual [OF t]] toks by simp
  have d1: "drop p buf = toks_text body @ toks_text (close_toks nm) @ rest"
    using doc toks by simp
  obtain m1 r1 where one: "parse_from buf p (ready [] m r) =
      parse_from buf (p + length (toks_text body)) (ready [Nd None VGroup False ch] m1 r1)"
    using parse_from_tokens [OF d1 len ok eff, of m r] by auto
  obtain m2 where two: "parse_from buf (p + length (toks_text body)) (ready [Nd None VGroup False ch] m1 r1) =
      Some (Inr (True, ready [t] m2
        (word_of_nat (p + length (toks_text body) + (case nm of None \<Rightarrow> 0 | Some w \<Rightarrow> length w)))))"
    using parse_from_last [OF drop_shift [OF d1] len nm, of "Nd None VGroup False ch" m1 r1] tt by auto
  have "p + length (toks_text body) + (case nm of None \<Rightarrow> 0 | Some w \<Rightarrow> length w) =
      p + length (toks_text (tokens t)) - (case nd_name t of None \<Rightarrow> 2 | Some w \<Rightarrow> 1)"
    using nm word_name_bchar by (cases nm) (simp_all add: toks tt body_def)
  with one two show ?thesis by auto
qed

lemma tokens_end:
  assumes "printable_root t"
  obtains b where "toks_text (tokens t) = b @ '' ''" "b \<noteq> []"
proof -
  obtain nm ch where t: "t = Nd nm VGroup False ch" "case nm of None \<Rightarrow> True | Some w \<Rightarrow> word_name w"
    using assms by (cases t) (auto simp: printable_root_def)
  show ?thesis
  proof (rule that)
    show "toks_text (tokens t) = butlast (toks_text (tokens t)) @ '' ''"
      using t word_name_bchar by (cases nm) (auto simp: butlast_append)
    show "butlast (toks_text (tokens t)) \<noteq> []"
      using t by (cases nm) auto
  qed
qed

lemma parse_printed:
  assumes t: "printable_root t" and bstr: "Node_bstr [t] follow = Inr out"
    and len: "length (pre @ out @ post) < 2 ^ 31"
    and post: "post = [] \<or> last post \<in> {CHR '' '', CHR 0x0A, CHR 0x09}"
  shows "Node_parse_seq False (Some (pre @ out @ post)) (word_of_nat (length pre)) =
    Some (Inr \<lparr> pr_root = Some t,
      pr_from = word_of_nat (length pre +
        (if nd_name t = None then length out - 2 else length out + skip_newlines post)),
      pr_errno = False \<rparr>)"
proof -
  define buf where "buf = pre @ out @ post"
  define body where "body = toks_text (tokens t)"
  have text_eq: "out = body @ [CHR 0x0A]"
    using bstr Node_bstr_text [OF printable_root_textual [OF t]] by (simp add: body_def)
  have buf: "drop (length pre) buf = body @ CHR 0x0A # post" "length buf < 2 ^ 31"
    using len by (simp_all add: buf_def text_eq)
  have lpre: "unat (word_of_nat (length pre) :: 64 word) = length pre"
    using len by (intro unat_pos) simp
  have "buf \<noteq> []" "last buf \<in> {CHR '' '', CHR 0x0A, CHR 0x09}"
    using post by (auto simp: buf_def text_eq)
  note seq = Node_parse_seq_from [OF this _ buf(2), of "word_of_nat (length pre)", unfolded lpre]
  define k where "k = (case nd_name t of None \<Rightarrow> 2 | Some w \<Rightarrow> (1 :: nat))"
  obtain m' where run: "parse_from buf (length pre) (ready [] 0 0) =
      Some (Inr (True, ready [t] m' (word_of_nat (length pre + length body - k))))"
    using parse_document [OF t, of "length pre" buf "CHR 0x0A # post" 0 0] buf
    by (auto simp: body_def k_def)
  obtain body' where body': "body = body' @ CHR '' '' # []" "nd_name t = None \<Longrightarrow> body' \<noteq> []"
    using tokens_end [OF t] by (auto simp: body_def)
  define q where "q = length pre + length body - k + 1"
  have q: "q < 2 ^ 31" "word_of_nat (length pre + length body - k) + 1 = (word_of_nat q :: 64 word)"
    using len by (simp_all add: q_def text_eq k_def split: option.split)
  have rest: "drop q buf = (if nd_name t = None then CHR '' '' # CHR 0x0A # post else CHR 0x0A # post)"
    using body' by (cases "nd_name t") (auto simp: q_def k_def buf_def text_eq)
  have "unat (word_of_nat q :: 64 word) = q" using q(1) by (rule unat_pos)
  then have "parse_done buf (ready [t] m' (word_of_nat (length pre + length body - k))) =
    Inr \<lparr> pr_root = Some t, pr_from = word_of_nat (q + skip_newlines (drop q buf)), pr_errno = False \<rparr>"
    unfolding parse_done_def Let_def pst_simps q(2) by (simp add: sp_root_def)
  moreover have "q + skip_newlines (drop q buf) = length pre +
      (if nd_name t = None then length out - 2 else length out + skip_newlines post)"
    unfolding rest using body' by (cases "nd_name t") (auto simp: q_def k_def text_eq)
  ultimately show ?thesis
    using seq unfolding run buf_def [symmetric] by (simp only: option.case sum.case prod.case if_True)
      (simp add: buf_def)
qed

text \<open>
  (C3) Print and parse: for every printable tree, \<open>Node_parse_seq\<close> started where the text
  of \<open>Node_bstr\<close> begins, anywhere in a buffer that ends in white space, returns exactly
  that tree and the position behind the text: behind the newlines that follow it when the
  root is named, in front of the final blank and newline when it is not.
\<close>

theorem parse_bstr_roundtrip:
  assumes t: "printable_root t" and bstr: "Node_bstr [t] follow = Inr out"
    and len: "length (pre @ out @ post) < 2 ^ 31"
    and post: "post = [] \<or> last post \<in> {CHR '' '', CHR 0x0A, CHR 0x09}"
  shows "Node_parse_seq False (Some (pre @ out @ post)) (word_of_nat (length pre)) =
    Some (Inr \<lparr> pr_root = Some t,
      pr_from = word_of_nat (length pre +
        (if nd_name t = None then length out - 2 else length out + skip_newlines post)),
      pr_errno = False \<rparr>)"
  using parse_printed [OF assms] .

definition sample_doc :: node where
  "sample_doc =
     Nd (Some ''sample'') VGroup False
       [Nd (Some ''@who'') (VString (Some ''zed'')) True [],
        Nd (Some ''@key'') VGroup True [Nd None (VBlob (Some ''a]'')) True []],
        Nd None (VNumber 567) True [], Nd None (VFloat 0x3FC0000000000000) True []]"

definition sample_text :: string where
  "sample_text =
     ''[ 0.125000 567 [ '' @ [CHR 0x27] @ ''2:a]'' @ [CHR 0x27] @ '' ] @key '' @
     [CHR 0x22] @ ''zed'' @ [CHR 0x22] @ '' @who sample '' @ [CHR 0x0A]"

theorem parse_bstr_roundtrip_witness:
  "printable_root sample_doc \<and> Node_bstr [sample_doc] True = Inr sample_text \<and>
   Node_parse_seq False (Some (''xy '' @ sample_text @ [CHR 0x0A, CHR '' ''])) 3 =
     Some (Inr \<lparr> pr_root = Some sample_doc, pr_from = 54, pr_errno = False \<rparr>)"
proof -
  have a: "printable_root sample_doc" by code_simp
  have b: "Node_bstr [sample_doc] True = Inr sample_text" by code_simp
  have c: "length (''xy '' @ sample_text @ [CHR 0x0A, CHR '' '']) < 2 ^ 31" by (simp add: sample_text_def)
  have d: "length sample_text = 50" by (simp add: sample_text_def)
  from parse_bstr_roundtrip [OF a b c] d show ?thesis
    by (simp add: a b) (simp add: sample_doc_def)
qed

end
