(* ===== verification/ParserSafety.thy ===== *)
theory ParserSafety
  imports Roundtrip
begin

text \<open>
  What the stackish parser guarantees on every input it returns from: the trees it builds are
  well formed.
\<close>

section \<open>Parsed trees are well formed\<close>

fun wf_node :: "bool \<Rightarrow> node \<Rightarrow> bool" where
  "wf_node linked (Nd nm v l ch) \<longleftrightarrow>
     l = linked \<and> (v \<noteq> VGroup \<longrightarrow> ch = []) \<and> list_all (wf_node True) ch"

fun stack_ok :: "node list \<Rightarrow> bool" where
  "stack_ok [] \<longleftrightarrow> True"
| "stack_ok (n # st) \<longleftrightarrow> nd_value n = VGroup \<and> wf_node (st \<noteq> []) n \<and> stack_ok st"

lemma wf_node_iff:
  "wf_node linked n \<longleftrightarrow>
     nd_linked n = linked \<and> (nd_value n \<noteq> VGroup \<longrightarrow> nd_child n = []) \<and> list_all (wf_node True) (nd_child n)"
  by (cases n) simp

lemma wf_attach: "wf_node l p \<Longrightarrow> nd_value p = VGroup \<Longrightarrow> wf_node True n \<Longrightarrow> wf_node l (attach p n)"
  by (simp add: wf_node_iff [of l] attach_def set_child_def LIST_ADD_def)

lemma wf_renamed [simp]: "wf_node l (renamed nm n) = wf_node l n" "nd_value (renamed nm n) = nd_value n"
  by (simp_all add: wf_node_iff renamed_def)

lemma wf_create [simp]: "wf_node l (Node_create l v)" "nd_value (Node_create l v) = v"
  by (simp_all add: Node_create_def)

lemma Node_name_Inr: "Node_name n nm = Inr n' \<longleftrightarrow> nm \<noteq> None \<and> n' = renamed nm n"
  by (cases nm; cases n) (auto simp: renamed_def)

lemma handle_push_stack_ok:
  "handle_push ty st len s = (ok, s') \<Longrightarrow> stack_ok (sp_stack s) \<Longrightarrow> stack_ok (sp_stack s')"
  by (auto simp: handle_push_def wf_attach split: list.splits if_splits prod.splits option.splits)

lemma handle_word_stack_ok:
  assumes "handle_word st len s = Inr (r, s')" "stack_ok (sp_stack s)"
  shows "stack_ok (sp_stack s')"
proof (cases "sp_stack s")
  case Nil
  with assms show ?thesis by (auto simp: handle_word_def)
next
  case (Cons n rest)
  show ?thesis
  proof (cases "sp_errno s")
    case False
    with assms(1) Cons obtain nm where
      "s' = s\<lparr> sp_stack := (case rest of [] \<Rightarrow> [renamed nm n] | par # up \<Rightarrow> attach par (renamed nm n) # up) \<rparr>"
      unfolding handle_word_def renamed_def [symmetric]
      by (cases rest) (auto simp: Node_name_Inr split: option.splits)
    with assms(2) Cons show ?thesis by (cases rest) (simp_all add: wf_attach)
  qed (use assms Cons in \<open>auto simp: handle_word_def\<close>)
qed

lemma wf_set_child:
  "wf_node l p \<Longrightarrow> nd_child p = c # cs \<Longrightarrow> wf_node True c' \<Longrightarrow> wf_node l (set_child (c' # cs) p)"
  by (cases p) (auto simp: set_child_def)

lemma wf_child_hd: "wf_node l p \<Longrightarrow> nd_child p = c # cs \<Longrightarrow> wf_node True c"
  by (cases p) auto

lemma set_child_value [simp]: "nd_value (set_child ch n) = nd_value n"
  by (simp add: set_child_def)

lemma handle_attr_stack_ok:
  assumes "handle_attr st len s = Inr (r, s')" "stack_ok (sp_stack s)"
  shows "stack_ok (sp_stack s')"
proof (cases "sp_stack s")
  case (Cons n rest)
  show ?thesis
  proof (cases "nd_child n")
    case ch: (Cons c cs)
    then have "wf_node (rest \<noteq> []) (set_child (renamed nm c # cs) n)" for nm
      using assms(2) Cons wf_child_hd [OF _ ch] wf_set_child [OF _ ch] by auto
    with assms Cons ch show ?thesis
      by (auto simp: handle_attr_def Node_name_Inr split: if_splits)
  qed (use assms Cons in \<open>auto simp: handle_attr_def\<close>)
qed (use assms in \<open>simp add: handle_attr_def\<close>)

lemma handle_start_stack_ok: "stack_ok (sp_stack s) \<Longrightarrow> stack_ok (sp_stack (handle_start s))"
  by (simp add: handle_start_def)

lemma action_cases:
  obtains "a = 0" | "a = Suc 0" | "a = 2" | "a = 3" | "a = 4" | "a = 5" | "a = 6" | "a = 7" | "a = 8"
    | "a = 9" | "9 < (a :: nat)"
proof -
  have "a < 5 \<Longrightarrow> a = 0 \<or> a = Suc 0 \<or> a = 2 \<or> a = 3 \<or> a = 4"
    and "\<not> a < 5 \<Longrightarrow> a = 5 \<or> a = 6 \<or> a = 7 \<or> a = 8 \<or> a = 9 \<or> 9 < a"
    by linarith+
  then show thesis using that by blast
qed

lemma action_none: "9 < a \<Longrightarrow> stackish_action buf a p s = Inr (Next_action, s)"
  by (simp add: stackish_action_def Let_def)

lemma push_ctl_Inr: "push_ctl (handle_push ty st len s) = Inr (k, s') \<Longrightarrow> handle_push ty st len s = (k \<noteq> Goto_out, s')"
  by (cases "handle_push ty st len s") (auto simp: push_ctl_def split: if_splits)

lemma stackish_action_stack_ok:
  assumes "stackish_action buf a p s = Inr (k, s')" "stack_ok (sp_stack s)"
  shows "stack_ok (sp_stack s')"
proof (cases rule: action_cases [of a])
  case 6
  with assms show ?thesis
    by (auto simp: push_ctl_def dest!: handle_push_stack_ok split: prod.splits if_splits)
qed (use assms in \<open>auto simp: action_none handle_group_def word_ctl_def stackish_more_action_def
    push_ctl_def [of "(_, _)"] handle_start_stack_ok
    dest!: push_ctl_Inr dest: handle_push_stack_ok handle_word_stack_ok handle_attr_stack_ok
    split: prod.splits if_splits\<close>)

lemma run_actions_stack_ok:
  "run_actions (stackish_action buf) acts p s = Inr (out, s') \<Longrightarrow> stack_ok (sp_stack s) \<Longrightarrow>
     stack_ok (sp_stack s')"
proof (induction acts arbitrary: s)
  case (Cons a acts)
  from Cons.prems(1) obtain k t where a: "stackish_action buf a p s = Inr (k, t)" by auto
  with Cons.prems(2) have "stack_ok (sp_stack t)" by (blast dest: stackish_action_stack_ok)
  with Cons.prems(1) Cons.IH [of t] a show ?case by (cases k) auto
qed simp

lemma scan_stack_ok:
  "scan buf rest p s = Inr (p', s') \<Longrightarrow> stack_ok (sp_stack s) \<Longrightarrow> stack_ok (sp_stack s')"
proof (induction rest arbitrary: p s)
  case (Cons c cs)
  show ?case
  proof (cases "sp_cs s = 0")
    case False
    obtain targ acts where d: "stackish_delta (sp_cs s) (schar c) = (targ, acts)" by fastforce
    from Cons.prems(1) False obtain out t where
      t: "run_actions (stackish_action buf) acts p (s\<lparr> sp_cs := targ \<rparr>) = Inr (out, t)"
      by (auto simp: scan_Cons d)
    have "stack_ok (sp_stack t)" using run_actions_stack_ok [OF t] Cons.prems(2) by simp
    with Cons.prems(1) Cons.IH [of "Suc p" t] t False show ?thesis
      by (auto simp: scan_Cons d split: if_splits)
  qed (use Cons.prems in \<open>simp add: scan_Cons\<close>)
qed simp

lemma close_stack_ok: "stack_ok st \<Longrightarrow> close_stack st = Some t \<Longrightarrow> wf_node False t \<and> nd_value t = VGroup"
  by (induction st rule: close_stack.induct) (auto simp: wf_attach)

lemma execute_state:
  assumes "sp_cs s < 15" "stackish_parser_execute buf off s = Inr s'"
  shows "sp_cs s' < 15"
proof -
  from assms(2) obtain p t where run: "stackish_run (ragel_next stackish_tables) buf (unat off) s = Inr (p, t)"
    and s': "s' = t\<lparr> sp_nread := word_of_nat p \<rparr>"
    by (auto simp: stackish_parser_execute_def split: if_splits)
  have "sp_cs t < 15"
    using run unfolding stackish_run_def
    by (rule stackish.exec_state [rotated 4]) (auto simp: assms(1) schar_bounds stackish_action_cs)
  with s' show ?thesis by simp
qed

lemma execute_stack_ok:
  assumes "sp_cs s < 15" "stack_ok (sp_stack s)" "stackish_parser_execute buf off s = Inr s'"
  shows "stack_ok (sp_stack s')"
proof (cases "unat off \<le> length buf")
  case True
  with assms show ?thesis
    by (auto simp: execute_scan [OF assms(1) True] dest: scan_stack_ok split: sum.splits)
qed (use assms in \<open>simp add: stackish_parser_execute_def\<close>)

text \<open>
  An invariant of the parser that every run of the scanner keeps holds at the end of the
  loop over the blobs.
\<close>

lemma blob_loop_invariant:
  assumes step: "\<And>s s'. I s \<Longrightarrow> blob_pending buf s \<Longrightarrow> unat (next_off s) < length buf \<Longrightarrow>
      stackish_parser_execute buf (next_off s) s = Inr s' \<Longrightarrow> I s'"
    and errno: "\<And>s b. I s \<Longrightarrow> I (s\<lparr> sp_errno := b \<rparr>)"
    and run: "blob_loop buf s = Some (Inr (ok, t))" and start: "I s"
  shows "I t"
proof -
  have "\<forall>ok t. y = Inr (ok, t) \<longrightarrow> I s \<longrightarrow> b = buf \<longrightarrow> I t" if "blob_loop b s = Some y" for b s y
    using that
  proof (rule blob_loop.raw_induct [rotated], goal_cases)
    case (1 loop b s y)
    show ?case
    proof (intro allI impI)
      fix ok t
      assume y: "y = Inr (ok, t)" and s: "I s" and b: "b = buf"
      show "I t"
      proof (cases "blob_pending buf s \<and> unat (next_off s) < length buf")
        case True
        with 1(2) y b obtain s1 where s1: "stackish_parser_execute buf (next_off s) s = Inr s1"
          by (cases "stackish_parser_execute buf (next_off s) s") auto
        have "I s1" using step [OF s _ _ s1] True by simp
        with 1 True s1 y b errno show ?thesis by (auto split: if_splits)
      next
        case False
        with 1(2) y s b show ?thesis by (auto split: if_splits)
      qed
    qed
  qed
  with run start show ?thesis by blast
qed

definition tree_inv :: "stackish_parser \<Rightarrow> bool" where
  "tree_inv s \<longleftrightarrow> sp_cs s < 15 \<and> stack_ok (sp_stack s)"

lemma execute_tree_inv: "tree_inv s \<Longrightarrow> stackish_parser_execute buf off s = Inr s' \<Longrightarrow> tree_inv s'"
  unfolding tree_inv_def using execute_state execute_stack_ok by blast

lemma tree_inv_errno [simp]: "tree_inv (s\<lparr> sp_errno := b \<rparr>) = tree_inv s"
  by (simp add: tree_inv_def)

lemma init_tree_inv: "tree_inv (stackish_parser_init er)"
  by (simp add: tree_inv_def stackish_parser_init_def stackish_parser_start_def)

lemma blob_loop_tree_inv:
  "blob_loop buf s = Some (Inr (ok, t)) \<Longrightarrow> tree_inv s \<Longrightarrow> tree_inv t"
  by (rule blob_loop_invariant [where I = tree_inv])
    (auto intro: execute_tree_inv)

text \<open>
  (C19) Every tree that \<open>Node_parse_seq\<close> returns, on whatever bytes, is well formed: the
  root is a group without a parent, every node below it points to its parent, and only
  groups have children.
\<close>

theorem parse_seq_well_formed:
  assumes "Node_parse_seq er buf from = Some (Inr r)" "pr_root r = Some t"
  shows "wf_node False t \<and> nd_value t = VGroup"
proof -
  from assms obtain b s1 s2 where
    "stackish_parser_execute b from (stackish_parser_init er) = Inr s1"
    "blob_loop b s1 = Some (Inr (True, s2))" "sp_root s2 = Some t"
    by (auto simp: Node_parse_seq_def Let_def parse_done_def parse_failed_def
        split: option.splits if_splits sum.splits prod.splits)
  then have "tree_inv s2" "sp_root s2 = Some t"
    using init_tree_inv [of er] by (auto dest: execute_tree_inv blob_loop_tree_inv)
  then show ?thesis
    using close_stack_ok [of "sp_stack s2" t] by (simp add: tree_inv_def sp_root_def)
qed

theorem parse_seq_well_formed_witness:
  "wf_node False (Nd (Some ''x'') VGroup False [Nd (Some ''@a'') (VNumber 7) True []])"
proof -
  have "Node_parse_seq False (Some (''[ 7 @a x '' @ [CHR 0x0A])) 0 = Some (Inr
      \<lparr> pr_root = Some (Nd (Some ''x'') VGroup False [Nd (Some ''@a'') (VNumber 7) True []]),
        pr_from = 10, pr_errno = False \<rparr>)"
    by code_simp
  from parse_seq_well_formed [OF this] show ?thesis by simp
qed

end
