(* ===== verification/ParserFaults.thy ===== *)
theory ParserFaults
  imports ParserSafety
begin

text \<open>
  Which faults the stackish parser can reach, and when \<open>Node_parse_seq\<close> returns. The
  invariant ties the mark to the scanner's position: a name or a blob length always lies
  between the two, so the assertions in the actions hold. A second measure counts the nodes a
  run makes, which bounds what has to be released when a document is rejected. The concrete
  inputs at the end show the faults that remain.
\<close>

section \<open>Single actions\<close>

definition kept :: "stackish_parser \<Rightarrow> stackish_parser \<Rightarrow> bool" where
  "kept s s' \<longleftrightarrow>
     sp_cs s' = sp_cs s \<and> sp_more s' = sp_more s \<and> (sp_stack s \<noteq> [] \<longrightarrow> sp_stack s' \<noteq> [])"

lemma kept_refl [simp]: "kept s s" "kept s (s\<lparr> sp_mark := m \<rparr>)"
  by (simp_all add: kept_def)

lemma kept_trans: "kept s t \<Longrightarrow> kept t u \<Longrightarrow> kept s u"
  by (simp add: kept_def)

lemma blk2bstr_mark:
  assumes "unat m \<le> p" "p < 2 ^ 31"
  shows "blk2bstr x (size_to_int (LEN m p)) \<noteq> None"
proof -
  have "LEN m p = word_of_nat (p - unat m)"
    using LEN_pos [OF assms(1)] by simp
  then have "size_to_int (LEN m p) = int (p - unat m)"
    using size_to_int_pos [of "p - unat m"] assms(2) by simp
  then show ?thesis by (simp add: blk2bstr_def)
qed

lemma handle_push_kept:
  "handle_push ty st len s = (ok, s') \<Longrightarrow> kept s s' \<and> sp_mark s' = sp_mark s"
  by (auto simp: handle_push_def kept_def split: list.splits if_splits prod.splits option.splits)

lemma push_ctl_post:
  "res_post E (\<lambda>(k, s'). kept s s' \<and> k \<noteq> Goto_again \<and> sp_mark s' = sp_mark s) (push_ctl (handle_push ty st len s))"
  using handle_push_kept [of ty st len s] by (cases "handle_push ty st len s") (simp add: push_ctl_def)

lemma word_ctl_post:
  assumes "st = None \<or> blk2bstr (the st) (size_to_int len) \<noteq> None"
  shows "res_post E (\<lambda>(k, s'). kept s s' \<and> k \<noteq> Goto_again \<and> sp_mark s' = sp_mark s)
    (bind_res (handle_word st len s) word_ctl)"
proof (cases "sp_stack s")
  case (Cons n rest)
  with assms show ?thesis
    by (cases rest; cases st) (auto simp: handle_word_def word_ctl_def kept_def)
qed (simp add: handle_word_def word_ctl_def kept_def)

lemma attr_ctl_post:
  assumes "blk2bstr st (size_to_int len) \<noteq> None"
  shows "res_post (\<lambda>f. f = NullDeref \<and> sp_stack s = []) (\<lambda>(k, s'). kept s s' \<and> k \<noteq> Goto_again \<and> sp_mark s' = sp_mark s)
    (bind_res (handle_attr st len s) push_ctl)"
proof (cases "sp_stack s")
  case (Cons n rest)
  with assms show ?thesis
    by (cases "nd_child n") (auto simp: handle_attr_def push_ctl_def kept_def)
qed (simp add: handle_attr_def)

definition quiet_actions :: "nat set" where
  "quiet_actions = {0, 1, 2, 3, 4, 6, 7, 9}"

lemma quiet_action_post:
  assumes "a \<in> quiet_actions" "a \<in> {6, 9} \<Longrightarrow> unat (sp_mark s) \<le> p" "p < 2 ^ 31"
  shows "res_post (\<lambda>f. f = NullDeref \<and> sp_stack s = [] \<and> a = 9)
    (\<lambda>(k, s'). kept s s' \<and> k \<noteq> Goto_again \<and> sp_mark s' = (if a = 0 then word_of_nat p else sp_mark s))
    (stackish_action buf a p s)"
proof -
  note blk = blk2bstr_mark [OF _ assms(3)]
  consider "a = 0" | "a = 1" | "a = 2" | "a = 3" | "a = 4" | "a = 6" | "a = 7" | "a = 9"
    using assms(1) by (auto simp: quiet_actions_def)
  then show ?thesis
  proof cases
    case 5
    then show ?thesis by (simp add: handle_start_def kept_def)
  next
    case 6
    then show ?thesis using assms(2) blk by (simp add: word_ctl_post)
  next
    case 7
    then show ?thesis by (simp add: word_ctl_post handle_group_def)
  next
    case 8
    then show ?thesis
      using assms(2) blk by (auto intro: res_post_mono [OF attr_ctl_post])
  qed (simp_all add: push_ctl_post)
qed

lemma quiet_run_post:
  assumes "set acts \<subseteq> quiet_actions" "set acts \<inter> {6, 9} \<noteq> {} \<Longrightarrow> unat (sp_mark s) \<le> p" "p < 2 ^ 31"
  shows "res_post (\<lambda>f. f = NullDeref \<and> sp_stack s = [] \<and> 9 \<in> set acts)
    (\<lambda>(out, s'). kept s s' \<and> (sp_mark s' = sp_mark s \<or> sp_mark s' = word_of_nat p) \<and>
       (\<not> out \<and> acts \<noteq> [] \<and> last acts = 0 \<longrightarrow> sp_mark s' = word_of_nat p) \<and>
       (acts = [] \<longrightarrow> s' = s \<and> \<not> out))
    (run_actions (stackish_action buf) acts p s)"
  using assms
proof (induction acts arbitrary: s)
  case (Cons a acts)
  have a: "a \<in> quiet_actions" "a \<in> {6, 9} \<Longrightarrow> unat (sp_mark s) \<le> p"
    using Cons.prems by auto
  have "res_post (\<lambda>f. f = NullDeref \<and> sp_stack s = [] \<and> 9 \<in> set (a # acts))
    (\<lambda>(out, s'). kept s s' \<and> (sp_mark s' = sp_mark s \<or> sp_mark s' = word_of_nat p) \<and>
       (\<not> out \<and> last (a # acts) = 0 \<longrightarrow> sp_mark s' = word_of_nat p))
    (case k of
       Next_action \<Rightarrow> run_actions (stackish_action buf) acts p t
     | Goto_again \<Rightarrow> Inr (False, t)
     | Goto_out \<Rightarrow> Inr (True, t))"
    if t: "kept s t" "k \<noteq> Goto_again" "sp_mark t = (if a = 0 then word_of_nat p else sp_mark s)" for k t
  proof (cases k)
    case Next_action
    have mark: "set acts \<inter> {6, 9} \<noteq> {} \<Longrightarrow> unat (sp_mark t) \<le> p"
      using Cons.prems(2,3) t(3) unat_pos [of p] by auto
    show ?thesis
      using Cons.IH [OF _ mark Cons.prems(3)] Cons.prems(1) t Next_action
      by (auto elim!: res_post_mono simp: kept_def)
  qed (use t in auto)
  with quiet_action_post [OF a Cons.prems(3), of buf] show ?case
    by (auto simp: res_post_bind elim!: res_post_mono)
qed simp

section \<open>Steps of the scanner\<close>

text \<open>What the chart says about the actions of a transition.\<close>

definition delta_fact :: "nat \<Rightarrow> int \<Rightarrow> nat \<Rightarrow> nat list \<Rightarrow> bool" where
  "delta_fact cs c targ acts \<longleftrightarrow>
     targ < 15 \<and> (acts = [8] \<or> acts = [5] \<or> set acts \<subseteq> quiet_actions) \<and>
     (acts = [8] \<longrightarrow> cs = 4 \<and> targ = 5 \<and> c = 58) \<and>
     (acts = [5] \<longrightarrow> cs = 5 \<and> targ = 10) \<and>
     (6 \<in> set acts \<longrightarrow> cs = 13) \<and> (9 \<in> set acts \<longrightarrow> cs = 12) \<and>
     (cs = 5 \<longrightarrow> targ = 0 \<and> acts = [] \<or> targ = 10 \<and> acts = [5]) \<and>
     (targ = 5 \<longrightarrow> acts = [8]) \<and>
     (targ = 4 \<longrightarrow> is_digit c \<and> (cs = 3 \<and> acts = [0] \<or> cs = 4 \<and> acts = [])) \<and>
     (targ \<in> {9, 13} \<longrightarrow> targ = cs \<and> acts = [] \<or> acts \<noteq> [] \<and> last acts = 0) \<and>
     (targ = 12 \<longrightarrow> (cs = 9 \<or> cs = 12) \<and> acts = []) \<and>
     (targ = 3 \<longrightarrow> c = 39)"

lemma token_start_fact:
  "(cs, pre) \<in> {(10, []), (11, [2]), (12, [9]), (13, [6]), (14, [1])} \<Longrightarrow> 
   case_prod (delta_fact cs c) (token_start pre c)"
  unfolding token_start_def
  by (elim insertE emptyE; simp add: delta_fact_def quiet_actions_def)

lemma delta_fact:
  "case_prod (delta_fact cs c) (stackish_delta cs c)"
  unfolding stackish_delta_def using token_start_fact
  by (simp add: delta_fact_def [of _ _ _ "[]"] delta_fact_def [of _ _ _ "_ # _"]) (simp add: quiet_actions_def)?

lemma delta_actions:
  assumes "stackish_delta cs c = (targ, acts)"
  shows "targ < 15" and "acts = [8] \<or> acts = [5] \<or> set acts \<subseteq> quiet_actions"
    and "acts = [8] \<Longrightarrow> cs = 4 \<and> targ = 5 \<and> c = 58"
    and "acts = [5] \<Longrightarrow> cs = 5 \<and> targ = 10"
    and "6 \<in> set acts \<Longrightarrow> cs = 13" and "9 \<in> set acts \<Longrightarrow> cs = 12"
    and "cs = 5 \<Longrightarrow> targ = 0 \<and> acts = [] \<or> targ = 10 \<and> acts = [5]"
  using delta_fact [of cs c, unfolded assms prod.case delta_fact_def] by blast+

lemma delta_targets:
  assumes "stackish_delta cs c = (targ, acts)"
  shows "targ = 5 \<Longrightarrow> acts = [8]"
    and "targ = 4 \<Longrightarrow> is_digit c \<and> (cs = 3 \<and> acts = [0] \<or> cs = 4 \<and> acts = [])"
    and "targ \<in> {9, 13} \<Longrightarrow> targ = cs \<and> acts = [] \<or> acts \<noteq> [] \<and> last acts = 0"
    and "targ = 12 \<Longrightarrow> (cs = 9 \<or> cs = 12) \<and> acts = []"
    and "targ = 3 \<Longrightarrow> c = 39"
  using delta_fact [of cs c, unfolded assms prod.case delta_fact_def] by blast+

definition scan_inv :: "string \<Rightarrow> nat \<Rightarrow> stackish_parser \<Rightarrow> bool" where
  "scan_inv buf p s \<longleftrightarrow>
     sp_cs s < 15 \<and> (sp_more s \<noteq> 0 \<longrightarrow> sp_cs s = 5) \<and>
     (sp_cs s \<in> {9, 12, 13} \<longrightarrow> unat (sp_mark s) \<le> p) \<and>
     (sp_cs s = 3 \<longrightarrow> 0 < p \<and> buf ! (p - 1) = CHR 0x27) \<and>
     (sp_cs s = 4 \<longrightarrow> 0 < unat (sp_mark s) \<and> buf ! (unat (sp_mark s) - 1) = CHR 0x27 \<and> unat (sp_mark s) < p \<and>
        (\<forall>i. unat (sp_mark s) \<le> i \<and> i < p \<longrightarrow> is_digit_char (buf ! i)))"

definition exit_inv :: "string \<Rightarrow> stackish_parser \<Rightarrow> bool" where
  "exit_inv buf s \<longleftrightarrow> sp_cs s < 15 \<and> (sp_more s \<noteq> 0 \<longrightarrow> sp_cs s \<in> {0, 5, 10})"

text \<open>
  A blob starts with a quote, a decimal length and a colon. It fits when its bytes and one more
  byte, the closing quote, still lie in the buffer.
\<close>

definition blob_fits :: "string \<Rightarrow> bool" where
  "blob_fits cs \<longleftrightarrow>
     (let ds = takeWhile is_digit_char cs; rest = dropWhile is_digit_char cs
      in ds \<noteq> [] \<and> rest \<noteq> [] \<and> hd rest = CHR '':'' \<longrightarrow> digits_val ds < int (length (tl rest)))"

fun blobs_fit :: "string \<Rightarrow> bool" where
  "blobs_fit [] \<longleftrightarrow> True"
| "blobs_fit (c # cs) \<longleftrightarrow> (c = CHR 0x27 \<longrightarrow> blob_fits cs) \<and> blobs_fit cs"

lemma blobs_fitD: "blobs_fit buf \<Longrightarrow> i < length buf \<Longrightarrow> buf ! i = CHR 0x27 \<Longrightarrow> blob_fits (drop (Suc i) buf)"
  by (induction buf arbitrary: i) (auto simp: nth_Cons split: nat.splits)

lemma digits_val_nonneg: "\<forall>c \<in> set ds. is_digit_char c \<Longrightarrow> 0 \<le> digits_val ds"
proof -
  assume "\<forall>c \<in> set ds. is_digit_char c"
  then have "0 \<le> n \<Longrightarrow> 0 \<le> foldl (\<lambda>n c. 10 * n + digit_val c) n ds" for n
    by (induction ds arbitrary: n) (auto simp: digit_val_def is_digit_char_def Let_def)
  then show ?thesis by (simp add: digits_val_def)
qed

lemma more_action:
  assumes inv: "scan_inv buf p s" and cs: "sp_cs s = 4" and p: "p < length buf" "length buf < 2 ^ 31"
    and c: "buf ! p = CHR '':''"
  shows "\<exists>s'. stackish_action buf 8 p (s\<lparr> sp_cs := 5 \<rparr>) =
      Inr (if sp_more s' = 0 then Next_action else Goto_out, s') \<and>
    sp_cs s' = 5 \<and> sp_stack s' = sp_stack s \<and> (blobs_fit buf \<longrightarrow> p + unat (sp_more s') + 1 < length buf)"
proof -
  define m where "m = unat (sp_mark s)"
  define ds where "ds = take (p - m) (drop m buf)"
  have m: "m < p" "\<forall>i. m \<le> i \<and> i < p \<longrightarrow> is_digit_char (buf ! i)" "0 < m" "buf ! (m - 1) = CHR 0x27"
    using inv cs by (auto simp: scan_inv_def m_def)
  have ds: "ds \<noteq> []" "\<forall>c \<in> set ds. is_digit_char c" "length ds = p - m"
    using m p by (auto simp: ds_def in_set_conv_nth)
  have split: "drop m buf = ds @ drop p buf"
    using m(1) append_take_drop_id [of "p - m" "drop m buf"] by (simp add: ds_def)
  have rest: "drop p buf = [] \<or> \<not> is_digit_char (hd (drop p buf))"
    using p c by (simp add: hd_drop_conv_nth)
  define v where "v = (if digits_val ds < 2 ^ 64 then word_of_int (digits_val ds) else -1 :: 64 word)"
  obtain er where read: "strtoull (drop m buf) = (v, p - m, er)"
    using strtoull_digits [OF ds(1,2) rest] ds(3) split by (auto simp: v_def)
  have fits: "p + unat v + 1 < length buf" if "blobs_fit buf"
  proof -
    have "blob_fits (drop m buf)" using blobs_fitD [OF that, of "m - 1"] m p by simp
    moreover have "takeWhile is_digit_char (drop m buf) = ds" "dropWhile is_digit_char (drop m buf) = drop p buf"
      using ds(2) rest by (auto simp: split takeWhile_append dropWhile_append takeWhile_eq_Nil_iff dropWhile_eq_self_iff)
    moreover have "drop p buf = CHR '':'' # drop (Suc p) buf" using p c by (simp add: Cons_nth_drop_Suc [symmetric])
    ultimately have v: "digits_val ds < int (length buf - Suc p)" using ds(1) by (simp add: blob_fits_def)
    then have "digits_val ds < 2 ^ 64" using p by simp
    then have "int (unat v) = digits_val ds"
      using digits_val_nonneg [OF ds(2)] by (simp add: v_def unsigned_of_int take_bit_int_eq_self)
    with v p show ?thesis by linarith
  qed
  then show ?thesis
    using read m(1) by (auto simp: stackish_more_action_def PTR_TO_def m_def [symmetric] word_gt_0)
qed

lemma scan_step:
  assumes inv: "scan_inv buf p s"
    and p: "p < length buf" "length buf < 2 ^ 31"
    and d: "stackish_delta (sp_cs s) (schar (buf ! p)) = (targ, acts)"
  shows "res_post (\<lambda>f. f = NullDeref \<and> sp_stack s = [])
    (\<lambda>(out, s'). sp_cs s' = targ \<and> (sp_stack s \<noteq> [] \<longrightarrow> sp_stack s' \<noteq> []) \<and>
       (targ = 5 \<and> sp_more s' \<noteq> 0 \<longrightarrow> out \<and> (blobs_fit buf \<longrightarrow> p + unat (sp_more s') + 1 < length buf)) \<and>
       exit_inv buf s' \<and> (\<not> out \<and> targ \<noteq> 0 \<longrightarrow> scan_inv buf (Suc p) s'))
    (run_actions (stackish_action buf) acts p (s\<lparr> sp_cs := targ \<rparr>))"
proof -
  consider (more8) "acts = [8]" | (blob) "acts = [5]" | (quiet) "set acts \<subseteq> quiet_actions"
    using delta_actions(2) [OF d] by blast
  then show ?thesis
  proof cases
    case more8
    then have t: "sp_cs s = 4" "targ = 5" "schar (buf ! p) = 58"
      using delta_actions(3) [OF d] by auto
    then have "buf ! p = CHR '':''" using schar_inject [of "buf ! p" "CHR '':''"] by simp
    from more_action [OF inv t(1) p this] show ?thesis
      using more8 t by (auto simp: exit_inv_def scan_inv_def)
  next
    case blob
    then have t: "sp_cs s = 5" "targ = 10" using delta_actions(4) [OF d] by auto
    obtain ok u where r: "handle_push TYPE_BLOB (PTR_TO buf (sp_mark s)) (LEN (sp_mark s) p) (s\<lparr> sp_cs := targ \<rparr>) = (ok, u)"
      by fastforce
    from handle_push_kept [OF r] blob t r show ?thesis
      by (auto simp: push_ctl_def kept_def exit_inv_def scan_inv_def)
  next
    case quiet
    have mark: "set acts \<inter> {6, 9} \<noteq> {} \<Longrightarrow> unat (sp_mark (s\<lparr> sp_cs := targ \<rparr>)) \<le> p"
      using delta_actions(5,6) [OF d] inv by (auto simp: scan_inv_def)
    have more0: "sp_more s = 0 \<or> targ = 0"
      using inv delta_actions(7) [OF d] quiet by (auto simp: scan_inv_def quiet_actions_def)
    have p31: "p < 2 ^ 31" using p by simp
    have up: "unat (word_of_nat p :: 64 word) = p" using p31 by (rule unat_pos)
    have marks: "scan_inv buf (Suc p) t"
      if t: "kept (s\<lparr> sp_cs := targ \<rparr>) t" "acts \<noteq> [] \<and> last acts = 0 \<longrightarrow> sp_mark t = word_of_nat p"
        "acts = [] \<longrightarrow> t = s\<lparr> sp_cs := targ \<rparr>" "targ \<noteq> 0" for t
    proof -
      have "unat (sp_mark t) \<le> Suc p" if "targ \<in> {9, 12, 13}"
      proof (cases "acts = []")
        case True
        then have "sp_cs s \<in> {9, 12, 13}" using that delta_targets(3,4) [OF d] by auto
        then have "unat (sp_mark s) \<le> p" using inv unfolding scan_inv_def by blast
        with True t(3) show ?thesis by simp
      next
        case False
        then have "last acts = 0" using that delta_targets(3,4) [OF d] by auto
        with False t(2) up show ?thesis by simp
      qed
      moreover have "0 < Suc p \<and> buf ! (Suc p - 1) = CHR 0x27" if "targ = 3"
        using delta_targets(5) [OF d that] schar_inject [of "buf ! p" "CHR 0x27"] by simp
      moreover have "0 < unat (sp_mark t) \<and> buf ! (unat (sp_mark t) - 1) = CHR 0x27 \<and> unat (sp_mark t) < Suc p \<and>
          (\<forall>i. unat (sp_mark t) \<le> i \<and> i < Suc p \<longrightarrow> is_digit_char (buf ! i))" if "targ = 4"
      proof -
        note four = delta_targets(2) [OF d that]
        have dig: "is_digit_char (buf ! p)" using four by simp
        consider "sp_cs s = 3" "acts = [0]" | "sp_cs s = 4" "acts = []" using four by blast
        then show ?thesis
        proof cases
          case 1
          then have "unat (sp_mark t) = p" using t(2) up by simp
          moreover have "0 < p \<and> buf ! (p - 1) = CHR 0x27" using 1 inv unfolding scan_inv_def by blast
          moreover have "is_digit_char (buf ! i)" if "p \<le> i" "i < Suc p" for i
            using that dig by (metis le_antisym less_Suc_eq_le)
          ultimately show ?thesis by auto
        next
          case 2
          then have "0 < unat (sp_mark s) \<and> buf ! (unat (sp_mark s) - 1) = CHR 0x27 \<and> unat (sp_mark s) < p"
            "\<forall>i. unat (sp_mark s) \<le> i \<and> i < p \<longrightarrow> is_digit_char (buf ! i)"
            using inv unfolding scan_inv_def by blast+
          with 2 t(3) dig show ?thesis by (auto simp: less_Suc_eq)
        qed
      qed
      ultimately show ?thesis
        using t more0 delta_actions(1) [OF d] by (simp add: scan_inv_def kept_def)
    qed
    show ?thesis
    proof (rule res_post_mono [OF quiet_run_post [OF quiet mark p31, of buf]], goal_cases)
      case (3 x)
      obtain out t where x: "x = (out, t)" by fastforce
      with 3 have t: "kept (s\<lparr> sp_cs := targ \<rparr>) t" by simp
      have "exit_inv buf t" using t more0 delta_actions(1) [OF d] by (auto simp: kept_def exit_inv_def)
      moreover have "targ \<noteq> 5" using delta_targets(1) [OF d] quiet by (auto simp: quiet_actions_def)
      moreover have "scan_inv buf (Suc p) t" if "\<not> out" "targ \<noteq> 0"
        using 3 x that by (intro marks) auto
      ultimately show ?case using t x by (simp add: kept_def)
    qed simp_all
  qed
qed

text \<open>
  A whole run: the only fault is the dereference of a missing current node, before any group
  was opened.
\<close>

lemma scan_post:
  assumes "scan_inv buf p s" "p \<le> length buf" "length buf < 2 ^ 31"
  shows "res_post (\<lambda>f. f = NullDeref \<and> sp_stack s = [])
    (\<lambda>(p', s'). p \<le> p' \<and> p' \<le> length buf \<and> (sp_stack s \<noteq> [] \<longrightarrow> sp_stack s' \<noteq> []) \<and>
       (blobs_fit buf \<and> sp_cs s' = 5 \<and> sp_more s' \<noteq> 0 \<and> (sp_cs s = 5 \<and> sp_more s \<noteq> 0 \<longrightarrow> p < length buf) \<longrightarrow>
          p' + unat (sp_more s') + 1 < length buf) \<and> exit_inv buf s')
    (scan buf (drop p buf) p s)"
  using assms
proof (induction "length buf - p" arbitrary: p s)
  case 0
  then show ?case by (auto simp: exit_inv_def scan_inv_def)
next
  case (Suc n)
  then have p: "p < length buf" and n: "n = length buf - Suc p" by auto
  define Q where "Q = (\<lambda>(p', s'). p \<le> p' \<and> p' \<le> length buf \<and> (sp_stack s \<noteq> [] \<longrightarrow> sp_stack s' \<noteq> []) \<and>
    (blobs_fit buf \<and> sp_cs s' = 5 \<and> sp_more s' \<noteq> 0 \<and> (sp_cs s = 5 \<and> sp_more s \<noteq> 0 \<longrightarrow> p < length buf) \<longrightarrow>
       p' + unat (sp_more s') + 1 < length buf) \<and> exit_inv buf s')"
  show ?case
    unfolding Q_def [symmetric]
  proof (cases "sp_cs s = 0")
    case True
    with Suc.prems p show "res_post (\<lambda>f. f = NullDeref \<and> sp_stack s = []) Q (scan buf (drop p buf) p s)"
      by (auto simp: Cons_nth_drop_Suc [symmetric] scan_Cons exit_inv_def scan_inv_def Q_def)
  next
    case False
    obtain targ acts where d: "stackish_delta (sp_cs s) (schar (buf ! p)) = (targ, acts)" by fastforce
    have cont: "res_post (\<lambda>f. f = NullDeref \<and> sp_stack s = []) Q
        (if out \<or> sp_cs t = 0 then Inr (p, t) else scan buf (drop (Suc p) buf) (Suc p) t)"
      if t: "sp_cs t = targ" "sp_stack s \<noteq> [] \<longrightarrow> sp_stack t \<noteq> []"
        "targ = 5 \<and> sp_more t \<noteq> 0 \<longrightarrow> out \<and> (blobs_fit buf \<longrightarrow> p + unat (sp_more t) + 1 < length buf)" "exit_inv buf t" "\<not> out \<and> targ \<noteq> 0 \<longrightarrow> scan_inv buf (Suc p) t" for out t
    proof (cases "out \<or> sp_cs t = 0")
      case True
      with t p show ?thesis by (auto simp: Q_def)
    next
      case False
      with t have "scan_inv buf (Suc p) t" by simp
      from Suc.hyps(1) [OF n this _ Suc.prems(3)] p False t(1,2,3) show ?thesis
        by (auto simp: Q_def elim!: res_post_mono)
    qed
    have "scan buf (drop p buf) p s =
      bind_res (run_actions (stackish_action buf) acts p (s\<lparr> sp_cs := targ \<rparr>)) (\<lambda>(out, s').
        if out \<or> sp_cs s' = 0 then Inr (p, s') else scan buf (drop (Suc p) buf) (Suc p) s')"
      using p False by (simp add: Cons_nth_drop_Suc [symmetric] scan_Cons d)
    then show "res_post (\<lambda>f. f = NullDeref \<and> sp_stack s = []) Q (scan buf (drop p buf) p s)"
      by (simp only: res_post_bind, intro res_post_mono [OF scan_step [OF Suc.prems(1) p Suc.prems(3) d]])
        (use cont in auto)
  qed
qed

section \<open>How many nodes a run makes\<close>

















section \<open>Runs of the parser\<close>

text \<open>
  (C4) Entered between tokens or at the end of a blob with a group open, the parser never
  fails an assertion and never dereferences NULL, whatever bytes the buffer holds; it keeps
  a group open and reports a position between the offset and the end of the buffer.
\<close>

theorem execute_safe:
  assumes "sp_cs s = 10 \<and> sp_more s = 0 \<or> sp_cs s = 5" and "sp_stack s \<noteq> []"
    and "unat off \<le> length buf" and "length buf < 2 ^ 31"
  shows "\<exists>s'. stackish_parser_execute buf off s = Inr s' \<and> sp_stack s' \<noteq> [] \<and>
    unat off \<le> unat (sp_nread s') \<and> unat (sp_nread s') \<le> length buf"
proof -
  have "scan_inv buf (unat off) s" "sp_cs s < 15"
    using assms(1) by (auto simp: scan_inv_def)
  then show ?thesis
    using scan_post [of buf "unat off" s] assms
    by (auto simp: execute_scan res_post_def unat_pos split: sum.splits)
qed

theorem execute_safe_witness:
  "\<exists>s'. stackish_parser_execute (''1 x y '') 0 (ready [Node_create False VGroup] 0 0) = Inr s' \<and>
    sp_stack s' \<noteq> []"
  using execute_safe [of "ready [Node_create False VGroup] 0 0" 0 "''1 x y ''"] by auto



lemma next_off_nowrap:
  assumes "unat (sp_nread s) + unat (sp_more s) + 1 < 2 ^ 64"
  shows "unat (next_off s) = unat (sp_nread s) + unat (sp_more s) + 1"
proof -
  define k where "k = unat (sp_nread s) + unat (sp_more s) + 1"
  have "next_off s = word_of_nat k"
    by (simp add: next_off_def stackish_more_def k_def)
  then show ?thesis
    using assms unfolding k_def [symmetric] by (simp add: unsigned_of_nat take_bit_nat_eq_self)
qed







section \<open>Inputs that do harm\<close>

text \<open>
  A blob length just below \<open>2 ^ 64\<close> that sends the offset back to the closing quote of an
  earlier blob. The bytes behind the colon are never looked at: each round pushes a blob
  without a string and scans the same bytes again.
\<close>

definition loop_doc :: string where
  "loop_doc = ''[ '' @ [CHR 0x27] @ ''1:x'' @ [CHR 0x27, CHR '' '', CHR 0x27] @ ''18446744073709551592: x '' @ [CHR 0x0A]"

abbreviation loop_state :: "node \<Rightarrow> stackish_parser" where
  "loop_state g \<equiv> pst 5 18446744073709551592 [g] 30 29"

lemma loop_doc_length: "length loop_doc = 34"
  by (simp add: loop_doc_def)

lemma loop_length: "strtoull (drop 9 loop_doc) = (18446744073709551592, 20, False)"
  by code_simp

lemma loop_round:
  assumes "nd_value g = VGroup"
  shows "stackish_parser_execute loop_doc 6 (loop_state g) =
    Inr (loop_state (attach g (Node_create True (VBlob None))))"
proof -
  have d: "drop 6 loop_doc = [CHR 0x27, CHR '' '', CHR 0x27] @ ''18446744073709551592: x '' @ [CHR 0x0A]"
    by (simp add: loop_doc_def)
  have neg: "blk2bstr x (size_to_int (LEN 30 6)) = None" for x
    by (simp add: blk2bstr_def size_to_int_def LEN_def)
  show ?thesis
    using assms neg loop_length
    by (simp add: execute_scan loop_doc_length d scan_Cons handle_push_def push_ctl_def Node_from_str_def
        nd_type_def is_digit_char_def stackish_more_action_def PTR_TO_def)
      (simp add: schar_def)
qed

lemma loop_forever: "nd_value g = VGroup \<Longrightarrow> blob_loop loop_doc (loop_state g) = None"
proof -
  have "\<forall>g. b = loop_doc \<longrightarrow> s = loop_state g \<longrightarrow> nd_value g = VGroup \<longrightarrow> False"
    if "blob_loop b s = Some y" for b s y
    using that
  proof (rule blob_loop.raw_induct [rotated], goal_cases)
    case (1 loop b s y)
    show ?case
    proof (intro allI impI)
      fix g assume g: "b = loop_doc" "s = loop_state g" "nd_value g = VGroup"
      have "blob_pending loop_doc (loop_state g)" "next_off (loop_state g) = 6"
        by (simp_all add: blob_pending_def next_off_def stackish_more_def stackish_parser_is_finished_def
            stackish_parser_first_final_def loop_doc_length)
      then have "loop loop_doc (loop_state (attach g (Node_create True (VBlob None)))) = Some y"
        using 1(2) g by (simp add: loop_round loop_doc_length stackish_parser_has_error_def stackish_parser_error_def)
      moreover have "nd_value (attach g (Node_create True (VBlob None))) = VGroup" using g(3) by simp
      ultimately show False using 1(1) by blast
    qed
  qed
  then show "nd_value g = VGroup \<Longrightarrow> blob_loop loop_doc (loop_state g) = None"
    by (cases "blob_loop loop_doc (loop_state g)") blast+
qed

lemma loop_start:
  "stackish_parser_execute loop_doc 0 (stackish_parser_init False) =
     Inr (pst 5 1 [Node_create False VGroup] 5 4)"
  "stackish_parser_execute loop_doc 6 (pst 5 1 [Node_create False VGroup] 5 4) =
     Inr (loop_state (attach (Node_create False VGroup) (Node_create True (VBlob (Some ''x'')))))"
  by code_simp+

text \<open>
  (C21) There is a document of 34 bytes on which \<open>Node_parse\<close> never returns.
\<close>

theorem parse_loops: "Node_parse False (Some loop_doc) = None"
proof -
  have "bchar (Some loop_doc) (blength (Some loop_doc) - 1) = CHR 0x0A" by code_simp
  moreover have "blob_loop loop_doc (pst 5 1 [Node_create False VGroup] 5 4) = None"
    by (subst blob_loop.simps)
      (simp add: loop_start loop_forever blob_pending_def next_off_def stackish_more_def loop_doc_length
        stackish_parser_is_finished_def stackish_parser_first_final_def stackish_parser_has_error_def
        stackish_parser_error_def)
  ultimately show ?thesis
    by (simp add: Node_parse_def Node_parse_seq_def Let_def loop_start stackish_parser_has_error_def
        stackish_parser_error_def del: blength.simps)
qed

lemma Node_parse_from:
  assumes "b \<noteq> []" "last b \<in> {CHR '' '', CHR 0x0A, CHR 0x09}" "length b < 2 ^ 31"
  shows "Node_parse False (Some b) =
    (case parse_from b 0 (ready [] 0 0) of
       None \<Rightarrow> None
     | Some (Inl f) \<Rightarrow> Some (Inl f)
     | Some (Inr (ok, s2)) \<Rightarrow> Some (if ok then parse_done b s2 else parse_failed (sp_nread s2) s2))"
  using Node_parse_seq_from [OF assms(1,2) _ assms(3), of 0] by (simp add: Node_parse_def)

text \<open>
  (C22) A document that starts with an attribute makes the parser dereference NULL.
\<close>

theorem parse_leading_attr:
  assumes a: "attr_name a" and rest: "rest = [] \<or> last rest \<in> {CHR '' '', CHR 0x0A, CHR 0x09}"
    and len: "length (a @ '' '' @ rest) < 2 ^ 31"
  shows "Node_parse False (Some (a @ '' '' @ rest)) = Some (Inl NullDeref)"
proof -
  define buf where "buf = a @ CHR '' '' # rest"
  obtain c cs where ac: "a = CHR ''@'' # c # cs" and c: "is_alpha_char c" and cs: "list_all is_word_char cs"
    using a by (cases a; cases "tl a") (auto simp: attr_name_def word_name_def)
  define s where "s = pst 12 0 [] 0 0"
  have "scan buf buf 0 (ready [] 0 0) = scan buf (cs @ CHR '' '' # rest) 2 s"
    using c by (subst (2) buf_def) (simp add: ac scan_Cons is_alpha_char_def s_def numeral_2_eq_2)
  also have "\<dots> = scan buf (CHR '' '' # rest) (2 + length cs) s"
    using cs by (subst scan_loop) (auto simp: list_all_iff is_word_char_def s_def)
  also have "\<dots> = Inl NullDeref"
    by (simp add: s_def scan_Cons handle_attr_def)
  finally have "parse_from buf 0 (ready [] 0 0) = Some (Inl NullDeref)"
    by (simp add: parse_from_def)
  moreover have "buf \<noteq> []" "last buf \<in> {CHR '' '', CHR 0x0A, CHR 0x09}" "length buf < 2 ^ 31"
    using rest len by (auto simp: buf_def)
  ultimately show ?thesis
    using Node_parse_from [of buf] by (simp add: buf_def)
qed

theorem parse_leading_attr_witness:
  "Node_parse False (Some (''@a'' @ '' '' @ [CHR 0x0A])) = Some (Inl NullDeref)"
proof (rule parse_leading_attr)
  show "attr_name ''@a''" by code_simp
qed simp_all

text \<open>
  A document that opens a group and then a blob whose length, less than \<open>2 ^ 31\<close>, runs past the
  end of the buffer fails the assertion \<open>buffer overflow\<close>, which stops the process.
\<close>

theorem parse_blob_overrun:
  assumes n: "0 < n" "length rest \<le> n" "n < 2 ^ 31"
    and rest: "rest \<noteq> []" "last rest \<in> {CHR '' '', CHR 0x0A, CHR 0x09}"
    and len: "length (''[ '' @ [CHR 0x27] @ fmt_u (int n) @ '':'' @ rest) < 2 ^ 31"
  shows "Node_parse False (Some (''[ '' @ [CHR 0x27] @ fmt_u (int n) @ '':'' @ rest)) = Some (Inl AssertFailed)"
proof -
  define buf where "buf = ''[ '' @ CHR 0x27 # fmt_u (int n) @ CHR '':'' # rest"
  define q where "q = 3 + length (fmt_u (int n))"
  define g where "g = [Node_create False VGroup]"
  have blen: "length buf < 2 ^ 31" "length buf = Suc q + length rest"
    using len by (simp_all add: buf_def q_def)
  have d: "drop (Suc 2) buf = fmt_u (int n) @ CHR '':'' # rest"
    by (simp add: buf_def numeral_2_eq_2)
  define s where "s = pst 5 (word_of_nat n) g (word_of_nat (Suc q)) (word_of_nat q)"
  have "scan buf buf 0 (ready [] 0 0) = Inr (q, pst 5 (word_of_nat n) g (word_of_nat (Suc q)) 0)"
    using scan_blob_head [OF d blen(1) n(3), of g 0 0] n(1) scan_open [of buf "drop 2 buf" 0 "[]" 0 0]
    by (simp add: buf_def [symmetric] Let_def q_def g_def)
      (simp add: buf_def numeral_2_eq_2)
  then have "parse_from buf 0 (ready [] 0 0) = blob_loop buf s"
    by (simp add: parse_from_def s_def)
  also have "\<dots> = Some (Inl AssertFailed)"
  proof -
    have q: "unat (word_of_nat q :: 64 word) = q" "unat (word_of_nat n :: 64 word) = n"
      using blen n unat_pos by simp_all
    have "unat (next_off s) = q + n + 1"
      using next_off_nowrap [of s] q blen n by (simp add: s_def)
    then have "\<not> unat (next_off s) < length buf" using n(2) blen(2) by simp
    moreover have "blob_pending buf s"
      using q n(1) blen(2)
      by (auto simp: blob_pending_def s_def stackish_more_def stackish_parser_is_finished_def
          stackish_parser_first_final_def simp flip: unat_eq_0)
    ultimately show ?thesis by (subst blob_loop.simps) simp
  qed
  finally show ?thesis
    using Node_parse_from [of buf] rest blen(1) by (simp add: buf_def)
qed

theorem parse_blob_overrun_witness:
  "Node_parse False (Some (''[ '' @ [CHR 0x27] @ fmt_u (int 500) @ '':'' @ ''hi x '')) = Some (Inl AssertFailed)"
  by (rule parse_blob_overrun) (simp_all add: fmt_u.simps)

text \<open>
  A number of \<open>2 ^ 64\<close> or more is not reported: the parser stops at it, drops it and
  everything behind it, and \<open>Node_parse\<close> returns the tree read so far as if the document
  were complete.
\<close>

theorem parse_big_number:
  assumes ds: "ds \<noteq> []" "list_all is_digit_char ds" "2 ^ 64 \<le> digits_val ds"
    and rest: "rest = [] \<or> last rest \<in> {CHR '' '', CHR 0x0A, CHR 0x09}"
    and len: "length (''[ '' @ ds @ '' '' @ rest) < 2 ^ 31"
  shows "Node_parse False (Some (''[ '' @ ds @ '' '' @ rest)) =
    Some (Inr \<lparr> pr_root = Some (Nd None VGroup False []),
      pr_from = word_of_nat (3 + length ds + skip_newlines rest), pr_errno = False \<rparr>)"
proof -
  define buf where "buf = ''[ '' @ ds @ CHR '' '' # rest"
  obtain c cs where dc: "ds = c # cs" using ds(1) by (cases ds) auto
  have dig: "is_digit_char c" "list_all is_digit_char cs" using ds(2) by (simp_all add: dc)
  have blen: "length buf < 2 ^ 31" "2 + length ds < 2 ^ 31" using len by (simp_all add: buf_def)
  define g where "g = [Node_create False VGroup]"
  define s where "s = pst 14 0 g 2 0"
  have read: "strtoull (ds @ CHR '' '' # rest) = (-1, length ds, True)"
    using strtoull_digits [of ds "CHR '' '' # rest"] ds by (simp add: list_all_iff)
  have d: "drop 2 buf = ds @ CHR '' '' # rest" by (simp add: buf_def)
  have "scan buf buf 0 (ready [] 0 0) = scan buf (ds @ CHR '' '' # rest) 2 (ready g 0 0)"
    by (subst (2) buf_def, subst scan_open) (simp add: g_def numeral_2_eq_2)
  also have "\<dots> = scan buf (cs @ CHR '' '' # rest) 3 s"
    using dig by (simp add: dc scan_Cons token_start_digit s_def numeral_3_eq_3)
  also have "\<dots> = scan buf (CHR '' '' # rest) (2 + length ds) s"
    using dig by (subst scan_loop) (auto simp: dc list_all_iff is_digit_not_point s_def numeral_3_eq_3)
  also have "\<dots> = Inr (2 + length ds, ready g 2 0)"
    using read d
    by (simp add: s_def g_def scan_Cons handle_push_def push_ctl_def Node_from_str_def nd_type_def PTR_TO_def)
  finally have run: "parse_from buf 0 (ready [] 0 0) = Some (Inr (True, ready g 2 (word_of_nat (2 + length ds))))"
    by (simp add: parse_from_def blob_loop_done blob_pending_def stackish_more_def)
  have "unat (word_of_nat (2 + length ds) + 1 :: 64 word) = 3 + length ds"
    using unat_pos [of "3 + length ds"] blen(1) by (simp add: buf_def)
  moreover have drop3: "drop (3 + length ds) buf = rest" by (simp add: buf_def numeral_3_eq_3)
  ultimately have "parse_done buf (ready g 2 (word_of_nat (2 + length ds))) =
    Inr \<lparr> pr_root = Some (Nd None VGroup False []),
      pr_from = word_of_nat (3 + length ds + skip_newlines rest), pr_errno = False \<rparr>"
    using drop3 by (simp add: parse_done_def Let_def sp_root_def g_def Node_create_def)
  then show ?thesis
    using Node_parse_from [of buf] run rest blen(1) by (auto simp: buf_def)
qed

theorem parse_big_number_witness:
  "Node_parse False (Some (''[ '' @ ''18446744073709551616'' @ '' '' @ ''x '')) =
    Some (Inr \<lparr> pr_root = Some (Nd None VGroup False []), pr_from = 23, pr_errno = False \<rparr>)"
proof -
  have "list_all is_digit_char ''18446744073709551616''" by code_simp
  moreover have "2 ^ 64 \<le> digits_val ''18446744073709551616''" by code_simp
  ultimately show ?thesis
    using parse_big_number [of "''18446744073709551616''" "''x ''"] by simp
qed

end
