(* ===== verification/Message.thy ===== *)
theory Message
  imports NodeFormat NodeDestroy
begin

text \<open>
  Messages (\<open>src/protocol/message.c\<close>): building header and body, taking them apart, and the
  reference count that decides when a message is released.

  Messages live in a store from allocation numbers to records; a released message has no
  entry. \<open>ref_count\<close> is a \<open>short\<close>. \<open>hdr\<close> and \<open>body\<close> are owned trees, \<open>data\<close> is a pointer
  into \<open>body\<close>, and \<open>type\<close> shares the name of \<open>body\<close>.
\<close>

section \<open>The record\<close>

record Message =
  msgid :: "64 word"
  m_type :: bstring
  received_at :: int
  m_from :: "nat option"
  m_data :: "cursor option"
  m_hdr :: "node option"
  m_body :: "node option"
  ref_count :: "16 word"

type_synonym mstore = "nat \<rightharpoonup> Message"

definition message_test_calloc :: Message where
  "message_test_calloc =
     \<lparr> msgid = 0, m_type = None, received_at = 0, m_from = None, m_data = None, m_hdr = None,
       m_body = None, ref_count = 0 \<rparr>"

definition Message_alloc :: "int \<Rightarrow> node option \<Rightarrow> node option \<Rightarrow> Message" where
  "Message_alloc now hdr body =
     (let msg = message_test_calloc\<lparr> m_hdr := hdr, m_body := body, received_at := now \<rparr>
      in case body of None \<Rightarrow> msg | Some b \<Rightarrow> msg\<lparr> m_type := nd_name b \<rparr>)"

definition Message_ref_inc :: "Message \<Rightarrow> Message" where
  "Message_ref_inc msg = msg\<lparr> ref_count := ref_count msg + 1 \<rparr>"

definition Message_ref_dec :: "Message \<Rightarrow> Message" where
  "Message_ref_dec msg = msg\<lparr> ref_count := ref_count msg - 1 \<rparr>"

text \<open>
  \<open>Message_destroy\<close> on the record: \<open>None\<close> when the message is released, together with what
  the two trees gave back.
\<close>

definition destroy_opt :: "node option \<Rightarrow> freed list res" where
  "destroy_opt t = (case t of None \<Rightarrow> Inr [] | Some n \<Rightarrow> Node_destroy [n])"

definition Message_release :: "Message \<Rightarrow> (Message option \<times> freed list) res" where
  "Message_release msg =
     (let msg = Message_ref_dec msg
      in if sint (ref_count msg) < 0 then Inl AssertFailed
         else if ref_count msg = 0 then
           bind_res (destroy_opt (m_hdr msg)) (\<lambda>f1.
             bind_res (destroy_opt (m_body msg)) (\<lambda>f2. Inr (None, f1 @ f2)))
         else Inr (Some msg, []))"

definition Message_destroy :: "mstore \<Rightarrow> nat option \<Rightarrow> mstore res" where
  "Message_destroy st m =
     (case m of
        None \<Rightarrow> Inl AssertFailed
      | Some a \<Rightarrow>
          (case st a of
             None \<Rightarrow> Inl Dangling
           | Some msg \<Rightarrow> bind_res (Message_release msg) (\<lambda>(r, freed). Inr (st(a := r)))))"

text \<open>
  \<open>Message_dump\<close>: what it writes to \<open>stderr\<close>. It writes the header when there is a body, so a
  body without a header fails the assertion of \<open>Node_bstr\<close>.
\<close>

definition dump_opt :: "node option \<Rightarrow> string res" where
  "dump_opt t = Node_dump (case t of None \<Rightarrow> [] | Some n \<Rightarrow> [n]) False"

definition Message_dump :: "Message \<Rightarrow> string res" where
  "Message_dump msg =
     bind_res (case m_data msg of None \<Rightarrow> Inr [] | Some d \<Rightarrow> Node_bstr [cu_node d] False) (\<lambda>data.
       bind_res (if m_body msg \<noteq> None then dump_opt (m_body msg) else Inr []) (\<lambda>body.
         bind_res (if m_body msg \<noteq> None then dump_opt (m_hdr msg) else Inr []) (\<lambda>hdr.
           Inr (''Message: { msgid: '' @ fmt_u (uint (msgid msg)) @ '', type: '' @ fmt_s (m_type msg) @
             '' received_at: '' @ fmt_u (received_at msg mod 2 ^ 32) @ '', data: '' @ cstr data @
             ''BODY: '' @ body @ ''HEADER: '' @ hdr @ ''}'' @ [CHR 0x0A]))))"

section \<open>Header and body\<close>

definition Message_cons_header :: "bool \<Rightarrow> 64 word \<Rightarrow> node option res" where
  "Message_cons_header er mid = Node_cons er ''[nw'' [CNumber mid, CWord (Some ''header'')]"

text \<open>
  \<open>Message_cons\<close> returns the header it stores through \<open>hdr\<close> and the body. A failed
  \<open>Node_cons\<close> clears \<open>errno\<close>.
\<close>

definition Message_cons ::
  "bool \<Rightarrow> 64 word \<Rightarrow> node option \<Rightarrow> string option \<Rightarrow> (node option \<times> node option) res" where
  "Message_cons er mid data ty =
     (if data = None \<or> ty = None then Inl AssertFailed
      else
        bind_res (Message_cons_header er mid) (\<lambda>hdr.
          bind_res (Node_cons (er \<and> hdr \<noteq> None) ''[Gw'' [CGroup data, CWord ty]) (\<lambda>body. Inr (hdr, body))))"

text \<open>
  \<open>Message_decons\<close>: a message, or the storage released on the way out. \<open>Node_dump\<close> only
  writes to the log.
\<close>

datatype decons = DeconsOk Message | DeconsFail "freed list"

definition decons_fail :: "Message \<Rightarrow> decons res" where
  "decons_fail msg = bind_res (Message_release msg) (\<lambda>(r, freed). Inr (DeconsFail freed))"

fun Message_decons :: "bool \<Rightarrow> int \<Rightarrow> node option \<Rightarrow> node option \<Rightarrow> decons res" where
  "Message_decons er now (Some hdr) (Some body) =
     (let msg = Message_ref_inc (Message_alloc now (Some hdr) (Some body))
      in if m_type msg = None \<or> er then decons_fail msg
         else
           bind_res (Node_decons er (Some (root_cursor hdr)) False ''[nw'' [DNumber, DWord ''header'']) (\<lambda>rc.
             case rc of
               Some [ONumber n] \<Rightarrow>
                 let msg = msg\<lparr> msgid := n \<rparr>
                 in bind_res (Node_decons er (Some (root_cursor body)) False ''[G.'' [DGroup True]) (\<lambda>rc.
                      case rc of
                        Some [OGroup d] \<Rightarrow> Inr (DeconsOk (Message_ref_dec (msg\<lparr> m_data := Some d \<rparr>)))
                      | _ \<Rightarrow> decons_fail msg)
             | _ \<Rightarrow> decons_fail msg))"
| "Message_decons er now _ _ = Inl AssertFailed"

section \<open>Reading what was built\<close>

lemma header_tree:
  "Message_cons_header False mid =
     Inr (Some (Nd (Some ''header'') VGroup False [Nd None (VNumber mid) True []]))"
  by (simp add: Message_cons_header_def Node_cons_def cons_step.simps cons_leaf_def Node_create_def
      attach_def set_child_def LIST_ADD_def cstr_def NUL_def)

lemma body_tree:
  assumes "\<not> nd_linked data"
  shows "Node_cons False ''[Gw'' [CGroup (Some data), CWord (Some ty)] =
    Inr (Some (Nd (Some (cstr ty)) VGroup False [data]))"
  using assms
  by (simp add: Node_cons_def cons_step.simps Node_create_def attach_def set_child_def LIST_ADD_def)

text \<open>
  What \<open>Message_decons\<close> accepts: a group named \<open>header\<close> whose first child is a number, and
  a named body with a child. The name is compared through the parent link of the child the
  format stops at; the parser sets that link on every child.
\<close>

definition header_id :: "node \<Rightarrow> 64 word option" where
  "header_id hdr =
     (case nd_child hdr of
        [] \<Rightarrow> None
      | c # cs \<Rightarrow>
          (case nd_value c of
             VNumber n \<Rightarrow>
               if nd_linked (hd (cs @ [c])) \<and> \<not> name_is hdr ''header'' then None else Some n
           | _ \<Rightarrow> None))"

lemma decons_header:
  "Node_decons False (Some (root_cursor hdr)) False ''[nw'' [DNumber, DWord ''header''] =
     Inr (map_option (\<lambda>n. [ONumber n]) (header_id hdr))"
proof (cases "nd_child hdr")
  case Nil
  then show ?thesis
    by (simp add: Node_decons_def decons_step.simps header_id_def root_cursor_def)
next
  case (Cons c cs)
  then show ?thesis
    by (cases "nd_value c"; cases cs)
      (simp_all add: Node_decons_def decons_step.simps header_id_def root_cursor_def)
qed

lemma decons_body:
  "Node_decons False (Some (root_cursor body)) False ''[G.'' [DGroup True] =
     Inr (map_option (\<lambda>d. [OGroup d]) (cur_child (root_cursor body)))"
  by (cases "cur_child (root_cursor body)")
    (simp_all add: Node_decons_def decons_step.simps)

lemma release_last:
  "ref_count msg = 1 \<Longrightarrow> Message_release msg =
     bind_res (destroy_opt (m_hdr msg)) (\<lambda>f1.
       bind_res (destroy_opt (m_body msg)) (\<lambda>f2. Inr (None, f1 @ f2)))"
  by (simp add: Message_release_def Message_ref_dec_def Let_def)

lemma alloc_fields [simp]:
  "m_hdr (Message_alloc now h b) = h" "m_body (Message_alloc now h b) = b"
  "m_type (Message_alloc now h b) = (case b of None \<Rightarrow> None | Some n \<Rightarrow> nd_name n)"
  "received_at (Message_alloc now h b) = now" "ref_count (Message_alloc now h b) = 0"
  by (simp_all add: Message_alloc_def message_test_calloc_def Let_def split: option.split)

lemma ref_inc_fields [simp]:
  "m_hdr (Message_ref_inc msg) = m_hdr msg" "m_body (Message_ref_inc msg) = m_body msg"
  "m_type (Message_ref_inc msg) = m_type msg" "ref_count (Message_ref_inc msg) = ref_count msg + 1"
  by (simp_all add: Message_ref_inc_def)

definition trees_freed :: "node \<Rightarrow> node \<Rightarrow> decons res" where
  "trees_freed hdr body =
     bind_res (Node_destroy [hdr]) (\<lambda>f1. bind_res (Node_destroy [body]) (\<lambda>f2. Inr (DeconsFail (f1 @ f2))))"

lemma decons_fail_trees:
  "ref_count msg = 1 \<Longrightarrow> m_hdr msg = Some hdr \<Longrightarrow> m_body msg = Some body \<Longrightarrow>
     decons_fail msg = trees_freed hdr body"
  by (simp add: decons_fail_def release_last destroy_opt_def trees_freed_def)

lemma decons_success:
  "header_id hdr = Some n \<Longrightarrow> nd_name body = Some ty \<Longrightarrow> cur_child (root_cursor body) = Some d \<Longrightarrow>
     Message_decons False now (Some hdr) (Some body) =
       Inr (DeconsOk \<lparr> msgid = n, m_type = Some ty, received_at = now, m_from = None,
         m_data = Some d, m_hdr = Some hdr, m_body = Some body, ref_count = 0 \<rparr>)"
  by (simp add: Let_def decons_header decons_body Message_ref_inc_def Message_ref_dec_def
      Message_alloc_def message_test_calloc_def)

text \<open>
  (C24) \<open>Message_decons\<close> on every header and body: it succeeds exactly when \<open>errno\<close> is clear,
  the body has a name and a child, and the header is a group named \<open>header\<close> that starts with
  a number. Then the message has that number, the name and the first child of the body, owns
  both trees and has no references yet. In every other case it releases both trees, so the
  caller's pointers to them are gone.
\<close>

theorem Message_decons_cases:
  "Message_decons er now (Some hdr) (Some body) =
     (case (er, nd_name body, header_id hdr, cur_child (root_cursor body)) of
        (False, Some ty, Some n, Some d) \<Rightarrow>
          Inr (DeconsOk \<lparr> msgid = n, m_type = Some ty, received_at = now, m_from = None,
            m_data = Some d, m_hdr = Some hdr, m_body = Some body, ref_count = 0 \<rparr>)
      | _ \<Rightarrow>
          bind_res (Node_destroy [hdr]) (\<lambda>f1.
            bind_res (Node_destroy [body]) (\<lambda>f2. Inr (DeconsFail (f1 @ f2)))))"
  unfolding trees_freed_def [symmetric]
  by (cases "nd_name body"; cases er; cases "header_id hdr"; cases "cur_child (root_cursor body)")
    (simp_all add: Let_def decons_header decons_body decons_fail_trees Message_ref_inc_def
      Message_ref_dec_def Message_alloc_def message_test_calloc_def)

text \<open>
  (C25) A header and a body made by \<open>Message_cons\<close> are read back by \<open>Message_decons\<close>: the
  identifier, the type (up to a NUL) and the data come back.
\<close>

theorem Message_cons_decons:
  assumes "\<not> nd_linked data"
  shows "\<exists>hdr body msg. Message_cons False mid (Some data) (Some ty) = Inr (Some hdr, Some body) \<and>
    Message_decons False now (Some hdr) (Some body) = Inr (DeconsOk msg) \<and>
    msgid msg = mid \<and> m_type msg = Some (cstr ty) \<and> map_option cu_node (m_data msg) = Some data \<and>
    received_at msg = now \<and> ref_count msg = 0"
proof -
  define hdr where "hdr = Nd (Some ''header'') VGroup False [Nd None (VNumber mid) True []]"
  define body where "body = Nd (Some (cstr ty)) VGroup False [data]"
  have "Message_cons False mid (Some data) (Some ty) = Inr (Some hdr, Some body)"
    by (simp add: Message_cons_def header_tree body_tree assms hdr_def body_def)
  moreover have "name_is hdr ''header''"
    by (simp add: name_is_def hdr_def cstr_def NUL_def)
  then have "header_id hdr = Some mid"
    by (simp add: header_id_def) (simp add: hdr_def)
  from decons_success [OF this, of body "cstr ty"]
  have "Message_decons False now (Some hdr) (Some body) =
      Inr (DeconsOk \<lparr> msgid = mid, m_type = Some (cstr ty), received_at = now, m_from = None,
        m_data = Some (Cur data [] [(body, [])]), m_hdr = Some hdr, m_body = Some body, ref_count = 0 \<rparr>)"
    by (simp add: body_def root_cursor_def)
  ultimately show ?thesis by fastforce
qed

lemma Message_cons_decons_witness:
  "\<exists>hdr body msg. Message_cons False 7 (Some (Nd (Some ''chat'') VGroup False [])) (Some ''say'') =
      Inr (Some hdr, Some body) \<and>
    Message_decons False 0 (Some hdr) (Some body) = Inr (DeconsOk msg) \<and> msgid msg = 7 \<and>
    m_type msg = Some ''say''"
  using Message_cons_decons [of "Nd (Some ''chat'') VGroup False []" 7 "''say''" 0]
  by (auto simp: cstr_def NUL_def)

section \<open>References\<close>

text \<open>
  \<open>refs_ok st f\<close>: every stored message counts the references \<open>f\<close> gives it, and no released
  message has any. \<open>destroyable\<close> is the bound \<open>Node_destroy\<close> asserts.
\<close>

definition destroyable :: "node option \<Rightarrow> bool" where
  "destroyable t \<longleftrightarrow> (case t of None \<Rightarrow> True | Some n \<Rightarrow> bt_depth [n] < MAX_TREE_DEEP)"

definition msg_ok :: "Message \<Rightarrow> bool" where
  "msg_ok msg \<longleftrightarrow> destroyable (m_hdr msg) \<and> destroyable (m_body msg)"

definition refs_ok :: "mstore \<Rightarrow> (nat \<Rightarrow> nat) \<Rightarrow> bool" where
  "refs_ok st f \<longleftrightarrow>
     (\<forall>a. case st a of None \<Rightarrow> f a = 0 | Some msg \<Rightarrow> msg_ok msg \<and> sint (ref_count msg) = int (f a))"

lemma refs_okD: "refs_ok st f \<Longrightarrow> st a = Some msg \<Longrightarrow> msg_ok msg \<and> sint (ref_count msg) = int (f a)"
  by (drule spec [of _ a, OF refs_ok_def [THEN iffD1]]) simp

lemma refs_ok_dom: "refs_ok st f \<Longrightarrow> 0 < f a \<Longrightarrow> \<exists>msg. st a = Some msg"
  unfolding refs_ok_def by (drule spec [of _ a]) (cases "st a"; simp)

lemma refs_ok_upd:
  "refs_ok st f \<Longrightarrow> msg_ok msg \<Longrightarrow> sint (ref_count msg) = int k \<Longrightarrow> refs_ok (st(a \<mapsto> msg)) (f(a := k))"
  by (simp add: refs_ok_def split: option.splits) (metis option.distinct(1))

lemma refs_ok_free: "refs_ok st f \<Longrightarrow> refs_ok (st(a := None)) (f(a := 0))"
  by (simp add: refs_ok_def split: option.splits) (metis option.distinct(1))

lemma sint_shift:
  fixes w :: "16 word"
  assumes "-32768 \<le> sint w + d" "sint w + d < 32768"
  shows "sint (w + word_of_int d) = sint w + d"
proof -
  have "w + word_of_int d = word_of_int (sint w + d)" by simp
  then have "sint (w + word_of_int d) = signed_take_bit 15 (sint w + d)"
    by (simp add: signed_of_int del: of_int_add)
  then show ?thesis using assms by (simp add: signed_take_bit_int_eq_self)
qed

lemma sint_succ: "sint (w :: 16 word) = int k \<Longrightarrow> k < 32767 \<Longrightarrow> sint (w + 1) = int (Suc k)"
  using sint_shift [of w 1] by simp

lemma sint_pred: "sint (w :: 16 word) = int (Suc k) \<Longrightarrow> sint (w - 1) = int k"
  using sint_shift [of w "-1"] sint_lt [of w] by simp

lemma sint_zero: "sint (w :: 16 word) = 0 \<Longrightarrow> w = 0"
  by (rule signed_word_eqI) simp

lemma refs_inc:
  assumes "refs_ok st f" "st a = Some msg" "f a < 32767"
  shows "refs_ok (st(a \<mapsto> Message_ref_inc msg)) (f(a := Suc (f a)))"
  using assms refs_okD [OF assms(1,2)]
  by (intro refs_ok_upd) (simp_all add: msg_ok_def sint_succ)

lemma destroy_opt_ok: "destroyable t \<Longrightarrow> \<exists>fr. destroy_opt t = Inr fr"
  by (cases t) (simp_all add: destroyable_def destroy_opt_def Node_destroy_def tree_map_visit)

text \<open>Dropping a reference: the message goes exactly when it was the last one.\<close>

lemma Message_destroy_ok:
  assumes "refs_ok st f" "0 < f a"
  obtains st' where "Message_destroy st (Some a) = Inr st'" "refs_ok st' (f(a := f a - 1))"
    "\<And>b. b \<noteq> a \<Longrightarrow> st' b = st b" "st' a = None \<longleftrightarrow> f a = 1"
proof -
  obtain msg where msg: "st a = Some msg" using refs_ok_dom [OF assms] by blast
  note ok = refs_okD [OF assms(1) msg]
  obtain k where k: "f a = Suc k" using assms(2) gr0_implies_Suc by blast
  define msg' where "msg' = Message_ref_dec msg"
  have rc: "sint (ref_count msg') = int k"
    using ok k sint_pred by (simp add: msg'_def Message_ref_dec_def)
  have ok': "msg_ok msg'" using ok by (simp add: msg'_def Message_ref_dec_def msg_ok_def)
  show thesis
  proof (cases "k = 0")
    case True
    then have z: "ref_count msg' = 0" using rc by (simp add: sint_zero)
    obtain f1 f2 where "destroy_opt (m_hdr msg') = Inr f1" "destroy_opt (m_body msg') = Inr f2"
      using ok' destroy_opt_ok unfolding msg_ok_def by metis
    with z have "Message_destroy st (Some a) = Inr (st(a := None))"
      by (simp add: Message_destroy_def msg Message_release_def msg'_def [symmetric])
    with True k refs_ok_free [OF assms(1), of a] show thesis
      by (intro that [of "st(a := None)"]) simp_all
  next
    case False
    then have "ref_count msg' \<noteq> 0" "\<not> sint (ref_count msg') < 0" using rc by auto
    then have "Message_destroy st (Some a) = Inr (st(a \<mapsto> msg'))"
      by (simp add: Message_destroy_def msg Message_release_def msg'_def [symmetric])
    with False k refs_ok_upd [OF assms(1) ok' rc, of a] show thesis
      by (intro that [of "st(a \<mapsto> msg')"]) simp_all
  qed
qed

end
