(* ===== verification/MsgQueue.thy ===== *)
theory MsgQueue
  imports Message
begin

text \<open>
  The message queue of a member (\<open>src/hub/queue.c\<close>): a ring of \<open>dim\<close> pointers of which
  \<open>dim - 1\<close> can be used. The queue holds a reference to each message in it. The ring refines
  a bounded list, stated once as the locale \<open>bounded_fifo\<close>.

  \<open>junk\<close> is what \<open>malloc\<close> left in the ring. \<open>MsgQueue_first\<close> may sleep
  (\<open>tasksleep\<close> of the task library); it is given as the part before the sleep and the part
  after the wake-up, and what other tasks do to the queue happens in between.
\<close>

section \<open>The ring\<close>

record MsgQueue =
  q_messages :: "nat option list"
  q_dead :: bool
  q_i :: nat
  q_j :: nat
  q_dim :: nat

definition MsgQueue_create :: "(nat \<Rightarrow> nat option) \<Rightarrow> nat \<Rightarrow> MsgQueue res" where
  "MsgQueue_create junk dim =
     (if dim = 0 then Inl AssertFailed
      else Inr \<lparr> q_messages = map junk [0..<dim], q_dead = False, q_i = 0, q_j = 0, q_dim = dim \<rparr>)"

definition MsgQueue_is_empty :: "MsgQueue \<Rightarrow> bool" where
  "MsgQueue_is_empty q \<longleftrightarrow> q_i q = q_j q"

definition MsgQueue_is_full :: "MsgQueue \<Rightarrow> bool" where
  "MsgQueue_is_full q \<longleftrightarrow> q_i q = (q_j q + 1) mod q_dim q"

definition MsgQueue_get_first :: "MsgQueue \<Rightarrow> nat option" where
  "MsgQueue_get_first q = q_messages q ! q_i q"

definition MsgQueue_mark_dead :: "MsgQueue \<Rightarrow> MsgQueue" where
  "MsgQueue_mark_dead q = q\<lparr> q_dead := True \<rparr>"

definition MsgQueue_is_dead :: "MsgQueue \<Rightarrow> bool" where
  "MsgQueue_is_dead q = q_dead q"

definition MsgQueue_clear :: "MsgQueue \<Rightarrow> MsgQueue" where
  "MsgQueue_clear q = q\<lparr> q_i := 0, q_j := 0 \<rparr>"

definition MsgQueue_add :: "mstore \<Rightarrow> MsgQueue \<Rightarrow> nat option \<Rightarrow> (bool \<times> mstore \<times> MsgQueue) res" where
  "MsgQueue_add st q m =
     (case m of
        None \<Rightarrow> Inl AssertFailed
      | Some a \<Rightarrow>
          if MsgQueue_is_full q then Inr (False, st, q)
          else (case st a of
                  None \<Rightarrow> Inl Dangling
                | Some msg \<Rightarrow>
                    Inr (True, st(a \<mapsto> Message_ref_inc msg),
                      q\<lparr> q_messages := (q_messages q)[q_j q := m],
                         q_j := (q_j q + 1) mod q_dim q \<rparr>)))"

definition MsgQueue_delete :: "mstore \<Rightarrow> MsgQueue \<Rightarrow> (bool \<times> mstore \<times> MsgQueue) res" where
  "MsgQueue_delete st q =
     (if MsgQueue_is_empty q then Inr (False, st, q)
      else case q_messages q ! q_i q of
             Some a \<Rightarrow>
               bind_res (Message_destroy st (Some a)) (\<lambda>st.
                 Inr (True, st, q\<lparr> q_messages := (q_messages q)[q_i q := None],
                                   q_i := (q_i q + 1) mod q_dim q \<rparr>))
           | None \<Rightarrow> Inr (False, st, q))"

text \<open>The loop of \<open>MsgQueue_destroy\<close>; on a ring with a NULL entry in use it never ends.\<close>

partial_function (option) MsgQueue_destroy :: "mstore \<Rightarrow> MsgQueue \<Rightarrow> mstore res option" where
  "MsgQueue_destroy st q =
     (if MsgQueue_is_empty q then Some (Inr st)
      else case MsgQueue_delete st q of
             Inl f \<Rightarrow> Some (Inl f)
           | Inr (_, st', q') \<Rightarrow> MsgQueue_destroy st' q')"

declare MsgQueue_destroy.simps [code]

datatype queue_first = Returns "nat option" | Sleeps

definition MsgQueue_first :: "MsgQueue \<Rightarrow> queue_first" where
  "MsgQueue_first q =
     (if MsgQueue_is_dead q then Returns None
      else if MsgQueue_is_empty q then Sleeps
      else Returns (MsgQueue_get_first q))"

definition MsgQueue_first_woken :: "MsgQueue \<Rightarrow> nat option" where
  "MsgQueue_first_woken q =
     (if q_dead q \<or> MsgQueue_is_empty q then None else MsgQueue_get_first q)"

section \<open>The list a ring stands for\<close>

definition q_len :: "MsgQueue \<Rightarrow> nat" where
  "q_len q = (q_j q + q_dim q - q_i q) mod q_dim q"

definition q_list :: "MsgQueue \<Rightarrow> nat list" where
  "q_list q = map (\<lambda>k. the (q_messages q ! ((q_i q + k) mod q_dim q))) [0..<q_len q]"

definition queue_ok :: "MsgQueue \<Rightarrow> bool" where
  "queue_ok q \<longleftrightarrow>
     length (q_messages q) = q_dim q \<and> q_i q < q_dim q \<and> q_j q < q_dim q \<and>
     (\<forall>k < q_len q. q_messages q ! ((q_i q + k) mod q_dim q) \<noteq> None)"

lemma ring_len:
  assumes "i < n" "j < (n :: nat)"
  shows "(j + n - i) mod n = (if i \<le> j then j - i else j + n - i)"
  using assms by (auto simp: mod_if)

lemma ring_end:
  assumes "i < n" "j < (n :: nat)"
  shows "(i + (j + n - i) mod n) mod n = j"
  using assms by (auto simp: ring_len mod_if)

lemma ring_inj:
  assumes "i < n" "k < l" "l < (n :: nat)"
  shows "(i + k) mod n \<noteq> (i + l) mod n"
  using assms by (auto simp: mod_if split: if_splits)

lemma ring_full:
  assumes "i < n" "j < (n :: nat)"
  shows "i = (j + 1) mod n \<longleftrightarrow> Suc ((j + n - i) mod n) = n"
  using assms by (auto simp: ring_len mod_Suc)

lemma ring_grow:
  assumes "i < n" "j < (n :: nat)" "i \<noteq> (j + 1) mod n"
  shows "((j + 1) mod n + n - i) mod n = Suc ((j + n - i) mod n)"
  using assms by (auto simp: ring_len mod_Suc split: if_splits)

lemma ring_shrink:
  assumes "i < n" "j < (n :: nat)" "i \<noteq> j"
  shows "(j + n - i) mod n = Suc ((j + n - (i + 1) mod n) mod n)"
  using assms by (auto simp: ring_len mod_Suc split: if_splits)

lemma length_q_list [simp]: "length (q_list q) = q_len q"
  by (simp add: q_list_def)

lemma q_len_less: "queue_ok q \<Longrightarrow> q_len q < q_dim q"
  by (auto simp: queue_ok_def q_len_def)

lemma create_ok: "0 < dim \<Longrightarrow> \<exists>q. MsgQueue_create junk dim = Inr q \<and> queue_ok q \<and> q_list q = [] \<and> q_dim q = dim"
  by (simp add: MsgQueue_create_def queue_ok_def q_list_def q_len_def)

lemma is_empty_list: "queue_ok q \<Longrightarrow> MsgQueue_is_empty q \<longleftrightarrow> q_list q = []"
  by (auto simp: MsgQueue_is_empty_def queue_ok_def q_list_def q_len_def ring_len split: if_splits)

lemma is_full_list: "queue_ok q \<Longrightarrow> MsgQueue_is_full q \<longleftrightarrow> Suc (length (q_list q)) = q_dim q"
  using ring_full [of "q_i q" "q_dim q" "q_j q"]
  by (simp add: MsgQueue_is_full_def queue_ok_def q_len_def)

lemma get_first_list:
  assumes "queue_ok q" "q_list q \<noteq> []"
  shows "MsgQueue_get_first q = Some (hd (q_list q))"
proof -
  have "0 < q_len q" using assms(2) by (metis length_greater_0_conv length_q_list)
  then have "q_messages q ! ((q_i q + 0) mod q_dim q) \<noteq> None" "[0..<q_len q] = 0 # [1..<q_len q]"
    using assms(1) by (auto simp: queue_ok_def upt_conv_Cons)
  with assms(1) show ?thesis
    by (simp add: MsgQueue_get_first_def q_list_def queue_ok_def)
qed

lemma ring_add:
  assumes ok: "queue_ok q" and room: "\<not> MsgQueue_is_full q"
    and q': "q' = q\<lparr> q_messages := (q_messages q)[q_j q := Some a], q_j := (q_j q + 1) mod q_dim q \<rparr>"
  shows "queue_ok q'" "q_list q' = q_list q @ [a]" "q_dim q' = q_dim q"
proof -
  have d: "q_i q < q_dim q" "q_j q < q_dim q" "length (q_messages q) = q_dim q"
    using ok by (simp_all add: queue_ok_def)
  have len: "q_len q' = Suc (q_len q)"
    using d room by (simp add: q' q_len_def MsgQueue_is_full_def ring_grow del: One_nat_def Suc_eq_plus1)
  have j: "(q_i q + q_len q) mod q_dim q = q_j q" using d by (simp add: q_len_def ring_end)
  have full: "q_len q < q_dim q" by (rule q_len_less [OF ok])
  have at: "q_messages q' ! ((q_i q' + k) mod q_dim q') =
      (if k = q_len q then Some a else q_messages q ! ((q_i q + k) mod q_dim q))" if "k \<le> q_len q" for k
    using that ring_inj [OF d(1) _ full, of k] d j by (auto simp: q' le_less)
  show "queue_ok q'"
    using ok d len at by (auto simp: queue_ok_def less_Suc_eq) (simp_all add: q')
  have "q_list q' = map (\<lambda>k. the (q_messages q' ! ((q_i q' + k) mod q_dim q'))) ([0..<q_len q] @ [q_len q])"
    by (simp add: q_list_def len)
  also have "\<dots> = q_list q @ [a]" by (simp add: at q_list_def)
  finally show "q_list q' = q_list q @ [a]" .
  show "q_dim q' = q_dim q" by (simp add: q')
qed

lemma ring_delete:
  assumes ok: "queue_ok q" and some: "q_list q \<noteq> []"
    and q': "q' = q\<lparr> q_messages := (q_messages q)[q_i q := None], q_i := (q_i q + 1) mod q_dim q \<rparr>"
  shows "queue_ok q'" "q_list q' = tl (q_list q)" "q_dim q' = q_dim q"
proof -
  have d: "q_i q < q_dim q" "q_j q < q_dim q" "length (q_messages q) = q_dim q"
    using ok by (simp_all add: queue_ok_def)
  have ne: "q_i q \<noteq> q_j q" using some is_empty_list [OF ok] by (simp add: MsgQueue_is_empty_def)
  have len: "q_len q = Suc (q_len q')"
    using ring_shrink [OF d(1,2) ne] by (simp add: q' q_len_def)
  have full: "q_len q < q_dim q" by (rule q_len_less [OF ok])
  have at: "q_messages q' ! ((q_i q' + k) mod q_dim q') = q_messages q ! ((q_i q + Suc k) mod q_dim q)"
    if "k < q_len q'" for k
  proof -
    have "(q_i q + 0) mod q_dim q \<noteq> (q_i q + Suc k) mod q_dim q"
      using that len full by (intro ring_inj [OF d(1)]) simp_all
    then show ?thesis using d by (simp add: q' mod_add_left_eq nth_list_update)
  qed
  show "queue_ok q'"
    using ok d len at by (auto simp: queue_ok_def) (simp_all add: q')
  have "q_list q' = map (\<lambda>k. the (q_messages q ! ((q_i q + Suc k) mod q_dim q))) [0..<q_len q']"
    by (simp add: q_list_def at)
  also have "\<dots> = tl (q_list q)"
    by (simp add: q_list_def len upt_conv_Cons map_Suc_upt [symmetric] comp_def del: upt_Suc)
  finally show "q_list q' = tl (q_list q)" .
  show "q_dim q' = q_dim q" by (simp add: q')
qed

section \<open>The contract of a bounded queue\<close>

text \<open>
  \<open>enq\<close> refuses when \<open>cap\<close> elements wait, \<open>deq\<close> drops the oldest one, both say whether they
  did. \<open>valid\<close> tells the elements that may be put in.
\<close>

datatype 'a qop = Enq 'a | Deq

primrec qrun :: "('q \<Rightarrow> 'a \<Rightarrow> (bool \<times> 'q) res) \<Rightarrow> ('q \<Rightarrow> (bool \<times> 'q) res) \<Rightarrow> 'a qop list \<Rightarrow> 'q \<Rightarrow>
    (bool list \<times> 'q) res" where
  "qrun enq deq [] q = Inr ([], q)"
| "qrun enq deq (x # xs) q =
     bind_res (case x of Enq a \<Rightarrow> enq q a | Deq \<Rightarrow> deq q) (\<lambda>(b, q').
       bind_res (qrun enq deq xs q') (\<lambda>(bs, q''). Inr (b # bs, q'')))"

fun fifo_step :: "nat \<Rightarrow> 'a qop \<Rightarrow> 'a list \<Rightarrow> bool \<times> 'a list" where
  "fifo_step cap (Enq a) xs = (if length xs < cap then (True, xs @ [a]) else (False, xs))"
| "fifo_step cap Deq xs = (xs \<noteq> [], tl xs)"

primrec fifo_run :: "nat \<Rightarrow> 'a qop list \<Rightarrow> 'a list \<Rightarrow> bool list \<times> 'a list" where
  "fifo_run cap [] xs = ([], xs)"
| "fifo_run cap (p # ps) xs =
     (let (b, ys) = fifo_step cap p xs; (bs, zs) = fifo_run cap ps ys in (b # bs, zs))"

locale bounded_fifo =
  fixes inv :: "'q \<Rightarrow> bool" and abs :: "'q \<Rightarrow> 'a list" and cap :: nat and valid :: "'a \<Rightarrow> bool"
    and enq :: "'q \<Rightarrow> 'a \<Rightarrow> (bool \<times> 'q) res" and deq :: "'q \<Rightarrow> (bool \<times> 'q) res"
  assumes enq_law: "inv q \<Longrightarrow> valid a \<Longrightarrow>
      \<exists>b q'. enq q a = Inr (b, q') \<and> inv q' \<and> (b, abs q') = fifo_step cap (Enq a) (abs q)"
    and deq_law: "inv q \<Longrightarrow> \<exists>b q'. deq q = Inr (b, q') \<and> inv q' \<and> (b, abs q') = fifo_step cap Deq (abs q)"
begin

lemma step_refines:
  assumes "inv q" "case p of Enq a \<Rightarrow> valid a | Deq \<Rightarrow> True"
  obtains b q' where "(case p of Enq a \<Rightarrow> enq q a | Deq \<Rightarrow> deq q) = Inr (b, q')" "inv q'"
    "(b, abs q') = fifo_step cap p (abs q)"
proof (cases p)
  case (Enq a)
  with assms enq_law [of q a] that show thesis by (auto simp del: fifo_step.simps)
next
  case Deq
  with assms deq_law [of q] that show thesis by (auto simp del: fifo_step.simps)
qed

lemma run_refines:
  assumes "inv q" "\<And>a. Enq a \<in> set ps \<Longrightarrow> valid a"
  shows "\<exists>bs q'. qrun enq deq ps q = Inr (bs, q') \<and> inv q' \<and> (bs, abs q') = fifo_run cap ps (abs q)"
  using assms
proof (induction ps arbitrary: q)
  case (Cons p ps)
  obtain b q1 where 1: "(case p of Enq a \<Rightarrow> enq q a | Deq \<Rightarrow> deq q) = Inr (b, q1)" "inv q1"
    "(b, abs q1) = fifo_step cap p (abs q)"
    using Cons.prems step_refines [of q p] by (cases p) auto
  obtain bs q2 where 2: "qrun enq deq ps q1 = Inr (bs, q2)" "inv q2" "(bs, abs q2) = fifo_run cap ps (abs q1)"
    using Cons.IH [OF 1(2)] Cons.prems(2) by auto
  have "qrun enq deq (p # ps) q = Inr (b # bs, q2)" by (simp add: 1(1) 2(1))
  moreover have "(b # bs, abs q2) = fifo_run cap (p # ps) (abs q)"
    by (simp add: 1(3) [symmetric] 2(3) [symmetric])
  ultimately show ?case using 2(2) by blast
qed simp

end

section \<open>The ring keeps the contract and its references\<close>

text \<open>
  The queue with the message store it acts on. \<open>g\<close> counts the references held outside the
  queue; those in the queue come on top. A message may be added while somebody holds it.
\<close>

definition queue_refs :: "(nat \<Rightarrow> nat) \<Rightarrow> MsgQueue \<Rightarrow> nat \<Rightarrow> nat" where
  "queue_refs g q a = g a + count_list (q_list q) a"

definition ring_inv :: "(nat \<Rightarrow> nat) \<Rightarrow> nat \<Rightarrow> mstore \<times> MsgQueue \<Rightarrow> bool" where
  "ring_inv g n = (\<lambda>(st, q). queue_ok q \<and> q_dim q = Suc n \<and> refs_ok st (queue_refs g q))"

definition held :: "(nat \<Rightarrow> nat) \<Rightarrow> nat \<Rightarrow> nat \<Rightarrow> bool" where
  "held g n a \<longleftrightarrow> 0 < g a \<and> g a + n < 32768"

definition ring_enq :: "mstore \<times> MsgQueue \<Rightarrow> nat \<Rightarrow> (bool \<times> mstore \<times> MsgQueue) res" where
  "ring_enq = (\<lambda>(st, q) a. MsgQueue_add st q (Some a))"

definition ring_deq :: "mstore \<times> MsgQueue \<Rightarrow> (bool \<times> mstore \<times> MsgQueue) res" where
  "ring_deq = (\<lambda>(st, q). MsgQueue_delete st q)"

lemma MsgQueue_add_ok:
  assumes ok: "queue_ok q" and refs: "refs_ok st (queue_refs g q)" and a: "st a = Some msg"
    and room: "Suc (length (q_list q)) < q_dim q" and bound: "g a + q_dim q \<le> 32768"
  obtains st' q' where "MsgQueue_add st q (Some a) = Inr (True, st', q')" "queue_ok q'"
    "q_list q' = q_list q @ [a]" "q_dim q' = q_dim q" "refs_ok st' (queue_refs g q')"
    "\<And>b. b \<noteq> a \<Longrightarrow> st' b = st b" "q_dead q' = q_dead q"
proof -
  define q' where "q' = q\<lparr> q_messages := (q_messages q)[q_j q := Some a], q_j := (q_j q + 1) mod q_dim q \<rparr>"
  have nf: "\<not> MsgQueue_is_full q" using room is_full_list [OF ok] by simp
  note q' = ring_add [OF ok nf q'_def]
  have "count_list (q_list q) a \<le> length (q_list q)" by (rule count_le_length)
  then have "queue_refs g q a < 32767" using room bound by (simp add: queue_refs_def)
  from refs_inc [OF refs a this]
  have "refs_ok (st(a \<mapsto> Message_ref_inc msg)) (queue_refs g q')"
    by (rule back_subst [of "refs_ok _"]) (auto simp: queue_refs_def q')
  moreover have "MsgQueue_add st q (Some a) = Inr (True, st(a \<mapsto> Message_ref_inc msg), q')"
    using nf a by (simp add: MsgQueue_add_def q'_def)
  ultimately show thesis using q' by (intro that [of "st(a \<mapsto> Message_ref_inc msg)" q']) (simp_all add: q'_def)
qed

lemma MsgQueue_delete_ok:
  assumes ok: "queue_ok q" and refs: "refs_ok st (queue_refs g q)" and some: "q_list q \<noteq> []"
  obtains st' q' where "MsgQueue_delete st q = Inr (True, st', q')" "queue_ok q'"
    "q_list q' = tl (q_list q)" "q_dim q' = q_dim q" "refs_ok st' (queue_refs g q')"
proof -
  obtain a xs where xs: "q_list q = a # xs" using some by (cases "q_list q") auto
  define q' where "q' = q\<lparr> q_messages := (q_messages q)[q_i q := None], q_i := (q_i q + 1) mod q_dim q \<rparr>"
  note q' = ring_delete [OF ok some q'_def]
  have first: "q_messages q ! q_i q = Some a"
    using get_first_list [OF ok some] by (simp add: MsgQueue_get_first_def xs)
  have "0 < queue_refs g q a" by (simp add: queue_refs_def xs)
  then obtain st' where st': "Message_destroy st (Some a) = Inr st'"
    "refs_ok st' ((queue_refs g q)(a := queue_refs g q a - 1))"
    using Message_destroy_ok [OF refs] by blast
  have "refs_ok st' (queue_refs g q')"
    using st'(2) by (rule back_subst [of "refs_ok _"]) (auto simp: queue_refs_def q' xs)
  moreover have "MsgQueue_delete st q = Inr (True, st', q')"
    using some is_empty_list [OF ok] first st'(1) by (simp add: MsgQueue_delete_def q'_def)
  ultimately show thesis using q' by (intro that [of st' q']) simp_all
qed

interpretation ring: bounded_fifo "ring_inv g n" "\<lambda>(st, q). q_list q" n "held g n" ring_enq ring_deq
  for g n
proof
  fix sq :: "mstore \<times> MsgQueue" and a
  assume inv: "ring_inv g n sq" and a: "held g n a"
  obtain st q where sq: "sq = (st, q)" by (cases sq)
  have *: "queue_ok q" "q_dim q = Suc n" "refs_ok st (queue_refs g q)"
    using inv by (simp_all add: ring_inv_def sq)
  have "0 < queue_refs g q a" using a by (simp add: queue_refs_def held_def)
  then obtain msg where msg: "st a = Some msg" using refs_ok_dom [OF *(3)] by blast
  show "\<exists>b q'. ring_enq sq a = Inr (b, q') \<and> ring_inv g n q' \<and>
      (b, (case q' of (st, q) \<Rightarrow> q_list q)) = fifo_step n (Enq a) (case sq of (st, q) \<Rightarrow> q_list q)"
  proof (cases "length (q_list q) < n")
    case True
    then have "Suc (length (q_list q)) < q_dim q" "g a + q_dim q \<le> 32768"
      using a * by (simp_all add: held_def)
    from MsgQueue_add_ok [OF *(1,3) msg this] obtain st' q' where
        q': "MsgQueue_add st q (Some a) = Inr (True, st', q')" "queue_ok q'"
        "q_list q' = q_list q @ [a]" "q_dim q' = q_dim q" "refs_ok st' (queue_refs g q')" .
    then have "ring_enq sq a = Inr (True, st', q')" "ring_inv g n (st', q')"
      using * by (simp_all add: ring_enq_def sq ring_inv_def)
    with True q'(3) show ?thesis by (intro exI [of _ True] exI [of _ "(st', q')"]) (simp add: sq)
  next
    case False
    then have "MsgQueue_is_full q" using is_full_list [OF *(1)] q_len_less [OF *(1)] * by simp
    then have "MsgQueue_add st q (Some a) = Inr (False, st, q)" by (simp add: MsgQueue_add_def)
    with False inv show ?thesis
      by (intro exI [of _ False] exI [of _ sq]) (simp add: ring_enq_def sq)
  qed
next
  fix sq :: "mstore \<times> MsgQueue"
  assume inv: "ring_inv g n sq"
  obtain st q where sq: "sq = (st, q)" by (cases sq)
  have *: "queue_ok q" "q_dim q = Suc n" "refs_ok st (queue_refs g q)"
    using inv by (simp_all add: ring_inv_def sq)
  show "\<exists>b q'. ring_deq sq = Inr (b, q') \<and> ring_inv g n q' \<and>
      (b, (case q' of (st, q) \<Rightarrow> q_list q)) = fifo_step n Deq (case sq of (st, q) \<Rightarrow> q_list q)"
  proof (cases "q_list q = []")
    case True
    then have "MsgQueue_delete st q = Inr (False, st, q)"
      using is_empty_list [OF *(1)] by (simp add: MsgQueue_delete_def)
    with True inv show ?thesis
      by (intro exI [of _ False] exI [of _ sq]) (simp add: ring_deq_def sq)
  next
    case False
    from MsgQueue_delete_ok [OF *(1,3) False] obtain st' q' where
        q': "MsgQueue_delete st q = Inr (True, st', q')" "queue_ok q'"
        "q_list q' = tl (q_list q)" "q_dim q' = q_dim q" "refs_ok st' (queue_refs g q')" .
    then have "ring_deq sq = Inr (True, st', q')" "ring_inv g n (st', q')"
      using * by (simp_all add: ring_deq_def sq ring_inv_def)
    with False q'(3) show ?thesis by (intro exI [of _ True] exI [of _ "(st', q')"]) (simp add: sq)
  qed
qed

text \<open>
  (C8) The ring implements a bounded first-in first-out list of capacity \<open>dim - 1\<close>: any
  sequence of \<open>MsgQueue_add\<close> and \<open>MsgQueue_delete\<close> from a new queue answers what the list
  answers and ends with the list's content, provided the messages added are held by somebody.
  Every message then counts exactly its holders and its places in the queue, so none is
  released early and none is leaked.
\<close>

theorem MsgQueue_refines_fifo:
  assumes create: "MsgQueue_create junk (Suc n) = Inr q" and refs: "refs_ok st g"
    and held: "\<forall>a. Enq a \<in> set ps \<longrightarrow> 0 < g a \<and> g a + n < 32768"
  shows "\<exists>bs st' q'.
    qrun (\<lambda>(st, q) a. MsgQueue_add st q (Some a)) (\<lambda>(st, q). MsgQueue_delete st q) ps (st, q) =
      Inr (bs, st', q') \<and>
    (bs, q_list q') = fifo_run n ps [] \<and> queue_ok q' \<and>
    refs_ok st' (\<lambda>a. g a + count_list (q_list q') a)"
proof -
  have q: "queue_ok q" "q_list q = []" "q_dim q = Suc n"
    using create create_ok [of "Suc n" junk] by auto
  have "queue_refs g q = g" by (auto simp: queue_refs_def q)
  then have inv: "ring_inv g n (st, q)" using q refs by (simp add: ring_inv_def)
  have "held g n a" if "Enq a \<in> set ps" for a using held that by (simp add: held_def)
  from ring.run_refines [OF inv this, of ps] obtain bs st' q' where
    "qrun ring_enq ring_deq ps (st, q) = Inr (bs, st', q')" "ring_inv g n (st', q')"
    "(bs, q_list q') = fifo_run n ps (q_list q)" by auto
  moreover have "queue_refs g q' = (\<lambda>a. g a + count_list (q_list q') a)"
    by (auto simp: queue_refs_def)
  ultimately show ?thesis
    unfolding ring_enq_def ring_deq_def using q(2) by (auto simp: ring_inv_def)
qed

lemma MsgQueue_refines_fifo_witness:
  "\<exists>q bs st' q'. MsgQueue_create (\<lambda>_. None) 3 = Inr q \<and>
     qrun (\<lambda>(st, q) a. MsgQueue_add st q (Some a)) (\<lambda>(st, q). MsgQueue_delete st q)
       [Enq 5, Enq 5, Enq 5, Deq] ([5 \<mapsto> Message_ref_inc message_test_calloc], q) = Inr (bs, st', q') \<and>
     bs = [True, True, False, True] \<and> q_list q' = [5] \<and> queue_ok q'"
proof -
  define st where "st = [5 :: nat \<mapsto> Message_ref_inc message_test_calloc]"
  have refs: "refs_ok st (\<lambda>a. if a = 5 then 1 else 0)"
    by (simp add: st_def refs_ok_def Message_ref_inc_def message_test_calloc_def msg_ok_def destroyable_def)
  obtain q where q: "MsgQueue_create (\<lambda>_. None) (Suc 2) = Inr q"
    using create_ok [of "Suc 2" "\<lambda>_. None"] by auto
  have held: "\<forall>a. Enq a \<in> set [Enq 5, Enq 5, Enq 5, Deq] \<longrightarrow>
      0 < (if a = 5 then 1 else 0 :: nat) \<and> (if a = 5 then 1 else 0) + 2 < (32768 :: nat)"
    by simp
  have run: "fifo_run 2 [Enq 5, Enq 5, Enq 5, Deq] [] = ([True, True, False, True], [5 :: nat])"
    by simp
  from MsgQueue_refines_fifo [OF q refs held] show ?thesis
    unfolding st_def [symmetric] run prod.inject numeral_3_eq_3 numeral_2_eq_2 [symmetric] using q by blast
qed

text \<open>The queue as a member of the hub uses it: draining gives every reference back.\<close>

lemma MsgQueue_destroy_ok:
  assumes "queue_ok q" "refs_ok st (queue_refs g q)"
  shows "\<exists>st'. MsgQueue_destroy st q = Some (Inr st') \<and> refs_ok st' g"
  using assms
proof (induction "length (q_list q)" arbitrary: q st)
  case 0
  then have "q_list q = []" by (metis length_0_conv)
  then have "queue_refs g q = g" "MsgQueue_is_empty q"
    using is_empty_list 0 by (auto simp: queue_refs_def)
  with 0 show ?case by (simp add: MsgQueue_destroy.simps)
next
  case (Suc n)
  then have ne: "q_list q \<noteq> []" by (metis length_0_conv nat.distinct(1))
  obtain st' q' where q': "MsgQueue_delete st q = Inr (True, st', q')" "queue_ok q'"
    "q_list q' = tl (q_list q)" "refs_ok st' (queue_refs g q')"
    using MsgQueue_delete_ok [OF Suc.prems ne] by metis
  have "n = length (q_list q')" using Suc.hyps(2) q'(3) by simp
  from Suc.hyps(1) [OF this q'(2,4)] q'(1) show ?case
    using is_empty_list [OF Suc.prems(1)] ne by (simp add: MsgQueue_destroy.simps [of st q])
qed

text \<open>
  (C26) Destroying a queue ends and gives back exactly the references the queue held; it needs
  the queue to be well formed, which every sequence of operations keeps it.
\<close>

theorem MsgQueue_destroy_releases:
  assumes "queue_ok q" "refs_ok st (\<lambda>a. g a + count_list (q_list q) a)"
  shows "\<exists>st'. MsgQueue_destroy st q = Some (Inr st') \<and> refs_ok st' g"
  using MsgQueue_destroy_ok [of q st g] assms by (simp add: queue_refs_def [abs_def])

lemma MsgQueue_destroy_releases_witness:
  "\<exists>st'. MsgQueue_destroy [5 \<mapsto> message_test_calloc\<lparr> ref_count := 2 \<rparr>, 6 \<mapsto> message_test_calloc\<lparr> ref_count := 1 \<rparr>]
       \<lparr> q_messages = [Some 5, None, Some 6], q_dead = False, q_i = 2, q_j = 1, q_dim = 3 \<rparr> = Some (Inr st') \<and>
     refs_ok st' (\<lambda>a. if a = 5 then 1 else 0)"
proof -
  define q :: MsgQueue where "q = \<lparr> q_messages = [Some 5, None, Some 6], q_dead = False, q_i = 2, q_j = 1, q_dim = 3 \<rparr>"
  have len: "q_len q = 2" by (simp add: q_def q_len_def)
  have "queue_ok q" unfolding queue_ok_def len by (simp add: q_def less_2_cases_iff)
  moreover have "q_list q = [6, 5]" unfolding q_list_def len by (simp add: q_def upt_rec)
  then have "refs_ok [5 \<mapsto> message_test_calloc\<lparr> ref_count := 2 \<rparr>, 6 \<mapsto> message_test_calloc\<lparr> ref_count := 1 \<rparr>]
      (\<lambda>a. (if a = 5 then 1 else 0) + count_list (q_list q) a)"
    by (simp add: refs_ok_def msg_ok_def destroyable_def message_test_calloc_def)
  ultimately show ?thesis unfolding q_def [symmetric] by (rule MsgQueue_destroy_releases)
qed

text \<open>
  \<open>MsgQueue_delete\<close> answers 1 when it removed a message, also when none is left
  afterwards; its documentation says the answer tells whether messages remain.
\<close>

theorem delete_last_answers_1:
  "\<exists>q st q1 st1 q2 st2. MsgQueue_create (\<lambda>_. None) 2 = Inr q \<and>
     st = [0 \<mapsto> Message_ref_inc message_test_calloc] \<and>
     MsgQueue_add st q (Some 0) = Inr (True, st1, q1) \<and>
     MsgQueue_delete st1 q1 = Inr (True, st2, q2) \<and> MsgQueue_is_empty q2"
  by (simp add: MsgQueue_create_def MsgQueue_add_def MsgQueue_delete_def MsgQueue_is_empty_def
      MsgQueue_is_full_def numeral_2_eq_2 Message_destroy_def Message_release_def Message_ref_inc_def
      Message_ref_dec_def message_test_calloc_def)

end
