(* ===== verification/Heap.thy ===== *)
theory Heap
  imports Prelude "HOL-Library.Multiset"
begin

text \<open>
  The sorted pointer array of \<open>src/hub/heap.c\<close> that members and routes are kept in. The
  array is sorted anew after every insertion and searched by bisection.

  The sorting routine is a macro of a library that is not part of the program
  (\<open>SGLIB_ARRAY_HEAP_SORT\<close>): it is the parameter \<open>srt\<close>, and \<open>sort_ok\<close> states what its
  documentation promises, a sorted permutation. Allocation is taken to succeed. Counts stay
  below \<open>2 ^ 30\<close>, so the \<open>int\<close> indices of the search do not overflow.
\<close>

section \<open>The array and its operations\<close>

definition HEAP_SIZE :: nat where "HEAP_SIZE = 8"

record 'a heap =
  h_last :: nat
  h_size :: nat
  h_members :: "'a option list"

text \<open>
  The default comparison subtracts the pointers as \<open>long\<close> and returns the difference as
  \<open>int\<close>, which keeps the low 32 bits.
\<close>

definition Heap_void_ptr_compare :: "64 word \<Rightarrow> 64 word \<Rightarrow> int" where
  "Heap_void_ptr_compare x y = sint (ucast (x - y) :: 32 word)"

definition Heap_create :: "'a heap" where
  "Heap_create = \<lparr> h_last = 0, h_size = HEAP_SIZE, h_members = replicate HEAP_SIZE None \<rparr>"

definition Heap_count :: "'a heap \<Rightarrow> nat" where
  "Heap_count h = h_last h"

definition Heap_is_full :: "'a heap \<Rightarrow> bool" where
  "Heap_is_full h \<longleftrightarrow> h_last h = h_size h"

definition Heap_valid :: "'a heap \<Rightarrow> nat \<Rightarrow> bool" where
  "Heap_valid h at \<longleftrightarrow> at < h_last h"

definition Heap_clear :: "'a heap \<Rightarrow> 'a heap" where
  "Heap_clear h = h\<lparr> h_last := 0 \<rparr>"

text \<open>The elements in use, in the order \<open>HEAP_ITERATE\<close> runs through them.\<close>

definition HEAP_ITERATE :: "'a heap \<Rightarrow> 'a list" where
  "HEAP_ITERATE h = map the (take (h_last h) (h_members h))"

definition Heap_sort :: "('a list \<Rightarrow> 'a list) \<Rightarrow> 'a heap \<Rightarrow> 'a heap" where
  "Heap_sort srt h =
     h\<lparr> h_members := map Some (srt (HEAP_ITERATE h)) @ drop (h_last h) (h_members h) \<rparr>"

definition Heap_resize :: "'a heap \<Rightarrow> nat \<Rightarrow> 'a heap res" where
  "Heap_resize h sz =
     (if sz = 0 then Inl AssertFailed
      else
        Inr (h\<lparr> h_size := sz,
               h_members := take sz (h_members h) @ replicate (sz - h_size h) None \<rparr>))"

definition Heap_add :: "('a list \<Rightarrow> 'a list) \<Rightarrow> 'a heap \<Rightarrow> 'a option \<Rightarrow> (nat \<times> 'a heap) res" where
  "Heap_add srt h elem =
     (if elem = None then Inl AssertFailed
      else
        bind_res (if Heap_is_full h then Heap_resize h (h_size h * 2) else Inr h) (\<lambda>h1.
          let h2 = h1\<lparr> h_members := (h_members h1)[h_last h1 := elem], h_last := h_last h1 + 1 \<rparr>;
              h3 = Heap_sort srt h2
          in Inr (h_last h3, h3)))"

text \<open>
  The bisection; \<open>to x\<close> is \<open>heap->compare(heap, x, elem)\<close>. The C division rounds towards
  zero, and \<open>ii + jj\<close> is not negative where it is divided.
\<close>

function Heap_find_loop :: "'a option list \<Rightarrow> ('a \<Rightarrow> int) \<Rightarrow> int \<Rightarrow> int \<Rightarrow> nat option res" where
  "Heap_find_loop members to ii jj =
     (if ii \<le> jj then
        let kk = (jj + ii) div 2
        in case members ! nat kk of
             None \<Rightarrow> Inl NullDeref
           | Some x \<Rightarrow>
               if to x = 0 then Inr (Some (nat kk))
               else if to x < 0 then Heap_find_loop members to (kk + 1) jj
               else Heap_find_loop members to ii (kk - 1)
      else Inr None)"
  by pat_completeness auto
termination
  by (relation "measure (\<lambda>(members, to, ii, jj). nat (jj - ii + 1))") auto

declare Heap_find_loop.simps [simp del]

definition Heap_find :: "'a heap \<Rightarrow> ('a \<Rightarrow> int) \<Rightarrow> nat res" where
  "Heap_find h to =
     bind_res (Heap_find_loop (h_members h) to 0 (int (h_last h) - 1)) (\<lambda>r.
       Inr (case r of Some i \<Rightarrow> i | None \<Rightarrow> h_last h))"

definition Heap_delete :: "'a heap \<Rightarrow> ('a \<Rightarrow> int) \<Rightarrow> (bool \<times> 'a heap) res" where
  "Heap_delete h to =
     bind_res (Heap_find h to) (\<lambda>i.
       if Heap_valid h i then
         let last = h_last h - 1;
             m1 = take i (h_members h) @ take (last - i) (drop (i + 1) (h_members h)) @
                  drop last (h_members h);
             h1 = h\<lparr> h_members := m1[last := None], h_last := last \<rparr>
         in if last > HEAP_SIZE \<and> last < h_size h div 2
            then bind_res (Heap_resize h1 (h_size h div 2)) (\<lambda>h2. Inr (True, h2))
            else Inr (True, h1)
       else Inr (False, h))"

text \<open>Releasing the array leaves no array; releasing one that is not there is an assertion failure.\<close>

definition Heap_destroy :: "'a heap option \<Rightarrow> 'a heap option res" where
  "Heap_destroy h = (case h of None \<Rightarrow> Inl AssertFailed | Some _ \<Rightarrow> Inr None)"

section \<open>The invariant\<close>

definition heap_ok :: "'a heap \<Rightarrow> bool" where
  "heap_ok h \<longleftrightarrow>
     length (h_members h) = h_size h \<and> h_last h \<le> h_size h \<and> 0 < h_size h \<and>
     (\<forall>i < h_last h. h_members h ! i \<noteq> None)"

definition sort_ok :: "('a \<Rightarrow> 'a \<Rightarrow> int) \<Rightarrow> ('a \<Rightarrow> bool) \<Rightarrow> ('a list \<Rightarrow> 'a list) \<Rightarrow> bool" where
  "sort_ok cmp valid srt \<longleftrightarrow>
     (\<forall>xs. list_all valid xs \<longrightarrow> mset (srt xs) = mset xs \<and> sorted_wrt (\<lambda>x y. cmp x y \<le> 0) (srt xs))"

lemma heap_ok_create [simp]: "heap_ok Heap_create" "HEAP_ITERATE Heap_create = []"
  by (simp_all add: heap_ok_def Heap_create_def HEAP_ITERATE_def HEAP_SIZE_def)

lemma heap_ok_clear: "heap_ok h \<Longrightarrow> heap_ok (Heap_clear h) \<and> HEAP_ITERATE (Heap_clear h) = []"
  by (simp add: heap_ok_def Heap_clear_def HEAP_ITERATE_def)

lemma length_iterate: "heap_ok h \<Longrightarrow> length (HEAP_ITERATE h) = h_last h"
  by (simp add: heap_ok_def HEAP_ITERATE_def)

lemma take_members: "heap_ok h \<Longrightarrow> take (h_last h) (h_members h) = map Some (HEAP_ITERATE h)"
  by (rule nth_equalityI) (auto simp: heap_ok_def HEAP_ITERATE_def)

lemma members_nth: "heap_ok h \<Longrightarrow> i < h_last h \<Longrightarrow> h_members h ! i = Some (HEAP_ITERATE h ! i)"
  by (auto simp: heap_ok_def HEAP_ITERATE_def)

lemma heap_ok_resize:
  assumes "heap_ok h" "h_last h \<le> sz" "0 < sz"
  shows "\<exists>h'. Heap_resize h sz = Inr h' \<and> heap_ok h' \<and> HEAP_ITERATE h' = HEAP_ITERATE h \<and>
    h_last h' = h_last h \<and> h_size h' = sz"
  using assms by (auto simp: Heap_resize_def heap_ok_def HEAP_ITERATE_def nth_append)


lemma heap_ok_sort:
  assumes ok: "heap_ok h" and "length (srt (HEAP_ITERATE h)) = h_last h"
  shows "heap_ok (Heap_sort srt h)" "HEAP_ITERATE (Heap_sort srt h) = srt (HEAP_ITERATE h)"
    "h_last (Heap_sort srt h) = h_last h"
proof -
  obtain ys where ys: "srt (HEAP_ITERATE h) = ys" by simp
  with assms have len: "length ys = h_last h" by simp
  have sort: "Heap_sort srt h = h\<lparr> h_members := map Some ys @ drop (h_last h) (h_members h) \<rparr>"
    by (simp add: Heap_sort_def ys)
  show "heap_ok (Heap_sort srt h)"
    using ok len by (simp add: sort heap_ok_def nth_append)
  show "HEAP_ITERATE (Heap_sort srt h) = srt (HEAP_ITERATE h)"
    unfolding ys by (simp add: sort HEAP_ITERATE_def len comp_def)
  show "h_last (Heap_sort srt h) = h_last h"
    by (simp add: sort)
qed

lemma heap_ok_append:
  assumes "heap_ok h" "h_last h < h_size h"
    and "h' = h\<lparr> h_members := (h_members h)[h_last h := Some x], h_last := h_last h + 1 \<rparr>"
  shows "heap_ok h'" "HEAP_ITERATE h' = HEAP_ITERATE h @ [x]" "h_last h' = Suc (h_last h)"
  using assms
  by (simp_all add: heap_ok_def HEAP_ITERATE_def take_Suc_conv_app_nth nth_list_update less_Suc_eq)

lemma Heap_grow:
  assumes "heap_ok h"
  shows "\<exists>h'. (if Heap_is_full h then Heap_resize h (h_size h * 2) else Inr h) = Inr h' \<and>
    heap_ok h' \<and> HEAP_ITERATE h' = HEAP_ITERATE h \<and> h_last h' = h_last h \<and> h_last h' < h_size h'"
proof (cases "Heap_is_full h")
  case True
  have "h_last h \<le> h_size h * 2" "0 < h_size h * 2" "h_last h < h_size h * 2"
    using assms by (simp_all add: heap_ok_def)
  with heap_ok_resize [OF assms, of "h_size h * 2"] True show ?thesis by fastforce
next
  case False
  have "h_last h < h_size h"
    using assms False by (simp add: heap_ok_def Heap_is_full_def)
  with assms False show ?thesis by simp
qed

text \<open>An insertion succeeds and sorts the new element in.\<close>

lemma Heap_add_ok:
  assumes ok: "heap_ok h" and perm: "length (srt (HEAP_ITERATE h @ [x])) = Suc (h_last h)"
  shows "\<exists>h'. Heap_add srt h (Some x) = Inr (Suc (h_last h), h') \<and> heap_ok h' \<and>
    HEAP_ITERATE h' = srt (HEAP_ITERATE h @ [x]) \<and> h_last h' = Suc (h_last h)"
proof -
  obtain h1 where h1: "(if Heap_is_full h then Heap_resize h (h_size h * 2) else Inr h) = Inr h1"
    "heap_ok h1" "HEAP_ITERATE h1 = HEAP_ITERATE h" "h_last h1 = h_last h" "h_last h1 < h_size h1"
    using Heap_grow [OF ok] by blast
  define h2 where "h2 = h1\<lparr> h_members := (h_members h1)[h_last h1 := Some x], h_last := h_last h1 + 1 \<rparr>"
  note h2 = heap_ok_append [OF h1(2,5) h2_def]
  have len: "length (srt (HEAP_ITERATE h2)) = h_last h2"
    using perm by (simp add: h2 h1)
  note h3 = heap_ok_sort [of h2 srt, OF h2(1) len]
  have "Heap_add srt h (Some x) = Inr (h_last (Heap_sort srt h2), Heap_sort srt h2)"
    unfolding Heap_add_def h1(1) h2_def by (simp add: Let_def)
  moreover have "h_last (Heap_sort srt h2) = Suc (h_last h)"
    by (simp add: h3 h2 h1)
  moreover have "HEAP_ITERATE (Heap_sort srt h2) = srt (HEAP_ITERATE h @ [x])"
    by (simp add: h3 h2 h1)
  ultimately show ?thesis using h3(1) by simp
qed

text \<open>The search looks at elements in use only, so it returns.\<close>

lemma find_loop_step:
  assumes "heap_ok h" "0 \<le> ii" "ii \<le> jj" "jj < int (h_last h)" "kk = (jj + ii) div 2"
  shows "Heap_find_loop (h_members h) to ii jj =
    (let c = to (HEAP_ITERATE h ! nat kk)
     in if c = 0 then Inr (Some (nat kk))
        else if c < 0 then Heap_find_loop (h_members h) to (kk + 1) jj
        else Heap_find_loop (h_members h) to ii (kk - 1))"
proof -
  have "h_members h ! nat kk = Some (HEAP_ITERATE h ! nat kk)"
    using assms by (intro members_nth) auto
  with assms show ?thesis
    by (simp add: Heap_find_loop.simps [of _ _ ii jj] Let_def)
qed

lemma find_loop_safe:
  assumes "heap_ok h" "0 \<le> ii" "jj < int (h_last h)"
  shows "\<exists>r. Heap_find_loop (h_members h) to ii jj = Inr r \<and>
    (\<forall>i. r = Some i \<longrightarrow> ii \<le> int i \<and> int i \<le> jj \<and> to (HEAP_ITERATE h ! i) = 0)"
  using assms(2,3)
proof (induction "nat (jj - ii + 1)" arbitrary: ii jj rule: less_induct)
  case less
  show ?case
  proof (cases "ii \<le> jj")
    case False
    then show ?thesis by (simp add: Heap_find_loop.simps)
  next
    case True
    define kk where "kk = (jj + ii) div 2"
    have kk: "ii \<le> kk" "kk \<le> jj" "0 \<le> kk"
      using less(2) True by (auto simp: kk_def)
    note step = find_loop_step [OF assms(1) less(2) True less(3) kk_def, of to]
    note up = less(1) [of jj "kk + 1"]
    note dn = less(1) [of "kk - 1" ii]
    consider "to (HEAP_ITERATE h ! nat kk) = 0" | "to (HEAP_ITERATE h ! nat kk) < 0"
      | "0 < to (HEAP_ITERATE h ! nat kk)" by linarith
    then show ?thesis
    proof cases
      case 1
      with step kk show ?thesis by (simp add: Let_def)
    next
      case 2
      with step have "Heap_find_loop (h_members h) to ii jj = Heap_find_loop (h_members h) to (kk + 1) jj"
        by (simp add: Let_def)
      moreover obtain r where "Heap_find_loop (h_members h) to (kk + 1) jj = Inr r"
        "\<And>i. r = Some i \<Longrightarrow> kk + 1 \<le> int i \<and> int i \<le> jj \<and> to (HEAP_ITERATE h ! i) = 0"
        using up kk less(3) by auto
      ultimately show ?thesis using kk by force
    next
      case 3
      with step have "Heap_find_loop (h_members h) to ii jj = Heap_find_loop (h_members h) to ii (kk - 1)"
        by (simp add: Let_def)
      moreover obtain r where "Heap_find_loop (h_members h) to ii (kk - 1) = Inr r"
        "\<And>i. r = Some i \<Longrightarrow> ii \<le> int i \<and> int i \<le> kk - 1 \<and> to (HEAP_ITERATE h ! i) = 0"
        using dn kk less(2,3) by auto
      ultimately show ?thesis using kk by force
    qed
  qed
qed

text \<open>
  A probe is monotone on a list when it does not change sign downwards: this is what a sorted
  array gives, and it makes the search complete.
\<close>

definition monotone_probe :: "('a \<Rightarrow> int) \<Rightarrow> 'a list \<Rightarrow> bool" where
  "monotone_probe to xs \<longleftrightarrow>
     sorted_wrt (\<lambda>x y. (to y < 0 \<longrightarrow> to x < 0) \<and> (0 < to x \<longrightarrow> 0 < to y)) xs"

lemma monotone_probeD:
  assumes "monotone_probe to xs" "i \<le> j" "j < length xs"
  shows "to (xs ! j) < 0 \<Longrightarrow> to (xs ! i) < 0" "0 < to (xs ! i) \<Longrightarrow> 0 < to (xs ! j)"
proof -
  have "i < j \<Longrightarrow> (to (xs ! j) < 0 \<longrightarrow> to (xs ! i) < 0) \<and> (0 < to (xs ! i) \<longrightarrow> 0 < to (xs ! j))"
    using assms(1,3) unfolding monotone_probe_def sorted_wrt_iff_nth_less by blast
  then show "to (xs ! j) < 0 \<Longrightarrow> to (xs ! i) < 0" "0 < to (xs ! i) \<Longrightarrow> 0 < to (xs ! j)"
    using assms(2) by (cases "i = j", simp, simp)+
qed

lemma find_loop_complete:
  assumes "heap_ok h" "monotone_probe to (HEAP_ITERATE h)" "0 \<le> ii" "jj < int (h_last h)"
    and "Heap_find_loop (h_members h) to ii jj = Inr None"
  shows "\<forall>i. ii \<le> int i \<and> int i \<le> jj \<longrightarrow> to (HEAP_ITERATE h ! i) \<noteq> 0"
  using assms(3,4,5)
proof (induction "nat (jj - ii + 1)" arbitrary: ii jj rule: less_induct)
  case less
  have len: "length (HEAP_ITERATE h) = h_last h"
    by (rule length_iterate [OF assms(1)])
  show ?case
  proof (cases "ii \<le> jj")
    case True
    define kk where "kk = (jj + ii) div 2"
    have kk: "ii \<le> kk" "kk \<le> jj" "0 \<le> kk"
      using less(2) True by (auto simp: kk_def)
    note step = find_loop_step [OF assms(1) less(2) True less(3) kk_def, of to]
    note mono = monotone_probeD [OF assms(2), unfolded len]
    consider "to (HEAP_ITERATE h ! nat kk) < 0" | "0 < to (HEAP_ITERATE h ! nat kk)"
      using step less(4) by (auto simp: Let_def split: if_splits)
    then show ?thesis
    proof cases
      case 1
      with step less(4) have "Heap_find_loop (h_members h) to (kk + 1) jj = Inr None"
        by (simp add: Let_def)
      with less(1) [of jj "kk + 1"] kk less(3)
      have "\<forall>i. kk + 1 \<le> int i \<and> int i \<le> jj \<longrightarrow> to (HEAP_ITERATE h ! i) \<noteq> 0" by simp
      moreover have "to (HEAP_ITERATE h ! i) < 0" if "\<not> kk + 1 \<le> int i" for i
        using mono(1) [of i "nat kk"] 1 that kk less(3) by linarith
      ultimately show ?thesis by (metis less_irrefl)
    next
      case 2
      with step less(4) have "Heap_find_loop (h_members h) to ii (kk - 1) = Inr None"
        by (simp add: Let_def)
      with less(1) [of "kk - 1" ii] kk less(2,3)
      have "\<forall>i. ii \<le> int i \<and> int i \<le> kk - 1 \<longrightarrow> to (HEAP_ITERATE h ! i) \<noteq> 0" by simp
      moreover have "0 < to (HEAP_ITERATE h ! i)" if "\<not> int i \<le> kk - 1" "int i \<le> jj" for i
        using mono(2) [of "nat kk" i] 2 that kk less(3) by linarith
      ultimately show ?thesis by (metis less_irrefl)
    qed
  qed simp
qed

text \<open>The search on a sorted array: an index of a matching element, or the count.\<close>

lemma Heap_find_ok:
  assumes "heap_ok h"
  shows "\<exists>i \<le> h_last h. Heap_find h to = Inr i \<and>
    (i < h_last h \<longrightarrow> to (HEAP_ITERATE h ! i) = 0)"
proof -
  obtain r where r: "Heap_find_loop (h_members h) to 0 (int (h_last h) - 1) = Inr r"
    "\<And>i. r = Some i \<Longrightarrow> i < h_last h \<and> to (HEAP_ITERATE h ! i) = 0"
    using find_loop_safe [OF assms, of 0 "int (h_last h) - 1" to] by auto
  then show ?thesis
    by (cases r) (simp_all add: Heap_find_def less_imp_le)
qed

lemma Heap_find_complete:
  assumes "heap_ok h" "monotone_probe to (HEAP_ITERATE h)" "Heap_find h to = Inr (h_last h)"
    "x \<in> set (HEAP_ITERATE h)"
  shows "to x \<noteq> 0"
proof -
  obtain r where r: "Heap_find_loop (h_members h) to 0 (int (h_last h) - 1) = Inr r"
    "\<And>i. r = Some i \<Longrightarrow> int i \<le> int (h_last h) - 1"
    using find_loop_safe [OF assms(1), of 0 "int (h_last h) - 1" to] by auto
  with assms(3) have "r = None"
    by (cases r) (auto simp: Heap_find_def)
  with r find_loop_complete [OF assms(1,2), of 0 "int (h_last h) - 1"]
  have "\<forall>i < h_last h. to (HEAP_ITERATE h ! i) \<noteq> 0" by auto
  with assms(4) length_iterate [OF assms(1)] show ?thesis
    by (auto simp: in_set_conv_nth)
qed

text \<open>A deletion removes the element the search finds and keeps the order of the others.\<close>

lemma delete_shift:
  assumes ok: "heap_ok h" and i: "i < h_last h" and lst: "lst = h_last h - 1"
    and h1: "h1 = h\<lparr> h_members := (take i (h_members h) @
        take (lst - i) (drop (i + 1) (h_members h)) @ drop lst (h_members h))[lst := None],
      h_last := lst \<rparr>"
  shows "heap_ok h1" "HEAP_ITERATE h1 = take i (HEAP_ITERATE h) @ drop (i + 1) (HEAP_ITERATE h)"
    "h_last h1 = lst" "h_size h1 = h_size h"
proof -
  define xs where "xs = HEAP_ITERATE h"
  define rest where "rest = drop (h_last h) (h_members h)"
  have len: "length xs = h_last h" "h_last h \<le> length (h_members h)" "length (h_members h) = h_size h"
    using length_iterate [OF ok] ok by (simp_all add: xs_def heap_ok_def)
  have mem: "h_members h = map Some xs @ rest"
    using append_take_drop_id [of "h_last h" "h_members h"] take_members [OF ok]
    by (simp add: xs_def rest_def)
  define ys where "ys = take i xs @ drop (i + 1) xs"
  have ys: "length ys = lst" using i len by (simp add: ys_def lst)
  have shift: "take i (h_members h) @ take (lst - i) (drop (i + 1) (h_members h)) = map Some ys"
    using i len(1) by (simp add: mem lst ys_def take_map drop_map)
  have tail: "drop lst (h_members h) = Some (xs ! lst) # rest"
    using i len(1) by (simp add: mem lst drop_map Cons_nth_drop_Suc [symmetric])
  have m: "h_members h1 = map Some ys @ None # rest"
  proof -
    have "take i (h_members h) @ take (lst - i) (drop (i + 1) (h_members h)) @ drop lst (h_members h) =
        map Some ys @ Some (xs ! lst) # rest"
      by (simp only: append_assoc [symmetric] shift tail)
    then have "h_members h1 = (map Some ys @ Some (xs ! lst) # rest)[lst := None]" by (simp add: h1)
    then show ?thesis by (simp add: list_update_append ys)
  qed
  show "h_last h1 = lst" "h_size h1 = h_size h" by (simp_all add: h1)
  moreover have "length rest = h_size h - h_last h" by (simp add: rest_def len)
  ultimately show "heap_ok h1"
    using m ys i len by (auto simp: heap_ok_def nth_append lst)
  show "HEAP_ITERATE h1 = take i (HEAP_ITERATE h) @ drop (i + 1) (HEAP_ITERATE h)"
    unfolding xs_def [symmetric] ys_def [symmetric] HEAP_ITERATE_def [of h1] m
    by (simp add: h1 ys comp_def)
qed

lemma Heap_delete_ok:
  assumes ok: "heap_ok h"
  obtains (missing) "Heap_find h to = Inr (h_last h)" "Heap_delete h to = Inr (False, h)"
  | (found) i h' where "Heap_find h to = Inr i" "i < h_last h" "to (HEAP_ITERATE h ! i) = 0"
      "Heap_delete h to = Inr (True, h')" "heap_ok h'" "h_last h' = h_last h - 1"
      "HEAP_ITERATE h' = take i (HEAP_ITERATE h) @ drop (i + 1) (HEAP_ITERATE h)"
proof -
  obtain i where i: "i \<le> h_last h" "Heap_find h to = Inr i" "i < h_last h \<longrightarrow> to (HEAP_ITERATE h ! i) = 0"
    using Heap_find_ok [OF ok, of to] by blast
  show ?thesis
  proof (cases "i < h_last h")
    case False
    with i have "Heap_find h to = Inr (h_last h)" "Heap_delete h to = Inr (False, h)"
      by (simp_all add: Heap_delete_def Heap_valid_def)
    then show ?thesis by (rule missing)
  next
    case True
    define lst where "lst = h_last h - 1"
    define h1 where "h1 = h\<lparr> h_members := (take i (h_members h) @
        take (lst - i) (drop (i + 1) (h_members h)) @ drop lst (h_members h))[lst := None],
      h_last := lst \<rparr>"
    note h1 = delete_shift [OF ok True lst_def h1_def]
    have del: "Heap_delete h to =
        (if lst > HEAP_SIZE \<and> lst < h_size h div 2
         then bind_res (Heap_resize h1 (h_size h div 2)) (\<lambda>h2. Inr (True, h2)) else Inr (True, h1))"
      using i True by (simp add: Heap_delete_def Heap_valid_def Let_def lst_def h1_def)
    show ?thesis
    proof (cases "lst > HEAP_SIZE \<and> lst < h_size h div 2")
      case shrink: True
      with heap_ok_resize [OF h1(1), of "h_size h div 2"] h1(3)
      obtain h2 where "Heap_resize h1 (h_size h div 2) = Inr h2" "heap_ok h2"
        "HEAP_ITERATE h2 = HEAP_ITERATE h1" "h_last h2 = lst" by auto
      note h2 = this
      have "Heap_delete h to = Inr (True, h2)"
        unfolding del using shrink h2(1) by simp
      with i True h2 h1(2) show ?thesis
        by (intro found [of i h2]) (simp_all add: lst_def)
    next
      case False
      then have "Heap_delete h to = Inr (True, h1)"
        unfolding del by (rule if_not_P)
      with i True h1 show ?thesis
        by (intro found [of i h1]) (simp_all add: lst_def)
    qed
  qed
qed

section \<open>The contract of a comparison\<close>

text \<open>
  What a comparison promises to the array: on the valid elements it is a total preorder.
  From it the array is a multiset kept in order: insertion adds one element, deletion
  removes one, and the search decides membership.
\<close>

definition sorted_heap :: "('a \<Rightarrow> 'a \<Rightarrow> int) \<Rightarrow> ('a \<Rightarrow> bool) \<Rightarrow> 'a heap \<Rightarrow> bool" where
  "sorted_heap cmp valid h \<longleftrightarrow>
     heap_ok h \<and> list_all valid (HEAP_ITERATE h) \<and> sorted_wrt (\<lambda>x y. cmp x y \<le> 0) (HEAP_ITERATE h)"

lemma sorted_heap_create: "sorted_heap cmp valid Heap_create"
  by (simp add: sorted_heap_def)

lemma sorted_heap_clear: "sorted_heap cmp valid h \<Longrightarrow> sorted_heap cmp valid (Heap_clear h)"
  by (simp add: sorted_heap_def heap_ok_clear)

text \<open>Insertion sort along a comparison, for concrete runs.\<close>

primrec insort_cmp :: "('a \<Rightarrow> 'a \<Rightarrow> int) \<Rightarrow> 'a \<Rightarrow> 'a list \<Rightarrow> 'a list" where
  "insort_cmp cmp x [] = [x]"
| "insort_cmp cmp x (y # ys) = (if cmp x y \<le> 0 then x # y # ys else y # insort_cmp cmp x ys)"

primrec isort_cmp :: "('a \<Rightarrow> 'a \<Rightarrow> int) \<Rightarrow> 'a list \<Rightarrow> 'a list" where
  "isort_cmp cmp [] = []"
| "isort_cmp cmp (x # xs) = insort_cmp cmp x (isort_cmp cmp xs)"

locale heap_order =
  fixes cmp :: "'a \<Rightarrow> 'a \<Rightarrow> int" and valid :: "'a \<Rightarrow> bool"
  assumes cmp_refl: "valid x \<Longrightarrow> cmp x x = 0"
    and cmp_sym: "valid x \<Longrightarrow> valid y \<Longrightarrow> cmp x y < 0 \<longleftrightarrow> 0 < cmp y x"
    and cmp_trans: "valid x \<Longrightarrow> valid y \<Longrightarrow> valid z \<Longrightarrow> cmp x y \<le> 0 \<Longrightarrow> cmp y z \<le> 0 \<Longrightarrow> cmp x z \<le> 0"
begin

lemma probe_signs:
  assumes "valid x" "valid y" "valid z" "cmp y z \<le> 0"
  shows "cmp z x < 0 \<Longrightarrow> cmp y x < 0" "0 < cmp y x \<Longrightarrow> 0 < cmp z x"
proof -
  show "cmp y x < 0" if "cmp z x < 0"
  proof (rule ccontr)
    assume "\<not> cmp y x < 0"
    then have "cmp x y \<le> 0" using cmp_sym [of x y] cmp_sym [of y x] assms by linarith
    then have "cmp x z \<le> 0" using cmp_trans [of x y z] assms by blast
    with that show False using cmp_sym [of z x] assms by linarith
  qed
  show "0 < cmp z x" if "0 < cmp y x"
    using that cmp_trans [of y z x] assms by force
qed

lemma probe_monotone:
  assumes "sorted_heap cmp valid h" "valid x"
  shows "monotone_probe (\<lambda>y. cmp y x) (HEAP_ITERATE h)"
proof -
  have *: "list_all valid (HEAP_ITERATE h)" "sorted_wrt (\<lambda>x y. cmp x y \<le> 0) (HEAP_ITERATE h)"
    using assms(1) by (simp_all add: sorted_heap_def)
  show ?thesis
    unfolding monotone_probe_def
  proof (rule sorted_wrt_mono_rel [OF _ *(2)])
    fix y z
    assume "y \<in> set (HEAP_ITERATE h)" "z \<in> set (HEAP_ITERATE h)" "cmp y z \<le> 0"
    with * assms(2) show "(cmp z x < 0 \<longrightarrow> cmp y x < 0) \<and> (0 < cmp y x \<longrightarrow> 0 < cmp z x)"
      using probe_signs [of x y z] by (simp add: list_all_iff)
  qed
qed

lemma add_sorted:
  assumes "sorted_heap cmp valid h" "valid x" "sort_ok cmp valid srt"
  obtains h' where "Heap_add srt h (Some x) = Inr (Suc (h_last h), h')" "sorted_heap cmp valid h'"
    "mset (HEAP_ITERATE h') = add_mset x (mset (HEAP_ITERATE h))"
proof -
  have ok: "heap_ok h" and all: "list_all valid (HEAP_ITERATE h @ [x])"
    using assms by (simp_all add: sorted_heap_def)
  have srt: "mset (srt (HEAP_ITERATE h @ [x])) = mset (HEAP_ITERATE h @ [x])"
    "sorted_wrt (\<lambda>x y. cmp x y \<le> 0) (srt (HEAP_ITERATE h @ [x]))"
    using assms(3) all unfolding sort_ok_def by blast+
  have "length (srt (HEAP_ITERATE h @ [x])) = Suc (h_last h)"
    using mset_eq_length [OF srt(1)] length_iterate [OF ok] by simp
  from Heap_add_ok [of h srt x, OF ok this] obtain h' where h': "Heap_add srt h (Some x) = Inr (Suc (h_last h), h')"
    "heap_ok h'" "HEAP_ITERATE h' = srt (HEAP_ITERATE h @ [x])" by blast
  have "list_all valid (HEAP_ITERATE h')"
    using all mset_eq_setD [OF srt(1)] h'(3) by (simp add: list_all_iff)
  then have "sorted_heap cmp valid h'"
    using h' srt(2) by (simp add: sorted_heap_def)
  moreover have "mset (HEAP_ITERATE h') = add_mset x (mset (HEAP_ITERATE h))"
    using h'(3) srt(1) by simp
  ultimately show thesis using that h'(1) by blast
qed

lemma find_decides:
  assumes "sorted_heap cmp valid h" "valid x"
  obtains (found) i where "Heap_find h (\<lambda>y. cmp y x) = Inr i" "i < h_last h" "cmp (HEAP_ITERATE h ! i) x = 0"
    "HEAP_ITERATE h ! i \<in> set (HEAP_ITERATE h)"
  | (missing) "Heap_find h (\<lambda>y. cmp y x) = Inr (h_last h)" "\<forall>y \<in> set (HEAP_ITERATE h). cmp y x \<noteq> 0"
proof -
  have ok: "heap_ok h" using assms(1) by (simp add: sorted_heap_def)
  obtain i where i: "i \<le> h_last h" "Heap_find h (\<lambda>y. cmp y x) = Inr i"
    "i < h_last h \<longrightarrow> cmp (HEAP_ITERATE h ! i) x = 0"
    using Heap_find_ok [OF ok, of "\<lambda>y. cmp y x"] by blast
  show thesis
  proof (cases "i < h_last h")
    case True
    then show thesis using i length_iterate [OF ok] by (intro found [of i]) simp_all
  next
    case False
    with i have "Heap_find h (\<lambda>y. cmp y x) = Inr (h_last h)" by simp
    with Heap_find_complete [OF ok probe_monotone [OF assms] this] show thesis
      by (intro missing) simp_all
  qed
qed

lemma delete_sorted:
  assumes "sorted_heap cmp valid h" "valid x"
  obtains (found) y h' where "Heap_delete h (\<lambda>y. cmp y x) = Inr (True, h')" "sorted_heap cmp valid h'"
    "cmp y x = 0" "mset (HEAP_ITERATE h) = add_mset y (mset (HEAP_ITERATE h'))"
  | (missing) "Heap_delete h (\<lambda>y. cmp y x) = Inr (False, h)" "\<forall>y \<in> set (HEAP_ITERATE h). cmp y x \<noteq> 0"
proof -
  have ok: "heap_ok h" and all: "list_all valid (HEAP_ITERATE h)"
    and sorted: "sorted_wrt (\<lambda>x y. cmp x y \<le> 0) (HEAP_ITERATE h)"
    using assms(1) by (simp_all add: sorted_heap_def)
  show thesis
  proof (cases rule: Heap_delete_ok [OF ok, of "\<lambda>y. cmp y x"])
    case 1
    with Heap_find_complete [OF ok probe_monotone [OF assms] 1(1)] show thesis
      by (intro missing) simp_all
  next
    case (2 i h')
    define xs where "xs = HEAP_ITERATE h"
    have i: "i < length xs" using 2 length_iterate [OF ok] by (simp add: xs_def)
    then have xs: "xs = take i xs @ xs ! i # drop (i + 1) xs" by (simp add: id_take_nth_drop)
    have "sorted_wrt (\<lambda>x y. cmp x y \<le> 0) (take i xs @ drop (i + 1) xs)"
      using sorted xs by (metis (no_types, lifting) Un_iff list.set_intros(2) sorted_wrt.simps(2) sorted_wrt_append xs_def)
    moreover have "list_all valid (take i xs @ drop (i + 1) xs)"
      using all by (auto simp: list_all_iff xs_def dest: in_set_takeD in_set_dropD)
    ultimately have "sorted_heap cmp valid h'"
      using 2 by (simp add: sorted_heap_def xs_def)
    moreover have "mset xs = add_mset (xs ! i) (mset (take i xs @ drop (i + 1) xs))"
      by (subst xs) simp
    ultimately show thesis using 2 by (intro found [of h' "xs ! i"]) (simp_all add: xs_def)
  qed
qed

text \<open>A sorting routine that keeps the contract exists: insertion sort.\<close>

lemma insort_cmp_mset: "mset (insort_cmp cmp x xs) = add_mset x (mset xs)"
  by (induction xs) auto

lemma isort_cmp_mset: "mset (isort_cmp cmp xs) = mset xs"
  by (induction xs) (auto simp: insort_cmp_mset)

lemma insort_cmp_sorted:
  assumes "valid x" "list_all valid xs" "sorted_wrt (\<lambda>x y. cmp x y \<le> 0) xs"
  shows "sorted_wrt (\<lambda>x y. cmp x y \<le> 0) (insort_cmp cmp x xs)"
  using assms(2,3)
proof (induction xs)
  case (Cons y ys)
  show ?case
  proof (cases "cmp x y \<le> 0")
    case True
    then have "\<forall>z \<in> set ys. cmp x z \<le> 0"
      using cmp_trans [of x y] assms(1) Cons.prems by (auto simp: list_all_iff)
    with True Cons.prems show ?thesis by simp
  next
    case False
    then have "cmp y x \<le> 0"
      using cmp_sym [of y x] assms(1) Cons.prems by (auto simp: list_all_iff)
    moreover have "set (insort_cmp cmp x ys) = insert x (set ys)"
      using arg_cong [OF insort_cmp_mset [of x ys], of set_mset] by simp
    ultimately show ?thesis using False Cons by simp
  qed
qed simp

lemma isort_cmp_ok: "sort_ok cmp valid (isort_cmp cmp)"
proof -
  have "sorted_wrt (\<lambda>x y. cmp x y \<le> 0) (isort_cmp cmp xs)" if "list_all valid xs" for xs
    using that
  proof (induction xs)
    case (Cons x xs)
    have "list_all valid (isort_cmp cmp xs)"
      using Cons.prems mset_eq_setD [OF isort_cmp_mset [of xs]] by (simp add: list_all_iff)
    with Cons show ?case by (simp add: insort_cmp_sorted)
  qed simp
  then show ?thesis by (simp add: sort_ok_def isort_cmp_mset)
qed

end

section \<open>Pointers\<close>

text \<open>
  Pointers from a window of \<open>2 ^ 31\<close> bytes are compared as they should be. \<open>addr\<close> gives the
  address an object was allocated at.
\<close>

definition ptr_window :: "64 word \<Rightarrow> 64 word \<Rightarrow> bool" where
  "ptr_window base x \<longleftrightarrow> x - base < 2 ^ 31"

definition ptr_cmp :: "('a \<Rightarrow> 64 word) \<Rightarrow> 'a \<Rightarrow> 'a \<Rightarrow> int" where
  "ptr_cmp addr x y = Heap_void_ptr_compare (addr x) (addr y)"

lemma ptr_compare_window:
  assumes "ptr_window base x" "ptr_window base y"
  shows "Heap_void_ptr_compare x y = uint (x - base) - uint (y - base)"
proof -
  define a b where "a = uint (x - base)" and "b = uint (y - base)"
  have "a < 2 ^ 31" "b < 2 ^ 31" "0 \<le> a" "0 \<le> b"
    using assms by (simp_all add: ptr_window_def word_less_def a_def b_def)
  moreover have "x - y = word_of_int (a - b)"
    by (simp add: a_def b_def)
  moreover have "(ucast (word_of_int k :: 64 word) :: 32 word) = word_of_int k" for k
    by (simp add: ucast_eq unsigned_of_int take_bit_eq_mod word_of_int_eq_iff mod_mod_cancel)
  ultimately show ?thesis
    by (simp add: Heap_void_ptr_compare_def a_def [symmetric] b_def [symmetric]
        signed_of_int signed_take_bit_int_eq_self del: of_int_diff)
qed

interpretation ptr: heap_order "ptr_cmp addr" "\<lambda>x. ptr_window base (addr x)" for addr base
  by unfold_locales (auto simp: ptr_cmp_def ptr_compare_window)

lemma ptr_cmp_zero:
  assumes "ptr_window base (addr x)" "ptr_window base (addr y)"
  shows "ptr_cmp addr x y = 0 \<longleftrightarrow> addr x = addr y"
  using assms by (auto simp: ptr_cmp_def ptr_compare_window dest: word_uint_eqI)

text \<open>
  The array of pointers the routes keep their members in: where \<open>addr\<close> is injective on the
  window, equal comparison is equality, and the array is a multiset.
\<close>

definition ptr_heap :: "('a \<Rightarrow> 64 word) \<Rightarrow> 64 word \<Rightarrow> 'a heap \<Rightarrow> bool" where
  "ptr_heap addr base = sorted_heap (ptr_cmp addr) (\<lambda>x. ptr_window base (addr x))"

lemma ptr_heap_valid: "ptr_heap addr base h \<Longrightarrow> y \<in> set (HEAP_ITERATE h) \<Longrightarrow> ptr_window base (addr y)"
  by (simp add: ptr_heap_def sorted_heap_def list_all_iff)

lemma ptr_heap_cmp:
  assumes "inj_on addr {y. ptr_window base (addr y)}" "ptr_heap addr base h" "ptr_window base (addr x)" "y \<in> set (HEAP_ITERATE h)"
  shows "ptr_cmp addr y x = 0 \<longleftrightarrow> y = x"
  using assms ptr_cmp_zero [of base addr y x] ptr_heap_valid [OF assms(2,4)] by (auto dest: inj_onD)

lemma ptr_heap_add:
  assumes "ptr_heap addr base h" "ptr_window base (addr x)"
    "sort_ok (ptr_cmp addr) (\<lambda>x. ptr_window base (addr x)) srt"
  obtains h' where "Heap_add srt h (Some x) = Inr (Suc (h_last h), h')" "ptr_heap addr base h'"
    "mset (HEAP_ITERATE h') = add_mset x (mset (HEAP_ITERATE h))"
  using ptr.add_sorted [of addr base h x srt] assms unfolding ptr_heap_def by metis

lemma ptr_heap_find:
  assumes "inj_on addr {y. ptr_window base (addr y)}" "ptr_heap addr base h" "ptr_window base (addr x)"
  obtains i where "Heap_find h (\<lambda>y. ptr_cmp addr y x) = Inr i" "i \<le> h_last h"
    "i < h_last h \<longleftrightarrow> x \<in> set (HEAP_ITERATE h)" "i < h_last h \<Longrightarrow> HEAP_ITERATE h ! i = x"
proof (cases rule: ptr.find_decides [OF assms(2) [unfolded ptr_heap_def] assms(3)])
  case (1 i)
  with ptr_heap_cmp [OF assms 1(4)] that [of i] show thesis by auto
next
  case 2
  with ptr_heap_cmp [OF assms] that [of "h_last h"] show thesis by auto
qed

lemma ptr_heap_delete:
  assumes "inj_on addr {y. ptr_window base (addr y)}" "ptr_heap addr base h" "ptr_window base (addr x)"
  obtains h' where "Heap_delete h (\<lambda>y. ptr_cmp addr y x) = Inr (x \<in> set (HEAP_ITERATE h), h')"
    "ptr_heap addr base h'" "mset (HEAP_ITERATE h') = mset (HEAP_ITERATE h) - {#x#}"
proof (cases rule: ptr.delete_sorted [OF assms(2) [unfolded ptr_heap_def] assms(3)])
  case (1 y h')
  then have "y \<in> set (HEAP_ITERATE h)"
    by (metis set_mset_mset union_single_eq_member)
  with 1 ptr_heap_cmp [OF assms this] have "y = x" by simp
  with 1 \<open>y \<in> _\<close> show thesis by (intro that [of h']) (simp_all add: ptr_heap_def)
next
  case 2
  with ptr_heap_cmp [OF assms] have "x \<notin> set (HEAP_ITERATE h)" by blast
  with 2 assms(2) show thesis by (intro that [of h]) simp_all
qed

lemma ptr_heap_create: "ptr_heap addr base Heap_create"
  by (simp add: ptr_heap_def sorted_heap_create)

text \<open>
  (C12) On an array of pointers from one window of \<open>2 ^ 31\<close> bytes, whose sorting routine
  returns a sorted permutation: \<open>Heap_add\<close> succeeds, returns the new count and adds exactly
  the element; \<open>Heap_find\<close> returns an index in use exactly when the pointer is in the array,
  and the index of that pointer; \<open>Heap_delete\<close> says whether the pointer was in the array and
  removes one occurrence; the array stays sorted and well formed throughout.
\<close>

theorem Heap_multiset:
  assumes "ptr_heap (\<lambda>p. p) base h" "ptr_window base x"
    and "sort_ok Heap_void_ptr_compare (ptr_window base) srt"
  shows "\<exists>ha i hd.
    Heap_add srt h (Some x) = Inr (Heap_count h + 1, ha) \<and>
    ptr_heap (\<lambda>p. p) base ha \<and> mset (HEAP_ITERATE ha) = add_mset x (mset (HEAP_ITERATE h)) \<and>
    Heap_find h (\<lambda>y. Heap_void_ptr_compare y x) = Inr i \<and>
    (Heap_valid h i \<longleftrightarrow> x \<in> set (HEAP_ITERATE h)) \<and> (Heap_valid h i \<longrightarrow> HEAP_ITERATE h ! i = x) \<and>
    Heap_delete h (\<lambda>y. Heap_void_ptr_compare y x) = Inr (x \<in> set (HEAP_ITERATE h), hd) \<and>
    ptr_heap (\<lambda>p. p) base hd \<and> mset (HEAP_ITERATE hd) = mset (HEAP_ITERATE h) - {#x#}"
proof -
  have cmp: "ptr_cmp (\<lambda>p. p) = Heap_void_ptr_compare" by (intro ext) (simp add: ptr_cmp_def)
  have inj: "inj_on (\<lambda>p :: 64 word. p) {y. ptr_window base y}" by simp
  obtain ha where "Heap_add srt h (Some x) = Inr (Suc (h_last h), ha)" "ptr_heap (\<lambda>p. p) base ha"
    "mset (HEAP_ITERATE ha) = add_mset x (mset (HEAP_ITERATE h))"
    using ptr_heap_add [OF assms(1,2) assms(3) [folded cmp]] by blast
  moreover obtain i where "Heap_find h (\<lambda>y. Heap_void_ptr_compare y x) = Inr i"
    "i < h_last h \<longleftrightarrow> x \<in> set (HEAP_ITERATE h)" "i < h_last h \<Longrightarrow> HEAP_ITERATE h ! i = x"
    using ptr_heap_find [OF inj assms(1,2)] unfolding cmp by blast
  moreover obtain hd where "Heap_delete h (\<lambda>y. Heap_void_ptr_compare y x) = Inr (x \<in> set (HEAP_ITERATE h), hd)"
    "ptr_heap (\<lambda>p. p) base hd" "mset (HEAP_ITERATE hd) = mset (HEAP_ITERATE h) - {#x#}"
    using ptr_heap_delete [OF inj assms(1,2)] unfolding cmp by blast
  ultimately show ?thesis
    unfolding Heap_count_def Heap_valid_def Suc_eq_plus1 by blast
qed

lemma Heap_multiset_witness:
  "\<exists>ha. Heap_add (isort_cmp Heap_void_ptr_compare) Heap_create (Some (4096 :: 64 word)) = Inr (1, ha) \<and>
     mset (HEAP_ITERATE ha) = {#4096#}"
proof -
  have cmp: "ptr_cmp (\<lambda>p. p) = Heap_void_ptr_compare" by (intro ext) (simp add: ptr_cmp_def)
  have "ptr_window 0 4096" by (simp add: ptr_window_def)
  from Heap_multiset [OF ptr_heap_create this ptr.isort_cmp_ok [of "\<lambda>p. p" 0, unfolded cmp]]
  show ?thesis by (auto simp: Heap_count_def Heap_create_def HEAP_ITERATE_def)
qed

text \<open>
  The default comparison keeps only the low 32 bits of the difference of two pointers.
  Two pointers \<open>2 ^ 32\<close> bytes apart compare as equal: deleting one pointer from an array
  that holds only the other one returns 1 and removes it.
\<close>

theorem Heap_delete_other_pointer:
  "\<exists>h h'. Heap_add (isort_cmp Heap_void_ptr_compare) Heap_create (Some 0x100001000) = Inr (1, h) \<and>
     HEAP_ITERATE h = [0x100001000] \<and>
     Heap_delete h (\<lambda>y. Heap_void_ptr_compare y 0x1000) = Inr (True, h') \<and> HEAP_ITERATE h' = []"
proof -
  define h :: "64 word heap" where "h = \<lparr> h_last = 1, h_size = 8, h_members = Some 0x100001000 # replicate 7 None \<rparr>"
  define h' :: "64 word heap" where "h' = \<lparr> h_last = 0, h_size = 8, h_members = replicate 8 None \<rparr>"
  have "Heap_add (isort_cmp Heap_void_ptr_compare) Heap_create (Some 0x100001000) = Inr (1, h)"
    unfolding h_def by code_simp
  moreover have "HEAP_ITERATE h = [0x100001000]" unfolding h_def by code_simp
  moreover have "Heap_delete h (\<lambda>y. Heap_void_ptr_compare y 0x1000) = Inr (True, h')"
    unfolding h_def h'_def by code_simp
  moreover have "HEAP_ITERATE h' = []" unfolding h'_def by code_simp
  ultimately show ?thesis by blast
qed

end
