(* ===== verification/Member.thy ===== *)
theory Member
  imports MsgQueue Heap
begin

text \<open>
  The members of a hub (\<open>src/hub/member.c\<close>): who is connected, the queue of each, and the
  map from public keys to members.

  The map is a red-black tree generated by macros of a library outside the program (sglib).
  It is given by the list of its elements in order; the library's operations are the fields
  of \<open>mtree\<close>, a parameter, and \<open>mtree_ok\<close> states what their documentation promises. The sign
  of \<open>memcmp\<close> is fixed by the C standard, its size is not: it is the parameter \<open>mc\<close>. Members
  and messages live in stores; \<open>w_errno\<close> says whether \<open>errno\<close> is set.
\<close>

section \<open>State\<close>

record Member =
  mb_key :: bstring
  mb_peer :: "nat option"
  mb_queue :: MsgQueue
  mb_routes :: "nat heap"

record mworld =
  w_msgs :: mstore
  w_members :: "nat \<rightharpoonup> Member"
  w_errno :: bool

definition MEMBER_MSG_QUEUE_LENGTH :: nat where "MEMBER_MSG_QUEUE_LENGTH = 30"

definition MEMBER_COMPARATOR :: "(string \<Rightarrow> string \<Rightarrow> nat \<Rightarrow> int) \<Rightarrow> bstring \<Rightarrow> bstring \<Rightarrow> int" where
  "MEMBER_COMPARATOR mc x y =
     i32 (mc (the x) (the y) (nat (min (blength x) (blength y))) + i32 (blength x - blength y))"

text \<open>The operations of the tree, along a comparison or a probe.\<close>

record mtree =
  t_find :: "(nat \<Rightarrow> int) \<Rightarrow> nat list \<Rightarrow> nat option"
  t_add :: "(nat \<Rightarrow> nat \<Rightarrow> int) \<Rightarrow> nat \<Rightarrow> nat list \<Rightarrow> nat list"
  t_delete :: "(nat \<Rightarrow> int) \<Rightarrow> nat list \<Rightarrow> nat list"
  t_root :: "nat list \<Rightarrow> nat"

definition member_key :: "'z mworld_scheme \<Rightarrow> nat \<Rightarrow> bstring" where
  "member_key w m = (case w_members w m of None \<Rightarrow> None | Some mb \<Rightarrow> mb_key mb)"

text \<open>A NULL key in the map or in the key looked for is a fault, whether or not the search meets it.\<close>

definition keys_there :: "'z mworld_scheme \<Rightarrow> bstring \<Rightarrow> nat list \<Rightarrow> bool" where
  "keys_there w key mmap \<longleftrightarrow> mmap = [] \<or> key \<noteq> None \<and> (\<forall>m \<in> set mmap. member_key w m \<noteq> None)"

definition key_probe :: "(string \<Rightarrow> string \<Rightarrow> nat \<Rightarrow> int) \<Rightarrow> 'z mworld_scheme \<Rightarrow> bstring \<Rightarrow> nat \<Rightarrow> int" where
  "key_probe mc w key m = MEMBER_COMPARATOR mc (member_key w m) key"

section \<open>Operations\<close>

definition Member_find ::
  "mtree \<Rightarrow> (string \<Rightarrow> string \<Rightarrow> nat \<Rightarrow> int) \<Rightarrow> 'z mworld_scheme \<Rightarrow> nat list \<Rightarrow> bstring \<Rightarrow> nat option res" where
  "Member_find T mc w mmap pubkey =
     (if pubkey = None then Inl AssertFailed
      else if \<not> keys_there w pubkey mmap then Inl NullDeref
      else Inr (t_find T (key_probe mc w pubkey) mmap))"

definition with_member ::
  "'z mworld_scheme \<Rightarrow> nat option \<Rightarrow> (nat \<Rightarrow> Member \<Rightarrow> 'b res) \<Rightarrow> 'b res" where
  "with_member w m f =
     (case m of
        None \<Rightarrow> Inl AssertFailed
      | Some a \<Rightarrow> (case w_members w a of None \<Rightarrow> Inl Dangling | Some mb \<Rightarrow> f a mb))"

definition Member_first_msg :: "'z mworld_scheme \<Rightarrow> nat option \<Rightarrow> queue_first res" where
  "Member_first_msg w m = with_member w m (\<lambda>a mb. Inr (MsgQueue_first (mb_queue mb)))"

definition set_queue :: "nat \<Rightarrow> Member \<Rightarrow> mstore \<Rightarrow> MsgQueue \<Rightarrow> 'z mworld_scheme \<Rightarrow> 'z mworld_scheme" where
  "set_queue a mb st q w = w\<lparr> w_msgs := st, w_members := (w_members w)(a \<mapsto> mb\<lparr> mb_queue := q \<rparr>) \<rparr>"

definition Member_delete_msg :: "'z mworld_scheme \<Rightarrow> nat option \<Rightarrow> (bool \<times> 'z mworld_scheme) res" where
  "Member_delete_msg w m =
     with_member w m (\<lambda>a mb.
       bind_res (MsgQueue_delete (w_msgs w) (mb_queue mb)) (\<lambda>(rc, st, q). Inr (rc, set_queue a mb st q w)))"

text \<open>A failed \<open>check\<close> clears \<open>errno\<close>.\<close>

definition Member_send_msg ::
  "'z mworld_scheme \<Rightarrow> nat option \<Rightarrow> nat option \<Rightarrow> (bool \<times> 'z mworld_scheme) res" where
  "Member_send_msg w m msg =
     with_member w m (\<lambda>a mb.
       if msg = None then Inl AssertFailed
       else if MsgQueue_is_full (mb_queue mb) \<or> w_errno w then Inr (False, w\<lparr> w_errno := False \<rparr>)
       else
         bind_res (MsgQueue_add (w_msgs w) (mb_queue mb) msg) (\<lambda>(rc, st, q).
           if rc then Inr (True, set_queue a mb st q w)
           else Inr (False, (set_queue a mb st q w)\<lparr> w_errno := False \<rparr>)))"

text \<open>
  \<open>Member_create\<close>: \<open>key\<close> is what \<open>CryptState_export_key\<close> returned. The new member is stored
  at the address \<open>a\<close> the allocation gave.
\<close>

definition Member_create ::
  "(nat \<Rightarrow> nat option) \<Rightarrow> 'z mworld_scheme \<Rightarrow> nat \<Rightarrow> nat option \<Rightarrow> bstring \<Rightarrow> 'z mworld_scheme res" where
  "Member_create junk w a peer key =
     (if peer = None then Inl AssertFailed
      else
        bind_res (MsgQueue_create junk MEMBER_MSG_QUEUE_LENGTH) (\<lambda>q.
          Inr (w\<lparr> w_members := (w_members w)(a \<mapsto>
            \<lparr> mb_key = key, mb_peer = peer, mb_queue = q, mb_routes = Heap_create \<rparr>) \<rparr>)))"

text \<open>\<open>MsgQueue_destroy\<close> may run forever, and so may the operations that use it.\<close>

definition Member_destroy :: "'z mworld_scheme \<Rightarrow> nat \<Rightarrow> 'z mworld_scheme res option" where
  "Member_destroy w a =
     (case w_members w a of
        None \<Rightarrow> Some (Inl Dangling)
      | Some mb \<Rightarrow>
          bind_opt (MsgQueue_destroy (w_msgs w) (mb_queue mb)) (\<lambda>st.
            Some (Inr (w\<lparr> w_msgs := st, w_members := (w_members w)(a := None) \<rparr>))))"

definition Member_login ::
  "mtree \<Rightarrow> (string \<Rightarrow> string \<Rightarrow> nat \<Rightarrow> int) \<Rightarrow> (nat \<Rightarrow> nat option) \<Rightarrow> 'z mworld_scheme \<Rightarrow> nat list \<Rightarrow> nat \<Rightarrow>
     nat option \<Rightarrow> bstring \<Rightarrow> (nat option \<times> nat list \<times> 'z mworld_scheme) res option" where
  "Member_login T mc junk w mmap a peer key =
     (case Member_create junk w a peer key of
        Inl f \<Rightarrow> Some (Inl f)
      | Inr w1 \<Rightarrow>
          if w_errno w1 then
            bind_opt (Member_destroy (w1\<lparr> w_errno := False \<rparr>) a) (\<lambda>w2. Some (Inr (None, mmap, w2)))
          else if \<not> keys_there w1 key mmap then Some (Inl NullDeref)
          else
            Some (Inr (Some a,
              t_add T (\<lambda>x y. MEMBER_COMPARATOR mc (member_key w1 x) (member_key w1 y)) a mmap, w1)))"

text \<open>
  \<open>Member_logout\<close> marks the queue dead and wakes its readers, yields, and then removes and
  destroys the member. The two parts are given apart: the other tasks run in between.
\<close>

definition Member_logout_begin :: "'z mworld_scheme \<Rightarrow> nat list \<Rightarrow> nat option \<Rightarrow> 'z mworld_scheme res" where
  "Member_logout_begin w mmap m =
     (if mmap = [] then Inl AssertFailed
      else with_member w m (\<lambda>a mb.
             Inr (set_queue a mb (w_msgs w) (MsgQueue_mark_dead (mb_queue mb)) w)))"

definition Member_logout_end ::
  "mtree \<Rightarrow> (string \<Rightarrow> string \<Rightarrow> nat \<Rightarrow> int) \<Rightarrow> 'z mworld_scheme \<Rightarrow> nat list \<Rightarrow> nat \<Rightarrow>
     (nat list \<times> 'z mworld_scheme) res option" where
  "Member_logout_end T mc w mmap a =
     (if w_members w a = None then Some (Inl Dangling)
      else if \<not> keys_there w (member_key w a) mmap then Some (Inl NullDeref)
      else
        let mmap' = t_delete T (key_probe mc w (member_key w a)) mmap
        in bind_opt (Member_destroy w a) (\<lambda>w'. Some (Inr (mmap', w'))))"

text \<open>
  \<open>Member_destroy_map\<close> destroys each element of the map and then frees the root once more.
\<close>

primrec destroy_each :: "nat list \<Rightarrow> 'z mworld_scheme \<Rightarrow> 'z mworld_scheme res option" where
  "destroy_each [] w = Some (Inr w)"
| "destroy_each (m # ms) w = bind_opt (Member_destroy w m) (destroy_each ms)"

definition Member_destroy_map :: "mtree \<Rightarrow> 'z mworld_scheme \<Rightarrow> nat list \<Rightarrow> (nat list \<times> 'z mworld_scheme) res option" where
  "Member_destroy_map T w mmap =
     (if mmap = [] then Some (Inl AssertFailed)
      else
        let root = t_root T mmap
        in bind_opt (destroy_each mmap w) (\<lambda>w.
             if w_members w root = None then Some (Inl Dangling)
             else Some (Inr ([], w\<lparr> w_members := (w_members w)(root := None) \<rparr>))))"

section \<open>Comparing keys\<close>

text \<open>Byte strings compared as \<open>memcmp\<close> does it, with the difference of the first two bytes that differ.\<close>

fun memcmp_bytes :: "string \<Rightarrow> string \<Rightarrow> int" where
  "memcmp_bytes (x # xs) (y # ys) = (if x = y then memcmp_bytes xs ys else of_char x - of_char y)"
| "memcmp_bytes _ _ = 0"

definition memcmp_diff :: "string \<Rightarrow> string \<Rightarrow> nat \<Rightarrow> int" where
  "memcmp_diff a b n = memcmp_bytes (take n a) (take n b)"

text \<open>What the C standard says of \<open>memcmp\<close>: the sign of the result, an \<open>int\<close>.\<close>

definition memcmp_ok :: "(string \<Rightarrow> string \<Rightarrow> nat \<Rightarrow> int) \<Rightarrow> bool" where
  "memcmp_ok mc \<longleftrightarrow>
     (\<forall>a b n. n \<le> length a \<and> n \<le> length b \<longrightarrow>
        sgn (mc a b n) = sgn (memcmp_diff a b n) \<and> - (2 ^ 31) \<le> mc a b n \<and> mc a b n < 2 ^ 31)"

lemma memcmp_okD:
  assumes "memcmp_ok mc" "n \<le> length a" "n \<le> length b"
  shows "sgn (mc a b n) = sgn (memcmp_diff a b n)" "i32 (mc a b n) = mc a b n"
  using assms unfolding memcmp_ok_def by simp_all

lemma memcmp_bytes_bounds: "\<bar>memcmp_bytes a b\<bar> < 256"
proof (induction a b rule: memcmp_bytes.induct)
  case (1 x xs y ys)
  then show ?case using of_char_int_bounds [of x] of_char_int_bounds [of y] by (cases "x = y") (simp_all add: abs_if)
qed simp_all

lemma memcmp_diff_ok: "memcmp_ok memcmp_diff"
  unfolding memcmp_ok_def memcmp_diff_def
proof (intro allI impI conjI)
  fix a b :: string and n
  show "- (2 ^ 31) \<le> memcmp_bytes (take n a) (take n b)" "memcmp_bytes (take n a) (take n b) < 2 ^ 31"
    using memcmp_bytes_bounds [of "take n a" "take n b"] by simp_all
qed simp

lemma memcmp_bytes_refl [simp]: "memcmp_bytes a a = 0"
  by (induction a) simp_all

lemma memcmp_bytes_zero: "length a = length b \<Longrightarrow> memcmp_bytes a b = 0 \<longleftrightarrow> a = b"
  by (induction a b rule: memcmp_bytes.induct) auto

lemma memcmp_bytes_sym: "memcmp_bytes a b = - memcmp_bytes b a"
  by (induction a b rule: memcmp_bytes.induct) auto

lemma memcmp_bytes_trans:
  "length a = length b \<Longrightarrow> length b = length c \<Longrightarrow> memcmp_bytes a b \<le> 0 \<Longrightarrow> memcmp_bytes b c \<le> 0 \<Longrightarrow>
     memcmp_bytes a c \<le> 0"
proof (induction a b arbitrary: c rule: memcmp_bytes.induct)
  case (1 x xs y ys)
  then obtain z zs where "c = z # zs" by (cases c) auto
  with 1 show ?case by (auto split: if_splits)
qed auto

definition key_cmp :: "(string \<Rightarrow> string \<Rightarrow> nat \<Rightarrow> int) \<Rightarrow> string \<Rightarrow> string \<Rightarrow> int" where
  "key_cmp mc x y = MEMBER_COMPARATOR mc (Some x) (Some y)"

lemma key_cmp_sgn:
  assumes "memcmp_ok mc" "length x = n" "length y = n"
  shows "sgn (key_cmp mc x y) = sgn (memcmp_bytes x y)"
  using memcmp_okD [OF assms(1), of n x y] assms(2,3)
  by (simp add: key_cmp_def MEMBER_COMPARATOR_def memcmp_diff_def)

text \<open>Keys of one length are ordered: the comparison keeps the contract \<open>heap_order\<close>.\<close>

lemma sgn_nonpos: "sgn (a :: int) = sgn b \<Longrightarrow> a \<le> 0 \<longleftrightarrow> b \<le> 0"
  by (auto simp: sgn_if split: if_splits)

lemma key_order:
  assumes mc: "memcmp_ok mc"
  shows "heap_order (key_cmp mc) (\<lambda>x. length x = n)"
proof
  note sgn = key_cmp_sgn [OF mc]
  fix x y z :: string
  show "length x = n \<Longrightarrow> key_cmp mc x x = 0"
    using sgn [of x n x] by (simp add: sgn_0_0)
  show "key_cmp mc x y < 0 \<longleftrightarrow> 0 < key_cmp mc y x" if "length x = n" "length y = n"
    using sgn [OF that] sgn [OF that(2,1)] memcmp_bytes_sym [of x y] by (auto simp: sgn_if split: if_splits)
  show "key_cmp mc x z \<le> 0"
    if "length x = n" "length y = n" "length z = n" "key_cmp mc x y \<le> 0" "key_cmp mc y z \<le> 0"
    using that memcmp_bytes_trans [of x y z] sgn_nonpos [OF sgn [of x n y]] sgn_nonpos [OF sgn [of y n z]]
      sgn_nonpos [OF sgn [of x n z]] by simp
qed

interpretation keys: heap_order "key_cmp memcmp_diff" "\<lambda>x. length x = n" for n
  by (rule key_order [OF memcmp_diff_ok])

lemma key_cmp_zero:
  assumes "memcmp_ok mc" "length x = n" "length y = n"
  shows "key_cmp mc x y = 0 \<longleftrightarrow> x = y"
  using key_cmp_sgn [OF assms] memcmp_bytes_zero [of x y] assms by (metis sgn_0_0)

text \<open>
  Keys of different lengths may be confused, since the difference of the lengths is added to the
  result of \<open>memcmp\<close>: with a \<open>memcmp\<close> that returns the difference of the first two bytes that
  differ, these two compare as equal.
\<close>

lemma MEMBER_COMPARATOR_collision: "MEMBER_COMPARATOR memcmp_diff (Some ''b'') (Some ''aa'') = 0"
  by (simp add: MEMBER_COMPARATOR_def memcmp_diff_def of_char_def)

section \<open>The map\<close>

text \<open>What the tree promises: operations on a sorted list of elements.\<close>

definition mtree_ok :: "mtree \<Rightarrow> bool" where
  "mtree_ok T \<longleftrightarrow>
     (\<forall>probe xs. monotone_probe probe xs \<longrightarrow>
        (case t_find T probe xs of None \<Rightarrow> \<forall>x \<in> set xs. probe x \<noteq> 0 | Some x \<Rightarrow> x \<in> set xs \<and> probe x = 0) \<and>
        (if \<forall>x \<in> set xs. probe x \<noteq> 0 then t_delete T probe xs = xs
         else \<exists>ys x zs. xs = ys @ x # zs \<and> probe x = 0 \<and> t_delete T probe xs = ys @ zs)) \<and>
     (\<forall>cmp valid x xs. heap_order cmp valid \<and> list_all valid (x # xs) \<and> sorted_wrt (\<lambda>x y. cmp x y \<le> 0) xs \<longrightarrow>
        mset (t_add T cmp x xs) = add_mset x (mset xs) \<and> sorted_wrt (\<lambda>x y. cmp x y \<le> 0) (t_add T cmp x xs)) \<and>
     (\<forall>xs. xs \<noteq> [] \<longrightarrow> t_root T xs \<in> set xs)"

text \<open>A tree that keeps the promise, for concrete runs: a sorted list.\<close>

definition list_tree :: mtree where
  "list_tree =
     \<lparr> t_find = (\<lambda>probe xs. find (\<lambda>x. probe x = 0) xs), t_add = (\<lambda>cmp x xs. insort_cmp cmp x xs),
       t_delete = (\<lambda>probe xs. takeWhile (\<lambda>x. probe x \<noteq> 0) xs @ tl (dropWhile (\<lambda>x. probe x \<noteq> 0) xs)),
       t_root = hd \<rparr>"

lemma list_tree_simps [simp]:
  "t_find list_tree probe xs = find (\<lambda>x. probe x = 0) xs" "t_add list_tree cmp x xs = insort_cmp cmp x xs"
  "t_delete list_tree probe xs =
     takeWhile (\<lambda>x. probe x \<noteq> 0) xs @ tl (dropWhile (\<lambda>x. probe x \<noteq> 0) xs)"
  "t_root list_tree xs = hd xs"
  by (simp_all add: list_tree_def)

lemma list_tree_delete:
  assumes ex: "\<not> (\<forall>x \<in> set xs. probe x \<noteq> 0)"
  shows "\<exists>ys x zs. xs = ys @ x # zs \<and> probe x = 0 \<and> t_delete list_tree probe xs = ys @ zs"
proof -
  obtain y zs where dw: "dropWhile (\<lambda>x. probe x \<noteq> 0) xs = y # zs"
    using ex by (cases "dropWhile (\<lambda>x. probe x \<noteq> 0) xs") (auto simp: dropWhile_eq_Nil_conv)
  with hd_dropWhile [of "\<lambda>x. probe x \<noteq> 0" xs] have "probe y = 0" by simp
  moreover have "xs = takeWhile (\<lambda>x. probe x \<noteq> 0) xs @ y # zs"
    using takeWhile_dropWhile_id [of "\<lambda>x. probe x \<noteq> 0" xs] dw by simp
  ultimately show ?thesis unfolding list_tree_simps dw list.sel by blast
qed

lemma list_tree_ok: "mtree_ok list_tree"
  unfolding mtree_ok_def
proof (intro conjI allI impI, goal_cases)
  case (1 probe xs)
  show ?case by (auto simp: find_None_iff find_Some_iff split: option.split)
next
  case (2 probe xs)
  show ?case
    using list_tree_delete [of xs probe]
    by (simp add: takeWhile_eq_all_conv [THEN iffD2] dropWhile_eq_Nil_conv [THEN iffD2] del: list_tree_simps(3))
      (simp add: takeWhile_eq_all_conv [THEN iffD2] dropWhile_eq_Nil_conv [THEN iffD2])
next
  case (3 cmp valid x xs)
  then show ?case using heap_order.insort_cmp_mset [of cmp valid x xs] by simp
next
  case (4 cmp valid x xs)
  then show ?case using heap_order.insort_cmp_sorted [of cmp valid x xs] by simp
qed simp

section \<open>Members and their references\<close>

text \<open>
  Every member has a well formed queue of the fixed length, and every message counts the
  references held elsewhere (\<open>g\<close>) and its places in the queues.
\<close>

definition in_queues :: "'z mworld_scheme \<Rightarrow> nat \<Rightarrow> nat" where
  "in_queues w a = (\<Sum>m \<in> dom (w_members w). count_list (q_list (mb_queue (the (w_members w m)))) a)"

definition members_ok :: "(nat \<Rightarrow> nat) \<Rightarrow> 'z mworld_scheme \<Rightarrow> bool" where
  "members_ok g w \<longleftrightarrow>
     finite (dom (w_members w)) \<and>
     (\<forall>mb \<in> ran (w_members w). queue_ok (mb_queue mb) \<and> q_dim (mb_queue mb) = MEMBER_MSG_QUEUE_LENGTH) \<and>
     refs_ok (w_msgs w) (\<lambda>a. g a + in_queues w a)"

text \<open>The references to \<open>a\<close> held outside the queue of \<open>m\<close>.\<close>

definition refs_but :: "(nat \<Rightarrow> nat) \<Rightarrow> 'z mworld_scheme \<Rightarrow> nat \<Rightarrow> nat \<Rightarrow> nat" where
  "refs_but g w m a =
     g a + (\<Sum>k \<in> dom (w_members w) - {m}. count_list (q_list (mb_queue (the (w_members w k)))) a)"

lemma refs_split:
  assumes "finite (dom (w_members w))" "w_members w m = Some mb"
  shows "g a + in_queues w a = refs_but g w m a + count_list (q_list (mb_queue mb)) a"
  using sum.remove [OF assms(1) domI [of "w_members w", OF assms(2)],
      of "\<lambda>k. count_list (q_list (mb_queue (the (w_members w k)))) a"] assms(2)
  by (simp add: in_queues_def refs_but_def)

lemma members_ok_queue:
  assumes "members_ok g w" "w_members w m = Some mb"
  shows "queue_ok (mb_queue mb)" "q_dim (mb_queue mb) = 30"
    "refs_ok (w_msgs w) (queue_refs (refs_but g w m) (mb_queue mb))"
proof -
  show "queue_ok (mb_queue mb)" "q_dim (mb_queue mb) = 30"
    using assms by (auto simp: members_ok_def MEMBER_MSG_QUEUE_LENGTH_def ran_def)
  have "finite (dom (w_members w))" using assms(1) by (simp add: members_ok_def)
  from refs_split [OF this assms(2), of g] have "(\<lambda>a. g a + in_queues w a) = queue_refs (refs_but g w m) (mb_queue mb)"
    by (auto simp: queue_refs_def)
  then show "refs_ok (w_msgs w) (queue_refs (refs_but g w m) (mb_queue mb))"
    using assms(1) by (simp add: members_ok_def)
qed

lemma members_ok_set_queue:
  assumes ok: "members_ok g w" and m: "w_members w m = Some mb"
    and q: "queue_ok q" "q_dim q = 30" "refs_ok st (queue_refs (refs_but g w m) q)"
  shows "members_ok g (set_queue m mb st q w)"
proof -
  define w' where "w' = set_queue m mb st q w"
  have w': "w_members w' m = Some (mb\<lparr> mb_queue := q \<rparr>)" "dom (w_members w') = dom (w_members w)"
    "\<And>k. k \<noteq> m \<Longrightarrow> w_members w' k = w_members w k" "w_msgs w' = st"
    using m by (auto simp: w'_def set_queue_def)
  have fin: "finite (dom (w_members w'))" using ok w'(2) by (simp add: members_ok_def)
  have "refs_but g w' m = refs_but g w m"
    unfolding refs_but_def w'(2) by (intro ext arg_cong2 [of _ _ _ _ "(+)"] sum.cong refl) (simp add: w'(3))
  then have "(\<lambda>a. g a + in_queues w' a) = queue_refs (refs_but g w m) q"
    using refs_split [OF fin w'(1), of g] by (auto simp: queue_refs_def)
  moreover have "queue_ok (mb_queue mb') \<and> q_dim (mb_queue mb') = MEMBER_MSG_QUEUE_LENGTH"
    if ran: "mb' \<in> ran (w_members w')" for mb'
  proof -
    obtain k where k: "w_members w' k = Some mb'" using ran by (auto simp: ran_def)
    then show ?thesis
      using members_ok_queue [OF ok, of k mb'] w'(1,3) q by (cases "k = m") (auto simp: MEMBER_MSG_QUEUE_LENGTH_def)
  qed
  ultimately show ?thesis
    unfolding w'_def [symmetric] members_ok_def using fin q(3) w'(4) by simp
qed

text \<open>
  Sending: the message goes to the end of the member's queue unless the queue is full or
  \<open>errno\<close> is set.
\<close>

lemma Member_send_msg_ok:
  assumes ok: "members_ok g w" and m: "w_members w m = Some mb" and held: "0 < g a"
    and bound: "refs_but g w m a + 30 \<le> 32768" and er: "\<not> w_errno w"
    and room: "length (q_list (mb_queue mb)) < 29"
  obtains w' mb' where "Member_send_msg w (Some m) (Some a) = Inr (True, w')" "members_ok g w'"
    "w_members w' = (w_members w)(m \<mapsto> mb')" "q_list (mb_queue mb') = q_list (mb_queue mb) @ [a]"
    "mb' = mb\<lparr> mb_queue := mb_queue mb' \<rparr>" "\<not> w_errno w'" "q_dead (mb_queue mb') = q_dead (mb_queue mb)"
proof -
  note q = members_ok_queue [OF ok m]
  have "0 < queue_refs (refs_but g w m) (mb_queue mb) a"
    using held by (simp add: queue_refs_def refs_but_def)
  then obtain msg where msg: "w_msgs w a = Some msg" using refs_ok_dom [OF q(3)] by blast
  have room': "Suc (length (q_list (mb_queue mb))) < q_dim (mb_queue mb)"
    and bound': "refs_but g w m a + q_dim (mb_queue mb) \<le> 32768"
    using room bound q(2) by simp_all
  obtain st' q' where q': "MsgQueue_add (w_msgs w) (mb_queue mb) (Some a) = Inr (True, st', q')" "queue_ok q'"
    "q_list q' = q_list (mb_queue mb) @ [a]" "q_dim q' = q_dim (mb_queue mb)"
    "refs_ok st' (queue_refs (refs_but g w m) q')" "q_dead q' = q_dead (mb_queue mb)"
    using MsgQueue_add_ok [OF q(1,3) msg room' bound'] by metis
  have full: "\<not> MsgQueue_is_full (mb_queue mb)" using room' is_full_list [OF q(1)] by simp
  have "members_ok g (set_queue m mb st' q' w)"
    using members_ok_set_queue [OF ok m q'(2) _ q'(5)] q'(4) q(2) by simp
  moreover have "Member_send_msg w (Some m) (Some a) = Inr (True, set_queue m mb st' q' w)"
    using m full er q'(1) by (simp add: Member_send_msg_def with_member_def)
  ultimately show thesis
    using that [of "set_queue m mb st' q' w" "mb\<lparr> mb_queue := q' \<rparr>"] q' er by (simp add: set_queue_def)
qed

lemma Member_send_msg_full:
  assumes "members_ok g w" "w_members w m = Some mb" "w_errno w \<or> 29 \<le> length (q_list (mb_queue mb))"
  shows "Member_send_msg w (Some m) (Some a) = Inr (False, w\<lparr> w_errno := False \<rparr>)"
  using assms is_full_list [OF members_ok_queue(1) [OF assms(1,2)]] q_len_less [OF members_ok_queue(1) [OF assms(1,2)]]
    members_ok_queue(2) [OF assms(1,2)]
  by (auto simp: Member_send_msg_def with_member_def)

text \<open>Creating a member adds an empty queue; destroying one gives back what its queue held.\<close>

lemma Member_create_ok:
  assumes ok: "members_ok g w" and fresh: "w_members w a = None" and peer: "peer \<noteq> None"
  obtains q w' where "Member_create junk w a peer key = Inr w'" "members_ok g w'" "queue_ok q" "q_list q = []"
    "w' = w\<lparr> w_members := (w_members w)(a \<mapsto>
      \<lparr> mb_key = key, mb_peer = peer, mb_queue = q, mb_routes = Heap_create \<rparr>) \<rparr>"
proof -
  obtain q where q: "MsgQueue_create junk MEMBER_MSG_QUEUE_LENGTH = Inr q" "queue_ok q" "q_list q = []"
    "q_dim q = MEMBER_MSG_QUEUE_LENGTH"
    using create_ok [of MEMBER_MSG_QUEUE_LENGTH junk] by (auto simp: MEMBER_MSG_QUEUE_LENGTH_def)
  define mb where "mb = \<lparr> mb_key = key, mb_peer = peer, mb_queue = q, mb_routes = Heap_create \<rparr>"
  define w' where "w' = w\<lparr> w_members := (w_members w)(a \<mapsto> mb) \<rparr>"
  have fin: "finite (dom (w_members w))" using ok by (simp add: members_ok_def)
  have old: "(\<Sum>m \<in> dom (w_members w). count_list (q_list (mb_queue (the (w_members w' m)))) b) = in_queues w b" for b
    unfolding in_queues_def by (rule sum.cong) (use fresh in \<open>auto simp: w'_def\<close>)
  have dom: "dom (w_members w') = insert a (dom (w_members w))" "a \<notin> dom (w_members w)"
    "w_members w' a = Some mb" "mb_queue mb = q"
    using fresh by (auto simp: w'_def mb_def)
  have "in_queues w' = in_queues w"
    by (intro ext) (simp add: in_queues_def [of w'] dom fin old q)
  then have "members_ok g w'"
    using ok fresh q by (auto simp: members_ok_def w'_def mb_def ran_def split: if_splits)
  then show thesis
    using that [of w' q] peer q by (simp add: Member_create_def w'_def mb_def)
qed

lemma Member_destroy_ok:
  assumes ok: "members_ok g w" and m: "w_members w a = Some mb"
  obtains st' w' where "Member_destroy w a = Some (Inr w')" "members_ok g w'"
    "w' = w\<lparr> w_msgs := st', w_members := (w_members w)(a := None) \<rparr>"
proof -
  note q = members_ok_queue [OF ok m]
  obtain st' where st': "MsgQueue_destroy (w_msgs w) (mb_queue mb) = Some (Inr st')" "refs_ok st' (refs_but g w a)"
    using MsgQueue_destroy_ok [OF q(1,3)] by blast
  define w' where "w' = w\<lparr> w_msgs := st', w_members := (w_members w)(a := None) \<rparr>"
  have "(\<lambda>b. g b + in_queues w' b) = refs_but g w a"
    unfolding in_queues_def refs_but_def by (intro ext arg_cong2 [of _ _ _ _ "(+)"] sum.cong) (auto simp: w'_def)
  moreover have "finite (dom (w_members w'))" using ok by (auto simp: members_ok_def w'_def)
  moreover have "queue_ok (mb_queue mb') \<and> q_dim (mb_queue mb') = MEMBER_MSG_QUEUE_LENGTH"
    if "mb' \<in> ran (w_members w')" for mb'
    using that ok by (auto simp: members_ok_def w'_def ran_def split: if_splits)
  ultimately have "members_ok g w'"
    unfolding members_ok_def using st'(2) by (simp add: w'_def)
  then show thesis
    using that [of w' st'] m st'(1) by (simp add: Member_destroy_def bind_opt_def w'_def)
qed

section \<open>Login, search, logout\<close>

definition key_valid :: "nat \<Rightarrow> 'z mworld_scheme \<Rightarrow> nat \<Rightarrow> bool" where
  "key_valid n w m \<longleftrightarrow> (case member_key w m of None \<Rightarrow> False | Some k \<Rightarrow> length k = n)"

definition member_cmp :: "(string \<Rightarrow> string \<Rightarrow> nat \<Rightarrow> int) \<Rightarrow> 'z mworld_scheme \<Rightarrow> nat \<Rightarrow> nat \<Rightarrow> int" where
  "member_cmp mc w x y = MEMBER_COMPARATOR mc (member_key w x) (member_key w y)"

text \<open>The map of the hub: members with keys of one length, sorted.\<close>

definition map_ok :: "(string \<Rightarrow> string \<Rightarrow> nat \<Rightarrow> int) \<Rightarrow> nat \<Rightarrow> 'z mworld_scheme \<Rightarrow> nat list \<Rightarrow> bool" where
  "map_ok mc n w mmap \<longleftrightarrow>
     list_all (key_valid n w) mmap \<and> sorted_wrt (\<lambda>x y. member_cmp mc w x y \<le> 0) mmap"

lemma key_validD: "key_valid n w m \<Longrightarrow> \<exists>k. member_key w m = Some k \<and> length k = n"
  by (auto simp: key_valid_def split: option.splits)

lemma member_order:
  assumes mc: "memcmp_ok mc"
  shows "heap_order (member_cmp mc w) (key_valid n w)"
proof -
  have cmp: "member_cmp mc w x y = key_cmp mc (the (member_key w x)) (the (member_key w y))"
    "length (the (member_key w x)) = n" "length (the (member_key w y)) = n"
    if "key_valid n w x" "key_valid n w y" for x y
    using key_validD [OF that(1)] key_validD [OF that(2)] by (auto simp: member_cmp_def key_cmp_def)
  note keys = key_order [OF mc, of n]
  show ?thesis
  proof
    fix x y z
    show "key_valid n w x \<Longrightarrow> member_cmp mc w x x = 0"
      using cmp [of x x] heap_order.cmp_refl [OF keys] by simp
    show "key_valid n w x \<Longrightarrow> key_valid n w y \<Longrightarrow> member_cmp mc w x y < 0 \<longleftrightarrow> 0 < member_cmp mc w y x"
      using cmp [of x y] cmp [of y x] heap_order.cmp_sym [OF keys] by simp
    show "key_valid n w x \<Longrightarrow> key_valid n w y \<Longrightarrow> key_valid n w z \<Longrightarrow> member_cmp mc w x y \<le> 0 \<Longrightarrow>
        member_cmp mc w y z \<le> 0 \<Longrightarrow> member_cmp mc w x z \<le> 0"
      using cmp [of x y] cmp [of y z] cmp [of x z]
        heap_order.cmp_trans [OF keys, of "the (member_key w x)" "the (member_key w y)" "the (member_key w z)"]
      by simp
  qed
qed

lemma key_probe_zero:
  assumes "memcmp_ok mc" "map_ok mc n w mmap" "length k = n" "m \<in> set mmap"
  shows "key_probe mc w (Some k) m = 0 \<longleftrightarrow> member_key w m = Some k"
proof -
  obtain j where "member_key w m = Some j" "length j = n"
    using assms(2,4) key_validD [of n w m] by (auto simp: map_ok_def list_all_iff)
  with key_cmp_zero [OF assms(1) this(2) assms(3)] show ?thesis
    by (simp add: key_probe_def key_cmp_def)
qed

lemma key_probe_monotone:
  assumes mc: "memcmp_ok mc" and ok: "map_ok mc n w mmap" and k: "length k = n"
  shows "monotone_probe (key_probe mc w (Some k)) mmap"
proof -
  have valid: "\<exists>j. member_key w m = Some j \<and> length j = n" if "m \<in> set mmap" for m
    using ok that key_validD [of n w m] by (auto simp: map_ok_def list_all_iff)
  have "sorted_wrt (\<lambda>x y. member_cmp mc w x y \<le> 0) mmap" using ok by (simp add: map_ok_def)
  then show ?thesis
    unfolding monotone_probe_def
  proof (rule sorted_wrt_mono_rel [rotated])
    fix x y
    assume "x \<in> set mmap" "y \<in> set mmap" "member_cmp mc w x y \<le> 0"
    with valid [of x] valid [of y] heap_order.probe_signs [OF key_order [OF mc], of k n] k
    show "(key_probe mc w (Some k) y < 0 \<longrightarrow> key_probe mc w (Some k) x < 0) \<and>
        (0 < key_probe mc w (Some k) x \<longrightarrow> 0 < key_probe mc w (Some k) y)"
      by (fastforce simp: key_probe_def member_cmp_def key_cmp_def)
  qed
qed

lemma keys_there_map: "map_ok mc n w mmap \<Longrightarrow> keys_there w (Some k) mmap"
  by (fastforce simp: keys_there_def map_ok_def list_all_iff dest: key_validD)

lemma Member_find_ok:
  assumes T: "mtree_ok T" and mc: "memcmp_ok mc" and ok: "map_ok mc n w mmap" and k: "length k = n"
  obtains (found) m where "Member_find T mc w mmap (Some k) = Inr (Some m)" "m \<in> set mmap" "member_key w m = Some k"
  | (missing) "Member_find T mc w mmap (Some k) = Inr None" "\<forall>m \<in> set mmap. member_key w m \<noteq> Some k"
proof -
  have "case t_find T (key_probe mc w (Some k)) mmap of None \<Rightarrow> \<forall>x \<in> set mmap. key_probe mc w (Some k) x \<noteq> 0
      | Some x \<Rightarrow> x \<in> set mmap \<and> key_probe mc w (Some k) x = 0"
    using T key_probe_monotone [OF mc ok k] unfolding mtree_ok_def by blast
  moreover have "Member_find T mc w mmap (Some k) = Inr (t_find T (key_probe mc w (Some k)) mmap)"
    using keys_there_map [OF ok] by (simp add: Member_find_def)
  ultimately show thesis
    using key_probe_zero [OF mc ok k] found missing
    by (cases "t_find T (key_probe mc w (Some k)) mmap") auto
qed

text \<open>The key of a member depends on its own entry only.\<close>

lemma map_ok_cong:
  assumes "map_ok mc n w mmap" "\<And>m. m \<in> set mmap \<Longrightarrow> member_key w' m = member_key w m"
  shows "map_ok mc n w' mmap"
proof -
  have "sorted_wrt (\<lambda>x y. member_cmp mc w x y \<le> 0) mmap" using assms(1) by (simp add: map_ok_def)
  then have "sorted_wrt (\<lambda>x y. member_cmp mc w' x y \<le> 0) mmap"
    by (rule sorted_wrt_mono_rel [rotated]) (simp add: member_cmp_def assms(2))
  with assms show ?thesis by (simp add: map_ok_def list_all_iff key_valid_def)
qed

lemma map_ok_dom: "map_ok mc n w mmap \<Longrightarrow> m \<in> set mmap \<Longrightarrow> w_members w m \<noteq> None"
  by (fastforce simp: map_ok_def list_all_iff member_key_def dest: key_validD split: option.splits)

lemma map_ok_delete:
  assumes T: "mtree_ok T" and mc: "memcmp_ok mc" and ok: "map_ok mc n w mmap" and k: "length k = n"
    and m: "m \<in> set mmap" "member_key w m = Some k"
  obtains ys r zs where "mmap = ys @ r # zs" "member_key w r = Some k"
    "t_delete T (key_probe mc w (Some k)) mmap = ys @ zs" "map_ok mc n w (ys @ zs)"
proof -
  have "\<not> (\<forall>x \<in> set mmap. key_probe mc w (Some k) x \<noteq> 0)"
    using key_probe_zero [OF mc ok k m(1)] m by auto
  then obtain ys r zs where del: "mmap = ys @ r # zs" "key_probe mc w (Some k) r = 0"
    "t_delete T (key_probe mc w (Some k)) mmap = ys @ zs"
    using T key_probe_monotone [OF mc ok k] unfolding mtree_ok_def by meson
  moreover have "member_key w r = Some k"
    using key_probe_zero [OF mc ok k, of r] del by simp
  moreover have "map_ok mc n w (ys @ zs)"
    using ok unfolding del(1) map_ok_def by (simp add: sorted_wrt_append list_all_iff)
  ultimately show thesis using that by blast
qed

lemma Member_login_ok:
  assumes T: "mtree_ok T" and mc: "memcmp_ok mc" and members: "members_ok g w" and ok: "map_ok mc n w mmap"
    and k: "length k = n" and fresh: "w_members w a = None" and peer: "peer \<noteq> None" and er: "\<not> w_errno w"
  obtains mmap' w' where "Member_login T mc junk w mmap a peer (Some k) = Some (Inr (Some a, mmap', w'))"
    "members_ok g w'" "map_ok mc n w' mmap'" "mset mmap' = add_mset a (mset mmap)"
    "member_key w' a = Some k" "\<And>m. m \<noteq> a \<Longrightarrow> w_members w' m = w_members w m" "\<not> w_errno w'"
proof -
  obtain q w' where w': "Member_create junk w a peer (Some k) = Inr w'" "members_ok g w'"
    "w' = w\<lparr> w_members := (w_members w)(a \<mapsto>
      \<lparr> mb_key = Some k, mb_peer = peer, mb_queue = q, mb_routes = Heap_create \<rparr>) \<rparr>"
    using Member_create_ok [OF members fresh peer] by blast
  have key: "member_key w' a = Some k" "\<And>m. m \<noteq> a \<Longrightarrow> w_members w' m = w_members w m"
    by (simp_all add: w'(3) member_key_def)
  have a: "m \<noteq> a" if "m \<in> set mmap" for m using map_ok_dom [OF ok that] fresh by auto
  have ok': "map_ok mc n w' mmap"
    using ok by (rule map_ok_cong) (use key(2) a in \<open>simp add: member_key_def\<close>)
  define mmap' where "mmap' = t_add T (member_cmp mc w') a mmap"
  have valid: "list_all (key_valid n w') (a # mmap)"
    using ok' key(1) k by (simp add: map_ok_def key_valid_def)
  have add: "mset mmap' = add_mset a (mset mmap)" "sorted_wrt (\<lambda>x y. member_cmp mc w' x y \<le> 0) mmap'"
    using T member_order [OF mc, of w' n] valid ok' unfolding mtree_ok_def map_ok_def mmap'_def by blast+
  have set: "set mmap' = insert a (set mmap)" using mset_eq_setD [of mmap' "a # mmap"] add(1) by simp
  then have "map_ok mc n w' mmap'" using add(2) valid by (simp add: map_ok_def list_all_iff)
  moreover have "Member_login T mc junk w mmap a peer (Some k) = Some (Inr (Some a, mmap', w'))"
    using w' er keys_there_map [OF ok']
    by (simp add: Member_login_def mmap'_def member_cmp_def [abs_def])
  ultimately show thesis using that w'(2) add(1) key er by (simp add: w'(3))
qed

lemma Member_logout_ok:
  assumes T: "mtree_ok T" and mc: "memcmp_ok mc" and members: "members_ok g w" and ok: "map_ok mc n w mmap"
    and a: "a \<in> set mmap"
  obtains ys r zs w' where "mmap = ys @ r # zs" "member_key w r = member_key w a"
    "Member_logout_end T mc w mmap a = Some (Inr (ys @ zs, w'))" "members_ok g w'" "map_ok mc n w (ys @ zs)"
    "w_members w' = (w_members w)(a := None)" "t_delete T (key_probe mc w (member_key w a)) mmap = ys @ zs"
proof -
  obtain k where k: "member_key w a = Some k" "length k = n"
    using ok a key_validD [of n w a] by (auto simp: map_ok_def list_all_iff)
  obtain ys r zs where del: "mmap = ys @ r # zs" "member_key w r = Some k"
    "t_delete T (key_probe mc w (Some k)) mmap = ys @ zs" "map_ok mc n w (ys @ zs)"
    using map_ok_delete [OF T mc ok k(2) a k(1)] by blast
  obtain mb where mb: "w_members w a = Some mb" using map_ok_dom [OF ok a] by auto
  obtain st' w' where w': "Member_destroy w a = Some (Inr w')" "members_ok g w'"
    "w' = w\<lparr> w_msgs := st', w_members := (w_members w)(a := None) \<rparr>"
    using Member_destroy_ok [OF members mb] by blast
  have "Member_logout_end T mc w mmap a = Some (Inr (ys @ zs, w'))"
    using mb w'(1) keys_there_map [OF ok] by (simp add: Member_logout_end_def k del(3) bind_opt_def)
  with del k w' show thesis by (intro that [of ys r zs w']) simp_all
qed

section \<open>Properties\<close>

definition empty_mworld :: mworld where
  "empty_mworld = \<lparr> w_msgs = Map.empty, w_members = Map.empty, w_errno = False \<rparr>"

lemma empty_mworld_ok:
  "members_ok (\<lambda>_. 0) empty_mworld" "map_ok mc n empty_mworld []"
  by (simp_all add: members_ok_def empty_mworld_def refs_ok_def in_queues_def map_ok_def)

lemma one_member:
  obtains w :: mworld where "members_ok (\<lambda>_. 0) w" "map_ok memcmp_diff 3 w [4]"
    "member_key w 4 = Some ''key''" "w_members w 5 = None" "\<not> w_errno w"
proof (rule Member_login_ok [OF list_tree_ok memcmp_diff_ok empty_mworld_ok(1) empty_mworld_ok(2) [of _ 3],
      of "''key''" 4 "Some 1" "\<lambda>_. None"])
  fix mmap and w :: mworld
  assume "members_ok (\<lambda>_. 0) w" "map_ok memcmp_diff 3 w mmap" "mset mmap = add_mset 4 (mset [])"
    "member_key w 4 = Some ''key''" "\<And>m. m \<noteq> 4 \<Longrightarrow> w_members w m = w_members empty_mworld m" "\<not> w_errno w"
  moreover from this(3) have "mmap = [4]" by simp
  ultimately show thesis using that [of w] by (simp add: empty_mworld_def)
qed (simp_all add: empty_mworld_def)

text \<open>A search depends only on who has the key, when at most one member has.\<close>

lemma Member_find_same:
  assumes T: "mtree_ok T" and mc: "memcmp_ok mc" and ok: "map_ok mc n w mmap" "map_ok mc n w' mmap'" and j: "length j = n"
    and same: "\<And>m. m \<in> set mmap' \<and> member_key w' m = Some j \<longleftrightarrow> m \<in> set mmap \<and> member_key w m = Some j"
    and once: "inj_on (member_key w) (set mmap)"
  shows "Member_find T mc w' mmap' (Some j) = Member_find T mc w mmap (Some j)"
proof (cases rule: Member_find_ok [OF T mc ok(1) j, case_names found missing])
  case (found m)
  then have "m' = m" if "m' \<in> set mmap'" "member_key w' m' = Some j" for m'
    using same [of m'] that once inj_onD [of "member_key w" "set mmap" m' m] by simp
  with found same [of m] show ?thesis by (cases rule: Member_find_ok [OF T mc ok(2) j]) auto
next
  case missing
  with same show ?thesis by (cases rule: Member_find_ok [OF T mc ok(2) j]) auto
qed

lemma Member_logout_begin_ok:
  assumes ok: "members_ok g w" and m: "w_members w a = Some mb" and ne: "mmap \<noteq> []"
  obtains w' where "Member_logout_begin w mmap (Some a) = Inr w'" "members_ok g w'"
    "w_members w' = (w_members w)(a \<mapsto> mb\<lparr> mb_queue := MsgQueue_mark_dead (mb_queue mb) \<rparr>)"
proof -
  define q where "q = MsgQueue_mark_dead (mb_queue mb)"
  note old = members_ok_queue [OF ok m]
  have q: "queue_ok q" "q_dim q = 30" "q_list q = q_list (mb_queue mb)"
    using old(1,2) by (simp_all add: q_def MsgQueue_mark_dead_def queue_ok_def q_list_def q_len_def)
  have "refs_ok (w_msgs w) (queue_refs (refs_but g w a) q)" using old(3) q(3) by (simp add: queue_refs_def [abs_def])
  then have "members_ok g (set_queue a mb (w_msgs w) q w)" by (rule members_ok_set_queue [OF ok m q(1,2)])
  with that [of "set_queue a mb (w_msgs w) q w"] m ne show thesis
    by (simp add: Member_logout_begin_def with_member_def q_def set_queue_def)
qed

text \<open>
  (C15) Logging in, searching and logging out, on a map of keys of one length in which nobody is
  twice: \<open>Member_login\<close> with a key nobody has succeeds; \<open>Member_find\<close> then returns the new member
  under that key and under every other key of that length the member it returned before. When
  the two halves of \<open>Member_logout\<close> run with no other task in between, every search is again as
  it was before the login, and the same members are in the map and in the store. Queues and
  reference counts stay in order throughout.
\<close>

theorem Member_login_find_logout:
  assumes T: "mtree_ok T" and mc: "memcmp_ok mc" and members: "members_ok g w" and ok: "map_ok mc n w mmap"
    and once: "distinct (map (member_key w) mmap)" and k: "length k = n" "Some k \<notin> set (map (member_key w) mmap)"
    and fresh: "w_members w a = None" and peer: "peer \<noteq> None" and er: "\<not> w_errno w"
  shows "\<exists>mmap1 w1 w2 mmap2 w3.
    Member_login T mc junk w mmap a peer (Some k) = Some (Inr (Some a, mmap1, w1)) \<and> members_ok g w1 \<and>
    (\<forall>j. length j = n \<longrightarrow>
      Member_find T mc w1 mmap1 (Some j) = (if j = k then Inr (Some a) else Member_find T mc w mmap (Some j))) \<and>
    Member_logout_begin w1 mmap1 (Some a) = Inr w2 \<and>
    Member_logout_end T mc w2 mmap1 a = Some (Inr (mmap2, w3)) \<and> members_ok g w3 \<and>
    mset mmap2 = mset mmap \<and> w_members w3 = w_members w \<and>
    (\<forall>j. length j = n \<longrightarrow> Member_find T mc w3 mmap2 (Some j) = Member_find T mc w mmap (Some j))"
proof -
  obtain mmap1 w1 where 1: "Member_login T mc junk w mmap a peer (Some k) = Some (Inr (Some a, mmap1, w1))"
    "members_ok g w1" "map_ok mc n w1 mmap1" "mset mmap1 = add_mset a (mset mmap)"
    "member_key w1 a = Some k" "\<And>m. m \<noteq> a \<Longrightarrow> w_members w1 m = w_members w m"
    using Member_login_ok [OF T mc members ok k(1) fresh peer er, of junk] by metis
  have set1: "set mmap1 = insert a (set mmap)" using mset_eq_setD [of mmap1 "a # mmap"] 1(4) by simp
  have a: "m \<noteq> a" if "m \<in> set mmap" for m using map_ok_dom [OF ok that] fresh by auto
  have key: "member_key w1 m = member_key w m" if "m \<in> set mmap" for m
    using 1(6) a [OF that] by (simp add: member_key_def)
  have inj: "inj_on (member_key w) (set mmap)" using once by (simp add: distinct_map)
  have only: "m = a" if "m \<in> set mmap1" "member_key w1 m = Some k" for m
    using that set1 k(2) key by (auto simp: image_iff)
  have find1: "Member_find T mc w1 mmap1 (Some j) = (if j = k then Inr (Some a) else Member_find T mc w mmap (Some j))"
    if j: "length j = n" for j
  proof (cases "j = k")
    case True
    then show ?thesis using only set1 1(5) by (cases rule: Member_find_ok [OF T mc 1(3) k(1)]) auto
  next
    case False
    then have "m \<in> set mmap1 \<and> member_key w1 m = Some j \<longleftrightarrow> m \<in> set mmap \<and> member_key w m = Some j" for m
      using set1 key 1(5) a by auto
    with False show ?thesis using Member_find_same [OF T mc ok 1(3) j _ inj] by simp
  qed
  obtain mb where "w_members w1 a = Some mb" using 1(5) by (auto simp: member_key_def split: option.splits)
  then obtain w2 where 2: "Member_logout_begin w1 mmap1 (Some a) = Inr w2" "members_ok g w2"
    "w_members w2 = (w_members w1)(a \<mapsto> mb\<lparr> mb_queue := MsgQueue_mark_dead (mb_queue mb) \<rparr>)"
    using Member_logout_begin_ok [OF 1(2), of a mb mmap1] set1 by (metis insertI1 list.set_cases list.distinct(1))
  have key2: "member_key w2 m = member_key w1 m" for m using 2(3) \<open>w_members w1 a = Some mb\<close> by (simp add: member_key_def)
  have ok2: "map_ok mc n w2 mmap1" using 1(3) by (rule map_ok_cong) (simp add: key2)
  obtain ys r zs w3 where 3: "mmap1 = ys @ r # zs" "member_key w2 r = member_key w2 a"
    "Member_logout_end T mc w2 mmap1 a = Some (Inr (ys @ zs, w3))" "members_ok g w3" "map_ok mc n w2 (ys @ zs)"
    "w_members w3 = (w_members w2)(a := None)"
    using Member_logout_ok [OF T mc 2(2) ok2, of a] set1 by (metis insertI1)
  have "r = a" using only [of r] 3(1,2) 1(5) key2 by simp
  then have left: "mset (ys @ zs) = mset mmap" using 1(4) 3(1) by simp
  have store: "w_members w3 = w_members w" using 3(6) 2(3) 1(6) fresh by auto
  then have key3: "member_key w3 = member_key w" by (auto simp: member_key_def)
  have "member_key w3 m = member_key w2 m" if "m \<in> set (ys @ zs)" for m
    using that unfolding mset_eq_setD [OF left] by (simp add: key key2 key3)
  with 3(5) have "map_ok mc n w3 (ys @ zs)" by (rule map_ok_cong)
  then have "Member_find T mc w3 (ys @ zs) (Some j) = Member_find T mc w mmap (Some j)" if "length j = n" for j
    using that by (intro Member_find_same [OF T mc ok _ _ _ inj]) (unfold mset_eq_setD [OF left] key3, simp_all)
  then show ?thesis using 1(1,2) find1 2(1) 3(3,4) left store by blast
qed

lemma Member_login_find_logout_witness:
  "\<exists>(w :: mworld) mmap1 w1. Member_login list_tree memcmp_diff (\<lambda>_. None) w [4] 5 (Some 1) (Some ''kez'') =
      Some (Inr (Some 5, mmap1, w1)) \<and>
     Member_find list_tree memcmp_diff w1 mmap1 (Some ''kez'') = Inr (Some 5) \<and>
     Member_find list_tree memcmp_diff w1 mmap1 (Some ''key'') = Inr (Some 4)"
proof -
  obtain w :: mworld where w: "members_ok (\<lambda>_. 0) w" "map_ok memcmp_diff 3 w [4]"
    "member_key w 4 = Some ''key''" "w_members w 5 = None" "\<not> w_errno w" by (rule one_member)
  have "Member_find list_tree memcmp_diff w [4] (Some ''key'') = Inr (Some 4)"
    using w(3) by (cases rule: Member_find_ok [OF list_tree_ok memcmp_diff_ok w(2), of "''key''"]) auto
  moreover have "distinct (map (member_key w) [4])" "Some ''kez'' \<notin> set (map (member_key w) [4])" using w(3) by simp_all
  note Member_login_find_logout [OF list_tree_ok memcmp_diff_ok w(1,2) this(1) _ this(2) w(4) _ w(5), of "Some 1" "\<lambda>_. None"]
  ultimately show ?thesis by (intro exI [of _ w]) auto
qed

text \<open>
  (C27) \<open>Member_login\<close> does not keep a key from logging in twice, though its documentation says
  so: a second login with a key that is in the map succeeds. Then, whatever conforming tree is
  used, one of the two members can log out and still be in the map afterwards, although its
  storage was released: the map removes by key, the storage by pointer.
\<close>

theorem Member_second_login_dangles:
  assumes T: "mtree_ok T" and mc: "memcmp_ok mc" and members: "members_ok g w" and ok: "map_ok mc n w mmap"
    and x: "x \<in> set mmap" "member_key w x = Some k" "length k = n"
    and fresh: "w_members w a = None" and peer: "peer \<noteq> None" and er: "\<not> w_errno w"
  shows "\<exists>mmap1 w1. Member_login T mc junk w mmap a peer (Some k) = Some (Inr (Some a, mmap1, w1)) \<and>
    (\<exists>m \<in> {x, a}. \<exists>mmap2 w2. Member_logout_end T mc w1 mmap1 m = Some (Inr (mmap2, w2)) \<and>
      m \<in> set mmap2 \<and> w_members w2 m = None)"
proof -
  obtain mmap1 w1 where 1: "Member_login T mc junk w mmap a peer (Some k) = Some (Inr (Some a, mmap1, w1))"
    "members_ok g w1" "map_ok mc n w1 mmap1" "mset mmap1 = add_mset a (mset mmap)"
    "member_key w1 a = Some k" "\<And>m. m \<noteq> a \<Longrightarrow> w_members w1 m = w_members w m"
    using Member_login_ok [OF T mc members ok x(3) fresh peer er, of junk] by metis
  have set1: "set mmap1 = insert a (set mmap)" using mset_eq_setD [of mmap1 "a # mmap"] 1(4) by simp
  have ne: "x \<noteq> a" using map_ok_dom [OF ok x(1)] fresh by auto
  have key: "member_key w1 x = Some k" using 1(6) [OF ne] x(2) by (simp add: member_key_def)
  obtain ys r zs w2 where a: "mmap1 = ys @ r # zs" "Member_logout_end T mc w1 mmap1 a = Some (Inr (ys @ zs, w2))"
    "w_members w2 = (w_members w1)(a := None)" "t_delete T (key_probe mc w1 (member_key w1 a)) mmap1 = ys @ zs"
    using Member_logout_ok [OF T mc 1(2,3), of a] set1 by (metis insertI1)
  show ?thesis
  proof (cases "r = a")
    case False
    then have "a \<in> set (ys @ zs)" using a(1) set1 by (metis Un_iff insertI1 set_append set_ConsD)
    with a 1(1) show ?thesis by fastforce
  next
    case True
    obtain us s vs w3 where b: "Member_logout_end T mc w1 mmap1 x = Some (Inr (us @ vs, w3))"
      "w_members w3 = (w_members w1)(x := None)" "t_delete T (key_probe mc w1 (member_key w1 x)) mmap1 = us @ vs"
      using Member_logout_ok [OF T mc 1(2,3), of x] set1 x(1) by (metis insertI2)
    have "us @ vs = ys @ zs" using a(4) b(3) key 1(5) by simp
    moreover have "x \<in> set (ys @ zs)" using a(1) True ne set1 x(1) by auto
    ultimately show ?thesis using b 1(1) by fastforce
  qed
qed

lemma Member_second_login_dangles_witness:
  "\<exists>w :: mworld. w_members w 4 \<noteq> None \<and>
     (\<exists>mmap1 w1. Member_login list_tree memcmp_diff (\<lambda>_. None) w [4] 5 (Some 2) (Some ''key'') =
        Some (Inr (Some 5, mmap1, w1)) \<and>
      (\<exists>m \<in> {4, 5}. \<exists>mmap2 w2. Member_logout_end list_tree memcmp_diff w1 mmap1 m = Some (Inr (mmap2, w2)) \<and>
        m \<in> set mmap2 \<and> w_members w2 m = None))"
proof -
  obtain w :: mworld where w: "members_ok (\<lambda>_. 0) w" "map_ok memcmp_diff 3 w [4]"
    "member_key w 4 = Some ''key''" "w_members w 5 = None" "\<not> w_errno w" by (rule one_member)
  have "w_members w 4 \<noteq> None" using map_ok_dom [OF w(2)] by simp
  with Member_second_login_dangles [OF list_tree_ok memcmp_diff_ok w(1,2) _ w(3) _ w(4) _ w(5), of "Some 2" "\<lambda>_. None"]
  show ?thesis by auto
qed

lemma destroy_each_ok:
  assumes "members_ok g w" "distinct ms" "\<And>m. m \<in> set ms \<Longrightarrow> w_members w m \<noteq> None"
  shows "\<exists>w'. destroy_each ms w = Some (Inr w') \<and> members_ok g w' \<and> w_members w' = (w_members w) |` (- set ms)"
  using assms
proof (induction ms arbitrary: w)
  case (Cons m ms)
  obtain mb where "w_members w m = Some mb" using Cons.prems(3) [of m] by auto
  then obtain st' w1 where w1: "Member_destroy w m = Some (Inr w1)" "members_ok g w1"
    "w1 = w\<lparr> w_msgs := st', w_members := (w_members w)(m := None) \<rparr>"
    using Member_destroy_ok [OF Cons.prems(1)] by blast
  have "w_members w1 k \<noteq> None" if "k \<in> set ms" for k
    using that Cons.prems(2,3) by (auto simp: w1(3))
  then obtain w' where "destroy_each ms w1 = Some (Inr w')" "members_ok g w'"
    "w_members w' = (w_members w1) |` (- set ms)"
    using Cons.IH [OF w1(2)] Cons.prems(2) by auto
  then show ?case by (auto simp: w1 bind_opt_def restrict_map_def)
qed (simp add: restrict_map_def)

text \<open>
  (C28) \<open>Member_destroy_map\<close> on any non-empty map destroys every member and then frees the root
  of the map, which was one of them: a double release.
\<close>

theorem Member_destroy_map_double_free:
  assumes "mtree_ok T" "members_ok g w" "distinct mmap" "mmap \<noteq> []" "set mmap \<subseteq> dom (w_members w)"
  shows "Member_destroy_map T w mmap = Some (Inl Dangling)"
proof -
  obtain w' where w': "destroy_each mmap w = Some (Inr w')" "w_members w' = (w_members w) |` (- set mmap)"
    using destroy_each_ok [OF assms(2,3)] assms(5) by blast
  have "t_root T mmap \<in> set mmap" using assms(1,4) by (simp add: mtree_ok_def)
  with w' assms(4) show ?thesis by (simp add: Member_destroy_map_def bind_opt_def restrict_map_def)
qed

lemma Member_destroy_map_double_free_witness:
  "\<exists>w :: mworld. 4 \<in> dom (w_members w) \<and> Member_destroy_map list_tree w [4] = Some (Inl Dangling)"
proof -
  obtain w :: mworld where w: "members_ok (\<lambda>_. 0) w" "map_ok memcmp_diff 3 w [4]" by (rule one_member)
  then have "4 \<in> dom (w_members w)" using map_ok_dom [OF w(2), of 4] by auto
  with Member_destroy_map_double_free [OF list_tree_ok w(1), of "[4]"] show ?thesis by auto
qed

end
