(* ===== verification/Routing.thy ===== *)
theory Routing
  imports Member "HOL-Library.Sublist"
begin

text \<open>
  The routing tree of a hub (\<open>src/hub/routing.c\<close>): routes named by words, found by bisection
  among the children of a route, and the members registered at each route.

  Routes live in a store by allocation number. \<open>e_maddr\<close> and \<open>e_raddr\<close> give the addresses
  members and routes were allocated at, which the arrays of pointers compare; \<open>e_sort\<close> is the
  sorting macro of sglib along a comparison. The halloc calls only tie the storage of a route
  to its parent's, so that freeing the root frees the tree.
\<close>

section \<open>State\<close>

definition ROUTE_MAX_PATH :: nat where "ROUTE_MAX_PATH = 30"

record Route =
  rt_name :: bstring
  is_internal_callback :: bool
  rt_callback :: "nat option"
  rt_members :: "nat heap"
  rt_children :: "nat heap"

record rworld = mworld +
  w_routes :: "nat \<rightharpoonup> Route"
  w_next :: nat

record renv =
  e_sort :: "(nat \<Rightarrow> nat \<Rightarrow> int) \<Rightarrow> nat list \<Rightarrow> nat list"
  e_maddr :: "nat \<Rightarrow> 64 word"
  e_raddr :: "nat \<Rightarrow> 64 word"

definition route_name :: "'z rworld_scheme \<Rightarrow> nat \<Rightarrow> bstring" where
  "route_name w r = (case w_routes w r of None \<Rightarrow> None | Some rt \<Rightarrow> rt_name rt)"

definition with_route :: "'z rworld_scheme \<Rightarrow> nat \<Rightarrow> (Route \<Rightarrow> 'b res) \<Rightarrow> 'b res" where
  "with_route w r f = (case w_routes w r of None \<Rightarrow> Inl Dangling | Some rt \<Rightarrow> f rt)"

definition set_route :: "nat \<Rightarrow> Route \<Rightarrow> 'z rworld_scheme \<Rightarrow> 'z rworld_scheme" where
  "set_route r rt w = w\<lparr> w_routes := (w_routes w)(r \<mapsto> rt) \<rparr>"

section \<open>Operations\<close>

definition Route_children_compare :: "'z rworld_scheme \<Rightarrow> nat \<Rightarrow> nat \<Rightarrow> int" where
  "Route_children_compare w x y = bstrcmp (route_name w x) (route_name w y)"

text \<open>\<open>bfromcstr\<close> of a NULL pointer is NULL, which the assertion after it refuses.\<close>

definition Route_alloc ::
  "renv \<Rightarrow> 'z rworld_scheme \<Rightarrow> nat option \<Rightarrow> string option \<Rightarrow> (nat \<times> 'z rworld_scheme) res" where
  "Route_alloc E w parent name =
     (case name of
        None \<Rightarrow> Inl AssertFailed
      | Some s \<Rightarrow>
          let r = w_next w;
              rt = \<lparr> rt_name = Some (cstr s), is_internal_callback = False, rt_callback = None,
                     rt_members = Heap_create, rt_children = Heap_create \<rparr>;
              w1 = (set_route r rt w)\<lparr> w_next := r + 1 \<rparr>
          in case parent of
               None \<Rightarrow> Inr (r, w1)
             | Some p \<Rightarrow>
                 with_route w1 p (\<lambda>pr.
                   bind_res (Heap_add (e_sort E (Route_children_compare w1)) (rt_children pr) (Some r)) (\<lambda>(n, h).
                     Inr (r, set_route p (pr\<lparr> rt_children := h \<rparr>) w1))))"

definition Route_create_root :: "renv \<Rightarrow> 'z rworld_scheme \<Rightarrow> string option \<Rightarrow> (nat \<times> 'z rworld_scheme) res" where
  "Route_create_root E w name = Route_alloc E w None name"

definition Route_add_child :: "renv \<Rightarrow> 'z rworld_scheme \<Rightarrow> nat option \<Rightarrow> node \<Rightarrow> (nat \<times> 'z rworld_scheme) res" where
  "Route_add_child E w parent element = Route_alloc E w parent (nd_name element)"

definition Route_find_child :: "'z rworld_scheme \<Rightarrow> nat option \<Rightarrow> node option \<Rightarrow> nat option res" where
  "Route_find_child w parent element =
     (case (parent, element) of
        (Some p, Some el) \<Rightarrow>
          with_route w p (\<lambda>pr.
            bind_res (Heap_find (rt_children pr) (\<lambda>c. bstrcmp (route_name w c) (nd_name el))) (\<lambda>i.
              Inr (if Heap_valid (rt_children pr) i then h_members (rt_children pr) ! i else None)))
      | _ \<Rightarrow> Inr None)"

text \<open>\<open>path\<close> and \<open>remaining\<close> are the list of the nodes left; \<open>path[0]\<close> is NULL when it is empty.\<close>

fun Route_add :: "renv \<Rightarrow> 'z rworld_scheme \<Rightarrow> nat \<Rightarrow> node list \<Rightarrow> (nat option \<times> 'z rworld_scheme) res" where
  "Route_add E w parent [] = Inr (None, w)"
| "Route_add E w parent (element # path) =
     bind_res (Route_find_child w (Some parent) (Some element)) (\<lambda>f.
       bind_res (case f of
                   Some r \<Rightarrow> Inr (r, w)
                 | None \<Rightarrow> Route_add_child E w (Some parent) element) (\<lambda>(r, w).
         if path \<noteq> [] then Route_add E w r path else Inr (Some r, w)))"

text \<open>
  The log of a refused registration names the member through its peer; the peer is looked at, its
  connection state is not.
\<close>

definition Route_add_member :: "renv \<Rightarrow> 'z rworld_scheme \<Rightarrow> nat \<Rightarrow> nat \<Rightarrow> (bool \<times> 'z rworld_scheme) res" where
  "Route_add_member E w route member =
     with_route w route (\<lambda>rt.
       if is_internal_callback rt then
         with_member w (Some member) (\<lambda>m mb. if mb_peer mb = None then Inl NullDeref else Inr (False, w))
       else
         bind_res (Heap_add (e_sort E (ptr_cmp (e_maddr E))) (rt_members rt) (Some member)) (\<lambda>(n, hm).
           let w1 = set_route route (rt\<lparr> rt_members := hm \<rparr>) w
           in with_member w1 (Some member) (\<lambda>m mb.
                bind_res (Heap_add (e_sort E (ptr_cmp (e_raddr E))) (mb_routes mb) (Some route)) (\<lambda>(n, hr).
                  Inr (True, w1\<lparr> w_members := (w_members w1)(m \<mapsto> mb\<lparr> mb_routes := hr \<rparr>) \<rparr>)))))"

definition is_word :: "node \<Rightarrow> bool" where
  "is_word n \<longleftrightarrow> nd_type n = TYPE_GROUP \<and> nd_name n \<noteq> None \<and> bchar (nd_name n) 0 \<noteq> CHR ''@''"

text \<open>The path of \<open>Route_extend_and_find\<close>; \<open>None\<close> is the jump to \<open>_check_fail\<close>.\<close>

fun extend_path :: "bool \<Rightarrow> node list \<Rightarrow> node list \<Rightarrow> node list option" where
  "extend_path er path [] = Some path"
| "extend_path er path (n # ns) =
     (if \<not> length path < ROUTE_MAX_PATH \<or> er then None
      else extend_path er (if is_word n then path @ [n] else path) ns)"

definition Route_extend_and_find ::
  "renv \<Rightarrow> 'z rworld_scheme \<Rightarrow> nat option \<Rightarrow> node option \<Rightarrow> (nat option \<times> 'z rworld_scheme) res" where
  "Route_extend_and_find E w routes according_to =
     (case (routes, according_to) of
        (Some r, Some n) \<Rightarrow>
          (case extend_path (w_errno w) [n] (nd_child n) of
             None \<Rightarrow> Inr (None, w\<lparr> w_errno := False \<rparr>)
           | Some path \<Rightarrow> Route_add E w r path)
      | _ \<Rightarrow> Inl AssertFailed)"

definition Route_register ::
  "renv \<Rightarrow> 'z rworld_scheme \<Rightarrow> nat option \<Rightarrow> node option \<Rightarrow> nat \<Rightarrow> (bool \<times> 'z rworld_scheme) res" where
  "Route_register E w routes according_to member =
     bind_res (Route_extend_and_find E w routes according_to) (\<lambda>(point, w).
       case point of
         None \<Rightarrow> Inr (False, w\<lparr> w_errno := False \<rparr>)
       | Some p \<Rightarrow>
           if w_errno w then Inr (False, w\<lparr> w_errno := False \<rparr>)
           else
             bind_res (Route_add_member E w p member) (\<lambda>(rc, w).
               if rc then Inr (True, w) else Inr (False, w\<lparr> w_errno := False \<rparr>)))"

definition Route_register_callback ::
  "renv \<Rightarrow> 'z rworld_scheme \<Rightarrow> nat option \<Rightarrow> node option \<Rightarrow> nat \<Rightarrow> (bool \<times> 'z rworld_scheme) res" where
  "Route_register_callback E w routes according_to cb =
     bind_res (Route_extend_and_find E w routes according_to) (\<lambda>(point, w).
       case point of
         None \<Rightarrow> Inr (False, w\<lparr> w_errno := False \<rparr>)
       | Some p \<Rightarrow>
           if w_errno w then Inr (False, w\<lparr> w_errno := False \<rparr>)
           else with_route w p (\<lambda>rt.
                  Inr (True, set_route p (rt\<lparr> is_internal_callback := True, rt_callback := Some cb \<rparr>) w)))"

text \<open>The loop of \<open>Route_find\<close> over the children, with the count of those seen.\<close>

fun find_loop :: "'z rworld_scheme \<Rightarrow> nat \<Rightarrow> nat \<Rightarrow> node list \<Rightarrow> (nat option \<times> 'z rworld_scheme) res" where
  "find_loop w i r [] = Inr (Some r, w)"
| "find_loop w i r (n # ns) =
     (if \<not> i < ROUTE_MAX_PATH \<or> w_errno w then Inr (None, w\<lparr> w_errno := False \<rparr>)
      else
        bind_res (if is_word n then Route_find_child w (Some r) (Some n) else Inr (Some r)) (\<lambda>f.
          case f of None \<Rightarrow> Inr (None, w) | Some r \<Rightarrow> find_loop w (i + 1) r ns))"

definition Route_find :: "'z rworld_scheme \<Rightarrow> nat option \<Rightarrow> node option \<Rightarrow> (nat option \<times> 'z rworld_scheme) res" where
  "Route_find w parent according_to =
     bind_res (Route_find_child w parent according_to) (\<lambda>f.
       case (f, according_to) of
         (Some r, Some n) \<Rightarrow> find_loop w 0 r (nd_child n)
       | _ \<Rightarrow> Inr (None, w))"

definition heap_remove :: "renv \<Rightarrow> 'z rworld_scheme \<Rightarrow> nat \<Rightarrow> nat \<Rightarrow> 'z rworld_scheme res" where
  "heap_remove E w r member =
     with_route w r (\<lambda>rt.
       bind_res (Heap_delete (rt_members rt) (\<lambda>m. ptr_cmp (e_maddr E) m member)) (\<lambda>(rc, h).
         Inr (set_route r (rt\<lparr> rt_members := h \<rparr>) w)))"

definition Route_unregister ::
  "renv \<Rightarrow> 'z rworld_scheme \<Rightarrow> nat option \<Rightarrow> node option \<Rightarrow> nat \<Rightarrow> (bool \<times> 'z rworld_scheme) res" where
  "Route_unregister E w routes according_to member =
     (if routes = None \<or> according_to = None then Inl AssertFailed
      else
        bind_res (Route_find w routes according_to) (\<lambda>(f, w).
          case f of
            None \<Rightarrow> Inr (False, w)
          | Some r \<Rightarrow>
              bind_res (heap_remove E w r member) (\<lambda>w.
                with_member w (Some member) (\<lambda>m mb.
                  bind_res (Heap_delete (mb_routes mb) (\<lambda>x. ptr_cmp (e_raddr E) x r)) (\<lambda>(rc, h).
                    Inr (True, w\<lparr> w_members := (w_members w)(m \<mapsto> mb\<lparr> mb_routes := h \<rparr>) \<rparr>))))))"

primrec unregister_loop :: "renv \<Rightarrow> nat \<Rightarrow> nat list \<Rightarrow> 'z rworld_scheme \<Rightarrow> 'z rworld_scheme res" where
  "unregister_loop E member [] w = Inr w"
| "unregister_loop E member (r # rs) w = bind_res (heap_remove E w r member) (unregister_loop E member rs)"

definition Route_unregister_all :: "renv \<Rightarrow> 'z rworld_scheme \<Rightarrow> nat option \<Rightarrow> nat option \<Rightarrow> 'z rworld_scheme res" where
  "Route_unregister_all E w routes member =
     (if routes = None then Inl AssertFailed
      else with_member w member (\<lambda>m mb.
             bind_res (unregister_loop E m (HEAP_ITERATE (mb_routes mb)) w) (\<lambda>w.
               with_member w member (\<lambda>m mb.
                 Inr (w\<lparr> w_members := (w_members w)(m \<mapsto> mb\<lparr> mb_routes := Heap_clear (mb_routes mb) \<rparr>) \<rparr>)))))"

text \<open>Delivery: \<open>None\<close> is -1.\<close>

fun deliver_loop :: "nat option \<Rightarrow> nat list \<Rightarrow> nat \<Rightarrow> 'z mworld_scheme \<Rightarrow> (nat option \<times> 'z mworld_scheme) res" where
  "deliver_loop msg [] cnt w = Inr (Some cnt, w)"
| "deliver_loop msg (m # ms) cnt w =
     bind_res (Member_send_msg w (Some m) msg) (\<lambda>(rc, w).
       if \<not> rc \<or> w_errno w then Inr (None, w\<lparr> w_errno := False \<rparr>)
       else deliver_loop msg ms (cnt + 1) w)"

definition Route_deliver :: "'z rworld_scheme \<Rightarrow> nat option \<Rightarrow> nat option \<Rightarrow> (nat option \<times> 'z rworld_scheme) res" where
  "Route_deliver w route msg =
     (case route of
        None \<Rightarrow> Inl AssertFailed
      | Some r \<Rightarrow>
          if msg = None then Inl AssertFailed
          else with_route w r (\<lambda>rt. deliver_loop msg (HEAP_ITERATE (rt_members rt)) 0 w))"

text \<open>
  Destruction. The routes are visited as their storage still stands (\<open>h_free\<close> at the end frees
  all of it); a route met twice or not at all would be a use of released storage.
\<close>

partial_function (option) Route_destroy_children :: "'z rworld_scheme \<Rightarrow> nat list \<Rightarrow> nat list \<Rightarrow> nat list res option" where
  "Route_destroy_children w rs gone =
     (case rs of
        [] \<Rightarrow> Some (Inr gone)
      | r # rs \<Rightarrow>
          if r \<in> set gone then Some (Inl Dangling)
          else case w_routes w r of
                 None \<Rightarrow> Some (Inl Dangling)
               | Some rt \<Rightarrow>
                   Option.bind (Route_destroy_children w (HEAP_ITERATE (rt_children rt)) (r # gone))
                     (\<lambda>x. case x of Inl f \<Rightarrow> Some (Inl f) | Inr gone \<Rightarrow> Route_destroy_children w rs gone))"

declare Route_destroy_children.simps [code]

definition Route_destroy :: "'z rworld_scheme \<Rightarrow> nat \<Rightarrow> 'z rworld_scheme res option" where
  "Route_destroy w root =
     bind_opt (Route_destroy_children w [root] []) (\<lambda>gone.
       Some (Inr (w\<lparr> w_routes := (w_routes w) |` (- set gone) \<rparr>)))"

section \<open>The tree\<close>

definition name_ok :: "bstring \<Rightarrow> bool" where
  "name_ok b \<longleftrightarrow> (case b of None \<Rightarrow> False | Some s \<Rightarrow> NUL \<notin> set s)"

lemma name_okD: "name_ok b \<Longrightarrow> \<exists>s. b = Some s \<and> NUL \<notin> set s"
  by (auto simp: name_ok_def split: option.splits)

lemma bstrcmp_order: "heap_order bstrcmp_loop (\<lambda>s. NUL \<notin> set s)"
proof
  fix x y z
  show "bstrcmp_loop x x = 0" by simp
  show "bstrcmp_loop x y < 0 \<longleftrightarrow> 0 < bstrcmp_loop y x" by (rule bstrcmp_less_sym)
  show "bstrcmp_loop x z \<le> 0" if "NUL \<notin> set x" "NUL \<notin> set y" "NUL \<notin> set z"
    "bstrcmp_loop x y \<le> 0" "bstrcmp_loop y z \<le> 0"
    using that bstrcmp_zero_iff [of x y] bstrcmp_zero_iff [of y z] bstrcmp_less_trans [of x y z]
    by (cases "bstrcmp_loop x y = 0"; cases "bstrcmp_loop y z = 0") auto
qed

interpretation names: heap_order bstrcmp_loop "\<lambda>s. NUL \<notin> set s"
  by (rule bstrcmp_order)

definition children :: "'z rworld_scheme \<Rightarrow> nat \<Rightarrow> nat list" where
  "children w r = (case w_routes w r of None \<Rightarrow> [] | Some rt \<Rightarrow> HEAP_ITERATE (rt_children rt))"

definition tree_ok :: "'z rworld_scheme \<Rightarrow> nat \<Rightarrow> bool" where
  "tree_ok w root \<longleftrightarrow>
     root \<in> dom (w_routes w) \<and>
     (\<forall>r rt. w_routes w r = Some rt \<longrightarrow>
        r < w_next w \<and> name_ok (rt_name rt) \<and>
        sorted_heap (Route_children_compare w) (\<lambda>c. name_ok (route_name w c)) (rt_children rt) \<and>
        distinct (map (route_name w) (children w r)) \<and>
        (\<forall>c \<in> set (children w r). c \<in> dom (w_routes w) \<and> r < c \<and> c \<noteq> root)) \<and>
     (\<forall>r1 r2 c. c \<in> set (children w r1) \<and> c \<in> set (children w r2) \<longrightarrow> r1 = r2)"

lemma tree_okD:
  assumes "tree_ok w root" "w_routes w r = Some rt"
  shows "r < w_next w" "name_ok (rt_name rt)"
    "sorted_heap (Route_children_compare w) (\<lambda>c. name_ok (route_name w c)) (rt_children rt)"
    "distinct (map (route_name w) (children w r))" "children w r = HEAP_ITERATE (rt_children rt)"
    "c \<in> set (children w r) \<Longrightarrow> c \<in> dom (w_routes w) \<and> r < c \<and> c \<noteq> root"
proof -
  have "r < w_next w \<and> name_ok (rt_name rt) \<and>
      sorted_heap (Route_children_compare w) (\<lambda>c. name_ok (route_name w c)) (rt_children rt) \<and>
      distinct (map (route_name w) (children w r)) \<and>
      (\<forall>c \<in> set (children w r). c \<in> dom (w_routes w) \<and> r < c \<and> c \<noteq> root)"
    using assms unfolding tree_ok_def by blast
  then show "r < w_next w" "name_ok (rt_name rt)"
    "sorted_heap (Route_children_compare w) (\<lambda>c. name_ok (route_name w c)) (rt_children rt)"
    "distinct (map (route_name w) (children w r))"
    "c \<in> set (children w r) \<Longrightarrow> c \<in> dom (w_routes w) \<and> r < c \<and> c \<noteq> root"
    by blast+
  show "children w r = HEAP_ITERATE (rt_children rt)" using assms(2) by (simp add: children_def)
qed

lemma tree_ok_parent:
  "tree_ok w root \<Longrightarrow> c \<in> set (children w r1) \<Longrightarrow> c \<in> set (children w r2) \<Longrightarrow> r1 = r2"
  unfolding tree_ok_def by blast

lemma children_dom: "c \<in> set (children w r) \<Longrightarrow> \<exists>rt. w_routes w r = Some rt"
  by (cases "w_routes w r") (simp_all add: children_def)

lemma children_order: "heap_order (Route_children_compare w) (\<lambda>c. name_ok (route_name w c))"
proof
  fix x y z
  show "name_ok (route_name w x) \<Longrightarrow> Route_children_compare w x x = 0"
    by (auto simp: Route_children_compare_def dest!: name_okD)
  show "name_ok (route_name w x) \<Longrightarrow> name_ok (route_name w y) \<Longrightarrow>
      Route_children_compare w x y < 0 \<longleftrightarrow> 0 < Route_children_compare w y x"
    using names.cmp_sym by (auto simp: Route_children_compare_def dest!: name_okD)
  show "name_ok (route_name w x) \<Longrightarrow> name_ok (route_name w y) \<Longrightarrow> name_ok (route_name w z) \<Longrightarrow>
      Route_children_compare w x y \<le> 0 \<Longrightarrow> Route_children_compare w y z \<le> 0 \<Longrightarrow> Route_children_compare w x z \<le> 0"
    using names.cmp_trans [of "the (route_name w x)" "the (route_name w y)" "the (route_name w z)"]
    by (auto simp: Route_children_compare_def dest!: name_okD)
qed

text \<open>The child of a route with a name, and the route a list of names leads to.\<close>

definition child :: "'z rworld_scheme \<Rightarrow> nat \<Rightarrow> string \<Rightarrow> nat option" where
  "child w r s = find (\<lambda>c. route_name w c = Some s) (children w r)"

fun walk :: "'z rworld_scheme \<Rightarrow> nat \<Rightarrow> string list \<Rightarrow> nat option" where
  "walk w r [] = Some r"
| "walk w r (s # ss) = (case child w r s of None \<Rightarrow> None | Some c \<Rightarrow> walk w c ss)"

lemma child_Some: "child w r s = Some c \<Longrightarrow> c \<in> set (children w r) \<and> route_name w c = Some s"
  by (auto simp: child_def find_Some_iff)

lemma child_None: "child w r s = None \<longleftrightarrow> (\<forall>c \<in> set (children w r). route_name w c \<noteq> Some s)"
  by (auto simp: child_def find_None_iff)

lemma child_unique:
  assumes "distinct (map (route_name w) (children w r))" "c \<in> set (children w r)" "route_name w c = Some s"
  shows "child w r s = Some c"
proof -
  obtain d where "child w r s = Some d" using assms(2,3) child_None [of w r s] by auto
  moreover from child_Some [OF this] assms have "d = c"
    by (auto simp: distinct_map inj_on_def)
  ultimately show ?thesis by simp
qed

text \<open>Bisection over the children finds the child with the name of the element.\<close>

lemma name_probe_monotone:
  assumes h: "sorted_heap (Route_children_compare w) (\<lambda>c. name_ok (route_name w c)) h" and s: "NUL \<notin> set s"
  shows "monotone_probe (\<lambda>c. bstrcmp (route_name w c) (Some s)) (HEAP_ITERATE h)"
proof -
  have ok: "\<exists>t. route_name w c = Some t \<and> NUL \<notin> set t" if "c \<in> set (HEAP_ITERATE h)" for c
    using h that by (auto simp: sorted_heap_def list_all_iff dest!: name_okD bspec)
  have "sorted_wrt (\<lambda>x y. Route_children_compare w x y \<le> 0) (HEAP_ITERATE h)"
    using h by (simp add: sorted_heap_def)
  then show ?thesis
    unfolding monotone_probe_def
  proof (rule sorted_wrt_mono_rel [rotated])
    fix x y
    assume "x \<in> set (HEAP_ITERATE h)" "y \<in> set (HEAP_ITERATE h)" "Route_children_compare w x y \<le> 0"
    with ok [of x] ok [of y] names.probe_signs [of s] s
    show "(bstrcmp (route_name w y) (Some s) < 0 \<longrightarrow> bstrcmp (route_name w x) (Some s) < 0) \<and>
        (0 < bstrcmp (route_name w x) (Some s) \<longrightarrow> 0 < bstrcmp (route_name w y) (Some s))"
      by (fastforce simp: Route_children_compare_def)
  qed
qed

lemma Route_find_child_ok:
  assumes tree: "tree_ok w root" and p: "w_routes w p = Some pr" and el: "nd_name el = Some s" and s: "NUL \<notin> set s"
  shows "Route_find_child w (Some p) (Some el) = Inr (child w p s)"
proof -
  define h where "h = rt_children pr"
  define to where "to = (\<lambda>c. bstrcmp (route_name w c) (Some s))"
  note t = tree_okD [OF tree p]
  have ch: "children w p = HEAP_ITERATE h" using t(5) by (simp add: h_def)
  have sorted: "sorted_heap (Route_children_compare w) (\<lambda>c. name_ok (route_name w c)) h"
    using t(3) by (simp add: h_def)
  then have ok: "heap_ok h" by (simp add: sorted_heap_def)
  have zero: "to c = 0 \<longleftrightarrow> route_name w c = Some s" if "c \<in> set (HEAP_ITERATE h)" for c
    using sorted that bstrcmp_zero_iff [of _ s] s
    by (auto simp: sorted_heap_def list_all_iff to_def dest!: name_okD bspec)
  obtain i where i: "i \<le> h_last h" "Heap_find h to = Inr i" "i < h_last h \<longrightarrow> to (HEAP_ITERATE h ! i) = 0"
    using Heap_find_ok [OF ok, of to] by blast
  have eq: "Route_find_child w (Some p) (Some el) =
      Inr (if i < h_last h then h_members h ! i else None)"
    using p i(2) el by (simp add: Route_find_child_def with_route_def Heap_valid_def h_def [symmetric] to_def)
  show ?thesis
  proof (cases "i < h_last h")
    case True
    then have mem: "HEAP_ITERATE h ! i \<in> set (HEAP_ITERATE h)" using length_iterate [OF ok] by simp
    with True i(3) zero have "route_name w (HEAP_ITERATE h ! i) = Some s" by blast
    with mem t(4) have "child w p s = Some (HEAP_ITERATE h ! i)"
      by (intro child_unique) (simp_all add: ch)
    with True show ?thesis by (simp add: eq members_nth [OF ok])
  next
    case False
    with i have "Heap_find h to = Inr (h_last h)" by simp
    moreover have "monotone_probe to (HEAP_ITERATE h)"
      unfolding to_def by (rule name_probe_monotone [OF sorted s])
    ultimately have "\<forall>c \<in> set (HEAP_ITERATE h). to c \<noteq> 0"
      using Heap_find_complete [OF ok] by blast
    then have "child w p s = None" using zero by (simp add: child_None ch)
    with False show ?thesis by (simp add: eq)
  qed
qed

section \<open>Growing the tree\<close>

definition sglib_sort :: "((nat \<Rightarrow> nat \<Rightarrow> int) \<Rightarrow> nat list \<Rightarrow> nat list) \<Rightarrow> bool" where
  "sglib_sort srt \<longleftrightarrow> (\<forall>cmp valid. heap_order cmp valid \<longrightarrow> sort_ok cmp valid (srt cmp))"

lemma sglib_sort_isort: "sglib_sort isort_cmp"
  by (simp add: sglib_sort_def heap_order.isort_cmp_ok)

lemma sorted_heap_cong:
  assumes "sorted_heap cmp valid h" "\<And>x. x \<in> set (HEAP_ITERATE h) \<Longrightarrow> valid' x = valid x"
    "\<And>x y. x \<in> set (HEAP_ITERATE h) \<Longrightarrow> y \<in> set (HEAP_ITERATE h) \<Longrightarrow> cmp' x y = cmp x y"
  shows "sorted_heap cmp' valid' h"
proof -
  have "sorted_wrt (\<lambda>x y. cmp x y \<le> 0) (HEAP_ITERATE h)" using assms(1) by (simp add: sorted_heap_def)
  then have "sorted_wrt (\<lambda>x y. cmp' x y \<le> 0) (HEAP_ITERATE h)"
    by (rule sorted_wrt_mono_rel [rotated]) (simp add: assms(3))
  with assms(1,2) show ?thesis by (simp add: sorted_heap_def list_all_iff)
qed

text \<open>What a new child changes: nothing but the children of its parent and the new route.\<close>

definition grown :: "'z rworld_scheme \<Rightarrow> nat \<Rightarrow> string \<Rightarrow> nat \<Rightarrow> 'z rworld_scheme \<Rightarrow> bool" where
  "grown w p s c w' \<longleftrightarrow>
     c = w_next w \<and> w_next w' = Suc c \<and> w_members w' = w_members w \<and> w_msgs w' = w_msgs w \<and> w_errno w' = w_errno w \<and>
     dom (w_routes w') = insert c (dom (w_routes w)) \<and> route_name w' c = Some s \<and> children w' c = [] \<and>
     (\<forall>r \<in> dom (w_routes w). route_name w' r = route_name w r) \<and>
     mset (children w' p) = add_mset c (mset (children w p)) \<and>
     (\<forall>r. r \<noteq> p \<and> r \<noteq> c \<longrightarrow> w_routes w' r = w_routes w r) \<and>
     (\<exists>pr h. w_routes w p = Some pr \<and> w_routes w' p = Some (pr\<lparr> rt_children := h \<rparr>)) \<and>
     (\<exists>rt. w_routes w' c = Some rt \<and> rt_members rt = Heap_create \<and> \<not> is_internal_callback rt)"

lemma Route_alloc_child:
  assumes tree: "tree_ok w root" and p: "w_routes w p = Some pr" and s: "NUL \<notin> set s"
    and srt: "sglib_sort (e_sort E)"
  obtains w' where "Route_alloc E w (Some p) (Some s) = Inr (w_next w, w')" "grown w p s (w_next w) w'"
    "\<And>r rt. w_routes w' r = Some rt \<Longrightarrow>
      sorted_heap (Route_children_compare w') (\<lambda>c. name_ok (route_name w' c)) (rt_children rt)"
proof -
  define c where "c = w_next w"
  define rt where "rt = \<lparr> rt_name = Some s, is_internal_callback = False, rt_callback = None,
    rt_members = Heap_create, rt_children = (Heap_create :: nat heap) \<rparr>"
  define w1 where "w1 = (set_route c rt w)\<lparr> w_next := c + 1 \<rparr>"
  have fresh: "w_routes w c = None"
    using tree_okD(1) [OF tree, of c] by (cases "w_routes w c") (auto simp: c_def)
  have name1: "route_name w1 r = (if r = c then Some s else route_name w r)" for r
    by (simp add: w1_def set_route_def route_name_def rt_def)
  have pc: "p \<noteq> c" using p fresh by auto
  have p1: "w_routes w1 p = Some pr" using p pc by (simp add: w1_def set_route_def)
  have old: "x \<noteq> c" if "x \<in> set (HEAP_ITERATE (rt_children qr))" "w_routes w q = Some qr" for x q qr
    using tree_okD(5,6) [OF tree that(2)] that(1) fresh by auto
  have heap1: "sorted_heap (Route_children_compare w1) (\<lambda>c. name_ok (route_name w1 c)) (rt_children qr)"
    if "w_routes w q = Some qr" for q qr
    by (rule sorted_heap_cong [OF tree_okD(3) [OF tree that]])
      (use old [OF _ that] in \<open>auto simp: name1 Route_children_compare_def\<close>)
  have valid: "name_ok (route_name w1 c)" using s by (simp add: name1 name_ok_def)
  have "sort_ok (Route_children_compare w1) (\<lambda>c. name_ok (route_name w1 c)) (e_sort E (Route_children_compare w1))"
    using srt children_order unfolding sglib_sort_def by blast
  from heap_order.add_sorted [OF children_order heap1 [OF p] valid this]
  obtain h where h: "Heap_add (e_sort E (Route_children_compare w1)) (rt_children pr) (Some c) = Inr (Suc (h_last (rt_children pr)), h)"
    "sorted_heap (Route_children_compare w1) (\<lambda>c. name_ok (route_name w1 c)) h"
    "mset (HEAP_ITERATE h) = add_mset c (mset (HEAP_ITERATE (rt_children pr)))" by blast
  define w' where "w' = set_route p (pr\<lparr> rt_children := h \<rparr>) w1"
  have name': "route_name w' = route_name w1"
    using p1 by (intro ext) (simp add: w'_def set_route_def route_name_def)
  then have cmp': "Route_children_compare w' = Route_children_compare w1"
    by (intro ext) (simp add: Route_children_compare_def)
  have "Route_alloc E w (Some p) (Some s) = Inr (c, w')"
    unfolding Route_alloc_def Let_def option.case cstr_id [OF s] rt_def [symmetric] c_def [symmetric] w1_def [symmetric]
    using p1 h(1) by (simp add: with_route_def w'_def)
  moreover have "grown w p s c w'"
    unfolding grown_def
  proof (intro conjI)
    show "mset (children w' p) = add_mset c (mset (children w p))"
      using h(3) p by (simp add: children_def w'_def set_route_def)
    show "route_name w' c = Some s" by (simp add: name' name1)
    show "\<forall>r \<in> dom (w_routes w). route_name w' r = route_name w r"
      using fresh by (auto simp: name' name1)
    show "children w' c = []" using pc by (simp add: children_def w'_def w1_def set_route_def rt_def)
  qed (use pc p in \<open>auto simp: c_def w'_def w1_def set_route_def name' name1 rt_def fresh [unfolded c_def]\<close>)
  moreover have "sorted_heap (Route_children_compare w') (\<lambda>c. name_ok (route_name w' c)) (rt_children qr)"
    if "w_routes w' q = Some qr" for q qr
    using that h(2) heap1 [of q qr] sorted_heap_create [of "Route_children_compare w1"]
    unfolding name' cmp' by (auto simp: w'_def w1_def set_route_def rt_def split: if_splits)
  ultimately show thesis using that by (simp add: c_def)
qed

lemma grown_children:
  assumes g: "grown w p s c w'" and tree: "tree_ok w root" and r: "w_routes w r \<noteq> None"
  shows "set (children w' r) = (if r = p then insert c (set (children w r)) else set (children w r))"
    "x \<in> set (children w r) \<Longrightarrow> route_name w' x = route_name w x \<and> x \<noteq> c"
proof -
  have c: "w_routes w c = None"
    using g tree_okD(1) [OF tree, of c] by (cases "w_routes w c") (auto simp: grown_def)
  have same: "r \<noteq> p \<Longrightarrow> w_routes w' r = w_routes w r" using g r c by (auto simp: grown_def)
  show "set (children w' r) = (if r = p then insert c (set (children w r)) else set (children w r))"
    using g same mset_eq_setD [of "children w' p" "c # children w p"] by (auto simp: grown_def children_def)
  show "route_name w' x = route_name w x \<and> x \<noteq> c" if "x \<in> set (children w r)"
  proof -
    obtain rt where "w_routes w r = Some rt" using r by auto
    from tree_okD(6) [OF tree this that] have "x \<in> dom (w_routes w)" by simp
    with g c show ?thesis by (auto simp: grown_def)
  qed
qed

lemma grown_tree:
  assumes g: "grown w p s c w'" and tree: "tree_ok w root" and p: "w_routes w p = Some pr"
    and s: "NUL \<notin> set s" and new: "child w p s = None"
    and heaps: "\<And>r rt. w_routes w' r = Some rt \<Longrightarrow>
      sorted_heap (Route_children_compare w') (\<lambda>c. name_ok (route_name w' c)) (rt_children rt)"
  shows "tree_ok w' root"
proof -
  have c: "w_routes w c = None" "c = w_next w" "w_next w' = Suc c" "children w' c = []" "route_name w' c = Some s"
    "dom (w_routes w') = insert c (dom (w_routes w))"
    using g tree_okD(1) [OF tree, of c] by (cases "w_routes w c"; auto simp: grown_def)+
  note ch = grown_children [OF g tree]
  have root: "root \<in> dom (w_routes w)" using tree by (simp add: tree_ok_def)
  have distinct: "distinct (map (route_name w') (children w' r))" if r: "w_routes w r = Some rt" for r rt
  proof -
    have old: "distinct (map (route_name w') (children w r))"
      using tree_okD(4) [OF tree r] ch(2) [of r] r by (simp cong: map_cong)
    show ?thesis
    proof (cases "r = p")
      case False
      then have "children w' r = children w r" using g r c(1) by (auto simp: grown_def children_def)
      with old show ?thesis by simp
    next
      case True
      have "mset (map (route_name w') (children w' p)) = mset (map (route_name w') (c # children w p))"
        using g by (simp add: grown_def)
      moreover have "Some s \<notin> set (map (route_name w') (children w p))"
        using new ch(2) [of p] p by (auto simp: child_None)
      then have "distinct (map (route_name w') (c # children w p))" using old True c(5) by simp
      ultimately show ?thesis using True mset_eq_imp_distinct_iff by blast
    qed
  qed
  show ?thesis
    unfolding tree_ok_def
  proof (intro conjI allI impI)
    show "root \<in> dom (w_routes w')" using root c(6) by simp
  next
    fix r rt
    assume r: "w_routes w' r = Some rt"
    show "sorted_heap (Route_children_compare w') (\<lambda>c. name_ok (route_name w' c)) (rt_children rt)"
      by (rule heaps [OF r])
    have cases: "r = c \<or> (\<exists>rt0. w_routes w r = Some rt0)" using r c(6) by blast
    show "r < w_next w'" using cases tree_okD(1) [OF tree, of r] c(2,3) by auto
    have "name_ok (route_name w' r)"
      using cases
    proof
      assume "\<exists>rt0. w_routes w r = Some rt0"
      then obtain rt0 where rt0: "w_routes w r = Some rt0" by blast
      then have "route_name w' r = route_name w r" using g by (auto simp: grown_def)
      then show ?thesis using tree_okD(2) [OF tree rt0] rt0 by (simp add: route_name_def)
    qed (use s c(5) in \<open>simp add: name_ok_def\<close>)
    then show "name_ok (rt_name rt)" using r by (simp add: route_name_def)
    show "distinct (map (route_name w') (children w' r))" using cases distinct c(4) by auto
    show "\<forall>x \<in> set (children w' r). x \<in> dom (w_routes w') \<and> r < x \<and> x \<noteq> root"
    proof
      fix x assume x: "x \<in> set (children w' r)"
      then obtain rt0 where rt0: "w_routes w r = Some rt0" using cases c(4) by auto
      have "x \<in> set (children w r) \<or> x = c" using x ch(1) [of r] rt0 by (auto split: if_splits)
      then show "x \<in> dom (w_routes w') \<and> r < x \<and> x \<noteq> root"
        using tree_okD(6) [OF tree rt0, of x] tree_okD(1) [OF tree rt0] c root by auto
    qed
  next
    fix r1 r2 x
    assume x: "x \<in> set (children w' r1) \<and> x \<in> set (children w' r2)"
    have dom: "w_routes w r \<noteq> None" if "x \<in> set (children w' r)" for r
      using that c(4,6) by (cases "r = c") (auto simp: children_def split: option.splits)
    have one: "if x = c then r = p else x \<in> set (children w r)" if "x \<in> set (children w' r)" for r
      using that ch(1) [OF dom [OF that]] ch(2) [OF dom [OF that], of x] by (auto split: if_splits)
    show "r1 = r2"
      using one [of r1] one [of r2] x tree_ok_parent [OF tree, of x r1 r2] by (cases "x = c") auto
  qed
qed

lemma grown_child:
  assumes g: "grown w p s c w'" and tree: "tree_ok w root" and tree': "tree_ok w' root" and p: "w_routes w p = Some pr"
    and r: "w_routes w r \<noteq> None"
  shows "child w' r t = (if r = p \<and> t = s then Some c else child w r t)"
proof -
  obtain rt where rt: "w_routes w r = Some rt" using r by auto
  note ch = grown_children [OF g tree r]
  have "w_routes w' r \<noteq> None" using g r by (auto simp: grown_def)
  then obtain rt' where "w_routes w' r = Some rt'" by auto
  note d' = tree_okD(4) [OF tree' this]
  have c: "route_name w' c = Some s" using g unfolding grown_def by blast
  show ?thesis
  proof (cases "r = p \<and> t = s")
    case True
    then show ?thesis using d' ch(1) c by (auto intro!: child_unique)
  next
    case False
    show ?thesis
    proof (cases "child w r t")
      case None
      then have "\<forall>x \<in> set (children w' r). route_name w' x \<noteq> Some t"
        using False ch c by (auto simp: child_None split: if_splits)
      then have "child w' r t = None" by (simp add: child_None)
      with None False show ?thesis by auto
    next
      case (Some x)
      from child_Some [OF this] have "x \<in> set (children w' r)" "route_name w' x = Some t"
        using ch by (auto split: if_splits)
      with Some False show ?thesis by (auto intro!: child_unique [OF d'])
    qed
  qed
qed

lemma child_dom: "tree_ok w root \<Longrightarrow> child w r t = Some x \<Longrightarrow> w_routes w x \<noteq> None"
proof -
  assume tree: "tree_ok w root" and x: "child w r t = Some x"
  from child_Some [OF x] have mem: "x \<in> set (children w r)" by simp
  then obtain rt where rt: "w_routes w r = Some rt" using children_dom by blast
  from tree_okD(6) [OF tree rt mem] show "w_routes w x \<noteq> None" by auto
qed

lemma walk_dom: "tree_ok w root \<Longrightarrow> w_routes w r \<noteq> None \<Longrightarrow> walk w r ns = Some y \<Longrightarrow> w_routes w y \<noteq> None"
proof (induction ns arbitrary: r)
  case (Cons t ns)
  then obtain x where "child w r t = Some x" "walk w x ns = Some y" by (auto split: option.splits)
  with Cons.IH [of x] Cons.prems(1) child_dom [of w root r t x] show ?case by blast
qed simp

lemma walk_append: "walk w r (ms @ ns) = (case walk w r ms of None \<Rightarrow> None | Some x \<Rightarrow> walk w x ns)"
  by (induction ms arbitrary: r) (auto split: option.splits)

lemma walk_snoc: "walk w r (ns @ [t]) = Some y \<longleftrightarrow> (\<exists>x. walk w r ns = Some x \<and> child w x t = Some y)"
  by (auto simp: walk_append split: option.splits)

lemma child_not_root: "tree_ok w root \<Longrightarrow> child w x t \<noteq> Some root"
proof
  assume tree: "tree_ok w root" and x: "child w x t = Some root"
  from child_Some [OF x] have mem: "root \<in> set (children w x)" by simp
  then obtain rt where rt: "w_routes w x = Some rt" using children_dom by blast
  from tree_okD(6) [OF tree rt mem] show False by simp
qed

text \<open>A route is reached in one way only.\<close>

lemma walk_unique:
  assumes tree: "tree_ok w root"
  shows "walk w root ms = Some y \<Longrightarrow> walk w root ns = Some y \<Longrightarrow> ms = ns"
proof (induction ms arbitrary: y ns rule: rev_induct)
  case Nil
  then have "y = root" by simp
  with Nil.prems(2) child_not_root [OF tree] show ?case
    by (cases ns rule: rev_cases) (simp_all add: walk_snoc)
next
  case (snoc t ms)
  obtain x where x: "walk w root ms = Some x" "child w x t = Some y" using snoc.prems(1) by (auto simp: walk_snoc)
  then have "ns \<noteq> []" using snoc.prems(2) child_not_root [OF tree] by auto
  then obtain us u where ns: "ns = us @ [u]" by (cases ns rule: rev_cases) auto
  obtain z where z: "walk w root us = Some z" "child w z u = Some y" using snoc.prems(2) by (auto simp: ns walk_snoc)
  have "x = z" "t = u"
    using child_Some [OF x(2)] child_Some [OF z(2)] tree_ok_parent [OF tree, of y x z] by auto
  with snoc.IH x z ns show ?case by blast
qed

definition route_paths :: "'z rworld_scheme \<Rightarrow> nat \<Rightarrow> string list set" where
  "route_paths w root = {ns. walk w root ns \<noteq> None}"

lemma walk_grown:
  assumes g: "grown w p s c w'" and tree: "tree_ok w root" and tree': "tree_ok w' root" and p: "w_routes w p = Some pr"
    and new: "child w p s = None"
  shows "w_routes w r \<noteq> None \<Longrightarrow> walk w r ns = Some y \<Longrightarrow> walk w' r ns = Some y"
proof (induction ns arbitrary: r)
  case (Cons t ns)
  then obtain x where x: "child w r t = Some x" "walk w x ns = Some y" by (auto split: option.splits)
  then have "child w' r t = Some x" using grown_child [OF g tree tree' p Cons.prems(1)] new by auto
  with Cons.IH [OF child_dom [OF tree x(1)] x(2)] show ?case by simp
qed simp

lemma walk_grown_new:
  assumes g: "grown w p s c w'" and tree: "tree_ok w root" and tree': "tree_ok w' root" and p: "w_routes w p = Some pr"
  shows "w_routes w r \<noteq> None \<Longrightarrow> walk w' r ns = Some y \<Longrightarrow>
    walk w r ns = Some y \<or> (\<exists>q. ns = q @ [s] \<and> walk w r q = Some p)"
proof (induction ns arbitrary: r)
  case (Cons t ns)
  note step = grown_child [OF g tree tree' p Cons.prems(1), of t]
  have "children w' c = []" using g unfolding grown_def by blast
  then have c: "walk w' c ns = (if ns = [] then Some c else None)"
    by (cases ns) (simp_all add: child_def)
  show ?case
  proof (cases "r = p \<and> t = s")
    case True
    with Cons.prems(2) c step have "ns = []" by (simp split: if_splits)
    with True show ?thesis by simp
  next
    case False
    then obtain x where x: "child w r t = Some x" "walk w' x ns = Some y"
      using Cons.prems(2) step by (auto split: option.splits)
    from Cons.IH [OF child_dom [OF tree x(1)] x(2)] show ?thesis
    proof
      assume "\<exists>q. ns = q @ [s] \<and> walk w x q = Some p"
      then obtain q where "ns = q @ [s]" "walk w x q = Some p" by blast
      with x(1) show ?thesis by (intro disjI2 exI [of _ "t # q"]) simp
    qed (use x in simp)
  qed
qed simp

text \<open>
  Extending the tree keeps every route with its name, members and callback, and adds routes
  without members.
\<close>

definition extends :: "'z rworld_scheme \<Rightarrow> 'z rworld_scheme \<Rightarrow> bool" where
  "extends w w' \<longleftrightarrow>
     w_members w' = w_members w \<and> w_msgs w' = w_msgs w \<and> w_errno w' = w_errno w \<and>
     (\<forall>r rt. w_routes w r = Some rt \<longrightarrow> (\<exists>h. w_routes w' r = Some (rt\<lparr> rt_children := h \<rparr>))) \<and>
     (\<forall>r rt. w_routes w r = None \<and> w_routes w' r = Some rt \<longrightarrow>
        rt_members rt = Heap_create \<and> \<not> is_internal_callback rt)"

lemma extendsD:
  "extends w w' \<Longrightarrow> w_routes w r = Some rt \<Longrightarrow> \<exists>h. w_routes w' r = Some (rt\<lparr> rt_children := h \<rparr>)"
  by (simp add: extends_def)

lemma extends_refl: "extends w w"
proof -
  have "\<exists>h. rt = rt\<lparr> rt_children := h \<rparr>" for rt :: Route by (rule exI [of _ "rt_children rt"]) simp
  then show ?thesis by (auto simp: extends_def)
qed

lemma extends_trans:
  assumes "extends w w1" "extends w1 w2"
  shows "extends w w2"
  unfolding extends_def
proof (intro conjI allI impI)
  fix r rt
  assume "w_routes w r = Some rt"
  then obtain h where "w_routes w1 r = Some (rt\<lparr> rt_children := h \<rparr>)" using assms(1) unfolding extends_def by blast
  then obtain h' where "w_routes w2 r = Some (rt\<lparr> rt_children := h \<rparr>\<lparr> rt_children := h' \<rparr>)"
    using assms(2) unfolding extends_def by blast
  then show "\<exists>h. w_routes w2 r = Some (rt\<lparr> rt_children := h \<rparr>)" by auto
next
  fix r rt
  assume r: "w_routes w r = None \<and> w_routes w2 r = Some rt"
  show "rt_members rt = Heap_create" "\<not> is_internal_callback rt"
  proof -
    have "rt_members rt = Heap_create \<and> \<not> is_internal_callback rt"
    proof (cases "w_routes w1 r")
      case None
      with r assms(2) show ?thesis unfolding extends_def by blast
    next
      case (Some rt1)
      then obtain h where "w_routes w2 r = Some (rt1\<lparr> rt_children := h \<rparr>)"
        using assms(2) unfolding extends_def by blast
      moreover have "rt_members rt1 = Heap_create \<and> \<not> is_internal_callback rt1"
        using r Some assms(1) unfolding extends_def by blast
      ultimately show ?thesis using r by simp
    qed
    then show "rt_members rt = Heap_create" "\<not> is_internal_callback rt" by auto
  qed
qed (use assms in \<open>simp_all add: extends_def\<close>)

lemma grown_extends:
  assumes "grown w p s c w'" "w_routes w c = None"
  shows "extends w w'"
proof -
  have g: "w_members w' = w_members w" "w_msgs w' = w_msgs w" "w_errno w' = w_errno w"
    "dom (w_routes w') = insert c (dom (w_routes w))"
    using assms(1) unfolding grown_def by simp_all
  have other: "w_routes w' r = w_routes w r" if "r \<noteq> p" "r \<noteq> c" for r
    using assms(1) that unfolding grown_def by simp
  have "\<exists>pr h. w_routes w p = Some pr \<and> w_routes w' p = Some (pr\<lparr> rt_children := h \<rparr>)"
    using assms(1) unfolding grown_def by (elim conjE)
  then obtain pr h where p: "w_routes w p = Some pr" "w_routes w' p = Some (pr\<lparr> rt_children := h \<rparr>)" by blast
  have "\<exists>rt. w_routes w' c = Some rt \<and> rt_members rt = Heap_create \<and> \<not> is_internal_callback rt"
    using assms(1) unfolding grown_def by (elim conjE)
  then obtain rt where c: "w_routes w' c = Some rt" "rt_members rt = Heap_create" "\<not> is_internal_callback rt" by blast
  have old: "\<exists>h. w_routes w' r = Some (qr\<lparr> rt_children := h \<rparr>)" if "w_routes w r = Some qr" for r qr
  proof (cases "r = p")
    case True
    with p that show ?thesis by auto
  next
    case False
    moreover have "r \<noteq> c" using that assms(2) by auto
    ultimately have "w_routes w' r = Some qr" using other that by simp
    then show ?thesis by (intro exI [of _ "rt_children qr"]) simp
  qed
  have new: "rt_members qr = Heap_create \<and> \<not> is_internal_callback qr"
    if "w_routes w r = None \<and> w_routes w' r = Some qr" for r qr
  proof -
    have "r = c" using that g(4) by blast
    with that c show ?thesis by simp
  qed
  show ?thesis unfolding extends_def using g old new by simp
qed

definition element_ok :: "node \<Rightarrow> bool" where
  "element_ok n \<longleftrightarrow> name_ok (nd_name n)"

definition path_names :: "node list \<Rightarrow> string list" where
  "path_names ns = map (\<lambda>n. the (nd_name n)) ns"

text \<open>
  \<open>Route_add\<close> leads to the route of the path and adds exactly the prefixes of the path that
  were missing.
\<close>

lemma Route_add_step:
  assumes tree: "tree_ok w root" and srt: "sglib_sort (e_sort E)" and p: "walk w root q = Some p"
    and el: "nd_name el = Some s" "NUL \<notin> set s"
  obtains r w' where "Route_add E w p (el # path) = (if path \<noteq> [] then Route_add E w' r path else Inr (Some r, w'))"
    "tree_ok w' root" "walk w' root (q @ [s]) = Some r" "extends w w'"
    "route_paths w' root = route_paths w root \<union> {q @ [s]}"
    "\<forall>ns y. walk w root ns = Some y \<longrightarrow> walk w' root ns = Some y" "w_next w' \<le> Suc (w_next w)"
    "walk w root (q @ [s]) = None \<longrightarrow> w_routes w r = None"
proof -
  have root: "w_routes w root \<noteq> None" using tree by (auto simp: tree_ok_def)
  obtain pr where pr: "w_routes w p = Some pr" using walk_dom [OF tree root p] by auto
  note find = Route_find_child_ok [OF tree pr el]
  show thesis
  proof (cases "child w p s")
    case (Some r)
    then have "walk w root (q @ [s]) = Some r" using p by (simp add: walk_append)
    moreover have "Route_add E w p (el # path) = (if path \<noteq> [] then Route_add E w r path else Inr (Some r, w))"
      using find Some by simp
    ultimately show thesis using that [of w r] tree extends_refl by (auto simp: route_paths_def)
  next
    case None
    obtain w' where w': "Route_alloc E w (Some p) (Some s) = Inr (w_next w, w')" "grown w p s (w_next w) w'"
      "\<And>r rt. w_routes w' r = Some rt \<Longrightarrow>
        sorted_heap (Route_children_compare w') (\<lambda>c. name_ok (route_name w' c)) (rt_children rt)"
      using Route_alloc_child [OF tree pr el(2) srt] by blast
    define c where "c = w_next w"
    have g: "grown w p s c w'" using w'(2) by (simp add: c_def)
    have tree': "tree_ok w' root" by (rule grown_tree [OF g tree pr el(2) None w'(3)])
    have fresh: "w_routes w c = None"
      using tree_okD(1) [OF tree, of c] by (cases "w_routes w c") (auto simp: c_def)
    have mono: "walk w' root ns = Some y" if "walk w root ns = Some y" for ns y
      using walk_grown [OF g tree tree' pr None root that] .
    have "child w' p s = Some c" using grown_child [OF g tree tree' pr] pr by simp
    then have here: "walk w' root (q @ [s]) = Some c" using mono [OF p] by (simp add: walk_append)
    have "route_paths w' root = route_paths w root \<union> {q @ [s]}"
    proof (intro equalityI subsetI)
      fix ns assume "ns \<in> route_paths w' root"
      then obtain y where "walk w' root ns = Some y" by (auto simp: route_paths_def)
      from walk_grown_new [OF g tree tree' pr root this]
      show "ns \<in> route_paths w root \<union> {q @ [s]}"
        using walk_unique [OF tree p] by (auto simp: route_paths_def)
    next
      fix ns assume "ns \<in> route_paths w root \<union> {q @ [s]}"
      then show "ns \<in> route_paths w' root" using mono here by (auto simp: route_paths_def)
    qed
    moreover have "Route_add E w p (el # path) = (if path \<noteq> [] then Route_add E w' c path else Inr (Some c, w'))"
      using find None w'(1) el(1) by (simp add: Route_add_child_def c_def)
    moreover have "w_next w' \<le> Suc (w_next w)" using g by (simp add: grown_def)
    ultimately show thesis using that [of w' c] tree' here grown_extends [OF g fresh] mono fresh by blast
  qed
qed

lemma Route_add_ok:
  assumes "tree_ok w root" "sglib_sort (e_sort E)" "walk w root q = Some p" "path \<noteq> []" "list_all element_ok path"
  shows "\<exists>r w'. Route_add E w p path = Inr (Some r, w') \<and> tree_ok w' root \<and>
    walk w' root (q @ path_names path) = Some r \<and> extends w w' \<and>
    route_paths w' root = route_paths w root \<union> {q @ us | us. us \<noteq> [] \<and> prefix us (path_names path)} \<and>
    (\<forall>ns y. walk w root ns = Some y \<longrightarrow> walk w' root ns = Some y) \<and> w_next w' \<le> w_next w + length path \<and>
    (walk w root (q @ path_names path) = None \<longrightarrow> w_routes w r = None)"
  using assms
proof (induction path arbitrary: w p q)
  case (Cons el path)
  obtain s where s: "nd_name el = Some s" "NUL \<notin> set s"
    using Cons.prems(5) by (auto simp: element_ok_def dest: name_okD)
  obtain r w1 where 1: "Route_add E w p (el # path) = (if path \<noteq> [] then Route_add E w1 r path else Inr (Some r, w1))"
    "tree_ok w1 root" "walk w1 root (q @ [s]) = Some r" "extends w w1"
    "route_paths w1 root = route_paths w root \<union> {q @ [s]}"
    "\<forall>ns y. walk w root ns = Some y \<longrightarrow> walk w1 root ns = Some y" "w_next w1 \<le> Suc (w_next w)"
    "walk w root (q @ [s]) = None \<longrightarrow> w_routes w r = None"
    by (rule Route_add_step [OF Cons.prems(1-3) s, of path])
  have names: "path_names (el # path) = s # path_names path" using s by (simp add: path_names_def)
  show ?case
  proof (cases "path = []")
    case True
    have "{q @ us | us. us \<noteq> [] \<and> prefix us [s]} = {q @ [s]}"
      by (auto simp: prefix_Cons)
    with 1 True names show ?thesis by (intro exI [of _ r] exI [of _ w1]) (simp add: path_names_def)
  next
    case False
    have "list_all element_ok path" using Cons.prems(5) by simp
    from Cons.IH [OF 1(2) Cons.prems(2) 1(3) False this]
    obtain r2 w2 where 2: "Route_add E w1 r path = Inr (Some r2, w2)" "tree_ok w2 root"
      "walk w2 root ((q @ [s]) @ path_names path) = Some r2" "extends w1 w2"
      "route_paths w2 root = route_paths w1 root \<union> {(q @ [s]) @ us | us. us \<noteq> [] \<and> prefix us (path_names path)}"
      "\<forall>ns y. walk w1 root ns = Some y \<longrightarrow> walk w2 root ns = Some y" "w_next w2 \<le> w_next w1 + length path"
      "walk w1 root ((q @ [s]) @ path_names path) = None \<longrightarrow> w_routes w1 r2 = None"
      by (elim exE conjE)
    have "w_routes w r2 = None" if "walk w root (q @ s # path_names path) = None"
    proof -
      have "path_names path \<noteq> []" using False by (simp add: path_names_def)
      with that 1(5) have "q @ s # path_names path \<notin> route_paths w1 root" by (simp add: route_paths_def)
      then have "w_routes w1 r2 = None" using 2(8) by (simp add: route_paths_def)
      with extendsD [OF 1(4), of r2] show ?thesis by (cases "w_routes w r2") auto
    qed
    note fresh = this
    have "{q @ us | us. us \<noteq> [] \<and> prefix us (s # path_names path)} =
        {q @ [s]} \<union> {(q @ [s]) @ us | us. us \<noteq> [] \<and> prefix us (path_names path)}"
      by (auto simp: prefix_Cons)
    with 1 2 names False extends_trans [OF 1(4) 2(4)] fresh show ?thesis
      by (intro exI [of _ r2] exI [of _ w2]) auto
  qed
qed simp

section \<open>Paths of a document\<close>

definition route_names :: "node \<Rightarrow> string list" where
  "route_names n = path_names (n # filter is_word (nd_child n))"

definition routable :: "node \<Rightarrow> bool" where
  "routable n \<longleftrightarrow> element_ok n \<and> list_all (\<lambda>c. is_word c \<longrightarrow> element_ok c) (nd_child n)"

lemma extend_path_ok:
  "length path + length ns \<le> ROUTE_MAX_PATH \<Longrightarrow> extend_path False path ns = Some (path @ filter is_word ns)"
  by (induction ns arbitrary: path) auto

lemma find_loop_walk:
  assumes tree: "tree_ok w root" and er: "\<not> w_errno w"
  shows "i + length ns \<le> ROUTE_MAX_PATH \<Longrightarrow> list_all (\<lambda>c. is_word c \<longrightarrow> element_ok c) ns \<Longrightarrow> w_routes w r \<noteq> None \<Longrightarrow>
    find_loop w i r ns = Inr (walk w r (path_names (filter is_word ns)), w)"
proof (induction ns arbitrary: i r)
  case (Cons n ns)
  obtain rt where rt: "w_routes w r = Some rt" using Cons.prems(3) by auto
  show ?case
  proof (cases "is_word n")
    case True
    then obtain s where s: "nd_name n = Some s" "NUL \<notin> set s"
      using Cons.prems(2) by (auto simp: element_ok_def dest: name_okD)
    show ?thesis
      using Cons.prems Cons.IH [of "i + 1"] True er s Route_find_child_ok [OF tree rt s] child_dom [OF tree, of r s]
      by (auto simp: path_names_def split: option.split)
  qed (use Cons er in \<open>simp add: path_names_def\<close>)
qed (simp add: path_names_def)

lemma Route_find_walk:
  assumes tree: "tree_ok w root" and er: "\<not> w_errno w" and n: "routable n" "length (nd_child n) \<le> ROUTE_MAX_PATH"
  shows "Route_find w (Some root) (Some n) = Inr (walk w root (route_names n), w)"
proof -
  obtain rt where rt: "w_routes w root = Some rt" using tree by (auto simp: tree_ok_def)
  obtain s where s: "nd_name n = Some s" "NUL \<notin> set s"
    using n(1) by (auto simp: routable_def element_ok_def dest: name_okD)
  show ?thesis
    using Route_find_child_ok [OF tree rt s] child_dom [OF tree, of root s] find_loop_walk [OF tree er, of 0 "nd_child n"] n s
    by (auto simp: Route_find_def route_names_def path_names_def routable_def split: option.split)
qed

end
