(* ===== verification/Registration.thy ===== *)
theory Registration
  imports Routing
begin

text \<open>
  Members at routes: that a registration is kept on both sides, what registering, finding,
  unregistering and delivering do, and where the two ways to read a path disagree.
\<close>

section \<open>Changing members leaves the tree alone\<close>

definition same_tree :: "'z rworld_scheme \<Rightarrow> 'z rworld_scheme \<Rightarrow> bool" where
  "same_tree w w' \<longleftrightarrow> w_next w' = w_next w \<and>
     (\<forall>r. map_option (\<lambda>rt. (rt_name rt, rt_children rt)) (w_routes w' r) =
          map_option (\<lambda>rt. (rt_name rt, rt_children rt)) (w_routes w r))"

lemma same_tree_refl: "same_tree w w"
  by (simp add: same_tree_def)

lemma same_tree_trans: "same_tree w w1 \<Longrightarrow> same_tree w1 w2 \<Longrightarrow> same_tree w w2"
  by (simp add: same_tree_def)

lemma same_tree_route:
  assumes "same_tree w w'" "w_routes w' r = Some rt'"
  obtains rt where "w_routes w r = Some rt" "rt_name rt = rt_name rt'" "rt_children rt = rt_children rt'"
proof -
  have "map_option (\<lambda>rt. (rt_name rt, rt_children rt)) (w_routes w r) = Some (rt_name rt', rt_children rt')"
    using assms(1) assms(2) [symmetric] unfolding same_tree_def by (metis (no_types, lifting) option.map(2))
  with that show thesis by auto
qed

lemma same_tree_facts:
  assumes "same_tree w w'"
  shows "route_name w' = route_name w" "children w' = children w" "dom (w_routes w') = dom (w_routes w)"
    "Route_children_compare w' = Route_children_compare w" "walk w' = walk w" "w_next w' = w_next w"
proof -
  have eq: "map_option (\<lambda>rt. (rt_name rt, rt_children rt)) (w_routes w' r) =
      map_option (\<lambda>rt. (rt_name rt, rt_children rt)) (w_routes w r)" for r
    using assms by (simp add: same_tree_def)
  show nm: "route_name w' = route_name w"
  proof
    fix r show "route_name w' r = route_name w r"
      using eq [of r] by (cases "w_routes w r"; cases "w_routes w' r") (simp_all add: route_name_def)
  qed
  show ch: "children w' = children w"
  proof
    fix r show "children w' r = children w r"
      using eq [of r] by (cases "w_routes w r"; cases "w_routes w' r") (simp_all add: children_def)
  qed
  have "w_routes w' r = None \<longleftrightarrow> w_routes w r = None" for r
    using eq [of r] by (cases "w_routes w r"; cases "w_routes w' r") simp_all
  then show "dom (w_routes w') = dom (w_routes w)" by (simp add: dom_def)
  show "Route_children_compare w' = Route_children_compare w"
    by (intro ext) (simp add: Route_children_compare_def nm)
  have "child w' = child w" by (intro ext) (simp add: child_def nm ch)
  then show "walk w' = walk w"
  proof (intro ext)
    fix r ns assume c: "child w' = child w"
    show "walk w' r ns = walk w r ns"
      by (induction ns arbitrary: r) (simp_all add: c split: option.split)
  qed
  show "w_next w' = w_next w" using assms by (simp add: same_tree_def)
qed

lemma same_tree_ok:
  assumes same: "same_tree w w'" and tree: "tree_ok w root"
  shows "tree_ok w' root"
proof -
  note f = same_tree_facts [OF same]
  have "root \<in> dom (w_routes w')" using tree f(3) by (simp add: tree_ok_def)
  moreover have "r < w_next w' \<and> name_ok (rt_name rt') \<and>
      sorted_heap (Route_children_compare w') (\<lambda>c. name_ok (route_name w' c)) (rt_children rt') \<and>
      distinct (map (route_name w') (children w' r)) \<and>
      (\<forall>c \<in> set (children w' r). c \<in> dom (w_routes w') \<and> r < c \<and> c \<noteq> root)"
    if r': "w_routes w' r = Some rt'" for r rt'
  proof -
    obtain rt where rt: "w_routes w r = Some rt" "rt_name rt = rt_name rt'" "rt_children rt = rt_children rt'"
      by (rule same_tree_route [OF same r'])
    from tree_okD [OF tree rt(1)] show ?thesis unfolding f rt(2,3) [symmetric] by blast
  qed
  moreover have "r1 = r2" if "c \<in> set (children w' r1) \<and> c \<in> set (children w' r2)" for r1 r2 c
    using that tree_ok_parent [OF tree, of c r1 r2] by (simp add: f)
  ultimately show ?thesis unfolding tree_ok_def by blast
qed

lemma same_tree_set_route:
  assumes "w_routes w r = Some rt" "rt_name rt' = rt_name rt" "rt_children rt' = rt_children rt"
  shows "same_tree w (set_route r rt' w)"
  using assms by (simp add: same_tree_def set_route_def)

lemma same_tree_members: "same_tree w (w\<lparr> w_members := ms \<rparr>)" "same_tree w (w\<lparr> w_errno := e \<rparr>)"
  by (simp_all add: same_tree_def)

section \<open>Registrations\<close>

text \<open>
  The addresses: distinct live objects have distinct addresses in one window each. \<open>lim\<close> bounds
  the allocation numbers of the routes.
\<close>

definition addrs_ok :: "renv \<Rightarrow> 64 word \<Rightarrow> 64 word \<Rightarrow> nat \<Rightarrow> bool" where
  "addrs_ok E mb rb lim \<longleftrightarrow>
     inj_on (e_maddr E) {m. ptr_window mb (e_maddr E m)} \<and> inj_on (e_raddr E) {r. ptr_window rb (e_raddr E r)} \<and>
     (\<forall>r < lim. ptr_window rb (e_raddr E r)) \<and> sglib_sort (e_sort E)"

definition route_members :: "'z rworld_scheme \<Rightarrow> nat \<Rightarrow> nat multiset" where
  "route_members w r = (case w_routes w r of None \<Rightarrow> {#} | Some rt \<Rightarrow> mset (HEAP_ITERATE (rt_members rt)))"

definition member_routes :: "'z rworld_scheme \<Rightarrow> nat \<Rightarrow> nat multiset" where
  "member_routes w m = (case w_members w m of None \<Rightarrow> {#} | Some mb \<Rightarrow> mset (HEAP_ITERATE (mb_routes mb)))"

definition reg_ok :: "renv \<Rightarrow> 64 word \<Rightarrow> 64 word \<Rightarrow> 'z rworld_scheme \<Rightarrow> bool" where
  "reg_ok E mb rb w \<longleftrightarrow>
     (\<forall>r rt. w_routes w r = Some rt \<longrightarrow> ptr_heap (e_maddr E) mb (rt_members rt)) \<and>
     (\<forall>m b. w_members w m = Some b \<longrightarrow> ptr_window mb (e_maddr E m) \<and> ptr_heap (e_raddr E) rb (mb_routes b)) \<and>
     (\<forall>r m. count (route_members w r) m = count (member_routes w m) r)"

text \<open>So a member is at a route exactly as often as the route is at the member.\<close>

lemma reg_okD:
  assumes "reg_ok E mb rb w"
  shows "w_routes w r = Some rt \<Longrightarrow> ptr_heap (e_maddr E) mb (rt_members rt)"
    "w_members w m = Some b \<Longrightarrow> ptr_window mb (e_maddr E m) \<and> ptr_heap (e_raddr E) rb (mb_routes b)"
    "count (route_members w r) m = count (member_routes w m) r"
  using assms by (simp_all add: reg_ok_def)

lemma reg_ok_extends:
  assumes reg: "reg_ok E mb rb w" and ex: "extends w w'"
  shows "reg_ok E mb rb w'" "route_members w' = route_members w" "member_routes w' = member_routes w"
proof -
  have mem: "w_members w' = w_members w" using ex by (simp add: extends_def)
  have old: "\<exists>h. w_routes w' r = Some (rt\<lparr> rt_children := h \<rparr>)" if "w_routes w r = Some rt" for r rt
    using ex that by (simp add: extends_def)
  have new: "rt_members rt = Heap_create" if "w_routes w r = None" "w_routes w' r = Some rt" for r rt
    using ex that by (simp add: extends_def)
  show rm: "route_members w' = route_members w"
  proof
    fix r show "route_members w' r = route_members w r"
    proof (cases "w_routes w r")
      case None
      then show ?thesis using new [of r] by (cases "w_routes w' r") (simp_all add: route_members_def)
    next
      case (Some rt)
      with old [OF Some] show ?thesis by (auto simp: route_members_def)
    qed
  qed
  show mr: "member_routes w' = member_routes w" by (intro ext) (simp add: member_routes_def mem)
  have "ptr_heap (e_maddr E) mb (rt_members rt')" if "w_routes w' r = Some rt'" for r rt'
  proof (cases "w_routes w r")
    case None
    with new that show ?thesis by (simp add: ptr_heap_create)
  next
    case (Some rt)
    with old [OF Some] that reg_okD(1) [OF reg Some] show ?thesis by auto
  qed
  then show "reg_ok E mb rb w'" using reg by (simp add: reg_ok_def rm mr mem)
qed

lemma ptr_sort_ok:
  "addrs_ok E mb rb lim \<Longrightarrow> sort_ok (ptr_cmp addr) (\<lambda>x. ptr_window base (addr x)) (e_sort E (ptr_cmp addr))"
  using ptr.heap_order_axioms unfolding addrs_ok_def sglib_sort_def by blast

text \<open>\<open>Route_add_member\<close> puts the member at the route and the route at the member.\<close>

lemma Route_add_member_ok:
  assumes reg: "reg_ok E mb rb w" and adr: "addrs_ok E mb rb lim" and r: "w_routes w r = Some rt" "r < lim"
    and m: "w_members w m = Some b" and public: "\<not> is_internal_callback rt"
  obtains w' where "Route_add_member E w r m = Inr (True, w')" "reg_ok E mb rb w'" "same_tree w w'"
    "route_members w' = (route_members w)(r := add_mset m (route_members w r))"
    "member_routes w' = (member_routes w)(m := add_mset r (member_routes w m))"
    "w_msgs w' = w_msgs w" "w_errno w' = w_errno w" "dom (w_members w') = dom (w_members w)"
    "\<And>x y. w_members w' x = Some y \<Longrightarrow> \<exists>y0. w_members w x = Some y0 \<and> mb_queue y = mb_queue y0"
proof -
  have win: "ptr_window mb (e_maddr E m)" "ptr_heap (e_raddr E) rb (mb_routes b)"
    using reg_okD(2) [OF reg m] by auto
  have rwin: "ptr_window rb (e_raddr E r)" using adr r(2) by (simp add: addrs_ok_def)
  obtain hm where hm: "Heap_add (e_sort E (ptr_cmp (e_maddr E))) (rt_members rt) (Some m) = Inr (Suc (h_last (rt_members rt)), hm)"
    "ptr_heap (e_maddr E) mb hm" "mset (HEAP_ITERATE hm) = add_mset m (mset (HEAP_ITERATE (rt_members rt)))"
    using ptr_heap_add [OF reg_okD(1) [OF reg r(1)] win(1) ptr_sort_ok [OF adr]] by blast
  obtain hr where hr: "Heap_add (e_sort E (ptr_cmp (e_raddr E))) (mb_routes b) (Some r) = Inr (Suc (h_last (mb_routes b)), hr)"
    "ptr_heap (e_raddr E) rb hr" "mset (HEAP_ITERATE hr) = add_mset r (mset (HEAP_ITERATE (mb_routes b)))"
    using ptr_heap_add [OF win(2) rwin ptr_sort_ok [OF adr]] by blast
  define w1 where "w1 = set_route r (rt\<lparr> rt_members := hm \<rparr>) w"
  define w' where "w' = w1\<lparr> w_members := (w_members w1)(m \<mapsto> b\<lparr> mb_routes := hr \<rparr>) \<rparr>"
  have w1: "w_members w1 = w_members w" by (simp add: w1_def set_route_def)
  have add: "Route_add_member E w r m = Inr (True, w')"
    unfolding Route_add_member_def with_route_def r(1) option.case
    using public hm(1) hr(1) m w1 by (simp add: Let_def w1_def [symmetric] with_member_def w'_def)
  have routes': "w_routes w' = (w_routes w)(r \<mapsto> rt\<lparr> rt_members := hm \<rparr>)"
    "w_members w' = (w_members w)(m \<mapsto> b\<lparr> mb_routes := hr \<rparr>)"
    by (simp_all add: w'_def w1_def set_route_def)
  have same: "same_tree w w'"
    using r(1) by (simp add: same_tree_def routes' w'_def w1_def set_route_def)
  have rm: "route_members w' = (route_members w)(r := add_mset m (route_members w r))"
    using r(1) hm(3) by (intro ext) (simp add: route_members_def routes')
  have mr: "member_routes w' = (member_routes w)(m := add_mset r (member_routes w m))"
    using m hr(3) by (intro ext) (simp add: member_routes_def routes')
  have "count (route_members w' x) y = count (member_routes w' y) x" for x y
    using reg_okD(3) [OF reg, of x y] by (auto simp: rm mr)
  then have "reg_ok E mb rb w'"
    using reg hm(2) hr(2) win(1) unfolding reg_ok_def routes' by simp
  with add same rm mr m show thesis
    by (intro that [of w']) (auto simp: routes' w'_def w1_def set_route_def split: if_splits)
qed

text \<open>Taking a member off a route, on the side of the route.\<close>

lemma heap_remove_ok:
  assumes heap: "ptr_heap (e_maddr E) mb (rt_members rt)" and adr: "addrs_ok E mb rb lim"
    and r: "w_routes w r = Some rt" and win: "ptr_window mb (e_maddr E m)"
  obtains h where "heap_remove E w r m = Inr (set_route r (rt\<lparr> rt_members := h \<rparr>) w)" "ptr_heap (e_maddr E) mb h"
    "route_members (set_route r (rt\<lparr> rt_members := h \<rparr>) w) = (route_members w)(r := route_members w r - {#m#})"
proof -
  have inj: "inj_on (e_maddr E) {m. ptr_window mb (e_maddr E m)}" using adr by (simp add: addrs_ok_def)
  obtain h where h: "Heap_delete (rt_members rt) (\<lambda>y. ptr_cmp (e_maddr E) y m) = Inr (m \<in> set (HEAP_ITERATE (rt_members rt)), h)"
    "ptr_heap (e_maddr E) mb h" "mset (HEAP_ITERATE h) = mset (HEAP_ITERATE (rt_members rt)) - {#m#}"
    by (rule ptr_heap_delete [OF inj heap win])
  have "route_members (set_route r (rt\<lparr> rt_members := h \<rparr>) w) = (route_members w)(r := route_members w r - {#m#})"
    using r h(3) by (intro ext) (simp add: route_members_def set_route_def)
  with h r show thesis by (intro that [of h]) (simp_all add: heap_remove_def with_route_def)
qed

lemma Route_unregister_at:
  assumes reg: "reg_ok E mb rb w" and adr: "addrs_ok E mb rb lim" and r: "w_routes w r = Some rt" "r < lim"
    and m: "w_members w m = Some b" and find: "Route_find w (Some root) (Some n) = Inr (Some r, w)"
  obtains w' where "Route_unregister E w (Some root) (Some n) m = Inr (True, w')" "reg_ok E mb rb w'" "same_tree w w'"
    "route_members w' = (route_members w)(r := route_members w r - {#m#})"
    "member_routes w' = (member_routes w)(m := member_routes w m - {#r#})"
proof -
  have win: "ptr_window mb (e_maddr E m)" "ptr_heap (e_raddr E) rb (mb_routes b)"
    using reg_okD(2) [OF reg m] by auto
  have rwin: "ptr_window rb (e_raddr E r)" "inj_on (e_raddr E) {r. ptr_window rb (e_raddr E r)}"
    using adr r(2) by (simp_all add: addrs_ok_def)
  obtain h where h: "heap_remove E w r m = Inr (set_route r (rt\<lparr> rt_members := h \<rparr>) w)" "ptr_heap (e_maddr E) mb h"
    "route_members (set_route r (rt\<lparr> rt_members := h \<rparr>) w) = (route_members w)(r := route_members w r - {#m#})"
    by (rule heap_remove_ok [OF reg_okD(1) [OF reg r(1)] adr r(1) win(1)])
  obtain hr where hr: "Heap_delete (mb_routes b) (\<lambda>y. ptr_cmp (e_raddr E) y r) = Inr (r \<in> set (HEAP_ITERATE (mb_routes b)), hr)"
    "ptr_heap (e_raddr E) rb hr" "mset (HEAP_ITERATE hr) = mset (HEAP_ITERATE (mb_routes b)) - {#r#}"
    by (rule ptr_heap_delete [OF rwin(2) win(2) rwin(1)])
  define w1 where "w1 = set_route r (rt\<lparr> rt_members := h \<rparr>) w"
  define w' where "w' = w1\<lparr> w_members := (w_members w1)(m \<mapsto> b\<lparr> mb_routes := hr \<rparr>) \<rparr>"
  have w1: "w_members w1 = w_members w" by (simp add: w1_def set_route_def)
  have un: "Route_unregister E w (Some root) (Some n) m = Inr (True, w')"
    using find h(1) hr(1) m w1 by (simp add: Route_unregister_def w1_def [symmetric] with_member_def w'_def)
  have routes': "w_routes w' = (w_routes w)(r \<mapsto> rt\<lparr> rt_members := h \<rparr>)"
    "w_members w' = (w_members w)(m \<mapsto> b\<lparr> mb_routes := hr \<rparr>)"
    by (simp_all add: w'_def w1_def set_route_def)
  have same: "same_tree w w'"
    using r(1) by (simp add: same_tree_def routes' w'_def w1_def set_route_def)
  have "route_members w' = route_members w1" by (intro ext) (simp add: route_members_def w'_def)
  then have rm: "route_members w' = (route_members w)(r := route_members w r - {#m#})"
    using h(3) by (simp add: w1_def)
  have mr: "member_routes w' = (member_routes w)(m := member_routes w m - {#r#})"
    using m hr(3) by (intro ext) (simp add: member_routes_def routes')
  have "count (route_members w' x) y = count (member_routes w' y) x" for x y
    using reg_okD(3) [OF reg, of x y] by (auto simp: rm mr)
  then have "reg_ok E mb rb w'"
    using reg h(2) hr(2) win(1) unfolding reg_ok_def routes' by simp
  with un same rm mr show thesis by (intro that [of w']) simp_all
qed

lemma unregister_loop_ok:
  assumes adr: "addrs_ok E mb rb lim" and win: "ptr_window mb (e_maddr E m)"
  shows "(\<And>r rt. w_routes w r = Some rt \<Longrightarrow> ptr_heap (e_maddr E) mb (rt_members rt)) \<Longrightarrow>
    set rs \<subseteq> dom (w_routes w) \<Longrightarrow>
    \<exists>w'. unregister_loop E m rs w = Inr w' \<and> same_tree w w' \<and> w_members w' = w_members w \<and>
      w_msgs w' = w_msgs w \<and> w_errno w' = w_errno w \<and>
      (\<forall>r rt. w_routes w' r = Some rt \<longrightarrow> ptr_heap (e_maddr E) mb (rt_members rt)) \<and>
      (\<forall>r. route_members w' r = route_members w r - replicate_mset (count_list rs r) m)"
proof (induction rs arbitrary: w)
  case Nil
  then show ?case by (simp add: same_tree_refl)
next
  case (Cons r rs)
  obtain rt where rt: "w_routes w r = Some rt" using Cons.prems(2) by auto
  obtain h where h: "heap_remove E w r m = Inr (set_route r (rt\<lparr> rt_members := h \<rparr>) w)" "ptr_heap (e_maddr E) mb h"
    "route_members (set_route r (rt\<lparr> rt_members := h \<rparr>) w) = (route_members w)(r := route_members w r - {#m#})"
    by (rule heap_remove_ok [OF Cons.prems(1) [OF rt] adr rt win])
  define w1 where "w1 = set_route r (rt\<lparr> rt_members := h \<rparr>) w"
  have w1: "w_routes w1 = (w_routes w)(r \<mapsto> rt\<lparr> rt_members := h \<rparr>)" "w_members w1 = w_members w"
    "w_msgs w1 = w_msgs w" "w_errno w1 = w_errno w" "w_next w1 = w_next w"
    by (simp_all add: w1_def set_route_def)
  have "ptr_heap (e_maddr E) mb (rt_members qt)" if "w_routes w1 q = Some qt" for q qt
    using that h(2) Cons.prems(1) by (auto simp: w1 split: if_splits)
  moreover have "set rs \<subseteq> dom (w_routes w1)" using Cons.prems(2) by (auto simp: w1)
  ultimately obtain w2 where w2: "unregister_loop E m rs w1 = Inr w2" "same_tree w1 w2" "w_members w2 = w_members w1"
      "w_msgs w2 = w_msgs w1" "w_errno w2 = w_errno w1"
      "\<forall>r rt. w_routes w2 r = Some rt \<longrightarrow> ptr_heap (e_maddr E) mb (rt_members rt)"
      "\<forall>r. route_members w2 r = route_members w1 r - replicate_mset (count_list rs r) m"
    using Cons.IH [of w1] by blast
  have "same_tree w w1" using rt by (simp add: same_tree_def w1)
  moreover have "route_members w2 x = route_members w x - replicate_mset (count_list (r # rs) x) m" for x
    using w2(7) h(3) by (auto simp: w1_def [symmetric] diff_diff_add)
  ultimately show ?case
    using w2 h(1) w1 same_tree_trans [of w w1 w2] by (intro exI [of _ w2]) (simp add: w1_def [symmetric])
qed

lemma Route_unregister_all_ok:
  assumes reg: "reg_ok E mb rb w" and adr: "addrs_ok E mb rb lim" and m: "w_members w m = Some b"
  obtains w' where "Route_unregister_all E w (Some root) (Some m) = Inr w'" "reg_ok E mb rb w'" "same_tree w w'"
    "route_members w' = (\<lambda>r. filter_mset (\<lambda>x. x \<noteq> m) (route_members w r))"
    "member_routes w' = (member_routes w)(m := {#})"
    "w_members w' = (w_members w)(m \<mapsto> b\<lparr> mb_routes := Heap_clear (mb_routes b) \<rparr>)"
    "w_msgs w' = w_msgs w" "w_errno w' = w_errno w"
proof -
  define rs where "rs = HEAP_ITERATE (mb_routes b)"
  have mr: "member_routes w m = mset rs" using m by (simp add: member_routes_def rs_def)
  have win: "ptr_window mb (e_maddr E m)" "ptr_heap (e_raddr E) rb (mb_routes b)"
    using reg_okD(2) [OF reg m] by auto
  have dom: "set rs \<subseteq> dom (w_routes w)"
  proof
    fix r assume "r \<in> set rs"
    then have "0 < count (route_members w r) m" using reg_okD(3) [OF reg, of r m] by (simp add: mr)
    then show "r \<in> dom (w_routes w)" by (cases "w_routes w r") (auto simp: route_members_def)
  qed
  obtain w1 where w1: "unregister_loop E m rs w = Inr w1" "same_tree w w1" "w_members w1 = w_members w"
      "w_msgs w1 = w_msgs w" "w_errno w1 = w_errno w"
      "\<forall>r rt. w_routes w1 r = Some rt \<longrightarrow> ptr_heap (e_maddr E) mb (rt_members rt)"
      "\<forall>r. route_members w1 r = route_members w r - replicate_mset (count_list rs r) m"
    using unregister_loop_ok [OF adr win(1), of w rs] reg_okD(1) [OF reg] dom by blast
  define w' where "w' = w1\<lparr> w_members := (w_members w1)(m \<mapsto> b\<lparr> mb_routes := Heap_clear (mb_routes b) \<rparr>) \<rparr>"
  have "route_members w' r = filter_mset (\<lambda>x. x \<noteq> m) (route_members w r)" for r
  proof (rule multiset_eqI)
    fix x
    have "route_members w' r = route_members w1 r" by (simp add: route_members_def w'_def)
    moreover have "count (route_members w r) m = count_list rs r"
      using reg_okD(3) [OF reg, of r m] by (simp add: mr count_mset)
    ultimately show "count (route_members w' r) x = count (filter_mset (\<lambda>x. x \<noteq> m) (route_members w r)) x"
      using w1(7) by simp
  qed
  then have rm': "route_members w' = (\<lambda>r. filter_mset (\<lambda>x. x \<noteq> m) (route_members w r))" by auto
  have heap: "sorted_heap cmp valid h \<Longrightarrow> HEAP_ITERATE (Heap_clear h) = []" for cmp valid and h :: "nat heap"
    by (simp add: sorted_heap_def heap_ok_clear)
  have mr': "member_routes w' = (member_routes w)(m := {#})"
    using win(2) w1(3) heap by (intro ext) (auto simp: member_routes_def w'_def ptr_heap_def)
  have "reg_ok E mb rb w'"
    unfolding reg_ok_def
  proof (intro conjI allI impI)
    fix r x
    show "count (route_members w' r) x = count (member_routes w' x) r"
      using reg_okD(3) [OF reg, of r x] by (simp add: rm' mr')
  next
    fix x y assume "w_members w' x = Some y"
    then show "ptr_window mb (e_maddr E x)" "ptr_heap (e_raddr E) rb (mb_routes y)"
      using win reg_okD(2) [OF reg, of x] w1(3) sorted_heap_clear
      by (auto simp: w'_def ptr_heap_def split: if_splits)
  qed (use w1(6) in \<open>auto simp: w'_def\<close>)
  moreover have "same_tree w w'" using w1(2) by (simp add: same_tree_def w'_def)
  moreover have "Route_unregister_all E w (Some root) (Some m) = Inr w'"
    using m w1(1,3) by (simp add: Route_unregister_all_def with_member_def rs_def [symmetric] w'_def)
  ultimately show thesis using rm' mr' w1 by (intro that [of w']) (simp_all add: w'_def)
qed

section \<open>Registering\<close>

text \<open>The facts about one registration that the properties below share.\<close>

lemma extend_path_words:
  assumes "length path + length (filter is_word ns) < ROUTE_MAX_PATH"
  shows "extend_path False path ns = Some (path @ filter is_word ns)"
  using assms by (induction ns arbitrary: path) auto

lemma Route_register_ok:
  assumes tree: "tree_ok w root" and reg: "reg_ok E mb rb w" and adr: "addrs_ok E mb rb lim"
    and lim: "w_next w + 30 \<le> lim" and er: "\<not> w_errno w" and m: "w_members w m = Some b" and n: "routable n"
    and words: "length (filter is_word (nd_child n)) < 29"
    and public: "\<And>r rt. walk w root (route_names n) = Some r \<Longrightarrow> w_routes w r = Some rt \<Longrightarrow> \<not> is_internal_callback rt"
  obtains r w' where "Route_register E w (Some root) (Some n) m = Inr (True, w')" "tree_ok w' root" "reg_ok E mb rb w'"
    "walk w' root (route_names n) = Some r" "\<not> w_errno w'"
    "route_members w' = (route_members w)(r := add_mset m (route_members w r))"
    "member_routes w' = (member_routes w)(m := add_mset r (member_routes w m))"
    "route_paths w' root = route_paths w root \<union> {us. us \<noteq> [] \<and> prefix us (route_names n)}"
    "\<forall>ns y. walk w root ns = Some y \<longrightarrow> walk w' root ns = Some y"
proof -
  define path where "path = n # filter is_word (nd_child n)"
  have path: "path \<noteq> []" "list_all element_ok path" "length path \<le> 30" "route_names n = path_names path"
    using n words by (auto simp: path_def routable_def list_all_iff route_names_def)
  have sort: "sglib_sort (e_sort E)" using adr by (simp add: addrs_ok_def)
  have "walk w root [] = Some root" by simp
  from Route_add_ok [OF tree sort this path(1,2)] obtain r w1 where
    1: "Route_add E w root path = Inr (Some r, w1)" "tree_ok w1 root" "walk w1 root (path_names path) = Some r"
      "extends w w1" "route_paths w1 root = route_paths w root \<union> {us. us \<noteq> [] \<and> prefix us (path_names path)}"
      "\<forall>ns y. walk w root ns = Some y \<longrightarrow> walk w1 root ns = Some y" "w_next w1 \<le> w_next w + length path"
      "walk w root (path_names path) = None \<longrightarrow> w_routes w r = None"
    unfolding append_Nil by (elim exE conjE) (rule that, (assumption | simp)+)
  note reg1 = reg_ok_extends [OF reg 1(4)]
  have w1: "\<not> w_errno w1" "w_members w1 m = Some b" using 1(4) er m by (simp_all add: extends_def)
  have "w_routes w1 root \<noteq> None" using 1(2) by (auto simp: tree_ok_def)
  then obtain rt where rt: "w_routes w1 r = Some rt" using walk_dom [OF 1(2) _ 1(3)] by auto
  have "r < lim" using tree_okD(1) [OF 1(2) rt] 1(7) path(3) lim by simp
  have "\<not> is_internal_callback rt"
  proof (cases "w_routes w r")
    case None
    with rt 1(4) show ?thesis by (simp add: extends_def)
  next
    case (Some rt0)
    have "walk w root (route_names n) = Some r"
    proof (cases "walk w root (route_names n)")
      case None
      with 1(8) path(4) Some show ?thesis by simp
    next
      case (Some y)
      with 1(6) 1(3) path(4) show ?thesis by simp
    qed
    moreover obtain h where "w_routes w1 r = Some (rt0\<lparr> rt_children := h \<rparr>)"
      using extendsD [OF 1(4) Some] by blast
    ultimately show ?thesis using public Some rt by simp
  qed
  from Route_add_member_ok [OF reg1(1) adr rt \<open>r < lim\<close> w1(2) this] obtain w2 where
    2: "Route_add_member E w1 r m = Inr (True, w2)" "reg_ok E mb rb w2" "same_tree w1 w2"
      "route_members w2 = (route_members w1)(r := add_mset m (route_members w1 r))"
      "member_routes w2 = (member_routes w1)(m := add_mset r (member_routes w1 m))"
      "w_errno w2 = w_errno w1" by metis
  note same = same_tree_facts [OF 2(3)]
  have "extend_path False [n] (nd_child n) = Some path"
    using extend_path_words [of "[n]" "nd_child n"] words by (simp add: path_def ROUTE_MAX_PATH_def)
  then have "Route_register E w (Some root) (Some n) m = Inr (True, w2)"
    using er 1(1) w1(1) 2(1) by (simp add: Route_register_def Route_extend_and_find_def)
  then show thesis
    using that [of w2 r] same_tree_ok [OF 2(3) 1(2)] 1 2 w1(1) reg1 path(4)
    by (simp add: same route_paths_def)
qed

section \<open>A small hub for concrete runs\<close>

definition sample_addr :: "nat \<Rightarrow> 64 word" where
  "sample_addr n = (if n < 1000 then word_of_nat (4096 + 8 * n) else 2 ^ 63)"

definition sample_env :: renv where
  "sample_env = \<lparr> e_sort = isort_cmp, e_maddr = sample_addr, e_raddr = sample_addr \<rparr>"

lemma sample_addrs_ok: "addrs_ok sample_env 0 0 1000"
proof -
  have small: "unat (sample_addr n) = 4096 + 8 * n" if "n < 1000" for n
  proof -
    have "sample_addr n = word_of_nat (4096 + 8 * n)" using that by (simp only: sample_addr_def if_True)
    moreover have "4096 + 8 * n < 2 ^ LENGTH(64)" using that by simp
    ultimately show ?thesis by (simp only: unsigned_of_nat take_bit_nat_eq_self of_nat_id)
  qed
  have win: "ptr_window 0 (sample_addr n) \<longleftrightarrow> n < 1000" for n
  proof (cases "n < 1000")
    case True
    with small [OF True] show ?thesis by (simp add: ptr_window_def word_less_nat_alt)
  next
    case False
    then have "sample_addr n = 2 ^ 63" by (simp add: sample_addr_def)
    with False show ?thesis by (simp add: ptr_window_def)
  qed
  have inj: "inj_on sample_addr {n. ptr_window 0 (sample_addr n)}"
  proof (rule inj_onI)
    fix x y assume "x \<in> {n. ptr_window 0 (sample_addr n)}" "y \<in> {n. ptr_window 0 (sample_addr n)}"
      and eq: "sample_addr x = sample_addr y"
    then have "x < 1000" "y < 1000" by (simp_all add: win)
    with arg_cong [OF eq, of unat] show "x = y" by (simp add: small)
  qed
  show ?thesis
    unfolding addrs_ok_def sample_env_def using inj win sglib_sort_isort by simp
qed

text \<open>A hub with an empty root and one member, number 4.\<close>

definition sample_member :: Member where
  "sample_member = \<lparr> mb_key = Some ''key'', mb_peer = Some 1,
     mb_queue = \<lparr> q_messages = replicate 30 None, q_dead = False, q_i = 0, q_j = 0, q_dim = 30 \<rparr>,
     mb_routes = Heap_create \<rparr>"

definition sample_root :: Route where
  "sample_root = \<lparr> rt_name = Some ''root'', is_internal_callback = False, rt_callback = None,
     rt_members = Heap_create, rt_children = Heap_create \<rparr>"

definition sample_world :: rworld where
  "sample_world = \<lparr> w_msgs = Map.empty, w_members = [4 \<mapsto> sample_member], w_errno = False,
     w_routes = [0 \<mapsto> sample_root], w_next = 1 \<rparr>"

lemma sample_created:
  "Route_create_root E (sample_world\<lparr> w_routes := Map.empty, w_next := 0 \<rparr>) (Some ''root'') = Inr (0, sample_world)"
  by (simp add: Route_create_root_def Route_alloc_def sample_world_def sample_root_def set_route_def cstr_def NUL_def)

lemma sample_world_ok:
  "tree_ok sample_world 0" "reg_ok sample_env 0 0 sample_world" "\<not> w_errno sample_world"
  "w_members sample_world 4 = Some sample_member"
proof -
  have ch: "children sample_world = (\<lambda>_. [])"
    by (intro ext) (simp add: children_def sample_world_def sample_root_def)
  show "tree_ok sample_world 0"
    unfolding tree_ok_def ch
    by (simp add: sample_world_def sample_root_def name_ok_def sorted_heap_create NUL_def)
  have "route_members sample_world = (\<lambda>_. {#})" "member_routes sample_world = (\<lambda>_. {#})"
    by (intro ext; simp add: route_members_def member_routes_def sample_world_def sample_root_def sample_member_def)+
  then show "reg_ok sample_env 0 0 sample_world"
    unfolding reg_ok_def
    by (simp add: sample_world_def sample_root_def sample_member_def ptr_heap_create sample_env_def
        sample_addr_def ptr_window_def)
  show "\<not> w_errno sample_world" "w_members sample_world 4 = Some sample_member"
    by (simp_all add: sample_world_def)
qed

section \<open>Properties\<close>

text \<open>
  (C5) Registering and finding: on a well formed tree, with addresses in one window, a
  registration for a document of fewer than 29 children, whose route is not a callback of the
  hub, succeeds. The tree then has exactly the missing prefixes of the document's path more
  than before; \<open>Route_find\<close> with the document returns a route that has gained exactly this
  member, and no other route has changed its members; what was found before is still found.
\<close>

theorem Route_register_then_find:
  assumes tree: "tree_ok w root" and reg: "reg_ok E mb rb w" and adr: "addrs_ok E mb rb lim"
    and lim: "w_next w + 30 \<le> lim" and er: "\<not> w_errno w" and m: "w_members w m = Some b" and n: "routable n"
    and short: "length (nd_child n) < 29"
    and public: "\<forall>r rt. walk w root (route_names n) = Some r \<and> w_routes w r = Some rt \<longrightarrow> \<not> is_internal_callback rt"
  shows "\<exists>r w'. Route_register E w (Some root) (Some n) m = Inr (True, w') \<and>
    Route_find w' (Some root) (Some n) = Inr (Some r, w') \<and>
    route_members w' = (route_members w)(r := add_mset m (route_members w r)) \<and>
    member_routes w' = (member_routes w)(m := add_mset r (member_routes w m)) \<and>
    route_paths w' root = route_paths w root \<union> {us. us \<noteq> [] \<and> prefix us (route_names n)} \<and>
    (\<forall>k x. routable k \<and> length (nd_child k) \<le> ROUTE_MAX_PATH \<and> Route_find w (Some root) (Some k) = Inr (Some x, w) \<longrightarrow>
      Route_find w' (Some root) (Some k) = Inr (Some x, w')) \<and>
    tree_ok w' root \<and> reg_ok E mb rb w'"
proof -
  have words: "length (filter is_word (nd_child n)) < 29"
    using short by (meson le_less_trans length_filter_le)
  have public': "\<not> is_internal_callback rt" if "walk w root (route_names n) = Some r" "w_routes w r = Some rt" for r rt
    using public that by blast
  obtain r w' where w': "Route_register E w (Some root) (Some n) m = Inr (True, w')" "tree_ok w' root" "reg_ok E mb rb w'"
    "walk w' root (route_names n) = Some r" "\<not> w_errno w'"
    "route_members w' = (route_members w)(r := add_mset m (route_members w r))"
    "member_routes w' = (member_routes w)(m := add_mset r (member_routes w m))"
    "route_paths w' root = route_paths w root \<union> {us. us \<noteq> [] \<and> prefix us (route_names n)}"
    "\<forall>ns y. walk w root ns = Some y \<longrightarrow> walk w' root ns = Some y"
    by (rule Route_register_ok [OF tree reg adr lim er m n words public'])
  have "Route_find w' (Some root) (Some n) = Inr (Some r, w')"
    using Route_find_walk [OF w'(2,5) n] short w'(4) by (simp add: ROUTE_MAX_PATH_def)
  moreover have "Route_find w' (Some root) (Some k) = Inr (Some x, w')"
    if "routable k" "length (nd_child k) \<le> ROUTE_MAX_PATH" "Route_find w (Some root) (Some k) = Inr (Some x, w)" for k x
  proof -
    have "walk w root (route_names k) = Some x" using Route_find_walk [OF tree er that(1,2)] that(3) by simp
    then have "walk w' root (route_names k) = Some x" using w'(9) by blast
    then show ?thesis using Route_find_walk [OF w'(2,5) that(1,2)] by simp
  qed
  ultimately show ?thesis using w' by blast
qed

definition chat_speak :: node where
  "chat_speak = Nd (Some ''chat.speak'') VGroup False
     [Nd (Some ''to'') VGroup True [], Nd None (VNumber 3) True [], Nd (Some ''from'') VGroup True []]"

lemma chat_speak_ok: "routable chat_speak" "length (nd_child chat_speak) = 3"
  "route_names chat_speak = [''chat.speak'', ''to'', ''from'']"
  by code_simp+

lemma sample_no_route: "walk sample_world 0 (route_names chat_speak) = None"
  by code_simp

lemma Route_register_then_find_witness:
  "\<exists>r w'. Route_register sample_env sample_world (Some 0) (Some chat_speak) 4 = Inr (True, w') \<and>
     Route_find w' (Some 0) (Some chat_speak) = Inr (Some r, w') \<and> 4 \<in># route_members w' r"
proof -
  have "w_next sample_world + 30 \<le> 1000" by (simp add: sample_world_def)
  from Route_register_then_find [OF sample_world_ok(1,2) sample_addrs_ok this sample_world_ok(3,4) chat_speak_ok(1)]
  obtain r w' where "Route_register sample_env sample_world (Some 0) (Some chat_speak) 4 = Inr (True, w')"
    "Route_find w' (Some 0) (Some chat_speak) = Inr (Some r, w')"
    "route_members w' = (route_members sample_world)(r := add_mset 4 (route_members sample_world r))"
    using chat_speak_ok(2) sample_no_route by auto
  then show ?thesis by auto
qed

text \<open>
  (C29) \<open>Route_unregister_all\<close> takes the member off every route of the tree, however often it
  was registered, and touches no other member: the member's own list of routes names every
  route that has it. This is what makes it safe to destroy the member afterwards.
\<close>

theorem Route_unregister_all_complete:
  assumes "tree_ok w root" "reg_ok E mb rb w" "addrs_ok E mb rb lim" "w_members w m = Some b"
  shows "\<exists>w'. Route_unregister_all E w (Some root) (Some m) = Inr w' \<and>
    (\<forall>r. m \<notin># route_members w' r) \<and>
    (\<forall>r x. x \<noteq> m \<longrightarrow> count (route_members w' r) x = count (route_members w r) x) \<and>
    route_paths w' root = route_paths w root \<and> tree_ok w' root \<and> reg_ok E mb rb w'"
proof -
  obtain w' where w': "Route_unregister_all E w (Some root) (Some m) = Inr w'" "reg_ok E mb rb w'" "same_tree w w'"
    "route_members w' = (\<lambda>r. filter_mset (\<lambda>x. x \<noteq> m) (route_members w r))"
    using Route_unregister_all_ok [OF assms(2-4)] by metis
  have "route_paths w' root = route_paths w root" using same_tree_facts(5) [OF w'(3)] by (simp add: route_paths_def)
  with w' same_tree_ok [OF w'(3) assms(1)] show ?thesis by (intro exI [of _ w']) simp
qed

lemma Route_unregister_all_complete_witness:
  "\<exists>w r w'. Route_register sample_env sample_world (Some 0) (Some chat_speak) 4 = Inr (True, w) \<and> 4 \<in># route_members w r \<and>
     Route_unregister_all sample_env w (Some 0) (Some 4) = Inr w' \<and> 4 \<notin># route_members w' r"
proof -
  have lim: "w_next sample_world + 30 \<le> 1000" by (simp add: sample_world_def)
  have words: "length (filter is_word (nd_child chat_speak)) < 29"
    using chat_speak_ok(2) length_filter_le [of is_word "nd_child chat_speak"] by linarith
  obtain r w where w: "Route_register sample_env sample_world (Some 0) (Some chat_speak) 4 = Inr (True, w)"
    "tree_ok w 0" "reg_ok sample_env 0 0 w"
    "route_members w = (route_members sample_world)(r := add_mset 4 (route_members sample_world r))"
    "member_routes w = (member_routes sample_world)(4 := add_mset r (member_routes sample_world 4))"
    by (rule Route_register_ok [OF sample_world_ok(1,2) sample_addrs_ok lim sample_world_ok(3,4) chat_speak_ok(1) words])
      (auto simp: sample_no_route)
  have "member_routes w 4 \<noteq> {#}" using w(5) by simp
  then obtain b where "w_members w 4 = Some b" by (auto simp: member_routes_def split: option.splits)
  from Route_unregister_all_complete [OF w(2,3) sample_addrs_ok this] w(1,4) show ?thesis by auto
qed

lemma find_loop_long:
  assumes "tree_ok w root" "\<not> w_errno w"
  shows "i \<le> ROUTE_MAX_PATH \<Longrightarrow> ROUTE_MAX_PATH < i + length ns \<Longrightarrow> list_all (\<lambda>c. is_word c \<longrightarrow> element_ok c) ns \<Longrightarrow>
    w_routes w r \<noteq> None \<Longrightarrow> \<exists>w'. find_loop w i r ns = Inr (None, w')"
proof (induction ns arbitrary: i r)
  case (Cons n ns)
  obtain rt where rt: "w_routes w r = Some rt" using Cons.prems(4) by auto
  show ?case
  proof (cases "i < ROUTE_MAX_PATH")
    case True
    show ?thesis
    proof (cases "is_word n")
      case word: True
      then obtain s where s: "nd_name n = Some s" "NUL \<notin> set s"
        using Cons.prems(3) by (auto simp: element_ok_def dest: name_okD)
      show ?thesis
      proof (cases "child w r s")
        case None
        with True word s Route_find_child_ok [OF assms(1) rt s] assms(2) show ?thesis by simp
      next
        case (Some c)
        with True word s Route_find_child_ok [OF assms(1) rt s] assms(2) Cons.IH [of "i + 1" c]
          Cons.prems child_dom [OF assms(1) Some] show ?thesis by simp
      qed
    next
      case False
      with True Cons.IH [of "i + 1" r] Cons.prems assms(2) show ?thesis by simp
    qed
  qed simp
qed simp

text \<open>
  (C30) Registration counts words and lookup counts children: for a document with more than 30
  children of which fewer than 29 are words, \<open>Route_register\<close> succeeds and \<open>Route_find\<close> with
  the very same document returns NULL.
\<close>

theorem Route_register_not_found:
  assumes tree: "tree_ok w root" and reg: "reg_ok E mb rb w" and adr: "addrs_ok E mb rb lim"
    and lim: "w_next w + 30 \<le> lim" and er: "\<not> w_errno w" and m: "w_members w m = Some b" and n: "routable n"
    and long: "ROUTE_MAX_PATH < length (nd_child n)" and words: "length (filter is_word (nd_child n)) < 29"
    and public: "\<forall>r rt. walk w root (route_names n) = Some r \<and> w_routes w r = Some rt \<longrightarrow> \<not> is_internal_callback rt"
  shows "\<exists>w' w''. Route_register E w (Some root) (Some n) m = Inr (True, w') \<and>
    Route_find w' (Some root) (Some n) = Inr (None, w'')"
proof -
  have public': "\<not> is_internal_callback rt" if "walk w root (route_names n) = Some r" "w_routes w r = Some rt" for r rt
    using public that by blast
  obtain r w' where w': "Route_register E w (Some root) (Some n) m = Inr (True, w')" "tree_ok w' root"
    "walk w' root (route_names n) = Some r" "\<not> w_errno w'"
    by (rule Route_register_ok [OF tree reg adr lim er m n words public'])
  obtain rt where rt: "w_routes w' root = Some rt" using w'(2) by (auto simp: tree_ok_def)
  obtain s where s: "nd_name n = Some s" "NUL \<notin> set s"
    using n by (auto simp: routable_def element_ok_def dest: name_okD)
  obtain c where c: "child w' root s = Some c"
    using w'(3) s by (auto simp: route_names_def path_names_def split: option.splits)
  obtain w'' where "find_loop w' 0 c (nd_child n) = Inr (None, w'')"
    using find_loop_long [OF w'(2,4), of 0 "nd_child n" c] long n child_dom [OF w'(2) c]
    by (auto simp: routable_def)
  then have "Route_find w' (Some root) (Some n) = Inr (None, w'')"
    using Route_find_child_ok [OF w'(2) rt s] c by (simp add: Route_find_def)
  with w'(1) show ?thesis by blast
qed

lemma Route_register_not_found_witness:
  "\<exists>w' w''. Route_register sample_env sample_world (Some 0)
        (Some (Nd (Some ''a'') VGroup False (replicate 31 (Nd None (VNumber 1) True [])))) 4 = Inr (True, w') \<and>
      Route_find w' (Some 0) (Some (Nd (Some ''a'') VGroup False (replicate 31 (Nd None (VNumber 1) True [])))) = Inr (None, w'')"
proof -
  define n where "n = Nd (Some ''a'') VGroup False (replicate 31 (Nd None (VNumber 1) True []))"
  have lim: "w_next sample_world + 30 \<le> 1000" by (simp add: sample_world_def)
  have n: "routable n" "ROUTE_MAX_PATH < length (nd_child n)" "length (filter is_word (nd_child n)) < 29"
    "walk sample_world 0 (route_names n) = None"
    unfolding n_def by code_simp+
  from Route_register_not_found [OF sample_world_ok(1,2) sample_addrs_ok lim sample_world_ok(3,4) n(1-3)] n(4)
  show ?thesis unfolding n_def by simp
qed

section \<open>Delivery\<close>

definition queued :: "'z mworld_scheme \<Rightarrow> nat \<Rightarrow> nat list" where
  "queued w m = (case w_members w m of None \<Rightarrow> [] | Some mb \<Rightarrow> q_list (mb_queue mb))"

definition has_room :: "'z mworld_scheme \<Rightarrow> nat \<Rightarrow> bool" where
  "has_room w m \<longleftrightarrow> length (queued w m) < 29"

lemma refs_but_bound:
  assumes "members_ok g w"
  shows "refs_but g w m a \<le> g a + 29 * card (dom (w_members w))"
proof -
  have fin: "finite (dom (w_members w))" using assms by (simp add: members_ok_def)
  have "count_list (q_list (mb_queue (the (w_members w k)))) a \<le> 29" if k: "k \<in> dom (w_members w)" for k
  proof -
    obtain mb where mb: "w_members w k = Some mb" using k by auto
    have "q_len (mb_queue mb) < 30"
      using q_len_less [OF members_ok_queue(1) [OF assms mb]] members_ok_queue(2) [OF assms mb] by simp
    moreover have "count_list (q_list (mb_queue mb)) a \<le> q_len (mb_queue mb)"
      by (metis count_le_length length_q_list)
    ultimately show ?thesis using mb by simp
  qed
  then have "(\<Sum>k \<in> dom (w_members w) - {m}. count_list (q_list (mb_queue (the (w_members w k)))) a) \<le>
      (\<Sum>k \<in> dom (w_members w) - {m}. 29)"
    by (intro sum_mono) simp
  also have "\<dots> \<le> 29 * card (dom (w_members w))"
    using card_mono [OF fin, of "dom (w_members w) - {m}"] by simp
  finally show ?thesis by (simp add: refs_but_def)
qed

lemma deliver_loop_ok:
  assumes bound: "g a + 29 * card (dom (w_members w)) + 30 \<le> 32768" and held: "0 < g a"
  shows "members_ok g w \<Longrightarrow> \<not> w_errno w \<Longrightarrow> distinct ms \<Longrightarrow> set ms \<subseteq> dom (w_members w) \<Longrightarrow>
    \<exists>w'. deliver_loop (Some a) ms cnt w = Inr (if list_all (has_room w) ms then Some (cnt + length ms) else None, w') \<and>
      members_ok g w' \<and>
      (\<forall>m. queued w' m = queued w m @ (if m \<in> set (takeWhile (has_room w) ms) then [a] else []))"
  using bound
proof (induction ms arbitrary: w cnt)
  case (Cons m ms)
  obtain mb where mb: "w_members w m = Some mb" using Cons.prems(4) by auto
  have q: "queued w m = q_list (mb_queue mb)" by (simp add: queued_def mb)
  show ?case
  proof (cases "has_room w m")
    case False
    then have "29 \<le> length (q_list (mb_queue mb))" by (simp add: has_room_def q)
    with Member_send_msg_full [OF Cons.prems(1) mb, of a]
    have "Member_send_msg w (Some m) (Some a) = Inr (False, w\<lparr> w_errno := False \<rparr>)" by simp
    moreover have "members_ok g (w\<lparr> w_errno := False \<rparr>)"
      using Cons.prems(1) by (simp add: members_ok_def in_queues_def)
    ultimately show ?thesis using False by (simp add: queued_def)
  next
    case True
    then have room: "length (q_list (mb_queue mb)) < 29" by (simp add: has_room_def q)
    have "refs_but g w m a + 30 \<le> 32768" using refs_but_bound [OF Cons.prems(1), of m a] Cons.prems(5) by linarith
    from Member_send_msg_ok [OF Cons.prems(1) mb held this Cons.prems(2) room] obtain w1 mb' where
      w1: "Member_send_msg w (Some m) (Some a) = Inr (True, w1)" "members_ok g w1"
        "w_members w1 = (w_members w)(m \<mapsto> mb')" "q_list (mb_queue mb') = q_list (mb_queue mb) @ [a]" "\<not> w_errno w1"
      by blast
    have dom: "dom (w_members w1) = dom (w_members w)" using mb by (auto simp: w1(3))
    have qd: "queued w1 x = (if x = m then queued w m @ [a] else queued w x)" for x
      using w1(4) by (simp add: queued_def w1(3) mb)
    have hr: "has_room w1 x = has_room w x" if "x \<in> set ms" for x
      using that Cons.prems(3) by (auto simp: has_room_def qd)
    have tw: "takeWhile (has_room w1) ms = takeWhile (has_room w) ms"
      using hr by (simp cong: takeWhile_cong)
    have la: "list_all (has_room w1) ms = list_all (has_room w) ms"
      using hr by (simp add: list_all_iff)
    from Cons.IH [OF w1(2,5), of "cnt + 1"] Cons.prems dom obtain w' where
      w': "deliver_loop (Some a) ms (cnt + 1) w1 = Inr (if list_all (has_room w) ms then Some (cnt + 1 + length ms) else None, w')"
        "members_ok g w'" "\<forall>x. queued w' x = queued w1 x @ (if x \<in> set (takeWhile (has_room w) ms) then [a] else [])"
      unfolding tw la by auto
    have "m \<notin> set (takeWhile (has_room w) ms)" using Cons.prems(3) by (auto dest: set_takeWhileD)
    with w' w1 True show ?thesis by (intro exI [of _ w']) (auto simp: qd)
  qed
qed (simp add: queued_def)

text \<open>
  (C6) Delivery to a route whose members are registered once each: the message is put at the
  end of the queues of the members, in address order, up to the first one whose queue is full.
  The answer is the number of members when all had room and -1 otherwise; then the members
  behind the full one get nothing, those before it keep the message. All other queues are
  untouched, and every message counts its references exactly.
\<close>

theorem Route_deliver_prefix:
  assumes route: "w_routes w r = Some rt" and ok: "members_ok g w" and er: "\<not> w_errno w"
    and ms: "HEAP_ITERATE (rt_members rt) = ms" "distinct ms" "set ms \<subseteq> dom (w_members w)"
    and held: "0 < g a" and bound: "g a + 29 * card (dom (w_members w)) + 30 \<le> 32768"
  shows "\<exists>w'. Route_deliver w (Some r) (Some a) =
      Inr (if list_all (has_room w) ms then Some (length ms) else None, w') \<and>
    members_ok g w' \<and>
    (\<forall>m. queued w' m = queued w m @ (if m \<in> set (takeWhile (has_room w) ms) then [a] else []))"
proof -
  from deliver_loop_ok [OF bound held ok er ms(2,3), of 0] obtain w' where
    "deliver_loop (Some a) ms 0 w = Inr (if list_all (has_room w) ms then Some (length ms) else None, w')"
    "members_ok g w'" "\<forall>m. queued w' m = queued w m @ (if m \<in> set (takeWhile (has_room w) ms) then [a] else [])"
    by auto
  with route ms(1) show ?thesis by (simp add: Route_deliver_def with_route_def)
qed

text \<open>Three members on one route; the queue of the second is full of message 9.\<close>

definition busy_member :: Member where
  "busy_member = sample_member\<lparr> mb_queue :=
     \<lparr> q_messages = replicate 30 (Some 9), q_dead = False, q_i = 0, q_j = 29, q_dim = 30 \<rparr> \<rparr>"

definition busy_world :: rworld where
  "busy_world = sample_world\<lparr> w_members := [4 \<mapsto> sample_member, 5 \<mapsto> busy_member, 6 \<mapsto> sample_member],
     w_msgs := [9 \<mapsto> \<lparr> msgid = 0, m_type = None, received_at = 0, m_from = None, m_data = None,
       m_hdr = None, m_body = None, ref_count = 30 \<rparr>],
     w_routes := [0 \<mapsto> sample_root\<lparr> rt_members :=
       \<lparr> h_last = 3, h_size = 10, h_members = [Some 4, Some 5, Some 6] @ replicate 7 None \<rparr> \<rparr>] \<rparr>"

lemma count_list_replicate: "count_list (replicate n x) x = n"
  by (induction n) simp_all

lemma busy_queues: "q_list (mb_queue sample_member) = []" "q_list (mb_queue busy_member) = replicate 29 9"
proof -
  show "q_list (mb_queue sample_member) = []"
    by (simp add: q_list_def q_len_def sample_member_def)
  show "q_list (mb_queue busy_member) = replicate 29 9"
    by (rule nth_equalityI) (simp_all add: q_list_def q_len_def busy_member_def)
qed

lemma busy_world_ok: "members_ok (\<lambda>a. if a = 9 then 1 else 0) busy_world"
  unfolding members_ok_def
proof (intro conjI)
  show "finite (dom (w_members busy_world))" by (simp add: busy_world_def)
  have "ran (w_members busy_world) \<subseteq> {sample_member, busy_member}"
    by (auto simp: busy_world_def ran_def split: if_splits)
  moreover have "queue_ok (mb_queue mb) \<and> q_dim (mb_queue mb) = MEMBER_MSG_QUEUE_LENGTH"
    if "mb \<in> {sample_member, busy_member}" for mb
    using that
    by (elim insertE; simp add: queue_ok_def sample_member_def busy_member_def q_len_def MEMBER_MSG_QUEUE_LENGTH_def)
  ultimately show "\<forall>mb \<in> ran (w_members busy_world). queue_ok (mb_queue mb) \<and> q_dim (mb_queue mb) = MEMBER_MSG_QUEUE_LENGTH"
    by blast
  have "in_queues busy_world a = (if a = 9 then 29 else 0)" for a
    by (simp add: in_queues_def busy_world_def busy_queues count_list_replicate)
  then have "(\<lambda>a. (if a = 9 then 1 else 0) + in_queues busy_world a) = (\<lambda>a. if a = 9 then 30 else 0)"
    by (intro ext) simp
  moreover have "refs_ok (w_msgs busy_world) (\<lambda>a. if a = 9 then 30 else 0)"
    by (simp add: refs_ok_def busy_world_def msg_ok_def destroyable_def)
  ultimately show "refs_ok (w_msgs busy_world) (\<lambda>a. (if a = 9 then 1 else 0) + in_queues busy_world a)" by simp
qed

lemma Route_deliver_prefix_witness:
  "\<exists>w'. Route_deliver busy_world (Some 0) (Some 9) = Inr (None, w') \<and>
     queued w' 4 = [9] \<and> queued w' 5 = replicate 29 9 \<and> queued w' 6 = []"
proof -
  have q: "queued busy_world 4 = []" "queued busy_world 5 = replicate 29 9" "queued busy_world 6 = []"
    by (simp_all add: queued_def busy_world_def busy_queues)
  have "card (dom (w_members busy_world)) = 3" by (simp add: busy_world_def)
  moreover have "w_routes busy_world 0 = Some (sample_root\<lparr> rt_members :=
      \<lparr> h_last = 3, h_size = 10, h_members = [Some 4, Some 5, Some 6] @ replicate 7 None \<rparr> \<rparr>)" (is "_ = Some ?rt")
    by (simp add: busy_world_def)
  moreover have "HEAP_ITERATE (rt_members ?rt) = [4, 5, 6]"
    by (simp add: HEAP_ITERATE_def numeral_3_eq_3)
  moreover have "\<not> w_errno busy_world" "set [4, 5, 6] \<subseteq> dom (w_members busy_world)"
    by (simp_all add: busy_world_def sample_world_def)
  ultimately show ?thesis
    using Route_deliver_prefix [OF _ busy_world_ok, of 0 ?rt "[4, 5, 6]" 9]
    by (auto simp: has_room_def q)
qed

section \<open>Paths without names\<close>

text \<open>
  A registration whose first node has no name, a number for instance, ends in an assertion:
  the node is not looked up by its type, no child compares equal to a NULL name, and
  \<open>Route_alloc\<close> asserts that it is given one.
\<close>

lemma Route_register_null_name:
  assumes tree: "tree_ok w root" and root: "w_routes w root \<noteq> None"
    and n: "nd_name n = None" "length (nd_child n) < ROUTE_MAX_PATH" and er: "\<not> w_errno w"
  shows "Route_register E w (Some root) (Some n) m = Inl AssertFailed"
proof -
  obtain rt where rt: "w_routes w root = Some rt" using root by blast
  have ok: "heap_ok (rt_children rt)" using tree_okD(3) [OF tree rt] by (simp add: sorted_heap_def)
  define to where "to = (\<lambda>c. bstrcmp (route_name w c) (nd_name n))"
  have ne: "to c \<noteq> 0" for c by (simp add: to_def n(1) SHRT_MIN_def)
  obtain i where "Heap_find (rt_children rt) to = Inr i" "i < h_last (rt_children rt) \<longrightarrow> to (HEAP_ITERATE (rt_children rt) ! i) = 0"
    using Heap_find_ok [OF ok, of to] by blast
  with ne have "Route_find_child w (Some root) (Some n) = Inr None"
    using rt by (simp add: Route_find_child_def with_route_def Heap_valid_def to_def [symmetric])
  moreover have "extend_path False [n] (nd_child n) = Some (n # filter is_word (nd_child n))"
    using extend_path_ok [of "[n]" "nd_child n"] n(2) by simp
  ultimately show ?thesis
    using er n(1) by (simp add: Route_register_def Route_extend_and_find_def Route_add_child_def Route_alloc_def)
qed

end
