(* ===== verification/Session.thy ===== *)
theory Session
  imports Message Stackish
begin

text \<open>
  The state one end of a connection works on, for \<open>src/protocol/crypto.c\<close>,
  \<open>src/protocol/frame.c\<close> and \<open>src/protocol/peer.c\<close>, and the combinators their
  functions are written with.

  The cryptographic library and the buffered socket layer are not part of the program. They
  are given by records of functions, \<open>ltc\<close> and \<open>io\<close>, that stand for the calls; what the
  theorems need of them is stated where they are used. The structures of the cryptographic
  library are given by their bytes.
\<close>

section \<open>The libraries called\<close>

type_synonym ecc_key = string
type_synonym symmetric_key = string
type_synonym prng_state = string

datatype pk_type = PK_PUBLIC | PK_PRIVATE

datatype ccm_direction = CCM_ENCRYPT | CCM_DECRYPT

text \<open>
  \<open>None\<close> is a result other than \<open>CRYPT_OK\<close>. \<open>ccm_memory\<close> works in place: it gives whether
  it returned \<open>CRYPT_OK\<close>, the buffer afterwards and the tag.
\<close>

record ltc =
  fortuna_read :: "nat \<Rightarrow> prng_state \<Rightarrow> string \<times> prng_state"
  ecc_make_key :: "prng_state \<Rightarrow> nat \<Rightarrow> ecc_key option \<times> prng_state"
  ecc_export :: "pk_type \<Rightarrow> ecc_key \<Rightarrow> string option"
  ecc_import :: "string \<Rightarrow> ecc_key option"
  ecc_shared_secret :: "ecc_key \<Rightarrow> ecc_key \<Rightarrow> string option"
  rijndael_setup :: "bstring \<Rightarrow> symmetric_key option"
  ccm_memory :: "symmetric_key \<Rightarrow> string \<Rightarrow> string \<Rightarrow> string \<Rightarrow> ccm_direction \<Rightarrow> bool \<times> string \<times> string"
  hash_memory :: "string \<Rightarrow> string option"
  ecc_sign_hash :: "string \<Rightarrow> prng_state \<Rightarrow> ecc_key \<Rightarrow> string option \<times> prng_state"
  ecc_verify_hash :: "string \<Rightarrow> string \<Rightarrow> ecc_key \<Rightarrow> bool option"
  sizeof_symmetric_key :: nat
  sizeof_ecc_key :: nat

text \<open>
  Buffers of type \<open>'b\<close> and sockets of type \<open>'n\<close>. The calls that reach the socket are told
  whether \<open>errno\<close> was set and tell whether it is afterwards.
\<close>

record ('b, 'n) io =
  isvalidsock :: "'n \<Rightarrow> bool"
  sbuf_create :: "nat \<Rightarrow> 'b"
  sbuf_data_avail :: "'b \<Rightarrow> nat"
  sbuf_space_avail :: "'b \<Rightarrow> nat"
  sbuf_get_ntohs :: "'b \<Rightarrow> bool \<times> 16 word \<times> 'b"
  sbuf_put_htons :: "'b \<Rightarrow> 16 word \<Rightarrow> bool \<times> 'b"
  sbuf_read_bstr :: "'b \<Rightarrow> nat \<Rightarrow> bstring \<times> 'b"
  sbuf_write_bstr :: "'b \<Rightarrow> string \<Rightarrow> bool \<times> 'b"
  io_read_sbuf :: "bool \<Rightarrow> 'n \<Rightarrow> 'b \<Rightarrow> bool \<times> nat \<times> bool \<times> 'n \<times> 'b"
  io_flush_sbuf :: "bool \<Rightarrow> 'n \<Rightarrow> 'b \<Rightarrow> bool \<times> bool \<times> 'n \<times> 'b"

section \<open>State\<close>

record CryptNonce =
  n_left :: "64 word"
  n_right :: "64 word"

text \<open>\<open>cp_freed\<close>: whether \<open>name\<close> and \<open>session\<close> point to released storage.\<close>

record CryptPeer =
  cp_name :: bstring
  cp_nonce :: CryptNonce
  cp_key :: ecc_key
  cp_session :: bstring
  cp_skey :: symmetric_key
  cp_freed :: "bool \<times> bool"

record CryptState =
  cs_me :: CryptPeer
  cs_them :: CryptPeer
  cs_data :: "nat option"
  cs_shared :: symmetric_key

record ('b, 'n) FrameSource =
  fs_out :: 'b
  fs_in :: 'b
  fs_fd :: 'n

text \<open>
  \<open>s_rest\<close> is the rest of the program's state, which only the key confirmation callback
  reaches.
\<close>

record ('b, 'n, 'w) sess =
  s_crypt :: CryptState
  s_prng :: prng_state
  s_errno :: bool
  s_source :: "('b, 'n) FrameSource"
  s_rest :: 'w

section \<open>Combinators\<close>

type_synonym ('a, 's) proc = "'s \<Rightarrow> ('a \<times> 's) res option"

definition ret :: "'a \<Rightarrow> ('a, 's) proc" where
  "ret x s = Some (Inr (x, s))"

definition crash :: "fault \<Rightarrow> ('a, 's) proc" where
  "crash f s = Some (Inl f)"

definition bindp :: "('a, 's) proc \<Rightarrow> ('a \<Rightarrow> ('b, 's) proc) \<Rightarrow> ('b, 's) proc" where
  "bindp m f s = bind_opt (m s) (\<lambda>(x, s'). f x s')"

definition gets :: "('s \<Rightarrow> 'a) \<Rightarrow> ('a, 's) proc" where
  "gets f s = Some (Inr (f s, s))"

definition modify :: "('s \<Rightarrow> 's) \<Rightarrow> (unit, 's) proc" where
  "modify f s = Some (Inr ((), f s))"

text \<open>\<open>assert\<close>, and a call that does not touch the state but may stop.\<close>

definition assertp :: "bool \<Rightarrow> ('a, 's) proc \<Rightarrow> ('a, 's) proc" where
  "assertp T k = (if T then k else crash AssertFailed)"

definition lift_res :: "'a res \<Rightarrow> ('a, 's) proc" where
  "lift_res r s = (case r of Inl f \<Rightarrow> Some (Inl f) | Inr x \<Rightarrow> Some (Inr (x, s)))"

text \<open>
  \<open>check(T, M)\<close>: a false condition or a set \<open>errno\<close> clears \<open>errno\<close> and jumps to
  \<open>_check_fail\<close>, whose code is the first continuation.
\<close>

definition check :: "bool \<Rightarrow> ('a, ('b, 'n, 'w) sess) proc \<Rightarrow> ('a, ('b, 'n, 'w) sess) proc \<Rightarrow> ('a, ('b, 'n, 'w) sess) proc" where
  "check T failed k s = (if T \<and> \<not> s_errno s then k s else failed (s\<lparr> s_errno := False \<rparr>))"

text \<open>The node functions with the \<open>errno\<close> they leave.\<close>

definition cons :: "string \<Rightarrow> carg list \<Rightarrow> (node option, ('b, 'n, 'w) sess) proc" where
  "cons format args s =
     (case Node_cons (s_errno s) format args of
        Inl f \<Rightarrow> Some (Inl f)
      | Inr None \<Rightarrow> Some (Inr (None, s\<lparr> s_errno := False \<rparr>))
      | Inr (Some n) \<Rightarrow> Some (Inr (Some n, s)))"

text \<open>Whether \<open>Node_decons\<close> returned 1, and all it stored.\<close>

definition decons :: "node option \<Rightarrow> bool \<Rightarrow> string \<Rightarrow> darg list \<Rightarrow> (bool \<times> dout list, ('b, 'n, 'w) sess) proc" where
  "decons n copy format args s =
     (let root = map_option root_cursor n; outs = Node_decons_written (s_errno s) root copy format args
      in case Node_decons (s_errno s) root copy format args of
           Inl f \<Rightarrow> Some (Inl f)
         | Inr None \<Rightarrow> Some (Inr ((False, outs), s\<lparr> s_errno := False \<rparr>))
         | Inr (Some _) \<Rightarrow> Some (Inr ((True, outs), s)))"

definition parse :: "bstring \<Rightarrow> (node option, ('b, 'n, 'w) sess) proc" where
  "parse buf s =
     bind_opt (Node_parse (s_errno s) buf) (\<lambda>r. Some (Inr (pr_root r, s\<lparr> s_errno := pr_errno r \<rparr>)))"

definition bstr :: "node option \<Rightarrow> (string, ('b, 'n, 'w) sess) proc" where
  "bstr n = lift_res (Node_bstr (case n of None \<Rightarrow> [] | Some t \<Rightarrow> [t]) True)"

definition destroy :: "node option \<Rightarrow> (unit, ('b, 'n, 'w) sess) proc" where
  "destroy n = lift_res (bind_res (destroy_opt n) (\<lambda>_. Inr ()))"

section \<open>Rules for the combinators\<close>

lemma bindp_ret [simp]: "bindp (ret x) f = f x"
  by (intro ext) (simp add: bindp_def ret_def)

lemma bindp_Some: "m s = Some (Inr (x, s')) \<Longrightarrow> bindp m f s = f x s'"
  by (simp add: bindp_def)

lemma bindp_fault: "m s = Some (Inl e) \<Longrightarrow> bindp m f s = Some (Inl e)"
  by (simp add: bindp_def)

lemma bindp_gets [simp]: "bindp (gets g) f s = f (g s) s"
  by (simp add: bindp_def gets_def)

lemma bindp_modify [simp]: "bindp (modify g) f s = f () (g s)"
  by (simp add: bindp_def modify_def)

lemma bindp_assoc: "bindp (bindp m f) g = bindp m (\<lambda>x. bindp (f x) g)"
  by (intro ext) (simp add: bindp_def bind_opt_def split: option.split sum.split)

lemma assertp_True [simp]: "assertp True k = k" "assertp False k = crash AssertFailed"
  by (simp_all add: assertp_def)

lemma lift_res_simps [simp]: "lift_res (Inr x) = ret x" "lift_res (Inl f) = crash f"
  by (auto intro!: ext simp: lift_res_def ret_def crash_def)

lemma bindp_crash [simp]: "bindp (crash e) f = crash e"
  by (intro ext) (simp add: bindp_def crash_def)

lemma check_pass [simp]: "T \<Longrightarrow> \<not> s_errno s \<Longrightarrow> check T failed k s = k s"
  by (simp add: check_def)

lemma check_fail [simp]: "\<not> T \<Longrightarrow> check T failed k s = failed (s\<lparr> s_errno := False \<rparr>)"
  by (simp add: check_def)

lemma errno_clear [simp]: "\<not> s_errno s \<Longrightarrow> s\<lparr> s_errno := False \<rparr> = s"
  by (cases s) simp

lemma destroy_None [simp]: "destroy None = ret ()"
  by (simp add: destroy_def destroy_opt_def)

lemma destroy_ok: "destroyable n \<Longrightarrow> destroy n = ret ()"
  using destroy_opt_ok [of n] by (auto simp: destroy_def)

end
