(* ===== verification/Crypto.thy ===== *)
theory Crypto
  imports Session
begin

text \<open>
  The cryptographic state of a connection (\<open>src/protocol/crypto.c\<close>): keys and nonces, the
  messages of the key agreement as each side builds and reads them, packets, signatures and
  the hate challenge. All work on the \<open>CryptState\<close> of a session.
\<close>

section \<open>Set-up\<close>

definition NONCE_LENGTH :: nat where "NONCE_LENGTH = 16"
definition KEY_LENGTH :: nat where "KEY_LENGTH = 32"

definition CRYPT_CHALLENGE_MSG :: string where "CRYPT_CHALLENGE_MSG = ''challenge''"
definition CRYPT_ANSWER_MSG :: string where "CRYPT_ANSWER_MSG = ''answer''"
definition CRYPT_INIT_MSG :: string where "CRYPT_INIT_MSG = ''init''"
definition CRYPT_RECV_MSG :: string where "CRYPT_RECV_MSG = ''recv''"
definition CRYPT_HEADER :: string where "CRYPT_HEADER = ''header''"
definition CRYPT_ENV_MSG :: string where "CRYPT_ENV_MSG = ''env''"

lemmas crypt_names = CRYPT_CHALLENGE_MSG_def CRYPT_ANSWER_MSG_def CRYPT_INIT_MSG_def CRYPT_RECV_MSG_def
  CRYPT_HEADER_def CRYPT_ENV_MSG_def

datatype crypt_key_side = CRYPT_THEIR_KEY | CRYPT_MY_KEY

text \<open>
  \<open>CryptState_init\<close> with the results of its library calls: the new value of
  \<open>CryptState_initialized\<close> and the answer.
\<close>

datatype ltc_call =
  register_prng | fortuna_test | rng_make_prng | register_cipher | rijndael_test | register_hash |
  sha256_test | ccm_test

definition CryptState_init :: "(ltc_call \<Rightarrow> bool) \<Rightarrow> bool \<Rightarrow> bool \<Rightarrow> (bool \<times> bool) res" where
  "CryptState_init call er initialized =
     (if er then Inl AssertFailed
      else if initialized then Inr (True, True)
      else if list_all call [register_prng, fortuna_test, rng_make_prng, register_cipher,
          rijndael_test, register_hash, sha256_test, ccm_test]
      then Inr (True, True)
      else Inr (False, False))"

section \<open>Nonces and keys\<close>

text \<open>The two numbers of a nonce in memory, least significant byte first.\<close>

definition word_bytes :: "64 word \<Rightarrow> string" where
  "word_bytes w = map (\<lambda>i. char_of (unat (drop_bit (8 * i) w))) [0..<8]"

definition bytes_word :: "string \<Rightarrow> 64 word" where
  "bytes_word bs = horner_sum (\<lambda>c. of_nat (of_char c)) 256 bs"

definition nonce_raw :: "CryptNonce \<Rightarrow> string" where
  "nonce_raw n = word_bytes (n_left n) @ word_bytes (n_right n)"

definition raw_nonce :: "string \<Rightarrow> CryptNonce" where
  "raw_nonce bs = \<lparr> n_left = bytes_word (take 8 bs), n_right = bytes_word (take 8 (drop 8 bs)) \<rparr>"

definition CryptState_nonce_inc :: "CryptNonce \<Rightarrow> CryptNonce" where
  "CryptState_nonce_inc n = \<lparr> n_left = n_left n + 1, n_right = n_right n + 1 \<rparr>"

definition CryptState_nonce_check :: "CryptNonce \<Rightarrow> CryptNonce \<Rightarrow> bool" where
  "CryptState_nonce_check a b \<longleftrightarrow> n_left a = n_left b \<and> n_right a = n_right b"

definition the_side :: "crypt_key_side \<Rightarrow> CryptState \<Rightarrow> CryptPeer" where
  "the_side my_key st = (case my_key of CRYPT_MY_KEY \<Rightarrow> cs_me st | CRYPT_THEIR_KEY \<Rightarrow> cs_them st)"

definition upd_side :: "crypt_key_side \<Rightarrow> (CryptPeer \<Rightarrow> CryptPeer) \<Rightarrow> CryptState \<Rightarrow> CryptState" where
  "upd_side my_key f st =
     (case my_key of
        CRYPT_MY_KEY \<Rightarrow> st\<lparr> cs_me := f (cs_me st) \<rparr>
      | CRYPT_THEIR_KEY \<Rightarrow> st\<lparr> cs_them := f (cs_them st) \<rparr>)"

definition upd_crypt :: "(CryptState \<Rightarrow> CryptState) \<Rightarrow> ('b, 'n, 'w) sess \<Rightarrow> ('b, 'n, 'w) sess" where
  "upd_crypt f s = s\<lparr> s_crypt := f (s_crypt s) \<rparr>"

abbreviation upd_me :: "(CryptPeer \<Rightarrow> CryptPeer) \<Rightarrow> ('b, 'n, 'w) sess \<Rightarrow> ('b, 'n, 'w) sess" where
  "upd_me f \<equiv> upd_crypt (upd_side CRYPT_MY_KEY f)"

abbreviation upd_them :: "(CryptPeer \<Rightarrow> CryptPeer) \<Rightarrow> ('b, 'n, 'w) sess \<Rightarrow> ('b, 'n, 'w) sess" where
  "upd_them f \<equiv> upd_crypt (upd_side CRYPT_THEIR_KEY f)"

abbreviation me :: "('b, 'n, 'w) sess \<Rightarrow> CryptPeer" where "me s \<equiv> cs_me (s_crypt s)"

abbreviation them :: "('b, 'n, 'w) sess \<Rightarrow> CryptPeer" where "them s \<equiv> cs_them (s_crypt s)"

definition zero_nonce :: CryptNonce where "zero_nonce = \<lparr> n_left = 0, n_right = 0 \<rparr>"

definition zero_skey :: "ltc \<Rightarrow> symmetric_key" where
  "zero_skey L = replicate (sizeof_symmetric_key L) NUL"

text \<open>\<open>CryptState_rand\<close>: the bytes read, and whether they are as many as asked for.\<close>

definition CryptState_rand :: "ltc \<Rightarrow> nat \<Rightarrow> (bool \<times> string, ('b, 'n, 'w) sess) proc" where
  "CryptState_rand L len s =
     (case fortuna_read L len (s_prng s) of
        (bytes, g) \<Rightarrow> Some (Inr ((length bytes = len, bytes), s\<lparr> s_prng := g \<rparr>)))"

text \<open>The nonce that \<open>CryptState_create_nonce\<close> leaves where \<open>old\<close> was.\<close>

definition CryptState_create_nonce :: "ltc \<Rightarrow> CryptNonce \<Rightarrow> (bool \<times> CryptNonce, ('b, 'n, 'w) sess) proc" where
  "CryptState_create_nonce L old =
     bindp (CryptState_rand L NONCE_LENGTH) (\<lambda>(rc, bytes).
       ret (rc, raw_nonce (bytes @ drop (length bytes) (nonce_raw old))))"

definition create_my_nonce :: "ltc \<Rightarrow> (bool, ('b, 'n, 'w) sess) proc" where
  "create_my_nonce L =
     bindp (gets (\<lambda>s. cp_nonce (me s))) (\<lambda>old.
     bindp (CryptState_create_nonce L old) (\<lambda>(rc, n).
     bindp (modify (upd_me (cp_nonce_update (\<lambda>_. n)))) (\<lambda>_.
     ret rc)))"

definition CryptState_rand_sess :: "ltc \<Rightarrow> (unit, ('b, 'n, 'w) sess) proc" where
  "CryptState_rand_sess L =
     bindp (CryptState_rand L KEY_LENGTH) (\<lambda>(rc, bytes).
     assertp rc (
     modify (upd_me (\<lambda>p. p\<lparr> cp_session := Some bytes, cp_freed := (fst (cp_freed p), False) \<rparr>))))"

definition CryptState_ecc_key_bstr :: "ltc \<Rightarrow> ecc_key \<Rightarrow> pk_type \<Rightarrow> (bstring, ('b, 'n, 'w) sess) proc" where
  "CryptState_ecc_key_bstr L key type =
     (let out = ecc_export L type key
      in check (out \<noteq> None) (ret None) (ret out))"

definition CryptState_export_key :: "ltc \<Rightarrow> crypt_key_side \<Rightarrow> pk_type \<Rightarrow> (bstring, ('b, 'n, 'w) sess) proc" where
  "CryptState_export_key L my_key type =
     bindp (gets (\<lambda>s. cp_key (the_side my_key (s_crypt s)))) (\<lambda>key.
     CryptState_ecc_key_bstr L key type)"

text \<open>The key that \<open>CryptState_bstr_ecc_key\<close> stores, if any.\<close>

definition CryptState_bstr_ecc_key :: "ltc \<Rightarrow> bstring \<Rightarrow> (ecc_key option, ('b, 'n, 'w) sess) proc" where
  "CryptState_bstr_ecc_key L from =
     assertp (from \<noteq> None) (
     let key = ecc_import L (the from)
     in check (key \<noteq> None) (ret None) (ret key))"

definition CryptState_import_key :: "ltc \<Rightarrow> crypt_key_side \<Rightarrow> bstring \<Rightarrow> (bool, ('b, 'n, 'w) sess) proc" where
  "CryptState_import_key L my_key from =
     bindp (CryptState_bstr_ecc_key L from) (\<lambda>key.
     case key of
       None \<Rightarrow> ret False
     | Some k \<Rightarrow> bindp (modify (upd_crypt (upd_side my_key (cp_key_update (\<lambda>_. k))))) (\<lambda>_. ret True))"

definition CryptState_create_key :: "ltc \<Rightarrow> (bool, ('b, 'n, 'w) sess) proc" where
  "CryptState_create_key L s =
     (case ecc_make_key L (s_prng s) KEY_LENGTH of
        (key, g) \<Rightarrow>
          check (key \<noteq> None) (ret False)
            (bindp (modify (upd_me (cp_key_update (\<lambda>_. the key)))) (\<lambda>_. ret True)) (s\<lparr> s_prng := g \<rparr>))"

section \<open>Creating, clearing and destroying a state\<close>

text \<open>
  \<open>CryptState_peer_destroy\<close> releases the strings of a side and leaves the pointers to them.
\<close>

definition CryptState_peer_destroy :: "ltc \<Rightarrow> crypt_key_side \<Rightarrow> (unit, ('b, 'n, 'w) sess) proc" where
  "CryptState_peer_destroy L my_key =
     bindp (gets (\<lambda>s. the_side my_key (s_crypt s))) (\<lambda>p.
     if (cp_name p \<noteq> None \<and> fst (cp_freed p)) \<or> (cp_session p \<noteq> None \<and> snd (cp_freed p)) then crash Dangling
     else modify (upd_crypt (upd_side my_key (\<lambda>p.
            p\<lparr> cp_freed := (cp_name p \<noteq> None, cp_session p \<noteq> None), cp_skey := zero_skey L,
               cp_nonce := zero_nonce \<rparr>))))"

definition CryptState_destroy :: "ltc \<Rightarrow> (unit, ('b, 'n, 'w) sess) proc" where
  "CryptState_destroy L =
     bindp (CryptState_peer_destroy L CRYPT_MY_KEY) (\<lambda>_. CryptState_peer_destroy L CRYPT_THEIR_KEY)"

definition zero_peer :: "ltc \<Rightarrow> CryptPeer" where
  "zero_peer L =
     \<lparr> cp_name = None, cp_nonce = zero_nonce, cp_key = replicate (sizeof_ecc_key L) NUL,
       cp_session = None, cp_skey = zero_skey L, cp_freed = (False, False) \<rparr>"

text \<open>
  \<open>CryptState_create\<close> makes the state of the session. It returns the state on every way out,
  also when no key could be imported or made.
\<close>

definition CryptState_create :: "ltc \<Rightarrow> bstring \<Rightarrow> bstring \<Rightarrow> (unit, ('b, 'n, 'w) sess) proc" where
  "CryptState_create L name prvkey =
     assertp (name \<noteq> None) (
     bindp (modify (\<lambda>s. s\<lparr> s_crypt :=
       \<lparr> cs_me = (zero_peer L)\<lparr> cp_name := bstrcpy name \<rparr>, cs_them = zero_peer L, cs_data = None,
         cs_shared = zero_skey L \<rparr> \<rparr>)) (\<lambda>_.
     bindp (if prvkey \<noteq> None then CryptState_import_key L CRYPT_MY_KEY prvkey else CryptState_create_key L) (\<lambda>rc.
     check rc (ret ()) (
     CryptState_rand_sess L))))"

definition CryptState_reset :: "ltc \<Rightarrow> (unit, ('b, 'n, 'w) sess) proc" where
  "CryptState_reset L =
     bindp (CryptState_peer_destroy L CRYPT_THEIR_KEY) (\<lambda>_.
     bindp (modify (upd_crypt (\<lambda>st. st\<lparr> cs_shared := zero_skey L \<rparr>))) (\<lambda>_.
     bindp (modify (upd_me (\<lambda>p. p\<lparr> cp_nonce := zero_nonce, cp_skey := zero_skey L \<rparr>))) (\<lambda>_.
     CryptState_rand_sess L)))"

section \<open>Packets\<close>

definition CryptState_encrypt_packet ::
  "ltc \<Rightarrow> symmetric_key \<Rightarrow> bstring \<Rightarrow> bstring \<Rightarrow> (node option, ('b, 'n, 'w) sess) proc" where
  "CryptState_encrypt_packet L key header payload =
     assertp (header \<noteq> None) (
     assertp (payload \<noteq> None) (
     bindp (gets (\<lambda>s. ccm_memory L key (nonce_raw (cp_nonce (them s))) (the header) (the payload) CCM_ENCRYPT)) (\<lambda>(ok, buf, tag).
     check ok (ret None) (
     bindp (modify (upd_them (\<lambda>p. p\<lparr> cp_nonce := CryptState_nonce_inc (cp_nonce p) \<rparr>))) (\<lambda>_.
     cons ''[bbw'' [CBstr (Some buf), CBstr (Some tag), CWord (Some CRYPT_ENV_MSG)])))))"

definition CryptState_encrypt_node ::
  "ltc \<Rightarrow> symmetric_key \<Rightarrow> bstring \<Rightarrow> node option \<Rightarrow> (node option, ('b, 'n, 'w) sess) proc" where
  "CryptState_encrypt_node L key header payload =
     assertp (header \<noteq> None) (
     assertp (payload \<noteq> None) (
     bindp (bstr payload) (\<lambda>pbuf.
     check True (ret None) (
     bindp (CryptState_encrypt_packet L key header (Some pbuf)) (\<lambda>msg.
     check (msg \<noteq> None) (ret None) (
     ret msg))))))"

text \<open>The values \<open>Node_decons\<close> stored, by position.\<close>

definition out_str :: "dout list \<Rightarrow> nat \<Rightarrow> bstring" where
  "out_str outs i = (if i < length outs then (case outs ! i of OStr b \<Rightarrow> b | _ \<Rightarrow> None) else None)"

definition out_num :: "dout list \<Rightarrow> nat \<Rightarrow> 64 word \<Rightarrow> 64 word" where
  "out_num outs i old = (if i < length outs then (case outs ! i of ONumber n \<Rightarrow> n | _ \<Rightarrow> old) else old)"

text \<open>
  \<open>CryptState_decrypt_packet\<close> works in place and returns \<open>payload\<close>, a string of the packet, on
  every way out: also when \<open>Node_decons\<close> or the cipher failed after it was stored. The second
  result says that the string was released although the packet still has it.
\<close>

definition CryptState_decrypt_packet ::
  "ltc \<Rightarrow> symmetric_key \<Rightarrow> bstring \<Rightarrow> node option \<Rightarrow> (bstring \<times> bool, ('b, 'n, 'w) sess) proc" where
  "CryptState_decrypt_packet L key header packet =
     assertp (header \<noteq> None) (
     assertp (packet \<noteq> None) (
     bindp (decons packet False ''[bbw'' [DStr, DStr, DWord CRYPT_ENV_MSG]) (\<lambda>(rc, outs).
     let rectag = out_str outs 0; payload = out_str outs 1
     in check rc (ret (payload, False)) (
        bindp (gets (\<lambda>s. ccm_memory L key (nonce_raw (cp_nonce (me s))) (the header) (the payload) CCM_DECRYPT)) (\<lambda>(ok, buf, tag).
        check ok (ret (Some buf, False)) (
        bindp (modify (upd_me (\<lambda>p. p\<lparr> cp_nonce := CryptState_nonce_inc (cp_nonce p) \<rparr>))) (\<lambda>_.
        check (biseq (Some tag) rectag \<noteq> 0) (ret (None, True)) (
        ret (Some buf, False)))))))))"

definition CryptState_decrypt_node ::
  "ltc \<Rightarrow> symmetric_key \<Rightarrow> bstring \<Rightarrow> node option \<Rightarrow> (node option \<times> bool, ('b, 'n, 'w) sess) proc" where
  "CryptState_decrypt_node L key header packet =
     bindp (CryptState_decrypt_packet L key header packet) (\<lambda>(pbuf, freed).
     check (pbuf \<noteq> None \<and> 0 < blength pbuf) (ret (None, freed)) (
     bindp (parse pbuf) (\<lambda>payload.
     check (payload \<noteq> None) (ret (payload, freed)) (
     ret (payload, freed)))))"

section \<open>Key agreement: the shared key\<close>

type_synonym 'w confirm = "CryptState \<Rightarrow> bool \<Rightarrow> 'w \<Rightarrow> (bool \<times> bool \<times> 'w) res option"

definition call_confirm :: "'w confirm \<Rightarrow> (bool, ('b, 'n, 'w) sess) proc" where
  "call_confirm cb s =
     bind_opt (cb (s_crypt s) (s_errno s) (s_rest s)) (\<lambda>(rc, er, w).
       Some (Inr (rc, s\<lparr> s_errno := er, s_rest := w \<rparr>)))"

definition set_them_nonce :: "dout list \<Rightarrow> nat \<Rightarrow> CryptPeer \<Rightarrow> CryptPeer" where
  "set_them_nonce outs i p =
     p\<lparr> cp_nonce := \<lparr> n_left = out_num outs i (n_left (cp_nonce p)),
        n_right = out_num outs (i + 1) (n_right (cp_nonce p)) \<rparr> \<rparr>"

definition derive_shared :: "ltc \<Rightarrow> bstring \<Rightarrow> 'w confirm \<Rightarrow> (bool, ('b, 'n, 'w) sess) proc" where
  "derive_shared L ecc_key key_confirm =
     bindp (CryptState_import_key L CRYPT_THEIR_KEY ecc_key) (\<lambda>rc.
     check rc (ret False) (
     bindp (call_confirm key_confirm) (\<lambda>rc.
     check rc (ret False) (
     bindp (gets (\<lambda>s. ecc_shared_secret L (cp_key (me s)) (cp_key (them s)))) (\<lambda>shared.
     check (shared \<noteq> None) (ret False) (
     let skey = rijndael_setup L shared
     in check (skey \<noteq> None) (ret False) (
        bindp (modify (upd_crypt (\<lambda>st. st\<lparr> cs_shared := the skey \<rparr>))) (\<lambda>_.
        ret True))))))))"

definition CryptState_create_shared_key ::
  "ltc \<Rightarrow> node option \<Rightarrow> bool \<Rightarrow> 'w confirm \<Rightarrow> (bool, ('b, 'n, 'w) sess) proc" where
  "CryptState_create_shared_key L header nonced key_confirm =
     assertp (header \<noteq> None) (
     bindp (if nonced
            then bindp (decons header False ''[bnnw'' [DStr, DNumber, DNumber, DWord CRYPT_HEADER]) (\<lambda>(rc, outs).
                 bindp (modify (upd_them (set_them_nonce outs 1))) (\<lambda>_. ret (rc, outs)))
            else decons header False ''[bw'' [DStr, DWord CRYPT_HEADER]) (\<lambda>(rc, outs).
     check rc (ret False) (
     derive_shared L (out_str outs 0) key_confirm)))"

definition CryptState_finalize_session :: "ltc \<Rightarrow> (bool, ('b, 'n, 'w) sess) proc" where
  "CryptState_finalize_session L =
     (let done = (\<lambda>rc.
        bindp (modify (upd_crypt (\<lambda>st. st\<lparr> cs_shared := zero_skey L \<rparr>))) (\<lambda>_.
        bindp (gets (\<lambda>s. (cp_session (me s) \<noteq> None \<and> snd (cp_freed (me s))) \<or>
                          (cp_session (them s) \<noteq> None \<and> snd (cp_freed (them s))))) (\<lambda>gone.
        if gone then crash Dangling
        else
          bindp (modify (upd_me (cp_session_update (\<lambda>_. None)))) (\<lambda>_.
          bindp (modify (upd_them (cp_session_update (\<lambda>_. None)))) (\<lambda>_.
          ret rc)))))
      in bindp (gets (\<lambda>s. rijndael_setup L (cp_session (me s)))) (\<lambda>mine.
         check (mine \<noteq> None) (done (mine \<noteq> None)) (
         bindp (modify (upd_me (cp_skey_update (\<lambda>_. the mine)))) (\<lambda>_.
         bindp (gets (\<lambda>s. rijndael_setup L (cp_session (them s)))) (\<lambda>theirs.
         check (theirs \<noteq> None) (done (theirs \<noteq> None)) (
         bindp (modify (upd_them (cp_skey_update (\<lambda>_. the theirs)))) (\<lambda>_.
         done True)))))))"

section \<open>Key agreement: the receiver\<close>

definition CryptState_receiver_start :: "ltc \<Rightarrow> (node option, ('b, 'n, 'w) sess) proc" where
  "CryptState_receiver_start L =
     bindp (create_my_nonce L) (\<lambda>rc.
     check rc (ret None) (
     bindp (CryptState_export_key L CRYPT_MY_KEY PK_PUBLIC) (\<lambda>key.
     bindp (gets (\<lambda>s. cp_nonce (me s))) (\<lambda>n.
     bindp (cons ''[nnbw'' [CNumber (n_right n), CNumber (n_left n), CBstr key, CWord (Some CRYPT_HEADER)]) (\<lambda>msg.
     check (msg \<noteq> None) (ret None) (
     ret msg))))))"

text \<open>Both ends store the session key and the name a decrypted message gives.\<close>

definition set_them_ident :: "dout list \<Rightarrow> nat \<Rightarrow> CryptPeer \<Rightarrow> CryptPeer" where
  "set_them_ident outs i p =
     (let p1 = (if i < length outs
                then p\<lparr> cp_session := out_str outs i, cp_freed := (fst (cp_freed p), False) \<rparr> else p)
      in if i + 1 < length outs
         then p1\<lparr> cp_name := out_str outs (i + 1), cp_freed := (False, snd (cp_freed p1)) \<rparr> else p1)"

text \<open>The second result: the payload of the packet was released.\<close>

definition CryptState_receiver_process_response ::
  "ltc \<Rightarrow> bstring \<Rightarrow> node option \<Rightarrow> 'w confirm \<Rightarrow> (bool \<times> bool, ('b, 'n, 'w) sess) proc" where
  "CryptState_receiver_process_response L hbuf payload key_confirm =
     assertp (payload \<noteq> None) (
     assertp (hbuf \<noteq> None) (
     bindp (parse hbuf) (\<lambda>header.
     check (header \<noteq> None) (ret (False, False)) (
     bindp (CryptState_create_shared_key L header False key_confirm) (\<lambda>rc.
     bindp (destroy header) (\<lambda>_.
     check rc (ret (False, False)) (
     bindp (gets (\<lambda>s. cs_shared (s_crypt s))) (\<lambda>shared.
     bindp (CryptState_decrypt_node L shared hbuf payload) (\<lambda>(ident, freed).
     check (ident \<noteq> None) (ret (False, freed)) (
     bindp (decons ident True ''[nnbsw'' [DNumber, DNumber, DStr, DStr, DWord CRYPT_INIT_MSG]) (\<lambda>(rc, outs).
     bindp (modify (upd_them (\<lambda>p. set_them_ident outs 2 (set_them_nonce outs 0 p)))) (\<lambda>_.
     bindp (destroy ident) (\<lambda>_.
     check rc (ret (False, freed)) (
     ret (True, freed)))))))))))))))"

definition empty_header :: string where "empty_header = ''[ header '' @ [CHR 0x0A]"

definition CryptState_receiver_send_final :: "ltc \<Rightarrow> (node option \<times> bstring, ('b, 'n, 'w) sess) proc" where
  "CryptState_receiver_send_final L =
     (let hbuf = Some empty_header
      in check True (ret (None, hbuf)) (
         bindp (create_my_nonce L) (\<lambda>rc.
         check rc (ret (None, hbuf)) (
         bindp (gets (\<lambda>s. (me s, cp_nonce (them s)))) (\<lambda>(p, tn).
         bindp (cons ''[sbnnnnw'' [CBstr (bstrcpy (cp_name p)), CBstr (bstrcpy (cp_session p)),
             CNumber (n_right tn), CNumber (n_left tn),
             CNumber (n_right (cp_nonce p)), CNumber (n_left (cp_nonce p)), CWord (Some CRYPT_RECV_MSG)]) (\<lambda>payload.
         check (payload \<noteq> None) (ret (None, hbuf)) (
         bindp (gets (\<lambda>s. cs_shared (s_crypt s))) (\<lambda>shared.
         bindp (CryptState_encrypt_node L shared hbuf payload) (\<lambda>msg.
         check (msg \<noteq> None) (bindp (destroy payload) (\<lambda>_. ret (msg, hbuf))) (
         bindp (destroy payload) (\<lambda>_. ret (msg, hbuf))))))))))))"

text \<open>The second result: the payload of the packet was released.\<close>

definition CryptState_receiver_done ::
  "ltc \<Rightarrow> bstring \<Rightarrow> node option \<Rightarrow> (bool \<times> bool, ('b, 'n, 'w) sess) proc" where
  "CryptState_receiver_done L header msg =
     assertp (header \<noteq> None) (
     assertp (msg \<noteq> None) (
     bindp (gets (\<lambda>s. cs_shared (s_crypt s))) (\<lambda>shared.
     bindp (CryptState_decrypt_node L shared header msg) (\<lambda>(payload, freed).
     let out = (\<lambda>rc. bindp (destroy payload) (\<lambda>_. ret (rc, freed)))
     in check (payload \<noteq> None) (out False) (
        bindp (decons payload False ''[nnw'' [DNumber, DNumber, DWord CRYPT_INIT_MSG]) (\<lambda>(rc, outs).
        check rc (out False) (
        let expected = CryptState_nonce_inc \<lparr> n_left = out_num outs 0 0, n_right = out_num outs 1 0 \<rparr>
        in bindp (gets (\<lambda>s. CryptState_nonce_check (cp_nonce (me s)) expected)) (\<lambda>same.
           check same (out False) (
           bindp (CryptState_finalize_session L) (\<lambda>rc.
           check rc (out rc) (
           out rc)))))))))))"

section \<open>Key agreement: the initiator\<close>

definition CryptState_initiator_start ::
  "ltc \<Rightarrow> node option \<Rightarrow> 'w confirm \<Rightarrow> (node option \<times> bstring, ('b, 'n, 'w) sess) proc" where
  "CryptState_initiator_start L recvhdr key_confirm =
     assertp (recvhdr \<noteq> None) (
     bindp (CryptState_create_shared_key L recvhdr True key_confirm) (\<lambda>rc.
     check rc (ret (None, None)) (
     bindp (CryptState_export_key L CRYPT_MY_KEY PK_PUBLIC) (\<lambda>ecc_key.
     check (ecc_key \<noteq> None) (ret (None, None)) (
     bindp (cons ''[bw'' [CBstr ecc_key, CWord (Some CRYPT_HEADER)]) (\<lambda>header.
     bindp (bstr header) (\<lambda>hbuf.
     let out = (\<lambda>payload msg.
           bindp (destroy header) (\<lambda>_. bindp (destroy payload) (\<lambda>_. ret (msg, Some hbuf))))
     in bindp (create_my_nonce L) (\<lambda>rc.
        check rc (out None None) (
        bindp (gets me) (\<lambda>p.
        bindp (cons ''[sbnnw'' [CBstr (bstrcpy (cp_name p)), CBstr (bstrcpy (cp_session p)),
            CNumber (n_right (cp_nonce p)), CNumber (n_left (cp_nonce p)), CWord (Some CRYPT_INIT_MSG)]) (\<lambda>payload.
        check (payload \<noteq> None) (out payload None) (
        bindp (gets (\<lambda>s. cs_shared (s_crypt s))) (\<lambda>shared.
        bindp (CryptState_encrypt_node L shared (Some hbuf) payload) (\<lambda>msg.
        check (msg \<noteq> None) (out payload msg) (
        out payload msg)))))))))))))))"

text \<open>
  The nonce is compared, but the jump out of a failed comparison returns \<open>rc\<close>, which is what
  \<open>Node_decons\<close> returned. The second result: the payload of the packet was released.
\<close>

definition CryptState_initiator_process_response ::
  "ltc \<Rightarrow> bstring \<Rightarrow> node option \<Rightarrow> (bool \<times> bool, ('b, 'n, 'w) sess) proc" where
  "CryptState_initiator_process_response L header msg =
     assertp (header \<noteq> None) (
     assertp (msg \<noteq> None) (
     bindp (gets (\<lambda>s. cs_shared (s_crypt s))) (\<lambda>shared.
     bindp (CryptState_decrypt_node L shared header msg) (\<lambda>(payload, freed).
     let out = (\<lambda>rc. bindp (destroy payload) (\<lambda>_. ret (rc, freed)))
     in check (payload \<noteq> None) (out False) (
        bindp (decons payload True ''[nnnnbsw'' [DNumber, DNumber, DNumber, DNumber, DStr, DStr, DWord CRYPT_RECV_MSG]) (\<lambda>(rc, outs).
        bindp (modify (upd_them (\<lambda>p. set_them_ident outs 4 (set_them_nonce outs 0 p)))) (\<lambda>_.
        bindp (gets (\<lambda>s. cp_name (them s))) (\<lambda>name.
        check (name \<noteq> None) (out rc) (
        check rc (out rc) (
        let me_nonce = CryptState_nonce_inc \<lparr> n_left = out_num outs 2 0, n_right = out_num outs 3 0 \<rparr>
        in bindp (gets (\<lambda>s. CryptState_nonce_check (cp_nonce (me s)) me_nonce)) (\<lambda>same.
           check same (out rc) (
           out rc))))))))))))"

definition CryptState_initiator_send_final :: "ltc \<Rightarrow> (node option \<times> bstring, ('b, 'n, 'w) sess) proc" where
  "CryptState_initiator_send_final L =
     (let hbuf = Some empty_header
      in bindp (gets (\<lambda>s. (cp_nonce (them s), cs_shared (s_crypt s)))) (\<lambda>(tn, shared).
         bindp (cons ''[nnw'' [CNumber (n_right tn), CNumber (n_left tn), CWord (Some CRYPT_INIT_MSG)]) (\<lambda>payload.
         let out = (\<lambda>msg. bindp (destroy payload) (\<lambda>_. ret (msg, hbuf)))
         in check (payload \<noteq> None) (out None) (
            bindp (CryptState_encrypt_node L shared hbuf payload) (\<lambda>msg.
            check (msg \<noteq> None) (out msg) (
            bindp (CryptState_finalize_session L) (\<lambda>rc.
            check rc (out msg) (
            out msg))))))))"

end
