(* ===== verification/Frame.thy ===== *)
theory Frame
  imports Session Roundtrip
begin

text \<open>
  Frames (\<open>src/protocol/frame.c\<close>): a length of two bytes, the text of a header and the text
  of a message.
\<close>

section \<open>Reading and writing\<close>

text \<open>
  The loop of \<open>io_ensure_sbuf\<close>. All three ways out of it before the data is there return
  \<open>rc\<close> as the last read left it and clear \<open>errno\<close>; they differ in what is logged.
\<close>

partial_function (option) ensure_loop ::
  "('b, 'n) io \<Rightarrow> bool \<Rightarrow> bool \<Rightarrow> 'b \<Rightarrow> 'n \<Rightarrow> nat \<Rightarrow> (bool \<times> bool \<times> 'b \<times> 'n) option" where
  "ensure_loop io rc er buf fd len =
     (if len \<le> sbuf_data_avail io buf then Some (rc, er, buf, fd)
      else case io_read_sbuf io er fd buf of
             (rc', ntrans, er', fd', buf') \<Rightarrow>
               if \<not> rc' \<or> er' \<or> ntrans = 0 then Some (rc', False, buf', fd')
               else ensure_loop io rc' er' buf' fd' len)"

definition io_ensure_sbuf :: "('b, 'n) io \<Rightarrow> nat \<Rightarrow> (bool, ('b, 'n, 'w) sess) proc" where
  "io_ensure_sbuf io len s =
     (let src = s_source s
      in if \<not> isvalidsock io (fs_fd src) then Some (Inl AssertFailed)
         else case ensure_loop io True (s_errno s) (fs_in src) (fs_fd src) len of
                None \<Rightarrow> None
              | Some (rc, er, buf, fd) \<Rightarrow>
                  Some (Inr (rc, s\<lparr> s_errno := er, s_source := src\<lparr> fs_in := buf, fs_fd := fd \<rparr> \<rparr>)))"

definition get_ntohs :: "('b, 'n) io \<Rightarrow> (bool \<times> 16 word, ('b, 'n, 'w) sess) proc" where
  "get_ntohs io s =
     (case sbuf_get_ntohs io (fs_in (s_source s)) of
        (rc, v, b) \<Rightarrow> Some (Inr ((rc, v), s\<lparr> s_source := (s_source s)\<lparr> fs_in := b \<rparr> \<rparr>)))"

definition read_bstr :: "('b, 'n) io \<Rightarrow> nat \<Rightarrow> (bstring, ('b, 'n, 'w) sess) proc" where
  "read_bstr io len s =
     (case sbuf_read_bstr io (fs_in (s_source s)) len of
        (d, b) \<Rightarrow> Some (Inr (d, s\<lparr> s_source := (s_source s)\<lparr> fs_in := b \<rparr> \<rparr>)))"

definition put_htons :: "('b, 'n) io \<Rightarrow> 16 word \<Rightarrow> (bool, ('b, 'n, 'w) sess) proc" where
  "put_htons io v s =
     (case sbuf_put_htons io (fs_out (s_source s)) v of
        (rc, b) \<Rightarrow> Some (Inr (rc, s\<lparr> s_source := (s_source s)\<lparr> fs_out := b \<rparr> \<rparr>)))"

definition write_bstr :: "('b, 'n) io \<Rightarrow> string \<Rightarrow> (bool, ('b, 'n, 'w) sess) proc" where
  "write_bstr io x s =
     (case sbuf_write_bstr io (fs_out (s_source s)) x of
        (rc, b) \<Rightarrow> Some (Inr (rc, s\<lparr> s_source := (s_source s)\<lparr> fs_out := b \<rparr> \<rparr>)))"

definition flush_out :: "('b, 'n) io \<Rightarrow> (bool, ('b, 'n, 'w) sess) proc" where
  "flush_out io s =
     (case io_flush_sbuf io (s_errno s) (fs_fd (s_source s)) (fs_out (s_source s)) of
        (rc, er, fd, b) \<Rightarrow>
          Some (Inr (rc, s\<lparr> s_errno := er, s_source := (s_source s)\<lparr> fs_out := b, fs_fd := fd \<rparr> \<rparr>)))"

definition parse_seq :: "bstring \<Rightarrow> 64 word \<Rightarrow> (node option \<times> 64 word, ('b, 'n, 'w) sess) proc" where
  "parse_seq buf from s =
     bind_opt (Node_parse_seq (s_errno s) buf from) (\<lambda>r.
       Some (Inr ((pr_root r, pr_from r), s\<lparr> s_errno := pr_errno r \<rparr>)))"

section \<open>\<open>FrameSource_recv\<close>\<close>

record recv =
  rv_msg :: "node option"
  rv_hbuf :: bstring
  rv_header :: "node option"

text \<open>
  The data of a frame. \<open>bmidstr\<close> takes the position as an \<open>int\<close>. The last \<open>check\<close> jumps
  to where the code goes anyway: it only clears \<open>errno\<close>.
\<close>

definition no_recv :: "(recv, ('b, 'n, 'w) sess) proc" where
  "no_recv = ret \<lparr> rv_msg = None, rv_hbuf = None, rv_header = None \<rparr>"

definition parse_frame :: "bstring \<Rightarrow> 16 word \<Rightarrow> (recv, ('b, 'n, 'w) sess) proc" where
  "parse_frame data len =
     bindp (parse_seq data 0) (\<lambda>(header, from).
     check (header \<noteq> None) no_recv (
     let hbuf = bmidstr data 0 (sint (ucast from :: 32 word));
         out = (\<lambda>msg. ret \<lparr> rv_msg = msg, rv_hbuf = hbuf, rv_header = header \<rparr>);
         last = (\<lambda>msg from. check (unat from = unat len) (out msg) (out msg))
     in if unat from < unat len then
          bindp (parse_seq data from) (\<lambda>(msg, from).
          check (msg \<noteq> None) (out msg) (last msg from))
        else last None from))"

definition FrameSource_recv :: "('b, 'n) io \<Rightarrow> (recv, ('b, 'n, 'w) sess) proc" where
  "FrameSource_recv io =
     bindp (io_ensure_sbuf io 2) (\<lambda>rc.
     if \<not> rc then no_recv
     else
       bindp (get_ntohs io) (\<lambda>(rc, len).
       check rc no_recv (
       check (0 < len) no_recv (
       bindp (io_ensure_sbuf io (unat len)) (\<lambda>rc.
       check rc no_recv (
       bindp (read_bstr io (unat len)) (\<lambda>data.
       check (data \<noteq> None) no_recv (
       check (blength data = uint len) no_recv (
       parse_frame data len)))))))))"

section \<open>\<open>FrameSource_send\<close>\<close>

definition FrameSource_send ::
  "('b, 'n) io \<Rightarrow> bstring \<Rightarrow> node option \<Rightarrow> bool \<Rightarrow> (bool, ('b, 'n, 'w) sess) proc" where
  "FrameSource_send io header msg flush =
     bindp (bstr msg) (\<lambda>data.
     assertp (header \<noteq> None) (
     assertp (msg \<noteq> None) (
     check True (ret False) (
     let msg_len = word_of_int (blength header + blength (Some data)) :: 16 word;
         room = (\<lambda>s. unat msg_len \<le> sbuf_space_avail io (fs_out (s_source s)));
         put = bindp (put_htons io msg_len) (\<lambda>rc.
               check rc (ret rc) (
               bindp (write_bstr io (the header)) (\<lambda>rc.
               check rc (ret rc) (
               bindp (write_bstr io data) (\<lambda>rc.
               check rc (ret rc) (
               if flush then
                 bindp (flush_out io) (\<lambda>rc.
                 check rc (ret rc) (ret rc))
               else ret rc))))))
     in bindp (gets room) (\<lambda>fits.
        if fits then put
        else bindp (flush_out io) (\<lambda>rc.
             check rc (ret rc) (
             bindp (gets room) (\<lambda>fits.
             check fits (ret False) put))))))))"

section \<open>What is asked of the buffers\<close>

text \<open>
  A view of the socket layer: the bytes in a buffer and how many it can hold, the bytes a
  socket will still deliver and those it was given. \<open>io_ok\<close> says what the code relies on: the
  buffer functions keep the bytes in order, a read brings at least one byte of what the peer
  sent if there is one and room for it, and a flush sends everything.
\<close>

record ('b, 'n) io_view =
  v_buf :: "'b \<Rightarrow> string"
  v_cap :: nat
  v_in :: "'n \<Rightarrow> string"
  v_out :: "'n \<Rightarrow> string"

definition be16 :: "nat \<Rightarrow> string" where
  "be16 n = [char_of (n div 256), char_of n]"

definition sbuf_ok :: "('b, 'n) io \<Rightarrow> ('b, 'n) io_view \<Rightarrow> bool" where
  "sbuf_ok io v \<longleftrightarrow>
     (\<forall>b. sbuf_data_avail io b = length (v_buf v b) \<and> length (v_buf v b) + sbuf_space_avail io b = v_cap v) \<and>
     v_buf v (sbuf_create io (v_cap v)) = [] \<and>
     (\<forall>b n rest. n < 2 ^ 16 \<longrightarrow> v_buf v b = be16 n @ rest \<longrightarrow>
        (\<exists>b'. sbuf_get_ntohs io b = (True, word_of_nat n, b') \<and> v_buf v b' = rest)) \<and>
     (\<forall>b n. n < 2 ^ 16 \<longrightarrow> length (v_buf v b) + 2 \<le> v_cap v \<longrightarrow>
        (\<exists>b'. sbuf_put_htons io b (word_of_nat n) = (True, b') \<and> v_buf v b' = v_buf v b @ be16 n)) \<and>
     (\<forall>b n. n \<le> length (v_buf v b) \<longrightarrow>
        (\<exists>b'. sbuf_read_bstr io b n = (Some (take n (v_buf v b)), b') \<and> v_buf v b' = drop n (v_buf v b))) \<and>
     (\<forall>b x. length (v_buf v b) + length x \<le> v_cap v \<longrightarrow>
        (\<exists>b'. sbuf_write_bstr io b x = (True, b') \<and> v_buf v b' = v_buf v b @ x))"

definition sock_ok :: "('b, 'n) io \<Rightarrow> ('b, 'n) io_view \<Rightarrow> bool" where
  "sock_ok io v \<longleftrightarrow>
     (\<forall>fd b. isvalidsock io fd \<longrightarrow> v_in v fd \<noteq> [] \<longrightarrow> length (v_buf v b) < v_cap v \<longrightarrow>
        (\<exists>k fd' b'. io_read_sbuf io False fd b = (True, k, False, fd', b') \<and> 0 < k \<and>
           v_buf v b' = v_buf v b @ take k (v_in v fd) \<and> v_in v fd' = drop k (v_in v fd) \<and>
           v_out v fd' = v_out v fd \<and> isvalidsock io fd')) \<and>
     (\<forall>fd b. isvalidsock io fd \<longrightarrow>
        (\<exists>fd' b'. io_flush_sbuf io False fd b = (True, False, fd', b') \<and> v_buf v b' = [] \<and>
           v_in v fd' = v_in v fd \<and> v_out v fd' = v_out v fd @ v_buf v b \<and> isvalidsock io fd'))"

definition io_ok :: "('b, 'n) io \<Rightarrow> ('b, 'n) io_view \<Rightarrow> bool" where
  "io_ok io v \<longleftrightarrow> sbuf_ok io v \<and> sock_ok io v"

lemma io_okD:
  assumes "io_ok io v"
  shows "sbuf_data_avail io b = length (v_buf v b)" "length (v_buf v b) + sbuf_space_avail io b = v_cap v"
    "n < 2 ^ 16 \<Longrightarrow> v_buf v b = be16 n @ rest \<Longrightarrow>
       \<exists>b'. sbuf_get_ntohs io b = (True, word_of_nat n, b') \<and> v_buf v b' = rest"
    "n < 2 ^ 16 \<Longrightarrow> length (v_buf v b) + 2 \<le> v_cap v \<Longrightarrow>
       \<exists>b'. sbuf_put_htons io b (word_of_nat n) = (True, b') \<and> v_buf v b' = v_buf v b @ be16 n"
    "m \<le> length (v_buf v b) \<Longrightarrow>
       \<exists>b'. sbuf_read_bstr io b m = (Some (take m (v_buf v b)), b') \<and> v_buf v b' = drop m (v_buf v b)"
    "length (v_buf v b) + length x \<le> v_cap v \<Longrightarrow>
       \<exists>b'. sbuf_write_bstr io b x = (True, b') \<and> v_buf v b' = v_buf v b @ x"
    "isvalidsock io fd \<Longrightarrow>
       \<exists>fd' b'. io_flush_sbuf io False fd b = (True, False, fd', b') \<and> v_buf v b' = [] \<and>
         v_in v fd' = v_in v fd \<and> v_out v fd' = v_out v fd @ v_buf v b \<and> isvalidsock io fd'"
proof -
  have sb: "sbuf_ok io v" and so: "sock_ok io v" using assms by (simp_all add: io_ok_def)
  show "sbuf_data_avail io b = length (v_buf v b)" "length (v_buf v b) + sbuf_space_avail io b = v_cap v"
    "n < 2 ^ 16 \<Longrightarrow> v_buf v b = be16 n @ rest \<Longrightarrow>
       \<exists>b'. sbuf_get_ntohs io b = (True, word_of_nat n, b') \<and> v_buf v b' = rest"
    "n < 2 ^ 16 \<Longrightarrow> length (v_buf v b) + 2 \<le> v_cap v \<Longrightarrow>
       \<exists>b'. sbuf_put_htons io b (word_of_nat n) = (True, b') \<and> v_buf v b' = v_buf v b @ be16 n"
    "m \<le> length (v_buf v b) \<Longrightarrow>
       \<exists>b'. sbuf_read_bstr io b m = (Some (take m (v_buf v b)), b') \<and> v_buf v b' = drop m (v_buf v b)"
    "length (v_buf v b) + length x \<le> v_cap v \<Longrightarrow>
       \<exists>b'. sbuf_write_bstr io b x = (True, b') \<and> v_buf v b' = v_buf v b @ x"
    using sb unfolding sbuf_ok_def by blast+
  show "isvalidsock io fd \<Longrightarrow>
       \<exists>fd' b'. io_flush_sbuf io False fd b = (True, False, fd', b') \<and> v_buf v b' = [] \<and>
         v_in v fd' = v_in v fd \<and> v_out v fd' = v_out v fd @ v_buf v b \<and> isvalidsock io fd'"
    using so unfolding sock_ok_def by blast
qed

lemma unat16: "n < 2 ^ 16 \<Longrightarrow> unat (word_of_nat n :: 16 word) = n"
  by (simp add: unsigned_of_nat take_bit_nat_eq_self)

text \<open>The bytes a frame source will deliver and those it has sent.\<close>

definition src_in :: "('b, 'n) io_view \<Rightarrow> ('b, 'n) FrameSource \<Rightarrow> string" where
  "src_in v src = v_buf v (fs_in src) @ v_in v (fs_fd src)"

definition src_sent :: "('b, 'n) io_view \<Rightarrow> ('b, 'n) FrameSource \<Rightarrow> string" where
  "src_sent v src = v_out v (fs_fd src)"

definition src_ok :: "('b, 'n) io \<Rightarrow> ('b, 'n) io_view \<Rightarrow> ('b, 'n) FrameSource \<Rightarrow> bool" where
  "src_ok io v src \<longleftrightarrow> isvalidsock io (fs_fd src) \<and> v_buf v (fs_out src) = []"

lemma ensure_loop_ok:
  assumes io: "io_ok io v" and cap: "len \<le> v_cap v"
  shows "isvalidsock io fd \<Longrightarrow> len \<le> length (v_buf v b @ v_in v fd) \<Longrightarrow>
    \<exists>b' fd'. ensure_loop io True False b fd len = Some (True, False, b', fd') \<and>
      len \<le> length (v_buf v b') \<and> v_buf v b' @ v_in v fd' = v_buf v b @ v_in v fd \<and>
      v_out v fd' = v_out v fd \<and> isvalidsock io fd'"
proof (induction "length (v_in v fd)" arbitrary: b fd rule: less_induct)
  case less
  have avail: "sbuf_data_avail io b = length (v_buf v b)" using io by (simp add: io_ok_def sbuf_ok_def)
  show ?case
  proof (cases "len \<le> length (v_buf v b)")
    case True
    then show ?thesis
      using less.prems(1) by (intro exI [of _ b] exI [of _ fd]) (simp add: ensure_loop.simps avail)
  next
    case False
    then have "v_in v fd \<noteq> []" "length (v_buf v b) < v_cap v" using less.prems(2) cap by auto
    with io less.prems(1) obtain k fd' b' where r: "io_read_sbuf io False fd b = (True, k, False, fd', b')" "0 < k"
      "v_buf v b' = v_buf v b @ take k (v_in v fd)" "v_in v fd' = drop k (v_in v fd)"
      "v_out v fd' = v_out v fd" "isvalidsock io fd'"
      unfolding io_ok_def sock_ok_def by blast
    have "ensure_loop io True False b fd len = ensure_loop io True False b' fd' len"
      using False r(1,2) by (subst ensure_loop.simps) (simp add: avail)
    moreover have "\<exists>b'' fd''. ensure_loop io True False b' fd' len = Some (True, False, b'', fd'') \<and>
        len \<le> length (v_buf v b'') \<and> v_buf v b'' @ v_in v fd'' = v_buf v b' @ v_in v fd' \<and>
        v_out v fd'' = v_out v fd' \<and> isvalidsock io fd''"
      by (rule less.hyps) (use r less.prems \<open>v_in v fd \<noteq> []\<close> in auto)
    ultimately show ?thesis using r(3-5) by auto
  qed
qed

section \<open>A frame is read as it was written\<close>

definition frame_bytes :: "string \<Rightarrow> string" where
  "frame_bytes data = be16 (length data) @ data"

definition node_text :: "node \<Rightarrow> string" where
  "node_text t = Node_catbstr [] [t] CHR '' '' True @ [CHR 0x0A]"

lemma bstr_Some [simp]: "bstr (Some t) = ret (node_text t)"
  by (simp add: bstr_def Node_bstr_def node_text_def)

lemma Node_bstr_node_text: "Node_bstr [t] True = Inr (node_text t)"
  by (simp add: Node_bstr_def node_text_def)

lemma io_ensure_ok:
  assumes io: "io_ok io v" and src: "src_ok io v (s_source s)" and er: "\<not> s_errno s"
    and len: "len \<le> v_cap v" "len \<le> length (src_in v (s_source s))"
  obtains src' where "io_ensure_sbuf io len s = Some (Inr (True, s\<lparr> s_source := src' \<rparr>))"
    "src_ok io v src'" "src_in v src' = src_in v (s_source s)" "src_sent v src' = src_sent v (s_source s)"
    "len \<le> length (v_buf v (fs_in src'))"
proof -
  define src where "src = s_source s"
  have "isvalidsock io (fs_fd src)" "len \<le> length (v_buf v (fs_in src) @ v_in v (fs_fd src))"
    using assms by (simp_all add: src_ok_def src_def src_in_def)
  from ensure_loop_ok [OF io len(1) this] obtain b fd where
    "ensure_loop io True False (fs_in src) (fs_fd src) len = Some (True, False, b, fd)"
    "len \<le> length (v_buf v b)" "v_buf v b @ v_in v fd = v_buf v (fs_in src) @ v_in v (fs_fd src)"
    "v_out v fd = v_out v (fs_fd src)" "isvalidsock io fd" by blast
  with that [of "src\<lparr> fs_in := b, fs_fd := fd \<rparr>"] er src show thesis
    by (cases s) (simp add: io_ensure_sbuf_def src_def src_ok_def src_in_def src_sent_def Let_def)
qed

lemma take_drop_prefix:
  assumes "xs @ ys = data @ rest" "length data \<le> length xs"
  shows "take (length data) xs = data" "drop (length data) xs @ ys = rest"
proof -
  have "take (length data) (xs @ ys) = data" "drop (length data) (xs @ ys) = rest" by (simp_all add: assms(1))
  with assms(2) show "take (length data) xs = data" "drop (length data) xs @ ys = rest" by simp_all
qed

lemma recv_frame:
  assumes io: "io_ok io v" and src: "src_ok io v (s_source s)" and er: "\<not> s_errno s"
    and bytes: "src_in v (s_source s) = frame_bytes data @ rest"
    and len: "data \<noteq> []" "length data \<le> v_cap v" "length data < 2 ^ 16" "2 \<le> v_cap v"
  obtains src' where "FrameSource_recv io s = parse_frame (Some data) (word_of_nat (length data)) (s\<lparr> s_source := src' \<rparr>)"
    "src_ok io v src'" "src_in v src' = rest" "src_sent v src' = src_sent v (s_source s)"
proof -
  define n where "n = length data"
  have n: "0 < n" "n < 2 ^ 16" "unat (word_of_nat n :: 16 word) = n"
    using len unat16 [of n] by (simp_all add: n_def)
  then have n0: "0 < (word_of_nat n :: 16 word)" by (simp add: word_less_nat_alt)
  obtain src1 where 1: "io_ensure_sbuf io 2 s = Some (Inr (True, s\<lparr> s_source := src1 \<rparr>))" "src_ok io v src1"
    "src_in v src1 = frame_bytes data @ rest" "src_sent v src1 = src_sent v (s_source s)" "2 \<le> length (v_buf v (fs_in src1))"
    using io_ensure_ok [OF io src er len(4)] bytes by (auto simp: frame_bytes_def be16_def)
  obtain tl where tl: "v_buf v (fs_in src1) = be16 n @ tl" "tl @ v_in v (fs_fd src1) = data @ rest"
  proof -
    obtain a b tl where "v_buf v (fs_in src1) = a # b # tl"
      using 1(5) by (cases "v_buf v (fs_in src1)"; cases "List.tl (v_buf v (fs_in src1))") auto
    with 1(3) that show thesis by (auto simp: src_in_def frame_bytes_def be16_def n_def)
  qed
  obtain b2 where 2: "sbuf_get_ntohs io (fs_in src1) = (True, word_of_nat n, b2)" "v_buf v b2 = tl"
    using io_okD(3) [OF io n(2) tl(1)] by blast
  define s2 where "s2 = s\<lparr> s_source := src1\<lparr> fs_in := b2 \<rparr> \<rparr>"
  have s2: "src_ok io v (s_source s2)" "\<not> s_errno s2" "src_in v (s_source s2) = data @ rest"
    "src_sent v (s_source s2) = src_sent v (s_source s)"
    using 1(2,4) er 2(2) tl(2) by (simp_all add: s2_def src_ok_def src_in_def src_sent_def)
  obtain src3 where 3: "io_ensure_sbuf io n s2 = Some (Inr (True, s2\<lparr> s_source := src3 \<rparr>))" "src_ok io v src3"
    "src_in v src3 = data @ rest" "src_sent v src3 = src_sent v (s_source s)" "n \<le> length (v_buf v (fs_in src3))"
    using io_ensure_ok [OF io s2(1,2), of n] s2(3,4) len(2) by (auto simp: n_def)
  obtain b4 where 4: "sbuf_read_bstr io (fs_in src3) n = (Some (take n (v_buf v (fs_in src3))), b4)"
    "v_buf v b4 = drop n (v_buf v (fs_in src3))"
    using io_okD(5) [OF io 3(5)] by blast
  have take: "take n (v_buf v (fs_in src3)) = data" "drop n (v_buf v (fs_in src3)) @ v_in v (fs_fd src3) = rest"
    using take_drop_prefix [OF 3(3) [unfolded src_in_def]] 3(5) by (simp_all add: n_def)
  define src4 where "src4 = src3\<lparr> fs_in := b4 \<rparr>"
  have uint: "uint (word_of_nat n :: 16 word) = int n" using n(3) by (metis uint_nat)
  have "FrameSource_recv io s = parse_frame (Some data) (word_of_nat n) (s\<lparr> s_source := src4 \<rparr>)"
    using er 1(1) 3(1) unfolding FrameSource_recv_def
    by (simp add: bindp_Some get_ntohs_def read_bstr_def 2(1) 4(1) take(1) s2_def src4_def n0 uint n_def [symmetric] n(3))
  then show thesis
    using that [of src4] 3(2,4) 4(2) take(2) by (simp add: src4_def src_ok_def src_in_def src_sent_def n_def)
qed

text \<open>The two shapes of frames: a document alone, which is taken as the header, or two documents.\<close>

lemma node_text_open:
  assumes "printable_root t"
  obtains tl where "node_text t = CHR ''['' # tl" "last (node_text t) = CHR 0x0A"
proof -
  have "node_text t = toks_text (tokens t) @ [CHR 0x0A]"
    using Node_bstr_text [OF printable_root_textual [OF assms], of True] by (simp add: Node_bstr_node_text)
  moreover have "nd_value t = VGroup" using assms by (simp add: printable_root_def)
  ultimately show thesis using that by (cases t) auto
qed

lemma parse_seq_printed:
  assumes t: "printable_root t" "nd_name t \<noteq> None" and er: "\<not> s_errno s"
    and len: "length (pre @ node_text t @ post) < 2 ^ 31"
    and post: "post = [] \<or> (hd post \<noteq> CHR 0x0A \<and> last post = CHR 0x0A)"
  shows "parse_seq (Some (pre @ node_text t @ post)) (word_of_nat (length pre)) s =
    Some (Inr ((Some t, word_of_nat (length pre + length (node_text t))), s))"
proof -
  have "post = [] \<or> last post \<in> {CHR '' '', CHR 0x0A, CHR 0x09}" using post by auto
  note p = parse_printed [OF t(1) Node_bstr_node_text len this]
  have "skip_newlines post = 0" using post by (cases post) auto
  with p t(2) er show ?thesis by (simp add: parse_seq_def)
qed

lemma small_words:
  assumes "n < 2 ^ 31"
  shows "unat (word_of_nat n :: 64 word) = n" "sint (ucast (word_of_nat n :: 64 word) :: 32 word) = int n"
proof -
  show "unat (word_of_nat n :: 64 word) = n" using assms by (rule unat_pos)
  have "(ucast (word_of_nat n :: 64 word) :: 32 word) = word_of_nat n"
    using assms by (simp add: unsigned_of_nat take_bit_nat_eq_self)
  then show "sint (ucast (word_of_nat n :: 64 word) :: 32 word) = int n"
    using assms by (simp add: signed_of_nat signed_take_bit_int_eq_self)
qed

lemma bmidstr_prefix: "bmidstr (Some (xs @ ys)) 0 (int (length xs)) = Some xs"
  by (simp add: bmidstr_def blk2bstr_def)

lemma parse_frame_single:
  assumes t: "printable_root t" "nd_name t \<noteq> None" and er: "\<not> s_errno s" and len: "length (node_text t) < 2 ^ 16"
  shows "parse_frame (Some (node_text t)) (word_of_nat (length (node_text t))) s =
    Some (Inr (\<lparr> rv_msg = None, rv_hbuf = Some (node_text t), rv_header = Some t \<rparr>, s))"
proof -
  define n where "n = length (node_text t)"
  have n: "n < 2 ^ 31" "unat (word_of_nat n :: 16 word) = n"
    using len unat16 [of n] by (simp_all add: n_def)
  have "parse_seq (Some (node_text t)) 0 s = Some (Inr ((Some t, word_of_nat n), s))"
    using parse_seq_printed [OF t er, of "[]" "[]"] n(1) by (simp add: n_def)
  then show ?thesis
    using er small_words [OF n(1)] bmidstr_prefix [of "node_text t" "[]"]
    by (simp add: parse_frame_def bindp_Some n_def [symmetric] n(2) ret_def Let_def)
qed

lemma parse_frame_pair:
  assumes h: "printable_root h" "nd_name h \<noteq> None" and t: "printable_root t" "nd_name t \<noteq> None"
    and er: "\<not> s_errno s" and len: "length (node_text h @ node_text t) < 2 ^ 16"
  shows "parse_frame (Some (node_text h @ node_text t)) (word_of_nat (length (node_text h @ node_text t))) s =
    Some (Inr (\<lparr> rv_msg = Some t, rv_hbuf = Some (node_text h), rv_header = Some h \<rparr>, s))"
proof -
  define n k where "n = length (node_text h @ node_text t)" and "k = length (node_text h)"
  have n: "n < 2 ^ 31" "k < 2 ^ 31" "unat (word_of_nat n :: 16 word) = n"
    using len unat16 [of n] by (simp_all add: n_def k_def)
  obtain tl where tl: "node_text t = CHR ''['' # tl" "last (node_text t) = CHR 0x0A" using node_text_open [OF t(1)] .
  then have kn: "k < n" by (simp add: k_def n_def)
  have 1: "parse_seq (Some (node_text h @ node_text t)) 0 s = Some (Inr ((Some h, word_of_nat k), s))"
    using parse_seq_printed [OF h er, of "[]" "node_text t"] n(1) tl by (simp add: n_def k_def)
  have 2: "parse_seq (Some (node_text h @ node_text t)) (word_of_nat k) s = Some (Inr ((Some t, word_of_nat n), s))"
    using parse_seq_printed [OF t er, of "node_text h" "[]"] n(1) by (simp add: n_def k_def)
  have "parse_frame (Some (node_text h @ node_text t)) (word_of_nat n) s =
    Some (Inr (\<lparr> rv_msg = Some t, rv_hbuf = Some (node_text h), rv_header = Some h \<rparr>, s))"
    using er small_words [OF n(1)] small_words [OF n(2)] kn bmidstr_prefix [of "node_text h" "node_text t"]
    by (simp add: parse_frame_def bindp_Some 1 2 k_def [symmetric] n(3) ret_def Let_def)
  then show ?thesis by (simp only: n_def)
qed

text \<open>Sending puts the frame behind what was sent.\<close>

lemma send_frame:
  assumes io: "io_ok io v" and src: "src_ok io v (s_source s)" and er: "\<not> s_errno s"
    and len: "length (h @ node_text t) + 2 \<le> v_cap v" "length (h @ node_text t) < 2 ^ 16"
  obtains src' where "FrameSource_send io (Some h) (Some t) True s = Some (Inr (True, s\<lparr> s_source := src' \<rparr>))"
    "src_ok io v src'" "src_in v src' = src_in v (s_source s)"
    "src_sent v src' = src_sent v (s_source s) @ frame_bytes (h @ node_text t)"
proof -
  define n where "n = length (h @ node_text t)"
  define src where "src = s_source s"
  have n: "n < 2 ^ 16" "unat (word_of_nat n :: 16 word) = n"
    "(word_of_nat (length h) + word_of_nat (length (node_text t)) :: 16 word) = word_of_nat n"
    using len unat16 [of n] by (simp_all add: n_def)
  have out: "v_buf v (fs_out src) = []" "isvalidsock io (fs_fd src)" using src by (simp_all add: src_ok_def src_def)
  have room: "n \<le> sbuf_space_avail io (fs_out src)"
    using io_okD(2) [OF io, of "fs_out src"] out(1) len(1) by (simp add: n_def)
  obtain b1 where 1: "sbuf_put_htons io (fs_out src) (word_of_nat n) = (True, b1)" "v_buf v b1 = be16 n"
    using io_okD(4) [OF io n(1), of "fs_out src"] out(1) len(1) by auto
  have len': "length (be16 n) + length h \<le> v_cap v" "length (be16 n @ h) + length (node_text t) \<le> v_cap v"
    using len(1) by (simp_all add: be16_def)
  obtain b2 where 2: "sbuf_write_bstr io b1 h = (True, b2)" "v_buf v b2 = be16 n @ h"
    using io_okD(6) [OF io, of b1 h] 1(2) len' by auto
  obtain b3 where 3: "sbuf_write_bstr io b2 (node_text t) = (True, b3)" "v_buf v b3 = be16 n @ h @ node_text t"
    using io_okD(6) [OF io, of b2 "node_text t"] 2(2) len' by auto
  obtain fd4 b4 where 4: "io_flush_sbuf io False (fs_fd src) b3 = (True, False, fd4, b4)" "v_buf v b4 = []"
    "v_in v fd4 = v_in v (fs_fd src)" "v_out v fd4 = v_out v (fs_fd src) @ v_buf v b3" "isvalidsock io fd4"
    using io_okD(7) [OF io out(2), of b3] by blast
  have "FrameSource_send io (Some h) (Some t) True s = Some (Inr (True, s\<lparr> s_source := src\<lparr> fs_out := b4, fs_fd := fd4 \<rparr> \<rparr>))"
    using er room unfolding FrameSource_send_def
    by (simp add: bindp_Some put_htons_def write_bstr_def flush_out_def n(2,3) src_def [symmetric] 1(1) 2(1) 3(1) 4(1) ret_def Let_def)
  then show thesis
    using that 3(2) 4(2-5) by (simp add: src_ok_def src_in_def src_sent_def src_def frame_bytes_def n_def)
qed

end
