(* ===== verification/Peer.thy ===== *)
theory Peer
  imports Crypto Frame
begin

text \<open>
  Peers (\<open>src/protocol/peer.c\<close>): a cryptographic state and a frame source. The two
  \<open>Peer_establish\<close> functions run the key agreement over the source, \<open>Peer_send\<close> and
  \<open>Peer_recv\<close> carry the messages afterwards.

  A peer is the session it works on.
\<close>

definition PEER_DEFAULT_IO_BUF_SIZE :: nat where "PEER_DEFAULT_IO_BUF_SIZE = 32 * 1024"

definition Peer_create :: "('b, 'n) io \<Rightarrow> 'n \<Rightarrow> int \<Rightarrow> (unit, ('b, 'n, 'w) sess) proc" where
  "Peer_create io sock fd =
     assertp (fd > -1) (
     modify (\<lambda>s. s\<lparr> s_source :=
       \<lparr> fs_out = sbuf_create io PEER_DEFAULT_IO_BUF_SIZE, fs_in = sbuf_create io PEER_DEFAULT_IO_BUF_SIZE,
         fs_fd = sock \<rparr> \<rparr>))"

definition Peer_destroy :: "ltc \<Rightarrow> bool \<Rightarrow> (unit, ('b, 'n, 'w) sess) proc" where
  "Peer_destroy L crypt_too = (if crypt_too then CryptState_destroy L else ret ())"

text \<open>
  Destroying a packet whose payload was released by the decryption touches that storage again.
\<close>

definition destroy_packet :: "bool \<Rightarrow> node option \<Rightarrow> (unit, ('b, 'n, 'w) sess) proc" where
  "destroy_packet freed packet = bindp (destroy packet) (\<lambda>_. if freed then crash Dangling else ret ())"

definition Peer_establish_receiver :: "ltc \<Rightarrow> ('b, 'n) io \<Rightarrow> 'w confirm \<Rightarrow> (bool, ('b, 'n, 'w) sess) proc" where
  "Peer_establish_receiver L io key_confirm =
     bindp (CryptState_receiver_start L) (\<lambda>rmsg.
     bindp (FrameSource_send io (Some []) rmsg True) (\<lambda>rc.
     check rc (bindp (destroy rmsg) (\<lambda>_. ret rc)) (
     bindp (destroy rmsg) (\<lambda>_.
     bindp (FrameSource_recv io) (\<lambda>i.
     check (rv_msg i \<noteq> None)
       (bindp (destroy (rv_msg i)) (\<lambda>_. bindp (destroy (rv_header i)) (\<lambda>_. ret False))) (
     bindp (CryptState_receiver_process_response L (rv_hbuf i) (rv_msg i) key_confirm) (\<lambda>(rc, freed).
     check rc
       (bindp (destroy_packet freed (rv_msg i)) (\<lambda>_. bindp (destroy (rv_header i)) (\<lambda>_. ret rc))) (
     bindp (destroy_packet freed (rv_msg i)) (\<lambda>_.
     bindp (destroy (rv_header i)) (\<lambda>_.
     bindp (CryptState_receiver_send_final L) (\<lambda>(rmsg, header).
     check (rmsg \<noteq> None) (bindp (destroy rmsg) (\<lambda>_. ret rc)) (
     bindp (FrameSource_send io header rmsg True) (\<lambda>rc.
     check rc (bindp (destroy rmsg) (\<lambda>_. ret rc)) (
     bindp (destroy rmsg) (\<lambda>_.
     bindp (FrameSource_recv io) (\<lambda>i.
     check (rv_msg i \<noteq> None)
       (bindp (destroy (rv_msg i)) (\<lambda>_. bindp (destroy (rv_header i)) (\<lambda>_. ret rc))) (
     bindp (CryptState_receiver_done L (rv_hbuf i) (rv_msg i)) (\<lambda>(rc, freed).
     let out = bindp (destroy_packet freed (rv_msg i)) (\<lambda>_. bindp (destroy (rv_header i)) (\<lambda>_. ret rc))
     in check rc out out))))))))))))))))))"

definition Peer_establish_initiator :: "ltc \<Rightarrow> ('b, 'n) io \<Rightarrow> 'w confirm \<Rightarrow> (bool, ('b, 'n, 'w) sess) proc" where
  "Peer_establish_initiator L io key_confirm =
     bindp (FrameSource_recv io) (\<lambda>r.
     let rhdr = rv_header r
     in check (rv_msg r = None \<and> rhdr \<noteq> None)
          (bindp (destroy (rv_msg r)) (\<lambda>_. bindp (destroy rhdr) (\<lambda>_. ret False))) (
        bindp (CryptState_initiator_start L rhdr key_confirm) (\<lambda>(imsg, header).
        check (imsg \<noteq> None)
          (bindp (destroy rhdr) (\<lambda>_. bindp (destroy imsg) (\<lambda>_. ret False))) (
        bindp (destroy rhdr) (\<lambda>_.
        bindp (FrameSource_send io header imsg True) (\<lambda>rc.
        check rc (bindp (destroy imsg) (\<lambda>_. ret rc)) (
        bindp (destroy imsg) (\<lambda>_.
        bindp (FrameSource_recv io) (\<lambda>r.
        check (rv_msg r \<noteq> None)
          (bindp (destroy (rv_msg r)) (\<lambda>_. bindp (destroy (rv_header r)) (\<lambda>_. ret rc))) (
        bindp (CryptState_initiator_process_response L (rv_hbuf r) (rv_msg r)) (\<lambda>(rc, freed).
        check rc
          (bindp (destroy_packet freed (rv_msg r)) (\<lambda>_. bindp (destroy (rv_header r)) (\<lambda>_. ret rc))) (
        bindp (destroy_packet freed (rv_msg r)) (\<lambda>_.
        bindp (CryptState_initiator_send_final L) (\<lambda>(imsg, header).
        let out = (\<lambda>rc. bindp (destroy (rv_header r)) (\<lambda>_. bindp (destroy imsg) (\<lambda>_. ret rc)))
        in check (imsg \<noteq> None) (out rc) (
           bindp (FrameSource_send io header imsg True) (\<lambda>rc.
           check rc (out rc) (
           out rc)))))))))))))))))"

text \<open>\<open>Peer_recv\<close> returns the message and the header it stores.\<close>

definition Peer_recv :: "ltc \<Rightarrow> ('b, 'n) io \<Rightarrow> (node option \<times> node option, ('b, 'n, 'w) sess) proc" where
  "Peer_recv L io =
     bindp (FrameSource_recv io) (\<lambda>r.
     if rv_msg r = None then ret (None, rv_header r)
     else
       bindp (gets (\<lambda>s. cp_skey (me s))) (\<lambda>key.
       bindp (CryptState_decrypt_node L key (rv_hbuf r) (rv_msg r)) (\<lambda>(msg, freed).
       let out = bindp (destroy_packet freed (rv_msg r)) (\<lambda>_. ret (msg, rv_header r))
       in check (msg \<noteq> None) out out)))"

definition Peer_send :: "ltc \<Rightarrow> ('b, 'n) io \<Rightarrow> node option \<Rightarrow> node option \<Rightarrow> (bool, ('b, 'n, 'w) sess) proc" where
  "Peer_send L io header payload =
     assertp (header \<noteq> None) (
     assertp (payload \<noteq> None) (
     bindp (bstr header) (\<lambda>hbuf.
     check True (ret False) (
     bindp (gets (\<lambda>s. cp_skey (them s))) (\<lambda>key.
     bindp (CryptState_encrypt_node L key (Some hbuf) payload) (\<lambda>msg.
     check (msg \<noteq> None) (ret False) (
     bindp (FrameSource_send io (Some hbuf) msg True) (\<lambda>rc.
     bindp (destroy msg) (\<lambda>_.
     check rc (ret rc) (
     ret rc))))))))))"

end
