(* ===== verification/Envelope.thy ===== *)
theory Envelope
  imports Peer NodeFormat
begin

text \<open>
  The documents the protocol exchanges: groups of numbers, strings and blobs. They are built,
  read back, printed, parsed and destroyed without failing, and their texts are short.
\<close>

section \<open>Any described document\<close>

lemma cons_item:
  "is_root_item it \<Longrightarrow> \<not> s_errno s \<Longrightarrow>
     cons (cons_fmt it) (cons_args it) s = Some (Inr (Some (item_node False it), s))"
  using cons_root [of it] by (simp add: cons_def)

lemma decons_item:
  assumes "item_full it" "\<not> s_errno s"
  shows "decons (Some (item_node False it)) copy (decons_fmt it) (decons_args it) s =
    Some (Inr ((True, decons_outs it), s))"
proof -
  have "Node_decons False (Some (root_cursor (item_node False it))) copy (decons_fmt it) (decons_args it) =
      Inr (Some (decons_outs it))"
    using decons_loop_item [OF assms(1), of copy "[]" "[]" "[]" False "[]" "[]"]
    by (simp add: Node_decons_def root_cursor_def)
  with assms(2) Node_decons_written_all [OF this] show ?thesis
    by (simp add: decons_def Let_def)
qed

lemma parse_text:
  assumes "printable_root t" "nd_name t \<noteq> None" "\<not> s_errno s" "length (node_text t) < 2 ^ 31"
  shows "parse (Some (node_text t)) s = Some (Inr (Some t, s))"
  using parse_printed [OF assms(1) Node_bstr_node_text, of "[]" "[]"] assms
  by (simp add: parse_def Node_parse_def)

section \<open>Flat documents\<close>

definition flat :: "string \<Rightarrow> leaf list \<Rightarrow> node" where
  "flat w ls = Nd (Some w) VGroup False (rev (map (\<lambda>l. Nd None (leaf_value l) True []) ls))"

fun leaf_ok :: "leaf \<Rightarrow> bool" where
  "leaf_ok (LString t) \<longleftrightarrow> CHR 0x22 \<notin> set t \<and> NUL \<notin> set t"
| "leaf_ok (LFloat d) \<longleftrightarrow> False"
| "leaf_ok _ \<longleftrightarrow> True"

lemma flat_name [simp]: "nd_name (flat w ls) = Some w"
  by (simp add: flat_def)

lemma flat_item: "NUL \<notin> set w \<Longrightarrow> item_node False (Grp (map (\<lambda>l. Leaf l None) ls) (GWord w)) = flat w ls"
  by (simp add: flat_def cstr_id comp_def)

lemma concat_singletons: "concat (map (\<lambda>l. [f l]) ls) = map f ls"
  by (induction ls) simp_all

lemma concat_singletons_rev: "concat (rev (map (\<lambda>l. [f l]) ls)) = map f (rev ls)"
  by (simp add: rev_map concat_singletons)

lemma cons_flat:
  assumes "NUL \<notin> set w" "\<not> s_errno s"
  shows "cons (CHR ''['' # map leaf_char ls @ ''w'') (map leaf_carg ls @ [CWord (Some w)]) s =
    Some (Inr (Some (flat w ls), s))"
  using cons_item [of "Grp (map (\<lambda>l. Leaf l None) ls) (GWord w)", OF _ assms(2)] flat_item [OF assms(1), of ls]
  by (simp add: comp_def concat_singletons del: item_node.simps)

lemma decons_flat:
  assumes "NUL \<notin> set w" "\<not> s_errno s" "ls \<noteq> []"
  shows "decons (Some (flat w ls)) copy (CHR ''['' # map leaf_char (rev ls) @ ''w'')
      (map leaf_darg (rev ls) @ [DWord w]) s = Some (Inr ((True, map leaf_out (rev ls)), s))"
proof -
  have "item_full (Grp (map (\<lambda>l. Leaf l None) ls) (GWord w))" using assms(3) by (simp add: list_all_iff)
  from decons_item [OF this assms(2), of copy] flat_item [OF assms(1), of ls] show ?thesis
    by (simp add: comp_def concat_singletons_rev rev_map del: item_node.simps)
qed

lemma flat_printable: "word_name w \<Longrightarrow> list_all leaf_ok ls \<Longrightarrow> printable_root (flat w ls)"
proof -
  assume w: "word_name w" and ls: "list_all leaf_ok ls"
  have "printable (Nd None (leaf_value l) True [])" if "leaf_ok l" for l
    using that by (cases l) simp_all
  with w ls show ?thesis by (auto simp: printable_root_def flat_def list_all_iff)
qed

lemma bt_depth_leaves: "bt_depth (map (\<lambda>l. Nd None (f l) True []) ls) = length ls"
  by (induction ls) simp_all

lemma flat_destroy: "length ls < 120 \<Longrightarrow> destroy (Some (flat w ls)) = ret ()"
  using bt_depth_leaves [of leaf_value "rev ls"]
  by (intro destroy_ok) (simp add: destroyable_def flat_def rev_map MAX_TREE_DEEP_def)

lemma flat_destroy_packet: "length ls < 120 \<Longrightarrow> destroy_packet False (Some (flat w ls)) = ret ()"
  by (simp add: destroy_packet_def flat_destroy)

section \<open>The length of the text\<close>

lemma fmt_u_length: "0 \<le> n \<Longrightarrow> n < 10 ^ k \<Longrightarrow> 0 < k \<Longrightarrow> length (fmt_u n) \<le> k"
proof (induction n arbitrary: k rule: fmt_u.induct)
  case (1 n)
  show ?case
  proof (cases "n < 10")
    case True
    with "1.prems" show ?thesis by (subst fmt_u.simps) simp
  next
    case False
    obtain j where j: "k = Suc j" using "1.prems"(3) by (cases k) auto
    have "n div 10 < 10 ^ j" using "1.prems"(2) by (simp add: j div_less_iff_less_mult mult.commute)
    moreover from False this have "0 < j" by (cases j) auto
    ultimately have "length (fmt_u (n div 10)) \<le> j" using "1.IH" [OF False] "1.prems"(1) by simp
    with False j show ?thesis by (subst fmt_u.simps) simp
  qed
qed

fun leaf_size :: "leaf \<Rightarrow> nat" where
  "leaf_size (LNumber n) = 21"
| "leaf_size (LString t) = length t + 3"
| "leaf_size (LBlob b) = length b + 14"
| "leaf_size (LFloat d) = 0"

lemma leaf_tokens_size:
  assumes "leaf_ok l" "leaf_size l < 2 ^ 31"
  shows "length (toks_text (tokens (Nd None (leaf_value l) True []))) \<le> leaf_size l"
proof (cases l)
  case (LNumber n)
  have "uint n < 10 ^ 20" using uint_bounded [of n] by simp
  with fmt_u_length [of "uint n" 20] show ?thesis by (simp add: LNumber)
next
  case (LString t)
  then show ?thesis by simp
next
  case (LBlob b)
  with assms fmt_u_length [of "int (length b)" 10] show ?thesis by simp
next
  case (LFloat d)
  with assms show ?thesis by simp
qed

lemma toks_text_concat: "length (toks_text (concat tss)) = sum_list (map (\<lambda>ts. length (toks_text ts)) tss)"
  by (induction tss) (simp_all add: toks_text_def)

lemma flat_text_length:
  assumes w: "word_name w" and ls: "list_all leaf_ok ls" "list_all (\<lambda>l. leaf_size l < 2 ^ 31) ls"
  shows "length (node_text (flat w ls)) \<le> length w + 4 + sum_list (map leaf_size ls)"
proof -
  have "node_text (flat w ls) = toks_text (tokens (flat w ls)) @ [CHR 0x0A]"
    using Node_bstr_text [OF printable_root_textual [OF flat_printable [OF w ls(1)]], of True]
    by (simp add: Node_bstr_node_text)
  moreover have "tokens (flat w ls) =
      TOpen # concat (map (\<lambda>l. tokens (Nd None (leaf_value l) True [])) ls) @ [TWord w]"
    using word_name_bchar [OF w] by (simp add: flat_def rev_map [symmetric] comp_def)
  moreover have "length (toks_text (concat (map (\<lambda>l. tokens (Nd None (leaf_value l) True [])) ls))) \<le> sum_list (map leaf_size ls)"
    unfolding toks_text_concat map_map comp_def
    by (rule sum_list_mono) (use leaf_tokens_size ls in \<open>auto simp: list_all_iff\<close>)
  ultimately show ?thesis by (simp add: toks_text_def)
qed

end
