(* ===== verification/Handshake.thy ===== *)
theory Handshake
  imports Envelope
begin

text \<open>
  The key agreement between two honest ends, and the messages that follow it.
\<close>

section \<open>What is asked of the cryptographic library\<close>

text \<open>
  Decryption undoes encryption under the same key, nonce and header, yields the same tag and
  keeps the length; the generator gives as many bytes as asked for; a key of 32 bytes can be
  scheduled.
\<close>

definition ltc_ok :: "ltc \<Rightarrow> bool" where
  "ltc_ok L \<longleftrightarrow>
     (\<forall>k n h p. \<exists>c t. ccm_memory L k n h p CCM_ENCRYPT = (True, c, t) \<and>
        ccm_memory L k n h c CCM_DECRYPT = (True, p, t) \<and> length c = length p \<and> length t \<le> 16) \<and>
     (\<forall>n g. length (fst (fortuna_read L n g)) = n) \<and>
     (\<forall>x. length x = 32 \<longrightarrow> rijndael_setup L (Some x) \<noteq> None)"

text \<open>
  Two key pairs that agree: each exports a public key the other can import, and both compute
  the same secret of 32 bytes.
\<close>

definition ecc_agree :: "ltc \<Rightarrow> ecc_key \<Rightarrow> string \<Rightarrow> ecc_key \<Rightarrow> ecc_key \<Rightarrow> string \<Rightarrow> ecc_key \<Rightarrow> bool" where
  "ecc_agree L a ea pa b eb pb \<longleftrightarrow>
     ecc_export L PK_PUBLIC a = Some ea \<and> ecc_import L ea = Some pa \<and>
     ecc_export L PK_PUBLIC b = Some eb \<and> ecc_import L eb = Some pb \<and>
     (\<exists>z. length z = 32 \<and> ecc_shared_secret L a pb = Some z \<and> ecc_shared_secret L b pa = Some z)"

section \<open>Steps\<close>

definition fresh_nonce :: "ltc \<Rightarrow> prng_state \<Rightarrow> CryptNonce" where
  "fresh_nonce L g = raw_nonce (fst (fortuna_read L NONCE_LENGTH g))"

definition next_prng :: "ltc \<Rightarrow> prng_state \<Rightarrow> prng_state" where
  "next_prng L g = snd (fortuna_read L NONCE_LENGTH g)"

lemma length_nonce_raw: "length (nonce_raw n) = NONCE_LENGTH"
  by (simp add: nonce_raw_def word_bytes_def NONCE_LENGTH_def)

lemma create_my_nonce_ok:
  assumes "ltc_ok L"
  shows "create_my_nonce L s = Some (Inr (True,
    upd_me (cp_nonce_update (\<lambda>_. fresh_nonce L (s_prng s))) (s\<lparr> s_prng := next_prng L (s_prng s) \<rparr>)))"
proof -
  obtain bs g where r: "fortuna_read L NONCE_LENGTH (s_prng s) = (bs, g)" by fastforce
  moreover have "length bs = NONCE_LENGTH"
    using assms r unfolding ltc_ok_def by (metis fst_conv)
  ultimately show ?thesis
    by (simp add: create_my_nonce_def CryptState_create_nonce_def CryptState_rand_def bindp_def gets_def modify_def
        ret_def fresh_nonce_def next_prng_def length_nonce_raw)
qed

definition env :: "string \<Rightarrow> string \<Rightarrow> node" where
  "env c t = flat ''env'' [LBlob c, LBlob t]"

lemma NUL_names [simp]:
  "NUL \<notin> set ''env''" "NUL \<notin> set ''header''" "NUL \<notin> set ''init''" "NUL \<notin> set ''recv''"
  by (simp_all add: NUL_def)

lemma cons_env:
  "\<not> s_errno s \<Longrightarrow> cons ''[bbw'' [CBstr (Some c), CBstr (Some t), CWord (Some ''env'')] s = Some (Inr (Some (env c t), s))"
  using cons_flat [OF NUL_names(1), of s "[LBlob c, LBlob t]"] by (simp add: env_def)

lemma decons_env:
  "\<not> s_errno s \<Longrightarrow> decons (Some (env c t)) copy ''[bbw'' [DStr, DStr, DWord ''env''] s =
     Some (Inr ((True, [OStr (Some t), OStr (Some c)]), s))"
  using decons_flat [OF NUL_names(1), of s "[LBlob c, LBlob t]" copy] by (simp add: env_def)

lemma short_words: "word_name ''header''" "word_name ''init''" "word_name ''recv''" "word_name ''env''"
  by code_simp+

definition nonce_incd :: "CryptPeer \<Rightarrow> CryptPeer" where
  "nonce_incd p = p\<lparr> cp_nonce := CryptState_nonce_inc (cp_nonce p) \<rparr>"

lemma upd_errno [simp]: "s_errno (upd_crypt f s) = s_errno s"
  by (simp add: upd_crypt_def)

text \<open>The packet a document is sealed in.\<close>

definition seal :: "ltc \<Rightarrow> symmetric_key \<Rightarrow> CryptNonce \<Rightarrow> string \<Rightarrow> node \<Rightarrow> node" where
  "seal L key n h p =
     (case ccm_memory L key (nonce_raw n) h (node_text p) CCM_ENCRYPT of (ok, c, t) \<Rightarrow> env c t)"

lemma seal_opens:
  assumes "ltc_ok L"
  obtains c t where "seal L key n h p = env c t"
    "ccm_memory L key (nonce_raw n) h (node_text p) CCM_ENCRYPT = (True, c, t)"
    "ccm_memory L key (nonce_raw n) h c CCM_DECRYPT = (True, node_text p, t)"
    "length c = length (node_text p)" "length t \<le> 16"
proof -
  obtain c t where "ccm_memory L key (nonce_raw n) h (node_text p) CCM_ENCRYPT = (True, c, t)"
    "ccm_memory L key (nonce_raw n) h c CCM_DECRYPT = (True, node_text p, t)"
    "length c = length (node_text p)" "length t \<le> 16"
    using assms unfolding ltc_ok_def by blast
  with that show thesis by (simp add: seal_def)
qed

lemma encrypt_node_ok:
  assumes L: "ltc_ok L" and er: "\<not> s_errno s"
  shows "CryptState_encrypt_node L key (Some h) (Some p) s =
    Some (Inr (Some (seal L key (cp_nonce (them s)) h p), upd_them nonce_incd s))"
proof -
  obtain c t where ct: "seal L key (cp_nonce (them s)) h p = env c t"
    "ccm_memory L key (nonce_raw (cp_nonce (them s))) h (node_text p) CCM_ENCRYPT = (True, c, t)"
    by (rule seal_opens [OF L])
  have "CryptState_encrypt_packet L key (Some h) (Some (node_text p)) s = Some (Inr (Some (env c t), upd_them nonce_incd s))"
    using er ct(2) by (simp add: CryptState_encrypt_packet_def crypt_names cons_env nonce_incd_def [abs_def])
  then show ?thesis
    using er ct(1) by (simp add: CryptState_encrypt_node_def bindp_Some ret_def)
qed

lemma decrypt_node_ok:
  assumes L: "ltc_ok L" and n: "n = cp_nonce (me s)"
    and p: "printable_root p" "nd_name p \<noteq> None" "length (node_text p) < 2 ^ 31" and er: "\<not> s_errno s"
  shows "CryptState_decrypt_node L key (Some h) (Some (seal L key n h p)) s = Some (Inr ((Some p, False), upd_me nonce_incd s))"
proof -
  obtain c t where ct: "seal L key n h p = env c t"
    "ccm_memory L key (nonce_raw (cp_nonce (me s))) h c CCM_DECRYPT = (True, node_text p, t)"
    unfolding n by (rule seal_opens [OF L])
  have ne: "node_text p \<noteq> []" by (simp add: node_text_def)
  have "CryptState_decrypt_packet L key (Some h) (Some (env c t)) s =
      Some (Inr ((Some (node_text p), False), upd_me nonce_incd s))"
    using er ct(2)
    by (simp add: CryptState_decrypt_packet_def crypt_names bindp_Some decons_env out_str_def Let_def
        nonce_incd_def [abs_def] ret_def)
  with er ne ct(1) parse_text [OF p(1,2), of "upd_me nonce_incd s"] p(3) show ?thesis
    by (simp add: CryptState_decrypt_node_def bindp_Some ret_def)
qed

lemma seal_shape:
  assumes L: "ltc_ok L" and p: "length (node_text p) < 2 ^ 30"
  shows "printable_root (seal L key n h p)" "nd_name (seal L key n h p) \<noteq> None"
    "length (node_text (seal L key n h p)) \<le> length (node_text p) + 100"
    "destroy (Some (seal L key n h p)) = ret ()" "destroy_packet False (Some (seal L key n h p)) = ret ()"
proof -
  obtain c t where ct: "seal L key n h p = env c t" "length c = length (node_text p)" "length t \<le> 16"
    by (rule seal_opens [OF L])
  show "printable_root (seal L key n h p)" "nd_name (seal L key n h p) \<noteq> None"
    "destroy (Some (seal L key n h p)) = ret ()" "destroy_packet False (Some (seal L key n h p)) = ret ()"
    using flat_printable [OF short_words(4)] by (simp_all add: ct(1) env_def flat_destroy flat_destroy_packet)
  show "length (node_text (seal L key n h p)) \<le> length (node_text p) + 100"
    using flat_text_length [OF short_words(4), of "[LBlob c, LBlob t]"] ct p by (simp add: env_def)
qed

lemma seal_ok:
  assumes L: "ltc_ok L" and p: "length (node_text p) \<le> 1200"
  shows "printable_root (seal L key n h p)" "nd_name (seal L key n h p) \<noteq> None"
    "length (node_text (seal L key n h p)) \<le> 1300"
    "destroy (Some (seal L key n h p)) = ret ()" "destroy_packet False (Some (seal L key n h p)) = ret ()"
  using seal_shape [OF L, of p key n h] p by simp_all

section \<open>States written out\<close>

lemma nonce_eta [simp]: "\<lparr> n_left = n_left n, n_right = n_right n \<rparr> = n"
  by simp

definition mk ::
  "CryptPeer \<Rightarrow> CryptPeer \<Rightarrow> symmetric_key \<Rightarrow> nat option \<Rightarrow> prng_state \<Rightarrow> ('b, 'n) FrameSource \<Rightarrow> 'w \<Rightarrow> ('b, 'n, 'w) sess" where
  "mk m t k d g src w =
     \<lparr> s_crypt = \<lparr> cs_me = m, cs_them = t, cs_data = d, cs_shared = k \<rparr>, s_prng = g, s_errno = False,
       s_source = src, s_rest = w \<rparr>"

lemma mk_simps [simp]:
  "me (mk m t k d g src w) = m" "them (mk m t k d g src w) = t" "cs_shared (s_crypt (mk m t k d g src w)) = k"
  "s_prng (mk m t k d g src w) = g" "s_errno (mk m t k d g src w) = False" "s_source (mk m t k d g src w) = src"
  "s_rest (mk m t k d g src w) = w"
  "(mk m t k d g src w)\<lparr> s_prng := g' \<rparr> = mk m t k d g' src w"
  "(mk m t k d g src w)\<lparr> s_source := src' \<rparr> = mk m t k d g src' w"
  "(mk m t k d g src w)\<lparr> s_rest := w' \<rparr> = mk m t k d g src w'"
  "(mk m t k d g src w)\<lparr> s_errno := False \<rparr> = mk m t k d g src w"
  "upd_me f (mk m t k d g src w) = mk (f m) t k d g src w"
  "upd_them f (mk m t k d g src w) = mk m (f t) k d g src w"
  "upd_crypt (\<lambda>st. st\<lparr> cs_shared := k' \<rparr>) (mk m t k d g src w) = mk m t k' d g src w"
  "the_side CRYPT_MY_KEY (s_crypt (mk m t k d g src w)) = m"
  "the_side CRYPT_THEIR_KEY (s_crypt (mk m t k d g src w)) = t"
  by (simp_all add: mk_def upd_crypt_def upd_side_def the_side_def)

lemma mk_errno_False [simp]: "\<not> s_errno (mk m t k d g src w)"
  by simp

lemma sess_is_mk:
  assumes "\<not> s_errno s"
  shows "s = mk (me s) (them s) (cs_shared (s_crypt s)) (cs_data (s_crypt s)) (s_prng s) (s_source s) (s_rest s)"
  using assms by (cases s; cases "s_crypt s") (simp add: mk_def)

lemmas step_simps = bindp_Some ret_def Let_def crypt_names bstrcpy_def

lemma create_nonce_mk:
  "ltc_ok L \<Longrightarrow> create_my_nonce L (mk m t k d g src w) =
     Some (Inr (True, mk (m\<lparr> cp_nonce := fresh_nonce L g \<rparr>) t k d (next_prng L g) src w))"
  by (simp add: create_my_nonce_ok)

lemma export_mk:
  "ecc_export L PK_PUBLIC (cp_key m) = Some e \<Longrightarrow>
     CryptState_export_key L CRYPT_MY_KEY PK_PUBLIC (mk m t k d g src w) = Some (Inr (Some e, mk m t k d g src w))"
  by (simp add: CryptState_export_key_def CryptState_ecc_key_bstr_def ret_def)

text \<open>The first message.\<close>

definition hello :: "CryptNonce \<Rightarrow> string \<Rightarrow> node" where
  "hello n e = flat ''header'' [LNumber (n_right n), LNumber (n_left n), LBlob e]"

lemma receiver_start_mk:
  assumes L: "ltc_ok L" and e: "ecc_export L PK_PUBLIC (cp_key m) = Some e"
  shows "CryptState_receiver_start L (mk m t k d g src w) =
    Some (Inr (Some (hello (fresh_nonce L g) e), mk (m\<lparr> cp_nonce := fresh_nonce L g \<rparr>) t k d (next_prng L g) src w))"
proof -
  define n where "n = fresh_nonce L g"
  define s1 where "s1 = mk (m\<lparr> cp_nonce := n \<rparr>) t k d (next_prng L g) src w"
  have "cons ''[nnbw'' [CNumber (n_right n), CNumber (n_left n), CBstr (Some e), CWord (Some ''header'')] s1 =
      Some (Inr (Some (hello n e), s1))"
    using cons_flat [OF NUL_names(2), of s1 "[LNumber (n_right n), LNumber (n_left n), LBlob e]"]
    by (simp add: hello_def s1_def)
  then show ?thesis
    using e by (simp add: CryptState_receiver_start_def step_simps create_nonce_mk [OF L] export_mk n_def [symmetric] s1_def)
qed

text \<open>Deriving the shared key from the other's public key.\<close>

definition accepts :: "'w confirm \<Rightarrow> bool" where
  "accepts cb \<longleftrightarrow> (\<forall>C w. \<exists>w'. cb C False w = Some (Inr (True, False, w')))"

lemma derive_shared_mk:
  assumes cb: "accepts cb" and e: "ecc_import L e = Some p"
    and z: "ecc_shared_secret L (cp_key m) p = Some z" "rijndael_setup L (Some z) = Some k'"
  obtains w' where "derive_shared L (Some e) cb (mk m t k d g src w) =
    Some (Inr (True, mk m (t\<lparr> cp_key := p \<rparr>) k' d g src w'))"
proof -
  define s1 where "s1 = mk m (t\<lparr> cp_key := p \<rparr>) k d g src w"
  obtain w' where w': "cb (s_crypt s1) False w = Some (Inr (True, False, w'))"
    using cb unfolding accepts_def by blast
  have "CryptState_import_key L CRYPT_THEIR_KEY (Some e) (mk m t k d g src w) = Some (Inr (True, s1))"
    by (simp add: CryptState_import_key_def CryptState_bstr_ecc_key_def step_simps e bindp_def modify_def s1_def)
  moreover have "call_confirm cb s1 = Some (Inr (True, mk m (t\<lparr> cp_key := p \<rparr>) k d g src w'))"
    using w' by (simp add: call_confirm_def s1_def)
  moreover have "\<not> s_errno s1" by (simp add: s1_def)
  ultimately have "derive_shared L (Some e) cb (mk m t k d g src w) =
      Some (Inr (True, mk m (t\<lparr> cp_key := p \<rparr>) k' d g src w'))"
    using z by (simp add: derive_shared_def step_simps)
  then show thesis by (rule that)
qed

lemma shared_key_mk:
  assumes cb: "accepts cb" and e: "ecc_import L e = Some p"
    and z: "ecc_shared_secret L (cp_key m) p = Some z" "rijndael_setup L (Some z) = Some k'"
  shows "\<exists>w'. CryptState_create_shared_key L (Some (flat ''header'' [LBlob e])) False cb (mk m t k d g src w) =
      Some (Inr (True, mk m (t\<lparr> cp_key := p \<rparr>) k' d g src w'))"
    and "\<exists>w'. CryptState_create_shared_key L (Some (hello n e)) True cb (mk m t k d g src w) =
      Some (Inr (True, mk m (t\<lparr> cp_nonce := n, cp_key := p \<rparr>) k' d g src w'))"
proof -
  obtain w1 where w1: "derive_shared L (Some e) cb (mk m t k d g src w) =
      Some (Inr (True, mk m (t\<lparr> cp_key := p \<rparr>) k' d g src w1))"
    by (rule derive_shared_mk [OF cb e z])
  have "decons (Some (flat ''header'' [LBlob e])) False ''[bw'' [DStr, DWord ''header''] (mk m t k d g src w) =
      Some (Inr ((True, [OStr (Some e)]), mk m t k d g src w))"
    using decons_flat [OF NUL_names(2), of "mk m t k d g src w" "[LBlob e]" False] by simp
  then show "\<exists>w'. CryptState_create_shared_key L (Some (flat ''header'' [LBlob e])) False cb (mk m t k d g src w) =
      Some (Inr (True, mk m (t\<lparr> cp_key := p \<rparr>) k' d g src w'))"
    using w1 by (intro exI [of _ w1]) (simp add: CryptState_create_shared_key_def crypt_names bindp_Some out_str_def)
  obtain w2 where w2: "derive_shared L (Some e) cb (mk m (t\<lparr> cp_nonce := n \<rparr>) k d g src w) =
      Some (Inr (True, mk m (t\<lparr> cp_nonce := n, cp_key := p \<rparr>) k' d g src w2))"
    by (rule derive_shared_mk [OF cb e z])
  have "decons (Some (hello n e)) False ''[bnnw'' [DStr, DNumber, DNumber, DWord ''header''] (mk m t k d g src w) =
      Some (Inr ((True, [OStr (Some e), ONumber (n_left n), ONumber (n_right n)]), mk m t k d g src w))"
    using decons_flat [OF NUL_names(2), of "mk m t k d g src w" "[LNumber (n_right n), LNumber (n_left n), LBlob e]" False]
    by (simp add: hello_def)
  then show "\<exists>w'. CryptState_create_shared_key L (Some (hello n e)) True cb (mk m t k d g src w) =
      Some (Inr (True, mk m (t\<lparr> cp_nonce := n, cp_key := p \<rparr>) k' d g src w'))"
    using w2 by (intro exI [of _ w2], cases n) (simp add: CryptState_create_shared_key_def crypt_names bindp_Some step_simps out_str_def set_them_nonce_def out_num_def)
qed

text \<open>The initiator's first message: its public key in the clear and its identity encrypted.\<close>

definition ident_ok :: "CryptPeer \<Rightarrow> string \<Rightarrow> string \<Rightarrow> bool" where
  "ident_ok m nm x \<longleftrightarrow>
     cp_name m = Some nm \<and> cp_session m = Some x \<and> cp_freed m = (False, False) \<and>
     length x = 32 \<and> CHR 0x22 \<notin> set nm \<and> NUL \<notin> set nm \<and> length nm \<le> 1000"

definition greeting :: "string \<Rightarrow> string \<Rightarrow> CryptNonce \<Rightarrow> node" where
  "greeting nm x n = flat ''init'' [LString nm, LBlob x, LNumber (n_right n), LNumber (n_left n)]"

lemma initiator_start_mk:
  assumes L: "ltc_ok L" and cb: "accepts cb" and e: "ecc_import L e = Some p"
    and z: "ecc_shared_secret L (cp_key m) p = Some z" "rijndael_setup L (Some z) = Some k'"
    and own: "ecc_export L PK_PUBLIC (cp_key m) = Some e'" and m: "ident_ok m nm x"
  obtains w' where
    "CryptState_initiator_start L (Some (hello n e)) cb (mk m t k d g src w) =
      Some (Inr ((Some (seal L k' n (node_text (flat ''header'' [LBlob e'])) (greeting nm x (fresh_nonce L g))),
          Some (node_text (flat ''header'' [LBlob e']))),
        mk (m\<lparr> cp_nonce := fresh_nonce L g \<rparr>) (nonce_incd (t\<lparr> cp_nonce := n, cp_key := p \<rparr>)) k' d (next_prng L g) src w'))"
proof -
  obtain w' where w': "CryptState_create_shared_key L (Some (hello n e)) True cb (mk m t k d g src w) =
      Some (Inr (True, mk m (t\<lparr> cp_nonce := n, cp_key := p \<rparr>) k' d g src w'))"
    using shared_key_mk(2) [OF cb e z] by blast
  define H where "H = flat ''header'' [LBlob e']"
  define N where "N = fresh_nonce L g"
  define s1 where "s1 = mk m (t\<lparr> cp_nonce := n, cp_key := p \<rparr>) k' d g src w'"
  define s2 where "s2 = mk (m\<lparr> cp_nonce := N \<rparr>) (t\<lparr> cp_nonce := n, cp_key := p \<rparr>) k' d (next_prng L g) src w'"
  have ers: "\<not> s_errno s1" "\<not> s_errno s2" by (simp_all add: s1_def s2_def)
  have 1: "CryptState_export_key L CRYPT_MY_KEY PK_PUBLIC s1 = Some (Inr (Some e', s1))"
    using own by (simp add: s1_def export_mk)
  have 2: "cons ''[bw'' [CBstr (Some e'), CWord (Some ''header'')] s1 = Some (Inr (Some H, s1))"
    using cons_flat [OF NUL_names(2) ers(1), of "[LBlob e']"] by (simp add: H_def)
  have 3: "create_my_nonce L s1 = Some (Inr (True, s2))"
    by (simp add: s1_def s2_def N_def create_nonce_mk [OF L])
  have 4: "cons ''[sbnnw'' [CBstr (Some nm), CBstr (Some x), CNumber (n_right N), CNumber (n_left N), CWord (Some ''init'')] s2 =
      Some (Inr (Some (greeting nm x N), s2))"
    using cons_flat [OF NUL_names(3) ers(2), of "[LString nm, LBlob x, LNumber (n_right N), LNumber (n_left N)]"]
    by (simp add: greeting_def)
  have 5: "CryptState_encrypt_node L k' (Some (node_text H)) (Some (greeting nm x N)) s2 =
      Some (Inr (Some (seal L k' n (node_text H) (greeting nm x N)), upd_them nonce_incd s2))"
    using encrypt_node_ok [OF L ers(2)] by (simp add: s2_def)
  have dd: "destroy (Some H) = ret ()" "destroy (Some (greeting nm x N)) = ret ()"
    by (simp_all add: H_def greeting_def flat_destroy)
  have me2: "cp_name (me s2) = Some nm" "cp_session (me s2) = Some x" "cp_nonce (me s2) = N" "cs_shared (s_crypt s2) = k'"
    using m by (simp_all add: s2_def ident_ok_def)
  have "CryptState_initiator_start L (Some (hello n e)) cb (mk m t k d g src w) =
      Some (Inr ((Some (seal L k' n (node_text H) (greeting nm x N)), Some (node_text H)), upd_them nonce_incd s2))"
    using w' 1 2 3 4 5 ers me2 unfolding s1_def [symmetric]
    by (simp add: CryptState_initiator_start_def step_simps dd)
  with that show thesis by (simp add: s2_def H_def N_def)
qed

lemma greeting_ok:
  assumes "ident_ok m nm x"
  shows "printable_root (greeting nm x n)" "nd_name (greeting nm x n) \<noteq> None" "length (node_text (greeting nm x n)) \<le> 1200"
  using assms flat_printable [OF short_words(2)]
    flat_text_length [OF short_words(2), of "[LString nm, LBlob x, LNumber (n_right n), LNumber (n_left n)]"]
  by (simp_all add: greeting_def ident_ok_def)

text \<open>The receiver's answer to it.\<close>

lemma ident_outs:
  "set_them_ident [a, b, OStr x, OStr y] 2 p = p\<lparr> cp_session := x, cp_name := y, cp_freed := (False, False) \<rparr>"
  "set_them_ident [a, b, c, d, OStr x, OStr y] 4 p = p\<lparr> cp_session := x, cp_name := y, cp_freed := (False, False) \<rparr>"
  "set_them_nonce (ONumber l # ONumber r # outs) 0 p = p\<lparr> cp_nonce := \<lparr> n_left = l, n_right = r \<rparr> \<rparr>"
  by (simp_all add: set_them_ident_def set_them_nonce_def out_str_def out_num_def Let_def numeral_eq_Suc)

lemma receiver_process_mk:
  assumes L: "ltc_ok L" and cb: "accepts cb" and e: "ecc_import L e = Some p" "length e \<le> 1000"
    and z: "ecc_shared_secret L (cp_key m) p = Some z" "rijndael_setup L (Some z) = Some k'"
    and i: "ident_ok i nm x" and hh: "hh = node_text (flat ''header'' [LBlob e])"
  obtains w' where
    "CryptState_receiver_process_response L (Some hh) (Some (seal L k' (cp_nonce m) hh (greeting nm x n))) cb (mk m t k d g src w) =
      Some (Inr ((True, False), mk (nonce_incd m) (t\<lparr> cp_key := p, cp_nonce := n, cp_session := Some x, cp_name := Some nm,
        cp_freed := (False, False) \<rparr>) k' d g src w'))"
proof -
  define H where "H = flat ''header'' [LBlob e]"
  obtain w' where w': "CryptState_create_shared_key L (Some H) False cb (mk m t k d g src w) =
      Some (Inr (True, mk m (t\<lparr> cp_key := p \<rparr>) k' d g src w'))"
    using shared_key_mk(1) [OF cb e(1) z] unfolding H_def by blast
  have H: "printable_root H" "nd_name H \<noteq> None" "length (node_text H) < 2 ^ 31" "destroy (Some H) = ret ()"
    using e(2) flat_printable [OF short_words(1), of "[LBlob e]"] flat_text_length [OF short_words(1), of "[LBlob e]"]
    by (simp_all add: H_def flat_destroy)
  have 1: "parse (Some (node_text H)) (mk m t k d g src w) = Some (Inr (Some H, mk m t k d g src w))"
    using H by (intro parse_text) simp_all
  define s2 where "s2 = mk m (t\<lparr> cp_key := p \<rparr>) k' d g src w'"
  define s3 where "s3 = mk (nonce_incd m) (t\<lparr> cp_key := p \<rparr>) k' d g src w'"
  have ers: "\<not> s_errno s2" "\<not> s_errno s3" "cs_shared (s_crypt s2) = k'" by (simp_all add: s2_def s3_def)
  note G = greeting_ok [OF i, of n]
  define M where "M = seal L k' (cp_nonce m) (node_text H) (greeting nm x n)"
  have "CryptState_decrypt_node L k' (Some (node_text H)) (Some M) s2 =
      Some (Inr ((Some (greeting nm x n), False), upd_me nonce_incd s2))"
    unfolding M_def using L G by (intro decrypt_node_ok) (simp_all add: s2_def)
  then have 2: "CryptState_decrypt_node L k' (Some (node_text H)) (Some M) s2 =
      Some (Inr ((Some (greeting nm x n), False), s3))"
    by (simp add: s2_def s3_def)
  have 3: "decons (Some (greeting nm x n)) True ''[nnbsw'' [DNumber, DNumber, DStr, DStr, DWord ''init''] s3 =
      Some (Inr ((True, [ONumber (n_left n), ONumber (n_right n), OStr (Some x), OStr (Some nm)]), s3))"
    using decons_flat [OF NUL_names(3) ers(2), of "[LString nm, LBlob x, LNumber (n_right n), LNumber (n_left n)]" True]
    by (simp add: greeting_def)
  have 4: "destroy (Some (greeting nm x n)) = ret ()" by (simp add: greeting_def flat_destroy)
  have "CryptState_receiver_process_response L (Some (node_text H)) (Some M) cb (mk m t k d g src w) =
      Some (Inr ((True, False), mk (nonce_incd m) (t\<lparr> cp_key := p, cp_nonce := n, cp_session := Some x, cp_name := Some nm,
        cp_freed := (False, False) \<rparr>) k' d g src w'))"
    using 1 w' 2 3 ers unfolding s2_def [symmetric]
    by (simp add: CryptState_receiver_process_response_def step_simps ident_outs H(4) 4) (simp add: s3_def)
  with that show thesis by (simp add: H_def M_def hh)
qed

text \<open>The receiver's identity, with both nonces.\<close>

definition reply :: "string \<Rightarrow> string \<Rightarrow> CryptNonce \<Rightarrow> CryptNonce \<Rightarrow> node" where
  "reply nm x tn n = flat ''recv'' [LString nm, LBlob x, LNumber (n_right tn), LNumber (n_left tn),
     LNumber (n_right n), LNumber (n_left n)]"

lemma reply_ok:
  assumes "ident_ok m nm x"
  shows "printable_root (reply nm x tn n)" "nd_name (reply nm x tn n) \<noteq> None" "length (node_text (reply nm x tn n)) \<le> 1200"
  using assms flat_printable [OF short_words(3)]
    flat_text_length [OF short_words(3), of "[LString nm, LBlob x, LNumber (n_right tn), LNumber (n_left tn),
     LNumber (n_right n), LNumber (n_left n)]"]
  by (simp_all add: reply_def ident_ok_def)

lemma empty_header_text: "empty_header = node_text (flat ''header'' [])"
  by code_simp

lemma receiver_send_final_mk:
  assumes L: "ltc_ok L" and m: "ident_ok m nm x"
  shows "CryptState_receiver_send_final L (mk m t k d g src w) =
    Some (Inr ((Some (seal L k (cp_nonce t) empty_header (reply nm x (cp_nonce t) (fresh_nonce L g))), Some empty_header),
      mk (m\<lparr> cp_nonce := fresh_nonce L g \<rparr>) (nonce_incd t) k d (next_prng L g) src w))"
proof -
  define N where "N = fresh_nonce L g"
  define s1 where "s1 = mk (m\<lparr> cp_nonce := N \<rparr>) t k d (next_prng L g) src w"
  define P where "P = reply nm x (cp_nonce t) N"
  have s1: "\<not> s_errno s1" "cs_shared (s_crypt s1) = k" "cp_name (me s1) = Some nm" "cp_session (me s1) = Some x"
    "cp_nonce (me s1) = N" "cp_nonce (them s1) = cp_nonce t"
    using m by (simp_all add: s1_def ident_ok_def)
  have 1: "create_my_nonce L (mk m t k d g src w) = Some (Inr (True, s1))"
    by (simp add: s1_def N_def create_nonce_mk [OF L])
  have 2: "cons ''[sbnnnnw'' [CBstr (Some nm), CBstr (Some x), CNumber (n_right (cp_nonce t)), CNumber (n_left (cp_nonce t)),
      CNumber (n_right N), CNumber (n_left N), CWord (Some ''recv'')] s1 = Some (Inr (Some P, s1))"
    using cons_flat [OF NUL_names(4) s1(1), of "[LString nm, LBlob x, LNumber (n_right (cp_nonce t)), LNumber (n_left (cp_nonce t)),
      LNumber (n_right N), LNumber (n_left N)]"] by (simp add: P_def reply_def)
  have c: "CryptState_encrypt_node L k (Some empty_header) (Some P) s1 =
      Some (Inr (Some (seal L k (cp_nonce t) empty_header P), upd_them nonce_incd s1))"
    using encrypt_node_ok [OF L s1(1), of k empty_header P] s1(6) by simp
  have 3: "destroy (Some P) = ret ()" by (simp add: P_def reply_def flat_destroy)
  have "CryptState_receiver_send_final L (mk m t k d g src w) = Some (Inr ((Some (seal L k (cp_nonce t) empty_header P), Some empty_header), upd_them nonce_incd s1))"
    using 1 2 c s1 by (simp add: CryptState_receiver_send_final_def step_simps 3)
  then show ?thesis by (simp add: s1_def P_def N_def)
qed

text \<open>The answer is accepted whatever nonce \<open>tn\<close> it repeats.\<close>

lemma initiator_process_mk:
  assumes L: "ltc_ok L" and i: "ident_ok i nm x"
  shows "CryptState_initiator_process_response L (Some h) (Some (seal L k (cp_nonce m) h (reply nm x tn n))) (mk m t k d g src w) =
    Some (Inr ((True, False), mk (nonce_incd m) (t\<lparr> cp_nonce := n, cp_session := Some x, cp_name := Some nm,
      cp_freed := (False, False) \<rparr>) k d g src w))"
proof -
  define P where "P = reply nm x tn n"
  define s1 where "s1 = mk (nonce_incd m) t k d g src w"
  have P: "printable_root P" "nd_name P \<noteq> None" "length (node_text P) \<le> 1200" using reply_ok [OF i] by (simp_all add: P_def)
  have "CryptState_decrypt_node L k (Some h) (Some (seal L k (cp_nonce m) h P)) (mk m t k d g src w) =
      Some (Inr ((Some P, False), upd_me nonce_incd (mk m t k d g src w)))"
    using L P by (intro decrypt_node_ok) simp_all
  then have 1: "CryptState_decrypt_node L k (Some h) (Some (seal L k (cp_nonce m) h P)) (mk m t k d g src w) = Some (Inr ((Some P, False), s1))"
    by (simp add: s1_def)
  have s1: "\<not> s_errno s1" "cp_nonce (me s1) = CryptState_nonce_inc (cp_nonce m)" by (simp_all add: s1_def nonce_incd_def)
  have 2: "decons (Some P) True ''[nnnnbsw'' [DNumber, DNumber, DNumber, DNumber, DStr, DStr, DWord ''recv''] s1 =
      Some (Inr ((True, [ONumber (n_left n), ONumber (n_right n), ONumber (n_left tn), ONumber (n_right tn),
        OStr (Some x), OStr (Some nm)]), s1))"
    using decons_flat [OF NUL_names(4) s1(1), of "[LString nm, LBlob x, LNumber (n_right tn), LNumber (n_left tn),
     LNumber (n_right n), LNumber (n_left n)]" True] by (simp add: P_def reply_def)
  have 3: "destroy (Some P) = ret ()" by (simp add: P_def reply_def flat_destroy)
  have 4: "out_num [a, b, ONumber l, ONumber r, u, v] 2 0 = l" "out_num [a, b, ONumber l, ONumber r, u, v] 3 0 = r" for a b l r u v
    by (simp_all add: out_num_def numeral_eq_Suc)
  show ?thesis
    using 1 2 s1(1) unfolding P_def [symmetric]
    by (simp add: CryptState_initiator_process_response_def step_simps ident_outs 3 4) (simp add: s1_def check_def)
qed

section \<open>The end of the agreement\<close>

definition final :: "CryptNonce \<Rightarrow> node" where
  "final n = flat ''init'' [LNumber (n_right n), LNumber (n_left n)]"

lemma final_ok: "printable_root (final n)" "nd_name (final n) \<noteq> None" "length (node_text (final n)) \<le> 1200"
  using flat_printable [OF short_words(2)] flat_text_length [OF short_words(2), of "[LNumber (n_right n), LNumber (n_left n)]"]
  by (simp_all add: final_def)

definition keyed :: "symmetric_key \<Rightarrow> CryptPeer \<Rightarrow> CryptPeer" where
  "keyed sk p = p\<lparr> cp_skey := sk, cp_session := None \<rparr>"

lemma finalize_mk:
  assumes "cp_session m = Some x" "rijndael_setup L (Some x) = Some kx" "snd (cp_freed m) = False"
    "cp_session t = Some y" "rijndael_setup L (Some y) = Some ky" "snd (cp_freed t) = False"
  shows "CryptState_finalize_session L (mk m t k d g src w) =
    Some (Inr (True, mk (keyed kx m) (keyed ky t) (zero_skey L) d g src w))"
  using assms by (simp add: CryptState_finalize_session_def Let_def keyed_def ret_def)

lemma initiator_send_final_mk:
  assumes L: "ltc_ok L"
    and m: "cp_session m = Some x" "rijndael_setup L (Some x) = Some kx" "snd (cp_freed m) = False"
    and t: "cp_session t = Some y" "rijndael_setup L (Some y) = Some ky" "snd (cp_freed t) = False"
  shows "CryptState_initiator_send_final L (mk m t k d g src w) =
    Some (Inr ((Some (seal L k (cp_nonce t) empty_header (final (cp_nonce t))), Some empty_header),
      mk (keyed kx m) (keyed ky (nonce_incd t)) (zero_skey L) d g src w))"
proof -
  define P where "P = final (cp_nonce t)"
  define s0 where "s0 = mk m t k d g src w"
  have s0: "\<not> s_errno s0" "cp_nonce (them s0) = cp_nonce t" "cs_shared (s_crypt s0) = k" by (simp_all add: s0_def)
  have 1: "cons ''[nnw'' [CNumber (n_right (cp_nonce t)), CNumber (n_left (cp_nonce t)), CWord (Some ''init'')] s0 = Some (Inr (Some P, s0))"
    using cons_flat [OF NUL_names(3) s0(1), of "[LNumber (n_right (cp_nonce t)), LNumber (n_left (cp_nonce t))]"]
    by (simp add: P_def final_def)
  have c: "CryptState_encrypt_node L k (Some empty_header) (Some P) s0 =
      Some (Inr (Some (seal L k (cp_nonce t) empty_header P), upd_them nonce_incd s0))"
    using encrypt_node_ok [OF L s0(1), of k empty_header P] s0(2) by simp
  have 2: "CryptState_finalize_session L (upd_them nonce_incd s0) =
      Some (Inr (True, mk (keyed kx m) (keyed ky (nonce_incd t)) (zero_skey L) d g src w))"
    unfolding s0_def mk_simps by (rule finalize_mk) (use m t in \<open>simp_all add: nonce_incd_def\<close>)
  have 3: "destroy (Some P) = ret ()" by (simp add: P_def final_def flat_destroy)
  have "CryptState_initiator_send_final L s0 =
      Some (Inr ((Some (seal L k (cp_nonce t) empty_header P), Some empty_header), mk (keyed kx m) (keyed ky (nonce_incd t)) (zero_skey L) d g src w))"
    using 1 c 2 s0 by (simp add: CryptState_initiator_send_final_def step_simps 3)
  then show ?thesis by (simp add: s0_def P_def)
qed

lemma receiver_done_mk:
  assumes L: "ltc_ok L" and m: "cp_session m = Some x" "rijndael_setup L (Some x) = Some kx" "snd (cp_freed m) = False"
    and t: "cp_session t = Some y" "rijndael_setup L (Some y) = Some ky" "snd (cp_freed t) = False"
  shows "CryptState_receiver_done L (Some h) (Some (seal L k (cp_nonce m) h (final (cp_nonce m)))) (mk m t k d g src w) =
    Some (Inr ((True, False), mk (keyed kx (nonce_incd m)) (keyed ky t) (zero_skey L) d g src w))"
proof -
  define P where "P = final (cp_nonce m)"
  define s1 where "s1 = mk (nonce_incd m) t k d g src w"
  have P: "printable_root P" "nd_name P \<noteq> None" "length (node_text P) \<le> 1200" using final_ok by (simp_all add: P_def)
  have "CryptState_decrypt_node L k (Some h) (Some (seal L k (cp_nonce m) h P)) (mk m t k d g src w) =
      Some (Inr ((Some P, False), upd_me nonce_incd (mk m t k d g src w)))"
    using L P by (intro decrypt_node_ok) simp_all
  then have 1: "CryptState_decrypt_node L k (Some h) (Some (seal L k (cp_nonce m) h P)) (mk m t k d g src w) = Some (Inr ((Some P, False), s1))"
    by (simp add: s1_def)
  have s1: "\<not> s_errno s1" "cp_nonce (me s1) = CryptState_nonce_inc (cp_nonce m)" by (simp_all add: s1_def nonce_incd_def)
  have 2: "decons (Some P) False ''[nnw'' [DNumber, DNumber, DWord ''init''] s1 =
      Some (Inr ((True, [ONumber (n_left (cp_nonce m)), ONumber (n_right (cp_nonce m))]), s1))"
    using decons_flat [OF NUL_names(3) s1(1), of "[LNumber (n_right (cp_nonce m)), LNumber (n_left (cp_nonce m))]" False]
    by (simp add: P_def final_def)
  have 3: "CryptState_finalize_session L s1 =
      Some (Inr (True, mk (keyed kx (nonce_incd m)) (keyed ky t) (zero_skey L) d g src w))"
    unfolding s1_def by (rule finalize_mk) (use m t in \<open>simp_all add: nonce_incd_def\<close>)
  have 4: "destroy (Some P) = ret ()" by (simp add: P_def final_def flat_destroy)
  show ?thesis
    using 1 2 3 s1 unfolding P_def [symmetric]
    by (simp add: CryptState_receiver_done_def step_simps 4 CryptState_nonce_check_def out_num_def)
qed

end
