(* ===== verification/Agreement.thy ===== *)
theory Agreement
  imports Handshake
begin

text \<open>
  The key agreement run by \<open>Peer_establish_receiver\<close> and \<open>Peer_establish_initiator\<close> of two
  honest ends over their sources, and the messages that \<open>Peer_send\<close> and \<open>Peer_recv\<close> carry
  afterwards.
\<close>

section \<open>The functions of the two ends over their sources\<close>

lemma send_mk:
  assumes io: "io_ok io v" and src: "src_ok io v src" and cap: "4096 \<le> v_cap v"
    and len: "length h \<le> 1200" "length (node_text p) \<le> 1300"
  obtains src' where "FrameSource_send io (Some h) (Some p) True (mk m t k d g src w) = Some (Inr (True, mk m t k d g src' w))"
    "src_ok io v src'" "src_in v src' = src_in v src" "src_sent v src' = src_sent v src @ frame_bytes (h @ node_text p)"
  using send_frame [of io v "mk m t k d g src w" h p] assms by auto

lemma recv_single_mk:
  assumes io: "io_ok io v" and src: "src_ok io v src" "src_in v src = frame_bytes (node_text p) @ rest" and cap: "4096 \<le> v_cap v"
    and p: "printable_root p" "nd_name p \<noteq> None" "length (node_text p) \<le> 1300"
  obtains src' where "FrameSource_recv io (mk m t k d g src w) =
      Some (Inr (\<lparr> rv_msg = None, rv_hbuf = Some (node_text p), rv_header = Some p \<rparr>, mk m t k d g src' w))"
    "src_ok io v src'" "src_in v src' = rest" "src_sent v src' = src_sent v src"
proof -
  have "node_text p \<noteq> []" by (simp add: node_text_def)
  with recv_frame [OF io, of "mk m t k d g src w" "node_text p" rest] src cap p(3)
  obtain src' where "FrameSource_recv io (mk m t k d g src w) =
      parse_frame (Some (node_text p)) (word_of_nat (length (node_text p))) (mk m t k d g src' w)"
    "src_ok io v src'" "src_in v src' = rest" "src_sent v src' = src_sent v src" by auto
  with that parse_frame_single [OF p(1,2), of "mk m t k d g src' w"] p(3) show thesis by simp
qed

lemma recv_pair_mk:
  assumes io: "io_ok io v" and src: "src_ok io v src" "src_in v src = frame_bytes (node_text h @ node_text p) @ rest"
    and cap: "4096 \<le> v_cap v"
    and h: "printable_root h" "nd_name h \<noteq> None" "length (node_text h) \<le> 1200"
    and p: "printable_root p" "nd_name p \<noteq> None" "length (node_text p) \<le> 1300"
  obtains src' where "FrameSource_recv io (mk m t k d g src w) =
      Some (Inr (\<lparr> rv_msg = Some p, rv_hbuf = Some (node_text h), rv_header = Some h \<rparr>, mk m t k d g src' w))"
    "src_ok io v src'" "src_in v src' = rest" "src_sent v src' = src_sent v src"
proof -
  have "node_text h @ node_text p \<noteq> []" by (simp add: node_text_def)
  with recv_frame [OF io, of "mk m t k d g src w" "node_text h @ node_text p" rest] src cap h(3) p(3)
  obtain src' where "FrameSource_recv io (mk m t k d g src w) =
      parse_frame (Some (node_text h @ node_text p)) (word_of_nat (length (node_text h @ node_text p))) (mk m t k d g src' w)"
    "src_ok io v src'" "src_in v src' = rest" "src_sent v src' = src_sent v src" by auto
  with that parse_frame_pair [OF h(1,2) p(1,2), of "mk m t k d g src' w"] h(3) p(3) show thesis by simp
qed

text \<open>The four frames of an agreement.\<close>

definition key_header :: "string \<Rightarrow> node" where
  "key_header e = flat ''header'' [LBlob e]"

definition frame1 :: "CryptNonce \<Rightarrow> string \<Rightarrow> string" where
  "frame1 n e = frame_bytes (node_text (hello n e))"

definition frame2 :: "ltc \<Rightarrow> symmetric_key \<Rightarrow> CryptNonce \<Rightarrow> string \<Rightarrow> node \<Rightarrow> string" where
  "frame2 L k n e p = frame_bytes (node_text (key_header e) @ node_text (seal L k n (node_text (key_header e)) p))"

definition frame34 :: "ltc \<Rightarrow> symmetric_key \<Rightarrow> CryptNonce \<Rightarrow> node \<Rightarrow> string" where
  "frame34 L k n p = frame_bytes (empty_header @ node_text (seal L k n empty_header p))"

lemma headers_ok:
  assumes "length e \<le> 1000"
  shows "printable_root (key_header e)" "nd_name (key_header e) \<noteq> None" "length (node_text (key_header e)) \<le> 1200"
    "destroy (Some (key_header e)) = ret ()"
    "printable_root (hello n e)" "nd_name (hello n e) \<noteq> None" "length (node_text (hello n e)) \<le> 1200"
    "destroy (Some (hello n e)) = ret ()"
  using assms flat_printable [OF short_words(1)] flat_text_length [OF short_words(1), of "[LBlob e]"]
    flat_text_length [OF short_words(1), of "[LNumber (n_right n), LNumber (n_left n), LBlob e]"]
  by (simp_all add: key_header_def hello_def flat_destroy)

definition no_header :: node where "no_header = flat ''header'' []"

lemma no_header_ok:
  "printable_root no_header" "nd_name no_header \<noteq> None" "length (node_text no_header) \<le> 1200"
  "destroy (Some no_header) = ret ()" "empty_header = node_text no_header"
  using flat_printable [OF short_words(1), of "[]"] flat_text_length [OF short_words(1), of "[]"] empty_header_text
  by (simp_all add: no_header_def flat_destroy)

lemma establish_receiver_mk:
  assumes L: "ltc_ok L" and cb: "accepts cb" and io: "io_ok io v" "4096 \<le> v_cap v" and src: "src_ok io v src"
    and own: "ecc_export L PK_PUBLIC (cp_key m) = Some e" "length e \<le> 1000"
    and their: "ecc_import L e' = Some p" "length e' \<le> 1000"
    and z: "ecc_shared_secret L (cp_key m) p = Some z" "rijndael_setup L (Some z) = Some k'"
    and ids: "ident_ok m nm x" "ident_ok i nm' x'"
    and keys: "rijndael_setup L (Some x) = Some kx" "rijndael_setup L (Some x') = Some kx'"
    and N: "N1 = fresh_nonce L g" "N2 = fresh_nonce L (next_prng L g)"
    and bytes: "src_in v src = frame2 L k' N1 e' (greeting nm' x' NI) @ frame34 L k' N2 (final N2) @ rest"
  obtains src' w' where
    "Peer_establish_receiver L io cb (mk m t k d g src w) =
      Some (Inr (True, mk (keyed kx (nonce_incd (m\<lparr> cp_nonce := N2 \<rparr>)))
        (keyed kx' (nonce_incd (t\<lparr> cp_key := p, cp_nonce := NI, cp_session := Some x', cp_name := Some nm', cp_freed := (False, False) \<rparr>)))
        (zero_skey L) d (next_prng L (next_prng L g)) src' w'))"
    "src_ok io v src'" "src_in v src' = rest"
    "src_sent v src' = src_sent v src @ frame1 N1 e @ frame34 L k' NI (reply nm x NI N2)"
proof -
  define t2 where "t2 = t\<lparr> cp_key := p, cp_nonce := NI, cp_session := Some x', cp_name := Some nm', cp_freed := (False, False) \<rparr>"
  define g1 g2 where "g1 = next_prng L g" and "g2 = next_prng L g1"
  define H where "H = key_header e'"
  define M2 where "M2 = seal L k' N1 (node_text H) (greeting nm' x' NI)"
  define M3 where "M3 = seal L k' NI empty_header (reply nm x NI N2)"
  define M4 where "M4 = seal L k' N2 empty_header (final N2)"
  have M2: "printable_root M2" "nd_name M2 \<noteq> None" "length (node_text M2) \<le> 1300" "destroy_packet False (Some M2) = ret ()"
    unfolding M2_def using greeting_ok [OF ids(2)] by (intro seal_ok [OF L]; simp)+
  have M3: "length (node_text M3) \<le> 1300" "destroy (Some M3) = ret ()"
    unfolding M3_def using reply_ok [OF ids(1)] by (intro seal_ok [OF L]; simp)+
  have M4: "printable_root M4" "nd_name M4 \<noteq> None" "length (node_text M4) \<le> 1300" "destroy_packet False (Some M4) = ret ()"
    unfolding M4_def using final_ok by (intro seal_ok [OF L]; simp)+
  have H: "printable_root H" "nd_name H \<noteq> None" "length (node_text H) \<le> 1200" "destroy (Some H) = ret ()"
    unfolding H_def by (intro headers_ok [OF their(2)])+
  have h: "length (node_text (hello N1 e)) \<le> 1200" "destroy (Some (hello N1 e)) = ret ()"
    by (intro headers_ok [OF own(2)])+
  have 1: "CryptState_receiver_start L (mk m t k d g src w) = Some (Inr (Some (hello N1 e), mk (m\<lparr> cp_nonce := N1 \<rparr>) t k d g1 src w))"
    by (simp add: receiver_start_mk [OF L own(1)] N(1) g1_def)
  obtain src2 where 2: "FrameSource_send io (Some []) (Some (hello N1 e)) True (mk (m\<lparr> cp_nonce := N1 \<rparr>) t k d g1 src w) =
      Some (Inr (True, mk (m\<lparr> cp_nonce := N1 \<rparr>) t k d g1 src2 w))"
    "src_ok io v src2" "src_in v src2 = src_in v src" "src_sent v src2 = src_sent v src @ frame1 N1 e"
    by (rule send_mk [OF io(1) src io(2), of "[]" "hello N1 e"]) (use h(1) in \<open>simp_all add: frame1_def\<close>)
  obtain src3 where 3: "FrameSource_recv io (mk (m\<lparr> cp_nonce := N1 \<rparr>) t k d g1 src2 w) =
      Some (Inr (\<lparr> rv_msg = Some M2, rv_hbuf = Some (node_text H), rv_header = Some H \<rparr>, mk (m\<lparr> cp_nonce := N1 \<rparr>) t k d g1 src3 w))"
    "src_ok io v src3" "src_in v src3 = frame34 L k' N2 (final N2) @ rest" "src_sent v src3 = src_sent v src2"
    by (rule recv_pair_mk [OF io(1) 2(2) _ io(2) H(1-3) M2(1-3), of "frame34 L k' N2 (final N2) @ rest"])
      (simp_all add: 2(3) bytes frame2_def H_def M2_def)
  obtain w4 where 4: "CryptState_receiver_process_response L (Some (node_text H)) (Some M2) cb (mk (m\<lparr> cp_nonce := N1 \<rparr>) t k d g1 src3 w) =
      Some (Inr ((True, False), mk (nonce_incd (m\<lparr> cp_nonce := N1 \<rparr>)) t2 k' d g1 src3 w4))"
    by (rule receiver_process_mk [OF L cb their _ z(2) ids(2), of "m\<lparr> cp_nonce := N1 \<rparr>" "node_text H"])
      (use z(1) in \<open>simp_all add: H_def key_header_def M2_def t2_def\<close>)
  have id4: "ident_ok (nonce_incd (m\<lparr> cp_nonce := N1 \<rparr>)) nm x" using ids(1) by (simp add: ident_ok_def nonce_incd_def)
  have 5: "CryptState_receiver_send_final L (mk (nonce_incd (m\<lparr> cp_nonce := N1 \<rparr>)) t2 k' d g1 src3 w4) =
      Some (Inr ((Some M3, Some empty_header), mk (m\<lparr> cp_nonce := N2 \<rparr>) (nonce_incd t2) k' d g2 src3 w4))"
    using receiver_send_final_mk [OF L id4, of t2 k' d g1 src3 w4] by (simp add: N(2) g1_def g2_def M3_def t2_def) (simp add: nonce_incd_def)
  obtain src6 where 6: "FrameSource_send io (Some empty_header) (Some M3) True (mk (m\<lparr> cp_nonce := N2 \<rparr>) (nonce_incd t2) k' d g2 src3 w4) =
      Some (Inr (True, mk (m\<lparr> cp_nonce := N2 \<rparr>) (nonce_incd t2) k' d g2 src6 w4))"
    "src_ok io v src6" "src_in v src6 = src_in v src3" "src_sent v src6 = src_sent v src3 @ frame34 L k' NI (reply nm x NI N2)"
    by (rule send_mk [OF io(1) 3(2) io(2), of empty_header M3])
      (use M3(1) no_header_ok(3,5) in \<open>simp_all add: frame34_def M3_def\<close>)
  obtain src7 where 7: "FrameSource_recv io (mk (m\<lparr> cp_nonce := N2 \<rparr>) (nonce_incd t2) k' d g2 src6 w4) =
      Some (Inr (\<lparr> rv_msg = Some M4, rv_hbuf = Some empty_header, rv_header = Some no_header \<rparr>,
        mk (m\<lparr> cp_nonce := N2 \<rparr>) (nonce_incd t2) k' d g2 src7 w4))"
    "src_ok io v src7" "src_in v src7 = rest" "src_sent v src7 = src_sent v src6"
    unfolding no_header_ok(5)
    by (rule recv_pair_mk [OF io(1) 6(2) _ io(2) no_header_ok(1-3) M4(1-3), of rest])
      (simp_all add: 6(3) 3(3) frame34_def M4_def no_header_ok(5))
  have 8: "CryptState_receiver_done L (Some empty_header) (Some M4) (mk (m\<lparr> cp_nonce := N2 \<rparr>) (nonce_incd t2) k' d g2 src7 w4) =
      Some (Inr ((True, False), mk (keyed kx (nonce_incd (m\<lparr> cp_nonce := N2 \<rparr>))) (keyed kx' (nonce_incd t2)) (zero_skey L) d g2 src7 w4))"
    using receiver_done_mk [OF L, of "m\<lparr> cp_nonce := N2 \<rparr>" x kx "nonce_incd t2" x' kx'] ids(1) keys
    by (simp add: M4_def t2_def ident_ok_def nonce_incd_def)
  have "Peer_establish_receiver L io cb (mk m t k d g src w) =
      Some (Inr (True, mk (keyed kx (nonce_incd (m\<lparr> cp_nonce := N2 \<rparr>))) (keyed kx' (nonce_incd t2)) (zero_skey L) d g2 src7 w4))"
    using 1 2(1) 3(1) 4 5 6(1) 7(1) 8
    by (simp add: Peer_establish_receiver_def bindp_Some Let_def h(2) H(4) M2(4) M3(2) M4(4) no_header_ok(4) ret_def)
  with that 7(2,3,4) 6(4) 3(4) 2(4) show thesis by (simp add: t2_def g1_def g2_def)
qed

lemma establish_initiator_mk:
  assumes L: "ltc_ok L" and cb: "accepts cb" and io: "io_ok io v" "4096 \<le> v_cap v" and src: "src_ok io v src"
    and own: "ecc_export L PK_PUBLIC (cp_key m) = Some e" "length e \<le> 1000"
    and their: "ecc_import L e' = Some p" "length e' \<le> 1000"
    and z: "ecc_shared_secret L (cp_key m) p = Some z" "rijndael_setup L (Some z) = Some k'"
    and ids: "ident_ok m nm x" "ident_ok i nm' x'"
    and keys: "rijndael_setup L (Some x) = Some kx" "rijndael_setup L (Some x') = Some kx'"
    and NI: "NI = fresh_nonce L g"
    and bytes: "src_in v src = frame1 N1 e' @ frame34 L k' NI (reply nm' x' NI N2) @ rest"
  obtains src' w' where
    "Peer_establish_initiator L io cb (mk m t k d g src w) =
      Some (Inr (True, mk (keyed kx (nonce_incd (m\<lparr> cp_nonce := NI \<rparr>)))
        (keyed kx' (nonce_incd (t\<lparr> cp_key := p, cp_nonce := N2, cp_session := Some x', cp_name := Some nm', cp_freed := (False, False) \<rparr>)))
        (zero_skey L) d (next_prng L g) src' w'))"
    "src_ok io v src'" "src_in v src' = rest"
    "src_sent v src' = src_sent v src @ frame2 L k' N1 e (greeting nm x NI) @ frame34 L k' N2 (final N2)"
proof -
  define t1 where "t1 = nonce_incd (t\<lparr> cp_nonce := N1, cp_key := p \<rparr>)"
  define t2 where "t2 = t\<lparr> cp_key := p, cp_nonce := N2, cp_session := Some x', cp_name := Some nm', cp_freed := (False, False) \<rparr>"
  have t12: "t1\<lparr> cp_nonce := N2, cp_session := Some x', cp_name := Some nm', cp_freed := (False, False) \<rparr> = t2"
    by (simp add: t1_def t2_def nonce_incd_def)
  define g1 where "g1 = next_prng L g"
  define H where "H = key_header e"
  define M2 where "M2 = seal L k' N1 (node_text H) (greeting nm x NI)"
  define M3 where "M3 = seal L k' NI empty_header (reply nm' x' NI N2)"
  define M4 where "M4 = seal L k' N2 empty_header (final N2)"
  have M2: "length (node_text M2) \<le> 1300" "destroy (Some M2) = ret ()"
    unfolding M2_def using greeting_ok [OF ids(1)] by (intro seal_ok [OF L]; simp)+
  have M3: "printable_root M3" "nd_name M3 \<noteq> None" "length (node_text M3) \<le> 1300" "destroy_packet False (Some M3) = ret ()"
    unfolding M3_def using reply_ok [OF ids(2)] by (intro seal_ok [OF L]; simp)+
  have M4: "length (node_text M4) \<le> 1300" "destroy (Some M4) = ret ()"
    unfolding M4_def using final_ok by (intro seal_ok [OF L]; simp)+
  have H: "length (node_text H) \<le> 1200" unfolding H_def by (intro headers_ok [OF own(2)])
  have h: "printable_root (hello N1 e')" "nd_name (hello N1 e') \<noteq> None" "length (node_text (hello N1 e')) \<le> 1200"
    "destroy (Some (hello N1 e')) = ret ()"
    by (intro headers_ok [OF their(2)])+
  obtain src1 where 1: "FrameSource_recv io (mk m t k d g src w) =
      Some (Inr (\<lparr> rv_msg = None, rv_hbuf = Some (node_text (hello N1 e')), rv_header = Some (hello N1 e') \<rparr>, mk m t k d g src1 w))"
    "src_ok io v src1" "src_in v src1 = frame34 L k' NI (reply nm' x' NI N2) @ rest" "src_sent v src1 = src_sent v src"
    by (rule recv_single_mk [OF io(1) src _ io(2) h(1,2), of "frame34 L k' NI (reply nm' x' NI N2) @ rest"])
      (use h(3) in \<open>simp_all add: bytes frame1_def\<close>)
  obtain w2 where 2: "CryptState_initiator_start L (Some (hello N1 e')) cb (mk m t k d g src1 w) =
      Some (Inr ((Some M2, Some (node_text H)), mk (m\<lparr> cp_nonce := NI \<rparr>) t1 k' d g1 src1 w2))"
    by (rule initiator_start_mk [OF L cb their(1) z own(1) ids(1), of N1 t k d g src1 w])
      (simp add: M2_def H_def key_header_def NI g1_def t1_def)
  obtain src3 where 3: "FrameSource_send io (Some (node_text H)) (Some M2) True (mk (m\<lparr> cp_nonce := NI \<rparr>) t1 k' d g1 src1 w2) =
      Some (Inr (True, mk (m\<lparr> cp_nonce := NI \<rparr>) t1 k' d g1 src3 w2))"
    "src_ok io v src3" "src_in v src3 = src_in v src1" "src_sent v src3 = src_sent v src1 @ frame2 L k' N1 e (greeting nm x NI)"
    by (rule send_mk [OF io(1) 1(2) io(2) H M2(1)]) (simp add: frame2_def H_def M2_def)
  obtain src4 where 4: "FrameSource_recv io (mk (m\<lparr> cp_nonce := NI \<rparr>) t1 k' d g1 src3 w2) =
      Some (Inr (\<lparr> rv_msg = Some M3, rv_hbuf = Some empty_header, rv_header = Some no_header \<rparr>,
        mk (m\<lparr> cp_nonce := NI \<rparr>) t1 k' d g1 src4 w2))"
    "src_ok io v src4" "src_in v src4 = rest" "src_sent v src4 = src_sent v src3"
    unfolding no_header_ok(5)
    by (rule recv_pair_mk [OF io(1) 3(2) _ io(2) no_header_ok(1-3) M3(1-3), of rest])
      (simp_all add: 3(3) 1(3) frame34_def M3_def no_header_ok(5))
  have 5: "CryptState_initiator_process_response L (Some empty_header) (Some M3) (mk (m\<lparr> cp_nonce := NI \<rparr>) t1 k' d g1 src4 w2) =
      Some (Inr ((True, False), mk (nonce_incd (m\<lparr> cp_nonce := NI \<rparr>)) t2 k' d g1 src4 w2))"
    using initiator_process_mk [OF L ids(2), of empty_header k' "m\<lparr> cp_nonce := NI \<rparr>" NI N2 t1 d g1 src4 w2]
    by (simp add: M3_def t12)
  have 6: "CryptState_initiator_send_final L (mk (nonce_incd (m\<lparr> cp_nonce := NI \<rparr>)) t2 k' d g1 src4 w2) =
      Some (Inr ((Some M4, Some empty_header),
        mk (keyed kx (nonce_incd (m\<lparr> cp_nonce := NI \<rparr>))) (keyed kx' (nonce_incd t2)) (zero_skey L) d g1 src4 w2))"
    using initiator_send_final_mk [OF L, of "nonce_incd (m\<lparr> cp_nonce := NI \<rparr>)" x kx t2 x' kx' k' d g1 src4 w2] ids(1) keys
    by (simp add: M4_def t2_def ident_ok_def nonce_incd_def)
  obtain src7 where 7: "FrameSource_send io (Some empty_header) (Some M4) True
        (mk (keyed kx (nonce_incd (m\<lparr> cp_nonce := NI \<rparr>))) (keyed kx' (nonce_incd t2)) (zero_skey L) d g1 src4 w2) =
      Some (Inr (True, mk (keyed kx (nonce_incd (m\<lparr> cp_nonce := NI \<rparr>))) (keyed kx' (nonce_incd t2)) (zero_skey L) d g1 src7 w2))"
    "src_ok io v src7" "src_in v src7 = src_in v src4" "src_sent v src7 = src_sent v src4 @ frame34 L k' N2 (final N2)"
    by (rule send_mk [OF io(1) 4(2) io(2), of empty_header M4])
      (use M4(1) no_header_ok(3,5) in \<open>simp_all add: frame34_def M4_def\<close>)
  have "Peer_establish_initiator L io cb (mk m t k d g src w) =
      Some (Inr (True, mk (keyed kx (nonce_incd (m\<lparr> cp_nonce := NI \<rparr>))) (keyed kx' (nonce_incd t2)) (zero_skey L) d g1 src7 w2))"
    using 1(1) 2 3(1) 4(1) 5 6 7(1)
    by (simp add: Peer_establish_initiator_def bindp_Some Let_def h(4) M2(2) M3(4) M4(2) no_header_ok(4) ret_def)
  with that 7(2-4) 4(3,4) 3(4) 1(4) show thesis by (simp add: t2_def g1_def)
qed

section \<open>Both ends agree\<close>

text \<open>
  The state two ends share after an agreement: each has the other's name and public key, the
  session key one end schedules for what it receives is the one the other schedules for what
  it sends, and the nonces of the two directions are in step.
\<close>

definition in_step :: "CryptState \<Rightarrow> CryptState \<Rightarrow> bool" where
  "in_step A B \<longleftrightarrow>
     cp_skey (cs_them A) = cp_skey (cs_me B) \<and> cp_nonce (cs_them A) = cp_nonce (cs_me B) \<and>
     cp_skey (cs_me A) = cp_skey (cs_them B) \<and> cp_nonce (cs_me A) = cp_nonce (cs_them B)"

text \<open>A state ready for an agreement, as \<open>CryptState_create\<close> and \<open>Peer_create\<close> leave it.\<close>

definition ready_end :: "('b, 'n) io \<Rightarrow> ('b, 'n) io_view \<Rightarrow> ('b, 'n, 'w) sess \<Rightarrow> ecc_key \<Rightarrow> string \<Rightarrow> bool" where
  "ready_end io v s key nm \<longleftrightarrow>
     \<not> s_errno s \<and> src_ok io v (s_source s) \<and> cp_key (me s) = key \<and> (\<exists>x. ident_ok (me s) nm x)"

lemma agreement_run:
  assumes L: "ltc_ok L" and io: "io_ok io v" "4096 \<le> v_cap v"
    and keys: "ecc_agree L a ea pa b eb pb" "length ea \<le> 1000" "length eb \<le> 1000"
    and R: "ready_end io v sR a nmR" and I: "ready_end io v sI b nmI"
    and cb: "accepts cbR" "accepts cbI"
  obtains toI toR where
    "\<And>srcR srcI. src_ok io v srcR \<Longrightarrow> src_ok io v srcI \<Longrightarrow> src_in v srcR = toR \<Longrightarrow> src_in v srcI = toI \<Longrightarrow>
      \<exists>sR' sI'. Peer_establish_receiver L io cbR (sR\<lparr> s_source := srcR \<rparr>) = Some (Inr (True, sR')) \<and>
        Peer_establish_initiator L io cbI (sI\<lparr> s_source := srcI \<rparr>) = Some (Inr (True, sI')) \<and>
        src_sent v (s_source sR') = src_sent v srcR @ toI \<and> src_sent v (s_source sI') = src_sent v srcI @ toR \<and>
        \<not> s_errno sR' \<and> \<not> s_errno sI' \<and> src_ok io v (s_source sR') \<and> src_ok io v (s_source sI') \<and>
        src_in v (s_source sR') = [] \<and> src_in v (s_source sI') = [] \<and>
        cp_name (them sR') = Some nmI \<and> cp_key (them sR') = pb \<and>
        cp_name (them sI') = Some nmR \<and> cp_key (them sI') = pa \<and> in_step (s_crypt sR') (s_crypt sI')"
proof -
  obtain xR xI where id: "ident_ok (me sR) nmR xR" "ident_ok (me sI) nmI xI"
    using R I by (auto simp: ready_end_def)
  have ready: "\<not> s_errno sR" "\<not> s_errno sI" "cp_key (me sR) = a" "cp_key (me sI) = b"
    using R I by (auto simp: ready_end_def)
  obtain z where k: "ecc_export L PK_PUBLIC a = Some ea" "ecc_import L ea = Some pa" "ecc_export L PK_PUBLIC b = Some eb"
    "ecc_import L eb = Some pb" "length z = 32" "ecc_shared_secret L a pb = Some z" "ecc_shared_secret L b pa = Some z"
    using keys(1) by (auto simp: ecc_agree_def)
  have set: "\<exists>kz. rijndael_setup L (Some y) = Some kz" if "length y = 32" for y
    using L that unfolding ltc_ok_def by blast
  obtain kz kR kI where kz: "rijndael_setup L (Some z) = Some kz" "rijndael_setup L (Some xR) = Some kR"
    "rijndael_setup L (Some xI) = Some kI"
    using set k(5) id by (metis ident_ok_def)
  define N1 N2 NI where "N1 = fresh_nonce L (s_prng sR)" and "N2 = fresh_nonce L (next_prng L (s_prng sR))"
    and "NI = fresh_nonce L (s_prng sI)"
  define toI where "toI = frame1 N1 ea @ frame34 L kz NI (reply nmR xR NI N2)"
  define toR where "toR = frame2 L kz N1 eb (greeting nmI xI NI) @ frame34 L kz N2 (final N2)"
  show thesis
  proof (rule that)
    fix srcR srcI assume src: "src_ok io v srcR" "src_ok io v srcI" and "in": "src_in v srcR = toR" "src_in v srcI = toI"
    have mkR: "sR\<lparr> s_source := srcR \<rparr> =
        mk (me sR) (them sR) (cs_shared (s_crypt sR)) (cs_data (s_crypt sR)) (s_prng sR) srcR (s_rest sR)"
      and mkI: "sI\<lparr> s_source := srcI \<rparr> =
        mk (me sI) (them sI) (cs_shared (s_crypt sI)) (cs_data (s_crypt sI)) (s_prng sI) srcI (s_rest sI)"
      using sess_is_mk [OF ready(1)] sess_is_mk [OF ready(2)] by (metis mk_simps(9))+
    obtain srcR' wR where runR: "Peer_establish_receiver L io cbR (sR\<lparr> s_source := srcR \<rparr>) =
        Some (Inr (True, mk (keyed kR (nonce_incd ((me sR)\<lparr> cp_nonce := N2 \<rparr>)))
          (keyed kI (nonce_incd ((them sR)\<lparr> cp_key := pb, cp_nonce := NI, cp_session := Some xI, cp_name := Some nmI, cp_freed := (False, False) \<rparr>)))
          (zero_skey L) (cs_data (s_crypt sR)) (next_prng L (next_prng L (s_prng sR))) srcR' wR))"
      "src_ok io v srcR'" "src_in v srcR' = []" "src_sent v srcR' = src_sent v srcR @ toI"
      unfolding mkR
      by (rule establish_receiver_mk [OF L cb(1) io src(1) _ keys(2) k(4) keys(3) _ kz(1) id kz(2,3) N1_def N2_def, where rest = "[]" and NI = NI])
        (use k ready "in" in \<open>simp_all add: toI_def toR_def\<close>)
    obtain srcI' wI where runI: "Peer_establish_initiator L io cbI (sI\<lparr> s_source := srcI \<rparr>) =
        Some (Inr (True, mk (keyed kI (nonce_incd ((me sI)\<lparr> cp_nonce := NI \<rparr>)))
          (keyed kR (nonce_incd ((them sI)\<lparr> cp_key := pa, cp_nonce := N2, cp_session := Some xR, cp_name := Some nmR, cp_freed := (False, False) \<rparr>)))
          (zero_skey L) (cs_data (s_crypt sI)) (next_prng L (s_prng sI)) srcI' wI))"
      "src_ok io v srcI'" "src_in v srcI' = []" "src_sent v srcI' = src_sent v srcI @ toR"
      unfolding mkI
      by (rule establish_initiator_mk [OF L cb(2) io src(2) _ keys(3) k(2) keys(2) _ kz(1) id(2,1) kz(3,2) NI_def, where rest = "[]" and ?N1.0 = N1 and ?N2.0 = N2])
        (use k ready "in" in \<open>simp_all add: toI_def toR_def\<close>)
    show "\<exists>sR' sI'. Peer_establish_receiver L io cbR (sR\<lparr> s_source := srcR \<rparr>) = Some (Inr (True, sR')) \<and>
        Peer_establish_initiator L io cbI (sI\<lparr> s_source := srcI \<rparr>) = Some (Inr (True, sI')) \<and>
        src_sent v (s_source sR') = src_sent v srcR @ toI \<and> src_sent v (s_source sI') = src_sent v srcI @ toR \<and>
        \<not> s_errno sR' \<and> \<not> s_errno sI' \<and> src_ok io v (s_source sR') \<and> src_ok io v (s_source sI') \<and>
        src_in v (s_source sR') = [] \<and> src_in v (s_source sI') = [] \<and>
        cp_name (them sR') = Some nmI \<and> cp_key (them sR') = pb \<and>
        cp_name (them sI') = Some nmR \<and> cp_key (them sI') = pa \<and> in_step (s_crypt sR') (s_crypt sI')"
      by (rule exI, rule exI, rule conjI, rule runR(1), rule conjI, rule runI(1))
        (simp add: runR(2-4) runI(2-4) keyed_def nonce_incd_def in_step_def)
  qed
qed

text \<open>
  (C1) Two honest ends agree. Let one run \<open>Peer_establish_receiver\<close> and the other
  \<open>Peer_establish_initiator\<close>, with a cipher whose decryption undoes encryption, key pairs that
  agree, sockets that deliver what is sent in pieces of any size, and callbacks that accept.
  Then there are two byte strings such that, when each end is delivered one of them, it sends
  the other, both return 1, nothing is left unread, each knows the other's name and public key,
  and their session keys and nonces are in step.
\<close>

theorem handshake_agrees:
  assumes L: "ltc_ok L" and io: "io_ok io v" "4096 \<le> v_cap v"
    and keys: "ecc_agree L a ea pa b eb pb" "length ea \<le> 1000" "length eb \<le> 1000"
    and R: "ready_end io v sR a nmR" and I: "ready_end io v sI b nmI"
    and cb: "accepts cbR" "accepts cbI"
  shows "\<exists>toI toR. \<forall>srcR srcI.
    src_ok io v srcR \<and> src_ok io v srcI \<and> src_in v srcR = toR \<and> src_in v srcI = toI \<longrightarrow>
      (\<exists>sR' sI'. Peer_establish_receiver L io cbR (sR\<lparr> s_source := srcR \<rparr>) = Some (Inr (True, sR')) \<and>
        Peer_establish_initiator L io cbI (sI\<lparr> s_source := srcI \<rparr>) = Some (Inr (True, sI')) \<and>
        src_sent v (s_source sR') = src_sent v srcR @ toI \<and> src_sent v (s_source sI') = src_sent v srcI @ toR \<and>
        src_in v (s_source sR') = [] \<and> src_in v (s_source sI') = [] \<and>
        cp_name (them sR') = Some nmI \<and> cp_key (them sR') = pb \<and>
        cp_name (them sI') = Some nmR \<and> cp_key (them sI') = pa \<and> in_step (s_crypt sR') (s_crypt sI'))"
proof (rule agreement_run [OF assms])
  fix toI toR assume run: "\<And>srcR srcI. src_ok io v srcR \<Longrightarrow> src_ok io v srcI \<Longrightarrow> src_in v srcR = toR \<Longrightarrow> src_in v srcI = toI \<Longrightarrow>
      \<exists>sR' sI'. Peer_establish_receiver L io cbR (sR\<lparr> s_source := srcR \<rparr>) = Some (Inr (True, sR')) \<and>
        Peer_establish_initiator L io cbI (sI\<lparr> s_source := srcI \<rparr>) = Some (Inr (True, sI')) \<and>
        src_sent v (s_source sR') = src_sent v srcR @ toI \<and> src_sent v (s_source sI') = src_sent v srcI @ toR \<and>
        \<not> s_errno sR' \<and> \<not> s_errno sI' \<and> src_ok io v (s_source sR') \<and> src_ok io v (s_source sI') \<and>
        src_in v (s_source sR') = [] \<and> src_in v (s_source sI') = [] \<and>
        cp_name (them sR') = Some nmI \<and> cp_key (them sR') = pb \<and>
        cp_name (them sI') = Some nmR \<and> cp_key (them sI') = pa \<and> in_step (s_crypt sR') (s_crypt sI')"
  show ?thesis
  proof (rule exI [of _ toI], rule exI [of _ toR], intro allI impI, elim conjE)
    fix srcR srcI assume "src_ok io v srcR" "src_ok io v srcI" "src_in v srcR = toR" "src_in v srcI = toI"
    from run [OF this] show "\<exists>sR' sI'. Peer_establish_receiver L io cbR (sR\<lparr> s_source := srcR \<rparr>) = Some (Inr (True, sR')) \<and>
        Peer_establish_initiator L io cbI (sI\<lparr> s_source := srcI \<rparr>) = Some (Inr (True, sI')) \<and>
        src_sent v (s_source sR') = src_sent v srcR @ toI \<and> src_sent v (s_source sI') = src_sent v srcI @ toR \<and>
        src_in v (s_source sR') = [] \<and> src_in v (s_source sI') = [] \<and>
        cp_name (them sR') = Some nmI \<and> cp_key (them sR') = pb \<and>
        cp_name (them sI') = Some nmR \<and> cp_key (them sI') = pa \<and> in_step (s_crypt sR') (s_crypt sI')"
      by (elim exE conjE) (intro exI conjI)
  qed
qed

section \<open>A library and a socket layer that do what is asked\<close>

definition plain_ltc :: ltc where
  "plain_ltc =
     \<lparr> fortuna_read = (\<lambda>n g. (replicate n (CHR 0x05), g)), ecc_make_key = (\<lambda>g n. (Some ''new'', g)),
       ecc_export = (\<lambda>type k. Some k), ecc_import = Some,
       ecc_shared_secret = (\<lambda>a b. Some (replicate 32 (CHR ''z''))), rijndael_setup = id,
       ccm_memory = (\<lambda>k n h p dir. (True, p, ''tag'')), hash_memory = Some,
       ecc_sign_hash = (\<lambda>h g k. (Some k, g)), ecc_verify_hash = (\<lambda>s h k. Some (s = k)),
       sizeof_symmetric_key = 4, sizeof_ecc_key = 4 \<rparr>"

text \<open>
  Buffers are strings of which the first 32768 bytes count; a socket is what it will deliver
  and what it was given.
\<close>

definition cut :: "string \<Rightarrow> string" where "cut b = take 32768 b"

definition plain_io :: "(string, string \<times> string) io" where
  "plain_io =
     \<lparr> isvalidsock = (\<lambda>fd. True), sbuf_create = (\<lambda>n. []), sbuf_data_avail = (\<lambda>b. length (cut b)),
       sbuf_space_avail = (\<lambda>b. 32768 - length (cut b)),
       sbuf_get_ntohs = (\<lambda>b. if length (cut b) < 2 then (False, 0, b)
         else (True, word_of_nat (256 * of_char (b ! 0) + of_char (b ! 1)), drop 2 (cut b))),
       sbuf_put_htons = (\<lambda>b w. (length (cut b) + 2 \<le> 32768, cut b @ be16 (unat w))),
       sbuf_read_bstr = (\<lambda>b n. if length (cut b) < n then (None, b) else (Some (take n b), drop n (cut b))),
       sbuf_write_bstr = (\<lambda>b x. (length (cut b) + length x \<le> 32768, cut b @ x)),
       io_read_sbuf = (\<lambda>er (i, out) b.
         let k = min (length i) (32768 - length (cut b)) in (0 < k, k, False, (drop k i, out), cut b @ take k i)),
       io_flush_sbuf = (\<lambda>er (i, out) b. (True, False, (i, out @ cut b), [])) \<rparr>"

definition plain_view :: "(string, string \<times> string) io_view" where
  "plain_view = \<lparr> v_buf = cut, v_cap = 32768, v_in = fst, v_out = snd \<rparr>"

lemma cut_simps [simp]: "cut [] = []" "length (cut b) \<le> 32768" "length b \<le> 32768 \<Longrightarrow> cut b = b" "cut (cut b) = cut b"
  by (simp_all add: cut_def)

lemma be16_word: "n < 2 ^ 16 \<Longrightarrow> 256 * of_char (char_of (n div 256)) + of_char (char_of n) = (n :: nat)"
  by simp

lemma plain_sbuf_ok: "sbuf_ok plain_io plain_view"
  unfolding sbuf_ok_def
proof (intro conjI allI impI)
  fix b :: string and n :: nat and rest assume n: "n < 2 ^ 16" and b: "v_buf plain_view b = be16 n @ rest"
  from b have "b ! 0 = char_of (n div 256)" "b ! 1 = char_of n"
    by (cases b; cases "tl b"; simp add: plain_view_def cut_def be16_def)+
  moreover have "length (cut b) = Suc (Suc (length rest))" "drop 2 (cut b) = rest"
    using b by (simp_all add: plain_view_def be16_def)
  moreover from this(1) have "length rest \<le> 32768" using cut_simps(2) [of b] by linarith
  ultimately show "\<exists>b'. sbuf_get_ntohs plain_io b = (True, word_of_nat n, b') \<and> v_buf plain_view b' = rest"
    using be16_word [OF n] by (intro exI [of _ "drop 2 (cut b)"]) (simp add: plain_io_def plain_view_def)
next
  fix b :: string and n :: nat assume n: "n < 2 ^ 16" and b: "length (v_buf plain_view b) + 2 \<le> v_cap plain_view"
  then show "\<exists>b'. sbuf_put_htons plain_io b (word_of_nat n) = (True, b') \<and> v_buf plain_view b' = v_buf plain_view b @ be16 n"
    using unat16 [OF n] by (simp add: plain_io_def plain_view_def be16_def)
next
  fix b :: string and n :: nat assume "n \<le> length (v_buf plain_view b)"
  then show "\<exists>b'. sbuf_read_bstr plain_io b n = (Some (take n (v_buf plain_view b)), b') \<and> v_buf plain_view b' = drop n (v_buf plain_view b)"
    by (simp add: plain_io_def plain_view_def cut_def min_def split: if_splits)
next
  fix b x :: string assume "length (v_buf plain_view b) + length x \<le> v_cap plain_view"
  then show "\<exists>b'. sbuf_write_bstr plain_io b x = (True, b') \<and> v_buf plain_view b' = v_buf plain_view b @ x"
    by (simp add: plain_io_def plain_view_def)
qed (simp_all add: plain_io_def plain_view_def)

lemma plain_sock_ok: "sock_ok plain_io plain_view"
  unfolding sock_ok_def
proof (intro conjI allI impI)
  fix fd :: "string \<times> string" and b :: string
  assume "v_in plain_view fd \<noteq> []" "length (v_buf plain_view b) < v_cap plain_view"
  then show "\<exists>k fd' b'. io_read_sbuf plain_io False fd b = (True, k, False, fd', b') \<and> 0 < k \<and>
      v_buf plain_view b' = v_buf plain_view b @ take k (v_in plain_view fd) \<and>
      v_in plain_view fd' = drop k (v_in plain_view fd) \<and>
      v_out plain_view fd' = v_out plain_view fd \<and> isvalidsock plain_io fd'"
    by (cases fd) (simp add: plain_io_def plain_view_def Let_def)
next
  fix fd :: "string \<times> string" and b :: string
  show "\<exists>fd' b'. io_flush_sbuf plain_io False fd b = (True, False, fd', b') \<and> v_buf plain_view b' = [] \<and>
      v_in plain_view fd' = v_in plain_view fd \<and> v_out plain_view fd' = v_out plain_view fd @ v_buf plain_view b \<and>
      isvalidsock plain_io fd'"
    by (cases fd) (simp add: plain_io_def plain_view_def)
qed

lemma plain_ok: "ltc_ok plain_ltc" "io_ok plain_io plain_view" "4096 \<le> v_cap plain_view"
  using plain_sbuf_ok plain_sock_ok by (simp_all add: ltc_ok_def plain_ltc_def io_ok_def plain_view_def)

definition plain_end :: "string \<Rightarrow> string \<Rightarrow> (string, string \<times> string, unit) sess" where
  "plain_end nm key =
     \<lparr> s_crypt = \<lparr> cs_me = (zero_peer plain_ltc)\<lparr> cp_name := Some nm, cp_key := key, cp_session := Some (replicate 32 (CHR ''s'')) \<rparr>,
         cs_them = zero_peer plain_ltc, cs_data = None, cs_shared = zero_skey plain_ltc \<rparr>,
       s_prng = [], s_errno = False, s_source = \<lparr> fs_out = [], fs_in = [], fs_fd = ([], []) \<rparr>, s_rest = () \<rparr>"

lemma plain_end_ready:
  "ready_end plain_io plain_view (plain_end ''hub'' ''hubkey'') ''hubkey'' ''hub''"
  "ready_end plain_io plain_view (plain_end ''zed'' ''zedkey'') ''zedkey'' ''zed''"
  by (simp_all add: ready_end_def plain_end_def src_ok_def plain_io_def plain_view_def ident_ok_def zero_peer_def NUL_def)

definition yes :: "'w confirm" where "yes C er w = Some (Inr (True, er, w))"

lemma yes_accepts: "accepts yes"
  by (simp add: accepts_def yes_def)

lemma handshake_agrees_witness:
  "\<exists>toI toR sR' sI'.
     Peer_establish_receiver plain_ltc plain_io yes
       ((plain_end ''hub'' ''hubkey'')\<lparr> s_source := \<lparr> fs_out = [], fs_in = [], fs_fd = (toR, []) \<rparr> \<rparr>) = Some (Inr (True, sR')) \<and>
     Peer_establish_initiator plain_ltc plain_io yes
       ((plain_end ''zed'' ''zedkey'')\<lparr> s_source := \<lparr> fs_out = [], fs_in = [], fs_fd = (toI, []) \<rparr> \<rparr>) = Some (Inr (True, sI')) \<and>
     cp_name (them sR') = Some ''zed'' \<and> cp_key (them sR') = ''zedkey'' \<and> in_step (s_crypt sR') (s_crypt sI')"
proof -
  have "ecc_agree plain_ltc ''hubkey'' ''hubkey'' ''hubkey'' ''zedkey'' ''zedkey'' ''zedkey''"
    by (simp add: ecc_agree_def plain_ltc_def)
  from handshake_agrees [OF plain_ok this _ _ plain_end_ready yes_accepts yes_accepts]
  obtain toI toR where run: "\<forall>srcR srcI.
    src_ok plain_io plain_view srcR \<and> src_ok plain_io plain_view srcI \<and> src_in plain_view srcR = toR \<and> src_in plain_view srcI = toI \<longrightarrow>
      (\<exists>sR' sI'. Peer_establish_receiver plain_ltc plain_io yes ((plain_end ''hub'' ''hubkey'')\<lparr> s_source := srcR \<rparr>) = Some (Inr (True, sR')) \<and>
        Peer_establish_initiator plain_ltc plain_io yes ((plain_end ''zed'' ''zedkey'')\<lparr> s_source := srcI \<rparr>) = Some (Inr (True, sI')) \<and>
        cp_name (them sR') = Some ''zed'' \<and> cp_key (them sR') = ''zedkey'' \<and> in_step (s_crypt sR') (s_crypt sI'))"
    by (auto; blast)
  have "src_ok plain_io plain_view \<lparr> fs_out = [], fs_in = [], fs_fd = (x, []) \<rparr>"
    "src_in plain_view \<lparr> fs_out = [], fs_in = [], fs_fd = (x, []) \<rparr> = x" for x
    by (simp_all add: src_ok_def src_in_def plain_io_def plain_view_def)
  with run [rule_format, of "\<lparr> fs_out = [], fs_in = [], fs_fd = (toR, []) \<rparr>" "\<lparr> fs_out = [], fs_in = [], fs_fd = (toI, []) \<rparr>"]
  show ?thesis by blast
qed

end
