(* ===== verification/Transport.thy ===== *)
theory Transport
  imports Agreement
begin

text \<open>
  Messages between two ends whose keys and nonces are in step (\<open>Peer_send\<close>, \<open>Peer_recv\<close>).
\<close>

section \<open>Sending and receiving\<close>

lemma peer_send_mk:
  assumes L: "ltc_ok L" and io: "io_ok io v" and src: "src_ok io v src"
    and len: "length (node_text h) + length (node_text p) + 102 \<le> v_cap v" "length (node_text h) + length (node_text p) + 100 < 2 ^ 16"
  obtains src' where
    "Peer_send L io (Some h) (Some p) (mk m t k d g src w) = Some (Inr (True, mk m (nonce_incd t) k d g src' w))"
    "src_ok io v src'" "src_in v src' = src_in v src"
    "src_sent v src' = src_sent v src @ frame_bytes (node_text h @ node_text (seal L (cp_skey t) (cp_nonce t) (node_text h) p))"
proof -
  define M where "M = seal L (cp_skey t) (cp_nonce t) (node_text h) p"
  have "length (node_text p) < 2 ^ 30" using len(2) by simp
  note M = seal_shape [OF L this, of "cp_skey t" "cp_nonce t" "node_text h", folded M_def]
  have 1: "CryptState_encrypt_node L (cp_skey t) (Some (node_text h)) (Some p) (mk m t k d g src w) =
      Some (Inr (Some M, mk m (nonce_incd t) k d g src w))"
    using encrypt_node_ok [OF L, of "mk m t k d g src w" "cp_skey t" "node_text h" p] by (simp add: M_def)
  obtain src' where 2: "FrameSource_send io (Some (node_text h)) (Some M) True (mk m (nonce_incd t) k d g src w) =
      Some (Inr (True, mk m (nonce_incd t) k d g src' w))"
    "src_ok io v src'" "src_in v src' = src_in v src" "src_sent v src' = src_sent v src @ frame_bytes (node_text h @ node_text M)"
    using send_frame [OF io, of "mk m (nonce_incd t) k d g src w" "node_text h" M] src len M(3) by auto
  have "Peer_send L io (Some h) (Some p) (mk m t k d g src w) = Some (Inr (True, mk m (nonce_incd t) k d g src' w))"
    using 1 2(1) by (simp add: Peer_send_def bindp_Some M(4) ret_def)
  with that 2(2-4) show thesis by (simp add: M_def)
qed

text \<open>Receiving any packet: what \<open>Peer_recv\<close> does with it depends on \<open>CryptState_decrypt_node\<close>.\<close>

lemma peer_recv_packet:
  assumes io: "io_ok io v" and src: "src_ok io v src"
    and h: "printable_root h" "nd_name h \<noteq> None" and q: "printable_root q" "nd_name q \<noteq> None"
    and len: "length (node_text h @ node_text q) \<le> v_cap v" "length (node_text h @ node_text q) < 2 ^ 16" "2 \<le> v_cap v"
    and bytes: "src_in v src = frame_bytes (node_text h @ node_text q) @ rest"
  obtains src' where
    "Peer_recv L io (mk m t k d g src w) =
      bindp (CryptState_decrypt_node L (cp_skey m) (Some (node_text h)) (Some q)) (\<lambda>(msg, freed).
        let out = bindp (destroy_packet freed (Some q)) (\<lambda>_. ret (msg, Some h))
        in check (msg \<noteq> None) out out) (mk m t k d g src' w)"
    "src_ok io v src'" "src_in v src' = rest" "src_sent v src' = src_sent v src"
proof -
  have "node_text h @ node_text q \<noteq> []" by (simp add: node_text_def)
  with recv_frame [OF io, of "mk m t k d g src w" "node_text h @ node_text q" rest] src len bytes
  obtain src' where 1: "FrameSource_recv io (mk m t k d g src w) =
      parse_frame (Some (node_text h @ node_text q)) (word_of_nat (length (node_text h @ node_text q))) (mk m t k d g src' w)"
    "src_ok io v src'" "src_in v src' = rest" "src_sent v src' = src_sent v src" by auto
  with parse_frame_pair [OF h q, of "mk m t k d g src' w"] len(2)
  have "FrameSource_recv io (mk m t k d g src w) =
      Some (Inr (\<lparr> rv_msg = Some q, rv_hbuf = Some (node_text h), rv_header = Some h \<rparr>, mk m t k d g src' w))" by simp
  then show thesis
    using that 1(2-4) by (simp add: Peer_recv_def bindp_Some)
qed

lemma peer_recv_mk:
  assumes L: "ltc_ok L" and io: "io_ok io v" and src: "src_ok io v src"
    and h: "printable_root h" "nd_name h \<noteq> None" and p: "printable_root p" "nd_name p \<noteq> None"
    and len: "length (node_text h) + length (node_text p) + 102 \<le> v_cap v" "length (node_text h) + length (node_text p) + 100 < 2 ^ 16"
    and bytes: "src_in v src = frame_bytes (node_text h @ node_text (seal L (cp_skey m) (cp_nonce m) (node_text h) p)) @ rest"
  obtains src' where
    "Peer_recv L io (mk m t k d g src w) = Some (Inr ((Some p, Some h), mk (nonce_incd m) t k d g src' w))"
    "src_ok io v src'" "src_in v src' = rest" "src_sent v src' = src_sent v src"
proof -
  define M where "M = seal L (cp_skey m) (cp_nonce m) (node_text h) p"
  have short: "length (node_text p) < 2 ^ 30" using len(2) by simp
  note M = seal_shape [OF L short, of "cp_skey m" "cp_nonce m" "node_text h", folded M_def]
  have lens: "length (node_text h @ node_text M) \<le> v_cap v" "length (node_text h @ node_text M) < 2 ^ 16" "2 \<le> v_cap v"
    using len M(3) by simp_all
  obtain src' where 1: "Peer_recv L io (mk m t k d g src w) =
      bindp (CryptState_decrypt_node L (cp_skey m) (Some (node_text h)) (Some M)) (\<lambda>(msg, freed).
        let out = bindp (destroy_packet freed (Some M)) (\<lambda>_. ret (msg, Some h))
        in check (msg \<noteq> None) out out) (mk m t k d g src' w)"
    "src_ok io v src'" "src_in v src' = rest" "src_sent v src' = src_sent v src"
    by (rule peer_recv_packet [OF io src h M(1,2) lens, of rest L m t k d g w]) (simp_all add: bytes M_def)
  have "CryptState_decrypt_node L (cp_skey m) (Some (node_text h)) (Some M) (mk m t k d g src' w) =
      Some (Inr ((Some p, False), mk (nonce_incd m) t k d g src' w))"
    using decrypt_node_ok [OF L, of "cp_nonce m" "mk m t k d g src' w" p "cp_skey m" "node_text h"] p short by (simp add: M_def)
  with 1 that show thesis by (simp add: bindp_Some Let_def M(5) ret_def)
qed

text \<open>
  (C2) Between two ends that are in step a message arrives as it was sent: \<open>Peer_send\<close> of a
  header and a payload that can be printed and fit a frame returns 1, and \<open>Peer_recv\<close> of the
  other end, given the bytes it sent, returns the same header and payload and leaves what
  follows unread. The two ends are in step again.
\<close>

theorem session_transport:
  fixes A B :: "('b, 'n, 'w) sess"
  assumes L: "ltc_ok L" and io: "io_ok io v"
    and A: "\<not> s_errno A" "src_ok io v (s_source A)" and B: "\<not> s_errno B"
    and sync: "in_step (s_crypt A) (s_crypt B)"
    and h: "printable_root h" "nd_name h \<noteq> None" and p: "printable_root p" "nd_name p \<noteq> None"
    and len: "length (node_text h) + length (node_text p) + 102 \<le> v_cap v" "length (node_text h) + length (node_text p) + 100 < 2 ^ 16"
  shows "\<exists>A' bytes. Peer_send L io (Some h) (Some p) A = Some (Inr (True, A')) \<and>
    src_sent v (s_source A') = src_sent v (s_source A) @ bytes \<and>
    (\<forall>src. src_ok io v src \<and> src_in v src = bytes @ rest \<longrightarrow>
      (\<exists>B'. Peer_recv L io (B\<lparr> s_source := src \<rparr>) = Some (Inr ((Some p, Some h), B')) \<and>
        src_in v (s_source B') = rest \<and> in_step (s_crypt A') (s_crypt B')))"
proof -
  define bytes where "bytes = frame_bytes (node_text h @ node_text (seal L (cp_skey (them A)) (cp_nonce (them A)) (node_text h) p))"
  have mkA: "A = mk (me A) (them A) (cs_shared (s_crypt A)) (cs_data (s_crypt A)) (s_prng A) (s_source A) (s_rest A)"
    by (rule sess_is_mk [OF A(1)])
  have mkB: "B\<lparr> s_source := src \<rparr> =
      mk (me B) (them B) (cs_shared (s_crypt B)) (cs_data (s_crypt B)) (s_prng B) src (s_rest B)" for src
    using sess_is_mk [OF B] by (metis mk_simps(9))
  define A' where "A' src = mk (me A) (nonce_incd (them A)) (cs_shared (s_crypt A)) (cs_data (s_crypt A)) (s_prng A) src (s_rest A)" for src :: "('b, 'n) FrameSource"
  define B' where "B' src = mk (nonce_incd (me B)) (them B) (cs_shared (s_crypt B)) (cs_data (s_crypt B)) (s_prng B) src (s_rest B)" for src :: "('b, 'n) FrameSource"
  obtain srcA where sA: "Peer_send L io (Some h) (Some p) A = Some (Inr (True, A' srcA))"
    "src_sent v srcA = src_sent v (s_source A) @ bytes"
    by (rule peer_send_mk [OF L io A(2) len, where m = "me A" and t = "them A" and k = "cs_shared (s_crypt A)" and
        d = "cs_data (s_crypt A)" and g = "s_prng A" and w = "s_rest A", folded mkA A'_def bytes_def])
  have recv: "\<exists>srcB. Peer_recv L io (B\<lparr> s_source := src \<rparr>) = Some (Inr ((Some p, Some h), B' srcB)) \<and> src_in v srcB = rest"
    if src: "src_ok io v src" and "in": "src_in v src = bytes @ rest" for src
  proof -
    have "src_in v src = frame_bytes (node_text h @ node_text (seal L (cp_skey (me B)) (cp_nonce (me B)) (node_text h) p)) @ rest"
      using "in" sync by (simp add: bytes_def in_step_def)
    then show ?thesis
      by (rule peer_recv_mk [OF L io src h p len, where m = "me B" and t = "them B" and k = "cs_shared (s_crypt B)" and
          d = "cs_data (s_crypt B)" and g = "s_prng B" and w = "s_rest B", folded mkB B'_def]) auto
  qed
  have step: "in_step (s_crypt (A' srcA)) (s_crypt (B' srcB))" for srcB
    using sync by (simp add: in_step_def A'_def B'_def nonce_incd_def)
  have srcs: "s_source (A' src) = src" "s_source (B' src) = src" for src by (simp_all add: A'_def B'_def)
  show ?thesis
  proof (rule exI [of _ "A' srcA"], rule exI [of _ bytes], intro conjI allI impI)
    fix src assume "src_ok io v src \<and> src_in v src = bytes @ rest"
    then obtain srcB where "Peer_recv L io (B\<lparr> s_source := src \<rparr>) = Some (Inr ((Some p, Some h), B' srcB))" "src_in v srcB = rest"
      using recv by blast
    with step [of srcB] show "\<exists>B'. Peer_recv L io (B\<lparr> s_source := src \<rparr>) = Some (Inr ((Some p, Some h), B')) \<and>
        src_in v (s_source B') = rest \<and> in_step (s_crypt (A' srcA)) (s_crypt B')"
      by (intro exI [of _ "B' srcB"] conjI) (simp_all add: srcs)
  qed (simp_all add: sA srcs)
qed

definition sample_header :: node where "sample_header = flat ''header'' [LNumber 1]"

definition sample_payload :: node where "sample_payload = flat ''init'' [LString ''hi'']"

lemma sample_nodes:
  "printable_root sample_header" "nd_name sample_header \<noteq> None" "length (node_text sample_header) \<le> 31"
  "printable_root sample_payload" "nd_name sample_payload \<noteq> None" "length (node_text sample_payload) \<le> 13"
  using flat_printable [OF short_words(1), of "[LNumber 1]"] flat_text_length [OF short_words(1), of "[LNumber 1]"]
    flat_printable [OF short_words(2), of "[LString ''hi'']"] flat_text_length [OF short_words(2), of "[LString ''hi'']"]
  by (simp_all add: sample_header_def sample_payload_def NUL_def)

definition plain_source :: "string \<Rightarrow> (string, string \<times> string) FrameSource" where
  "plain_source bytes = \<lparr> fs_out = [], fs_in = [], fs_fd = (bytes, []) \<rparr>"

lemma plain_source_ok:
  "src_ok plain_io plain_view (plain_source bytes)" "src_in plain_view (plain_source bytes) = bytes"
  by (simp_all add: plain_source_def src_ok_def src_in_def plain_io_def plain_view_def)

lemma session_transport_witness:
  "\<exists>bytes A' B'. Peer_send plain_ltc plain_io (Some sample_header) (Some sample_payload) (plain_end ''hub'' ''hubkey'') =
      Some (Inr (True, A')) \<and>
    Peer_recv plain_ltc plain_io ((plain_end ''zed'' ''zedkey'')\<lparr> s_source := plain_source bytes \<rparr>) =
      Some (Inr ((Some sample_payload, Some sample_header), B')) \<and> in_step (s_crypt A') (s_crypt B')"
proof -
  have ends: "\<not> s_errno (plain_end nm k)" "src_ok plain_io plain_view (s_source (plain_end nm k))"
    "in_step (s_crypt (plain_end nm k)) (s_crypt (plain_end nm' k'))" for nm k nm' k'
    by (simp_all add: plain_end_def src_ok_def plain_io_def plain_view_def in_step_def zero_peer_def)
  have len: "length (node_text sample_header) + length (node_text sample_payload) + 102 \<le> v_cap plain_view"
    "length (node_text sample_header) + length (node_text sample_payload) + 100 < 2 ^ 16"
    using sample_nodes(3,6) by (simp_all add: plain_view_def)
  from session_transport [OF plain_ok(1,2) ends(1,2) [of "''hub''" "''hubkey''"] ends(1) [of "''zed''" "''zedkey''"] ends(3)
      sample_nodes(1,2,4,5) len, of "[]"]
  obtain A' bytes where
    1: "Peer_send plain_ltc plain_io (Some sample_header) (Some sample_payload) (plain_end ''hub'' ''hubkey'') = Some (Inr (True, A'))"
    and 2: "\<forall>src. src_ok plain_io plain_view src \<and> src_in plain_view src = bytes @ [] \<longrightarrow>
      (\<exists>B'. Peer_recv plain_ltc plain_io ((plain_end ''zed'' ''zedkey'')\<lparr> s_source := src \<rparr>) =
          Some (Inr ((Some sample_payload, Some sample_header), B')) \<and>
        src_in plain_view (s_source B') = [] \<and> in_step (s_crypt A') (s_crypt B'))"
    by blast
  from 2 [rule_format, of "plain_source bytes"] obtain B' where
    "Peer_recv plain_ltc plain_io ((plain_end ''zed'' ''zedkey'')\<lparr> s_source := plain_source bytes \<rparr>) =
      Some (Inr ((Some sample_payload, Some sample_header), B'))" "in_step (s_crypt A') (s_crypt B')"
    by (auto simp: plain_source_ok)
  with 1 show ?thesis by blast
qed

end
