(* ===== verification/Forgery.thy ===== *)
theory Forgery
  imports Transport
begin

text \<open>
  What the receiving end does with packets no honest end made. \<open>CryptState_decrypt_packet\<close>
  returns the payload \<open>Node_decons\<close> stored even when the packet is not an envelope, and
  \<open>Peer_establish_receiver\<close> returns 1 when the last message of an agreement cannot be read.
  Together they let anyone who knows a public key be taken for its owner.
\<close>

section \<open>A packet that is not an envelope\<close>

definition open_packet :: "node \<Rightarrow> node" where
  "open_packet p = flat ''open'' [LBlob (node_text p), LBlob []]"

lemma open_packet_shape:
  assumes "length (node_text p) < 2 ^ 30"
  shows "printable_root (open_packet p)" "nd_name (open_packet p) \<noteq> None"
    "length (node_text (open_packet p)) \<le> length (node_text p) + 100"
    "destroy_packet False (Some (open_packet p)) = ret ()"
proof -
  have w: "word_name ''open''" by code_simp
  show "printable_root (open_packet p)" "nd_name (open_packet p) \<noteq> None"
    "destroy_packet False (Some (open_packet p)) = ret ()"
    using flat_printable [OF w] by (simp_all add: open_packet_def flat_destroy_packet)
  show "length (node_text (open_packet p)) \<le> length (node_text p) + 100"
    using flat_text_length [OF w, of "[LBlob (node_text p), LBlob []]"] assms by (simp add: open_packet_def)
qed

lemma decons_open:
  assumes "\<not> s_errno s"
  shows "decons (Some (open_packet p)) False ''[bbw'' [DStr, DStr, DWord ''env''] s =
    Some (Inr ((False, [OStr (Some []), OStr (Some (node_text p))]), s))"
  using assms by (simp add: decons_def open_packet_def flat_def root_cursor_def Node_decons_def Node_decons_written_def
      decons_step.simps name_is_def cstr_id [OF NUL_names(1)] Let_def)

lemma decrypt_open:
  assumes p: "printable_root p" "nd_name p \<noteq> None" "length (node_text p) < 2 ^ 31" and er: "\<not> s_errno s"
  shows "CryptState_decrypt_node L key (Some h) (Some (open_packet p)) s = Some (Inr ((Some p, False), s))"
proof -
  have ne: "node_text p \<noteq> []" by (simp add: node_text_def)
  have "CryptState_decrypt_packet L key (Some h) (Some (open_packet p)) s = Some (Inr ((Some (node_text p), False), s))"
    using er by (simp add: CryptState_decrypt_packet_def crypt_names bindp_Some decons_open out_str_def Let_def ret_def)
  with er ne parse_text [OF p(1,2) er p(3)] show ?thesis
    by (simp add: CryptState_decrypt_node_def bindp_Some ret_def)
qed


section \<open>An agreement without a key\<close>

text \<open>
  The three frames: a greeting in the clear under the public key \<open>e\<close>, a header alone where the
  last message of the agreement is due, and a message in the clear. They are made from the
  public key, the name to be known by and the message to be delivered.
\<close>

definition some_session :: string where "some_session = replicate 32 (CHR ''s'')"

definition forged_greeting :: "string \<Rightarrow> node" where
  "forged_greeting nm = greeting nm some_session \<lparr> n_left = 0, n_right = 0 \<rparr>"

definition forged_start :: "string \<Rightarrow> string \<Rightarrow> string" where
  "forged_start e nm = frame_bytes (node_text (key_header e) @ node_text (open_packet (forged_greeting nm)))"

definition forged_end :: "string \<Rightarrow> string" where
  "forged_end e = frame_bytes (node_text (key_header e))"

definition forged_message :: "string \<Rightarrow> node \<Rightarrow> string" where
  "forged_message e q = frame_bytes (node_text (key_header e) @ node_text (open_packet q))"

definition name_ok :: "string \<Rightarrow> bool" where
  "name_ok nm \<longleftrightarrow> CHR 0x22 \<notin> set nm \<and> NUL \<notin> set nm \<and> length nm \<le> 1000"

lemma forged_greeting_ok:
  assumes "name_ok nm"
  shows "printable_root (forged_greeting nm)" "nd_name (forged_greeting nm) \<noteq> None" "length (node_text (forged_greeting nm)) \<le> 1200"
proof -
  have "ident_ok ((undefined :: CryptPeer)\<lparr> cp_name := Some nm, cp_session := Some some_session, cp_freed := (False, False) \<rparr>) nm some_session"
    using assms by (simp add: ident_ok_def name_ok_def some_session_def)
  from greeting_ok [OF this] show "printable_root (forged_greeting nm)" "nd_name (forged_greeting nm) \<noteq> None"
    "length (node_text (forged_greeting nm)) \<le> 1200"
    by (simp_all add: forged_greeting_def)
qed

lemma receiver_process_open:
  assumes cb: "accepts cb" and e: "ecc_import L e = Some p" "length e \<le> 1000"
    and z: "ecc_shared_secret L (cp_key m) p = Some z" "rijndael_setup L (Some z) = Some k'"
    and nm: "name_ok nm"
  obtains w' where
    "CryptState_receiver_process_response L (Some (node_text (key_header e))) (Some (open_packet (forged_greeting nm))) cb (mk m t k d g src w) =
      Some (Inr ((True, False), mk m (t\<lparr> cp_key := p, cp_nonce := \<lparr> n_left = 0, n_right = 0 \<rparr>, cp_session := Some some_session,
        cp_name := Some nm, cp_freed := (False, False) \<rparr>) k' d g src w'))"
proof -
  define H where "H = key_header e"
  obtain w' where w': "CryptState_create_shared_key L (Some H) False cb (mk m t k d g src w) =
      Some (Inr (True, mk m (t\<lparr> cp_key := p \<rparr>) k' d g src w'))"
    using shared_key_mk(1) [OF cb e(1) z] unfolding H_def key_header_def by blast
  have H: "printable_root H" "nd_name H \<noteq> None" "length (node_text H) \<le> 1200" "destroy (Some H) = ret ()"
    unfolding H_def by (intro headers_ok [OF e(2)])+
  have 1: "parse (Some (node_text H)) (mk m t k d g src w) = Some (Inr (Some H, mk m t k d g src w))"
    using H by (intro parse_text) simp_all
  define s2 where "s2 = mk m (t\<lparr> cp_key := p \<rparr>) k' d g src w'"
  have s2: "\<not> s_errno s2" "cs_shared (s_crypt s2) = k'" by (simp_all add: s2_def)
  define G where "G = forged_greeting nm"
  have 2: "CryptState_decrypt_node L k' (Some (node_text H)) (Some (open_packet G)) s2 = Some (Inr ((Some G, False), s2))"
    using forged_greeting_ok [OF nm] s2(1) unfolding G_def by (intro decrypt_open) simp_all
  have 3: "decons (Some G) True ''[nnbsw'' [DNumber, DNumber, DStr, DStr, DWord ''init''] s2 =
      Some (Inr ((True, [ONumber 0, ONumber 0, OStr (Some some_session), OStr (Some nm)]), s2))"
    using decons_flat [OF NUL_names(3) s2(1), of "[LString nm, LBlob some_session, LNumber 0, LNumber 0]" True]
    by (simp add: G_def forged_greeting_def greeting_def)
  have 4: "destroy (Some G) = ret ()" by (simp add: G_def forged_greeting_def greeting_def flat_destroy)
  have "CryptState_receiver_process_response L (Some (node_text H)) (Some (open_packet G)) cb (mk m t k d g src w) =
      Some (Inr ((True, False), mk m (t\<lparr> cp_key := p, cp_nonce := \<lparr> n_left = 0, n_right = 0 \<rparr>, cp_session := Some some_session,
        cp_name := Some nm, cp_freed := (False, False) \<rparr>) k' d g src w'))"
    using 1 w' 2 3 s2 unfolding s2_def [symmetric]
    by (simp add: CryptState_receiver_process_response_def step_simps ident_outs H(4) 4) (simp add: s2_def)
  with that show thesis by (simp add: H_def G_def)
qed

text \<open>The agreement with the first two frames.\<close>

lemma establish_forged:
  assumes L: "ltc_ok L" and cb: "accepts cb" and io: "io_ok io v" "4096 \<le> v_cap v" and src: "src_ok io v src"
    and own: "ecc_export L PK_PUBLIC (cp_key m) = Some e" "length e \<le> 1000"
    and their: "ecc_import L e' = Some p" "length e' \<le> 1000"
    and z: "ecc_shared_secret L (cp_key m) p = Some z" "rijndael_setup L (Some z) = Some k'"
    and ids: "ident_ok m nm x" "name_ok nm'"
    and bytes: "src_in v src = forged_start e' nm' @ forged_end e' @ rest"
  obtains m' t' k'' g' src' w' where
    "Peer_establish_receiver L io cb (mk m t k d g src w) = Some (Inr (True, mk m' t' k'' d g' src' w'))"
    "cp_name t' = Some nm'" "cp_key t' = p" "src_ok io v src'" "src_in v src' = rest"
proof -
  define N1 NI N2 where "N1 = fresh_nonce L g" and "NI = \<lparr> n_left = 0, n_right = 0 :: 64 word \<rparr>" and "N2 = fresh_nonce L (next_prng L g)"
  define t2 where "t2 = t\<lparr> cp_key := p, cp_nonce := NI, cp_session := Some some_session, cp_name := Some nm', cp_freed := (False, False) \<rparr>"
  define g1 g2 where "g1 = next_prng L g" and "g2 = next_prng L g1"
  define H where "H = key_header e'"
  define M2 where "M2 = open_packet (forged_greeting nm')"
  define M3 where "M3 = seal L k' NI empty_header (reply nm x NI N2)"
  define m1 where "m1 = m\<lparr> cp_nonce := N1 \<rparr>"
  have "length (node_text (forged_greeting nm')) < 2 ^ 30" using forged_greeting_ok(3) [OF ids(2)] by simp
  from open_packet_shape [OF this] forged_greeting_ok(3) [OF ids(2)]
  have M2: "printable_root M2" "nd_name M2 \<noteq> None" "length (node_text M2) \<le> 1300" "destroy_packet False (Some M2) = ret ()"
    by (simp_all add: M2_def)
  have M3: "length (node_text M3) \<le> 1300" "destroy (Some M3) = ret ()"
    unfolding M3_def using reply_ok [OF ids(1)] by (intro seal_ok [OF L]; simp)+
  have H: "printable_root H" "nd_name H \<noteq> None" "length (node_text H) \<le> 1200" "destroy (Some H) = ret ()"
    unfolding H_def by (intro headers_ok [OF their(2)])+
  have h: "length (node_text (hello N1 e)) \<le> 1200" "destroy (Some (hello N1 e)) = ret ()"
    by (intro headers_ok [OF own(2)])+
  have 1: "CryptState_receiver_start L (mk m t k d g src w) = Some (Inr (Some (hello N1 e), mk m1 t k d g1 src w))"
    by (simp add: receiver_start_mk [OF L own(1)] N1_def g1_def m1_def)
  obtain src2 where 2: "FrameSource_send io (Some []) (Some (hello N1 e)) True (mk m1 t k d g1 src w) =
      Some (Inr (True, mk m1 t k d g1 src2 w))"
    "src_ok io v src2" "src_in v src2 = src_in v src"
    by (rule send_mk [OF io(1) src io(2), of "[]" "hello N1 e"]) (use h(1) in simp_all)
  obtain src3 where 3: "FrameSource_recv io (mk m1 t k d g1 src2 w) =
      Some (Inr (\<lparr> rv_msg = Some M2, rv_hbuf = Some (node_text H), rv_header = Some H \<rparr>, mk m1 t k d g1 src3 w))"
    "src_ok io v src3" "src_in v src3 = forged_end e' @ rest"
    by (rule recv_pair_mk [OF io(1) 2(2) _ io(2) H(1-3) M2(1-3), of "forged_end e' @ rest"])
      (simp_all add: 2(3) bytes forged_start_def H_def M2_def)
  obtain w4 where 4: "CryptState_receiver_process_response L (Some (node_text H)) (Some M2) cb (mk m1 t k d g1 src3 w) =
      Some (Inr ((True, False), mk m1 t2 k' d g1 src3 w4))"
    by (rule receiver_process_open [OF cb their _ z(2) ids(2), of m1])
      (use z(1) in \<open>simp_all add: H_def M2_def t2_def NI_def m1_def\<close>)
  have id4: "ident_ok m1 nm x" using ids(1) by (simp add: ident_ok_def m1_def)
  have 5: "CryptState_receiver_send_final L (mk m1 t2 k' d g1 src3 w4) =
      Some (Inr ((Some M3, Some empty_header), mk (m\<lparr> cp_nonce := N2 \<rparr>) (nonce_incd t2) k' d g2 src3 w4))"
    using receiver_send_final_mk [OF L id4, of t2 k' d g1 src3 w4] by (simp add: N2_def g1_def g2_def M3_def t2_def) (simp add: m1_def)
  obtain src6 where 6: "FrameSource_send io (Some empty_header) (Some M3) True (mk (m\<lparr> cp_nonce := N2 \<rparr>) (nonce_incd t2) k' d g2 src3 w4) =
      Some (Inr (True, mk (m\<lparr> cp_nonce := N2 \<rparr>) (nonce_incd t2) k' d g2 src6 w4))"
    "src_ok io v src6" "src_in v src6 = src_in v src3"
    by (rule send_mk [OF io(1) 3(2) io(2), of empty_header M3]) (use M3(1) no_header_ok(3,5) in simp_all)
  have "length (node_text H) \<le> 1300" using H(3) by simp
  then obtain src7 where 7: "FrameSource_recv io (mk (m\<lparr> cp_nonce := N2 \<rparr>) (nonce_incd t2) k' d g2 src6 w4) =
      Some (Inr (\<lparr> rv_msg = None, rv_hbuf = Some (node_text H), rv_header = Some H \<rparr>,
        mk (m\<lparr> cp_nonce := N2 \<rparr>) (nonce_incd t2) k' d g2 src7 w4))"
    "src_ok io v src7" "src_in v src7 = rest"
    by (rule recv_single_mk [OF io(1) 6(2) _ io(2) H(1,2), of rest, rotated]) (simp_all add: 6(3) 3(3) forged_end_def H_def)
  have "Peer_establish_receiver L io cb (mk m t k d g src w) =
      Some (Inr (True, mk (m\<lparr> cp_nonce := N2 \<rparr>) (nonce_incd t2) k' d g2 src7 w4))"
    using 1 2(1) 3(1) 4 5 6(1) 7(1)
    by (simp add: Peer_establish_receiver_def bindp_Some Let_def h(2) H(4) M2(4) M3(2) ret_def)
  from that [OF this _ _ 7(2,3)] show thesis by (simp add: t2_def nonce_incd_def)
qed


text \<open>
  (C10) Anyone who knows a public key is taken for its owner. A receiver that is delivered
  \<open>forged_start\<close> and \<open>forged_end\<close>, which are made from the public key \<open>e\<close> and any name alone,
  returns 1 from \<open>Peer_establish_receiver\<close> and holds that name and that key for the other end;
  the next \<open>Peer_recv\<close> then returns a message that was sent in the clear.
\<close>

theorem receiver_impersonated:
  assumes L: "ltc_ok L" and cb: "accepts cb" and io: "io_ok io v" "4096 \<le> v_cap v"
    and R: "ready_end io v s a nm" and own: "ecc_export L PK_PUBLIC a = Some ea" "length ea \<le> 1000"
    and their: "ecc_import L e = Some p" "length e \<le> 1000"
    and z: "ecc_shared_secret L a p = Some z" "length z = 32" and nm': "name_ok nm'"
    and q: "printable_root q" "nd_name q \<noteq> None" "length (node_text q) \<le> 1200"
    and bytes: "src_in v (s_source s) = forged_start e nm' @ forged_end e @ forged_message e q @ rest"
  shows "\<exists>s' s''. Peer_establish_receiver L io cb s = Some (Inr (True, s')) \<and>
    cp_name (them s') = Some nm' \<and> cp_key (them s') = p \<and>
    Peer_recv L io s' = Some (Inr ((Some q, Some (key_header e)), s'')) \<and> src_in v (s_source s'') = rest"
proof -
  obtain x where R': "\<not> s_errno s" "src_ok io v (s_source s)" "cp_key (me s) = a" "ident_ok (me s) nm x"
    using R by (auto simp: ready_end_def)
  obtain k' where k': "rijndael_setup L (Some z) = Some k'" using L z(2) unfolding ltc_ok_def by blast
  have mk: "s = mk (me s) (them s) (cs_shared (s_crypt s)) (cs_data (s_crypt s)) (s_prng s) (s_source s) (s_rest s)"
    by (rule sess_is_mk [OF R'(1)])
  obtain m1 t1 k1 g1 src1 w1 where 1: "Peer_establish_receiver L io cb s = Some (Inr (True, mk m1 t1 k1 (cs_data (s_crypt s)) g1 src1 w1))"
    "cp_name t1 = Some nm'" "cp_key t1 = p" "src_ok io v src1" "src_in v src1 = forged_message e q @ rest"
    by (rule establish_forged [OF L cb io R'(2) own(1) [folded R'(3)] own(2) their z(1) [folded R'(3)] k' R'(4) nm' bytes,
        where t = "them s" and k = "cs_shared (s_crypt s)" and d = "cs_data (s_crypt s)" and g = "s_prng s" and w = "s_rest s",
        folded mk])
  have q2: "length (node_text q) < 2 ^ 30" using q(3) by simp
  note Q = open_packet_shape [OF q2]
  note H = headers_ok [OF their(2)]
  have len: "length (node_text (key_header e) @ node_text (open_packet q)) \<le> v_cap v"
    "length (node_text (key_header e) @ node_text (open_packet q)) < 2 ^ 16" "2 \<le> v_cap v"
    using H(3) Q(3) q(3) io(2) by simp_all
  obtain src2 where 2: "Peer_recv L io (mk m1 t1 k1 (cs_data (s_crypt s)) g1 src1 w1) =
      bindp (CryptState_decrypt_node L (cp_skey m1) (Some (node_text (key_header e))) (Some (open_packet q))) (\<lambda>(msg, freed).
        let out = bindp (destroy_packet freed (Some (open_packet q))) (\<lambda>_. ret (msg, Some (key_header e)))
        in check (msg \<noteq> None) out out) (mk m1 t1 k1 (cs_data (s_crypt s)) g1 src2 w1)"
    "src_in v src2 = rest"
    by (rule peer_recv_packet [OF io(1) 1(4) H(1,2) Q(1,2) len 1(5) [unfolded forged_message_def]])
  have "CryptState_decrypt_node L (cp_skey m1) (Some (node_text (key_header e))) (Some (open_packet q))
      (mk m1 t1 k1 (cs_data (s_crypt s)) g1 src2 w1) = Some (Inr ((Some q, False), mk m1 t1 k1 (cs_data (s_crypt s)) g1 src2 w1))"
    by (rule decrypt_open [OF q(1,2)]) (use q(3) in simp_all)
  then have "Peer_recv L io (mk m1 t1 k1 (cs_data (s_crypt s)) g1 src1 w1) =
      Some (Inr ((Some q, Some (key_header e)), mk m1 t1 k1 (cs_data (s_crypt s)) g1 src2 w1))"
    by (simp add: 2(1) bindp_Some Let_def Q(4) ret_def)
  with 1 2(2) show ?thesis
    by (intro exI [of _ "mk m1 t1 k1 (cs_data (s_crypt s)) g1 src1 w1"] exI [of _ "mk m1 t1 k1 (cs_data (s_crypt s)) g1 src2 w1"]) simp
qed

definition forged_input :: string where
  "forged_input = forged_start ''zedkey'' ''zed'' @ forged_end ''zedkey'' @ forged_message ''zedkey'' sample_payload @ []"

lemma receiver_impersonated_witness:
  "\<exists>s' s''. Peer_establish_receiver plain_ltc plain_io yes ((plain_end ''hub'' ''hubkey'')\<lparr> s_source := plain_source forged_input \<rparr>) =
      Some (Inr (True, s')) \<and> cp_name (them s') = Some ''zed'' \<and> cp_key (them s') = ''zedkey'' \<and>
    Peer_recv plain_ltc plain_io s' = Some (Inr ((Some sample_payload, Some (key_header ''zedkey'')), s''))"
proof -
  define s where "s = (plain_end ''hub'' ''hubkey'')\<lparr> s_source := plain_source forged_input \<rparr>"
  have R: "ready_end plain_io plain_view s ''hubkey'' ''hub''"
    using plain_end_ready(1) plain_source_ok(1) [of forged_input] by (simp add: ready_end_def s_def)
  have L: "ecc_export plain_ltc PK_PUBLIC ''hubkey'' = Some ''hubkey''" "length ''hubkey'' \<le> 1000"
    "ecc_import plain_ltc ''zedkey'' = Some ''zedkey''" "length ''zedkey'' \<le> 1000"
    "ecc_shared_secret plain_ltc ''hubkey'' ''zedkey'' = Some (replicate 32 (CHR ''z''))" "length (replicate 32 (CHR ''z'')) = 32"
    by (simp_all add: plain_ltc_def)
  have "name_ok ''zed''" "length (node_text sample_payload) \<le> 1200"
    "src_in plain_view (s_source s) = forged_start ''zedkey'' ''zed'' @ forged_end ''zedkey'' @ forged_message ''zedkey'' sample_payload @ []"
    using sample_nodes(6) plain_source_ok(2) by (simp_all add: name_ok_def NUL_def s_def forged_input_def)
  from receiver_impersonated [OF plain_ok(1) yes_accepts plain_ok(2,3) R L this(1) sample_nodes(4,5) this(2,3)]
  show ?thesis unfolding s_def by blast
qed

text \<open>
  (C31) An altered message destroys its payload twice. When the tag of an envelope is not the
  one the cipher computes, \<open>CryptState_decrypt_packet\<close> destroys the payload, which the packet
  still holds, and \<open>Peer_recv\<close> then destroys the packet.
\<close>

theorem altered_message_freed_twice:
  fixes s :: "('b, 'n, 'w) sess"
  assumes io: "io_ok io v" and s: "\<not> s_errno s" "src_ok io v (s_source s)"
    and h: "printable_root h" "nd_name h \<noteq> None"
    and tag: "ccm_memory L (cp_skey (me s)) (nonce_raw (cp_nonce (me s))) (node_text h) c CCM_DECRYPT = (True, b, t')" "t \<noteq> t'"
    and len: "length (node_text h @ node_text (env c t)) \<le> v_cap v" "length (node_text h @ node_text (env c t)) < 2 ^ 16" "2 \<le> v_cap v"
    and bytes: "src_in v (s_source s) = frame_bytes (node_text h @ node_text (env c t)) @ rest"
  shows "Peer_recv L io s = Some (Inl Dangling)"
proof -
  have mk: "s = mk (me s) (them s) (cs_shared (s_crypt s)) (cs_data (s_crypt s)) (s_prng s) (s_source s) (s_rest s)"
    by (rule sess_is_mk [OF s(1)])
  have E: "printable_root (env c t)" "nd_name (env c t) \<noteq> None" "destroy (Some (env c t)) = ret ()"
    using flat_printable [OF short_words(4)] by (simp_all add: env_def flat_destroy)
  define S where "S src = mk (me s) (them s) (cs_shared (s_crypt s)) (cs_data (s_crypt s)) (s_prng s) src (s_rest s)" for src :: "('b, 'n) FrameSource"
  obtain src' where 1: "Peer_recv L io s =
      bindp (CryptState_decrypt_node L (cp_skey (me s)) (Some (node_text h)) (Some (env c t))) (\<lambda>(msg, freed).
        let out = bindp (destroy_packet freed (Some (env c t))) (\<lambda>_. ret (msg, Some h))
        in check (msg \<noteq> None) out out) (S src')"
    by (rule peer_recv_packet [OF io s(2) h E(1,2) len bytes, where m = "me s" and t = "them s" and k = "cs_shared (s_crypt s)" and
        d = "cs_data (s_crypt s)" and g = "s_prng s" and w = "s_rest s", folded mk, folded S_def])
  have "CryptState_decrypt_packet L (cp_skey (me s)) (Some (node_text h)) (Some (env c t)) (S src') =
      Some (Inr ((None, True), upd_me nonce_incd (S src')))"
    using tag by (simp add: CryptState_decrypt_packet_def crypt_names bindp_Some decons_env out_str_def Let_def
        nonce_incd_def [abs_def] ret_def S_def)
  then have "CryptState_decrypt_node L (cp_skey (me s)) (Some (node_text h)) (Some (env c t)) (S src') =
      Some (Inr ((None, True), upd_me nonce_incd (S src')))"
    by (simp add: CryptState_decrypt_node_def bindp_Some ret_def S_def)
  then show ?thesis
    by (simp add: 1 bindp_Some Let_def destroy_packet_def E(3) crash_def)
qed

lemma altered_message_freed_twice_witness:
  "Peer_recv plain_ltc plain_io ((plain_end ''hub'' ''hubkey'')\<lparr> s_source := plain_source
     (frame_bytes (node_text sample_header @ node_text (env ''data'' ''wrong'')) @ []) \<rparr>) = Some (Inl Dangling)"
proof (rule altered_message_freed_twice [OF plain_ok(2), where h = sample_header and b = "''data''" and t' = "''tag''" and rest = "[]"])
  have "length (node_text (env ''data'' ''wrong'')) \<le> 44"
    using flat_text_length [OF short_words(4), of "[LBlob ''data'', LBlob ''wrong'']"] by (simp add: env_def)
  then show "length (node_text sample_header @ node_text (env ''data'' ''wrong'')) \<le> v_cap plain_view"
    "length (node_text sample_header @ node_text (env ''data'' ''wrong'')) < 2 ^ 16"
    using sample_nodes(3) by (simp_all add: plain_view_def)
qed (use sample_nodes plain_ok(3) plain_source_ok in \<open>simp_all add: plain_end_def plain_ltc_def\<close>)

text \<open>
  (C32) The initiator accepts an answer whatever nonce it repeats: \<open>CryptState_initiator_process_response\<close>
  compares the nonce with its own, but returns what \<open>Node_decons\<close> returned also when they differ.
\<close>

theorem initiator_ignores_nonce:
  assumes L: "ltc_ok L" and i: "ident_ok i nm x" and s: "\<not> s_errno s"
  shows "\<exists>s'. CryptState_initiator_process_response L (Some h)
      (Some (seal L (cs_shared (s_crypt s)) (cp_nonce (me s)) h (reply nm x tn n))) s = Some (Inr ((True, False), s')) \<and>
    cp_name (them s') = Some nm"
proof -
  have mk: "s = mk (me s) (them s) (cs_shared (s_crypt s)) (cs_data (s_crypt s)) (s_prng s) (s_source s) (s_rest s)"
    by (rule sess_is_mk [OF s])
  show ?thesis
    using initiator_process_mk [OF L i, where m = "me s" and t = "them s" and k = "cs_shared (s_crypt s)" and
        d = "cs_data (s_crypt s)" and g = "s_prng s" and w = "s_rest s" and src = "s_source s", folded mk] by simp
qed

lemma initiator_ignores_nonce_witness:
  "\<exists>s'. CryptState_initiator_process_response plain_ltc (Some [])
      (Some (seal plain_ltc (zero_skey plain_ltc) \<lparr> n_left = 0, n_right = 0 \<rparr> [] (reply ''hub'' (replicate 32 (CHR ''s''))
         \<lparr> n_left = 7, n_right = 7 \<rparr> \<lparr> n_left = 0, n_right = 0 \<rparr>)))
      (plain_end ''zed'' ''zedkey'') = Some (Inr ((True, False), s'))"
proof -
  have i: "ident_ok (me (plain_end ''hub'' ''hubkey'')) ''hub'' (replicate 32 (CHR ''s''))"
    by (simp add: ident_ok_def plain_end_def zero_peer_def NUL_def)
  have "\<not> s_errno (plain_end ''zed'' ''zedkey'')" "cs_shared (s_crypt (plain_end ''zed'' ''zedkey'')) = zero_skey plain_ltc"
    "cp_nonce (me (plain_end ''zed'' ''zedkey'')) = \<lparr> n_left = 0, n_right = 0 \<rparr>"
    by (simp_all add: plain_end_def zero_peer_def zero_nonce_def)
  with initiator_ignores_nonce [OF plain_ok(1) i, of "plain_end ''zed'' ''zedkey''" "[]" "\<lparr> n_left = 7, n_right = 7 \<rparr>" "\<lparr> n_left = 0, n_right = 0 \<rparr>"]
  show ?thesis by auto
qed

end
