(* ===== verification/Challenge.thy ===== *)
theory Challenge
  imports Crypto
begin

text \<open>
  The rest of \<open>src/protocol/crypto.c\<close>: hashes and fingerprints, signed documents and the hate
  challenge, a puzzle whose answer is found by trying.
\<close>

section \<open>Hashes and fingerprints\<close>

definition CryptState_hash :: "ltc \<Rightarrow> string \<Rightarrow> (bstring, ('b, 'n, 'w) sess) proc" where
  "CryptState_hash L data =
     (let hash = hash_memory L data
      in check (hash \<noteq> None) (ret None) (ret hash))"

definition hex_digit :: "nat \<Rightarrow> char" where
  "hex_digit n = ''0123456789abcdef'' ! n"

definition hex_byte :: "char \<Rightarrow> string" where
  "hex_byte c = (let n = of_char c :: nat in [hex_digit (n div 16), hex_digit (n mod 16)])"

text \<open>
  The bytes of the fingerprint from position \<open>i\<close> on: a dash after every second one but the
  last. The loop reads outside the array when the hash is empty.
\<close>

fun fingerprint_loop :: "nat \<Rightarrow> string \<Rightarrow> string \<Rightarrow> string" where
  "fingerprint_loop i fp [] = fp"
| "fingerprint_loop i fp [c] = bformata fp (hex_byte c)"
| "fingerprint_loop i fp (c # d # cs) =
     fingerprint_loop (i + 1) (bformata fp (if i mod 2 \<noteq> 0 then hex_byte c @ ''-'' else hex_byte c)) (d # cs)"

definition CryptState_fingerprint_bstr :: "ltc \<Rightarrow> bstring \<Rightarrow> (bstring, ('b, 'n, 'w) sess) proc" where
  "CryptState_fingerprint_bstr L str =
     assertp (str \<noteq> None) (
     let hash = hash_memory L (the str)
     in check (hash \<noteq> None) (ret None) (
        if hash = Some [] then crash Undefined
        else ret (Some (fingerprint_loop 0 [] (the hash)))))"

definition CryptState_fingerprint_key :: "ltc \<Rightarrow> crypt_key_side \<Rightarrow> pk_type \<Rightarrow> (bstring, ('b, 'n, 'w) sess) proc" where
  "CryptState_fingerprint_key L my_key type =
     bindp (CryptState_export_key L my_key type) (\<lambda>outkey.
     check (outkey \<noteq> None) (ret None) (
     CryptState_fingerprint_bstr L outkey))"

section \<open>Signed documents\<close>

definition CryptState_sign_node ::
  "ltc \<Rightarrow> ecc_key \<Rightarrow> bstring \<Rightarrow> node option \<Rightarrow> (node option, ('b, 'n, 'w) sess) proc" where
  "CryptState_sign_node L private_key name input =
     bindp (bstr input) (\<lambda>payload.
     check True (ret None) (
     bindp (CryptState_hash L payload) (\<lambda>hash.
     check (hash \<noteq> None) (ret None) (
     bindp (\<lambda>s. case ecc_sign_hash L (the hash) (s_prng s) private_key of
                  (sig, g) \<Rightarrow> Some (Inr (sig, s\<lparr> s_prng := g \<rparr>))) (\<lambda>signature.
     check (signature \<noteq> None) (ret None) (
     bindp (CryptState_ecc_key_bstr L private_key PK_PUBLIC) (\<lambda>public_key.
     bindp (cons ''[[bbbw[bbww'' [CBstr (Some payload), CBstr hash, CBstr signature, CWord (Some ''message''),
         CBstr public_key, CBstr (bstrcpy name), CWord (Some ''identity''), CWord (Some ''signed'')]) (\<lambda>result.
     check (result \<noteq> None) (ret None) (
     ret result)))))))))"

text \<open>
  \<open>CryptState_verify_signature\<close>: the document, the \<open>sig_stat\<close> it leaves where \<open>stat\<close> was, and
  the key it imported.
\<close>

definition CryptState_verify_signature ::
  "ltc \<Rightarrow> bstring \<Rightarrow> node option \<Rightarrow> bool \<Rightarrow> (node option \<times> bool \<times> ecc_key option, ('b, 'n, 'w) sess) proc" where
  "CryptState_verify_signature L name input stat =
     bindp (decons input False ''[[bbw[bbbww'' [DStr, DStr, DWord ''identity'', DStr, DStr, DStr,
         DWord ''message'', DWord ''signed'']) (\<lambda>(rc, outs).
     check rc (ret (None, stat, None)) (
     check (biseq (out_str outs 0) name \<noteq> 0) (ret (None, stat, None)) (
     bindp (CryptState_bstr_ecc_key L (out_str outs 1)) (\<lambda>key.
     check (key \<noteq> None) (ret (None, stat, key)) (
     let ok = ecc_verify_hash L (the (out_str outs 2)) (the (out_str outs 3)) (the key);
         stat = (case ok of None \<Rightarrow> stat | Some b \<Rightarrow> b)
     in check (ok \<noteq> None) (ret (None, stat, key)) (
        bindp (parse (out_str outs 4)) (\<lambda>result.
        check (result \<noteq> None) (ret (result, stat, key)) (
        ret (result, stat, key)))))))))"

section \<open>The hate challenge\<close>

text \<open>The challenge and the nonce \<open>expecting\<close>, whose old value is an argument.\<close>

definition CryptState_generate_hate_challenge ::
  "ltc \<Rightarrow> 32 word \<Rightarrow> CryptNonce \<Rightarrow> (node option \<times> CryptNonce, ('b, 'n, 'w) sess) proc" where
  "CryptState_generate_hate_challenge L level expecting =
     (let shift = level + 1
      in if 32 \<le> unat shift then crash Undefined
         else
         let level_max = push_bit (unat shift) 1 :: 32 word
         in check (0 < level_max) (ret (None, expecting)) (
            bindp (CryptState_create_nonce L expecting) (\<lambda>(rc, expecting).
            check rc (ret (None, expecting)) (
            let expecting = expecting\<lparr> n_right := n_right expecting mod ucast level_max \<rparr>
            in bindp (CryptState_hash L (nonce_raw expecting)) (\<lambda>hash.
               bindp (cons ''[nnnbw'' [CNumber (ucast level), CNumber 0, CNumber (n_left expecting), CBstr hash,
                   CWord (Some CRYPT_CHALLENGE_MSG)]) (\<lambda>msg.
               check (msg \<noteq> None) (ret (None, expecting)) (
               bindp (gets me) (\<lambda>p.
               bindp (CryptState_sign_node L (cp_key p) (cp_name p) msg) (\<lambda>sign.
               check (sign \<noteq> None) (bindp (destroy msg) (\<lambda>_. ret (None, expecting))) (
               ret (sign, expecting)))))))))))"

text \<open>
  The search, with the number of values left to try: \<open>None\<close> when the hash function failed,
  otherwise the value found, if any.
\<close>

fun answer_loop :: "ltc \<Rightarrow> string \<Rightarrow> 64 word \<Rightarrow> nat \<Rightarrow> 64 word \<Rightarrow> 64 word option option" where
  "answer_loop L hash left 0 right = Some None"
| "answer_loop L hash left (Suc k) right =
     (case hash_memory L (nonce_raw \<lparr> n_left = left, n_right = right \<rparr>) of
        None \<Rightarrow> None
      | Some test \<Rightarrow> if test = hash then Some (Some right) else answer_loop L hash left k (right + 1))"

definition CryptState_answer_hate_challenge ::
  "ltc \<Rightarrow> node option \<Rightarrow> 32 word \<Rightarrow> (node option, ('b, 'n, 'w) sess) proc" where
  "CryptState_answer_hate_challenge L challenge max_allowed_level =
     assertp (challenge \<noteq> None) (
     assertp (0 < max_allowed_level) (
     bindp (gets (\<lambda>s. cp_name (them s))) (\<lambda>name.
     bindp (CryptState_verify_signature L name challenge False) (\<lambda>(challenge, rc, key).
     check rc (ret None) (
     bindp (decons challenge True ''[bnnnw'' [DStr, DNumber, DNumber, DNumber, DWord CRYPT_CHALLENGE_MSG]) (\<lambda>(rc, outs).
     let hash = out_str outs 0; left = out_num outs 1 0; right = out_num outs 2 0; level = out_num outs 3 0
     in check rc (ret None) (
        check (right = 0) (ret None) (
        check (level \<le> ucast max_allowed_level) (ret None) (
        check (hash \<noteq> None) (ret None) (
        if 64 \<le> unat (level + 1) then crash Undefined
        else
        let limit = push_bit (unat (level + 1)) level;
            found = answer_loop L (the hash) left (unat limit) 0
        in check (found \<noteq> None) (ret None) (
           bindp (case the found of
                    None \<Rightarrow> ret None
                  | Some r \<Rightarrow> cons ''[nnw'' [CNumber left, CNumber r, CWord (Some CRYPT_ANSWER_MSG)]) (\<lambda>answer.
           check (answer \<noteq> None) (ret None) (
           bindp (gets me) (\<lambda>p.
           bindp (CryptState_sign_node L (cp_key p) (cp_name p) answer) (\<lambda>sign.
           check (sign \<noteq> None) (bindp (destroy answer) (\<lambda>_. ret None)) (
           ret sign))))))))))))))))"

definition CryptState_validate_hate_challenge ::
  "ltc \<Rightarrow> node option \<Rightarrow> CryptNonce \<Rightarrow> (bool, ('b, 'n, 'w) sess) proc" where
  "CryptState_validate_hate_challenge L answer expecting =
     assertp (answer \<noteq> None) (
     bindp (gets (\<lambda>s. cp_name (them s))) (\<lambda>name.
     bindp (CryptState_verify_signature L name answer False) (\<lambda>(answer, sig_stat, key).
     check sig_stat (ret False) (
     bindp (decons answer False ''[nnw'' [DNumber, DNumber, DWord CRYPT_ANSWER_MSG]) (\<lambda>(rc, outs).
     check rc (ret False) (
     check (n_left expecting = out_num outs 1 0 \<and> n_right expecting = out_num outs 0 0) (ret False) (
     ret True)))))))"

end
