(* ===== verification/Trust.thy ===== *)
theory Trust
  imports Challenge Transport
begin

text \<open>
  Signed documents and the hate challenge: what a signature says about the document it comes
  with, and when an answer is accepted.
\<close>

section \<open>Signed documents\<close>

definition signed_item :: "string \<Rightarrow> string \<Rightarrow> string \<Rightarrow> string \<Rightarrow> string \<Rightarrow> item" where
  "signed_item p h sig pk nm =
     Grp [Grp [Leaf (LBlob p) None, Leaf (LBlob h) None, Leaf (LBlob sig) None] (GWord ''message''),
          Grp [Leaf (LBlob pk) None, Leaf (LBlob nm) None] (GWord ''identity'')] (GWord ''signed'')"

definition signed_doc :: "string \<Rightarrow> string \<Rightarrow> string \<Rightarrow> string \<Rightarrow> string \<Rightarrow> node" where
  "signed_doc p h sig pk nm = item_node False (signed_item p h sig pk nm)"

lemma cons_signed:
  "\<not> s_errno s \<Longrightarrow> cons ''[[bbbw[bbww'' [CBstr (Some p), CBstr (Some h), CBstr (Some sig), CWord (Some ''message''),
     CBstr (Some pk), CBstr (Some nm), CWord (Some ''identity''), CWord (Some ''signed'')] s =
   Some (Inr (Some (signed_doc p h sig pk nm), s))"
  using cons_item [of "signed_item p h sig pk nm" s] by (simp add: signed_doc_def signed_item_def)

lemma decons_signed:
  "\<not> s_errno s \<Longrightarrow> decons (Some (signed_doc p h sig pk nm)) False ''[[bbw[bbbww'' [DStr, DStr, DWord ''identity'',
     DStr, DStr, DStr, DWord ''message'', DWord ''signed''] s =
   Some (Inr ((True, [OStr (Some nm), OStr (Some pk), OStr (Some sig), OStr (Some h), OStr (Some p)]), s))"
  using decons_item [of "signed_item p h sig pk nm" s] by (simp add: signed_doc_def signed_item_def)

lemma sign_node_ok:
  assumes "\<not> s_errno s" "hash_memory L (node_text p) = Some h" "ecc_sign_hash L h (s_prng s) key = (Some sig, g)"
    "ecc_export L PK_PUBLIC key = Some pk"
  shows "CryptState_sign_node L key (Some nm) (Some p) s =
    Some (Inr (Some (signed_doc (node_text p) h sig pk nm), s\<lparr> s_prng := g \<rparr>))"
  using assms by (simp add: CryptState_sign_node_def CryptState_hash_def CryptState_ecc_key_bstr_def Let_def
      bindp_def [of "\<lambda>s. case ecc_sign_hash L h (s_prng s) key of (sig, g) \<Rightarrow> Some (Inr (sig, s\<lparr> s_prng := g \<rparr>))" for L h]
      bstrcpy_def bindp_Some cons_signed ret_def)

lemma out_Cons:
  "out_str (OStr b # xs) 0 = b" "out_str (x # xs) (Suc n) = out_str xs n"
  "out_num (ONumber w # xs) 0 old = w" "out_num (x # xs) (Suc n) old = out_num xs n old"
  "out_str xs 1 = out_str xs (Suc 0)" "out_num xs 1 old = out_num xs (Suc 0) old"
  "out_str xs 2 = out_str xs (Suc (Suc 0))" "out_num xs 2 old = out_num xs (Suc (Suc 0)) old"
  "out_str xs 3 = out_str xs (Suc (Suc (Suc 0)))" "out_num xs 3 old = out_num xs (Suc (Suc (Suc 0))) old"
  "out_str xs 4 = out_str xs (Suc (Suc (Suc (Suc 0))))" "out_num xs 4 old = out_num xs (Suc (Suc (Suc (Suc 0)))) old"
  by (simp_all add: out_str_def out_num_def numeral_eq_Suc)

lemma verify_signed:
  assumes s: "\<not> s_errno s" and key: "ecc_import L pk = Some pub"
    and sig: "ecc_verify_hash L sig h pub = Some ok"
    and q: "printable_root q" "nd_name q \<noteq> None" "length (node_text q) < 2 ^ 31"
  shows "CryptState_verify_signature L (Some nm) (Some (signed_doc (node_text q) h sig pk nm)) stat s =
    Some (Inr ((Some q, ok, Some pub), s))"
  using s key sig parse_text [OF q(1,2) s q(3)]
  by (simp add: CryptState_verify_signature_def bindp_Some decons_signed out_Cons CryptState_bstr_ecc_key_def Let_def ret_def)

text \<open>
  (C33) A signature does not vouch for the document it comes with. If a signature fits a hash
  under some key, \<open>CryptState_verify_signature\<close> reports success for every document \<open>q\<close> put
  beside them: the hash of \<open>q\<close> is never compared with the signed one, and the key is the one
  the document itself gives.
\<close>

theorem signature_unbound:
  assumes s: "\<not> s_errno s" and key: "ecc_import L pk = Some pub"
    and sig: "ecc_verify_hash L sig h pub = Some True"
    and q: "printable_root q" "nd_name q \<noteq> None" "length (node_text q) < 2 ^ 31"
  shows "CryptState_verify_signature L (Some nm) (Some (signed_doc (node_text q) h sig pk nm)) stat s =
    Some (Inr ((Some q, True, Some pub), s))"
  using assms by (rule verify_signed)


lemma signature_unbound_witness:
  "CryptState_verify_signature plain_ltc (Some ''zed'')
     (Some (signed_doc (node_text sample_payload) ''hash of another'' ''zedkey'' ''zedkey'' ''zed'')) False (plain_end ''hub'' ''hubkey'') =
   Some (Inr ((Some sample_payload, True, Some ''zedkey''), plain_end ''hub'' ''hubkey''))"
  by (rule signature_unbound) (use sample_nodes in \<open>simp_all add: plain_end_def plain_ltc_def\<close>)

section \<open>The hate challenge\<close>

definition challenge_doc :: "32 word \<Rightarrow> 64 word \<Rightarrow> string \<Rightarrow> node" where
  "challenge_doc level left hash = flat ''challenge'' [LNumber (ucast level), LNumber 0, LNumber left, LBlob hash]"

definition answer_doc :: "64 word \<Rightarrow> 64 word \<Rightarrow> node" where
  "answer_doc left right = flat ''answer'' [LNumber left, LNumber right]"

lemma NUL_hate [simp]: "NUL \<notin> set ''challenge''" "NUL \<notin> set ''answer''"
  by (simp_all add: NUL_def)

lemma hate_words: "word_name ''challenge''" "word_name ''answer''"
  by code_simp+

lemma hate_docs_ok:
  "length h \<le> 1000 \<Longrightarrow> printable_root (challenge_doc level left h) \<and> nd_name (challenge_doc level left h) \<noteq> None \<and>
     length (node_text (challenge_doc level left h)) < 2 ^ 31"
  "printable_root (answer_doc left right) \<and> nd_name (answer_doc left right) \<noteq> None \<and>
     length (node_text (answer_doc left right)) < 2 ^ 31"
  using flat_printable [OF hate_words(1), of "[LNumber (ucast level), LNumber 0, LNumber left, LBlob h]"]
    flat_text_length [OF hate_words(1), of "[LNumber (ucast level), LNumber 0, LNumber left, LBlob h]"]
    flat_printable [OF hate_words(2), of "[LNumber left, LNumber right]"]
    flat_text_length [OF hate_words(2), of "[LNumber left, LNumber right]"]
  by (simp_all add: challenge_doc_def answer_doc_def)

text \<open>
  What is asked of the library: hashing works and gives distinct hashes for the nonces that
  share a left half; a signature made with a key is accepted by the public key exported from it.
\<close>

definition hash_ok :: "ltc \<Rightarrow> bool" where
  "hash_ok L \<longleftrightarrow> (\<forall>x. \<exists>h. hash_memory L x = Some h \<and> length h \<le> 1000) \<and>
     (\<forall>l r r'. hash_memory L (nonce_raw \<lparr> n_left = l, n_right = r \<rparr>) = hash_memory L (nonce_raw \<lparr> n_left = l, n_right = r' \<rparr>) \<longrightarrow> r = r')"

definition sign_ok :: "ltc \<Rightarrow> ecc_key \<Rightarrow> bool" where
  "sign_ok L key \<longleftrightarrow> (\<exists>pk pub. ecc_export L PK_PUBLIC key = Some pk \<and> ecc_import L pk = Some pub \<and>
     (\<forall>h g. \<exists>sig g'. ecc_sign_hash L h g key = (Some sig, g') \<and> ecc_verify_hash L sig h pub = Some True))"

text \<open>A document signed with such a key is read back by whoever knows the name.\<close>

lemma sign_verify:
  fixes s :: "('b, 'n, 'w) sess"
  assumes L: "hash_ok L" "sign_ok L key" and s: "\<not> s_errno s"
  obtains d g where "CryptState_sign_node L key (Some nm) (Some p) s = Some (Inr (Some d, s\<lparr> s_prng := g \<rparr>))"
    "\<forall>(s' :: ('b, 'n, 'w) sess) stat. \<not> s_errno s' \<longrightarrow> printable_root p \<longrightarrow> nd_name p \<noteq> None \<longrightarrow> length (node_text p) < 2 ^ 31 \<longrightarrow>
       (\<exists>pub. CryptState_verify_signature L (Some nm) (Some d) stat s' = Some (Inr ((Some p, True, Some pub), s')))"
proof -
  obtain pk pub where k: "ecc_export L PK_PUBLIC key = Some pk" "ecc_import L pk = Some pub"
    "\<And>h g. \<exists>sig g'. ecc_sign_hash L h g key = (Some sig, g') \<and> ecc_verify_hash L sig h pub = Some True"
    using L(2) unfolding sign_ok_def by blast
  obtain h where h: "hash_memory L (node_text p) = Some h" using L(1) unfolding hash_ok_def by blast
  obtain sig g where sig: "ecc_sign_hash L h (s_prng s) key = (Some sig, g)" "ecc_verify_hash L sig h pub = Some True"
    using k(3) by blast
  show thesis
  proof (rule that)
    show "CryptState_sign_node L key (Some nm) (Some p) s = Some (Inr (Some (signed_doc (node_text p) h sig pk nm), s\<lparr> s_prng := g \<rparr>))"
      by (rule sign_node_ok [OF s h sig(1) k(1)])
    show "\<forall>(s' :: ('b, 'n, 'w) sess) stat. \<not> s_errno s' \<longrightarrow> printable_root p \<longrightarrow> nd_name p \<noteq> None \<longrightarrow> length (node_text p) < 2 ^ 31 \<longrightarrow>
        (\<exists>pub. CryptState_verify_signature L (Some nm) (Some (signed_doc (node_text p) h sig pk nm)) stat s' =
          Some (Inr ((Some p, True, Some pub), s')))"
      using verify_signed [OF _ k(2) sig(2)] by blast
  qed
qed

lemma unat_ucast_up: "unat (ucast w :: 64 word) = unat w" for w :: "32 word"
proof -
  have "unat w < 2 ^ 32" using unsigned_less [of w] by simp
  then show ?thesis by (simp add: unsigned_ucast_eq take_bit_nat_eq_self)
qed

lemma generate_ok:
  fixes s :: "('b, 'n, 'w) sess"
  assumes L: "ltc_ok L" "hash_ok L" "sign_ok L (cp_key (me s))" and s: "\<not> s_errno s" "cp_name (me s) = Some nm"
    and level: "unat level < 31"
  obtains d n h g where "CryptState_generate_hate_challenge L level old s = Some (Inr ((Some d, n), s\<lparr> s_prng := g \<rparr>))"
    "hash_memory L (nonce_raw n) = Some h" "length h \<le> 1000" "unat (n_right n) < 2 ^ (unat level + 1)"
    "\<forall>(s' :: ('b, 'n, 'w) sess) stat. \<not> s_errno s' \<longrightarrow>
       (\<exists>pub. CryptState_verify_signature L (Some nm) (Some d) stat s' = Some (Inr ((Some (challenge_doc level (n_left n) h), True, Some pub), s')))"
proof -
  define N where "N = fresh_nonce L (s_prng s)"
  define M where "M = (push_bit (unat level + 1) 1 :: 32 word)"
  define n where "n = N\<lparr> n_right := n_right N mod ucast M \<rparr>"
  have nl: "n_left N = n_left n" by (simp add: n_def)
  have sh: "unat (level + 1) = unat level + 1" using level by (simp add: unat_word_ariths)
  have M: "unat M = 2 ^ (unat level + 1)"
  proof -
    have "(2::nat) ^ (unat level + 1) < 2 ^ 32" using level by (intro power_strict_increasing) auto
    moreover have "M = word_of_nat (2 ^ (unat level + 1))" by (simp add: M_def)
    ultimately show ?thesis using level by (simp only: unsigned_of_nat) (simp add: take_bit_nat_eq_self del: power_Suc)
  qed
  have M': "2 * 2 ^ unat level = M" by (simp add: M_def)
  have M0: "0 < M" using M by (simp add: word_less_nat_alt)
  obtain bs g1 where r: "fortuna_read L NONCE_LENGTH (s_prng s) = (bs, g1)" by (rule prod.exhaust)
  have bs: "length bs = NONCE_LENGTH" using L(1) r unfolding ltc_ok_def by (metis fst_conv)
  have 1: "CryptState_create_nonce L old s = Some (Inr ((True, N), s\<lparr> s_prng := g1 \<rparr>))"
    using r bs by (simp add: CryptState_create_nonce_def CryptState_rand_def bindp_def gets_def modify_def ret_def N_def fresh_nonce_def length_nonce_raw)
  obtain h where h: "hash_memory L (nonce_raw n) = Some h" "length h \<le> 1000" using L(2) unfolding hash_ok_def by blast
  define s1 where "s1 = s\<lparr> s_prng := g1 \<rparr>"
  have s1: "\<not> s_errno s1" "me s1 = me s" using s by (simp_all add: s1_def)
  have 2: "cons ''[nnnbw'' [CNumber (ucast level), CNumber 0, CNumber (n_left n), CBstr (Some h), CWord (Some ''challenge'')] s1 =
      Some (Inr (Some (challenge_doc level (n_left n) h), s1))"
    using cons_flat [OF NUL_hate(1) s1(1), of "[LNumber (ucast level), LNumber 0, LNumber (n_left n), LBlob h]"]
    by (simp add: challenge_doc_def)
  obtain d g where 3: "CryptState_sign_node L (cp_key (me s)) (Some nm) (Some (challenge_doc level (n_left n) h)) s1 = Some (Inr (Some d, s1\<lparr> s_prng := g \<rparr>))"
    and v: "\<forall>(s' :: ('b, 'n, 'w) sess) stat. \<not> s_errno s' \<longrightarrow> printable_root (challenge_doc level (n_left n) h) \<longrightarrow> nd_name (challenge_doc level (n_left n) h) \<noteq> None \<longrightarrow>
       length (node_text (challenge_doc level (n_left n) h)) < 2 ^ 31 \<longrightarrow>
       (\<exists>pub. CryptState_verify_signature L (Some nm) (Some d) stat s' = Some (Inr ((Some (challenge_doc level (n_left n) h), True, Some pub), s')))"
    by (rule sign_verify [OF L(2,3) s1(1), where nm = nm and p = "challenge_doc level (n_left n) h"])
  show thesis
  proof (rule that)
    show "CryptState_generate_hate_challenge L level old s = Some (Inr ((Some d, n), s\<lparr> s_prng := g \<rparr>))"
      using s s1 1 2 3 h(1) M0 level unfolding s1_def [symmetric]
      by (simp add: CryptState_generate_hate_challenge_def sh M' step_simps CryptState_hash_def nl n_def [symmetric])
        (simp add: s1_def)
    show "hash_memory L (nonce_raw n) = Some h" "length h \<le> 1000" by (fact h)+
    have "unat (ucast M :: 64 word) = 2 ^ (unat level + 1)" unfolding M [symmetric] by (rule unat_ucast_up)
    then show "unat (n_right n) < 2 ^ (unat level + 1)" by (simp add: n_def unat_mod)
    show "\<forall>(s' :: ('b, 'n, 'w) sess) stat. \<not> s_errno s' \<longrightarrow> (\<exists>pub. CryptState_verify_signature L (Some nm) (Some d) stat s' = Some (Inr ((Some (challenge_doc level (n_left n) h), True, Some pub), s')))"
      using v hate_docs_ok(1) [OF h(2), of level "n_left n"] by blast
  qed
qed

lemma answer_loop_finds:
  "(\<And>i. i < j \<Longrightarrow> \<exists>h'. hash_memory L (nonce_raw \<lparr> n_left = l, n_right = a + of_nat i \<rparr>) = Some h' \<and> h' \<noteq> h) \<Longrightarrow>
   hash_memory L (nonce_raw \<lparr> n_left = l, n_right = a + of_nat j \<rparr>) = Some h \<Longrightarrow> j < k \<Longrightarrow>
   answer_loop L h l k a = Some (Some (a + of_nat j))"
proof (induction k arbitrary: a j)
  case (Suc k)
  show ?case
  proof (cases j)
    case 0
    with Suc.prems(2) show ?thesis by simp
  next
    case (Suc j')
    have "\<exists>h'. hash_memory L (nonce_raw \<lparr> n_left = l, n_right = a + 1 + of_nat i \<rparr>) = Some h' \<and> h' \<noteq> h" if "i < j'" for i
      using Suc.prems(1) [of "Suc i"] that Suc by (simp add: algebra_simps)
    moreover have "hash_memory L (nonce_raw \<lparr> n_left = l, n_right = a + 1 + of_nat j' \<rparr>) = Some h" "j' < k"
      using Suc.prems(2,3) Suc by (simp_all add: algebra_simps)
    ultimately have "answer_loop L h l k (a + 1) = Some (Some (a + 1 + of_nat j'))" by (rule Suc.IH)
    moreover obtain h' where "hash_memory L (nonce_raw \<lparr> n_left = l, n_right = a \<rparr>) = Some h'" "h' \<noteq> h"
      using Suc.prems(1) [of 0] Suc by auto
    ultimately show ?thesis using Suc by (simp add: algebra_simps)
  qed
qed simp


text \<open>The answer to a challenge whose right half is below the limit.\<close>

lemma answer_ok:
  assumes L: "hash_ok L" "sign_ok L (cp_key (me s))" and s: "\<not> s_errno s" "cp_name (me s) = Some nm"
    and d: "CryptState_verify_signature L (cp_name (them s)) (Some d) False s = Some (Inr ((Some (challenge_doc level (n_left n) h), True, Some pub), s))"
    and h: "hash_memory L (nonce_raw n) = Some h" and level: "unat level < 31" "level \<le> most" "0 < most"
    and limit: "unat (n_right n) < unat level * 2 ^ (unat level + 1)"
  shows "CryptState_answer_hate_challenge L (Some d) most s =
    CryptState_sign_node L (cp_key (me s)) (Some nm) (Some (answer_doc (n_left n) (n_right n))) s"
proof -
  define C where "C = challenge_doc level (n_left n) h"
  define r where "r = unat (n_right n)"
  define lim where "lim = push_bit (unat level + 1) (ucast level :: 64 word)"
  have "(ucast level :: 64 word) \<le> ucast most"
    using level(2) unfolding word_le_nat_alt unat_ucast_up .
  moreover have "unat (ucast level + 1 :: 64 word) = unat level + 1"
    using level by (simp add: unat_ucast_up unat_word_ariths)
  ultimately have lv: "unat (ucast level + 1 :: 64 word) = unat level + 1" "(ucast level :: 64 word) \<le> ucast most"
    by simp_all
  have lim: "unat lim = unat level * 2 ^ (unat level + 1)"
  proof -
    have "unat level * 2 ^ (unat level + 1) < (2::nat) ^ 5 * 2 ^ 31"
      using level by (intro mult_less_le_imp_less power_increasing) auto
    then show ?thesis
      unfolding lim_def unsigned_push_bit_eq unat_ucast_up by (simp add: push_bit_eq_mult take_bit_nat_eq_self)
  qed
  have find: "answer_loop L h (n_left n) (unat lim) 0 = Some (Some (n_right n))"
  proof -
    have "\<exists>h'. hash_memory L (nonce_raw \<lparr> n_left = n_left n, n_right = 0 + of_nat i \<rparr>) = Some h' \<and> h' \<noteq> h" if "i < r" for i
    proof -
      obtain h' where h': "hash_memory L (nonce_raw \<lparr> n_left = n_left n, n_right = of_nat i \<rparr>) = Some h'"
        using L(1) unfolding hash_ok_def by blast
      have "i < 2 ^ 64" using that unsigned_less [of "n_right n", where 'a = nat] by (simp add: r_def)
      then have "unat (of_nat i :: 64 word) = i" by (simp add: unsigned_of_nat take_bit_nat_eq_self)
      with that have "(of_nat i :: 64 word) \<noteq> n_right n" by (auto simp: r_def)
      then have "h' \<noteq> h" using L(1) h h' unfolding hash_ok_def by (metis nonce_eta)
      with h' show ?thesis by simp
    qed
    moreover have "hash_memory L (nonce_raw \<lparr> n_left = n_left n, n_right = 0 + of_nat r \<rparr>) = Some h"
      using h by (simp add: r_def)
    moreover have "r < unat lim" using limit by (simp add: lim r_def)
    ultimately have "answer_loop L h (n_left n) (unat lim) 0 = Some (Some (0 + of_nat r))" by (rule answer_loop_finds)
    then show ?thesis by (simp add: r_def)
  qed
  have 1: "decons (Some C) True ''[bnnnw'' [DStr, DNumber, DNumber, DNumber, DWord ''challenge''] s =
      Some (Inr ((True, [OStr (Some h), ONumber (n_left n), ONumber 0, ONumber (ucast level)]), s))"
    using decons_flat [OF NUL_hate(1) s(1), of "[LNumber (ucast level), LNumber 0, LNumber (n_left n), LBlob h]" True]
    by (simp add: C_def challenge_doc_def)
  have 2: "cons ''[nnw'' [CNumber (n_left n), CNumber (n_right n), CWord (Some ''answer'')] s = Some (Inr (Some (answer_doc (n_left n) (n_right n)), s))"
    using cons_flat [OF NUL_hate(2) s(1), of "[LNumber (n_left n), LNumber (n_right n)]"] by (simp add: answer_doc_def)
  obtain ans g where 3: "CryptState_sign_node L (cp_key (me s)) (Some nm) (Some (answer_doc (n_left n) (n_right n))) s = Some (Inr (Some ans, s\<lparr> s_prng := g \<rparr>))"
    by (rule sign_verify [OF L s(1)])
  show ?thesis
    using s d 1 2 3 level(1,3) lv(2) find unfolding C_def [symmetric] lim_def
    by (simp add: CryptState_answer_hate_challenge_def crypt_names bindp_Some out_Cons Let_def lv(1) ret_def)
qed


lemma validate_ok:
  assumes s: "\<not> s_errno s"
    and d: "CryptState_verify_signature L (cp_name (them s)) (Some d) False s = Some (Inr ((Some (answer_doc (n_left n) (n_right n)), True, Some pub), s))"
  shows "CryptState_validate_hate_challenge L (Some d) n s = Some (Inr (True, s))"
proof -
  have "decons (Some (answer_doc (n_left n) (n_right n))) False ''[nnw'' [DNumber, DNumber, DWord ''answer''] s =
      Some (Inr ((True, [ONumber (n_right n), ONumber (n_left n)]), s))"
    using decons_flat [OF NUL_hate(2) s, of "[LNumber (n_left n), LNumber (n_right n)]" False] by (simp add: answer_doc_def)
  with s d show ?thesis
    by (simp add: CryptState_validate_hate_challenge_def crypt_names bindp_Some out_Cons ret_def)
qed

definition know_each_other :: "('b, 'n, 'w) sess \<Rightarrow> ('b, 'n, 'w) sess \<Rightarrow> bool" where
  "know_each_other A B \<longleftrightarrow> cp_name (me A) \<noteq> None \<and> cp_name (me B) \<noteq> None \<and>
     cp_name (them A) = cp_name (me B) \<and> cp_name (them B) = cp_name (me A)"

text \<open>
  (C34) An honest answer to a challenge is accepted, for every level from 1 to 30 that the
  answering end allows: \<open>CryptState_generate_hate_challenge\<close> gives a challenge,
  \<open>CryptState_answer_hate_challenge\<close> finds the missing half within its bound, and
  \<open>CryptState_validate_hate_challenge\<close> returns 1 for the answer.
\<close>

theorem hate_answer_accepted:
  fixes A B :: "('b, 'n, 'w) sess"
  assumes L: "ltc_ok L" "hash_ok L" "sign_ok L (cp_key (me A))" "sign_ok L (cp_key (me B))"
    and ends: "\<not> s_errno A" "\<not> s_errno B" "know_each_other A B"
    and level: "0 < level" "level < 31" "level \<le> most"
  shows "\<exists>d n A' ans B'. CryptState_generate_hate_challenge L level old A = Some (Inr ((Some d, n), A')) \<and>
    CryptState_answer_hate_challenge L (Some d) most B = Some (Inr (Some ans, B')) \<and>
    CryptState_validate_hate_challenge L (Some ans) n A' = Some (Inr (True, A'))"
proof -
  obtain a b where nm: "cp_name (me A) = Some a" "cp_name (them B) = Some a" "cp_name (me B) = Some b" "cp_name (them A) = Some b"
    using ends(3) by (auto simp: know_each_other_def)
  have lv: "unat level < 31" "0 < most" "0 < unat level"
    using level by (simp_all add: word_less_nat_alt word_le_nat_alt)
  obtain d n h g where 1: "CryptState_generate_hate_challenge L level old A = Some (Inr ((Some d, n), A\<lparr> s_prng := g \<rparr>))"
    and h: "hash_memory L (nonce_raw n) = Some h" and r: "unat (n_right n) < 2 ^ (unat level + 1)"
    and v: "\<forall>(s' :: ('b, 'n, 'w) sess) stat. \<not> s_errno s' \<longrightarrow>
       (\<exists>pub. CryptState_verify_signature L (Some a) (Some d) stat s' = Some (Inr ((Some (challenge_doc level (n_left n) h), True, Some pub), s')))"
    by (rule generate_ok [OF L(1-3) ends(1) nm(1) lv(1), of old])
  obtain pub where d: "CryptState_verify_signature L (cp_name (them B)) (Some d) False B = Some (Inr ((Some (challenge_doc level (n_left n) h), True, Some pub), B))"
    using v ends(2) nm(2) by auto
  have "2 ^ (unat level + 1) \<le> unat level * 2 ^ (unat level + 1)" using lv(3) by simp
  with r have "unat (n_right n) < unat level * 2 ^ (unat level + 1)" by linarith
  note 2 = answer_ok [OF L(2,4) ends(2) nm(3) d h lv(1) level(3) lv(2) this]
  obtain ans g' where 3: "CryptState_sign_node L (cp_key (me B)) (Some b) (Some (answer_doc (n_left n) (n_right n))) B = Some (Inr (Some ans, B\<lparr> s_prng := g' \<rparr>))"
    and v': "\<forall>(s' :: ('b, 'n, 'w) sess) stat. \<not> s_errno s' \<longrightarrow>
       (\<exists>pub. CryptState_verify_signature L (Some b) (Some ans) stat s' = Some (Inr ((Some (answer_doc (n_left n) (n_right n)), True, Some pub), s')))"
    by (rule sign_verify [OF L(2,4) ends(2), where nm = b and p = "answer_doc (n_left n) (n_right n)"])
      (use hate_docs_ok(2) [of "n_left n" "n_right n"] in simp)
  have A': "\<not> s_errno (A\<lparr> s_prng := g \<rparr>)" using ends(1) by simp
  obtain pub' where "CryptState_verify_signature L (cp_name (them (A\<lparr> s_prng := g \<rparr>))) (Some ans) False (A\<lparr> s_prng := g \<rparr>) =
      Some (Inr ((Some (answer_doc (n_left n) (n_right n)), True, Some pub'), A\<lparr> s_prng := g \<rparr>))"
    using v' [rule_format, OF A', of False] by (auto simp: nm(4))
  from validate_ok [OF A' this] 1 2 3 show ?thesis by - (intro exI conjI, assumption, simp, assumption)
qed

text \<open>
  (C35) A challenge of level 0 cannot be answered: it is generated with a right half of 0 or 1,
  but the bound of the search, \<open>level << (level + 1)\<close>, is 0, so \<open>CryptState_answer_hate_challenge\<close>
  tries nothing and returns NULL.
\<close>

theorem hate_level_zero:
  fixes A B :: "('b, 'n, 'w) sess"
  assumes L: "ltc_ok L" "hash_ok L" "sign_ok L (cp_key (me A))"
    and ends: "\<not> s_errno A" "\<not> s_errno B" "know_each_other A B" and most: "0 < most"
  shows "\<exists>d n A'. CryptState_generate_hate_challenge L 0 old A = Some (Inr ((Some d, n), A')) \<and>
    CryptState_answer_hate_challenge L (Some d) most B = Some (Inr (None, B))"
proof -
  obtain a where nm: "cp_name (me A) = Some a" "cp_name (them B) = Some a" using ends(3) by (auto simp: know_each_other_def)
  obtain d n h g where 1: "CryptState_generate_hate_challenge L 0 old A = Some (Inr ((Some d, n), A\<lparr> s_prng := g \<rparr>))"
    and v: "\<forall>(s' :: ('b, 'n, 'w) sess) stat. \<not> s_errno s' \<longrightarrow>
       (\<exists>pub. CryptState_verify_signature L (Some a) (Some d) stat s' = Some (Inr ((Some (challenge_doc 0 (n_left n) h), True, Some pub), s')))"
    by (rule generate_ok [OF L ends(1) nm(1), of 0 old]) simp_all
  obtain pub where d: "CryptState_verify_signature L (Some a) (Some d) False B = Some (Inr ((Some (challenge_doc 0 (n_left n) h), True, Some pub), B))"
    using v ends(2) by blast
  have "decons (Some (challenge_doc 0 (n_left n) h)) True ''[bnnnw'' [DStr, DNumber, DNumber, DNumber, DWord ''challenge''] B =
      Some (Inr ((True, [OStr (Some h), ONumber (n_left n), ONumber 0, ONumber 0]), B))"
    using decons_flat [OF NUL_hate(1) ends(2), of "[LNumber 0, LNumber 0, LNumber (n_left n), LBlob h]" True]
    by (simp add: challenge_doc_def)
  with ends(2) nm d most have "CryptState_answer_hate_challenge L (Some d) most B = Some (Inr (None, B))"
    by (simp add: CryptState_answer_hate_challenge_def crypt_names bindp_Some out_Cons Let_def ret_def)
  with 1 show ?thesis by blast
qed

definition introduced :: "string \<Rightarrow> (string, string \<times> string, unit) sess \<Rightarrow> (string, string \<times> string, unit) sess" where
  "introduced nm s = upd_them (\<lambda>p. p\<lparr> cp_name := Some nm \<rparr>) s"

lemma word_bytes_inj: "word_bytes v = word_bytes w \<Longrightarrow> v = w"
proof (rule bit_word_eqI)
  fix n assume eq: "word_bytes v = word_bytes w" and n: "n < LENGTH(64)"
  define i j where "i = n div 8" and "j = n mod 8"
  have ij: "i < 8" "j < 8" "n = 8 * i + j" using n by (simp_all add: i_def j_def less_mult_imp_div_less)
  have "word_bytes v ! i = word_bytes w ! i" using eq by simp
  then have "of_char (char_of (unat (drop_bit (8 * i) v))) = (of_char (char_of (unat (drop_bit (8 * i) w))) :: nat)"
    using ij(1) by (simp add: word_bytes_def)
  then have "take_bit 8 (unat (drop_bit (8 * i) v)) = take_bit 8 (unat (drop_bit (8 * i) w))"
    by (simp add: take_bit_eq_mod)
  then have "bit (take_bit 8 (unat (drop_bit (8 * i) v))) j = bit (take_bit 8 (unat (drop_bit (8 * i) w))) j" by simp
  with ij show "bit v n = bit w n" by (simp add: bit_take_bit_iff bit_unsigned_iff bit_drop_bit_eq)
qed

text \<open>A library whose hash is the first 16 bytes.\<close>

definition short_ltc :: ltc where
  "short_ltc = plain_ltc\<lparr> hash_memory := (\<lambda>x. Some (take 16 x)) \<rparr>"

lemma short_ltc_ok:
  "ltc_ok short_ltc" "hash_ok short_ltc" "sign_ok short_ltc key" "\<not> s_errno (introduced nm (plain_end nm' key))"
  "know_each_other (introduced ''zed'' (plain_end ''hub'' ''hubkey'')) (introduced ''hub'' (plain_end ''zed'' ''zedkey''))"
proof -
  show "ltc_ok short_ltc" using plain_ok(1) by (simp add: ltc_ok_def short_ltc_def)
  have "take 16 (nonce_raw n) = nonce_raw n" for n using length_nonce_raw [of n] by (simp add: NONCE_LENGTH_def)
  then show "hash_ok short_ltc"
    by (auto simp: hash_ok_def short_ltc_def) (simp add: nonce_raw_def word_bytes_inj)
qed (simp_all add: sign_ok_def short_ltc_def plain_ltc_def introduced_def plain_end_def know_each_other_def upd_crypt_def upd_side_def)

lemma hate_answer_accepted_witness:
  "\<exists>d n A' ans B'. CryptState_generate_hate_challenge short_ltc 3 zero_nonce (introduced ''zed'' (plain_end ''hub'' ''hubkey'')) =
      Some (Inr ((Some d, n), A')) \<and>
    CryptState_answer_hate_challenge short_ltc (Some d) 10 (introduced ''hub'' (plain_end ''zed'' ''zedkey'')) = Some (Inr (Some ans, B')) \<and>
    CryptState_validate_hate_challenge short_ltc (Some ans) n A' = Some (Inr (True, A'))"
  by (rule hate_answer_accepted [OF short_ltc_ok(1,2,3,3,4,4,5)]) simp_all

lemma hate_level_zero_witness:
  "\<exists>d n A'. CryptState_generate_hate_challenge short_ltc 0 zero_nonce (introduced ''zed'' (plain_end ''hub'' ''hubkey'')) =
      Some (Inr ((Some d, n), A')) \<and>
    CryptState_answer_hate_challenge short_ltc (Some d) 10 (introduced ''hub'' (plain_end ''zed'' ''zedkey'')) =
      Some (Inr (None, introduced ''hub'' (plain_end ''zed'' ''zedkey'')))"
  by (rule hate_level_zero [OF short_ltc_ok(1,2,3,4,4,5)]) simp_all

end
