(* ===== verification/Hub.thy ===== *)
theory Hub
  imports Routing Peer
begin

text \<open>
  The state of a hub (\<open>src/hub/hub.h\<close>): the hub itself, its connections, their peers and
  clients, over the stores of members, routes and messages; and what the hub is given from
  outside, collected in the record \<open>henv\<close>.

  Connections, peers and clients are known by allocation numbers. \<open>c_freed\<close> says that
  \<open>recv.hdr\<close> and \<open>recv.body\<close> point to released storage. The tasks of the program run until
  they wait for a socket, a lock or a message; what the other tasks do meanwhile is the
  function \<open>e_yield\<close> of the environment.
\<close>

section \<open>Files\<close>

text \<open>
  The file system as the program asks for it. A failed call sets \<open>errno\<close>, of which only the
  message matters; \<open>f_stale\<close> is the message of an \<open>errno\<close> that was set before.
\<close>

record fsys =
  f_opendir :: "string \<Rightarrow> string + string list"
  f_stat :: "string \<Rightarrow> string + (64 word \<times> 64 word \<times> 64 word)"
  f_fopen :: "string \<Rightarrow> string + string"
  f_stale :: string

section \<open>Connections and hubs\<close>

datatype HubEvent =
  UEv_OPEN | UEv_CLOSE | UEv_KEY_PRESENT | UEv_PASS | UEv_FAIL | UEv_SVC_RECV | UEv_MSG_SENT | UEv_MSG_QUEUED |
  UEv_MSG_RECV | UEv_HATE_APPLY | UEv_HATE_CHALLENGE | UEv_HATE_PAID | UEv_HATE_VALID | UEv_HATE_INVALID | UEv_LISTEN |
  UEv_GEN_KEY | UEv_GEN_KEY_DONE | UEv_KEY_FILE_LOAD | UEv_DONE | UEv_READ_CLOSE | UEv_WRITE_CLOSE

text \<open>The character of an event, which is its first byte on a little-endian machine.\<close>

primrec event_char :: "HubEvent \<Rightarrow> char" where
  "event_char UEv_OPEN = CHR ''O''"
| "event_char UEv_CLOSE = CHR ''C''"
| "event_char UEv_KEY_PRESENT = CHR ''P''"
| "event_char UEv_PASS = CHR ''1''"
| "event_char UEv_FAIL = CHR ''0''"
| "event_char UEv_SVC_RECV = CHR ''s''"
| "event_char UEv_MSG_SENT = CHR ''e''"
| "event_char UEv_MSG_QUEUED = CHR ''Q''"
| "event_char UEv_MSG_RECV = CHR ''R''"
| "event_char UEv_HATE_APPLY = CHR ''H''"
| "event_char UEv_HATE_CHALLENGE = CHR ''h''"
| "event_char UEv_HATE_PAID = CHR ''b''"
| "event_char UEv_HATE_VALID = CHR ''V''"
| "event_char UEv_HATE_INVALID = CHR ''v''"
| "event_char UEv_LISTEN = CHR ''L''"
| "event_char UEv_GEN_KEY = CHR ''K''"
| "event_char UEv_GEN_KEY_DONE = CHR ''k''"
| "event_char UEv_KEY_FILE_LOAD = CHR ''F''"
| "event_char UEv_DONE = CHR ''D''"
| "event_char UEv_READ_CLOSE = CHR ''r''"
| "event_char UEv_WRITE_CLOSE = CHR ''w''"

record ConnectionState =
  c_cs :: nat
  c_recv_count :: "64 word"
  c_send_count :: "64 word"
  c_client :: "nat option"
  c_next :: "nat option"
  c_peer :: "nat option"
  c_member :: "nat option"
  c_lock :: bool
  c_recv_body :: "node option"
  c_recv_hdr :: "node option"
  c_freed :: bool
  c_recv_msg :: "nat option"
  c_send_msg :: "nat option"

record ('b, 'n) hpeer =
  hp_crypt :: CryptState
  hp_source :: "('b, 'n) FrameSource"

text \<open>\<open>h_tasks\<close>: the connections for which a task that sends was started.\<close>

record ('b, 'n) hworld = rworld +
  h_cs :: nat
  h_host :: bstring
  h_port :: bstring
  h_name :: bstring
  h_key :: bstring
  h_server :: bool
  h_members :: "nat list"
  h_closed :: "nat option"
  h_routes :: "nat option"
  h_conns :: "nat \<rightharpoonup> ConnectionState"
  h_peers :: "nat \<rightharpoonup> ('b, 'n) hpeer"
  h_clients :: "nat \<rightharpoonup> int \<times> 'n"
  h_tasks :: "nat list"
  h_prng :: prng_state
  h_fresh :: nat

record ('b, 'n) henv = renv +
  e_tree :: mtree
  e_memcmp :: "string \<Rightarrow> string \<Rightarrow> nat \<Rightarrow> int"
  e_junk :: "nat \<Rightarrow> nat option"
  e_ltc :: ltc
  e_io :: "('b, 'n) io"
  e_fs :: fsys
  e_now :: int
  e_yield :: "('b, 'n) hworld \<Rightarrow> ('b, 'n) hworld res option"
  e_server_create :: bool
  e_server_listen :: "('b, 'n) hworld \<Rightarrow> ('b, 'n) hworld res option"

definition base_env :: "('b, 'n) henv \<Rightarrow> renv" where
  "base_env E = \<lparr> e_sort = e_sort E, e_maddr = e_maddr E, e_raddr = e_raddr E \<rparr>"

section \<open>Steps on the state\<close>

text \<open>The functions of the hub as state transformers that may stop or not return.\<close>

type_synonym ('a, 'b, 'n) hproc = "('b, 'n) hworld \<Rightarrow> ('a \<times> ('b, 'n) hworld) res option"

definition lift_w :: "(('b, 'n) hworld \<Rightarrow> ('a \<times> ('b, 'n) hworld) res) \<Rightarrow> ('a, 'b, 'n) hproc" where
  "lift_w f w = Some (f w)"

definition yield :: "('b, 'n) henv \<Rightarrow> (unit, 'b, 'n) hproc" where
  "yield E w = bind_opt (e_yield E w) (\<lambda>w. Some (Inr ((), w)))"

definition conn :: "nat \<Rightarrow> (ConnectionState, 'b, 'n) hproc" where
  "conn c w = (case h_conns w c of None \<Rightarrow> Some (Inl Dangling) | Some s \<Rightarrow> Some (Inr (s, w)))"

definition set_conn :: "nat \<Rightarrow> (ConnectionState \<Rightarrow> ConnectionState) \<Rightarrow> (unit, 'b, 'n) hproc" where
  "set_conn c f w =
     (case h_conns w c of
        None \<Rightarrow> Some (Inl Dangling)
      | Some s \<Rightarrow> Some (Inr ((), w\<lparr> h_conns := (h_conns w)(c \<mapsto> f s) \<rparr>)))"

definition checkw :: "bool \<Rightarrow> ('a, 'b, 'n) hproc \<Rightarrow> ('a, 'b, 'n) hproc \<Rightarrow> ('a, 'b, 'n) hproc" where
  "checkw T failed k w = (if T \<and> \<not> w_errno w then k w else failed (w\<lparr> w_errno := False \<rparr>))"

definition consw :: "string \<Rightarrow> carg list \<Rightarrow> (node option, 'b, 'n) hproc" where
  "consw format args w =
     (case Node_cons (w_errno w) format args of
        Inl f \<Rightarrow> Some (Inl f)
      | Inr None \<Rightarrow> Some (Inr (None, w\<lparr> w_errno := False \<rparr>))
      | Inr (Some n) \<Rightarrow> Some (Inr (Some n, w)))"

text \<open>A function of the protocol on the peer at \<open>a\<close>: the session it works on is taken from the state and put back.\<close>

definition sess_of :: "('b, 'n) hpeer \<Rightarrow> ('b, 'n) hworld \<Rightarrow> ('b, 'n, ('b, 'n) hworld) sess" where
  "sess_of p w =
     \<lparr> s_crypt = hp_crypt p, s_prng = h_prng w, s_errno = w_errno w, s_source = hp_source p, s_rest = w \<rparr>"

definition put_sess :: "nat \<Rightarrow> ('b, 'n, ('b, 'n) hworld) sess \<Rightarrow> ('b, 'n) hworld" where
  "put_sess a s =
     (s_rest s)\<lparr> h_peers := (h_peers (s_rest s))(a \<mapsto> \<lparr> hp_crypt = s_crypt s, hp_source = s_source s \<rparr>),
       h_prng := s_prng s, w_errno := s_errno s \<rparr>"

definition on_peer :: "nat option \<Rightarrow> ('a, ('b, 'n, ('b, 'n) hworld) sess) proc \<Rightarrow> ('a, 'b, 'n) hproc" where
  "on_peer p m w =
     (case p of
        None \<Rightarrow> Some (Inl AssertFailed)
      | Some a \<Rightarrow>
          (case h_peers w a of
             None \<Rightarrow> Some (Inl Dangling)
           | Some pr \<Rightarrow> bind_opt (m (sess_of pr w)) (\<lambda>(x, s). Some (Inr (x, put_sess a s)))))"

section \<open>Information about files\<close>

text \<open>
  \<open>src/hub/info.c\<close>: the result and the error stored through the second argument. The path is
  used up to its first NUL. \<open>%d\<close> prints the low half of a 64-bit argument as a signed number.
\<close>

definition fmt_d :: "64 word \<Rightarrow> string" where
  "fmt_d w =
     (let i = sint (ucast w :: 32 word)
      in if i < 0 then CHR ''-'' # fmt_u (- i) else fmt_u i)"

primrec list_loop :: "string list \<Rightarrow> string \<Rightarrow> string" where
  "list_loop [] listing = listing"
| "list_loop (d # ds) listing = list_loop ds (listing @ cstr d @ [CHR 0x0A])"

definition Info_list :: "fsys \<Rightarrow> string \<Rightarrow> bool \<Rightarrow> bstring \<times> bstring \<times> bool" where
  "Info_list fs path er =
     (case f_opendir fs (cstr path) of
        Inl e \<Rightarrow> (None, Some (cstr e), False)
      | Inr names \<Rightarrow>
          if er then (None, Some (cstr (f_stale fs)), False)
          else
            let listing = list_loop names []
            in if length listing > 64 * 1024 - 200
               then (Some listing, Some ''Requested listing is larger than allowed message size.'', False)
               else (Some listing, None, False))"

definition Info_tag :: "fsys \<Rightarrow> string \<Rightarrow> bool \<Rightarrow> bstring \<times> bstring \<times> bool" where
  "Info_tag fs path er =
     (case f_stat fs (cstr path) of
        Inl e \<Rightarrow> (None, Some (cstr e), False)
      | Inr (st_ino, st_size, st_mtime) \<Rightarrow>
          if er then (None, Some (cstr (f_stale fs)), False)
          else (Some (fmt_d st_ino @ ''-'' @ fmt_d st_size @ ''-'' @ fmt_d st_mtime), None, False))"

definition Info_get :: "fsys \<Rightarrow> string \<Rightarrow> bool \<Rightarrow> bstring \<times> bstring \<times> bool" where
  "Info_get fs path er =
     (case f_fopen fs (cstr path) of
        Inl e \<Rightarrow> (None, Some (cstr e), False)
      | Inr data \<Rightarrow>
          if er then (None, Some (cstr (f_stale fs)), False)
          else (Some data, None, False))"

definition Info_put :: "string \<Rightarrow> string \<Rightarrow> bstring" where
  "Info_put path data = None"

definition Info_delete :: "string \<Rightarrow> int" where
  "Info_delete path = 1"

end
