(* ===== verification/Commands.thy ===== *)
theory Commands
  imports Hub
begin

text \<open>
  The commands of a hub (\<open>src/hub/commands.c\<close>): the callbacks behind the internal routes, their
  registration, and the dispatch of a received message to a callback or to the members of a
  route.

  Callbacks are known by their position in \<open>callbacks\<close>. A message given to a callback is a
  node with the siblings after it and the nodes above it.
\<close>

section \<open>Answers\<close>

definition send_response :: "('b, 'n) henv \<Rightarrow> nat \<Rightarrow> node option \<Rightarrow> string \<Rightarrow> (unit, 'b, 'n) hproc" where
  "send_response E member response ty =
     bindp (gets w_errno) (\<lambda>er.
     bindp (lift_res (Message_cons er 0 response (Some ty))) (\<lambda>(hdr, body).
     bindp (modify (\<lambda>w. if hdr = None \<or> body = None then w\<lparr> w_errno := False \<rparr> else w)) (\<lambda>_.
     bindp (gets h_fresh) (\<lambda>a.
     bindp (modify (\<lambda>w. w\<lparr> w_msgs := (w_msgs w)(a \<mapsto> Message_alloc (e_now E) hdr body), h_fresh := a + 1 \<rparr>)) (\<lambda>_.
     bindp (lift_w (\<lambda>w. Member_send_msg w (Some member) (Some a))) (\<lambda>_.
     ret ()))))))"

definition extract_message :: "Message \<Rightarrow> cursor option res" where
  "extract_message msg =
     (case m_data msg of
        None \<Rightarrow> Inl NullDeref
      | Some d \<Rightarrow> Inr (case cur_child d of None \<Rightarrow> None | Some c \<Rightarrow> cur_child c))"

section \<open>Callbacks for routes\<close>

type_synonym ('b, 'n) callback = "('b, 'n) henv \<Rightarrow> nat \<Rightarrow> nat \<Rightarrow> cursor \<Rightarrow> (bool, 'b, 'n) hproc"

definition Hub_route_register_cb :: "('b, 'n) callback" where
  "Hub_route_register_cb E c from message =
     lift_w (\<lambda>w. Route_register (base_env E) w (h_routes w) (Some (cu_node message)) from)"

definition Hub_route_unregister_cb :: "('b, 'n) callback" where
  "Hub_route_unregister_cb E c from message =
     lift_w (\<lambda>w. Route_unregister (base_env E) w (h_routes w) (Some (cu_node message)) from)"

definition Member_name :: "nat \<Rightarrow> (bstring, 'b, 'n) hproc" where
  "Member_name m =
     bindp (lift_w (\<lambda>w. with_member w (Some m) (\<lambda>a mb. Inr (mb, w)))) (\<lambda>mb.
     if mb_peer mb = None then crash NullDeref
     else on_peer (mb_peer mb) (gets (\<lambda>s. cp_name (cs_them (s_crypt s)))))"

text \<open>\<open>Node_new_string\<close> under \<open>response\<close>.\<close>

definition Node_new_string :: "node option \<Rightarrow> bstring \<Rightarrow> node option" where
  "Node_new_string response str = map_option (\<lambda>r. attach r (Node_create True (VString str))) response"

primrec members_loop :: "nat list \<Rightarrow> node option \<Rightarrow> (node option, 'b, 'n) hproc" where
  "members_loop [] response = ret response"
| "members_loop (m # ms) response =
     bindp (Member_name m) (\<lambda>nm. members_loop ms (Node_new_string response (bstrcpy nm)))"

primrec children_loop :: "nat list \<Rightarrow> node option \<Rightarrow> (node option, 'b, 'n) hproc" where
  "children_loop [] response = ret response"
| "children_loop (r # rs) response =
     bindp (lift_w (\<lambda>w. with_route w r (\<lambda>rt. Inr (rt, w)))) (\<lambda>rt.
     children_loop rs (Node_new_string response (bstrcpy (rt_name rt))))"

definition nodes_from :: "cursor \<Rightarrow> node list" where
  "nodes_from m = cu_node m # cu_sibs m"

definition dump :: "node option \<Rightarrow> (unit, 'b, 'n) hproc" where
  "dump n = bindp (lift_res (Node_dump (case n of None \<Rightarrow> [] | Some t \<Rightarrow> [t]) True)) (\<lambda>_. ret ())"

definition Hub_route_members_cb :: "('b, 'n) callback" where
  "Hub_route_members_cb E c from message =
     bindp (lift_w (\<lambda>w. Route_find w (h_routes w) (Some (cu_node message)))) (\<lambda>target.
     bindp (lift_res (Node_bstr (nodes_from message) True)) (\<lambda>path.
     bindp (consw ''[b@w'' [CBstr (Some path), CWord (Some ''@path''), CWord (Some ''members'')]) (\<lambda>response.
     bindp (case target of
              Some t \<Rightarrow>
                bindp (lift_w (\<lambda>w. with_route w t (\<lambda>rt. Inr (rt, w)))) (\<lambda>rt.
                members_loop (HEAP_ITERATE (rt_members rt)) response)
            | None \<Rightarrow> ret (Node_new_string response (Some ''Requested route does not exist.''))) (\<lambda>response.
     bindp (dump response) (\<lambda>_.
     bindp (send_response E from response (if target \<noteq> None then ''rpy'' else ''err'')) (\<lambda>_.
     ret True))))))"

definition Hub_route_children_cb :: "('b, 'n) callback" where
  "Hub_route_children_cb E c from message =
     bindp (lift_w (\<lambda>w. Route_find w (h_routes w) (Some (cu_node message)))) (\<lambda>target.
     bindp (lift_res (Node_bstr (nodes_from message) True)) (\<lambda>path.
     bindp (consw ''[b@w'' [CBstr (Some path), CWord (Some ''@path''), CWord (Some ''children'')]) (\<lambda>response.
     bindp (case target of
              Some t \<Rightarrow>
                bindp (lift_w (\<lambda>w. with_route w t (\<lambda>rt. Inr (rt, w)))) (\<lambda>rt.
                children_loop (HEAP_ITERATE (rt_children rt)) response)
            | None \<Rightarrow> ret response) (\<lambda>response.
     bindp (dump response) (\<lambda>_.
     bindp (send_response E from response ''rpy'') (\<lambda>_.
     ret True))))))"

section \<open>Callbacks for members and the system\<close>

definition Hub_member_register_cb :: "('b, 'n) callback" where
  "Hub_member_register_cb E c from message =
     bindp (consw ''[w'' [CWord (Some ''registered'')]) (\<lambda>response.
     bindp (send_response E from response ''rpy'') (\<lambda>_. ret True))"

definition dump_message :: "cursor \<Rightarrow> (unit, 'b, 'n) hproc" where
  "dump_message m = bindp (lift_res (Node_dump (nodes_from m) True)) (\<lambda>_. ret ())"

definition Hub_member_invite_cb :: "('b, 'n) callback" where
  "Hub_member_invite_cb E c from message =
     bindp (consw ''[w'' [CWord (Some ''invited'')]) (\<lambda>response.
     bindp (dump_message message) (\<lambda>_.
     bindp (send_response E from response ''rpy'') (\<lambda>_. ret True)))"

definition Hub_member_mendicate_cb :: "('b, 'n) callback" where
  "Hub_member_mendicate_cb E c from message =
     bindp (consw ''[w'' [CWord (Some ''mendicated'')]) (\<lambda>response.
     bindp (send_response E from response ''rpy'') (\<lambda>_. ret True))"

definition Hub_member_send_cb :: "('b, 'n) callback" where
  "Hub_member_send_cb E c from message =
     bindp (consw ''[w'' [CWord (Some ''sent'')]) (\<lambda>response.
     bindp (dump_message message) (\<lambda>_.
     bindp (send_response E from response ''rpy'') (\<lambda>_. ret True)))"

definition Hub_system_ping_cb :: "('b, 'n) callback" where
  "Hub_system_ping_cb E c from message =
     checkw (nd_type (cu_node message) = TYPE_NUMBER) (ret False) (
     bindp (consw ''[nw'' [CNumber (word_of_int (e_now E) -
         (case nd_value (cu_node message) of VNumber n \<Rightarrow> n | _ \<Rightarrow> 0)), CWord (Some ''pong'')]) (\<lambda>response.
     bindp (send_response E from response ''rpy'') (\<lambda>_.
     ret True)))"

section \<open>Callbacks for files\<close>

definition Hub_info_generic ::
  "('b, 'n) henv \<Rightarrow> cursor \<Rightarrow> nat \<Rightarrow> string \<Rightarrow> (fsys \<Rightarrow> string \<Rightarrow> bool \<Rightarrow> bstring \<times> bstring \<times> bool) \<Rightarrow>
     (bool, 'b, 'n) hproc" where
  "Hub_info_generic E message from operation info_op =
     bindp (gets w_errno) (\<lambda>er.
     bindp (lift_res (Node_decons er (Some message) False ''[sw'' [DStr, DWord ''name''])) (\<lambda>rc.
     bindp (modify (\<lambda>w. if rc = None then w\<lparr> w_errno := False \<rparr> else w)) (\<lambda>_.
     checkw (rc \<noteq> None) (ret False) (
     let info_name = (case rc of Some [OStr s] \<Rightarrow> s | _ \<Rightarrow> None)
     in checkw (blength info_name > 0) (ret False) (
        bindp (\<lambda>w. case info_op (e_fs E) (the info_name) (w_errno w) of
                     (data, error, er) \<Rightarrow> Some (Inr ((data, error), w\<lparr> w_errno := er \<rparr>))) (\<lambda>(data, error).
        bindp (if error = None
               then assertp (data \<noteq> None) (
                    consw ''[[sw[bww'' [CBstr (bstrcpy info_name), CWord (Some ''name''), CBstr data,
                      CWord (Some operation), CWord (Some ''info'')])
               else consw ''[[sw[sww'' [CBstr (bstrcpy info_name), CWord (Some ''name''), CBstr error,
                      CWord (Some ''error''), CWord (Some ''info'')]) (\<lambda>response.
        bindp (send_response E from response (if error \<noteq> None then ''err'' else ''rpy'')) (\<lambda>_.
        ret True))))))))"

definition Hub_info_tag_cb :: "('b, 'n) callback" where
  "Hub_info_tag_cb E c from message = Hub_info_generic E message from ''tag'' Info_tag"

definition Hub_info_get_cb :: "('b, 'n) callback" where
  "Hub_info_get_cb E c from message = Hub_info_generic E message from ''get'' Info_get"

definition Hub_info_list_cb :: "('b, 'n) callback" where
  "Hub_info_list_cb E c from message = Hub_info_generic E message from ''list'' Info_list"

section \<open>Registration and dispatch\<close>

definition callbacks :: "('b, 'n) callback list" where
  "callbacks =
     [Hub_route_register_cb, Hub_route_unregister_cb, Hub_route_members_cb, Hub_route_children_cb,
      Hub_member_register_cb, Hub_member_mendicate_cb, Hub_member_invite_cb, Hub_member_send_cb,
      Hub_info_get_cb, Hub_info_list_cb, Hub_info_tag_cb, Hub_system_ping_cb]"

definition registrations :: "(string \<times> string \<times> nat) list" where
  "registrations =
     [(''register'', ''route'', 0), (''unregister'', ''route'', 1), (''members'', ''route'', 2), (''children'', ''route'', 3),
      (''register'', ''member'', 4), (''mendicate'', ''member'', 5), (''invite'', ''member'', 6), (''send'', ''member'', 7),
      (''get'', ''info'', 8), (''list'', ''info'', 9), (''tag'', ''info'', 10), (''ping'', ''system'', 11)]"

fun register_loop :: "('b, 'n) henv \<Rightarrow> (string \<times> string \<times> nat) list \<Rightarrow> (bool, 'b, 'n) hproc" where
  "register_loop E [] = ret True"
| "register_loop E ((ch, root, cb) # regs) =
     bindp (consw ''[[ww'' [CWord (Some ch), CWord (Some root)]) (\<lambda>node.
     checkw (node \<noteq> None) (ret False) (
     bindp (lift_w (\<lambda>w. Route_register_callback (base_env E) w (h_routes w) node cb)) (\<lambda>rc.
     checkw rc (ret False) (
     bindp (lift_res (destroy_opt node)) (\<lambda>_.
     register_loop E regs)))))"

definition Hub_commands_register :: "('b, 'n) henv \<Rightarrow> (bool, 'b, 'n) hproc" where
  "Hub_commands_register E =
     bindp (gets h_routes) (\<lambda>routes.
     assertp (routes \<noteq> None) (
     register_loop E registrations))"

definition ref_inc :: "nat \<Rightarrow> (unit, 'b, 'n) hproc" where
  "ref_inc a w =
     (case w_msgs w a of
        None \<Rightarrow> Some (Inl Dangling)
      | Some msg \<Rightarrow> Some (Inr ((), w\<lparr> w_msgs := (w_msgs w)(a \<mapsto> Message_ref_inc msg) \<rparr>)))"

definition recv_message :: "nat \<Rightarrow> (nat \<times> Message, 'b, 'n) hproc" where
  "recv_message c =
     bindp (conn c) (\<lambda>s.
     case c_recv_msg s of
       None \<Rightarrow> crash NullDeref
     | Some a \<Rightarrow> bindp (gets w_msgs) (\<lambda>st. case st a of None \<Rightarrow> crash Dangling | Some msg \<Rightarrow> ret (a, msg)))"

definition Hub_service_message :: "('b, 'n) henv \<Rightarrow> nat \<Rightarrow> (bool, 'b, 'n) hproc" where
  "Hub_service_message E c =
     bindp (recv_message c) (\<lambda>(a, msg).
     let failed = bindp (ref_inc a) (\<lambda>_. ret False)
     in bindp (lift_w (\<lambda>w. Route_find w (h_routes w) (map_option cu_node (m_data msg)))) (\<lambda>target.
        checkw (target \<noteq> None) failed (
        bindp (lift_w (\<lambda>w. with_route w (the target) (\<lambda>rt. Inr (rt, w)))) (\<lambda>rt.
        if is_internal_callback rt then
          bindp (lift_res (extract_message msg)) (\<lambda>message.
          checkw (message \<noteq> None) failed (
          case (rt_callback rt, m_from msg) of
            (Some cb, Some from) \<Rightarrow>
              bindp ((callbacks ! cb) E c from (the message)) (\<lambda>rc.
              checkw rc failed (ret True))
          | _ \<Rightarrow> crash NullDeref))
        else
          bindp (lift_w (\<lambda>w. Route_deliver w target (Some a))) (\<lambda>count.
          ret True)))))"

end
