(* ===== verification/Connection.thy ===== *)
theory Connection
  imports Commands Ragel
begin

text \<open>
  The state machine of a connection (\<open>src/hub/connection.c\<close>) and the tasks that drive it
  (\<open>src/hub/connection_state.c\<close>): one reads messages and services them, the other sends what is
  in the queue of the member.

  \<open>ConnectionState_exec\<close> runs actions that run it again: opening a connection runs the reading
  task, and the key agreement asks the machine to confirm a key. Its first argument bounds how
  deep such runs nest; a run that needs more does not return.
\<close>

section \<open>Tables\<close>

definition connection_tables :: ragel_tables where
  "connection_tables = \<lparr>
    r_actions = [
      0, 1, 2, 1, 3, 1, 4, 1, 5, 1, 6, 1, 8, 1, 10, 1, 14, 1, 15, 1, 16, 1, 17, 1, 18, 1,
      19, 1, 20, 1, 21, 2, 0, 1, 2, 12, 20, 2, 13, 8, 3, 11, 9, 7],
    r_key_offsets = [
      0, 0, 1, 4, 7, 10, 13, 18, 19, 20, 22, 24, 24, 26, 27],
    r_trans_keys = [
      79, 80, 114, 119, 49, 114, 119, 49, 114, 119, 49, 114, 119, 72, 81, 82, 114, 119,
      104, 98, 86, 118, 48, 101, 114, 119, 115, 0],
    r_single_lengths = [
      0, 1, 3, 3, 3, 3, 5, 1, 1, 2, 2, 0, 2, 1, 0],
    r_range_lengths = [
      0, 0, 0, 0, 0, 0, 0, 0, 0, 0, 0, 0, 0, 0, 0],
    r_index_offsets = [
      0, 0, 2, 6, 10, 14, 18, 24, 26, 28, 31, 34, 35, 38, 40],
    r_indicies = Some [
      1, 0, 2, 3, 3, 0, 4, 3, 3, 0, 5, 3, 3, 0, 6, 3, 3, 0, 7, 8, 9, 3, 3, 0, 10, 0, 11, 0,
      12, 13, 0, 14, 15, 0, 16, 17, 17, 0, 18, 0, 0, 0],
    r_trans_targs = [
      0, 2, 3, 12, 4, 5, 6, 7, 10, 13, 8, 9, 6, 6, 11, 6, 12, 14, 6],
    r_trans_actions = [
      25, 31, 1, 27, 3, 5, 7, 15, 13, 9, 17, 19, 21, 23, 11, 37, 34, 29, 40] \<rparr>"

definition ConnectionState_start :: nat where "ConnectionState_start = 1"
definition ConnectionState_first_final :: nat where "ConnectionState_first_final = 14"
definition ConnectionState_error :: nat where "ConnectionState_error = 0"
definition ConnectionState_Aborting :: nat where "ConnectionState_Aborting = 11"

section \<open>Small operations\<close>

definition ConnectionState_init :: "nat \<Rightarrow> (int, 'b, 'n) hproc" where
  "ConnectionState_init c =
     bindp (conn c) (\<lambda>s.
     assertp (c_next s = None) (
     bindp (set_conn c (\<lambda>s. s\<lparr> c_cs := ConnectionState_start \<rparr>)) (\<lambda>_.
     ret 1)))"

definition ConnectionState_invariant :: "nat \<Rightarrow> (int, 'b, 'n) hproc" where
  "ConnectionState_invariant c =
     bindp (conn c) (\<lambda>s.
     ret (if c_cs s = ConnectionState_error then -1
          else if c_cs s \<ge> ConnectionState_first_final then 1 else 0))"

definition ConnectionState_done :: "nat \<Rightarrow> (bool, 'b, 'n) hproc" where
  "ConnectionState_done c =
     bindp (conn c) (\<lambda>s. ret (c_cs s = ConnectionState_error \<or> c_cs s = ConnectionState_first_final))"

definition ConnectionState_destroy :: "nat \<Rightarrow> (unit, 'b, 'n) hproc" where
  "ConnectionState_destroy c w =
     (if h_conns w c = None then Some (Inl Dangling)
      else Some (Inr ((), w\<lparr> h_conns := (h_conns w)(c := None) \<rparr>)))"

text \<open>A lock that is held is waited for; if the other tasks never release it, the task never goes on.\<close>

definition ConnectionState_lock :: "('b, 'n) henv \<Rightarrow> nat \<Rightarrow> (unit, 'b, 'n) hproc" where
  "ConnectionState_lock E c =
     bindp (conn c) (\<lambda>s.
     bindp (if c_lock s then yield E else ret ()) (\<lambda>_.
     bindp (conn c) (\<lambda>s.
     if c_lock s then (\<lambda>w. None) else set_conn c (\<lambda>s. s\<lparr> c_lock := True \<rparr>))))"

definition ConnectionState_unlock :: "('b, 'n) henv \<Rightarrow> nat \<Rightarrow> (unit, 'b, 'n) hproc" where
  "ConnectionState_unlock E c =
     bindp (set_conn c (\<lambda>s. s\<lparr> c_lock := False \<rparr>)) (\<lambda>_. yield E)"

section \<open>Closing\<close>

definition Member_logout :: "('b, 'n) henv \<Rightarrow> nat option \<Rightarrow> (unit, 'b, 'n) hproc" where
  "Member_logout E member =
     bindp (gets h_members) (\<lambda>mmap.
     bindp (lift_w (\<lambda>w. bind_res (Member_logout_begin w mmap member) (\<lambda>w. Inr ((), w)))) (\<lambda>_.
     bindp (yield E) (\<lambda>_ w.
     bind_opt (Member_logout_end (e_tree E) (e_memcmp E) w (h_members w) (the member)) (\<lambda>(mmap, w).
     Some (Inr ((), w\<lparr> h_members := mmap \<rparr>))))))"

definition server_destroy_client :: "nat \<Rightarrow> (unit, 'b, 'n) hproc" where
  "server_destroy_client cl w =
     (if h_clients w cl = None then Some (Inl Dangling)
      else Some (Inr ((), w\<lparr> h_clients := (h_clients w)(cl := None) \<rparr>)))"

definition ConnectionState_half_close :: "('b, 'n) henv \<Rightarrow> nat \<Rightarrow> (bool, 'b, 'n) hproc" where
  "ConnectionState_half_close E c =
     bindp (conn c) (\<lambda>s.
     case c_client s of
       None \<Rightarrow> ret False
     | Some cl \<Rightarrow>
         bindp (server_destroy_client cl) (\<lambda>_.
         bindp (set_conn c (\<lambda>s. s\<lparr> c_client := None \<rparr>)) (\<lambda>_.
         bindp (case c_member s of
                  None \<Rightarrow> ret ()
                | Some m \<Rightarrow>
                    bindp (lift_w (\<lambda>w. bind_res (Route_unregister_all (base_env E) w (h_routes w) (Some m)) (\<lambda>w. Inr ((), w)))) (\<lambda>_.
                    Member_logout E (Some m))) (\<lambda>_.
         bindp (set_conn c (\<lambda>s. s\<lparr> c_member := None \<rparr>)) (\<lambda>_.
         ret True)))))"

definition ConnectionState_rest_close :: "nat \<Rightarrow> (bool, 'b, 'n) hproc" where
  "ConnectionState_rest_close c =
     bindp (conn c) (\<lambda>s.
     assertp (c_client s = None) (
     bindp (gets h_closed) (\<lambda>closed.
     if closed \<noteq> Some c then
       bindp (set_conn c (\<lambda>s. s\<lparr> c_next := closed \<rparr>)) (\<lambda>_.
       bindp (modify (\<lambda>w. w\<lparr> h_closed := Some c \<rparr>)) (\<lambda>_.
       ret True))
     else ret False)))"

section \<open>Messages\<close>

definition ConnectionState_read_msg :: "('b, 'n) henv \<Rightarrow> nat \<Rightarrow> (bool, 'b, 'n) hproc" where
  "ConnectionState_read_msg E c =
     bindp (ConnectionState_done c) (\<lambda>fin.
     bindp (conn c) (\<lambda>s.
     if fin \<or> c_client s = None then ret False
     else case c_member s of
       None \<Rightarrow> crash NullDeref
     | Some m \<Rightarrow>
         bindp (lift_w (\<lambda>w. with_member w (Some m) (\<lambda>a mb. Inr (mb_peer mb, w)))) (\<lambda>peer.
         bindp (on_peer peer (Peer_recv (e_ltc E) (e_io E))) (\<lambda>(body, hdr).
         bindp (yield E) (\<lambda>_.
         bindp (set_conn c (\<lambda>s. s\<lparr> c_recv_body := body, c_recv_hdr := hdr, c_freed := False \<rparr>)) (\<lambda>_.
         ret (body \<noteq> None)))))))"

definition ConnectionState_dequeue_msg :: "('b, 'n) henv \<Rightarrow> nat \<Rightarrow> (bool, 'b, 'n) hproc" where
  "ConnectionState_dequeue_msg E c =
     bindp (ConnectionState_done c) (\<lambda>fin.
     if fin then ret False
     else
       bindp (conn c) (\<lambda>s.
       bindp (lift_w (\<lambda>w. bind_res (Member_first_msg w (c_member s)) (\<lambda>f. Inr (f, w)))) (\<lambda>f.
       bindp (case f of
                Returns msg \<Rightarrow> ret msg
              | Sleeps \<Rightarrow>
                  bindp (yield E) (\<lambda>_.
                  lift_w (\<lambda>w. with_member w (c_member s) (\<lambda>a mb. Inr (MsgQueue_first_woken (mb_queue mb), w))))) (\<lambda>msg.
       bindp (set_conn c (\<lambda>s. s\<lparr> c_send_msg := msg \<rparr>)) (\<lambda>_.
       ret (msg \<noteq> None))))))"

definition ConnectionState_send_msg :: "('b, 'n) henv \<Rightarrow> nat \<Rightarrow> (bool, 'b, 'n) hproc" where
  "ConnectionState_send_msg E c =
     bindp (ConnectionState_done c) (\<lambda>fin.
     bindp (conn c) (\<lambda>s.
     if fin then ret False
     else
       bindp (consw ''[nw'' [CNumber (c_send_count s), CWord (Some ''header'')]) (\<lambda>hdr.
       bindp (set_conn c (\<lambda>s. s\<lparr> c_send_count := c_send_count s + 1 \<rparr>)) (\<lambda>_.
       case (c_member s, c_send_msg s) of
         (Some m, Some a) \<Rightarrow>
           bindp (lift_w (\<lambda>w. with_member w (Some m) (\<lambda>a mb. Inr (mb_peer mb, w)))) (\<lambda>peer.
           bindp (gets w_msgs) (\<lambda>st.
           case st a of
             None \<Rightarrow> crash Dangling
           | Some msg \<Rightarrow>
               bindp (on_peer peer (Peer_send (e_ltc E) (e_io E) hdr (m_body msg))) (\<lambda>rc.
               bindp (yield E) (\<lambda>_.
               bindp (lift_res (destroy_opt hdr)) (\<lambda>_.
               ret rc)))))
       | _ \<Rightarrow> crash NullDeref))))"

text \<open>
  The two tasks. \<open>ex\<close> runs the machine. A task that sends leaves its loop with the lock held
  when sending fails.
\<close>

lemma bind_opt_bind: "bind_opt m g = Option.bind m (\<lambda>r. case r of Inl e \<Rightarrow> Some (Inl e) | Inr x \<Rightarrow> g x)"
  by (cases m) (auto simp: bind_opt_def split: sum.split)

lemma bind_opt_mono [partial_function_mono]:
  assumes "mono_option B" "\<And>y. mono_option (\<lambda>f. C y f)"
  shows "mono_option (\<lambda>f. bind_opt (B f) (\<lambda>y. C y f))"
proof -
  have "mono_option (\<lambda>f. case r of Inl e \<Rightarrow> Some (Inl e) | Inr x \<Rightarrow> C x f)" for r
    using assms(2) by (cases r) (simp_all add: option.const_mono)
  then show ?thesis unfolding bind_opt_bind by (rule bind_mono [OF assms(1)])
qed

partial_function (option) incoming_loop ::
  "(nat \<Rightarrow> HubEvent \<Rightarrow> (int, 'b, 'n) hproc) \<Rightarrow> ('b, 'n) henv \<Rightarrow> nat \<Rightarrow> ('b, 'n) hworld \<Rightarrow> (unit \<times> ('b, 'n) hworld) res option" where
  "incoming_loop ex E c w =
     bind_opt (ConnectionState_read_msg E c w) (\<lambda>(rc, w).
     if \<not> rc then Some (Inr ((), w))
     else
       bind_opt (ConnectionState_lock E c w) (\<lambda>(_, w).
       bind_opt (ex c UEv_MSG_RECV w) (\<lambda>(r, w).
       bind_opt (bindp (conn c) (\<lambda>s.
         if r = 0 \<and> c_recv_msg s \<noteq> None then bindp (ex c UEv_SVC_RECV) (\<lambda>_. ret ()) else ret ()) w) (\<lambda>(_, w).
       bind_opt (ConnectionState_unlock E c w) (\<lambda>(_, w).
       incoming_loop ex E c w)))))"

definition ConnectionState_incoming ::
  "(nat \<Rightarrow> HubEvent \<Rightarrow> (int, 'b, 'n) hproc) \<Rightarrow> ('b, 'n) henv \<Rightarrow> nat \<Rightarrow> (unit, 'b, 'n) hproc" where
  "ConnectionState_incoming ex E c =
     bindp (ex c UEv_KEY_PRESENT) (\<lambda>_.
     bindp (ex c UEv_PASS) (\<lambda>_.
     bindp (ex c UEv_PASS) (\<lambda>_.
     bindp (incoming_loop ex E c) (\<lambda>_.
     bindp (ex c UEv_READ_CLOSE) (\<lambda>_.
     ret ())))))"

partial_function (option) outgoing_loop ::
  "(nat \<Rightarrow> HubEvent \<Rightarrow> (int, 'b, 'n) hproc) \<Rightarrow> ('b, 'n) henv \<Rightarrow> nat \<Rightarrow> ('b, 'n) hworld \<Rightarrow> (unit \<times> ('b, 'n) hworld) res option" where
  "outgoing_loop ex E c w =
     bind_opt (ConnectionState_dequeue_msg E c w) (\<lambda>(rc, w).
     if \<not> rc then Some (Inr ((), w))
     else
       bind_opt (ConnectionState_lock E c w) (\<lambda>(_, w).
       bind_opt (ex c UEv_MSG_QUEUED w) (\<lambda>(r, w).
       bind_opt (if r = 0 then
                   bindp (ConnectionState_send_msg E c) (\<lambda>rc.
                   bindp (ex c (if rc then UEv_MSG_SENT else UEv_FAIL)) (\<lambda>_.
                   ret rc)) w
                 else ret True w) (\<lambda>(go_on, w).
       if \<not> go_on then Some (Inr ((), w))
       else
         bind_opt (ConnectionState_unlock E c w) (\<lambda>(_, w).
         outgoing_loop ex E c w)))))"

definition ConnectionState_outgoing ::
  "(nat \<Rightarrow> HubEvent \<Rightarrow> (int, 'b, 'n) hproc) \<Rightarrow> ('b, 'n) henv \<Rightarrow> nat \<Rightarrow> (unit, 'b, 'n) hproc" where
  "ConnectionState_outgoing ex E c =
     bindp (outgoing_loop ex E c) (\<lambda>_.
     bindp (ex c UEv_WRITE_CLOSE) (\<lambda>_.
     ret ()))"

section \<open>Actions\<close>

text \<open>
  The peer at \<open>a\<close> asks whether the key it received is right. The state it is asked for is
  the one that received the key.
\<close>

definition ConnectionState_confirm_key ::
  "(nat \<Rightarrow> HubEvent \<Rightarrow> (int, 'b, 'n) hproc) \<Rightarrow> nat \<Rightarrow> ('b, 'n) hworld confirm" where
  "ConnectionState_confirm_key ex a C er w =
     (case cs_data C of
        None \<Rightarrow> Some (Inl NullDeref)
      | Some c \<Rightarrow>
          bind_opt (ex c UEv_PASS (w\<lparr> w_errno := er, h_peers := (h_peers w)(a := map_option (\<lambda>p. p\<lparr> hp_crypt := C \<rparr>) (h_peers w a)) \<rparr>))
            (\<lambda>(r, w). Some (Inr (r = 0, w_errno w, w))))"

text \<open>\<open>fgoto Aborting\<close>.\<close>

definition abort :: "nat \<Rightarrow> (ctl, 'b, 'n) hproc" where
  "abort c = bindp (set_conn c (\<lambda>s. s\<lparr> c_cs := ConnectionState_Aborting \<rparr>)) (\<lambda>_. ret Goto_again)"

definition act_begin :: "nat \<Rightarrow> (ctl, 'b, 'n) hproc" where
  "act_begin c =
     bindp (set_conn c (\<lambda>s. s\<lparr> c_recv_count := 1, c_send_count := 1, c_lock := False, c_next := None \<rparr>)) (\<lambda>_. ret Next_action)"

definition zero_sess :: "('b, 'n) henv \<Rightarrow> 'n \<Rightarrow> ('b, 'n) hworld \<Rightarrow> ('b, 'n, ('b, 'n) hworld) sess" where
  "zero_sess E sock w =
     \<lparr> s_crypt = \<lparr> cs_me = zero_peer (e_ltc E), cs_them = zero_peer (e_ltc E), cs_data = None, cs_shared = zero_skey (e_ltc E) \<rparr>,
       s_prng = h_prng w, s_errno = w_errno w,
       s_source = \<lparr> fs_out = sbuf_create (e_io E) 0, fs_in = sbuf_create (e_io E) 0, fs_fd = sock \<rparr>, s_rest = w \<rparr>"

definition act_key_prep :: "('b, 'n) henv \<Rightarrow> nat \<Rightarrow> (ctl, 'b, 'n) hproc" where
  "act_key_prep E c =
     bindp (conn c) (\<lambda>s.
     bindp (gets (\<lambda>w. (h_name w, h_key w, h_fresh w))) (\<lambda>(name, key, a).
     bindp (gets h_clients) (\<lambda>clients.
     case c_client s of
       None \<Rightarrow> crash NullDeref
     | Some cl \<Rightarrow>
         (case clients cl of
            None \<Rightarrow> crash Dangling
          | Some (fd, sock) \<Rightarrow>
              bindp (\<lambda>w. bind_opt (bindp (CryptState_create (e_ltc E) name key) (\<lambda>_.
                  bindp (modify (upd_crypt (\<lambda>st. st\<lparr> cs_data := Some c \<rparr>))) (\<lambda>_.
                  Peer_create (e_io E) sock fd)) (zero_sess E sock w))
                (\<lambda>(_, s). Some (Inr ((), (put_sess a s)\<lparr> h_fresh := a + 1 \<rparr>)))) (\<lambda>_.
              bindp (set_conn c (\<lambda>s. s\<lparr> c_peer := Some a \<rparr>)) (\<lambda>_.
              ret Next_action))))))"

definition act_tune :: "(nat \<Rightarrow> HubEvent \<Rightarrow> (int, 'b, 'n) hproc) \<Rightarrow> ('b, 'n) henv \<Rightarrow> nat \<Rightarrow> (ctl, 'b, 'n) hproc" where
  "act_tune ex E c =
     bindp (conn c) (\<lambda>s.
     case c_peer s of
       None \<Rightarrow> crash AssertFailed
     | Some a \<Rightarrow>
         bindp (on_peer (Some a) (Peer_establish_receiver (e_ltc E) (e_io E) (ConnectionState_confirm_key ex a))) (\<lambda>rc.
         bindp (yield E) (\<lambda>_.
         if rc then ret Next_action else abort c)))"

definition act_register :: "('b, 'n) henv \<Rightarrow> nat \<Rightarrow> (ctl, 'b, 'n) hproc" where
  "act_register E c =
     bindp (conn c) (\<lambda>s.
     bindp (on_peer (c_peer s) (CryptState_export_key (e_ltc E) CRYPT_THEIR_KEY PK_PUBLIC)) (\<lambda>key.
     bindp (gets h_fresh) (\<lambda>a.
     bindp (\<lambda>w. bind_opt (Member_login (e_tree E) (e_memcmp E) (e_junk E) w (h_members w) a (c_peer s) key)
         (\<lambda>(member, mmap, w). Some (Inr (member, w\<lparr> h_members := mmap, h_fresh := a + 1 \<rparr>)))) (\<lambda>member.
     bindp (set_conn c (\<lambda>s. s\<lparr> c_member := member \<rparr>)) (\<lambda>_.
     if member = None then abort c else ret Next_action)))))"

definition act_established :: "nat \<Rightarrow> (ctl, 'b, 'n) hproc" where
  "act_established c = bindp (modify (\<lambda>w. w\<lparr> h_tasks := h_tasks w @ [c] \<rparr>)) (\<lambda>_. ret Next_action)"

definition act_recv :: "('b, 'n) henv \<Rightarrow> nat \<Rightarrow> (ctl, 'b, 'n) hproc" where
  "act_recv E c =
     bindp (conn c) (\<lambda>s.
     if c_recv_hdr s = None \<or> c_recv_body s = None then abort c
     else if c_freed s then crash Dangling
     else
       bindp (gets w_errno) (\<lambda>er.
       bindp (lift_res (Message_decons er (e_now E) (c_recv_hdr s) (c_recv_body s))) (\<lambda>d.
       bindp (modify (\<lambda>w. w\<lparr> w_errno := False \<rparr>)) (\<lambda>_.
       bindp (gets h_fresh) (\<lambda>a.
       case d of
         DeconsFail freed \<Rightarrow>
           bindp (set_conn c (\<lambda>s. s\<lparr> c_recv_msg := None, c_freed := True \<rparr>)) (\<lambda>_. abort c)
       | DeconsOk msg \<Rightarrow>
           bindp (modify (\<lambda>w. w\<lparr> w_msgs := (w_msgs w)(a \<mapsto> msg\<lparr> m_from := c_member s \<rparr>), h_fresh := a + 1 \<rparr>)) (\<lambda>_.
           bindp (set_conn c (\<lambda>s. s\<lparr> c_recv_msg := Some a \<rparr>)) (\<lambda>_.
           ret Next_action)))))))"

definition act_clear_recv :: "nat \<Rightarrow> (ctl, 'b, 'n) hproc" where
  "act_clear_recv c =
     bindp (set_conn c (\<lambda>s. s\<lparr> c_recv_msg := None, c_recv_hdr := None, c_recv_body := None, c_freed := False \<rparr>)) (\<lambda>_. ret Next_action)"

definition act_clear_send :: "nat \<Rightarrow> (ctl, 'b, 'n) hproc" where
  "act_clear_send c = bindp (set_conn c (\<lambda>s. s\<lparr> c_send_msg := None \<rparr>)) (\<lambda>_. ret Next_action)"

definition act_service :: "('b, 'n) henv \<Rightarrow> nat \<Rightarrow> (ctl, 'b, 'n) hproc" where
  "act_service E c = bindp (Hub_service_message E c) (\<lambda>rc. if rc then ret Next_action else abort c)"

definition act_msgid_check :: "nat \<Rightarrow> (ctl, 'b, 'n) hproc" where
  "act_msgid_check c =
     bindp (recv_message c) (\<lambda>(a, msg).
     bindp (conn c) (\<lambda>s.
     if msgid msg \<noteq> c_recv_count s then bindp (ref_inc a) (\<lambda>_. abort c)
     else bindp (set_conn c (\<lambda>s. s\<lparr> c_recv_count := c_recv_count s + 1 \<rparr>)) (\<lambda>_. ret Next_action)))"

definition act_sent :: "nat \<Rightarrow> (ctl, 'b, 'n) hproc" where
  "act_sent c =
     bindp (conn c) (\<lambda>s.
     bindp (lift_w (\<lambda>w. Member_delete_msg w (c_member s))) (\<lambda>_.
     ret Next_action))"

definition act_half_close :: "('b, 'n) henv \<Rightarrow> nat \<Rightarrow> (ctl, 'b, 'n) hproc" where
  "act_half_close E c = bindp (ConnectionState_half_close E c) (\<lambda>_. ret Next_action)"

definition act_rest_close :: "nat \<Rightarrow> (ctl, 'b, 'n) hproc" where
  "act_rest_close c = bindp (ConnectionState_rest_close c) (\<lambda>_. ret Next_action)"

definition act_error :: "('b, 'n) henv \<Rightarrow> nat \<Rightarrow> (ctl, 'b, 'n) hproc" where
  "act_error E c =
     bindp (ConnectionState_half_close E c) (\<lambda>_.
     bindp (ConnectionState_rest_close c) (\<lambda>_.
     ret Next_action))"

text \<open>The \<open>switch\<close>; the actions left out only write to the log.\<close>

definition connection_action ::
  "(nat \<Rightarrow> HubEvent \<Rightarrow> (int, 'b, 'n) hproc) \<Rightarrow> ('b, 'n) henv \<Rightarrow> nat \<Rightarrow> nat \<Rightarrow> (ctl, 'b, 'n) hproc" where
  "connection_action ex E c a =
     (if a = 0 then act_begin c
      else if a = 1 then bindp (ConnectionState_incoming ex E c) (\<lambda>_. ret Next_action)
      else if a = 2 then act_key_prep E c
      else if a = 3 then act_tune ex E c
      else if a = 4 then act_register E c
      else if a = 5 then act_established c
      else if a = 6 then act_recv E c
      else if a = 7 then act_clear_recv c
      else if a = 8 then act_clear_send c
      else if a = 9 then act_service E c
      else if a = 11 then act_msgid_check c
      else if a = 13 then act_sent c
      else if a = 19 then act_error E c
      else if a = 20 then act_half_close E c
      else if a = 21 then act_rest_close c
      else ret Next_action)"

fun run_acts :: "(nat \<Rightarrow> (ctl, 'b, 'n) hproc) \<Rightarrow> nat list \<Rightarrow> (unit, 'b, 'n) hproc" where
  "run_acts act [] = ret ()"
| "run_acts act (a # as) =
     bindp (act a) (\<lambda>k. if k = Next_action then run_acts act as else ret ())"

section \<open>The machine\<close>

fun ConnectionState_exec :: "nat \<Rightarrow> ('b, 'n) henv \<Rightarrow> nat \<Rightarrow> HubEvent \<Rightarrow> (int, 'b, 'n) hproc" where
  "ConnectionState_exec 0 E c event = (\<lambda>w. None)"
| "ConnectionState_exec (Suc n) E c event =
     bindp (ConnectionState_done c) (\<lambda>fin.
     if fin then ret (-1)
     else
       bindp (conn c) (\<lambda>s.
       case ragel_next connection_tables (c_cs s) (schar (event_char event)) of
         (targ, acts) \<Rightarrow>
           bindp (set_conn c (\<lambda>s. s\<lparr> c_cs := targ \<rparr>)) (\<lambda>_.
           bindp (run_acts (connection_action (ConnectionState_exec n E) E c) acts) (\<lambda>_.
           ConnectionState_invariant c))))"

definition ConnectionState_finish :: "('b, 'n) henv \<Rightarrow> nat \<Rightarrow> (int, 'b, 'n) hproc" where
  "ConnectionState_finish E c =
     bindp (ConnectionState_invariant c) (\<lambda>rc.
     bindp (conn c) (\<lambda>s.
     bindp (case c_recv_msg s of
              Some a \<Rightarrow> lift_w (\<lambda>w. bind_res (Message_destroy (w_msgs w) (Some a)) (\<lambda>st. Inr ((), w\<lparr> w_msgs := st \<rparr>)))
            | None \<Rightarrow>
                if c_freed s \<and> (c_recv_body s \<noteq> None \<or> c_recv_hdr s \<noteq> None) then crash Dangling
                else
                  bindp (lift_res (destroy_opt (c_recv_body s))) (\<lambda>_.
                  bindp (lift_res (destroy_opt (c_recv_hdr s))) (\<lambda>_. ret ()))) (\<lambda>_.
     bindp (case c_send_msg s of
              Some a \<Rightarrow> lift_w (\<lambda>w. bind_res (Message_destroy (w_msgs w) (Some a)) (\<lambda>st. Inr ((), w\<lparr> w_msgs := st \<rparr>)))
            | None \<Rightarrow> ret ()) (\<lambda>_.
     bindp (set_conn c (\<lambda>s. s\<lparr> c_recv_msg := None, c_recv_hdr := None, c_recv_body := None, c_freed := False, c_send_msg := None \<rparr>)) (\<lambda>_.
     bindp (case c_peer s of
              Some a \<Rightarrow>
                bindp (on_peer (Some a) (Peer_destroy (e_ltc E) True)) (\<lambda>_.
                modify (\<lambda>w. w\<lparr> h_peers := (h_peers w)(a := None) \<rparr>))
            | None \<Rightarrow> ret ()) (\<lambda>_.
     bindp (set_conn c (\<lambda>s. s\<lparr> c_peer := None \<rparr>)) (\<lambda>_.
     ret rc)))))))"

end
