(* ===== verification/HubMachine.thy ===== *)
theory HubMachine
  imports Connection
begin

text \<open>
  The state machine of the hub (\<open>src/hub/hub.c\<close>) and the functions around it
  (\<open>src/hub/hub_state.c\<close>): making a hub, its keys and its server, taking in a connection and
  destroying the hub.

  The server is a part of the task library: \<open>e_server_create\<close> says whether it could be made,
  \<open>e_server_listen\<close> is what happens until it stops listening.
\<close>

section \<open>Tables\<close>

definition hub_tables :: ragel_tables where
  "hub_tables = \<lparr>
    r_actions = [
      0, 1, 1, 1, 2, 1, 3, 1, 5, 1, 6, 1, 7, 2, 0, 4, 2, 0, 5],
    r_key_offsets = [
      0, 0, 2, 4, 7, 8],
    r_trans_keys = [
      70, 75, 68, 76, 67, 68, 79, 107, 0],
    r_single_lengths = [
      0, 2, 2, 3, 1, 0],
    r_range_lengths = [
      0, 0, 0, 0, 0, 0],
    r_index_offsets = [
      0, 0, 3, 6, 10, 12],
    r_indicies = None,
    r_trans_targs = [
      2, 4, 0, 5, 3, 0, 3, 5, 3, 0, 2, 0, 0, 0],
    r_trans_actions = [
      16, 13, 3, 1, 5, 3, 9, 1, 11, 3, 7, 3, 0, 0] \<rparr>"

definition Hub_start :: nat where "Hub_start = 1"
definition Hub_first_final :: nat where "Hub_first_final = 5"
definition Hub_error :: nat where "Hub_error = 0"

section \<open>Actions\<close>

text \<open>The list of closed connections is followed and its elements are freed.\<close>

partial_function (option) destroy_closed ::
  "nat option \<Rightarrow> ('b, 'n) hworld \<Rightarrow> (unit \<times> ('b, 'n) hworld) res option" where
  "destroy_closed i w =
     (case i of
        None \<Rightarrow> Some (Inr ((), w))
      | Some c \<Rightarrow>
          bind_opt (conn c w) (\<lambda>(s, w).
          bind_opt (ConnectionState_destroy c w) (\<lambda>(_, w).
          destroy_closed (c_next s) w)))"

text \<open>
  \<open>cleanup\<close> destroys the name, the key and either the server, which has the host, or the host.
\<close>

definition act_cleanup :: "(unit, 'b, 'n) hproc" where
  "act_cleanup =
     bindp (modify (\<lambda>w. w\<lparr> h_name := None, h_key := None, h_server := False, h_host := None \<rparr>)) (\<lambda>_.
     bindp (gets h_closed) (\<lambda>closed.
     destroy_closed closed))"

definition act_listen :: "('b, 'n) henv \<Rightarrow> (unit, 'b, 'n) hproc" where
  "act_listen E w = bind_opt (e_server_listen E w) (\<lambda>w. Some (Inr ((), w)))"

definition act_gen_key :: "('b, 'n) henv \<Rightarrow> 'n \<Rightarrow> (unit, 'b, 'n) hproc" where
  "act_gen_key E sock w =
     bind_opt (bindp (CryptState_create (e_ltc E) (h_name w) (h_key w)) (\<lambda>_.
         bindp (CryptState_export_key (e_ltc E) CRYPT_MY_KEY PK_PRIVATE) (\<lambda>key.
         bindp (CryptState_destroy (e_ltc E)) (\<lambda>_.
         ret key))) (zero_sess E sock w))
       (\<lambda>(key, s). Some (Inr ((), (s_rest s)\<lparr> h_key := key, h_prng := s_prng s, w_errno := s_errno s \<rparr>)))"

definition act_keys_ready :: "('b, 'n) henv \<Rightarrow> (unit, 'b, 'n) hproc" where
  "act_keys_ready E =
     (if e_server_create E then modify (\<lambda>w. w\<lparr> h_server := True \<rparr>) else crash NullDeref)"

definition act_close :: "('b, 'n) henv \<Rightarrow> (unit, 'b, 'n) hproc" where
  "act_close E =
     bindp (gets h_closed) (\<lambda>closed.
     case closed of
       None \<Rightarrow> crash AssertFailed
     | Some c \<Rightarrow> bindp (ConnectionState_finish E c) (\<lambda>_. ret ()))"

definition hub_action :: "('b, 'n) henv \<Rightarrow> 'n \<Rightarrow> nat \<Rightarrow> (ctl, 'b, 'n) hproc" where
  "hub_action E sock a =
     bindp (if a = 1 then act_cleanup
            else if a = 3 then act_listen E
            else if a = 4 then act_gen_key E sock
            else if a = 5 then act_keys_ready E
            else if a = 6 then act_close E
            else ret ()) (\<lambda>_. ret Next_action)"

section \<open>The machine\<close>

definition Hub_invariant :: "(int, 'b, 'n) hproc" where
  "Hub_invariant =
     bindp (gets h_cs) (\<lambda>cs. ret (if cs = Hub_error then -1 else if cs \<ge> Hub_first_final then 1 else 0))"

text \<open>
  \<open>sock\<close> stands for the storage of a socket in a state that has none; no function of the
  key generation looks at it.
\<close>

definition Hub_exec :: "('b, 'n) henv \<Rightarrow> 'n \<Rightarrow> HubEvent \<Rightarrow> (int, 'b, 'n) hproc" where
  "Hub_exec E sock event =
     bindp (gets h_cs) (\<lambda>cs.
     if cs = 0 then Hub_invariant
     else case ragel_next hub_tables cs (schar (event_char event)) of
            (targ, acts) \<Rightarrow>
              bindp (modify (\<lambda>w. w\<lparr> h_cs := targ \<rparr>)) (\<lambda>_.
              bindp (run_acts (hub_action E sock) acts) (\<lambda>_.
              Hub_invariant)))"

definition Hub_destroy :: "('b, 'n) henv \<Rightarrow> 'n \<Rightarrow> (int, 'b, 'n) hproc" where
  "Hub_destroy E sock =
     bindp (Hub_exec E sock UEv_DONE) (\<lambda>_.
     bindp (Hub_invariant) (\<lambda>rc.
     bindp (\<lambda>w. case h_routes w of
                  None \<Rightarrow> Some (Inl AssertFailed)
                | Some r \<Rightarrow> bind_opt (Route_destroy w r) (\<lambda>w. Some (Inr ((), w)))) (\<lambda>_.
     bindp (modify (\<lambda>w. w\<lparr> w_errno := False \<rparr>)) (\<lambda>_.
     ret rc))))"

text \<open>\<open>Hub_create\<close> fills a hub of zeros; the result says whether it returned the hub.\<close>

definition Hub_create :: "('b, 'n) henv \<Rightarrow> 'n \<Rightarrow> bstring \<Rightarrow> bstring \<Rightarrow> bstring \<Rightarrow> bstring \<Rightarrow> (bool, 'b, 'n) hproc" where
  "Hub_create E sock host port name key =
     assertp (host \<noteq> None) (
     assertp (port \<noteq> None) (
     assertp (name \<noteq> None) (
     bindp (modify (\<lambda>w. w\<lparr> h_cs := 0, h_host := host, h_port := port, h_name := name, h_key := None, h_server := False,
       h_members := [], h_closed := None, h_routes := None \<rparr>)) (\<lambda>_.
     bindp (lift_w (\<lambda>w. Route_create_root (base_env E) w (Some ''root''))) (\<lambda>r.
     bindp (modify (\<lambda>w. w\<lparr> h_routes := Some r \<rparr>)) (\<lambda>_.
     bindp (Hub_commands_register E) (\<lambda>_.
     bindp (modify (\<lambda>w. w\<lparr> h_cs := Hub_start \<rparr>)) (\<lambda>_.
     let failed = bindp (Hub_destroy E sock) (\<lambda>_. ret False)
     in if key = None then
          bindp (Hub_exec E sock UEv_GEN_KEY) (\<lambda>rc.
          checkw (rc = 0) failed (
          bindp (Hub_exec E sock UEv_GEN_KEY_DONE) (\<lambda>rc.
          checkw (rc = 0) failed (
          ret True))))
        else
          bindp (Hub_exec E sock UEv_KEY_FILE_LOAD) (\<lambda>rc.
          checkw (rc = 0) failed (
          bindp (modify (\<lambda>w. w\<lparr> h_key := key \<rparr>)) (\<lambda>_.
          ret True)))))))))))"

definition Hub_listen :: "('b, 'n) henv \<Rightarrow> 'n \<Rightarrow> (unit, 'b, 'n) hproc" where
  "Hub_listen E sock = bindp (Hub_exec E sock UEv_LISTEN) (\<lambda>_. ret ())"

section \<open>Connections\<close>

definition zero_connection :: ConnectionState where
  "zero_connection =
     \<lparr> c_cs = 0, c_recv_count = 0, c_send_count = 0, c_client = None, c_next = None, c_peer = None, c_member = None,
       c_lock = False, c_recv_body = None, c_recv_hdr = None, c_freed = False, c_recv_msg = None, c_send_msg = None \<rparr>"

text \<open>The first of the closed connections is taken off its list and cleared, or a new one is made.\<close>

definition Hub_new_or_reuse_conn :: "(nat, 'b, 'n) hproc" where
  "Hub_new_or_reuse_conn =
     bindp (gets h_closed) (\<lambda>closed.
     case closed of
       Some c \<Rightarrow>
         bindp (conn c) (\<lambda>s.
         bindp (modify (\<lambda>w. w\<lparr> h_closed := c_next s \<rparr>)) (\<lambda>_.
         bindp (set_conn c (\<lambda>_. zero_connection)) (\<lambda>_.
         ret c)))
     | None \<Rightarrow>
         bindp (gets h_fresh) (\<lambda>c.
         bindp (modify (\<lambda>w. w\<lparr> h_conns := (h_conns w)(c \<mapsto> zero_connection), h_fresh := c + 1 \<rparr>)) (\<lambda>_.
         ret c)))"

definition Hub_queue_conn :: "nat \<Rightarrow> ('b, 'n) henv \<Rightarrow> nat \<Rightarrow> (unit, 'b, 'n) hproc" where
  "Hub_queue_conn n E client =
     bindp Hub_new_or_reuse_conn (\<lambda>c.
     bindp (set_conn c (\<lambda>s. s\<lparr> c_client := Some client \<rparr>)) (\<lambda>_.
     bindp (ConnectionState_init c) (\<lambda>_.
     bindp (ConnectionState_exec n E c UEv_OPEN) (\<lambda>_.
     ret ()))))"

definition Hub_connection_handler :: "nat \<Rightarrow> ('b, 'n) henv \<Rightarrow> 'n \<Rightarrow> nat \<Rightarrow> (unit, 'b, 'n) hproc" where
  "Hub_connection_handler n E sock client =
     bindp (Hub_exec E sock UEv_OPEN) (\<lambda>_.
     bindp (Hub_queue_conn n E client) (\<lambda>_.
     bindp (Hub_exec E sock UEv_CLOSE) (\<lambda>_.
     ret ())))"

text \<open>
  \<open>Hub_init\<close> returns whether the library could be set up; the second result is whether it is
  set up from now on. The set-up of the server library cannot fail.
\<close>

definition Hub_init :: "(ltc_call \<Rightarrow> bool) \<Rightarrow> bool \<Rightarrow> bool \<Rightarrow> bstring \<Rightarrow> (bool \<times> bool) res" where
  "Hub_init call er initialized argv_0 =
     (if argv_0 = None then Inl AssertFailed else CryptState_init call er initialized)"

text \<open>The message is written to the log and put on the queue of every member, whether or not there is room.\<close>

primrec broadcast_loop :: "nat list \<Rightarrow> nat option \<Rightarrow> (unit, 'b, 'n) hproc" where
  "broadcast_loop [] msg = ret ()"
| "broadcast_loop (m # ms) msg =
     bindp (lift_w (\<lambda>w. Member_send_msg w (Some m) msg)) (\<lambda>_. broadcast_loop ms msg)"

definition Hub_broadcast :: "nat option \<Rightarrow> (unit, 'b, 'n) hproc" where
  "Hub_broadcast msg =
     assertp (msg \<noteq> None) (
     bindp (lift_w (\<lambda>w. case w_msgs w (the msg) of
         None \<Rightarrow> Inl Dangling
       | Some m \<Rightarrow> bind_res (Message_dump m) (\<lambda>_. Inr ((), w)))) (\<lambda>_.
     bindp (gets h_members) (\<lambda>mmap.
     broadcast_loop mmap msg)))"

end
