(* ===== verification/HubFrame.thy ===== *)
theory HubFrame
  imports HubMachine
begin

text \<open>
  What the routing functions leave alone when a hub calls them: the state of the hub around the
  tree and the members, and, but for \<open>Route_register_callback\<close>, that the callbacks of the routes
  are below a bound.
\<close>

named_theorems frames

definition cb_ok :: "nat \<Rightarrow> 'z rworld_scheme \<Rightarrow> bool" where
  "cb_ok N w \<longleftrightarrow> (\<forall>r rt cb. w_routes w r = Some rt \<longrightarrow> rt_callback rt = Some cb \<longrightarrow> cb < N)"

definition rframe :: "nat \<Rightarrow> 'z rworld_scheme \<Rightarrow> 'z rworld_scheme \<Rightarrow> bool" where
  "rframe N w w' \<longleftrightarrow> rworld.more w' = rworld.more w \<and> (cb_ok N w \<longrightarrow> cb_ok N w')"

lemma rframe_refl [simp]: "rframe N w w"
  by (simp add: rframe_def)

lemma rframe_trans [trans]: "rframe N w w1 \<Longrightarrow> rframe N w1 w2 \<Longrightarrow> rframe N w w2"
  by (simp add: rframe_def)

lemma rframe_upd [simp]:
  "rframe N w (w\<lparr> w_msgs := x \<rparr>)" "rframe N w (w\<lparr> w_members := y \<rparr>)" "rframe N w (w\<lparr> w_errno := z \<rparr>)"
  "rframe N w (w\<lparr> w_msgs := x, w_members := y \<rparr>)" "rframe N w (w\<lparr> w_next := k \<rparr>)"
  by (simp_all add: rframe_def cb_ok_def)

lemma rframe_upd_trans:
  "rframe N w w1 \<Longrightarrow> rframe N w (w1\<lparr> w_msgs := x \<rparr>)" "rframe N w w1 \<Longrightarrow> rframe N w (w1\<lparr> w_members := y \<rparr>)"
  "rframe N w w1 \<Longrightarrow> rframe N w (w1\<lparr> w_errno := z \<rparr>)" "rframe N w w1 \<Longrightarrow> rframe N w (w1\<lparr> w_next := k \<rparr>)"
  by (simp_all add: rframe_def cb_ok_def)

lemma rframe_set_route:
  assumes "rframe N w w1" "rt_callback rt = None \<or> (\<exists>rt'. w_routes w1 r = Some rt' \<and> rt_callback rt = rt_callback rt')"
  shows "rframe N w (set_route r rt w1)"
proof -
  have "cb_ok N (set_route r rt w1)" if "cb_ok N w1"
    unfolding cb_ok_def
  proof (intro allI impI)
    fix r' rt' cb assume "w_routes (set_route r rt w1) r' = Some rt'" "rt_callback rt' = Some cb"
    then show "cb < N" using that assms(2) by (cases "r' = r") (auto simp: set_route_def cb_ok_def)
  qed
  then show ?thesis using assms(1) by (simp add: rframe_def set_route_def)
qed

lemma rframe_set_queue [simp]: "rframe N w (set_queue a mb st q w)"
  by (simp add: set_queue_def)

lemma Member_send_msg_frame [frames]:
  fixes w :: "'z rworld_scheme"
  shows "Member_send_msg w m msg = Inr (rc, w') \<Longrightarrow> rframe N w w'"
  by (auto simp: Member_send_msg_def with_member_def intro: rframe_upd_trans split: option.splits if_splits prod.splits)

lemma Member_delete_msg_frame [frames]:
  fixes w :: "'z rworld_scheme"
  shows "Member_delete_msg w m = Inr (rc, w') \<Longrightarrow> rframe N w w'"
  by (auto simp: Member_delete_msg_def with_member_def split: option.splits)

lemma Member_destroy_frame [frames]:
  fixes w :: "'z rworld_scheme"
  shows "Member_destroy w a = Some (Inr w') \<Longrightarrow> rframe N w w'"
  by (auto simp: Member_destroy_def bind_opt_eq_Inr split: option.splits)

lemma Member_login_frame [frames]:
  fixes w :: "'z rworld_scheme"
  assumes "Member_login T mc junk w mmap a peer key = Some (Inr (m, mmap', w'))"
  shows "rframe N w w'"
proof -
  obtain w1 where w1: "Member_create junk w a peer key = Inr w1" using assms
    by (auto simp: Member_login_def split: sum.splits)
  then have "rframe N w w1" by (auto simp: Member_create_def split: if_splits)
  moreover have "rframe N w1 w'" using assms w1
    by (auto simp: Member_login_def bind_opt_eq_Inr split: if_splits
        intro: rframe_trans [OF rframe_upd(3) Member_destroy_frame])
  ultimately show ?thesis by (rule rframe_trans)
qed

lemma Member_logout_begin_frame [frames]:
  fixes w :: "'z rworld_scheme"
  shows "Member_logout_begin w mmap m = Inr w' \<Longrightarrow> rframe N w w'"
  by (auto simp: Member_logout_begin_def with_member_def split: option.splits if_splits)

lemma Member_logout_end_frame [frames]:
  fixes w :: "'z rworld_scheme"
  shows "Member_logout_end T mc w mmap a = Some (Inr (mmap', w')) \<Longrightarrow> rframe N w w'"
  by (auto simp: Member_logout_end_def Let_def bind_opt_eq_Inr split: if_splits intro: frames)

lemma Route_alloc_frame [frames]: "Route_alloc E w parent name = Inr (r, w') \<Longrightarrow> rframe N w w'"
  by (auto simp: Route_alloc_def Let_def with_route_def split: option.splits
      intro!: rframe_set_route rframe_upd_trans)

lemma Route_add_frame [frames]: "Route_add E w parent path = Inr (r, w') \<Longrightarrow> rframe N w w'"
proof (induction E w parent path arbitrary: r rule: Route_add.induct)
  case (2 E w parent element path)
  obtain f r1 w1 where f: "Route_find_child w (Some parent) (Some element) = Inr f"
      "(case f of Some r \<Rightarrow> Inr (r, w) | None \<Rightarrow> Route_add_child E w (Some parent) element) = Inr (r1, w1)"
      "(if path \<noteq> [] then Route_add E w1 r1 path else Inr (Some r1, w1)) = Inr (r, w')"
    using 2(2) by auto
  have w1: "rframe N w w1" using f(2) by (cases f) (auto simp: Route_add_child_def intro: frames)
  show ?case
  proof (cases "path = []")
    case True
    with f(3) w1 show ?thesis by simp
  next
    case False
    with f(3) have "Route_add E w1 r1 path = Inr (r, w')" by simp
    with 2(1) [OF f(1,2) _ False] w1 show ?thesis by (auto intro: rframe_trans)
  qed
qed simp

lemma Route_extend_and_find_frame [frames]: "Route_extend_and_find E w routes n = Inr (r, w') \<Longrightarrow> rframe N w w'"
  by (auto simp: Route_extend_and_find_def split: option.splits intro: frames)

lemma Route_add_member_frame [frames]: "Route_add_member E w route member = Inr (rc, w') \<Longrightarrow> rframe N w w'"
  by (auto simp: Route_add_member_def with_route_def with_member_def Let_def split: option.splits if_splits
      intro!: rframe_upd_trans rframe_set_route)

lemma Route_register_frame [frames]: "Route_register E w routes n member = Inr (rc, w') \<Longrightarrow> rframe N w w'"
  by (auto simp: Route_register_def split: option.splits if_splits
      intro: rframe_upd_trans frames rframe_trans [OF Route_extend_and_find_frame Route_add_member_frame])

lemma Route_register_callback_frame:
  assumes "Route_register_callback E w routes n cb = Inr (rc, w')" "cb < N"
  shows "rframe N w w'"
proof -
  obtain p w1 where w1: "Route_extend_and_find E w routes n = Inr (p, w1)"
    using assms by (auto simp: Route_register_callback_def)
  then have "rframe N w w1" by (rule frames)
  moreover have "rframe N w1 w'"
  proof (cases "p = None \<or> w_errno w1")
    case True
    then show ?thesis using assms(1) w1 by (cases p) (auto simp: Route_register_callback_def)
  next
    case False
    then obtain q rt where rt: "p = Some q" "w_routes w1 q = Some rt"
      "w' = set_route q (rt\<lparr> is_internal_callback := True, rt_callback := Some cb \<rparr>) w1"
      using assms(1) w1 by (auto simp: Route_register_callback_def with_route_def split: option.splits)
    then show ?thesis using assms(2) by (auto simp: rframe_def set_route_def cb_ok_def split: if_splits)
  qed
  ultimately show ?thesis by (rule rframe_trans)
qed

lemma find_loop_frame [frames]: "find_loop w i r ns = Inr (f, w') \<Longrightarrow> rframe N w w'"
  by (induction w i r ns rule: find_loop.induct) (auto split: if_splits option.splits)

lemma Route_find_frame [frames]: "Route_find w parent n = Inr (f, w') \<Longrightarrow> rframe N w w'"
  by (cases n) (auto simp: Route_find_def split: option.splits intro: frames)

lemma heap_remove_frame [frames]: "heap_remove E w r member = Inr w' \<Longrightarrow> rframe N w w'"
  by (auto simp: heap_remove_def with_route_def split: option.splits intro!: rframe_set_route)

lemma Route_unregister_frame [frames]: "Route_unregister E w routes n member = Inr (rc, w') \<Longrightarrow> rframe N w w'"
  by (auto simp: Route_unregister_def with_member_def split: option.splits if_splits
      intro: frames rframe_upd_trans(2) [OF rframe_trans [OF Route_find_frame heap_remove_frame]])

lemma unregister_loop_frame [frames]: "unregister_loop E member rs w = Inr w' \<Longrightarrow> rframe N w w'"
  by (induction rs arbitrary: w) (auto intro: rframe_trans frames)

lemma Route_unregister_all_frame [frames]: "Route_unregister_all E w routes member = Inr w' \<Longrightarrow> rframe N w w'"
  by (auto simp: Route_unregister_all_def with_member_def split: option.splits if_splits intro!: rframe_upd_trans intro: frames)

lemma deliver_loop_frame [frames]:
  fixes w :: "'z rworld_scheme"
  shows "deliver_loop msg ms cnt w = Inr (n, w') \<Longrightarrow> rframe N w w'"
  by (induction ms arbitrary: cnt w) (auto split: if_splits intro: rframe_upd_trans frames rframe_trans)

lemma Route_deliver_frame [frames]: "Route_deliver w route msg = Inr (n, w') \<Longrightarrow> rframe N w w'"
  by (auto simp: Route_deliver_def with_route_def split: option.splits if_splits intro: frames)

lemma Route_destroy_frame [frames]: "Route_destroy w root = Some (Inr w') \<Longrightarrow> rframe N w w'"
  by (auto simp: Route_destroy_def bind_opt_eq_Inr rframe_def cb_ok_def restrict_map_def split: if_splits)

end
