(* ===== verification/Keeps.thy ===== *)
theory Keeps
  imports Peer
begin

text \<open>
  Steps that keep a predicate of the state, and that every function of the protocol keeps what
  holds of the rest of the program's state, provided the key confirmation does.
\<close>

named_theorems keeps

definition keeps :: "('s \<Rightarrow> 'w) \<Rightarrow> ('w \<Rightarrow> bool) \<Rightarrow> ('a, 's) proc \<Rightarrow> bool" where
  "keeps p I m \<longleftrightarrow> (\<forall>s x s'. I (p s) \<longrightarrow> m s = Some (Inr (x, s')) \<longrightarrow> I (p s'))"

lemma keepsI: "(\<And>s x s'. I (p s) \<Longrightarrow> m s = Some (Inr (x, s')) \<Longrightarrow> I (p s')) \<Longrightarrow> keeps p I m"
  by (simp add: keeps_def)

lemma keepsD: "keeps p I m \<Longrightarrow> m s = Some (Inr (x, s')) \<Longrightarrow> I (p s) \<Longrightarrow> I (p s')"
  by (simp add: keeps_def)

section \<open>Combinators\<close>

lemma keeps_basic [keeps, simp]: "keeps p I (ret x)" "keeps p I (crash f)" "keeps p I (gets g)" "keeps p I (lift_res r)"
  by (rule keepsI; simp add: ret_def crash_def gets_def lift_res_def split: sum.split_asm)+

lemma keeps_bindp [keeps]:
  assumes m: "keeps p I m" and f: "\<And>x. keeps p I (f x)"
  shows "keeps p I (bindp m f)"
proof (rule keepsI)
  fix s y s' assume I: "I (p s)" and "bindp m f s = Some (Inr (y, s'))"
  then obtain x s1 where run: "m s = Some (Inr (x, s1))" "f x s1 = Some (Inr (y, s'))"
    unfolding bindp_def bind_opt_eq_Inr by auto
  show "I (p s')" by (rule keepsD [of p I, OF f run(2) keepsD [of p I, OF m run(1) I]])
qed

lemma keeps_modify: "(\<And>s. I (p s) \<Longrightarrow> I (p (g s))) \<Longrightarrow> keeps p I (modify g)"
  by (simp add: keeps_def modify_def)

lemma keeps_if [keeps]: "(b \<Longrightarrow> keeps p I m) \<Longrightarrow> (\<not> b \<Longrightarrow> keeps p I m') \<Longrightarrow> keeps p I (if b then m else m')"
  by simp

lemma keeps_option [keeps]: "(x = None \<Longrightarrow> keeps p I m) \<Longrightarrow> (\<And>y. x = Some y \<Longrightarrow> keeps p I (f y)) \<Longrightarrow> keeps p I (case x of None \<Rightarrow> m | Some y \<Rightarrow> f y)"
  by (cases x) simp_all

lemma keeps_prod [keeps]: "(\<And>y z. x = (y, z) \<Longrightarrow> keeps p I (f y z)) \<Longrightarrow> keeps p I (case x of (y, z) \<Rightarrow> f y z)"
  by (cases x) simp

lemma keeps_assertp [keeps]: "keeps p I m \<Longrightarrow> keeps p I (assertp b m)"
  by (simp add: assertp_def)

section \<open>The protocol\<close>

definition confirm_keeps :: "('w \<Rightarrow> bool) \<Rightarrow> 'w confirm \<Rightarrow> bool" where
  "confirm_keeps I cb \<longleftrightarrow> (\<forall>C er w rc er' w'. I w \<longrightarrow> cb C er w = Some (Inr (rc, er', w')) \<longrightarrow> I w')"

lemma rest_keeps_modify [keeps]: "(\<And>s. s_rest (g s) = s_rest s) \<Longrightarrow> keeps s_rest I (modify g)"
  by (rule keepsI) (auto simp: modify_def)

lemma rest_keeps_check [keeps]: "keeps s_rest I failed \<Longrightarrow> keeps s_rest I k \<Longrightarrow> keeps s_rest I (check b failed k)"
  by (rule keepsI) (auto simp: check_def dest: keepsD split: if_splits)

lemma rest_upd_crypt [simp]: "s_rest (upd_crypt f s) = s_rest s"
  by (simp add: upd_crypt_def)

lemma rest_keeps_lift:
  assumes "\<And>s x s'. m s = Some (Inr (x, s')) \<Longrightarrow> s_rest s' = s_rest s"
  shows "keeps s_rest I m"
proof (rule keepsI)
  fix s x s' assume I: "I (s_rest s)" and "m s = Some (Inr (x, s'))"
  from assms [OF this(2)] I show "I (s_rest s')" by simp
qed

lemma rest_keeps_cons [keeps]: "keeps s_rest I (cons format args)"
  by (rule rest_keeps_lift) (auto simp: cons_def split: sum.splits option.splits)

lemma rest_keeps_decons [keeps]: "keeps s_rest I (decons n copy format args)"
  by (rule rest_keeps_lift) (auto simp: decons_def Let_def split: sum.splits option.splits)

lemma rest_keeps_parse [keeps]: "keeps s_rest I (parse buf)" "keeps s_rest I (parse_seq buf from)"
  by (rule rest_keeps_lift, auto simp: parse_def parse_seq_def bind_opt_eq_Inr)+

lemma rest_keeps_destroy [keeps]: "keeps s_rest I (destroy n)" "keeps s_rest I (bstr n)"
  by (simp_all add: destroy_def bstr_def keeps)

lemma rest_keeps_io [keeps]:
  "keeps s_rest I (get_ntohs io)" "keeps s_rest I (read_bstr io len)" "keeps s_rest I (put_htons io v)"
  "keeps s_rest I (write_bstr io x)" "keeps s_rest I (flush_out io)"
  by (rule rest_keeps_lift, auto simp: get_ntohs_def read_bstr_def put_htons_def write_bstr_def flush_out_def split: prod.splits)+

lemma rest_keeps_ensure [keeps]: "keeps s_rest I (io_ensure_sbuf io len)"
  by (rule rest_keeps_lift) (auto simp: io_ensure_sbuf_def Let_def split: option.splits prod.splits if_splits)

lemma rest_keeps_frames [keeps]:
  "keeps s_rest I (FrameSource_recv io)" "keeps s_rest I (FrameSource_send io header msg flush)"
  unfolding FrameSource_recv_def FrameSource_send_def parse_frame_def no_recv_def Let_def
  by (intro keeps)+

lemma rest_keeps_keys [keeps]:
  "keeps s_rest I (CryptState_rand L len)" "keeps s_rest I (create_my_nonce L)" "keeps s_rest I (CryptState_rand_sess L)"
  "keeps s_rest I (CryptState_export_key L side type)" "keeps s_rest I (CryptState_import_key L side from)"
  "keeps s_rest I (CryptState_create_key L)"
proof -
  show rand: "keeps s_rest I (CryptState_rand L len)" for len
    by (auto simp: keeps_def CryptState_rand_def split: prod.splits)
  show "keeps s_rest I (create_my_nonce L)"
    unfolding create_my_nonce_def CryptState_create_nonce_def by (intro keeps rand; simp)
  show "keeps s_rest I (CryptState_rand_sess L)"
    unfolding CryptState_rand_sess_def by (intro keeps rand; simp)
  show "keeps s_rest I (CryptState_export_key L side type)"
    unfolding CryptState_export_key_def CryptState_ecc_key_bstr_def Let_def by (intro keeps)
  show "keeps s_rest I (CryptState_import_key L side from)"
    unfolding CryptState_import_key_def CryptState_bstr_ecc_key_def Let_def by (intro keeps; simp)
  show "keeps s_rest I (CryptState_create_key L)"
  proof (rule keepsI)
    fix s x s' assume I: "I (s_rest s)" and run: "CryptState_create_key L s = Some (Inr (x, s'))"
    obtain key g where "ecc_make_key L (s_prng s) KEY_LENGTH = (key, g)" by force
    with run have "check (key \<noteq> None) (ret False)
        (bindp (modify (upd_me (cp_key_update (\<lambda>_. the key)))) (\<lambda>_. ret True)) (s\<lparr> s_prng := g \<rparr>) = Some (Inr (x, s'))"
      by (simp add: CryptState_create_key_def)
    moreover have "keeps s_rest I (check (key \<noteq> None) (ret False) (bindp (modify (upd_me (cp_key_update (\<lambda>_. the key)))) (\<lambda>_. ret True)))"
      by (intro keeps; simp)
    ultimately show "I (s_rest s')" using I by (auto dest: keepsD)
  qed
qed

lemma rest_keeps_states [keeps]:
  "keeps s_rest I (CryptState_peer_destroy L side)" "keeps s_rest I (CryptState_destroy L)" "keeps s_rest I (CryptState_create L name key)"
  unfolding CryptState_destroy_def CryptState_peer_destroy_def CryptState_create_def by (intro keeps; simp)+

lemma rest_keeps_packets [keeps]:
  "keeps s_rest I (CryptState_encrypt_node L key header payload)" "keeps s_rest I (CryptState_decrypt_node L key header packet)"
  unfolding CryptState_encrypt_node_def CryptState_encrypt_packet_def CryptState_decrypt_node_def CryptState_decrypt_packet_def Let_def
  by (intro keeps; simp)+

lemma rest_keeps_agreement [keeps]:
  "keeps s_rest I (CryptState_finalize_session L)" "keeps s_rest I (CryptState_receiver_start L)"
  "keeps s_rest I (CryptState_receiver_send_final L)" "keeps s_rest I (CryptState_receiver_done L hbuf msg)"
  unfolding CryptState_finalize_session_def CryptState_receiver_start_def CryptState_receiver_send_final_def
    CryptState_receiver_done_def Let_def
  by (intro keeps; simp)+

lemma rest_keeps_confirmed [keeps]:
  assumes cb: "confirm_keeps I cb"
  shows "keeps s_rest I (CryptState_receiver_process_response L hbuf payload cb)"
proof -
  have "keeps s_rest I (call_confirm cb)"
    using cb by (auto simp: keeps_def call_confirm_def bind_opt_eq_Inr confirm_keeps_def)
  note rules = keeps this
  show ?thesis
    unfolding CryptState_receiver_process_response_def CryptState_create_shared_key_def derive_shared_def Let_def
    by (intro rules; simp)
qed

lemma rest_keeps_destroy_packet [keeps]: "keeps s_rest I (destroy_packet freed packet)"
  unfolding destroy_packet_def by (intro keeps)

lemma rest_keeps_Peer [keeps]:
  "keeps s_rest I (Peer_create io sock fd)" "keeps s_rest I (Peer_destroy L b)" "keeps s_rest I (Peer_recv L io)"
  "keeps s_rest I (Peer_send L io header payload)"
  unfolding Peer_create_def Peer_destroy_def Peer_recv_def Peer_send_def Let_def by (intro keeps; simp)+

lemma rest_keeps_establish [keeps]:
  "confirm_keeps I cb \<Longrightarrow> keeps s_rest I (Peer_establish_receiver L io cb)"
  unfolding Peer_establish_receiver_def Let_def by (intro keeps; simp)

end
