(* ===== verification/Chart.thy ===== *)
theory Chart
  imports HubMachine
begin

text \<open>
  The state charts of \<open>src/hub/connection.rl\<close> and \<open>src/hub/hub.rl\<close>, and that the tables Ragel
  generated from them implement them.
\<close>

section \<open>The chart of a connection\<close>

datatype phase =
  Start | Accepting | KeyCheck | Tuning | Registering | Idle | Hated | Awaiting | Validating | Sending |
  Aborting | Closing | Delivering | Closed | Broken

datatype step =
  begin_step | open_step | key_prep | tune | register | established | recv_step | clear_recv | clear_send | service |
  msg_ready | msgid_check | aborted | sent | hate_apply | hate_challenge | hate_paid | hate_valid | hate_invalid |
  error_step | half_close | rest_close

primrec phase_cs :: "phase \<Rightarrow> nat" where
  "phase_cs Start = 1"
| "phase_cs Accepting = 2"
| "phase_cs KeyCheck = 3"
| "phase_cs Tuning = 4"
| "phase_cs Registering = 5"
| "phase_cs Idle = 6"
| "phase_cs Hated = 7"
| "phase_cs Awaiting = 8"
| "phase_cs Validating = 9"
| "phase_cs Sending = 10"
| "phase_cs Aborting = 11"
| "phase_cs Closing = 12"
| "phase_cs Delivering = 13"
| "phase_cs Closed = 14"
| "phase_cs Broken = 0"

primrec step_no :: "step \<Rightarrow> nat" where
  "step_no begin_step = 0"
| "step_no open_step = 1"
| "step_no key_prep = 2"
| "step_no tune = 3"
| "step_no register = 4"
| "step_no established = 5"
| "step_no recv_step = 6"
| "step_no clear_recv = 7"
| "step_no clear_send = 8"
| "step_no service = 9"
| "step_no msg_ready = 10"
| "step_no msgid_check = 11"
| "step_no aborted = 12"
| "step_no sent = 13"
| "step_no hate_apply = 14"
| "step_no hate_challenge = 15"
| "step_no hate_paid = 16"
| "step_no hate_valid = 17"
| "step_no hate_invalid = 18"
| "step_no error_step = 19"
| "step_no half_close = 20"
| "step_no rest_close = 21"

definition is_close :: "HubEvent \<Rightarrow> bool" where
  "is_close ev \<longleftrightarrow> ev = UEv_READ_CLOSE \<or> ev = UEv_WRITE_CLOSE"

text \<open>Each state either goes on, closes on \<open>close\<close>, or fails with the error action.\<close>

definition on_event :: "(HubEvent \<times> phase \<times> step list) list \<Rightarrow> bool \<Rightarrow> HubEvent \<Rightarrow> phase \<times> step list" where
  "on_event evs closes ev =
     (case map_of evs ev of
        Some t \<Rightarrow> t
      | None \<Rightarrow> if closes \<and> is_close ev then (Closing, [half_close]) else (Broken, [error_step]))"

primrec connection_chart :: "phase \<Rightarrow> HubEvent \<Rightarrow> phase \<times> step list" where
  "connection_chart Start = on_event [(UEv_OPEN, Accepting, [begin_step, open_step])] False"
| "connection_chart Accepting = on_event [(UEv_KEY_PRESENT, KeyCheck, [key_prep])] True"
| "connection_chart KeyCheck = on_event [(UEv_PASS, Tuning, [tune])] True"
| "connection_chart Tuning = on_event [(UEv_PASS, Registering, [register])] True"
| "connection_chart Registering = on_event [(UEv_PASS, Idle, [established])] True"
| "connection_chart Idle = on_event
     [(UEv_MSG_RECV, Delivering, [recv_step]), (UEv_MSG_QUEUED, Sending, [msg_ready]), (UEv_HATE_APPLY, Hated, [hate_apply])] True"
| "connection_chart Hated = on_event [(UEv_HATE_CHALLENGE, Awaiting, [hate_challenge])] False"
| "connection_chart Awaiting = on_event [(UEv_HATE_PAID, Validating, [hate_paid])] False"
| "connection_chart Validating = on_event [(UEv_HATE_VALID, Idle, [hate_valid]), (UEv_HATE_INVALID, Idle, [hate_invalid])] False"
| "connection_chart Sending = on_event [(UEv_MSG_SENT, Idle, [sent, clear_send]), (UEv_FAIL, Aborting, [clear_send])] False"
| "connection_chart Aborting = (\<lambda>ev. (Closing, [aborted, half_close]))"
| "connection_chart Closing = (\<lambda>ev. if is_close ev then (Closed, [rest_close]) else (Broken, [error_step]))"
| "connection_chart Delivering = on_event [(UEv_SVC_RECV, Idle, [msgid_check, service, clear_recv])] False"
| "connection_chart Closed = (\<lambda>ev. (Broken, [error_step]))"
| "connection_chart Broken = (\<lambda>ev. (Broken, [error_step]))"

lemma connection_wf_keys: "list_all (wf_keys connection_tables) [1 ..< 15]"
  by code_simp

lemma connection_row:
  "ragel_row connection_tables 1 =
     ([(79, 2, [0, 1])],
      [], 0, [19])"
  "ragel_row connection_tables 2 =
     ([(80, 3, [2]), (114, 12, [20]), (119, 12, [20])],
      [], 0, [19])"
  "ragel_row connection_tables 3 =
     ([(49, 4, [3]), (114, 12, [20]), (119, 12, [20])],
      [], 0, [19])"
  "ragel_row connection_tables 4 =
     ([(49, 5, [4]), (114, 12, [20]), (119, 12, [20])],
      [], 0, [19])"
  "ragel_row connection_tables 5 =
     ([(49, 6, [5]), (114, 12, [20]), (119, 12, [20])],
      [], 0, [19])"
  "ragel_row connection_tables 6 =
     ([(72, 7, [14]), (81, 10, [10]), (82, 13, [6]), (114, 12, [20]), (119, 12, [20])],
      [], 0, [19])"
  "ragel_row connection_tables 7 =
     ([(104, 8, [15])],
      [], 0, [19])"
  "ragel_row connection_tables 8 =
     ([(98, 9, [16])],
      [], 0, [19])"
  "ragel_row connection_tables 9 =
     ([(86, 6, [17]), (118, 6, [18])],
      [], 0, [19])"
  "ragel_row connection_tables 10 =
     ([(48, 11, [8]), (101, 6, [13, 8])],
      [], 0, [19])"
  "ragel_row connection_tables 11 =
     ([],
      [], 12, [12, 20])"
  "ragel_row connection_tables 12 =
     ([(114, 14, [21]), (119, 14, [21])],
      [], 0, [19])"
  "ragel_row connection_tables 13 =
     ([(115, 6, [11, 9, 7])],
      [], 0, [19])"
  "ragel_row connection_tables 14 =
     ([],
      [], 0, [19])"
  by code_simp+

lemma event_codes:
  "schar (event_char ev) =
     (case ev of UEv_OPEN \<Rightarrow> 79 | UEv_CLOSE \<Rightarrow> 67 | UEv_KEY_PRESENT \<Rightarrow> 80 | UEv_PASS \<Rightarrow> 49 | UEv_FAIL \<Rightarrow> 48
      | UEv_SVC_RECV \<Rightarrow> 115 | UEv_MSG_SENT \<Rightarrow> 101 | UEv_MSG_QUEUED \<Rightarrow> 81 | UEv_MSG_RECV \<Rightarrow> 82 | UEv_HATE_APPLY \<Rightarrow> 72
      | UEv_HATE_CHALLENGE \<Rightarrow> 104 | UEv_HATE_PAID \<Rightarrow> 98 | UEv_HATE_VALID \<Rightarrow> 86 | UEv_HATE_INVALID \<Rightarrow> 118
      | UEv_LISTEN \<Rightarrow> 76 | UEv_GEN_KEY \<Rightarrow> 75 | UEv_GEN_KEY_DONE \<Rightarrow> 107 | UEv_KEY_FILE_LOAD \<Rightarrow> 70 | UEv_DONE \<Rightarrow> 68
      | UEv_READ_CLOSE \<Rightarrow> 114 | UEv_WRITE_CLOSE \<Rightarrow> 119)"
  by (cases ev) (simp_all add: schar_def)

lemma phase_cs_range: "p \<noteq> Broken \<Longrightarrow> 0 < phase_cs p \<and> phase_cs p < 15"
  by (cases p) simp_all

text \<open>The events a state waits for are told apart by their characters.\<close>

lemma connection_next:
  assumes "p \<noteq> Broken"
  shows "ragel_next connection_tables (phase_cs p) (schar (event_char ev)) =
    (phase_cs (fst (connection_chart p ev)), map step_no (snd (connection_chart p ev)))"
proof -
  have "wf_keys connection_tables (phase_cs p)"
    using connection_wf_keys phase_cs_range [OF assms] by (simp add: list_all_iff)
  then have "ragel_next connection_tables (phase_cs p) (schar (event_char ev)) =
      row_lookup (ragel_row connection_tables (phase_cs p)) (schar (event_char ev))"
    by (rule ragel_next_row)
  also have "\<dots> = (phase_cs (fst (connection_chart p ev)), map step_no (snd (connection_chart p ev)))"
    using assms unfolding event_codes
    by (cases p; simp add: connection_row [simplified] on_event_def is_close_def; cases ev; simp)
  finally show ?thesis .
qed

text \<open>
  (C9) The tables of the connection machine implement the state chart: in every state but the
  error state, which the generated code leaves before it looks at the tables, and for every
  event, the searches of the generated code select the state and the actions the chart names.
\<close>

theorem connection_tables_chart:
  assumes "p \<noteq> Broken"
  shows "ragel_next connection_tables (phase_cs p) (schar (event_char ev)) =
    (phase_cs (fst (connection_chart p ev)), map step_no (snd (connection_chart p ev)))"
  using assms by (rule connection_next)

lemma connection_tables_chart_witness:
  "ragel_next connection_tables 6 (schar (CHR ''R'')) = (13, [6]) \<and> ragel_next connection_tables 14 (schar (CHR ''O'')) = (0, [19])"
  using connection_tables_chart [of Idle UEv_MSG_RECV] connection_tables_chart [of Closed UEv_OPEN] by (simp add: on_event_def)

section \<open>Runs of the connection machine\<close>











lemma step_no_inject [simp]: "step_no x = step_no y \<longleftrightarrow> x = y"
  by (cases x; cases y; simp)




section \<open>The chart of the hub\<close>

lemma hub_wf_keys: "list_all (wf_keys hub_tables) [1 ..< 6]"
  by code_simp

lemma hub_row:
  "ragel_row hub_tables 1 =
     ([(70, 2, [0, 5]), (75, 4, [0, 4])],
      [], 0, [2])"
  "ragel_row hub_tables 2 =
     ([(68, 5, [1]), (76, 3, [3])],
      [], 0, [2])"
  "ragel_row hub_tables 3 =
     ([(67, 3, [6]), (68, 5, [1]), (79, 3, [7])],
      [], 0, [2])"
  "ragel_row hub_tables 4 =
     ([(107, 2, [5])],
      [], 0, [2])"
  "ragel_row hub_tables 5 =
     ([],
      [], 0, [])"
  by code_simp+

text \<open>
  The states of the hub: \<open>start\<close>, \<open>CryptoReady\<close>, \<open>Listening\<close>, \<open>GenKeys\<close> and the final one are
  numbered 1 to 5.
\<close>

primrec hub_chart :: "HubEvent \<Rightarrow> (nat \<Rightarrow> nat \<times> nat list)" where
  "hub_chart UEv_GEN_KEY = (\<lambda>cs. if cs = 1 then (4, [0, 4]) else (0, [2]))"
| "hub_chart UEv_KEY_FILE_LOAD = (\<lambda>cs. if cs = 1 then (2, [0, 5]) else (0, [2]))"
| "hub_chart UEv_GEN_KEY_DONE = (\<lambda>cs. if cs = 4 then (2, [5]) else (0, [2]))"
| "hub_chart UEv_LISTEN = (\<lambda>cs. if cs = 2 then (3, [3]) else (0, [2]))"
| "hub_chart UEv_DONE = (\<lambda>cs. if cs = 2 \<or> cs = 3 then (5, [1]) else (0, [2]))"
| "hub_chart UEv_OPEN = (\<lambda>cs. if cs = 3 then (3, [7]) else (0, [2]))"
| "hub_chart UEv_CLOSE = (\<lambda>cs. if cs = 3 then (3, [6]) else (0, [2]))"
| "hub_chart UEv_KEY_PRESENT = (\<lambda>cs. (0, [2]))"
| "hub_chart UEv_PASS = (\<lambda>cs. (0, [2]))"
| "hub_chart UEv_FAIL = (\<lambda>cs. (0, [2]))"
| "hub_chart UEv_SVC_RECV = (\<lambda>cs. (0, [2]))"
| "hub_chart UEv_MSG_SENT = (\<lambda>cs. (0, [2]))"
| "hub_chart UEv_MSG_QUEUED = (\<lambda>cs. (0, [2]))"
| "hub_chart UEv_MSG_RECV = (\<lambda>cs. (0, [2]))"
| "hub_chart UEv_HATE_APPLY = (\<lambda>cs. (0, [2]))"
| "hub_chart UEv_HATE_CHALLENGE = (\<lambda>cs. (0, [2]))"
| "hub_chart UEv_HATE_PAID = (\<lambda>cs. (0, [2]))"
| "hub_chart UEv_HATE_VALID = (\<lambda>cs. (0, [2]))"
| "hub_chart UEv_HATE_INVALID = (\<lambda>cs. (0, [2]))"
| "hub_chart UEv_READ_CLOSE = (\<lambda>cs. (0, [2]))"
| "hub_chart UEv_WRITE_CLOSE = (\<lambda>cs. (0, [2]))"

lemma hub_next:
  assumes "cs = 1 \<or> cs = 2 \<or> cs = 3 \<or> cs = 4"
  shows "ragel_next hub_tables cs (schar (event_char ev)) = hub_chart ev cs"
proof -
  have "wf_keys hub_tables cs" using hub_wf_keys assms by (auto simp: list_all_iff)
  then have "ragel_next hub_tables cs (schar (event_char ev)) = row_lookup (ragel_row hub_tables cs) (schar (event_char ev))"
    by (rule ragel_next_row)
  also have "\<dots> = hub_chart ev cs"
    using assms unfolding event_codes by (elim disjE; simp add: hub_row [simplified]; cases ev; simp)
  finally show ?thesis .
qed

end
