(* ===== verification/ConnectionFaults.thy ===== *)
theory ConnectionFaults
  imports Chart Trust Registration
begin

text \<open>
  Runs of the connection machine and what goes wrong in them: a message that is being sent
  when the connection is closed is released twice, and a message that is queued while a
  connection is being aborted makes the sending task use a member that is gone.
\<close>

section \<open>Running the machine\<close>

lemma conn_Some [simp]: "h_conns w c = Some s \<Longrightarrow> conn c w = Some (Inr (s, w))"
  by (simp add: conn_def)

lemma set_conn_Some [simp]:
  "h_conns w c = Some s \<Longrightarrow> set_conn c f w = Some (Inr ((), w\<lparr> h_conns := (h_conns w)(c \<mapsto> f s) \<rparr>))"
  by (simp add: set_conn_def)

lemma bindp_conn [simp]: "h_conns w c = Some s \<Longrightarrow> bindp (conn c) f w = f s w"
  by (simp add: bindp_def)

lemma bindp_set_conn [simp]:
  "h_conns w c = Some s \<Longrightarrow> bindp (set_conn c g) f w = f () (w\<lparr> h_conns := (h_conns w)(c \<mapsto> g s) \<rparr>)"
  by (simp add: bindp_def)

lemma bindp_lift_w: "f w = Inr (x, w') \<Longrightarrow> bindp (lift_w f) g w = g x w'"
  by (simp add: bindp_def lift_w_def)

lemma exec_phase:
  assumes s: "h_conns w c = Some s" "c_cs s = phase_cs p" and p: "p \<noteq> Closed" "p \<noteq> Broken"
  shows "ConnectionState_exec (Suc n) E c ev w =
    bindp (run_acts (connection_action (ConnectionState_exec n E) E c) (map step_no (snd (connection_chart p ev)))) (\<lambda>_.
      ConnectionState_invariant c) (w\<lparr> h_conns := (h_conns w)(c \<mapsto> s\<lparr> c_cs := phase_cs (fst (connection_chart p ev)) \<rparr>) \<rparr>)"
proof -
  have "phase_cs p \<noteq> ConnectionState_error \<and> phase_cs p \<noteq> ConnectionState_first_final"
    using p by (cases p) (simp_all add: ConnectionState_error_def ConnectionState_first_final_def)
  with s show ?thesis by (simp add: ConnectionState_done_def bindp_assoc connection_next [OF p(2)])
qed

text \<open>A connection that is closed or broken stays so.\<close>

lemma exec_done:
  assumes "h_conns w c = Some s" "c_cs s = 0 \<or> c_cs s = 14"
  shows "ConnectionState_exec (Suc n) E c ev w = Some (Inr (-1, w))"
  using assms by (auto simp: ConnectionState_done_def bindp_assoc ConnectionState_error_def ConnectionState_first_final_def ret_def)

lemma no_yield: "e_yield E = (\<lambda>w. Some (Inr w)) \<Longrightarrow> bindp (yield E) f w = f () w"
  by (simp add: bindp_def yield_def)

section \<open>Closing while a message is sent\<close>

text \<open>The queue of the member holds one message, and nothing else does.\<close>

lemma MsgQueue_destroy_single:
  assumes q: "queue_ok q" "q_list q = [a]" and refs: "refs_ok st f" "f a = 1"
  obtains st' where "MsgQueue_destroy st q = Some (Inr st')" "st' a = None"
proof -
  obtain st' where st': "Message_destroy st (Some a) = Inr st'" "st' a = None"
    using Message_destroy_ok [OF refs(1), of a] refs(2) by auto
  define q' where "q' = q\<lparr> q_messages := (q_messages q)[q_i q := None], q_i := (q_i q + 1) mod q_dim q \<rparr>"
  have q': "queue_ok q'" "q_list q' = []" using ring_delete [OF q(1) _ q'_def] q(2) by simp_all
  have first: "q_messages q ! q_i q = Some a" using get_first_list [OF q(1)] q(2) by (simp add: MsgQueue_get_first_def)
  have ne: "\<not> MsgQueue_is_empty q" "MsgQueue_is_empty q'"
    using is_empty_list [OF q(1)] is_empty_list [OF q'(1)] q(2) q'(2) by simp_all
  have "MsgQueue_delete st q = Inr (True, st', q')"
    using ne(1) first st'(1) by (simp add: MsgQueue_delete_def q'_def)
  then have "MsgQueue_destroy st q = Some (Inr st')"
    using ne by (subst MsgQueue_destroy.simps) (simp, subst MsgQueue_destroy.simps, simp)
  with st'(2) that show thesis by blast
qed

lemma half_close_member:
  assumes s: "h_conns w c = Some s" "c_client s = Some cl" "c_member s = Some m"
    and h: "h_clients w cl \<noteq> None" "h_routes w \<noteq> None" "h_members w \<noteq> []"
    and mb: "w_members w m = Some mb" "queue_ok (mb_queue mb)" "q_list (mb_queue mb) = [a]" "HEAP_ITERATE (mb_routes mb) = []"
      "keys_there w (mb_key mb) (h_members w)"
    and refs: "refs_ok (w_msgs w) f" "f a = 1" and E: "e_yield E = (\<lambda>w. Some (Inr w))"
  obtains w2 where "ConnectionState_half_close E c w = Some (Inr (True, w2))"
    "h_conns w2 c = Some (s\<lparr> c_client := None, c_member := None \<rparr>)" "w_msgs w2 a = None"
    "h_closed w2 = h_closed w" "h_cs w2 = h_cs w" "w_errno w2 = w_errno w"
proof -
  define w1 where "w1 = w\<lparr> h_clients := (h_clients w)(cl := None), h_conns := (h_conns w)(c \<mapsto> s\<lparr> c_client := None \<rparr>) \<rparr>"
  define mb1 where "mb1 = mb\<lparr> mb_routes := Heap_clear (mb_routes mb) \<rparr>"
  define q where "q = MsgQueue_mark_dead (mb_queue mb)"
  define w2 where "w2 = w1\<lparr> w_members := (w_members w1)(m \<mapsto> mb1) \<rparr>"
  define w3 where "w3 = set_queue m mb1 (w_msgs w2) q w2"
  have q: "queue_ok q" "q_list q = [a]"
    using mb(2,3) by (simp_all add: q_def MsgQueue_mark_dead_def queue_ok_def q_list_def q_len_def)
  obtain st' where st': "MsgQueue_destroy (w_msgs w) q = Some (Inr st')" "st' a = None"
    by (rule MsgQueue_destroy_single [OF q refs])
  have 1: "Route_unregister_all (base_env E) w1 (h_routes w1) (Some m) = Inr w2"
    using h(2) mb(1,4) by (simp add: Route_unregister_all_def with_member_def w1_def w2_def mb1_def)
  have mem: "w_members w2 m = Some mb1" "h_members w2 = h_members w" "w_msgs w2 = w_msgs w"
    by (simp_all add: w2_def w1_def)
  have key: "mb_key mb1 = mb_key mb" by (simp add: mb1_def)
  have 2: "Member_logout_begin w2 (h_members w2) (Some m) = Inr w3"
    using h(3) mem by (simp add: Member_logout_begin_def with_member_def w3_def q_def mb1_def)
  have mk: "member_key w3 x = member_key w x" for x
    using mb(1) by (simp add: member_key_def w3_def set_queue_def w2_def w1_def mb1_def)
  have w3: "h_members w3 = h_members w" "w_msgs w3 = w_msgs w" "w_members w3 m = Some (mb1\<lparr> mb_queue := q \<rparr>)"
    by (simp_all add: w3_def set_queue_def mem)
  have "keys_there w3 (member_key w3 m) (h_members w3)"
    using mb(1,5) by (simp add: keys_there_def mk w3(1)) (simp add: member_key_def)
  then obtain mmap where 3: "Member_logout_end (e_tree E) (e_memcmp E) w3 (h_members w3) m =
      Some (Inr (mmap, w3\<lparr> w_msgs := st', w_members := (w_members w3)(m := None) \<rparr>))"
    using st'(1) w3 by (simp add: Member_logout_end_def Member_destroy_def Let_def)
  define w4 where "w4 = w3\<lparr> w_msgs := st', w_members := (w_members w3)(m := None), h_members := mmap \<rparr>"
  have 4: "Member_logout E (Some m) w2 = Some (Inr ((), w4))"
    using 2 3 by (simp add: Member_logout_def bindp_lift_w no_yield [OF E] w4_def)
  have c4: "h_conns w4 c = Some (s\<lparr> c_client := None \<rparr>)"
    by (simp add: w4_def w3_def set_queue_def w2_def w1_def)
  define w5 where "w5 = w4\<lparr> h_conns := (h_conns w4)(c \<mapsto> s\<lparr> c_client := None, c_member := None \<rparr>) \<rparr>"
  have sd: "server_destroy_client cl w = Some (Inr ((), w\<lparr> h_clients := (h_clients w)(cl := None) \<rparr>))"
    using h(1) by (simp add: server_destroy_client_def)
  have "ConnectionState_half_close E c w =
      bindp (lift_w (\<lambda>w. bind_res (Route_unregister_all (base_env E) w (h_routes w) (Some m)) (\<lambda>w. Inr ((), w)))) (\<lambda>_.
        bindp (Member_logout E (Some m)) (\<lambda>_. bindp (set_conn c (\<lambda>s. s\<lparr> c_member := None \<rparr>)) (\<lambda>_. ret True))) w1"
    using s sd by (simp add: ConnectionState_half_close_def bindp_Some bindp_assoc w1_def)
  also have "\<dots> = bindp (Member_logout E (Some m)) (\<lambda>_. bindp (set_conn c (\<lambda>s. s\<lparr> c_member := None \<rparr>)) (\<lambda>_. ret True)) w2"
    using 1 by (simp add: bindp_lift_w)
  also have "\<dots> = Some (Inr (True, w5))"
    using 4 c4 by (simp add: bindp_Some w5_def ret_def)
  finally have "ConnectionState_half_close E c w = Some (Inr (True, w5))" .
  then show thesis
    by (rule that) (use st'(2) in \<open>simp_all add: w5_def w4_def w3_def set_queue_def w2_def w1_def\<close>)
qed

definition sending :: "('b, 'n) hworld \<Rightarrow> nat \<Rightarrow> nat \<Rightarrow> nat \<Rightarrow> nat \<Rightarrow> bool" where
  "sending w c cl m a \<longleftrightarrow>
     (\<exists>s mb f. h_conns w c = Some s \<and> c_cs s = phase_cs Sending \<and> c_client s = Some cl \<and> c_member s = Some m \<and>
        c_send_msg s = Some a \<and> c_recv_msg s = None \<and> c_recv_body s = None \<and> c_recv_hdr s = None \<and>
        h_clients w cl \<noteq> None \<and> h_routes w \<noteq> None \<and> h_members w \<noteq> [] \<and>
        w_members w m = Some mb \<and> queue_ok (mb_queue mb) \<and> q_list (mb_queue mb) = [a] \<and> HEAP_ITERATE (mb_routes mb) = [] \<and>
        keys_there w (mb_key mb) (h_members w) \<and> refs_ok (w_msgs w) f \<and> f a = 1)"

text \<open>
  (C11) A client that goes away while a message is sent to it brings the hub down. The sending
  task waits for the socket in the state \<open>Sending\<close>; the reading task reports the end of its
  stream. That is an error in this state: the connection is closed and the queue of the member
  is destroyed with the message in it. The message is still noted as the one being sent, and
  the hub destroys it once more when it finishes the connection.
\<close>

theorem close_while_sending:
  assumes w: "sending w c cl m a" "h_closed w \<noteq> Some c" "h_cs w = 3" and E: "e_yield E = (\<lambda>w. Some (Inr w))"
  shows "\<exists>w'. ConnectionState_exec (Suc n) E c UEv_READ_CLOSE w = Some (Inr (-1, w')) \<and>
    Hub_exec E sock UEv_CLOSE w' = Some (Inl Dangling)"
proof -
  obtain s mb f where s: "h_conns w c = Some s" "c_cs s = phase_cs Sending" "c_client s = Some cl" "c_member s = Some m"
    "c_send_msg s = Some a" "c_recv_msg s = None" "c_recv_body s = None" "c_recv_hdr s = None"
    and h: "h_clients w cl \<noteq> None" "h_routes w \<noteq> None" "h_members w \<noteq> []"
    and mb: "w_members w m = Some mb" "queue_ok (mb_queue mb)" "q_list (mb_queue mb) = [a]" "HEAP_ITERATE (mb_routes mb) = []"
      "keys_there w (mb_key mb) (h_members w)" and refs: "refs_ok (w_msgs w) f" "f a = 1"
    using w(1) unfolding sending_def by blast
  define w1 where "w1 = w\<lparr> h_conns := (h_conns w)(c \<mapsto> s\<lparr> c_cs := 0 \<rparr>) \<rparr>"
  obtain w2 where half: "ConnectionState_half_close E c w1 = Some (Inr (True, w2))"
    and w2: "h_conns w2 c = Some (s\<lparr> c_cs := 0, c_client := None, c_member := None \<rparr>)" "w_msgs w2 a = None"
      "h_closed w2 = h_closed w" "h_cs w2 = 3"
  proof (rule half_close_member [of w1 c "s\<lparr> c_cs := 0 \<rparr>" cl m mb a f E])
    show "keys_there w1 (mb_key mb) (h_members w1)" using mb(5) by (simp add: w1_def keys_there_def member_key_def)
  qed (use s h mb refs E w(3) in \<open>simp_all add: w1_def\<close>)
  define w3 where "w3 = w2\<lparr> h_conns := (h_conns w2)(c \<mapsto> s\<lparr> c_cs := 0, c_client := None, c_member := None, c_next := h_closed w \<rparr>), h_closed := Some c \<rparr>"
  have rest: "ConnectionState_rest_close c w2 = Some (Inr (True, w3))"
    using w2 w(2) by (simp add: ConnectionState_rest_close_def w3_def ret_def)
  have acts: "run_acts (connection_action (ConnectionState_exec n E) E c) [19] w1 = Some (Inr ((), w3))"
    using half rest by (simp add: connection_action_def act_error_def bindp_Some bindp_assoc ret_def)
  have "snd (connection_chart Sending UEv_READ_CLOSE) = [error_step]" "fst (connection_chart Sending UEv_READ_CLOSE) = Broken"
    by (simp_all add: on_event_def is_close_def)
  then have "ConnectionState_exec (Suc n) E c UEv_READ_CLOSE w = bindp (run_acts (connection_action (ConnectionState_exec n E) E c) [19])
      (\<lambda>_. ConnectionState_invariant c) w1"
    using exec_phase [OF s(1,2), of n E UEv_READ_CLOSE] by (simp only: w1_def phase_cs.simps step_no.simps list.map) simp
  also have "\<dots> = Some (Inr (-1, w3))"
    using acts by (simp only: bindp_Some) (simp add: ConnectionState_invariant_def ConnectionState_error_def ret_def w3_def)
  finally have "ConnectionState_exec (Suc n) E c UEv_READ_CLOSE w = Some (Inr (-1, w3))" .
  moreover have "ConnectionState_finish E c (w3\<lparr> h_cs := 3 \<rparr>) = Some (Inl Dangling)"
    using s(5-8) w2(2) by (simp add: ConnectionState_finish_def ConnectionState_invariant_def bindp_assoc w3_def
        destroy_opt_def lift_w_def bindp_def [of "lift_w _"] Message_destroy_def)
  then have "Hub_exec E sock UEv_CLOSE w3 = Some (Inl Dangling)"
    using w2(4) hub_next [of 3 UEv_CLOSE] by (simp add: Hub_exec_def hub_action_def act_close_def w3_def bindp_assoc bindp_fault)
  ultimately show ?thesis by blast
qed

section \<open>A sample hub\<close>

definition plain_env :: "(string, string \<times> string) henv" where
  "plain_env = \<lparr> e_sort = isort_cmp, e_maddr = sample_addr, e_raddr = sample_addr, e_tree = list_tree, e_memcmp = memcmp_diff,
     e_junk = (\<lambda>_. None), e_ltc = plain_ltc, e_io = plain_io,
     e_fs = \<lparr> f_opendir = (\<lambda>_. Inl ''No such file''), f_stat = (\<lambda>_. Inl ''No such file''), f_fopen = (\<lambda>_. Inl ''No such file''),
       f_stale = [] \<rparr>,
     e_now = 0, e_yield = (\<lambda>w. Some (Inr w)), e_server_create = True, e_server_listen = (\<lambda>w. Some (Inr w)) \<rparr>"

definition sending_member :: Member where
  "sending_member = sample_member\<lparr> mb_queue := \<lparr> q_messages = [Some 5, None], q_dead = False, q_i = 0, q_j = 1, q_dim = 2 \<rparr> \<rparr>"

definition sending_connection :: ConnectionState where
  "sending_connection = zero_connection\<lparr> c_cs := 10, c_client := Some 7, c_peer := Some 1, c_member := Some 4, c_lock := True, c_send_msg := Some 5 \<rparr>"

definition sending_hub :: "(string, string \<times> string) hworld" where
  "sending_hub =
     \<lparr> w_msgs = [5 \<mapsto> Message_ref_inc message_test_calloc], w_members = [4 \<mapsto> sending_member], w_errno = False,
       w_routes = [0 \<mapsto> sample_root], w_next = 1, h_cs = 3, h_host = Some ''0.0.0.0'', h_port = Some ''80'', h_name = Some ''hub'',
       h_key = Some ''key'', h_server = True, h_members = [4], h_closed = None, h_routes = Some 0,
       h_conns = [9 \<mapsto> sending_connection], h_peers = Map.empty, h_clients = [7 \<mapsto> (3, ([], []))], h_tasks = [9],
       h_prng = [], h_fresh = 10 \<rparr>"

lemma close_while_sending_witness:
  "\<exists>w'. ConnectionState_exec 1 plain_env 9 UEv_READ_CLOSE sending_hub = Some (Inr (-1, w')) \<and>
     Hub_exec plain_env ([], []) UEv_CLOSE w' = Some (Inl Dangling)"
proof -
  have refs: "refs_ok [5 \<mapsto> Message_ref_inc message_test_calloc] (\<lambda>a. if a = 5 then 1 else 0)"
    by (simp add: refs_ok_def Message_ref_inc_def message_test_calloc_def msg_ok_def destroyable_def)
  have "sending sending_hub 9 7 4 5"
    unfolding sending_def
    by (rule exI [of _ sending_connection], rule exI [of _ sending_member], rule exI [of _ "\<lambda>a. if a = 5 then 1 else 0"])
      (use refs in \<open>simp add: sending_hub_def sending_connection_def zero_connection_def sending_member_def sample_member_def
        queue_ok_def q_list_def q_len_def Heap_create_def HEAP_ITERATE_def keys_there_def member_key_def\<close>)
  then show ?thesis
    using close_while_sending [of sending_hub 9 7 4 5 plain_env 0 "([], [])"] by (simp add: sending_hub_def plain_env_def)
qed

end
