(* ===== verification/HubTyping.thy ===== *)
theory HubTyping
  imports HubFrame Keeps ConnectionFaults
begin

text \<open>
  The types the machines of the hub rely on: every connection is in a state of its chart and
  every callback of a route is one of \<open>callbacks\<close>, and no connection and no peer has a number
  that is still to be given out. Every step of the two machines keeps this, whatever the other
  tasks do meanwhile, as long as they keep it too.
\<close>

section \<open>The invariant\<close>

definition typed_hub :: "nat \<Rightarrow> ('b, 'n) hworld \<Rightarrow> bool" where
  "typed_hub k w \<longleftrightarrow> k \<le> h_fresh w \<and> h_cs w \<le> 5 \<and> cb_ok (length registrations) w \<and>
     (\<forall>c s. h_conns w c = Some s \<longrightarrow> c < h_fresh w \<and> c_cs s < 15) \<and>
     (\<forall>a p. h_peers w a = Some p \<longrightarrow> a < h_fresh w)"

abbreviation keeps_typed :: "nat \<Rightarrow> ('a, 'b, 'n) hproc \<Rightarrow> bool" where
  "keeps_typed k \<equiv> keeps (\<lambda>w. w) (typed_hub k)"

definition yields_typed :: "('b, 'n) henv \<Rightarrow> bool" where
  "yields_typed E \<longleftrightarrow> (\<forall>k w w'. typed_hub k w \<longrightarrow> e_yield E w = Some (Inr w') \<longrightarrow> typed_hub k w')"

definition runs_typed :: "(nat \<Rightarrow> HubEvent \<Rightarrow> (int, 'b, 'n) hproc) \<Rightarrow> bool" where
  "runs_typed ex \<longleftrightarrow> (\<forall>k c ev. keeps_typed k (ex c ev))"

lemma typed_frame: "typed_hub k w \<Longrightarrow> rframe (length registrations) w w' \<Longrightarrow> typed_hub k w'"
  by (cases w; cases w') (simp add: typed_hub_def rframe_def)

lemma rframe_fresh: "rframe N w v \<Longrightarrow> h_fresh v = h_fresh w"
  by (cases w; cases v) (simp add: rframe_def)

lemma typed_upd [simp]:
  "typed_hub k (w\<lparr> w_msgs := x1 \<rparr>) = typed_hub k w"
  "typed_hub k (w\<lparr> w_members := x2 \<rparr>) = typed_hub k w"
  "typed_hub k (w\<lparr> w_errno := x3 \<rparr>) = typed_hub k w"
  "typed_hub k (w\<lparr> h_host := x4 \<rparr>) = typed_hub k w"
  "typed_hub k (w\<lparr> h_port := x5 \<rparr>) = typed_hub k w"
  "typed_hub k (w\<lparr> h_name := x6 \<rparr>) = typed_hub k w"
  "typed_hub k (w\<lparr> h_key := x7 \<rparr>) = typed_hub k w"
  "typed_hub k (w\<lparr> h_server := x8 \<rparr>) = typed_hub k w"
  "typed_hub k (w\<lparr> h_members := x9 \<rparr>) = typed_hub k w"
  "typed_hub k (w\<lparr> h_closed := x10 \<rparr>) = typed_hub k w"
  "typed_hub k (w\<lparr> h_routes := x11 \<rparr>) = typed_hub k w"
  "typed_hub k (w\<lparr> h_clients := x12 \<rparr>) = typed_hub k w"
  "typed_hub k (w\<lparr> h_tasks := x13 \<rparr>) = typed_hub k w"
  "typed_hub k (w\<lparr> h_prng := x14 \<rparr>) = typed_hub k w"
  by (simp_all add: typed_hub_def cb_ok_def)

lemma typed_mono: "typed_hub k w \<Longrightarrow> j \<le> k \<Longrightarrow> typed_hub j w"
  by (simp add: typed_hub_def)

lemma typed_weaken: "typed_hub (max k j) w \<Longrightarrow> typed_hub k w"
  by (simp add: typed_hub_def)

lemma typed_bump [simp]: "typed_hub k w \<Longrightarrow> h_fresh w \<le> n \<Longrightarrow> typed_hub k (w\<lparr> h_fresh := n \<rparr>)"
  by (force simp: typed_hub_def cb_ok_def)

section \<open>Steps\<close>

lemma typed_modify [keeps]: "(\<And>w. typed_hub k w \<Longrightarrow> typed_hub k (g w)) \<Longrightarrow> keeps_typed k (modify g)"
  by (rule keeps_modify) simp

lemma typed_lift_w: "(\<And>w x w'. f w = Inr (x, w') \<Longrightarrow> rframe (length registrations) w w') \<Longrightarrow> keeps_typed k (lift_w f)"
  by (rule keepsI) (auto simp: lift_w_def intro: typed_frame)

lemma typed_yield [keeps]: "yields_typed E \<Longrightarrow> keeps_typed k (yield E)"
  by (rule keepsI) (auto simp: yield_def bind_opt_eq_Inr yields_typed_def)

lemma typed_ex [keeps]: "runs_typed ex \<Longrightarrow> keeps_typed k (ex c ev)"
  by (simp add: runs_typed_def)

lemma typed_conn [keeps]: "keeps_typed k (conn c)"
  by (rule keepsI) (simp add: conn_def split: option.split_asm)

lemma typed_set_conn [keeps]: "(\<And>s. c_cs s < 15 \<Longrightarrow> c_cs (f s) < 15) \<Longrightarrow> keeps_typed k (set_conn c f)"
  by (rule keepsI) (auto simp: set_conn_def typed_hub_def cb_ok_def split: option.split_asm if_splits)

lemma typed_checkw [keeps]: "keeps_typed k failed \<Longrightarrow> keeps_typed k m \<Longrightarrow> keeps_typed k (checkw b failed m)"
  by (rule keepsI) (auto simp: checkw_def dest: keepsD split: if_splits)

lemma typed_consw [keeps]: "keeps_typed k (consw format args)"
  by (rule keepsI) (auto simp: consw_def split: sum.split_asm option.split_asm)

lemma typed_put_sess:
  assumes "typed_hub (max k (Suc a)) (s_rest s)"
  shows "typed_hub k (put_sess a s)"
  using assms by (auto simp: put_sess_def typed_hub_def cb_ok_def)

lemma typed_on_peer [keeps]:
  assumes m: "\<And>j. keeps s_rest (typed_hub j) m"
  shows "keeps_typed k (on_peer p m)"
proof (rule keepsI)
  fix w x w' assume w: "typed_hub k w" and run: "on_peer p m w = Some (Inr (x, w'))"
  from run obtain a pr s where a: "p = Some a" "h_peers w a = Some pr" "m (sess_of pr w) = Some (Inr (x, s))" "w' = put_sess a s"
    by (auto simp: on_peer_def bind_opt_eq_Inr split: option.splits)
  have "typed_hub (max k (Suc a)) w" using w a(2) by (force simp: typed_hub_def)
  then have "typed_hub (max k (Suc a)) (s_rest s)" using keepsD [OF m a(3)] by (simp add: sess_of_def)
  then show "typed_hub k w'" unfolding a(4) by (rule typed_put_sess)
qed

text \<open>A step that allocates.\<close>

lemma typed_alloc:
  assumes "\<And>w x w'. typed_hub k w \<Longrightarrow> m (h_fresh w) w = Some (Inr (x, w')) \<Longrightarrow> typed_hub k w'"
    and "\<And>a x. keeps_typed k (f a x)"
  shows "keeps_typed k (bindp (gets h_fresh) (\<lambda>a. bindp (m a) (f a)))"
proof (rule keepsI)
  fix w y w' assume w: "typed_hub k w" and "bindp (gets h_fresh) (\<lambda>a. bindp (m a) (f a)) w = Some (Inr (y, w'))"
  then obtain x w1 where run: "m (h_fresh w) w = Some (Inr (x, w1))" "f (h_fresh w) x w1 = Some (Inr (y, w'))"
    by (auto simp: bindp_def [of "m _"] bind_opt_eq_Inr)
  show "typed_hub k w'" by (rule keepsD [OF assms(2) run(2) assms(1) [OF w run(1)]])
qed

section \<open>Commands\<close>

lemma typed_send_response [keeps]: "keeps_typed k (send_response E member response ty)"
  unfolding send_response_def
  by (intro typed_alloc keeps typed_lift_w; auto simp: modify_def intro: frames)

lemma typed_with [keeps]:
  "keeps_typed k (lift_w (\<lambda>w. with_route w r (\<lambda>rt. Inr (f w rt, w))))"
  "keeps_typed k (lift_w (\<lambda>w. with_member w m (\<lambda>a mb. Inr (g w a mb, w))))"
  by (rule typed_lift_w, auto simp: with_route_def with_member_def split: option.splits)+

lemma typed_routing [keeps]:
  "keeps_typed k (lift_w (\<lambda>w. Route_find w (h_routes w) n))"
  "keeps_typed k (lift_w (\<lambda>w. Route_register E (w :: ('b, 'n) hworld) (h_routes w) n m))"
  "keeps_typed k (lift_w (\<lambda>w. Route_unregister E (w :: ('b, 'n) hworld) (h_routes w) n m))"
  "keeps_typed k (lift_w (\<lambda>w. Route_deliver w r msg))"
  "keeps_typed k (lift_w (\<lambda>w. Member_send_msg w mo msg))"
  "keeps_typed k (lift_w (\<lambda>w. Member_delete_msg w mo))"
  by (rule typed_lift_w, erule frames)+

lemma typed_Member_name [keeps]: "keeps_typed k (Member_name m)"
  unfolding Member_name_def by (intro keeps)

lemma typed_members_loop [keeps]: "keeps_typed k (members_loop ms response)"
  by (induction ms arbitrary: response) (simp_all add: keeps)

lemma typed_children_loop [keeps]: "keeps_typed k (children_loop rs response)"
  by (induction rs arbitrary: response) (simp_all add: keeps)

lemma typed_dump [keeps]: "keeps_typed k (dump n)" "keeps_typed k (dump_message m)"
  unfolding dump_def dump_message_def by (intro keeps)+

lemma typed_route_cbs:
  "keeps_typed k (Hub_route_register_cb E c from message)" "keeps_typed k (Hub_route_unregister_cb E c from message)"
  "keeps_typed k (Hub_route_members_cb E c from message)" "keeps_typed k (Hub_route_children_cb E c from message)"
  unfolding Hub_route_register_cb_def Hub_route_unregister_cb_def Hub_route_members_cb_def Hub_route_children_cb_def
  by (intro keeps)+

lemma typed_member_cbs:
  "keeps_typed k (Hub_member_register_cb E c from message)" "keeps_typed k (Hub_member_invite_cb E c from message)"
  "keeps_typed k (Hub_member_mendicate_cb E c from message)" "keeps_typed k (Hub_member_send_cb E c from message)"
  "keeps_typed k (Hub_system_ping_cb E c from message)"
  unfolding Hub_member_register_cb_def Hub_member_invite_cb_def Hub_member_mendicate_cb_def Hub_member_send_cb_def Hub_system_ping_cb_def
  by (intro keeps)+

lemma typed_info_generic [keeps]: "keeps_typed k (Hub_info_generic E message from operation info_op)"
proof -
  have op: "keeps_typed k (\<lambda>w. case info_op fs name (w_errno w) of (data, error, er) \<Rightarrow> Some (Inr ((data, error), w\<lparr> w_errno := er \<rparr>)))" for fs name
    by (rule keepsI) (auto split: prod.split_asm)
  show ?thesis unfolding Hub_info_generic_def Let_def by (intro keeps op; simp)
qed

lemma typed_callbacks:
  assumes "cb < length registrations"
  shows "keeps_typed k ((callbacks ! cb) (E :: ('b, 'n) henv) c from message)"
proof -
  have "\<forall>f \<in> set (callbacks :: ('b, 'n) callback list). keeps_typed k (f E c from message)"
    by (simp add: callbacks_def typed_route_cbs typed_member_cbs Hub_info_tag_cb_def Hub_info_get_cb_def Hub_info_list_cb_def typed_info_generic)
  moreover have "length (callbacks :: ('b, 'n) callback list) = length registrations" by (simp add: callbacks_def registrations_def)
  ultimately show ?thesis using assms nth_mem by metis
qed

lemma typed_ref_inc [keeps]: "keeps_typed k (ref_inc a)"
  by (rule keepsI) (auto simp: ref_inc_def split: option.split_asm)

lemma typed_recv_message [keeps]: "keeps_typed k (recv_message c)"
  unfolding recv_message_def by (intro keeps)

text \<open>The callback of a route that is there is one of \<open>callbacks\<close>.\<close>

lemma typed_route_bind:
  assumes "\<And>rt. (\<forall>cb. rt_callback rt = Some cb \<longrightarrow> cb < length registrations) \<Longrightarrow> keeps_typed k (f rt)"
  shows "keeps_typed k (bindp (lift_w (\<lambda>w. with_route w r (\<lambda>rt. Inr (rt, w)))) f)"
proof (rule keepsI)
  fix w y w' assume w: "typed_hub k w"
    and "bindp (lift_w (\<lambda>w. with_route w r (\<lambda>rt. Inr (rt, w)))) f w = Some (Inr (y, w'))"
  then obtain rt where rt: "w_routes w r = Some rt" "f rt w = Some (Inr (y, w'))"
    by (auto simp: bindp_def lift_w_def with_route_def split: option.splits)
  have "\<forall>cb. rt_callback rt = Some cb \<longrightarrow> cb < length registrations"
    using w rt(1) unfolding typed_hub_def cb_ok_def by blast
  then show "typed_hub k w'" using keepsD [OF assms rt(2) w] by blast
qed

lemma typed_service_message [keeps]: "keeps_typed k (Hub_service_message E c)"
  unfolding Hub_service_message_def Let_def
  by (intro typed_route_bind keeps typed_callbacks) (auto simp: prod.split)

section \<open>Connections\<close>

lemma typed_small [keeps]:
  "keeps_typed k (ConnectionState_init c)" "keeps_typed k (ConnectionState_invariant c)" "keeps_typed k (ConnectionState_done c)"
  unfolding ConnectionState_init_def ConnectionState_invariant_def ConnectionState_done_def ConnectionState_start_def
  by (intro keeps; simp)+

lemma typed_destroy [keeps]: "keeps_typed k (ConnectionState_destroy c)"
  by (rule keepsI) (auto simp: ConnectionState_destroy_def typed_hub_def cb_ok_def split: if_splits)

lemma typed_lock [keeps]:
  "yields_typed E \<Longrightarrow> keeps_typed k (ConnectionState_lock E c)" "yields_typed E \<Longrightarrow> keeps_typed k (ConnectionState_unlock E c)"
proof -
  have "keeps_typed k (\<lambda>w. None)" by (rule keepsI) simp
  note rules = keeps this
  show "yields_typed E \<Longrightarrow> keeps_typed k (ConnectionState_lock E c)" "yields_typed E \<Longrightarrow> keeps_typed k (ConnectionState_unlock E c)"
    unfolding ConnectionState_lock_def ConnectionState_unlock_def by (intro rules; simp)+
qed

lemma typed_logout [keeps]: "yields_typed E \<Longrightarrow> keeps_typed k (Member_logout E m)"
proof -
  have fin: "keeps_typed k (\<lambda>w. bind_opt (Member_logout_end T mc w (h_members w) a) (\<lambda>(mmap, w). Some (Inr ((), w\<lparr> h_members := mmap \<rparr>))))" for T mc a
    by (rule keepsI) (auto simp: bind_opt_eq_Inr intro: typed_frame [OF _ Member_logout_end_frame])
  show "yields_typed E \<Longrightarrow> keeps_typed k (Member_logout E m)"
    unfolding Member_logout_def by (intro keeps fin typed_lift_w) (auto intro: frames)
qed

lemma typed_destroy_client [keeps]: "keeps_typed k (server_destroy_client cl)"
  by (rule keepsI) (auto simp: server_destroy_client_def split: if_splits)

lemma typed_unregister_all [keeps]:
  "keeps_typed k (lift_w (\<lambda>w. bind_res (Route_unregister_all E (w :: ('b, 'n) hworld) (h_routes w) m) (\<lambda>w. Inr ((), w))))"
  by (rule typed_lift_w) (auto intro: frames)

lemma typed_close [keeps]:
  "yields_typed E \<Longrightarrow> keeps_typed k (ConnectionState_half_close E c)" "keeps_typed k (ConnectionState_rest_close c)"
  unfolding ConnectionState_half_close_def ConnectionState_rest_close_def by (intro keeps; simp)+

lemma typed_first_msg [keeps]: "keeps_typed k (lift_w (\<lambda>w. bind_res (Member_first_msg w m) (\<lambda>f. Inr (f, w))))"
  by (rule typed_lift_w) auto

lemma keeps_first [keeps]:
  "(\<And>msg. keeps p I (f msg)) \<Longrightarrow> keeps p I m \<Longrightarrow> keeps p I (case x of Returns msg \<Rightarrow> f msg | Sleeps \<Rightarrow> m)"
  by (cases x) simp_all

lemma typed_messages [keeps]:
  assumes "yields_typed E"
  shows "keeps_typed k (ConnectionState_read_msg E c)" "keeps_typed k (ConnectionState_dequeue_msg E c)"
    "keeps_typed k (ConnectionState_send_msg E c)"
  unfolding ConnectionState_read_msg_def ConnectionState_dequeue_msg_def ConnectionState_send_msg_def
  by (intro keeps assms; simp)+

lemma typed_incoming_loop [keeps]:
  assumes ex: "runs_typed ex" and E: "yields_typed E"
  shows "keeps_typed k (incoming_loop ex E c)"
proof (rule keepsI)
  fix w x w' assume w: "typed_hub k w" and run: "incoming_loop ex E c w = Some (Inr (x, w'))"
  have "\<forall>x w'. r = Inr (x, w') \<longrightarrow> runs_typed ex \<longrightarrow> yields_typed E \<longrightarrow> typed_hub k w \<longrightarrow> typed_hub k w'"
    if "incoming_loop ex E c w = Some r" for r
  proof (rule incoming_loop.raw_induct [where P = "\<lambda>ex E c w r. \<forall>x w'. r = Inr (x, w') \<longrightarrow> runs_typed ex \<longrightarrow>
      yields_typed E \<longrightarrow> typed_hub k w \<longrightarrow> typed_hub k w'", OF _ that], goal_cases)
    case (1 loop ex E c w r)
    show ?case
    proof (intro allI impI)
      fix x w' assume r: "r = Inr (x, w')" and ex: "runs_typed ex" and E: "yields_typed E" and w: "typed_hub k w"
      obtain rc w1 where w1: "ConnectionState_read_msg E c w = Some (Inr (rc, w1))"
        using 1(2) r by (auto simp: bind_opt_eq_Inr)
      have t1: "typed_hub k w1" using keepsD [OF typed_messages(1) [OF E] w1 w] .
      show "typed_hub k w'"
      proof (cases rc)
        case False
        then show ?thesis using 1(2) r w1 t1 by simp
      next
        case True
        have step: "keeps_typed k (bindp (ConnectionState_lock E c) (\<lambda>_. bindp (ex c UEv_MSG_RECV) (\<lambda>r.
          bindp (bindp (conn c) (\<lambda>s. if r = 0 \<and> c_recv_msg s \<noteq> None then bindp (ex c UEv_SVC_RECV) (\<lambda>_. ret ()) else ret ())) (\<lambda>_.
          ConnectionState_unlock E c))))"
          by (intro keeps ex E)
        obtain w2 u where w2: "(bindp (ConnectionState_lock E c) (\<lambda>_. bindp (ex c UEv_MSG_RECV) (\<lambda>r.
          bindp (bindp (conn c) (\<lambda>s. if r = 0 \<and> c_recv_msg s \<noteq> None then bindp (ex c UEv_SVC_RECV) (\<lambda>_. ret ()) else ret ())) (\<lambda>_.
          ConnectionState_unlock E c)))) w1 = Some (Inr (u, w2))" "loop ex E c w2 = Some r"
          using 1(2) r w1 True unfolding bindp_def by (auto simp: bind_opt_eq_Inr split_def)
        have "typed_hub k w2" by (rule keepsD [OF step w2(1) t1])
        then show ?thesis using 1(1) [OF w2(2)] r ex E by simp
      qed
    qed
  qed
  then show "typed_hub k w'" using run w ex E by blast
qed

text \<open>The tables name states only.\<close>

fun row_below :: "nat \<Rightarrow> ragel_row \<Rightarrow> bool" where
  "row_below N (singles, ranges, d) \<longleftrightarrow> list_all (\<lambda>(k, t, as). t < N) singles \<and> ranges = [] \<and> fst d < N"

lemma row_below_lookup: "row_below N row \<Longrightarrow> fst (row_lookup row c) < N"
proof (cases row)
  case (fields singles ranges d)
  then show "row_below N row \<Longrightarrow> ?thesis" by (induction singles arbitrary: row) auto
qed

lemma targets_below:
  assumes "list_all (\<lambda>cs. wf_keys T cs \<and> row_below N (ragel_row T cs)) [0 ..< N]" "cs < N"
  shows "fst (ragel_next T cs c) < N"
  using assms ragel_next_row [of T cs] row_below_lookup by (simp add: list_all_iff)

lemma connection_targets: "cs < 15 \<Longrightarrow> fst (ragel_next connection_tables cs c) < 15"
proof (rule targets_below)
  show "list_all (\<lambda>cs. wf_keys connection_tables cs \<and> row_below 15 (ragel_row connection_tables cs)) [0 ..< 15]" by code_simp
qed

lemma hub_targets: "cs < 6 \<Longrightarrow> fst (ragel_next hub_tables cs c) < 6"
proof (rule targets_below)
  show "list_all (\<lambda>cs. wf_keys hub_tables cs \<and> row_below 6 (ragel_row hub_tables cs)) [0 ..< 6]" by code_simp
qed

section \<open>Actions\<close>

lemma typed_incoming [keeps]:
  "runs_typed ex \<Longrightarrow> yields_typed E \<Longrightarrow> keeps_typed k (ConnectionState_incoming ex E c)"
  unfolding ConnectionState_incoming_def by (intro keeps)

lemma typed_abort [keeps]: "keeps_typed k (abort c)"
  unfolding abort_def ConnectionState_Aborting_def by (intro keeps; simp)

lemma typed_act_simple [keeps]:
  "keeps_typed k (act_begin c)" "keeps_typed k (act_established c)" "keeps_typed k (act_clear_recv c)"
  "keeps_typed k (act_clear_send c)" "keeps_typed k (act_service E c)" "keeps_typed k (act_msgid_check c)"
  "keeps_typed k (act_sent c)" "keeps_typed k (act_rest_close c)"
  unfolding act_begin_def act_established_def act_clear_recv_def act_clear_send_def act_service_def act_msgid_check_def
    act_sent_def act_rest_close_def
  by (intro keeps; simp)+

lemma typed_act_close [keeps]:
  "yields_typed E \<Longrightarrow> keeps_typed k (act_half_close E c)" "yields_typed E \<Longrightarrow> keeps_typed k (act_error E c)"
  unfolding act_half_close_def act_error_def by (intro keeps; assumption)+

lemma typed_act_key_prep [keeps]: "keeps_typed k (act_key_prep (E :: ('b, 'n) henv) c)"
proof -
  define prep :: "bstring \<Rightarrow> bstring \<Rightarrow> 'n \<Rightarrow> int \<Rightarrow> (unit, ('b, 'n, ('b, 'n) hworld) sess) proc"
    where "prep name key sock fd = bindp (CryptState_create (e_ltc E) name key) (\<lambda>_.
    bindp (modify (upd_crypt (\<lambda>st. st\<lparr> cs_data := Some c \<rparr>))) (\<lambda>_. Peer_create (e_io E) sock fd))" for name key sock fd
  have prep: "keeps s_rest I (prep name key sock fd)" for name key sock fd I
    unfolding prep_def by (intro keeps; simp)
  have "typed_hub k w'" if w: "typed_hub k w" and run: "act_key_prep E c w = Some (Inr (x, w'))" for w x w'
  proof -
    obtain s where s: "h_conns w c = Some s"
      using run by (cases "h_conns w c") (auto simp: act_key_prep_def bindp_def conn_def)
    obtain cl fd sock where cl: "c_client s = Some cl" "h_clients w cl = Some (fd, sock)"
      using run s by (auto simp: act_key_prep_def bindp_def [of "conn _"] conn_def crash_def split: option.splits)
    have "bindp (\<lambda>v. bind_opt (prep (h_name w) (h_key w) sock fd (zero_sess E sock v))
          (\<lambda>(_, t). Some (Inr ((), (put_sess (h_fresh w) t)\<lparr> h_fresh := h_fresh w + 1 \<rparr>))))
        (\<lambda>_. bindp (set_conn c (\<lambda>s. s\<lparr> c_peer := Some (h_fresh w) \<rparr>)) (\<lambda>_. ret Next_action)) w = Some (Inr (x, w'))"
      using run s cl by (simp add: act_key_prep_def bindp_def [of "conn _"] conn_def prep_def)
    then obtain r t where t: "prep (h_name w) (h_key w) sock fd (zero_sess E sock w) = Some (Inr (r, t))"
      and rest: "bindp (set_conn c (\<lambda>s. s\<lparr> c_peer := Some (h_fresh w) \<rparr>)) (\<lambda>_. ret Next_action)
        ((put_sess (h_fresh w) t)\<lparr> h_fresh := h_fresh w + 1 \<rparr>) = Some (Inr (x, w'))"
      by (subst (asm) bindp_def) (auto simp: bind_opt_eq_Inr)
    have "s_rest t = w"
      using keepsD [OF prep t, of "\<lambda>v. v = w"] by (simp add: zero_sess_def)
    then have "typed_hub k ((put_sess (h_fresh w) t)\<lparr> h_fresh := h_fresh w + 1 \<rparr>)"
      using w by (force simp: put_sess_def typed_hub_def cb_ok_def)
    moreover have step: "keeps_typed k (bindp (set_conn c (\<lambda>s. s\<lparr> c_peer := Some (h_fresh w) \<rparr>)) (\<lambda>_. ret Next_action))"
      by (intro keeps; simp)
    ultimately show ?thesis using keepsD [OF step rest] by blast
  qed
  then show ?thesis by (rule keepsI)
qed

lemma typed_confirm:
  assumes "runs_typed ex" "a < j"
  shows "confirm_keeps (typed_hub j) (ConnectionState_confirm_key ex a)"
  unfolding confirm_keeps_def
proof (intro allI impI)
  fix C er rc er' and w w' :: "('a, 'b) hworld"
  assume w: "typed_hub j w" and run: "ConnectionState_confirm_key ex a C er w = Some (Inr (rc, er', w'))"
  define v where "v = w\<lparr> w_errno := er, h_peers := (h_peers w)(a := map_option (\<lambda>p. p\<lparr> hp_crypt := C \<rparr>) (h_peers w a)) \<rparr>"
  obtain c r where "ex c UEv_PASS v = Some (Inr (r, w'))"
    using run by (auto simp: ConnectionState_confirm_key_def bind_opt_eq_Inr v_def split: option.splits)
  moreover have "typed_hub j v" using w by (auto simp: v_def typed_hub_def cb_ok_def split: if_splits)
  ultimately show "typed_hub j w'" using keepsD [OF typed_ex [OF assms(1)]] by blast
qed

text \<open>The peer that is tuned has a number below the next one, so the bound can be raised to it.\<close>

lemma typed_act_tune [keeps]:
  assumes ex: "runs_typed ex" and E: "yields_typed E"
  shows "keeps_typed k (act_tune ex E c)"
proof -
  have on: "keeps_typed k (on_peer (Some a) (Peer_establish_receiver (e_ltc E) (e_io E) (ConnectionState_confirm_key ex a)))" for a
  proof (rule keepsI)
    fix w x w' assume w: "typed_hub k w"
      and "on_peer (Some a) (Peer_establish_receiver (e_ltc E) (e_io E) (ConnectionState_confirm_key ex a)) w = Some (Inr (x, w'))"
    then obtain pr s where a: "h_peers w a = Some pr" "w' = put_sess a s"
      "Peer_establish_receiver (e_ltc E) (e_io E) (ConnectionState_confirm_key ex a) (sess_of pr w) = Some (Inr (x, s))"
      by (auto simp: on_peer_def bind_opt_eq_Inr split: option.splits)
    have "typed_hub (max k (Suc a)) w" using w a(1) by (force simp: typed_hub_def)
    then have "typed_hub (max k (Suc a)) (s_rest s)"
      using keepsD [OF rest_keeps_establish [OF typed_confirm [OF ex]] a(3), of "max k (Suc a)"] by (simp add: sess_of_def)
    then show "typed_hub k w'" unfolding a(2) by (rule typed_put_sess)
  qed
  show ?thesis unfolding act_tune_def by (intro on keeps E)
qed

lemma typed_act_register [keeps]: "keeps_typed k (act_register E c)"
proof -
  have login: "typed_hub k w'"
    if w: "typed_hub k w" and run: "bind_opt (Member_login T mc junk w mmap (h_fresh w) peer key)
      (\<lambda>(member, mmap, v). Some (Inr (member, v\<lparr> h_members := mmap, h_fresh := h_fresh w + 1 \<rparr>))) = Some (Inr (x, w'))"
    for w x w' T mc junk mmap peer key
  proof -
    obtain mmap' v where v: "Member_login T mc junk w mmap (h_fresh w) peer key = Some (Inr (x, mmap', v))"
      "w' = v\<lparr> h_members := mmap', h_fresh := h_fresh w + 1 \<rparr>"
      using run by (auto simp: bind_opt_eq_Inr)
    have "rframe (length registrations) w v" using v(1) by (rule frames)
    then have "typed_hub k v" "h_fresh v = h_fresh w"
      using w rframe_fresh by (blast intro: typed_frame)+
    then show ?thesis unfolding v(2) by simp
  qed
  show ?thesis unfolding act_register_def by (intro typed_alloc keeps; (rule login; assumption)?; simp)
qed

lemma typed_act_recv [keeps]: "keeps_typed k (act_recv E c)"
proof -
  have "keeps_typed k (bindp (gets h_fresh) (\<lambda>a.
       case d of
         DeconsFail freed \<Rightarrow>
           bindp (set_conn c (\<lambda>s. s\<lparr> c_recv_msg := None, c_freed := True \<rparr>)) (\<lambda>_. abort c)
       | DeconsOk msg \<Rightarrow>
           bindp (modify (\<lambda>w. w\<lparr> w_msgs := (w_msgs w)(a \<mapsto> msg\<lparr> m_from := sender \<rparr>), h_fresh := a + 1 \<rparr>)) (\<lambda>_.
           bindp (set_conn c (\<lambda>s. s\<lparr> c_recv_msg := Some a \<rparr>)) (\<lambda>_.
           ret Next_action))))" for d sender
    by (cases d; simp only: decons.case; intro typed_alloc keeps; auto simp: modify_def set_conn_def intro: keeps)
  note rules = this keeps
  show ?thesis unfolding act_recv_def by (intro rules; simp)
qed

section \<open>The machines\<close>

lemma typed_action [keeps]:
  "runs_typed ex \<Longrightarrow> yields_typed E \<Longrightarrow> keeps_typed k (connection_action ex E c a)"
  unfolding connection_action_def by (intro keeps)

lemma typed_run_acts [keeps]: "(\<And>a. keeps_typed k (act a)) \<Longrightarrow> keeps_typed k (run_acts act as)"
  by (induction as) (simp_all add: keeps)

lemma typed_conn_bind:
  assumes "\<And>s. c_cs s < 15 \<Longrightarrow> keeps_typed k (f s)"
  shows "keeps_typed k (bindp (conn c) f)"
proof (rule keepsI)
  fix w y w' assume w: "typed_hub k w" and "bindp (conn c) f w = Some (Inr (y, w'))"
  then obtain s where s: "h_conns w c = Some s" "f s w = Some (Inr (y, w'))"
    by (auto simp: bindp_def conn_def split: option.splits)
  have "c_cs s < 15" using w s(1) unfolding typed_hub_def by blast
  then show "typed_hub k w'" using keepsD [OF assms s(2) w] by blast
qed

lemma typed_exec [keeps]:
  assumes E: "yields_typed E"
  shows "keeps_typed k (ConnectionState_exec n E c ev)"
proof (induction n arbitrary: k c ev)
  case 0
  show ?case by (rule keepsI) simp
next
  case (Suc n)
  then have ex: "runs_typed (ConnectionState_exec n E)" by (simp add: runs_typed_def)
  show ?case unfolding ConnectionState_exec.simps
    by (intro typed_conn_bind keeps ex E) (use connection_targets in \<open>auto simp: prod_eq_iff dest: arg_cong [of _ _ fst]\<close>)
qed

lemma typed_finish [keeps]: "keeps_typed k (ConnectionState_finish E c)"
proof -
  have msg: "keeps_typed k (lift_w (\<lambda>w. bind_res (Message_destroy (w_msgs w) (Some a)) (\<lambda>st. Inr ((), w\<lparr> w_msgs := st \<rparr>))))" for a
    by (rule typed_lift_w) auto
  show ?thesis unfolding ConnectionState_finish_def
    by (intro keeps msg) (auto simp: typed_hub_def cb_ok_def)
qed

lemma typed_destroy_closed [keeps]: "keeps_typed k (destroy_closed i)"
proof (rule keepsI)
  fix w x w' assume w: "typed_hub k w" and run: "destroy_closed i w = Some (Inr (x, w'))"
  have "\<forall>x w'. r = Inr (x, w') \<longrightarrow> typed_hub k w \<longrightarrow> typed_hub k w'" if "destroy_closed i w = Some r" for r
  proof (rule destroy_closed.raw_induct [where P = "\<lambda>i w r. \<forall>x w'. r = Inr (x, w') \<longrightarrow> typed_hub k w \<longrightarrow> typed_hub k w'", OF _ that],
      goal_cases)
    case (1 loop i w r)
    show ?case
    proof (intro allI impI)
      fix x w' assume r: "r = Inr (x, w')" and w: "typed_hub k w"
      show "typed_hub k w'"
      proof (cases i)
        case None
        then show ?thesis using 1(2) r w by simp
      next
        case (Some c)
        then obtain s w1 u w2 where w2: "conn c w = Some (Inr (s, w1))" "ConnectionState_destroy c w1 = Some (Inr (u, w2))"
            "loop (c_next s) w2 = Some r"
          using 1(2) r by (simp add: bind_opt_eq_Inr split_def) (metis prod.collapse)
        have "typed_hub k w2" by (rule keepsD [OF typed_destroy w2(2) keepsD [OF typed_conn w2(1) w]])
        then show ?thesis using 1(1) [OF w2(3)] r by simp
      qed
    qed
  qed
  then show "typed_hub k w'" using run w by blast
qed

definition listens_typed :: "('b, 'n) henv \<Rightarrow> bool" where
  "listens_typed E \<longleftrightarrow> (\<forall>k w w'. typed_hub k w \<longrightarrow> e_server_listen E w = Some (Inr w') \<longrightarrow> typed_hub k w')"

lemma typed_hub_actions [keeps]:
  "keeps_typed k act_cleanup" "keeps_typed k (act_keys_ready E)" "keeps_typed k (act_close E)"
  unfolding act_cleanup_def act_keys_ready_def act_close_def by (intro keeps; simp)+

lemma typed_act_listen [keeps]: "listens_typed E \<Longrightarrow> keeps_typed k (act_listen E)"
  by (rule keepsI) (auto simp: act_listen_def bind_opt_eq_Inr listens_typed_def)

lemma typed_act_gen_key [keeps]: "keeps_typed k (act_gen_key (E :: ('b, 'n) henv) sock)"
proof (rule keepsI)
  fix w x and w' :: "('b, 'n) hworld" assume w: "typed_hub k w" and run: "act_gen_key E sock w = Some (Inr (x, w'))"
  define gen :: "(bstring, ('b, 'n, ('b, 'n) hworld) sess) proc" where "gen = bindp (CryptState_create (e_ltc E) (h_name w) (h_key w)) (\<lambda>_.
    bindp (CryptState_export_key (e_ltc E) CRYPT_MY_KEY PK_PRIVATE) (\<lambda>key. bindp (CryptState_destroy (e_ltc E)) (\<lambda>_. ret key)))"
  obtain key t where t: "gen (zero_sess E sock w) = Some (Inr (key, t))"
    and w': "w' = (s_rest t)\<lparr> h_key := key, h_prng := s_prng t, w_errno := s_errno t \<rparr>"
    using run by (auto simp: act_gen_key_def bind_opt_eq_Inr gen_def)
  have gen: "keeps s_rest (typed_hub k) gen" unfolding gen_def by (intro keeps)
  have "typed_hub k (s_rest t)" by (rule keepsD [OF gen t]) (simp add: zero_sess_def w)
  then show "typed_hub k w'" by (simp add: w')
qed

lemma typed_cs_bind:
  assumes "\<And>cs. cs < 6 \<Longrightarrow> keeps_typed k (f cs)"
  shows "keeps_typed k (bindp (gets h_cs) f)"
proof (rule keepsI)
  fix w y w' assume w: "typed_hub k w" and run: "bindp (gets h_cs) f w = Some (Inr (y, w'))"
  have "h_cs w < 6" using w unfolding typed_hub_def by simp
  then show "typed_hub k w'" using keepsD [OF assms _ w] run by simp
qed

lemma typed_set_cs [keeps]: "cs < 6 \<Longrightarrow> keeps_typed k (modify (\<lambda>w. w\<lparr> h_cs := cs \<rparr>))"
  by (rule typed_modify) (simp add: typed_hub_def cb_ok_def)

lemma typed_hub_action [keeps]: "listens_typed E \<Longrightarrow> keeps_typed k (hub_action E sock a)"
  unfolding hub_action_def by (intro keeps)

lemma typed_Hub_invariant [keeps]: "keeps_typed k Hub_invariant"
  unfolding Hub_invariant_def by (intro keeps)

lemma typed_Hub_exec [keeps]:
  assumes E: "listens_typed E"
  shows "keeps_typed k (Hub_exec E sock ev)"
  unfolding Hub_exec_def
proof (intro typed_cs_bind keeps_if keeps_prod typed_Hub_invariant)
  fix cs targ acts assume "cs < 6" "ragel_next hub_tables cs (schar (event_char ev)) = (targ, acts)"
  then have "targ < 6" using hub_targets [of cs "schar (event_char ev)"] by simp
  then show "keeps_typed k (bindp (modify (\<lambda>w. w\<lparr> h_cs := targ \<rparr>)) (\<lambda>_. bindp (run_acts (hub_action E sock) acts) (\<lambda>_. Hub_invariant)))"
    by (intro keeps_bindp typed_set_cs typed_run_acts typed_hub_action E typed_Hub_invariant)
qed

lemma typed_new_conn:
  "typed_hub k w \<Longrightarrow> typed_hub k (w\<lparr> h_conns := (h_conns w)(h_fresh w \<mapsto> zero_connection), h_fresh := Suc (h_fresh w) \<rparr>)"
  unfolding typed_hub_def cb_ok_def by (auto simp: zero_connection_def less_Suc_eq)

lemma typed_queue_conn [keeps]:
  assumes E: "yields_typed E"
  shows "keeps_typed k (Hub_queue_conn n E client)"
proof -
  have new: "keeps_typed k (bindp (gets h_fresh) (\<lambda>c.
      bindp (modify (\<lambda>w. w\<lparr> h_conns := (h_conns w)(c \<mapsto> zero_connection), h_fresh := c + 1 \<rparr>)) (\<lambda>_. ret c)))"
    by (rule typed_alloc) (auto simp: modify_def typed_new_conn)
  show ?thesis unfolding Hub_queue_conn_def Hub_new_or_reuse_conn_def
    by (intro new keeps E; simp add: zero_connection_def)
qed

lemma typed_connection_handler:
  "yields_typed E \<Longrightarrow> listens_typed E \<Longrightarrow> keeps_typed k (Hub_connection_handler n E sock client)"
  unfolding Hub_connection_handler_def by (intro keeps)

section \<open>Properties\<close>

lemma exec_result: "ConnectionState_exec n E c ev w = Some (Inr (r, w')) \<Longrightarrow> r = -1 \<or> r = 0 \<or> r = 1"
  by (cases n) (auto simp: bindp_def bind_opt_eq_Inr ret_def ConnectionState_invariant_def split_def split: if_splits)

text \<open>
  The machine of a connection never leaves its types. In a hub where every connection is in
  one of the states of the chart, the hub is in one of its own, every route with a callback has
  one of the commands and no number in use is handed out again, running any event to its end
  returns -1, 0 or 1 and gives such a hub, also when the run takes in the key exchange, the
  dispatch of messages and everything the reading task does, and whatever other tasks do
  meanwhile provided they keep these types.
\<close>

lemma ConnectionState_exec_typed:
  assumes "yields_typed E" "typed_hub k w" "ConnectionState_exec n E c ev w = Some (Inr (r, w'))"
  shows "typed_hub k w' \<and> r \<in> {-1, 0, 1}"
  using keepsD [OF typed_exec [OF assms(1)] assms(3,2)] exec_result [OF assms(3)] by simp

end
