(* ===== verification/Service.thy ===== *)
theory Service
  imports HubTyping
begin

text \<open>
  The commands of a hub at work: after \<open>Hub_commands_register\<close> every command is found under its
  route, and a message that names a command is handed to its callback.
\<close>

section \<open>Registering the commands\<close>

lemma Route_register_callback_ok:
  assumes tree: "tree_ok w root" and sort: "sglib_sort (e_sort E)" and er: "\<not> w_errno w" and n: "routable n"
    and words: "length (filter is_word (nd_child n)) < 29"
  obtains r w' rt where "Route_register_callback E w (Some root) (Some n) cb = Inr (True, w')" "tree_ok w' root"
    "walk w' root (route_names n) = Some r" "w_routes w' r = Some rt" "is_internal_callback rt" "rt_callback rt = Some cb"
    "\<not> w_errno w'" "\<forall>ns y. walk w root ns = Some y \<longrightarrow> walk w' root ns = Some y"
    "\<forall>x rx. x \<noteq> r \<longrightarrow> w_routes w x = Some rx \<longrightarrow>
       (\<exists>ry. w_routes w' x = Some ry \<and> is_internal_callback ry = is_internal_callback rx \<and> rt_callback ry = rt_callback rx)"
proof -
  define path where "path = n # filter is_word (nd_child n)"
  have path: "path \<noteq> []" "list_all element_ok path" "length path \<le> 30" "route_names n = path_names path"
    using n words by (auto simp: path_def routable_def list_all_iff route_names_def)
  have "walk w root [] = Some root" by simp
  from Route_add_ok [OF tree sort this path(1,2)] obtain r w1 where
    1: "Route_add E w root path = Inr (Some r, w1)" "tree_ok w1 root" "walk w1 root (path_names path) = Some r"
      "extends w w1" "\<forall>ns y. walk w root ns = Some y \<longrightarrow> walk w1 root ns = Some y"
    unfolding append_Nil by (elim exE conjE) (rule that)
  have w1: "\<not> w_errno w1" using 1(4) er by (simp add: extends_def)
  have "w_routes w1 root \<noteq> None" using 1(2) by (auto simp: tree_ok_def)
  then obtain rt where rt: "w_routes w1 r = Some rt" using walk_dom [OF 1(2) _ 1(3)] by auto
  define rt' where "rt' = rt\<lparr> is_internal_callback := True, rt_callback := Some cb \<rparr>"
  define w' where "w' = set_route r rt' w1"
  have same: "same_tree w1 w'" unfolding w'_def by (rule same_tree_set_route [OF rt]) (simp_all add: rt'_def)
  have "extend_path False [n] (nd_child n) = Some path"
    using extend_path_words [of "[n]" "nd_child n"] words by (simp add: path_def ROUTE_MAX_PATH_def)
  then have "Route_register_callback E w (Some root) (Some n) cb = Inr (True, w')"
    using er 1(1) w1 rt by (simp add: Route_register_callback_def Route_extend_and_find_def with_route_def w'_def rt'_def)
  moreover have "\<exists>ry. w_routes w' x = Some ry \<and> is_internal_callback ry = is_internal_callback rx \<and> rt_callback ry = rt_callback rx"
    if "x \<noteq> r" "w_routes w x = Some rx" for x rx
    using extendsD [OF 1(4) that(2)] that(1) by (auto simp: w'_def set_route_def)
  ultimately show thesis
    using that [of w' r rt'] same_tree_ok [OF same 1(2)] 1 w1 path(4) same_tree_facts(5) [OF same]
    by (simp add: w'_def set_route_def rt'_def)
qed

text \<open>A message for a command: the command in the group of its kind, with its arguments.\<close>

definition command :: "string \<Rightarrow> string \<Rightarrow> bool \<Rightarrow> node list \<Rightarrow> node" where
  "command ch kind linked args = Nd (Some kind) VGroup linked [Nd (Some ch) VGroup True args]"

lemma command_cons:
  assumes "NUL \<notin> set ch" "NUL \<notin> set kind" "ch \<noteq> []" "kind \<noteq> []"
  shows "Node_cons False ''[[ww'' [CWord (Some ch), CWord (Some kind)] = Inr (Some (command ch kind False []))"
  using assms by (simp add: Node_cons_def cons_step.simps Node_create_def attach_def LIST_ADD_def set_child_def command_def cstr_id)

definition name_good :: "string \<Rightarrow> bool" where
  "name_good s \<longleftrightarrow> NUL \<notin> set s \<and> s \<noteq> [] \<and> hd s \<noteq> CHR ''@''"

lemma command_routable:
  assumes "name_good ch" "name_good kind"
  shows "routable (command ch kind linked args)" "route_names (command ch kind linked args) = [kind, ch]"
    "nd_child (command ch kind linked args) = [Nd (Some ch) VGroup True args]"
  using assms by (auto simp: name_good_def routable_def element_ok_def name_ok_def command_def route_names_def path_names_def is_word_def
      bchar_def nd_type_def neq_Nil_conv)

definition registered :: "'z rworld_scheme \<Rightarrow> nat \<Rightarrow> (string \<times> string \<times> nat) set \<Rightarrow> bool" where
  "registered w root R \<longleftrightarrow>
     (\<forall>(ch, kind, cb) \<in> R. \<exists>r rt. walk w root [kind, ch] = Some r \<and> w_routes w r = Some rt \<and>
        is_internal_callback rt \<and> rt_callback rt = Some cb)"

lemma destroy_command: "\<exists>fr. destroy_opt (Some (command ch kind linked [])) = Inr fr"
  by (rule destroy_opt_ok) (simp add: destroyable_def command_def MAX_TREE_DEEP_def)

lemma register_loop_ok:
  assumes "h_routes w = Some root" "tree_ok w root" "sglib_sort (e_sort E)" "\<not> w_errno w" "registered w root R"
    "list_all (\<lambda>(ch, kind, cb). name_good ch \<and> name_good kind) regs"
    "distinct (map (\<lambda>(ch, kind, cb). (ch, kind)) regs)" "\<forall>(ch, kind, cb) \<in> R. \<forall>(ch', kind', cb') \<in> set regs. (ch, kind) \<noteq> (ch', kind')"
  shows "\<exists>w'. register_loop E regs w = Some (Inr (True, w')) \<and> tree_ok w' root \<and> \<not> w_errno w' \<and> rworld.more w' = rworld.more w \<and>
    registered w' root (R \<union> set regs)"
  using assms
proof (induction regs arbitrary: w R)
  case Nil
  then show ?case by (intro exI [of _ w]) (simp add: ret_def)
next
  case (Cons reg regs)
  obtain ch kind cb where reg: "reg = (ch, kind, cb)" by (cases reg)
  have good: "name_good ch" "name_good kind" using Cons.prems(6) reg by simp_all
  note node = command_routable [OF good, of False "[]"]
  obtain r w1 rt where 1: "Route_register_callback (base_env E) w (Some root) (Some (command ch kind False [])) cb = Inr (True, w1)"
    "tree_ok w1 root" "walk w1 root [kind, ch] = Some r" "w_routes w1 r = Some rt" "is_internal_callback rt" "rt_callback rt = Some cb"
    "\<not> w_errno w1" "\<forall>ns y. walk w root ns = Some y \<longrightarrow> walk w1 root ns = Some y"
    "\<forall>x rx. x \<noteq> r \<longrightarrow> w_routes w x = Some rx \<longrightarrow>
       (\<exists>ry. w_routes w1 x = Some ry \<and> is_internal_callback ry = is_internal_callback rx \<and> rt_callback ry = rt_callback rx)"
  proof -
    have sort: "sglib_sort (e_sort (base_env E))" using Cons.prems(3) by (simp add: base_env_def)
    have words: "length (filter is_word (nd_child (command ch kind False []))) < 29" by (simp add: node(3))
    show ?thesis
      by (rule Route_register_callback_ok [OF Cons.prems(2) sort Cons.prems(4) node(1) words, of cb]) (rule that, simp_all only: node(2) not_False_eq_True)
  qed
  have more: "rworld.more w1 = rworld.more w"
    using Route_register_callback_frame [OF 1(1), of "Suc cb"] by (simp add: rframe_def)
  then have rts: "h_routes w1 = Some root" using Cons.prems(1) by (cases w; cases w1) simp
  have "registered w1 root R"
    unfolding registered_def
  proof clarify
    fix ch' kind' cb' assume in_R: "(ch', kind', cb') \<in> R"
    then obtain x rx where x: "walk w root [kind', ch'] = Some x" "w_routes w x = Some rx" "is_internal_callback rx" "rt_callback rx = Some cb'"
      using Cons.prems(5) unfolding registered_def by blast
    have "walk w1 root [kind', ch'] = Some x" using 1(8) x(1) by blast
    moreover have "x \<noteq> r"
      using walk_unique [OF 1(2,3), of "[kind', ch']"] calculation Cons.prems(8) in_R by (auto simp: reg)
    ultimately show "\<exists>r rt. walk w1 root [kind', ch'] = Some r \<and> w_routes w1 r = Some rt \<and> is_internal_callback rt \<and> rt_callback rt = Some cb'"
      using 1(9) x by metis
  qed
  then have "registered w1 root (insert reg R)" using 1(3-6) by (simp add: registered_def reg)
  moreover have "\<forall>(c, k, b) \<in> insert reg R. \<forall>(ch', kind', cb') \<in> set regs. (c, k) \<noteq> (ch', kind')"
    using Cons.prems(7,8) by (force simp: reg)
  moreover have "list_all (\<lambda>(ch, kind, cb). name_good ch \<and> name_good kind) regs" "distinct (map (\<lambda>(ch, kind, cb). (ch, kind)) regs)"
    using Cons.prems(6,7) by simp_all
  ultimately obtain w' where w': "register_loop E regs w1 = Some (Inr (True, w'))" "tree_ok w' root" "\<not> w_errno w'" "rworld.more w' = rworld.more w1"
    "registered w' root (insert reg R \<union> set regs)"
    using Cons.IH [OF rts 1(2) Cons.prems(3) 1(7), of "insert reg R"] by blast
  obtain u where "destroy_opt (Some (command ch kind False [])) = Inr u" using destroy_command by blast
  then have "register_loop E (reg # regs) w = Some (Inr (True, w'))"
    using command_cons [of ch kind] good Cons.prems(1,4) 1(1,7) w'(1)
    by (simp add: reg name_good_def bindp_def consw_def checkw_def lift_w_def)
  then show ?case using w' more by (intro exI [of _ w']) simp
qed

lemma more_fields:
  assumes "rworld.more w' = rworld.more w"
  shows "h_cs w' = h_cs w" "h_host w' = h_host w" "h_port w' = h_port w" "h_name w' = h_name w" "h_key w' = h_key w"
    "h_server w' = h_server w" "h_members w' = h_members w" "h_closed w' = h_closed w" "h_routes w' = h_routes w"
    "h_conns w' = h_conns w" "h_peers w' = h_peers w" "h_clients w' = h_clients w" "h_fresh w' = h_fresh w"
  using assms by (cases w; cases w'; simp)+

lemma registrations_good:
  "list_all (\<lambda>(ch, kind, cb). name_good ch \<and> name_good kind) registrations"
  "distinct (map (\<lambda>(ch, kind, cb). (ch, kind)) registrations)"
  by (simp_all add: registrations_def name_good_def NUL_def)

lemma new_root:
  assumes "w_routes w = Map.empty"
  obtains w' where "Route_create_root E w (Some ''root'') = Inr (w_next w, w')" "tree_ok w' (w_next w)"
    "rworld.more w' = rworld.more w" "w_errno w' = w_errno w"
proof -
  define w' where "w' = (set_route (w_next w) sample_root w)\<lparr> w_next := w_next w + 1 \<rparr>"
  have "Route_create_root E w (Some ''root'') = Inr (w_next w, w')"
    by (simp add: Route_create_root_def Route_alloc_def w'_def sample_root_def set_route_def cstr_def NUL_def Let_def)
  moreover have "tree_ok w' (w_next w)"
  proof -
    have ch: "children w' = (\<lambda>_. [])" using assms by (intro ext) (simp add: children_def w'_def set_route_def sample_root_def)
    show ?thesis unfolding tree_ok_def ch
      using assms by (auto simp: w'_def set_route_def sample_root_def name_ok_def sorted_heap_create NUL_def)
  qed
  ultimately show thesis by (rule that) (simp_all add: w'_def set_route_def)
qed

text \<open>
  (C36) A hub that is made with a key is ready: \<open>Hub_create\<close> returns it in the state that waits
  for \<open>Hub_listen\<close>, with its server, the given names and key, no member, and a tree in which
  every one of the twelve commands is found, whatever arguments a message gives it, and has its
  own callback.
\<close>

theorem Hub_create_ready:
  assumes "w_routes w = Map.empty" "\<not> w_errno w" "sglib_sort (e_sort E)" "e_server_create E"
  shows "\<exists>w' root. Hub_create E sock (Some host) (Some port) (Some name) (Some key) w = Some (Inr (True, w')) \<and>
    h_cs w' = 2 \<and> h_server w' \<and> h_host w' = Some host \<and> h_name w' = Some name \<and> h_key w' = Some key \<and> h_members w' = [] \<and>
    h_routes w' = Some root \<and> tree_ok w' root \<and>
    (\<forall>(ch, kind, cb) \<in> set registrations. \<forall>linked args. \<exists>r rt.
       Route_find w' (Some root) (Some (command ch kind linked args)) = Inr (Some r, w') \<and>
       w_routes w' r = Some rt \<and> is_internal_callback rt \<and> rt_callback rt = Some cb)"
proof -
  define w0 where "w0 = w\<lparr> h_cs := 0, h_host := Some host, h_port := Some port, h_name := Some name, h_key := None, h_server := False,
       h_members := [], h_closed := None, h_routes := None \<rparr>"
  define root where "root = w_next w0"
  obtain w1 where w1: "Route_create_root (base_env E) w0 (Some ''root'') = Inr (root, w1)" "tree_ok w1 root"
    "rworld.more w1 = rworld.more w0" "w_errno w1 = w_errno w0"
    using new_root [of w0 "base_env E"] assms(1) by (auto simp: w0_def root_def)
  define w2 where "w2 = w1\<lparr> h_routes := Some root \<rparr>"
  have same2: "same_tree w1 w2" by (simp add: same_tree_def w2_def)
  have w2: "h_routes w2 = Some root" "tree_ok w2 root" "\<not> w_errno w2" "registered w2 root {}"
    using same_tree_ok [OF same2 w1(2)] w1(4) assms(2) by (simp_all add: w2_def w0_def registered_def)
  obtain w3 where w3: "register_loop E registrations w2 = Some (Inr (True, w3))" "tree_ok w3 root" "\<not> w_errno w3"
    "rworld.more w3 = rworld.more w2" "registered w3 root (set registrations)"
    using register_loop_ok [OF w2(1,2) assms(3) w2(3,4) registrations_good] by (simp only: Un_empty_left ball_empty) blast
  define w4 where "w4 = w3\<lparr> h_cs := 2, h_server := True, h_key := Some key \<rparr>"
  note f = more_fields [OF w3(4)] more_fields [OF w1(3)]
  have "Hub_commands_register E w2 = Some (Inr (True, w3))"
    using w3(1) w2(1) by (simp add: Hub_commands_register_def)
  moreover have "Hub_exec E sock UEv_KEY_FILE_LOAD (w3\<lparr> h_cs := 1 \<rparr>) = Some (Inr (0, w3\<lparr> h_cs := 2, h_server := True \<rparr>))"
    using hub_next [of 1 UEv_KEY_FILE_LOAD] assms(4)
    by (simp add: Hub_exec_def hub_action_def act_keys_ready_def Hub_invariant_def Hub_error_def Hub_first_final_def bindp_assoc)
      (simp add: bindp_def ret_def gets_def Hub_first_final_def)
  ultimately have "Hub_create E sock (Some host) (Some port) (Some name) (Some key) w = Some (Inr (True, w4))"
    using w1(1) w3(3)
    by (simp add: Hub_create_def w0_def [symmetric] bindp_lift_w w2_def [symmetric] bindp_Some Hub_start_def checkw_def w4_def)
      (simp add: ret_def)
  moreover have same4: "same_tree w3 w4" by (simp add: same_tree_def w4_def)
  note tree4 = same_tree_ok [OF same4 w3(2)]
  have "\<exists>r rt. Route_find w4 (Some root) (Some (command ch kind linked args)) = Inr (Some r, w4) \<and>
       w_routes w4 r = Some rt \<and> is_internal_callback rt \<and> rt_callback rt = Some cb"
    if reg: "(ch, kind, cb) \<in> set registrations" for ch kind cb linked args
  proof -
    have good: "name_good ch" "name_good kind" using registrations_good(1) that by (auto simp: list_all_iff)
    obtain r rt where r: "walk w3 root [kind, ch] = Some r" "w_routes w3 r = Some rt" "is_internal_callback rt" "rt_callback rt = Some cb"
      using bspec [OF w3(5) [unfolded registered_def] reg] by auto
    have "Route_find w4 (Some root) (Some (command ch kind linked args)) = Inr (walk w4 root [kind, ch], w4)"
      using Route_find_walk [OF tree4, of "command ch kind linked args"] command_routable [OF good, of linked args] w3(3)
      by (simp add: w4_def ROUTE_MAX_PATH_def)
    then have "Route_find w4 (Some root) (Some (command ch kind linked args)) = Inr (Some r, w4)"
      by (simp only: same_tree_facts(5) [OF same4] r(1))
    moreover have "w_routes w4 r = Some rt" using r(2) by (simp add: w4_def)
    ultimately show ?thesis using r(3,4) by blast
  qed
  ultimately show ?thesis using tree4 f
    by (intro exI [of _ w4] exI [of _ root]) (auto simp: w4_def w2_def w0_def)
qed

lemma Hub_create_ready_witness:
  "\<exists>w' root r. Hub_create plain_env ([], []) (Some ''0.0.0.0'') (Some ''80'') (Some ''hub'') (Some ''key'')
       (sending_hub\<lparr> w_routes := Map.empty \<rparr>) = Some (Inr (True, w')) \<and>
     Route_find w' (Some root) (Some (command ''ping'' ''system'' True [Nd None (VNumber 3) True []])) = Inr (Some r, w')"
proof -
  have env: "sglib_sort (e_sort plain_env)" "e_server_create plain_env" by (simp_all add: plain_env_def sglib_sort_isort)
  have hub: "w_routes (sending_hub\<lparr> w_routes := Map.empty \<rparr>) = Map.empty" "\<not> w_errno (sending_hub\<lparr> w_routes := Map.empty \<rparr>)"
    by (simp_all add: sending_hub_def)
  from Hub_create_ready [OF hub env, of "([], [])" "''0.0.0.0''" "''80''" "''hub''" "''key''"] obtain w' root where
    run: "Hub_create plain_env ([], []) (Some ''0.0.0.0'') (Some ''80'') (Some ''hub'') (Some ''key'')
       (sending_hub\<lparr> w_routes := Map.empty \<rparr>) = Some (Inr (True, w'))"
    and found: "\<forall>(ch, kind, cb) \<in> set registrations. \<forall>linked args. \<exists>r rt.
       Route_find w' (Some root) (Some (command ch kind linked args)) = Inr (Some r, w') \<and>
       w_routes w' r = Some rt \<and> is_internal_callback rt \<and> rt_callback rt = Some cb"
    by blast
  have "(''ping'', ''system'', 11) \<in> set registrations" by (simp add: registrations_def)
  with found obtain r where "Route_find w' (Some root) (Some (command ''ping'' ''system'' True [Nd None (VNumber 3) True []])) = Inr (Some r, w')"
    by blast
  with run show ?thesis by blast
qed

section \<open>Dispatch\<close>

text \<open>What \<open>Hub_service_message\<close> does with a message for a command.\<close>

lemma service_command:
  assumes s: "h_conns w c = Some s" "c_recv_msg s = Some a" "w_msgs w a = Some msg" "m_from msg = Some m"
    and d: "m_data msg = Some d" "cu_node d = command ch kind linked (n # ns)"
    and w: "h_routes w = Some root" "tree_ok w root" "registered w root (set registrations)" "\<not> w_errno w"
    and reg: "(ch, kind, cb) \<in> set registrations"
  obtains cu where "cu_node cu = n" "cu_sibs cu = ns"
    "Hub_service_message E c w = bindp ((callbacks ! cb) E c m cu) (\<lambda>rc. checkw rc (bindp (ref_inc a) (\<lambda>_. ret False)) (ret True)) w"
proof -
  have good: "name_good ch" "name_good kind" using registrations_good(1) reg by (auto simp: list_all_iff)
  note node = command_routable [OF good, of linked "n # ns"]
  obtain r rt where r: "walk w root [kind, ch] = Some r" "w_routes w r = Some rt" "is_internal_callback rt" "rt_callback rt = Some cb"
    using bspec [OF w(3) [unfolded registered_def] reg] by auto
  have find: "Route_find w (Some root) (Some (command ch kind linked (n # ns))) = Inr (Some r, w)"
    using Route_find_walk [OF w(2,4) node(1)] node(3) by (simp only: node(2) r(1)) (simp add: ROUTE_MAX_PATH_def)
  obtain sibs path where cu: "d = Cur (command ch kind linked (n # ns)) sibs path" using d(2) by (cases d) simp
  define me where "me = Cur n ns ((Nd (Some ch) VGroup True (n # ns), []) # (command ch kind linked (n # ns), sibs) # path)"
  have ex: "extract_message msg = Inr (Some me)" using d(1) by (simp add: extract_message_def cu command_def me_def)
  have "Hub_service_message E c w = bindp ((callbacks ! cb) E c m me) (\<lambda>rc. checkw rc (bindp (ref_inc a) (\<lambda>_. ret False)) (ret True)) w"
    using s w(1,4) find r(2-4) ex d
    by (simp add: Hub_service_message_def recv_message_def bindp_assoc bindp_lift_w checkw_def with_route_def Let_def)
  then show thesis by (rule that [rotated 2]) (simp_all add: me_def)
qed

text \<open>
  (C37) Any peer can stop the hub with one message: a request to register for a route whose first
  element has no name, a number or a string for instance, is found and dispatched, and ends in a
  failed assertion of \<open>Route_alloc\<close>, whatever else the message holds and whoever sent it.
\<close>

theorem register_null_name_stops_hub:
  assumes "h_conns w c = Some s" "c_recv_msg s = Some a" "w_msgs w a = Some msg" "m_from msg = Some m"
    and "m_data msg = Some d" "cu_node d = command ''register'' ''route'' linked (n # ns)"
    and "nd_name n = None" "length (nd_child n) < ROUTE_MAX_PATH"
    and "h_routes w = Some root" "tree_ok w root" "registered w root (set registrations)" "\<not> w_errno w"
  shows "Hub_service_message E c w = Some (Inl AssertFailed)"
proof -
  have "(''register'', ''route'', 0) \<in> set registrations" by (simp add: registrations_def)
  from service_command [OF assms(1-6,9-12) this, of E] obtain cu where
    cu: "cu_node cu = n" "Hub_service_message E c w =
      bindp ((callbacks ! 0) E c m cu) (\<lambda>rc. checkw rc (bindp (ref_inc a) (\<lambda>_. ret False)) (ret True)) w" by blast
  have "w_routes w root \<noteq> None" using assms(10) by (auto simp: tree_ok_def)
  then have "Hub_route_register_cb E c m cu w = Some (Inl AssertFailed)"
    using Route_register_null_name [OF assms(10) _ assms(7,8,12), of "base_env E" m] assms(9) cu(1)
    by (simp add: Hub_route_register_cb_def lift_w_def)
  then show ?thesis unfolding cu(2) by (simp add: callbacks_def bindp_fault)
qed

lemma ready_hub:
  obtains w :: "(string, string \<times> string) hworld" and root where "h_routes w = Some root" "tree_ok w root"
    "registered w root (set registrations)" "\<not> w_errno w" "h_conns w = C" "w_msgs w = M" "w_members w = N"
proof -
  define w0 where "w0 = sending_hub\<lparr> w_routes := Map.empty, w_msgs := M, w_members := N \<rparr>"
  obtain w1 where w1: "Route_create_root (base_env plain_env) w0 (Some ''root'') = Inr (w_next w0, w1)" "tree_ok w1 (w_next w0)"
    "rworld.more w1 = rworld.more w0" "w_errno w1 = w_errno w0"
    using new_root [of w0 "base_env plain_env"] by (auto simp: w0_def)
  define w2 where "w2 = w1\<lparr> h_routes := Some (w_next w0) \<rparr>"
  have same2: "same_tree w1 w2" by (simp add: same_tree_def w2_def)
  have w2: "h_routes w2 = Some (w_next w0)" "tree_ok w2 (w_next w0)" "\<not> w_errno w2" "registered w2 (w_next w0) {}"
    using same_tree_ok [OF same2 w1(2)] w1(4) by (simp_all add: w2_def w0_def registered_def sending_hub_def)
  have sort: "sglib_sort (e_sort plain_env)" by (simp add: plain_env_def sglib_sort_isort)
  obtain w3 where w3: "register_loop plain_env registrations w2 = Some (Inr (True, w3))" "tree_ok w3 (w_next w0)" "\<not> w_errno w3"
    "rworld.more w3 = rworld.more w2" "registered w3 (w_next w0) (set registrations)"
    using register_loop_ok [OF w2(1,2) sort w2(3,4) registrations_good] by auto
  define w where "w = w3\<lparr> h_conns := C, w_msgs := M, w_members := N \<rparr>"
  have same: "same_tree w3 w" by (simp add: same_tree_def w_def)
  show thesis
  proof (rule that [of w "w_next w0"])
    show "h_routes w = Some (w_next w0)" using more_fields(9) [OF w3(4)] w2(1) by (simp add: w_def)
    show "tree_ok w (w_next w0)" by (rule same_tree_ok [OF same w3(2)])
    show "registered w (w_next w0) (set registrations)"
      using w3(5) unfolding registered_def same_tree_facts(5) [OF same] by (simp add: w_def)
  qed (use w3(3) in \<open>simp_all add: w_def\<close>)
qed

definition null_request :: Message where
  "null_request = message_test_calloc\<lparr> m_from := Some 4,
     m_data := Some (root_cursor (command ''register'' ''route'' False [Nd None (VNumber 1) True []])) \<rparr>"

lemma register_null_name_stops_hub_witness:
  "\<exists>w. w_msgs w 5 = Some null_request \<and> Hub_service_message plain_env 9 w = Some (Inl AssertFailed)"
proof -
  define s where "s = sending_connection\<lparr> c_cs := phase_cs Delivering, c_send_msg := None, c_recv_msg := Some 5 \<rparr>"
  obtain w :: "(string, string \<times> string) hworld" and root where w: "h_routes w = Some root" "tree_ok w root"
    "registered w root (set registrations)" "\<not> w_errno w" "h_conns w = [9 \<mapsto> s]" "w_msgs w = [5 \<mapsto> null_request]"
    by (rule ready_hub [of "[9 \<mapsto> s]" "[5 \<mapsto> null_request]" Map.empty])
  have "Hub_service_message plain_env 9 w = Some (Inl AssertFailed)"
    by (rule register_null_name_stops_hub [of w 9 s 5 null_request 4 "root_cursor (command ''register'' ''route'' False [Nd None (VNumber 1) True []])"
        False "Nd None (VNumber 1) True []" "[]", OF _ _ _ _ _ _ _ _ w(1-4)])
      (simp_all add: w(5,6) s_def null_request_def root_cursor_def ROUTE_MAX_PATH_def)
  then show ?thesis using w(6) by (intro exI [of _ w]) simp
qed

section \<open>A message is queued while the connection is aborted\<close>

lemma header_cons:
  "Node_cons False ''[nw'' [CNumber k, CWord (Some ''header'')] = Inr (Some (Nd (Some ''header'') VGroup False [Nd None (VNumber k) True []]))"
  by (simp add: Node_cons_def cons_step.simps cons_leaf_def Node_create_def attach_def LIST_ADD_def set_child_def cstr_def NUL_def)

text \<open>
  (C38) A peer whose message the hub refuses brings the hub down when a message waits for it. The
  reading task leaves the connection in the state \<open>Aborting\<close>; the sending task then takes the
  next message from the queue and reports it. In this state every event closes the connection
  and logs the member out, and counts as a success, so the task goes on to send the message to
  the member of the connection, which is NULL now.
\<close>

theorem queued_while_aborting:
  assumes s: "h_conns w c = Some s" "c_cs s = phase_cs Aborting" "c_client s = Some cl" "c_member s = Some m" "\<not> c_lock s"
    and h: "h_clients w cl \<noteq> None" "h_routes w \<noteq> None" "h_members w \<noteq> []"
    and mb: "w_members w m = Some mb" "queue_ok (mb_queue mb)" "q_list (mb_queue mb) = [a]" "\<not> q_dead (mb_queue mb)"
      "HEAP_ITERATE (mb_routes mb) = []" "keys_there w (mb_key mb) (h_members w)"
    and refs: "refs_ok (w_msgs w) f" "f a = 1" and er: "\<not> w_errno w" and E: "e_yield E = (\<lambda>w. Some (Inr w))"
  shows "ConnectionState_outgoing (ConnectionState_exec (Suc n) E) E c w = Some (Inl NullDeref)"
proof -
  define s1 where "s1 = s\<lparr> c_send_msg := Some a, c_lock := True \<rparr>"
  define w1 where "w1 = w\<lparr> h_conns := (h_conns w)(c \<mapsto> s1) \<rparr>"
  have "MsgQueue_first (mb_queue mb) = Returns (Some a)"
    using is_empty_list [OF mb(2)] get_first_list [OF mb(2)] mb(3,4) by (simp add: MsgQueue_first_def MsgQueue_is_dead_def)
  then have deq: "ConnectionState_dequeue_msg E c w = Some (Inr (True, w\<lparr> h_conns := (h_conns w)(c \<mapsto> s\<lparr> c_send_msg := Some a \<rparr>) \<rparr>))"
    using s mb(1)
    by (simp add: ConnectionState_dequeue_msg_def ConnectionState_done_def ConnectionState_error_def ConnectionState_first_final_def
        bindp_assoc bindp_lift_w Member_first_msg_def with_member_def) (simp add: ret_def)
  have lock: "ConnectionState_lock E c (w\<lparr> h_conns := (h_conns w)(c \<mapsto> s\<lparr> c_send_msg := Some a \<rparr>) \<rparr>) = Some (Inr ((), w1))"
    using s(1,5) by (simp add: ConnectionState_lock_def w1_def s1_def)
  define w2 where "w2 = w1\<lparr> h_conns := (h_conns w1)(c \<mapsto> s1\<lparr> c_cs := phase_cs Closing \<rparr>) \<rparr>"
  obtain w3 where half: "ConnectionState_half_close E c w2 = Some (Inr (True, w3))"
    and w3: "h_conns w3 c = Some (s1\<lparr> c_cs := phase_cs Closing, c_client := None, c_member := None \<rparr>)"
      "w_errno w3 = w_errno w"
  proof (rule half_close_member [of w2 c "s1\<lparr> c_cs := phase_cs Closing \<rparr>" cl m mb a f E])
    show "keys_there w2 (mb_key mb) (h_members w2)" using mb(6) by (simp add: w2_def w1_def keys_there_def member_key_def)
  qed (use s h mb refs E in \<open>simp_all add: w2_def w1_def s1_def\<close>)
  have "h_conns w1 c = Some s1" "c_cs s1 = phase_cs Aborting" using s(2) by (simp_all add: w1_def s1_def)
  from exec_phase [OF this, of n E UEv_MSG_QUEUED]
  have "ConnectionState_exec (Suc n) E c UEv_MSG_QUEUED w1 =
      bindp (run_acts (connection_action (ConnectionState_exec n E) E c) [12, 20]) (\<lambda>_. ConnectionState_invariant c) w2"
    by (simp add: w2_def del: ConnectionState_exec.simps run_acts.simps)
  also have "\<dots> = Some (Inr (0, w3))"
    using half w3(1) by (simp add: connection_action_def act_half_close_def bindp_assoc bindp_Some ConnectionState_invariant_def
        ConnectionState_error_def ConnectionState_first_final_def) (simp add: ret_def)
  finally have "ConnectionState_exec (Suc n) E c UEv_MSG_QUEUED w1 = Some (Inr (0, w3))" .
  moreover have "ConnectionState_send_msg E c w3 = Some (Inl NullDeref)"
  proof -
    show ?thesis using w3 er header_cons [of "c_send_count s1"]
      by (simp add: ConnectionState_send_msg_def ConnectionState_done_def ConnectionState_error_def ConnectionState_first_final_def
        bindp_assoc consw_def bindp_def [of "consw _ _"] crash_def)
  qed
  ultimately have "outgoing_loop (ConnectionState_exec (Suc n) E) E c w = Some (Inl NullDeref)"
    using deq lock by (subst outgoing_loop.simps) (simp add: bindp_fault del: ConnectionState_exec.simps)
  then show ?thesis by (simp add: ConnectionState_outgoing_def bindp_fault del: ConnectionState_exec.simps)
qed

definition aborting_hub :: "(string, string \<times> string) hworld" where
  "aborting_hub = sending_hub\<lparr> h_conns := [9 \<mapsto> sending_connection\<lparr> c_send_msg := None, c_lock := False, c_cs := phase_cs Aborting \<rparr>] \<rparr>"

lemma queued_while_aborting_witness:
  "ConnectionState_outgoing (ConnectionState_exec 1 plain_env) plain_env 9 aborting_hub = Some (Inl NullDeref)"
proof -
  have refs: "refs_ok [5 \<mapsto> Message_ref_inc message_test_calloc] (\<lambda>a. if a = 5 then 1 else 0)"
    by (simp add: refs_ok_def Message_ref_inc_def message_test_calloc_def msg_ok_def destroyable_def)
  have "ConnectionState_outgoing (ConnectionState_exec (Suc 0) plain_env) plain_env 9 aborting_hub = Some (Inl NullDeref)"
    by (rule queued_while_aborting [of aborting_hub 9 "sending_connection\<lparr> c_send_msg := None, c_lock := False, c_cs := phase_cs Aborting \<rparr>"
          7 4 sending_member 5 "\<lambda>a. if a = 5 then 1 else 0" plain_env 0])
      (use refs in \<open>simp_all add: aborting_hub_def sending_hub_def sending_connection_def zero_connection_def sending_member_def sample_member_def
        queue_ok_def q_list_def q_len_def Heap_create_def HEAP_ITERATE_def keys_there_def member_key_def plain_env_def
        del: ConnectionState_exec.simps\<close>)
  then show ?thesis by simp
qed

end
