(* ===== verification/Bstrlib.thy ===== *)
theory Bstrlib
  imports Bstring
begin

text \<open>
  The storage behind a bstring: \<open>struct tagbstring\<close>, the growth of its buffer and the functions
  of \<open>src/myriad/bstring/bstrlib.c\<close> that make, copy, extend and cut strings, with every access
  to a buffer checked against its size. The theory \<open>Bstring\<close> gives the same functions on
  contents; here it is shown that the buffers hold these contents.
\<close>

unbundle bit_operations_syntax

section \<open>Integers and storage\<close>

definition BSTR_ERR :: int where "BSTR_ERR = -1"

definition BSTR_OK :: int where "BSTR_OK = 0"

text \<open>
  The C library's allocator: whether a request for so many bytes is granted, and what the bytes
  of new storage happen to be.
\<close>

record allocator =
  a_malloc :: "int \<Rightarrow> bool"
  a_realloc :: "int \<Rightarrow> bool"
  a_fill :: "nat \<Rightarrow> char"

text \<open>An \<open>int\<close> argument becomes a \<open>size_t\<close>.\<close>

definition malloc :: "allocator \<Rightarrow> int \<Rightarrow> string option" where
  "malloc A n =
     (let m = n mod 2 ^ 64
      in if a_malloc A m then Some (List.map (a_fill A) [0..<nat m]) else None)"

definition realloc :: "allocator \<Rightarrow> string \<Rightarrow> int \<Rightarrow> string option" where
  "realloc A d n =
     (let m = n mod 2 ^ 64
      in if a_realloc A m then Some (take (nat m) d @ List.map (a_fill A) [length d..<nat m])
         else None)"

record tagbstring =
  bs_mlen :: int
  bs_slen :: int
  bs_data :: "string option"

definition SIZEOF_TAGBSTRING :: int where "SIZEOF_TAGBSTRING = 16"

text \<open>
  One byte of the buffer written and read, and a run of bytes read and written; outside of what
  was allocated is undefined.
\<close>

definition store :: "tagbstring \<Rightarrow> int \<Rightarrow> char \<Rightarrow> tagbstring res" where
  "store b i c =
     (case bs_data b of
        None \<Rightarrow> Inl NullDeref
      | Some d \<Rightarrow>
          if 0 \<le> i \<and> i < int (length d) then Inr (b\<lparr> bs_data := Some (d[nat i := c]) \<rparr>)
          else Inl Undefined)"

definition fetch :: "tagbstring \<Rightarrow> int \<Rightarrow> char res" where
  "fetch b i =
     (case bs_data b of
        None \<Rightarrow> Inl NullDeref
      | Some d \<Rightarrow> if 0 \<le> i \<and> i < int (length d) then Inr (d ! nat i) else Inl Undefined)"

definition load :: "tagbstring \<Rightarrow> int \<Rightarrow> int \<Rightarrow> string res" where
  "load b i n =
     (case bs_data b of
        None \<Rightarrow> if n = 0 then Inr [] else Inl NullDeref
      | Some d \<Rightarrow>
          if 0 \<le> i \<and> 0 \<le> n \<and> i + n \<le> int (length d) then Inr (take (nat n) (drop (nat i) d))
          else Inl Undefined)"

definition blit :: "tagbstring \<Rightarrow> int \<Rightarrow> string \<Rightarrow> tagbstring res" where
  "blit b i s =
     (case bs_data b of
        None \<Rightarrow> if s = [] then Inr b else Inl NullDeref
      | Some d \<Rightarrow>
          if 0 \<le> i \<and> i + int (length s) \<le> int (length d)
          then Inr (b\<lparr> bs_data := Some (take (nat i) d @ s @ drop (nat i + length s) d) \<rparr>)
          else Inl Undefined)"

text \<open>\<open>memmove\<close> and \<open>memcpy\<close> of \<open>L\<close> bytes, and the macro that leaves them out for none.\<close>

definition memmove :: "tagbstring \<Rightarrow> int \<Rightarrow> tagbstring \<Rightarrow> int \<Rightarrow> int \<Rightarrow> tagbstring res" where
  "memmove b i src j L = bind_res (load src j L) (\<lambda>s. blit b i s)"

definition bBlockCopy :: "tagbstring \<Rightarrow> int \<Rightarrow> tagbstring \<Rightarrow> int \<Rightarrow> int \<Rightarrow> tagbstring res" where
  "bBlockCopy b i src j L = (if L > 0 then memmove b i src j L else Inr b)"

section \<open>Growth\<close>

definition snapUpSize :: "int \<Rightarrow> int" where
  "snapUpSize i =
     (if i < 8 then 8
      else
        let j0 = word_of_int i :: 32 word;
            j1 = j0 OR drop_bit 1 j0;
            j2 = j1 OR drop_bit 2 j1;
            j3 = j2 OR drop_bit 4 j2;
            j4 = j3 OR drop_bit 8 j3;
            j5 = j4 OR drop_bit 16 j4;
            j = sint (j5 + 1)
        in if j \<ge> i then j else i)"

text \<open>A string no function writes to: \<open>mlen\<close> not positive, or fields that do not fit.\<close>

definition unwritable :: "tagbstring \<Rightarrow> bool" where
  "unwritable b \<longleftrightarrow> bs_data b = None \<or> bs_slen b < 0 \<or> bs_mlen b \<le> 0 \<or> bs_mlen b < bs_slen b"

type_synonym bstr_result = "(int \<times> tagbstring option) res"

fun balloc :: "allocator \<Rightarrow> tagbstring option \<Rightarrow> int \<Rightarrow> bstr_result" where
  "balloc A None len = Inr (BSTR_ERR, None)"
| "balloc A (Some b) len =
     (if unwritable b \<or> len \<le> 0 then Inr (BSTR_ERR, Some b)
      else if len \<ge> bs_mlen b then
        let len' = snapUpSize len
        in if len' \<le> bs_mlen b then Inr (BSTR_OK, Some b)
           else
             bind_res
               (if i32 (7 * bs_mlen b) < i32 (8 * bs_slen b)
                then Inr (realloc A (the (bs_data b)) len')
                else
                  case malloc A len' of
                    None \<Rightarrow> Inr (realloc A (the (bs_data b)) len')
                  | Some x \<Rightarrow>
                      if bs_slen b \<noteq> 0
                      then bind_res (memmove (b\<lparr> bs_data := Some x \<rparr>) 0 b 0 (bs_slen b)) (\<lambda>x. Inr (bs_data x))
                      else Inr (Some x))
               (\<lambda>x. case x of
                  None \<Rightarrow> Inr (BSTR_ERR, Some b)
                | Some _ \<Rightarrow>
                    bind_res (store (b\<lparr> bs_data := x, bs_mlen := len' \<rparr>) (bs_slen b) NUL)
                      (\<lambda>b. Inr (BSTR_OK, Some b)))
      else Inr (BSTR_OK, Some b))"

section \<open>New strings\<close>

text \<open>A C string argument is given by its characters before the NUL.\<close>

definition bfromcstr_mlen :: "allocator \<Rightarrow> int \<Rightarrow> string option \<Rightarrow> tagbstring option res" where
  "bfromcstr_mlen A least str =
     (case str of
        None \<Rightarrow> Inr None
      | Some s \<Rightarrow>
          let j = int (length s);
              i = snapUpSize (i32 (j + (2 - (if j \<noteq> 0 then 1 else 0))))
          in if i \<le> i32 j then Inr None
             else if \<not> a_malloc A SIZEOF_TAGBSTRING then Inr None
             else
               let i = (if i < least then least else i)
               in case malloc A i of
                    None \<Rightarrow> Inr None
                  | Some d \<Rightarrow>
                      bind_res (blit \<lparr> bs_mlen = i, bs_slen = i32 j, bs_data = Some d \<rparr> 0 (s @ [NUL]))
                        (\<lambda>b. Inr (Some b)))"

definition bfromcstr :: "allocator \<Rightarrow> string option \<Rightarrow> tagbstring option res" where
  "bfromcstr A str = bfromcstr_mlen A 0 str"

definition bfromcstralloc :: "allocator \<Rightarrow> int \<Rightarrow> string option \<Rightarrow> tagbstring option res" where
  "bfromcstralloc A mlen str = bfromcstr_mlen A mlen str"

text \<open>A block of memory seen as a string, as \<open>blk2tbstr\<close> and \<open>cstr2tbstr\<close> set one up.\<close>

definition blk2tbstr :: "string option \<Rightarrow> int \<Rightarrow> tagbstring" where
  "blk2tbstr s l = \<lparr> bs_mlen = -1, bs_slen = l, bs_data = s \<rparr>"

definition cstr2tbstr :: "string option \<Rightarrow> tagbstring" where
  "cstr2tbstr s =
     blk2tbstr (map_option (\<lambda>s. s @ [NUL]) s) (case s of None \<Rightarrow> 0 | Some s \<Rightarrow> i32 (int (length s)))"

definition blk2bstr_buf :: "allocator \<Rightarrow> string option \<Rightarrow> int \<Rightarrow> tagbstring option res" where
  "blk2bstr_buf A blk len =
     (if blk = None \<or> len < 0 then Inr None
      else if \<not> a_malloc A SIZEOF_TAGBSTRING then Inr None
      else
        let i = snapUpSize (i32 (len + (2 - (if len \<noteq> 0 then 1 else 0))))
        in case malloc A i of
             None \<Rightarrow> Inr None
           | Some d \<Rightarrow>
               bind_res (bBlockCopy \<lparr> bs_mlen = i, bs_slen = len, bs_data = Some d \<rparr> 0 (blk2tbstr blk len) 0 len)
                 (\<lambda>b. bind_res (store b len NUL) (\<lambda>b. Inr (Some b))))"

text \<open>The loop of \<open>bstr2cstr\<close> from position \<open>i\<close>, with \<open>n\<close> characters to go.\<close>

primrec bstr2cstr_loop :: "tagbstring \<Rightarrow> char \<Rightarrow> int \<Rightarrow> nat \<Rightarrow> string res" where
  "bstr2cstr_loop b z i 0 = Inr []"
| "bstr2cstr_loop b z i (Suc n) =
     bind_res (fetch b i) (\<lambda>c. bind_res (bstr2cstr_loop b z (i + 1) n)
       (\<lambda>r. Inr ((if c = NUL then z else c) # r)))"

text \<open>The bytes of the C string that is returned, its terminating NUL included.\<close>

definition bstr2cstr :: "allocator \<Rightarrow> tagbstring option \<Rightarrow> char \<Rightarrow> string option res" where
  "bstr2cstr A p z =
     (case p of
        None \<Rightarrow> Inr None
      | Some b \<Rightarrow>
          if bs_slen b < 0 \<or> bs_data b = None then Inr None
          else
            case malloc A (i32 (bs_slen b + 1)) of
              None \<Rightarrow> Inr None
            | Some _ \<Rightarrow>
                bind_res (bstr2cstr_loop b z 0 (nat (bs_slen b))) (\<lambda>r. Inr (Some (r @ [NUL]))))"

definition bstrcpy_buf :: "allocator \<Rightarrow> tagbstring option \<Rightarrow> tagbstring option res" where
  "bstrcpy_buf A p =
     (case p of
        None \<Rightarrow> Inr None
      | Some b \<Rightarrow>
          if bs_slen b < 0 \<or> bs_data b = None then Inr None
          else if \<not> a_malloc A SIZEOF_TAGBSTRING then Inr None
          else
            let i = bs_slen b;
                j = snapUpSize (i32 (i + 1))
            in case (case malloc A j of
                       Some d \<Rightarrow> Some (j, d)
                     | None \<Rightarrow> map_option (\<lambda>d. (i32 (i + 1), d)) (malloc A (i32 (i + 1)))) of
                 None \<Rightarrow> Inr None
               | Some (j, d) \<Rightarrow>
                   bind_res (bBlockCopy \<lparr> bs_mlen = j, bs_slen = i, bs_data = Some d \<rparr> 0 b 0 i)
                     (\<lambda>b0. bind_res (store b0 i NUL) (\<lambda>b0. Inr (Some b0))))"

text \<open>
  \<open>bdestroy\<close> gives back the buffer and the structure unless the string is not writable.
\<close>

fun bdestroy :: "tagbstring option \<Rightarrow> int \<times> tagbstring option" where
  "bdestroy None = (BSTR_ERR, None)"
| "bdestroy (Some b) = (if unwritable b then (BSTR_ERR, Some b) else (0, None))"

section \<open>Arguments that may share a buffer\<close>

text \<open>
  A second string of a call is apart from the first one, is the first one itself, or is another
  structure that points \<open>pd\<close> bytes into its buffer. A pointer into a buffer is of no use any more
  when the buffer was given back in order to grow, which shows in \<open>mlen\<close>.
\<close>

datatype barg = Apart "tagbstring option" | Self | Within int int

fun arg_ptr :: "tagbstring \<Rightarrow> barg \<Rightarrow> tagbstring option" where
  "arg_ptr b (Apart p) = p"
| "arg_ptr b Self = Some b"
| "arg_ptr b (Within pd n) = Some (blk2tbstr (map_option (drop (nat pd)) (bs_data b)) n)"

fun arg_offset :: "barg \<Rightarrow> int option" where
  "arg_offset (Apart p) = None"
| "arg_offset Self = Some 0"
| "arg_offset (Within pd n) = Some pd"

text \<open>The argument after the first string \<open>b0\<close> has become \<open>b\<close>.\<close>

definition arg_after :: "tagbstring \<Rightarrow> tagbstring \<Rightarrow> barg \<Rightarrow> tagbstring option res" where
  "arg_after b0 b a =
     (case a of
        Within pd n \<Rightarrow> if bs_mlen b \<noteq> bs_mlen b0 then Inl Dangling else Inr (arg_ptr b a)
      | _ \<Rightarrow> Inr (arg_ptr b a))"

text \<open>\<open>0 <= (pd = b1->data - b0->data) && pd < b0->mlen\<close>\<close>

definition aliased :: "tagbstring \<Rightarrow> barg \<Rightarrow> bool" where
  "aliased b a = (case arg_offset a of None \<Rightarrow> False | Some pd \<Rightarrow> 0 \<le> pd \<and> pd < bs_mlen b)"

text \<open>\<open>aux\<close>: a copy where the argument may be moved, else the argument; \<open>None\<close> when there is no copy.\<close>

definition unalias :: "allocator \<Rightarrow> tagbstring \<Rightarrow> barg \<Rightarrow> bool \<Rightarrow> barg option res" where
  "unalias A b a share =
     (if share then bind_res (bstrcpy_buf A (arg_ptr b a)) (\<lambda>c. Inr (map_option (\<lambda>c. Apart (Some c)) c))
      else Inr (Some a))"

section \<open>Appending\<close>

text \<open>
  \<open>(d | (mlen - d) | len) < 0\<close> holds when one of the three is negative.
\<close>

definition bconcat_buf :: "allocator \<Rightarrow> tagbstring option \<Rightarrow> barg \<Rightarrow> bstr_result" where
  "bconcat_buf A p a =
     (case p of
        None \<Rightarrow> Inr (BSTR_ERR, None)
      | Some b0 \<Rightarrow>
          case arg_ptr b0 a of
            None \<Rightarrow> Inr (BSTR_ERR, p)
          | Some b1 \<Rightarrow>
              let d = bs_slen b0; len = bs_slen b1
              in if bs_data b0 = None \<or> bs_data b1 = None then Inr (BSTR_ERR, p)
                 else if d < 0 \<or> i32 (bs_mlen b0 - d) < 0 \<or> len < 0 then Inr (BSTR_ERR, p)
                 else
                   bind_res
                     (if bs_mlen b0 \<le> i32 (d + len + 1) then
                        bind_res (unalias A b0 a (aliased b0 a))
                          (\<lambda>aux. case aux of
                             None \<Rightarrow> Inr (BSTR_ERR, p, a)
                           | Some aux \<Rightarrow>
                               bind_res (balloc A p (i32 (d + len + 1))) (\<lambda>(r, p). Inr (r, p, aux)))
                      else Inr (BSTR_OK, p, a))
                     (\<lambda>(r, p, aux).
                        if r \<noteq> BSTR_OK then Inr (BSTR_ERR, p)
                        else
                          bind_res (arg_after b0 (the p) aux) (\<lambda>x.
                          bind_res (bBlockCopy (the p) d (the x) 0 len) (\<lambda>b.
                          bind_res (store b (i32 (d + len)) NUL) (\<lambda>b.
                          Inr (0, Some (b\<lparr> bs_slen := i32 (bs_slen b + len) \<rparr>)))))))"

fun bconchar :: "allocator \<Rightarrow> tagbstring option \<Rightarrow> char \<Rightarrow> bstr_result" where
  "bconchar A None c = Inr (BSTR_ERR, None)"
| "bconchar A (Some b) c =
     (let d = bs_slen b
      in if d < 0 \<or> i32 (bs_mlen b - d) < 0 then Inr (BSTR_ERR, Some b)
         else
           bind_res (balloc A (Some b) (i32 (d + 2))) (\<lambda>(r, p).
             if r \<noteq> BSTR_OK then Inr (BSTR_ERR, p)
             else
               bind_res (store (the p) d c) (\<lambda>b.
               bind_res (store b (i32 (d + 1)) NUL) (\<lambda>b.
               Inr (0, Some (b\<lparr> bs_slen := i32 (bs_slen b + 1) \<rparr>))))))"

text \<open>
  The direct copy of \<open>bcatcstr\<close>: at most \<open>n\<close> characters of \<open>s\<close> to position \<open>i\<close> on; the position it
  ended at, and the characters that were left unless the NUL was copied too.
\<close>

fun bcatcstr_loop :: "tagbstring \<Rightarrow> int \<Rightarrow> nat \<Rightarrow> string \<Rightarrow> (tagbstring \<times> int \<times> string option) res" where
  "bcatcstr_loop b i 0 s = Inr (b, i, Some s)"
| "bcatcstr_loop b i (Suc n) [] = bind_res (store b i NUL) (\<lambda>b. Inr (b, i, None))"
| "bcatcstr_loop b i (Suc n) (c # s) = bind_res (store b i c) (\<lambda>b. bcatcstr_loop b (i + 1) n s)"

definition bcatcstr :: "allocator \<Rightarrow> tagbstring option \<Rightarrow> string option \<Rightarrow> bstr_result" where
  "bcatcstr A p str =
     (case (p, str) of
        (Some b, Some s) \<Rightarrow>
          if unwritable b then Inr (BSTR_ERR, p)
          else
            bind_res (bcatcstr_loop b (bs_slen b) (nat (bs_mlen b - bs_slen b)) s)
              (\<lambda>(b, i, rest).
                 let b = b\<lparr> bs_slen := i \<rparr>
                 in case rest of
                      None \<Rightarrow> Inr (BSTR_OK, Some b)
                    | Some s \<Rightarrow> bconcat_buf A (Some b) (Apart (Some (cstr2tbstr (Some s)))))
      | _ \<Rightarrow> Inr (BSTR_ERR, p))"

text \<open>The block is given like a string argument: its address and the length.\<close>

definition bcatblk :: "allocator \<Rightarrow> tagbstring option \<Rightarrow> barg \<Rightarrow> bstr_result" where
  "bcatblk A p blk =
     (case p of
        None \<Rightarrow> Inr (BSTR_ERR, None)
      | Some b \<Rightarrow>
          case arg_ptr b blk of
            None \<Rightarrow> Inr (BSTR_ERR, p)
          | Some s \<Rightarrow>
              let len = bs_slen s; nl = i32 (bs_slen b + len)
              in if unwritable b \<or> bs_data s = None \<or> len < 0 then Inr (BSTR_ERR, p)
                 else if nl < 0 then Inr (BSTR_ERR, p)
                 else if nl < bs_mlen b then
                   bind_res (bBlockCopy b (bs_slen b) s 0 len) (\<lambda>b.
                   bind_res (store (b\<lparr> bs_slen := nl \<rparr>) nl NUL) (\<lambda>b. Inr (BSTR_OK, Some b)))
                 else bconcat_buf A p blk)"

section \<open>Assigning and cutting\<close>

definition bassign :: "allocator \<Rightarrow> tagbstring option \<Rightarrow> barg \<Rightarrow> bstr_result" where
  "bassign A p a =
     (case (case p of None \<Rightarrow> (case a of Apart x \<Rightarrow> x | _ \<Rightarrow> None) | Some b0 \<Rightarrow> arg_ptr b0 a) of
        None \<Rightarrow> Inr (BSTR_ERR, p)
      | Some b \<Rightarrow>
          if bs_data b = None \<or> bs_slen b < 0 then Inr (BSTR_ERR, p)
          else
            bind_res
              (if bs_slen b \<noteq> 0 then
                 bind_res (balloc A p (bs_slen b)) (\<lambda>(r, p').
                   if r \<noteq> BSTR_OK then Inr (BSTR_ERR, p')
                   else
                     bind_res (arg_after (the p) (the p') a) (\<lambda>x.
                     bind_res (memmove (the p') 0 (the x) 0 (bs_slen b)) (\<lambda>q. Inr (BSTR_OK, Some q))))
               else
                 case p of
                   None \<Rightarrow> Inr (BSTR_ERR, p)
                 | Some q \<Rightarrow>
                     if bs_data q = None \<or> bs_mlen q < bs_slen q \<or> bs_slen q < 0 \<or> bs_mlen q = 0
                     then Inr (BSTR_ERR, p) else Inr (BSTR_OK, p))
              (\<lambda>(r, p).
                 if r \<noteq> BSTR_OK then Inr (BSTR_ERR, p)
                 else bind_res (store (the p) (bs_slen b) NUL)
                        (\<lambda>q. Inr (BSTR_OK, Some (q\<lparr> bs_slen := bs_slen b \<rparr>)))))"

text \<open>The section (left, len) of a string of \<open>n\<close> bytes, cut to the string.\<close>

definition clamp :: "int \<Rightarrow> int \<Rightarrow> int \<Rightarrow> int \<times> int" where
  "clamp n left len =
     (let len = (if left < 0 then i32 (len + left) else len);
          left = (if left < 0 then 0 else left)
      in (left, if len > i32 (n - left) then i32 (n - left) else len))"

definition bassignmidstr :: "allocator \<Rightarrow> tagbstring option \<Rightarrow> barg \<Rightarrow> int \<Rightarrow> int \<Rightarrow> bstr_result" where
  "bassignmidstr A p a left len =
     (case (case p of None \<Rightarrow> (case a of Apart x \<Rightarrow> x | _ \<Rightarrow> None) | Some b0 \<Rightarrow> arg_ptr b0 a) of
        None \<Rightarrow> Inr (BSTR_ERR, p)
      | Some b \<Rightarrow>
          if bs_data b = None \<or> bs_slen b < 0 then Inr (BSTR_ERR, p)
          else
            let (left, len) = clamp (bs_slen b) left len
            in case p of
                 None \<Rightarrow> Inr (BSTR_ERR, p)
               | Some q \<Rightarrow>
                   if bs_data q = None \<or> bs_mlen q < bs_slen q \<or> bs_slen q < 0 \<or> bs_mlen q = 0
                   then Inr (BSTR_ERR, p)
                   else if len > 0 then
                     bind_res (balloc A p len) (\<lambda>(r, p').
                       if r \<noteq> BSTR_OK then Inr (BSTR_ERR, p')
                       else
                         bind_res (arg_after q (the p') a) (\<lambda>x.
                         bind_res (memmove (the p') 0 (the x) left len) (\<lambda>q.
                         bind_res (store (q\<lparr> bs_slen := len \<rparr>) len NUL) (\<lambda>q. Inr (BSTR_OK, Some q)))))
                   else bind_res (store (q\<lparr> bs_slen := 0 \<rparr>) 0 NUL) (\<lambda>q. Inr (BSTR_OK, Some q)))"

fun btrunc :: "tagbstring option \<Rightarrow> int \<Rightarrow> bstr_result" where
  "btrunc None n = Inr (BSTR_ERR, None)"
| "btrunc (Some b) n =
     (if n < 0 \<or> unwritable b then Inr (BSTR_ERR, Some b)
      else if bs_slen b > n then
        bind_res (store (b\<lparr> bs_slen := n \<rparr>) n NUL) (\<lambda>b. Inr (0, Some b))
      else Inr (0, Some b))"

definition bmidstr_buf :: "allocator \<Rightarrow> tagbstring option \<Rightarrow> int \<Rightarrow> int \<Rightarrow> tagbstring option res" where
  "bmidstr_buf A p left len =
     (case p of
        None \<Rightarrow> Inr None
      | Some b \<Rightarrow>
          if bs_slen b < 0 \<or> bs_data b = None then Inr None
          else
            let (left, len) = clamp (bs_slen b) left len
            in if len \<le> 0 then bfromcstr A (Some [])
               else blk2bstr_buf A (map_option (drop (nat left)) (bs_data b)) len)"

fun bdelete :: "tagbstring option \<Rightarrow> int \<Rightarrow> int \<Rightarrow> bstr_result" where
  "bdelete None pos len = Inr (BSTR_ERR, None)"
| "bdelete (Some b) pos len =
     (let len = (if pos < 0 then i32 (len + pos) else len);
          pos = (if pos < 0 then 0 else pos)
      in if len < 0 \<or> unwritable b then Inr (BSTR_ERR, Some b)
         else if len > 0 \<and> pos < bs_slen b then
           bind_res
             (if i32 (pos + len) \<ge> bs_slen b then Inr (b\<lparr> bs_slen := pos \<rparr>)
              else
                bind_res (bBlockCopy b pos b (pos + len) (i32 (bs_slen b - i32 (pos + len))))
                  (\<lambda>b. Inr (b\<lparr> bs_slen := i32 (bs_slen b - len) \<rparr>)))
             (\<lambda>b. bind_res (store b (bs_slen b) NUL) (\<lambda>b. Inr (BSTR_OK, Some b)))
         else Inr (BSTR_OK, Some b))"

section \<open>Characters\<close>

definition ascii :: "char \<Rightarrow> bool" where "ascii c \<longleftrightarrow> (of_char c :: int) < 128"

definition toupper :: "char \<Rightarrow> char" where
  "toupper c = (let n = of_char c :: int in if 97 \<le> n \<and> n \<le> 122 then char_of (n - 32) else c)"

definition tolower :: "char \<Rightarrow> char" where
  "tolower c = (let n = of_char c :: int in if 65 \<le> n \<and> n \<le> 90 then char_of (n + 32) else c)"

definition upcase :: "char \<Rightarrow> char" where "upcase c = (if ascii c then toupper c else c)"

definition downcase :: "char \<Rightarrow> char" where "downcase c = (if ascii c then tolower c else c)"

definition wspace :: "char \<Rightarrow> bool" where "wspace c \<longleftrightarrow> ascii c \<and> is_space_char c"

text \<open>The loops over the bytes from position \<open>i\<close>, \<open>n\<close> of them to go.\<close>

primrec case_loop :: "(char \<Rightarrow> char) \<Rightarrow> tagbstring \<Rightarrow> int \<Rightarrow> nat \<Rightarrow> tagbstring res" where
  "case_loop f b i 0 = Inr b"
| "case_loop f b i (Suc n) =
     bind_res (fetch b i) (\<lambda>c. bind_res (store b i (f c)) (\<lambda>b. case_loop f b (i + 1) n))"

fun btoupper :: "tagbstring option \<Rightarrow> bstr_result" where
  "btoupper None = Inr (BSTR_ERR, None)"
| "btoupper (Some b) =
     (if unwritable b then Inr (BSTR_ERR, Some b)
      else bind_res (case_loop upcase b 0 (nat (bs_slen b))) (\<lambda>b. Inr (BSTR_OK, Some b)))"

fun btolower :: "tagbstring option \<Rightarrow> bstr_result" where
  "btolower None = Inr (BSTR_ERR, None)"
| "btolower (Some b) =
     (if unwritable b then Inr (BSTR_ERR, Some b)
      else bind_res (case_loop downcase b 0 (nat (bs_slen b))) (\<lambda>b. Inr (0, Some b)))"

text \<open>The first position from \<open>i\<close> on that is not white space, among \<open>n\<close>.\<close>

primrec lscan :: "tagbstring \<Rightarrow> int \<Rightarrow> nat \<Rightarrow> int option res" where
  "lscan b i 0 = Inr None"
| "lscan b i (Suc n) = bind_res (fetch b i) (\<lambda>c. if \<not> wspace c then Inr (Some i) else lscan b (i + 1) n)"

text \<open>The last position below \<open>n\<close> that is not white space.\<close>

primrec rscan :: "tagbstring \<Rightarrow> nat \<Rightarrow> int option res" where
  "rscan b 0 = Inr None"
| "rscan b (Suc n) = bind_res (fetch b (int n)) (\<lambda>c. if \<not> wspace c then Inr (Some (int n)) else rscan b n)"

definition bempty :: "tagbstring \<Rightarrow> bstr_result" where
  "bempty b = bind_res (store b 0 NUL) (\<lambda>b. Inr (0, Some (b\<lparr> bs_slen := 0 \<rparr>)))"

fun bltrimws :: "tagbstring option \<Rightarrow> bstr_result" where
  "bltrimws None = Inr (BSTR_ERR, None)"
| "bltrimws (Some b) =
     (if unwritable b then Inr (BSTR_ERR, Some b)
      else bind_res (lscan b 0 (nat (bs_slen b)))
             (\<lambda>r. case r of Some i \<Rightarrow> bdelete (Some b) 0 i | None \<Rightarrow> bempty b))"

definition rcut :: "tagbstring \<Rightarrow> int \<Rightarrow> tagbstring res" where
  "rcut b i =
     bind_res (if bs_mlen b > i then store b (i + 1) NUL else Inr b) (\<lambda>b. Inr (b\<lparr> bs_slen := i + 1 \<rparr>))"

fun brtrimws :: "tagbstring option \<Rightarrow> bstr_result" where
  "brtrimws None = Inr (BSTR_ERR, None)"
| "brtrimws (Some b) =
     (if unwritable b then Inr (BSTR_ERR, Some b)
      else bind_res (rscan b (nat (bs_slen b)))
             (\<lambda>r. case r of Some i \<Rightarrow> bind_res (rcut b i) (\<lambda>b. Inr (0, Some b)) | None \<Rightarrow> bempty b))"

text \<open>
  The second loop of \<open>btrimws\<close> has no bound; \<open>n\<close> is the size of the buffer, which it cannot leave.
\<close>

fun btrimws :: "tagbstring option \<Rightarrow> bstr_result" where
  "btrimws None = Inr (BSTR_ERR, None)"
| "btrimws (Some b) =
     (if unwritable b then Inr (BSTR_ERR, Some b)
      else bind_res (rscan b (nat (bs_slen b)))
             (\<lambda>r. case r of
                Some i \<Rightarrow>
                  bind_res (rcut b i) (\<lambda>b.
                  bind_res (lscan b 0 (length (the (bs_data b)))) (\<lambda>j.
                  case j of None \<Rightarrow> Inl Undefined | Some j \<Rightarrow> bdelete (Some b) 0 j))
              | None \<Rightarrow> bempty b))"

lemmas bstr_ops = balloc.simps bconchar.simps btrunc.simps bdelete.simps btoupper.simps btolower.simps bltrimws.simps brtrimws.simps btrimws.simps

declare bstr_ops [simp del]

section \<open>Sizes are powers of two\<close>

lemma smear_step:
  fixes x y :: "32 word"
  assumes "\<And>n. bit y n \<longleftrightarrow> (\<exists>d<k. bit x (n + d))"
  shows "bit (y OR drop_bit k y) n \<longleftrightarrow> (\<exists>d<2 * k. bit x (n + d))"
proof -
  have "(\<exists>d<2 * k. bit x (n + d)) \<longleftrightarrow> (\<exists>d<k. bit x (n + d)) \<or> (\<exists>d<k. bit x (k + n + d))"
  proof
    assume "\<exists>d<2 * k. bit x (n + d)"
    then obtain d where d: "d < 2 * k" "bit x (n + d)" by blast
    show "(\<exists>d<k. bit x (n + d)) \<or> (\<exists>d<k. bit x (k + n + d))"
    proof (cases "d < k")
      case False
      then have "d - k < k" "k + n + (d - k) = n + d" using d(1) by simp_all
      with d(2) show ?thesis by metis
    qed (use d in blast)
  next
    assume "(\<exists>d<k. bit x (n + d)) \<or> (\<exists>d<k. bit x (k + n + d))"
    then show "\<exists>d<2 * k. bit x (n + d)"
    proof (elim disjE exE conjE)
      fix d assume "d < k" "bit x (k + n + d)"
      then have "k + d < 2 * k" "bit x (n + (k + d))" by (simp_all add: ac_simps)
      then show ?thesis by blast
    next
      fix d assume "d < k" "bit x (n + d)"
      then have "d < 2 * k" "bit x (n + d)" by simp_all
      then show ?thesis by blast
    qed
  qed
  then show ?thesis by (simp add: bit_or_iff bit_drop_bit_eq assms)
qed

lemma bit_top:
  fixes x :: "32 word"
  assumes "2 ^ m \<le> uint x" "uint x < 2 ^ Suc m"
  shows "bit x m" "m < n \<Longrightarrow> \<not> bit x n"
proof -
  have "uint x div 2 ^ m = 1" using assms by (intro int_div_pos_eq [where r = "uint x - 2 ^ m"]) simp_all
  then have "bit (uint x) m" by (simp add: bit_iff_odd [of "uint x"])
  then show "bit x m" by (simp add: bit_uint_iff)
  assume "m < n"
  then have "uint x < 2 ^ n" using assms(2) power_increasing [of "Suc m" n "2 :: int"] by simp
  then have "uint x div 2 ^ n = 0" by simp
  then have "\<not> bit (uint x) n" by (simp add: bit_iff_odd [of "uint x"])
  then show "\<not> bit x n" using bit_imp_le_length [of x n] by (auto simp: bit_uint_iff)
qed

definition smear :: "32 word \<Rightarrow> 32 word" where
  "smear j0 =
     (let j1 = j0 OR drop_bit 1 j0;
          j2 = j1 OR drop_bit 2 j1;
          j3 = j2 OR drop_bit 4 j2;
          j4 = j3 OR drop_bit 8 j3
      in j4 OR drop_bit 16 j4)"

lemma bit_smear: "bit (smear x) n \<longleftrightarrow> (\<exists>d<32. bit x (n + d))"
proof -
  have "bit x n \<longleftrightarrow> (\<exists>d<1. bit x (n + d))" for n by simp
  note s1 = smear_step [of x 1 x, OF this, simplified mult_1_right]
  note s2 = smear_step [OF s1]
  note s3 = smear_step [OF s2]
  note s4 = smear_step [OF s3]
  note s5 = smear_step [OF s4]
  show ?thesis using s5 by (simp add: smear_def Let_def)
qed

lemma smear_mask:
  assumes "2 ^ m \<le> uint x" "uint x < 2 ^ Suc m"
  shows "smear x = mask (Suc m)"
proof (rule bit_word_eqI)
  fix n assume n: "n < LENGTH(32)"
  have m: "bit x m" "\<And>k. m < k \<Longrightarrow> \<not> bit x k" using bit_top [OF assms] by auto
  have "m < 32" using bit_imp_le_length [OF m(1)] by simp
  have "bit (smear x) n \<longleftrightarrow> n \<le> m"
  proof
    assume "bit (smear x) n"
    then obtain d where "bit x (n + d)" using bit_smear by blast
    then have "\<not> m < n + d" using m(2) by blast
    then show "n \<le> m" by simp
  next
    assume "n \<le> m"
    then have "m - n < 32" "bit x (n + (m - n))" using m(1) \<open>m < 32\<close> by simp_all
    then show "bit (smear x) n" using bit_smear by blast
  qed
  then show "bit (smear x) n \<longleftrightarrow> bit (mask (Suc m) :: 32 word) n" using n by (simp add: bit_mask_iff less_Suc_eq_le)
qed

lemma snapUpSize_power:
  assumes "2 ^ m \<le> i" "i < 2 ^ Suc m" "3 \<le> m" "m < 31"
  shows "snapUpSize i = (if m < 30 then 2 ^ Suc m else i)"
proof -
  have "(2::int) ^ 3 \<le> 2 ^ m" "(2::int) ^ Suc m \<le> 2 ^ 31" using assms by (intro power_increasing; simp)+
  then have i: "8 \<le> i" "i < 2 ^ 31" using assms by simp_all
  then have u: "uint (word_of_int i :: 32 word) = i" by (simp add: uint_word_of_int)
  have "smear (word_of_int i) + 1 = (2 ^ Suc m :: 32 word)" using smear_mask [of m "word_of_int i"] assms u by (simp add: mask_eq_decr_exp)
  then have eq: "snapUpSize i = (let j = sint (2 ^ Suc m :: 32 word) in if j \<ge> i then j else i)"
    using i(1) by (simp add: snapUpSize_def smear_def Let_def)
  show ?thesis
  proof (cases "m < 30")
    case True
    have "(2::int) ^ Suc m \<le> 2 ^ 30" using True by (intro power_increasing) simp_all
    then have "signed_take_bit 31 (2 ^ Suc m) = (2 ^ Suc m :: int)" by (intro signed_take_bit_int_eq_self) (auto intro: order_trans [of _ "0 :: int"])
    then have "sint (word_of_int (2 ^ Suc m) :: 32 word) = 2 ^ Suc m" by (simp only: sint_sbintrunc') simp
    then have "sint (2 ^ Suc m :: 32 word) = 2 ^ Suc m" by simp
    with True eq assms(2) show ?thesis by simp
  next
    case False
    then have "m = 30" using assms(4) by simp
    then show ?thesis using eq i by simp
  qed
qed

lemma power_interval:
  fixes i :: int
  assumes "8 \<le> i" "i < 2 ^ 31"
  obtains m where "2 ^ m \<le> i" "i < 2 ^ Suc m" "3 \<le> m" "m < 31"
proof -
  obtain m where m: "2 ^ m \<le> i" "i < 2 ^ Suc m"
    using ex_power_ivl1 [of 2 "nat i"] assms(1) by (auto simp: nat_le_iff nat_less_iff le_nat_iff)
  have "\<not> m < 3"
  proof
    assume "m < 3"
    then have "(2::int) ^ Suc m \<le> 2 ^ 3" by (intro power_increasing) simp_all
    with m(2) assms(1) show False by simp
  qed
  moreover have "m < 31"
  proof (rule ccontr)
    assume "\<not> m < 31"
    then have "(2::int) ^ 31 \<le> 2 ^ m" by (intro power_increasing) simp_all
    with m(1) assms(2) show False by simp
  qed
  ultimately show thesis using m by (intro that [of m]) simp_all
qed

lemma snapUpSize_bounds:
  assumes "i < 2 ^ 31"
  shows "8 \<le> snapUpSize i" "i \<le> snapUpSize i" "i < 2 ^ 30 \<Longrightarrow> i < snapUpSize i" "2 ^ 30 \<le> i \<Longrightarrow> snapUpSize i = i"
    "snapUpSize i < 2 ^ 31"
proof -
  have main: "8 \<le> snapUpSize i \<and> i \<le> snapUpSize i \<and> (i < 2 ^ 30 \<longrightarrow> i < snapUpSize i) \<and> (2 ^ 30 \<le> i \<longrightarrow> snapUpSize i = i) \<and>
    snapUpSize i < 2 ^ 31"
  proof (cases "i < 8")
    case False
    then obtain m where m: "2 ^ m \<le> i" "i < 2 ^ Suc m" "3 \<le> m" "m < 31" using power_interval [of i] assms by auto
    have eq: "snapUpSize i = (if m < 30 then 2 ^ Suc m else i)" by (rule snapUpSize_power [OF m])
    show ?thesis
    proof (cases "m < 30")
      case True
      then have "(2::int) ^ Suc m \<le> 2 ^ 30" by (intro power_increasing) simp_all
      with True eq m(2) False show ?thesis by simp
    next
      case False
      with m(4) have "m = 30" by simp
      with eq m(1) assms show ?thesis by simp
    qed
  qed (simp add: snapUpSize_def)
  then show "8 \<le> snapUpSize i" "i \<le> snapUpSize i" "i < 2 ^ 30 \<Longrightarrow> i < snapUpSize i" "2 ^ 30 \<le> i \<Longrightarrow> snapUpSize i = i"
    "snapUpSize i < 2 ^ 31" by auto
qed

end
