(* ===== verification/BstrRep.thy ===== *)
theory BstrRep
  imports Bstrlib
begin

text \<open>
  What a buffer holds: \<open>bstr_rep b s\<close> says that the structure is consistent and terminated and
  its contents are \<open>s\<close>. Every function that changes a string is shown to give a structure that
  holds the changed contents, or to leave the string as it was when storage is refused.
\<close>

declare bind_res_eq_Inr [simp del]

lemma data_slen_order [simp]: "b\<lparr> bs_data := e, bs_slen := n \<rparr> = b\<lparr> bs_slen := n, bs_data := e \<rparr>"
  by simp

section \<open>The contents of a buffer\<close>

definition bstr_rep :: "tagbstring \<Rightarrow> string \<Rightarrow> bool" where
  "bstr_rep b s =
     (case bs_data b of
        None \<Rightarrow> False
      | Some d \<Rightarrow>
          bs_slen b = int (length s) \<and> bs_mlen b = int (length d) \<and> length s < length d \<and>
          bs_mlen b < 2 ^ 31 \<and> take (length s) d = s \<and> d ! length s = NUL)"

text \<open>The same without a terminator, and with a length that may fill the buffer.\<close>

definition bstr_buf :: "tagbstring \<Rightarrow> string \<Rightarrow> bool" where
  "bstr_buf b s =
     (case bs_data b of
        None \<Rightarrow> False
      | Some d \<Rightarrow>
          bs_slen b = int (length s) \<and> bs_mlen b = int (length d) \<and> length s \<le> length d \<and>
          0 < bs_mlen b \<and> bs_mlen b < 2 ^ 31 \<and> take (length s) d = s)"

text \<open>
  A string argument holds \<open>t\<close>; one that points into the buffer of the first string stays within its
  contents.
\<close>

definition holds :: "tagbstring \<Rightarrow> string \<Rightarrow> bool" where
  "holds x t =
     (case bs_data x of
        None \<Rightarrow> False
      | Some d \<Rightarrow> bs_slen x = int (length t) \<and> length t \<le> length d \<and> take (length t) d = t)"

definition arg_holds :: "tagbstring \<Rightarrow> barg \<Rightarrow> string \<Rightarrow> bool" where
  "arg_holds b a t =
     ((case arg_ptr b a of None \<Rightarrow> False | Some x \<Rightarrow> holds x t) \<and>
      (case a of Within pd n \<Rightarrow> 0 \<le> pd \<and> pd + n \<le> bs_slen b | _ \<Rightarrow> True))"

text \<open>The allocator grants every request an \<open>int\<close> can express.\<close>

definition grants :: "allocator \<Rightarrow> bool" where
  "grants A \<longleftrightarrow> (\<forall>n. 0 \<le> n \<and> n < 2 ^ 31 \<longrightarrow> a_malloc A n \<and> a_realloc A n)"

text \<open>A call that worked and left \<open>s\<close>, or was refused storage and changed nothing.\<close>

definition yields :: "allocator \<Rightarrow> tagbstring \<Rightarrow> bstr_result \<Rightarrow> string \<Rightarrow> bool" where
  "yields A b r s \<longleftrightarrow> (\<exists>b'. r = Inr (0, Some b') \<and> bstr_rep b' s) \<or> \<not> grants A \<and> r = Inr (-1, Some b)"

lemma bstr_repE:
  assumes "bstr_rep b s"
  obtains d where "bs_data b = Some d" "bs_slen b = int (length s)" "bs_mlen b = int (length d)" "length s < length d"
    "int (length d) < 2 ^ 31" "take (length s) d = s" "d ! length s = NUL"
  using assms by (cases "bs_data b") (simp_all add: bstr_rep_def)

lemma bstr_repI:
  assumes "bs_data b = Some d" "bs_slen b = int (length s)" "bs_mlen b = int (length d)" "length s < length d"
    "int (length d) < 2 ^ 31" "take (length s) d = s" "d ! length s = NUL"
  shows "bstr_rep b s"
  using assms by (simp add: bstr_rep_def)

lemma bstr_rep_writable: "bstr_rep b s \<Longrightarrow> \<not> unwritable b"
  by (erule bstr_repE) (auto simp: unwritable_def)

lemma bstr_rep_buf: "bstr_rep b s \<Longrightarrow> bstr_buf b s"
  by (erule bstr_repE) (auto simp: bstr_buf_def)

lemma bstr_bufE:
  assumes "bstr_buf b s"
  obtains d where "bs_data b = Some d" "bs_slen b = int (length s)" "bs_mlen b = int (length d)" "length s \<le> length d"
    "0 < length d" "int (length d) < 2 ^ 31" "take (length s) d = s"
  using assms by (cases "bs_data b") (auto simp: bstr_buf_def)

lemma bstr_buf_writable: "bstr_buf b s \<Longrightarrow> \<not> unwritable b"
  by (erule bstr_bufE) (auto simp: unwritable_def)

lemma rep_holds: "bstr_buf b s \<Longrightarrow> holds b s"
  by (erule bstr_bufE) (simp add: holds_def)

lemma load_holds: "holds x t \<Longrightarrow> load x 0 (int (length t)) = Inr t"
  by (auto simp: holds_def load_def split: option.splits)

lemma arg_Self: "bstr_buf b s \<Longrightarrow> arg_holds b Self s"
  by (simp add: arg_holds_def rep_holds)

lemma arg_Apart: "arg_holds b (Apart p) t \<longleftrightarrow> (\<exists>x. p = Some x \<and> holds x t)"
  by (cases p) (simp_all add: arg_holds_def)

lemma yieldsI: "bstr_rep b' s \<Longrightarrow> yields A b (Inr (0, Some b')) s"
  by (auto simp: yields_def)

text \<open>The last step of most functions: the new length is set and the terminator written.\<close>

lemma store_rep:
  assumes "bs_data b = Some d" "bs_mlen b = int (length d)" "int (length d) < 2 ^ 31" "n < length d" "take n d = s" "length s = n"
  shows "store b (int n) NUL = Inr (b\<lparr> bs_data := Some (d[n := NUL]) \<rparr>)"
    "bs_slen b' = int n \<Longrightarrow> bs_mlen b' = bs_mlen b \<Longrightarrow> bs_data b' = Some (d[n := NUL]) \<Longrightarrow> bstr_rep b' s"
  using assms by (auto simp: store_def bstr_rep_def)

section \<open>Growing\<close>

lemma length_malloc: "malloc A n = Some d \<Longrightarrow> 0 \<le> n \<Longrightarrow> n < 2 ^ 64 \<Longrightarrow> length d = nat n"
  by (auto simp: malloc_def Let_def split: if_splits)

lemma malloc_grants: "grants A \<Longrightarrow> 0 \<le> n \<Longrightarrow> n < 2 ^ 31 \<Longrightarrow> malloc A n \<noteq> None"
  by (simp add: malloc_def grants_def)

lemma header_grants: "grants A \<Longrightarrow> a_malloc A SIZEOF_TAGBSTRING"
  by (simp add: grants_def SIZEOF_TAGBSTRING_def)

lemma realloc_Some:
  "realloc A d n = Some x \<Longrightarrow> int (length d) \<le> n \<Longrightarrow> n < 2 ^ 64 \<Longrightarrow> length x = nat n \<and> take (length d) x = d"
  by (auto simp: realloc_def Let_def split: if_splits)

lemma realloc_grants: "grants A \<Longrightarrow> 0 \<le> n \<Longrightarrow> n < 2 ^ 31 \<Longrightarrow> realloc A d n \<noteq> None"
  by (simp add: realloc_def grants_def)

text \<open>
  A consistent structure of \<open>slen <= mlen\<close> grows to more than was asked for (for a request below
  \<open>2 ^ 30\<close>) with its contents kept, or stays as it is.
\<close>

lemma balloc_cases:
  assumes b: "bs_data b = Some d" "bs_slen b = int n" "bs_mlen b = int (length d)" "n \<le> length d" "0 < length d"
    and len: "0 < len" "len < 2 ^ 31"
  obtains (same) "balloc A (Some b) len = Inr (0, Some b)" "len < bs_mlen b"
    | (grown) b' d' where "balloc A (Some b) len = Inr (0, Some b')" "bs_data b' = Some d'" "bs_slen b' = int n"
        "bs_mlen b' = snapUpSize len" "int (length d') = snapUpSize len" "bs_mlen b \<le> len" "bs_mlen b < snapUpSize len"
        "take n d' = take n d" "n < length d'" "d' ! n = NUL"
    | (full) "bs_mlen b = len" "2 ^ 30 \<le> len" "balloc A (Some b) len = Inr (0, Some b)"
    | (refused) "\<not> grants A" "balloc A (Some b) len = Inr (-1, Some b)"
proof -
  define S where "S = snapUpSize len"
  have S: "8 \<le> S" "len \<le> S" "S < 2 ^ 31" "S = len \<Longrightarrow> 2 ^ 30 \<le> len"
    using snapUpSize_bounds [OF len(2)] by (auto simp: S_def intro: leI)
  have w: "\<not> (unwritable b \<or> len \<le> 0)" using b len by (simp add: unwritable_def)
  consider (a) "len < bs_mlen b" | (b) "bs_mlen b \<le> len" "S \<le> bs_mlen b" | (c) "bs_mlen b \<le> len" "bs_mlen b < S" by linarith
  then show thesis
  proof cases
    case a
    show thesis by (rule same) (use a w in \<open>simp_all add: BSTR_OK_def balloc.simps\<close>)
  next
    case b
    show thesis by (rule full) (use b w S in \<open>simp_all add: BSTR_OK_def balloc.simps S_def [symmetric]\<close>)
  next
    case c
    let ?room = "if i32 (7 * bs_mlen b) < i32 (8 * bs_slen b) then Inr (realloc A (the (bs_data b)) S)
                else case malloc A S of None \<Rightarrow> Inr (realloc A (the (bs_data b)) S)
                  | Some x \<Rightarrow> if bs_slen b \<noteq> 0 then bind_res (memmove (b\<lparr> bs_data := Some x \<rparr>) 0 b 0 (bs_slen b)) (\<lambda>x. Inr (bs_data x)) else Inr (Some x)"
    have eq: "balloc A (Some b) len = bind_res ?room (\<lambda>x. case x of None \<Rightarrow> Inr (BSTR_ERR, Some b)
      | Some _ \<Rightarrow> bind_res (store (b\<lparr> bs_data := x, bs_mlen := S \<rparr>) (bs_slen b) NUL) (\<lambda>b. Inr (BSTR_OK, Some b)))"
      using w c by (simp only: bstr_ops Let_def S_def [symmetric] if_False if_True not_le [symmetric] simp_thms)
    consider (x) x where "?room = Inr (Some x)" "int (length x) = S" "take n x = take n d" | (none) "?room = Inr None" "\<not> grants A"
    proof -
      have r: "int (length x) = S \<and> take n x = take n d" if "realloc A d S = Some x" for x
      proof -
        have "length x = nat S \<and> take (length d) x = d" using realloc_Some [OF that] c b S(3) by simp
        then show ?thesis using b(4) S(1) by (metis int_nat_eq min.absorb1 order_trans take_take zero_le_numeral)
      qed
      have rn: "realloc A d S = None \<Longrightarrow> \<not> grants A" using realloc_grants [of A S d] S by auto
      show thesis
      proof (cases "i32 (7 * bs_mlen b) < i32 (8 * bs_slen b)")
        case True
        show thesis
        proof (cases "realloc A d S")
          case None
          show thesis by (rule none) (use True None rn b(1) in simp_all)
        next
          case (Some y)
          show thesis by (rule x [of y]) (use True Some r [OF Some] b(1) in simp_all)
        qed
      next
        case strategy: False
        show thesis
        proof (cases "malloc A S")
          case None
          then have room: "?room = Inr (realloc A d S)" using strategy b(1) by simp
          show thesis
          proof (cases "realloc A d S")
            case None
            show thesis by (rule none) (use room None rn in simp_all)
          next
            case (Some y)
            show thesis by (rule x [of y]) (use room Some r [OF Some] in simp_all)
          qed
        next
          case (Some y)
          then have y: "length y = nat S" using length_malloc [OF Some] S by simp
          have le: "n \<le> length y" using y b c by simp
          show thesis
          proof (cases "n = 0")
            case True
            show thesis by (rule x [of y]) (use True strategy Some y b(2) S(1) in simp_all)
          next
            case False
            let ?x = "take n d @ drop n y"
            have "memmove (b\<lparr> bs_data := Some y \<rparr>) 0 b 0 (bs_slen b) = Inr (b\<lparr> bs_data := Some ?x \<rparr>)"
              using b le by (simp add: memmove_def load_def blit_def min_def)
            with strategy Some False have "?room = Inr (Some ?x)" using b(2) by simp
            then show thesis by (rule x [of ?x]) (use y le b(4) S(1) in \<open>simp_all add: min_def\<close>)
          qed
        qed
      qed
    qed
    then show thesis
    proof cases
      case x
      let ?b = "b\<lparr> bs_data := Some (x[n := NUL]), bs_mlen := S \<rparr>"
      have "n < length x" using x(2) c b by simp
      then have "balloc A (Some b) len = Inr (0, Some ?b)" using eq x(1) b(2) by (simp add: store_def BSTR_OK_def)
      then show thesis by (rule grown [of ?b "x[n := NUL]"]) (use x(2,3) \<open>n < length x\<close> c b in \<open>simp_all add: S_def [symmetric]\<close>)
    next
      case none
      show thesis by (rule refused) (use none eq in \<open>simp_all add: BSTR_ERR_def\<close>)
    qed
  qed
qed


lemma balloc_buf:
  assumes b: "bstr_buf b s" and len: "0 < len" "len < 2 ^ 31"
  obtains (ok) b' where "balloc A (Some b) len = Inr (0, Some b')" "bstr_buf b' s" "bs_mlen b \<le> bs_mlen b'" "len \<le> bs_mlen b'"
      "len < 2 ^ 30 \<Longrightarrow> len < bs_mlen b'" "b' \<noteq> b \<Longrightarrow> bs_mlen b < bs_mlen b'" "bstr_rep b s \<Longrightarrow> bstr_rep b' s"
    | (refused) "\<not> grants A" "balloc A (Some b) len = Inr (-1, Some b)"
proof -
  obtain d where d: "bs_data b = Some d" "bs_slen b = int (length s)" "bs_mlen b = int (length d)" "length s \<le> length d"
    "0 < length d" "int (length d) < 2 ^ 31" "take (length s) d = s" using b by (rule bstr_bufE)
  show thesis
  proof (rule balloc_cases [OF d(1-5) len, of A])
    assume "balloc A (Some b) len = Inr (0, Some b)" "len < bs_mlen b"
    then show thesis by (intro ok) (use b in simp_all)
  next
    fix b' d' assume g: "balloc A (Some b) len = Inr (0, Some b')" "bs_data b' = Some d'" "bs_slen b' = int (length s)"
      "bs_mlen b' = snapUpSize len" "int (length d') = snapUpSize len" "bs_mlen b \<le> len" "bs_mlen b < snapUpSize len"
      "take (length s) d' = take (length s) d" "length s < length d'" "d' ! length s = NUL"
    have "bstr_rep b' s" using g d(7) snapUpSize_bounds [OF len(2)] by (simp add: bstr_rep_def)
    then show thesis by (intro ok [OF g(1)]) (use g snapUpSize_bounds [OF len(2)] in \<open>auto simp: bstr_rep_buf\<close>)
  next
    assume "bs_mlen b = len" "2 ^ 30 \<le> len" "balloc A (Some b) len = Inr (0, Some b)"
    then show thesis by (intro ok) (use b in simp_all)
  next
    assume "\<not> grants A" "balloc A (Some b) len = Inr (-1, Some b)"
    then show thesis by (rule refused)
  qed
qed

section \<open>Copies\<close>

lemma blit_buf:
  assumes "bs_data b = Some d" "i + length t \<le> length d"
  shows "blit b (int i) t = Inr (b\<lparr> bs_data := Some (take i d @ t @ drop (i + length t) d) \<rparr>)"
  using assms by (simp add: blit_def)

lemma load_buf:
  assumes "bs_data b = Some d" "i + n \<le> length d"
  shows "load b (int i) (int n) = Inr (take n (drop i d))"
  using assms by (simp add: load_def)

lemma memmove_buf:
  assumes "bs_data b = Some d" "i + n \<le> length d" "bs_data x = Some e" "j + n \<le> length e"
  shows "memmove b (int i) x (int j) (int n) = Inr (b\<lparr> bs_data := Some (take i d @ take n (drop j e) @ drop (i + n) d) \<rparr>)"
proof -
  have "length (take n (drop j e)) = n" using assms(4) by simp
  then show ?thesis using blit_buf [OF assms(1), of i "take n (drop j e)"] load_buf [OF assms(3,4)] assms(2) by (simp add: memmove_def)
qed

text \<open>A copy behind the contents, and the terminator after it.\<close>

lemma bBlockCopy_holds:
  assumes "holds x t" "bs_data b = Some d" "i + length t \<le> length d"
  shows "bBlockCopy b (int i) x 0 (int (length t)) = Inr (b\<lparr> bs_data := Some (take i d @ t @ drop (i + length t) d) \<rparr>)"
proof (cases "t = []")
  case True
  then show ?thesis using assms by (simp add: bBlockCopy_def)
qed (use assms in \<open>simp add: bBlockCopy_def memmove_def load_holds blit_buf\<close>)

lemma append_tail:
  assumes b: "bstr_buf b s" and room: "int (length s + length t) < bs_mlen b" and x: "holds x t"
  obtains b' where "bind_res (bBlockCopy b (int (length s)) x 0 (int (length t))) (\<lambda>b.
      bind_res (store b (int (length s) + int (length t)) NUL) (\<lambda>b. Inr (0 :: int, Some (b\<lparr> bs_slen := i32 (bs_slen b + int (length t)) \<rparr>)))) =
      Inr (0, Some b')" "bstr_rep b' (s @ t)"
proof -
  obtain d where d: "bs_data b = Some d" "bs_slen b = int (length s)" "bs_mlen b = int (length d)" "length s \<le> length d"
    "0 < length d" "int (length d) < 2 ^ 31" "take (length s) d = s" using b by (rule bstr_bufE)
  let ?d = "s @ t @ drop (length s + length t) d"
  let ?b = "b\<lparr> bs_data := Some ?d \<rparr>"
  have copy: "bBlockCopy b (int (length s)) x 0 (int (length t)) = Inr ?b"
    using bBlockCopy_holds [OF x d(1), of "length s"] room d(3,7) by simp
  have len: "length ?d = length d" using room d(3) by simp
  note fin = store_rep [of ?b ?d "length s + length t" "s @ t"]
  have "store ?b (int (length s) + int (length t)) NUL = Inr (?b\<lparr> bs_data := Some (?d[length s + length t := NUL]) \<rparr>)"
    using fin(1) room d(3,6) len by simp
  moreover have "bstr_rep (?b\<lparr> bs_data := Some (?d[length s + length t := NUL]), bs_slen := int (length s) + int (length t) \<rparr>) (s @ t)"
    by (rule fin(2)) (use room d(3,6) len in simp_all)
  moreover have "i32 (int (length s) + int (length t)) = int (length s) + int (length t)" using room d(3,6) by simp
  ultimately show thesis using copy d(2) by (intro that [of "?b\<lparr> bs_data := Some (?d[length s + length t := NUL]), bs_slen := int (length s) + int (length t) \<rparr>"]) simp_all
qed

lemma new_copy:
  assumes x: "holds x t" and d: "int (length d) = n" "int (length t) < n" "n < 2 ^ 31"
  obtains b where "bind_res (bBlockCopy \<lparr> bs_mlen = n, bs_slen = int (length t), bs_data = Some d \<rparr> 0 x 0 (int (length t)))
      (\<lambda>b. bind_res (store b (int (length t)) NUL) (\<lambda>b. Inr (Some b))) = Inr (Some b)" "bstr_rep b t"
proof -
  let ?d = "t @ drop (length t) d"
  let ?b = "\<lparr> bs_mlen = n, bs_slen = int (length t), bs_data = Some ?d \<rparr>"
  have "bBlockCopy \<lparr> bs_mlen = n, bs_slen = int (length t), bs_data = Some d \<rparr> 0 x 0 (int (length t)) = Inr ?b"
    using bBlockCopy_holds [OF x, of "\<lparr> bs_mlen = n, bs_slen = int (length t), bs_data = Some d \<rparr>" d 0] d by (simp add: flip: of_nat_less_iff)
  moreover note fin = store_rep [of ?b ?d "length t" t]
  have "store ?b (int (length t)) NUL = Inr (?b\<lparr> bs_data := Some (?d[length t := NUL]) \<rparr>)" using fin(1) d by simp
  moreover have "bstr_rep (?b\<lparr> bs_data := Some (?d[length t := NUL]) \<rparr>) t" by (rule fin(2)) (use d in simp_all)
  ultimately show thesis by (intro that) simp_all
qed

text \<open>A new string with the contents, or none when storage is refused.\<close>

definition creates :: "allocator \<Rightarrow> tagbstring option res \<Rightarrow> string \<Rightarrow> bool" where
  "creates A r s \<longleftrightarrow> (\<exists>b. r = Inr (Some b) \<and> bstr_rep b s) \<or> \<not> grants A \<and> r = Inr None"

lemma createsE:
  assumes "creates A r s"
  obtains (ok) b where "r = Inr (Some b)" "bstr_rep b s" | (refused) "\<not> grants A" "r = Inr None"
  using assms by (auto simp: creates_def)

lemma bstrcpy_creates:
  assumes x: "holds x t" and len: "int (length t) + 1 < 2 ^ 31"
  shows "creates A (bstrcpy_buf A (Some x)) t"
proof (cases "a_malloc A SIZEOF_TAGBSTRING")
  case False
  then have "bstrcpy_buf A (Some x) = Inr None" by (simp add: bstrcpy_buf_def)
  moreover have "\<not> grants A" using False header_grants by blast
  ultimately show ?thesis by (simp add: creates_def)
next
  case True
  define j where "j = snapUpSize (int (length t) + 1)"
  have j: "int (length t) < j" "j < 2 ^ 31" using snapUpSize_bounds [OF len] by (simp_all add: j_def)
  let ?room = "case malloc A j of Some d \<Rightarrow> Some (j, d) | None \<Rightarrow> map_option (\<lambda>d. (int (length t) + 1, d)) (malloc A (int (length t) + 1))"
  have eq: "bstrcpy_buf A (Some x) = (case ?room of None \<Rightarrow> Inr None
     | Some (j, d) \<Rightarrow> bind_res (bBlockCopy \<lparr> bs_mlen = j, bs_slen = int (length t), bs_data = Some d \<rparr> 0 x 0 (int (length t)))
         (\<lambda>b0. bind_res (store b0 (int (length t)) NUL) (\<lambda>b0. Inr (Some b0))))"
    using x True len by (auto simp: bstrcpy_buf_def holds_def j_def Let_def split: option.splits)
  show ?thesis
  proof (cases ?room)
    case None
    then have "malloc A j = None" by (auto split: option.splits)
    then have "\<not> grants A" using malloc_grants [of A j] j by auto
    with eq None show ?thesis by (simp add: creates_def)
  next
    case (Some jd)
    then obtain k d where jd: "jd = (k, d)" "k = j \<or> k = int (length t) + 1" "malloc A k = Some d" by (auto split: option.splits)
    then have k: "int (length t) < k" "k < 2 ^ 31" using j len by auto
    then have d: "int (length d) = k" using length_malloc [OF jd(3)] by simp
    obtain b where "bind_res (bBlockCopy \<lparr> bs_mlen = k, bs_slen = int (length t), bs_data = Some d \<rparr> 0 x 0 (int (length t)))
      (\<lambda>b. bind_res (store b (int (length t)) NUL) (\<lambda>b. Inr (Some b))) = Inr (Some b)" "bstr_rep b t"
      using new_copy [OF x d k] .
    then show ?thesis using eq Some jd(1) by (simp add: creates_def)
  qed
qed


lemma blk2bstr_creates:
  assumes blk: "length t \<le> length blk" "take (length t) blk = t" and len: "int (length t) + 1 < 2 ^ 31"
  shows "creates A (blk2bstr_buf A (Some blk) (int (length t))) t"
proof (cases "a_malloc A SIZEOF_TAGBSTRING")
  case False
  then have "\<not> grants A" using header_grants by blast
  then show ?thesis using False by (simp add: creates_def blk2bstr_buf_def)
next
  case True
  define i where "i = snapUpSize (i32 (int (length t) + (2 - (if int (length t) \<noteq> 0 then 1 else 0))))"
  have "i32 (int (length t) + (2 - (if int (length t) \<noteq> 0 then 1 else 0))) = int (length t) + (if t = [] then 2 else 1)"
    using len by simp
  then have i: "int (length t) < i" "i < 2 ^ 31"
    using len snapUpSize_bounds [of "int (length t) + 1"] snapUpSize_bounds [of 2] by (auto simp: i_def)
  let ?copy = "\<lambda>d. bind_res (bBlockCopy \<lparr> bs_mlen = i, bs_slen = int (length t), bs_data = Some d \<rparr> 0 (blk2tbstr (Some blk) (int (length t))) 0 (int (length t)))
         (\<lambda>b. bind_res (store b (int (length t)) NUL) (\<lambda>b. Inr (Some b)))"
  have eq: "blk2bstr_buf A (Some blk) (int (length t)) = (case malloc A i of None \<Rightarrow> Inr None | Some d \<Rightarrow> ?copy d)"
    unfolding blk2bstr_buf_def Let_def i_def [symmetric] using True by simp
  have x: "holds (blk2tbstr (Some blk) (int (length t))) t" using blk by (simp add: holds_def blk2tbstr_def)
  show ?thesis
  proof (cases "malloc A i")
    case None
    then have "\<not> grants A" using malloc_grants [of A i] i by auto
    with eq None show ?thesis by (simp add: creates_def)
  next
    case (Some d)
    have d: "int (length d) = i" using length_malloc [OF Some] i by simp
    obtain b where "?copy d = Inr (Some b)" "bstr_rep b t" using new_copy [OF x d i] .
    then show ?thesis using eq Some by (simp add: creates_def)
  qed
qed

lemma bfromcstr_mlen_creates:
  assumes len: "int (length s) + 1 < 2 ^ 31" "least < 2 ^ 31"
  shows "creates A (bfromcstr_mlen A least (Some s)) s"
proof (cases "a_malloc A SIZEOF_TAGBSTRING")
  case False
  then have "\<not> grants A" using header_grants by blast
  then show ?thesis using False by (simp add: creates_def bfromcstr_mlen_def Let_def)
next
  case True
  define i where "i = snapUpSize (i32 (int (length s) + (2 - (if int (length s) \<noteq> 0 then 1 else 0))))"
  have "i32 (int (length s) + (2 - (if int (length s) \<noteq> 0 then 1 else 0))) = int (length s) + (if s = [] then 2 else 1)"
    using len by simp
  then have i: "int (length s) < i" "i < 2 ^ 31"
    using len snapUpSize_bounds [of "int (length s) + 1"] snapUpSize_bounds [of 2] by (auto simp: i_def)
  define k where "k = (if i < least then least else i)"
  have k: "int (length s) < k" "k < 2 ^ 31" using i len by (auto simp: k_def)
  let ?new = "\<lambda>d. bind_res (blit \<lparr> bs_mlen = k, bs_slen = int (length s), bs_data = Some d \<rparr> 0 (s @ [NUL])) (\<lambda>b. Inr (Some b))"
  have eq: "bfromcstr_mlen A least (Some s) = (case malloc A k of None \<Rightarrow> Inr None | Some d \<Rightarrow> ?new d)"
    unfolding bfromcstr_mlen_def option.case Let_def i_def [symmetric] k_def [symmetric] using True i len by (simp split: option.split)
  show ?thesis
  proof (cases "malloc A k")
    case None
    then have "\<not> grants A" using malloc_grants [of A k] k by auto
    with eq None show ?thesis by (simp add: creates_def)
  next
    case (Some d)
    have d: "int (length d) = k" using length_malloc [OF Some] k by simp
    let ?b = "\<lparr> bs_mlen = k, bs_slen = int (length s), bs_data = Some (s @ NUL # drop (Suc (length s)) d) \<rparr>"
    have "?new d = Inr (Some ?b)" using k d by (simp add: blit_def)
    moreover have "bstr_rep ?b s" using k d by (simp add: bstr_rep_def nth_append)
    ultimately show ?thesis using eq Some by (simp add: creates_def)
  qed
qed

lemma bfromcstr_creates: "int (length s) + 1 < 2 ^ 31 \<Longrightarrow> creates A (bfromcstr A (Some s)) s"
  by (simp add: bfromcstr_def bfromcstr_mlen_creates)

lemma bfromcstralloc_creates: "int (length s) + 1 < 2 ^ 31 \<Longrightarrow> mlen < 2 ^ 31 \<Longrightarrow> creates A (bfromcstralloc A mlen (Some s)) s"
  by (simp add: bfromcstralloc_def bfromcstr_mlen_creates)

section \<open>Appending\<close>

lemma arg_holdsE:
  assumes "arg_holds b a t"
  obtains x where "arg_ptr b a = Some x" "holds x t"
  using assms by (auto simp: arg_holds_def split: option.splits)

lemma holds_fields: "holds x t \<Longrightarrow> bs_slen x = int (length t) \<and> bs_data x \<noteq> None"
  by (auto simp: holds_def split: option.splits)

text \<open>An argument that shares the buffer is copied before the buffer moves.\<close>

lemma unalias_apart:
  assumes a: "arg_holds b a t" and b: "bstr_rep b s \<or> (\<exists>p. a = Apart p)" and len: "int (length t) + 1 < 2 ^ 31"
  obtains (ok) x where "unalias A b a (aliased b a) = Inr (Some (Apart (Some x)))" "holds x t"
    | (refused) "\<not> grants A" "unalias A b a (aliased b a) = Inr None"
proof -
  obtain y where y: "arg_ptr b a = Some y" "holds y t" using a by (rule arg_holdsE)
  have copy: thesis if share: "aliased b a"
  proof (rule createsE [OF bstrcpy_creates [OF y(2) len, of A]])
    fix x assume "bstrcpy_buf A (Some y) = Inr (Some x)" "bstr_rep x t"
    then show thesis by (intro ok [of x]) (use share y in \<open>simp_all add: unalias_def rep_holds bstr_rep_buf\<close>)
  next
    assume "\<not> grants A" "bstrcpy_buf A (Some y) = Inr None"
    then show thesis by (intro refused) (use share y in \<open>simp_all add: unalias_def\<close>)
  qed
  show thesis
  proof (cases a)
    case (Apart p)
    then show thesis using y by (intro ok [of y]) (simp_all add: unalias_def aliased_def)
  next
    case Self
    then have "aliased b a" using b by (auto simp: aliased_def elim!: bstr_repE)
    then show thesis by (rule copy)
  next
    case (Within pd n)
    then have "0 \<le> pd" "pd + n \<le> bs_slen b" "0 \<le> n" using a y by (auto simp: arg_holds_def holds_def blk2tbstr_def split: option.splits)
    then have "aliased b a" using b Within by (auto simp: aliased_def elim: bstr_repE)
    then show thesis by (rule copy)
  qed
qed

lemma bconcat_yields:
  assumes b: "bstr_buf b s" "bstr_rep b s \<or> (\<exists>p. a = Apart p)" and a: "arg_holds b a t" and len: "int (length s + length t) + 1 < 2 ^ 31"
  shows "yields A b (bconcat_buf A (Some b) a) (s @ t)"
proof -
  obtain d where d: "bs_data b = Some d" "bs_slen b = int (length s)" "bs_mlen b = int (length d)" "length s \<le> length d"
    "0 < length d" "int (length d) < 2 ^ 31" "take (length s) d = s" using b(1) by (rule bstr_bufE)
  obtain y where y: "arg_ptr b a = Some y" "holds y t" using a by (rule arg_holdsE)
  obtain e where ylen: "bs_slen y = int (length t)" "bs_data y = Some e" using holds_fields [OF y(2)] by blast
  let ?n = "int (length s) + int (length t)"
  let ?grow = "if bs_mlen b \<le> ?n + 1 then
      bind_res (unalias A b a (aliased b a)) (\<lambda>aux. case aux of None \<Rightarrow> Inr (BSTR_ERR, Some b, a)
        | Some aux \<Rightarrow> bind_res (balloc A (Some b) (?n + 1)) (\<lambda>(r, p). Inr (r, p, aux)))
    else Inr (BSTR_OK, Some b, a)"
  let ?tail = "\<lambda>p x. bind_res (bBlockCopy p (int (length s)) x 0 (int (length t))) (\<lambda>b.
      bind_res (store b ?n NUL) (\<lambda>b. Inr (0 :: int, Some (b\<lparr> bs_slen := i32 (bs_slen b + int (length t)) \<rparr>))))"
  have i: "i32 (?n + 1) = ?n + 1" "i32 ?n = ?n" "i32 (bs_mlen b - int (length s)) = bs_mlen b - int (length s)"
    using len d by (intro i32_id; simp)+
  have eq: "bconcat_buf A (Some b) a = bind_res ?grow (\<lambda>(r, p, aux). if r \<noteq> BSTR_OK then Inr (BSTR_ERR, p)
    else bind_res (arg_after b (the p) aux) (\<lambda>x. ?tail (the p) (the x)))"
    unfolding bconcat_buf_def option.case y(1) Let_def ylen(1) d(2) i using ylen(2) d by simp
  consider (fits) "?n + 1 < bs_mlen b" | (grows) "bs_mlen b \<le> ?n + 1" by linarith
  then show ?thesis
  proof cases
    case fits
    have "int (length s + length t) < bs_mlen b" using fits by simp
    then obtain b' where t: "?tail b y = Inr (0, Some b')" "bstr_rep b' (s @ t)" using append_tail [OF b(1) _ y(2)] by blast
    have c: "bconcat_buf A (Some b) a = ?tail b y" using eq fits y(1) by (simp add: BSTR_OK_def arg_after_def split: barg.splits)
    show ?thesis unfolding trans [OF c t(1)] by (rule yieldsI [OF t(2)])
  next
    case grows
    show ?thesis
    proof (rule unalias_apart [OF a b(2), of A])
      show "int (length t) + 1 < 2 ^ 31" using len by simp
    next
      assume "\<not> grants A" "unalias A b a (aliased b a) = Inr None"
      then show ?thesis using eq grows by (simp add: yields_def BSTR_ERR_def BSTR_OK_def)
    next
      fix x assume x: "unalias A b a (aliased b a) = Inr (Some (Apart (Some x)))" "holds x t"
      show ?thesis
      proof (rule balloc_buf [OF b(1), of "?n + 1" A])
        show "0 < ?n + 1" "?n + 1 < 2 ^ 31" using len by simp_all
      next
        fix b1 assume b1: "balloc A (Some b) (?n + 1) = Inr (0, Some b1)" "bstr_buf b1 s" "?n + 1 \<le> bs_mlen b1"
        have "int (length s + length t) < bs_mlen b1" using b1(3) by simp
        then obtain b' where t: "?tail b1 x = Inr (0, Some b')" "bstr_rep b' (s @ t)" using append_tail [OF b1(2) _ x(2)] by blast
        have c: "bconcat_buf A (Some b) a = ?tail b1 x" using eq grows x(1) b1(1) by (simp add: BSTR_OK_def arg_after_def)
        show ?thesis unfolding trans [OF c t(1)] by (rule yieldsI [OF t(2)])
      next
        assume "\<not> grants A" "balloc A (Some b) (?n + 1) = Inr (-1, Some b)"
        then show ?thesis using eq grows x(1) by (simp add: yields_def BSTR_ERR_def BSTR_OK_def)
      qed
    qed
  qed
qed

lemma balloc_fits: "bstr_buf b s \<Longrightarrow> 0 < len \<Longrightarrow> len < bs_mlen b \<Longrightarrow> balloc A (Some b) len = Inr (0, Some b)"
  by (simp add: balloc.simps bstr_buf_writable BSTR_OK_def)

lemma bconchar_yields:
  assumes b: "bstr_rep b s" and len: "int (length s) + 2 < 2 ^ 31"
  shows "yields A b (bconchar A (Some b) c) (s @ [c])"
proof -
  let ?n = "int (length s)"
  let ?tail = "\<lambda>p. bind_res (store p ?n c) (\<lambda>b. bind_res (store b (?n + 1) NUL) (\<lambda>b. Inr (0 :: int, Some (b\<lparr> bs_slen := i32 (bs_slen b + 1) \<rparr>))))"
  obtain d where d: "bs_data b = Some d" "bs_slen b = int (length s)" "bs_mlen b = int (length d)" "length s < length d"
    "int (length d) < 2 ^ 31" "take (length s) d = s" "d ! length s = NUL" using b by (rule bstr_repE)
  have i: "i32 (?n + 2) = ?n + 2" "i32 (?n + 1) = ?n + 1" "i32 (bs_mlen b - ?n) = bs_mlen b - ?n" using len d by (intro i32_id; simp)+
  have eq: "bconchar A (Some b) c = bind_res (balloc A (Some b) (?n + 2)) (\<lambda>(r, p). if r \<noteq> BSTR_OK then Inr (BSTR_ERR, p) else ?tail (the p))"
    unfolding bconchar.simps Let_def d(2) i using d by simp
  show ?thesis
  proof (rule balloc_buf [OF bstr_rep_buf [OF b], of "?n + 2" A])
    show "0 < ?n + 2" "?n + 2 < 2 ^ 31" using len by simp_all
  next
    fix b1 assume b1: "balloc A (Some b) (?n + 2) = Inr (0, Some b1)" "bstr_buf b1 s" "?n + 2 \<le> bs_mlen b1"
    obtain e where e: "bs_data b1 = Some e" "bs_slen b1 = int (length s)" "bs_mlen b1 = int (length e)" "length s \<le> length e"
    "0 < length e" "int (length e) < 2 ^ 31" "take (length s) e = s" using b1(2) by (rule bstr_bufE)
    have room: "Suc (length s) < length e" using b1(3) e(3) by simp
    let ?e = "e[length s := c]"
    have pre: "take (Suc (length s)) ?e = s @ [c]" using room e(7) by (simp add: take_Suc_conv_app_nth)
    have "store b1 ?n c = Inr (b1\<lparr> bs_data := Some ?e \<rparr>)" using room e(1) by (simp add: store_def)
    moreover note fin = store_rep [of "b1\<lparr> bs_data := Some ?e \<rparr>" ?e "Suc (length s)" "s @ [c]"]
    let ?b = "b1\<lparr> bs_data := Some (?e[Suc (length s) := NUL]), bs_slen := ?n + 1 \<rparr>"
    have "store (b1\<lparr> bs_data := Some ?e \<rparr>) (?n + 1) NUL = Inr (b1\<lparr> bs_data := Some (?e[Suc (length s) := NUL]) \<rparr>)"
      using fin(1) room pre e by (simp add: add.commute)
    moreover have "bstr_rep ?b (s @ [c])" by (rule fin(2)) (use room pre e in simp_all)
    moreover have "i32 (bs_slen b1 + 1) = ?n + 1" using e(2) len by simp
    ultimately show ?thesis using eq b1(1) by (simp add: BSTR_OK_def yieldsI)
  next
    assume "\<not> grants A" "balloc A (Some b) (?n + 2) = Inr (-1, Some b)"
    then show ?thesis using eq by (simp add: yields_def BSTR_ERR_def BSTR_OK_def)
  qed
qed

lemma bcatblk_yields:
  assumes b: "bstr_rep b s" and a: "arg_holds b a t" and len: "int (length s + length t) + 1 < 2 ^ 31"
  shows "yields A b (bcatblk A (Some b) a) (s @ t)"
proof -
  obtain d where d: "bs_data b = Some d" "bs_slen b = int (length s)" "bs_mlen b = int (length d)" "length s < length d"
    "int (length d) < 2 ^ 31" "take (length s) d = s" "d ! length s = NUL" using b by (rule bstr_repE)
  obtain y where y: "arg_ptr b a = Some y" "holds y t" using a by (rule arg_holdsE)
  obtain e where ylen: "bs_slen y = int (length t)" "bs_data y = Some e" using holds_fields [OF y(2)] by blast
  let ?n = "length s + length t"
  have i: "i32 (int (length s) + int (length t)) = int (length s) + int (length t)" using d len by simp
  show ?thesis
  proof (cases "int ?n < bs_mlen b")
    case True
    let ?d = "s @ t @ drop ?n d"
    let ?b = "b\<lparr> bs_data := Some ?d, bs_slen := int ?n \<rparr>"
    have "bBlockCopy b (int (length s)) y 0 (int (length t)) = Inr (b\<lparr> bs_data := Some ?d \<rparr>)"
      using bBlockCopy_holds [OF y(2) d(1), of "length s"] True d by simp
    moreover note fin = store_rep [of ?b ?d ?n "s @ t"]
    have "store ?b (int ?n) NUL = Inr (?b\<lparr> bs_data := Some (?d[?n := NUL]) \<rparr>)" using fin(1) True d by simp
    moreover have "bstr_rep (?b\<lparr> bs_data := Some (?d[?n := NUL]) \<rparr>) (s @ t)" by (rule fin(2)) (use True d in simp_all)
    ultimately show ?thesis using y(1) ylen i True d bstr_rep_writable [OF b]
      by (simp add: bcatblk_def Let_def BSTR_OK_def yieldsI)
  next
    case False
    then have "bcatblk A (Some b) a = bconcat_buf A (Some b) a"
      using y(1) ylen i d(2) bstr_rep_writable [OF b] by (simp add: bcatblk_def Let_def)
    then show ?thesis using bconcat_yields [OF bstr_rep_buf [OF b] _ a len] b by simp
  qed
qed

lemma bcatcstr_loop_fits:
  assumes "bs_data b = Some d" "take (length u) d = u" "length u + n = length d" "length t < n"
  shows "bcatcstr_loop b (int (length u)) n t =
    Inr (b\<lparr> bs_data := Some (u @ t @ NUL # drop (length u + length t + 1) d) \<rparr>, int (length u + length t), None)"
  using assms
proof (induction t arbitrary: b d u n)
  case Nil
  then obtain m where "n = Suc m" by (cases n) auto
  with Nil show ?case by (simp add: store_def upd_conv_take_nth_drop)
next
  case (Cons c t)
  then obtain m where m: "n = Suc m" by (cases n) auto
  let ?d = "d[length u := c]"
  have "take (length (u @ [c])) ?d = u @ [c]" using Cons.prems m by (simp add: take_Suc_conv_app_nth)
  then have "bcatcstr_loop (b\<lparr> bs_data := Some ?d \<rparr>) (int (length (u @ [c]))) m t =
    Inr (b\<lparr> bs_data := Some ?d \<rparr>\<lparr> bs_data := Some ((u @ [c]) @ t @ NUL # drop (length (u @ [c]) + length t + 1) ?d) \<rparr>, int (length (u @ [c]) + length t), None)"
    using Cons.prems m by (intro Cons.IH [where d = ?d]) simp_all
  moreover have "store b (int (length u)) c = Inr (b\<lparr> bs_data := Some ?d \<rparr>)" using Cons.prems m by (simp add: store_def)
  ultimately show ?case using m by (simp add: add.commute)
qed

lemma bcatcstr_loop_full:
  assumes "bs_data b = Some d" "take (length u) d = u" "length u + n = length d" "n \<le> length t"
  shows "bcatcstr_loop b (int (length u)) n t = Inr (b\<lparr> bs_data := Some (u @ take n t) \<rparr>, int (length u + n), Some (drop n t))"
  using assms
proof (induction n arbitrary: b d u t)
  case 0
  then show ?case by (cases b) (simp add: take_all)
next
  case (Suc n)
  then obtain c t' where t: "t = c # t'" by (cases t) auto
  let ?d = "d[length u := c]"
  have "take (length (u @ [c])) ?d = u @ [c]" using Suc.prems by (simp add: take_Suc_conv_app_nth)
  then have "bcatcstr_loop (b\<lparr> bs_data := Some ?d \<rparr>) (int (length (u @ [c]))) n t' =
    Inr (b\<lparr> bs_data := Some ?d \<rparr>\<lparr> bs_data := Some ((u @ [c]) @ take n t') \<rparr>, int (length (u @ [c]) + n), Some (drop n t'))"
    using Suc.prems t by (intro Suc.IH [where d = ?d]) simp_all
  moreover have "store b (int (length u)) c = Inr (b\<lparr> bs_data := Some ?d \<rparr>)" using Suc.prems by (simp add: store_def)
  ultimately show ?case using t by (simp add: add.commute)
qed

text \<open>
  \<open>bcatcstr\<close> copies before it asks for storage: when that is refused the string fills its whole
  buffer and has no terminator.
\<close>

lemma bcatcstr_cases:
  assumes b: "bstr_rep b s" and len: "int (length s + length t) + 1 < 2 ^ 31"
  obtains (ok) b' where "bcatcstr A (Some b) (Some t) = Inr (0, Some b')" "bstr_rep b' (s @ t)"
    | (refused) k b' where "\<not> grants A" "bcatcstr A (Some b) (Some t) = Inr (-1, Some b')" "bstr_buf b' (s @ take k t)"
        "bs_slen b' = bs_mlen b'"
proof -
  obtain d where d: "bs_data b = Some d" "bs_slen b = int (length s)" "bs_mlen b = int (length d)" "length s < length d"
    "int (length d) < 2 ^ 31" "take (length s) d = s" "d ! length s = NUL" using b by (rule bstr_repE)
  define n where "n = length d - length s"
  have n: "length s + n = length d" "nat (bs_mlen b - bs_slen b) = n" "length d - length s = n" using d(2-4) by (auto simp: n_def)
  show thesis
  proof (cases "length t < n")
    case True
    let ?d = "s @ t @ NUL # drop (length s + length t + 1) d"
    let ?b = "b\<lparr> bs_data := Some ?d, bs_slen := int (length s + length t) \<rparr>"
    show thesis
    proof (rule ok [of ?b])
      show "bcatcstr A (Some b) (Some t) = Inr (0, Some ?b)"
        using bcatcstr_loop_fits [OF d(1,6) n(1) True] n(2) d(2) bstr_rep_writable [OF b] by (simp add: bcatcstr_def BSTR_OK_def)
      show "bstr_rep ?b (s @ t)" using d n True by (simp add: bstr_rep_def nth_append)
    qed
  next
    case False
    let ?b = "b\<lparr> bs_data := Some (s @ take n t), bs_slen := int (length s + n) \<rparr>"
    let ?t = "cstr2tbstr (Some (drop n t))"
    have eq: "bcatcstr A (Some b) (Some t) = bconcat_buf A (Some ?b) (Apart (Some ?t))"
      using bcatcstr_loop_full [OF d(1,6) n(1), of t] n(2) d(2) bstr_rep_writable [OF b] False by (simp add: bcatcstr_def)
    have buf: "bstr_buf ?b (s @ take n t)" using d(3-6) n(1,3) False by (auto simp: bstr_buf_def)
    have "arg_holds ?b (Apart (Some ?t)) (drop n t)" using len
      by (simp add: arg_Apart holds_def cstr2tbstr_def blk2tbstr_def)
    moreover have "int (length (s @ take n t) + length (drop n t)) + 1 < 2 ^ 31" using len False by simp
    ultimately have "yields A ?b (bcatcstr A (Some b) (Some t)) ((s @ take n t) @ drop n t)" using bconcat_yields [OF buf, of "Apart (Some ?t)" "drop n t" A] eq by simp
    then consider b' where "bcatcstr A (Some b) (Some t) = Inr (0, Some b')" "bstr_rep b' (s @ t)"
      | "\<not> grants A" "bcatcstr A (Some b) (Some t) = Inr (-1, Some ?b)" by (auto simp: yields_def)
    then show thesis
    proof cases
      case 1
      then show thesis by (rule ok)
    next
      case 2
      show thesis by (rule refused [OF 2 buf]) (use n d(3) in simp)
    qed
  qed
qed

end
