(* ===== verification/BstrOps.thy ===== *)
theory BstrOps
  imports BstrRep
begin

text \<open>
  The functions that assign and cut strings on the contents of their buffers.
\<close>

section \<open>Assigning\<close>

lemma arg_inside:
  assumes "arg_holds b a t" "bstr_rep b s" "\<And>p. a \<noteq> Apart p"
  shows "length t \<le> length s"
  using assms by (cases a) (auto simp: arg_holds_def holds_def blk2tbstr_def elim!: bstr_repE split: option.splits)

lemma arg_after_same: "arg_after b b a = Inr (arg_ptr b a)"
  by (cases a) (simp_all add: arg_after_def)

text \<open>Room for the contents of an argument, with the argument still there.\<close>

lemma room_for:
  assumes b: "bstr_rep b s" and a: "arg_holds b a t" and n: "0 < n" "n \<le> int (length t)" "n < 2 ^ 30"
  obtains (ok) b' y where "balloc A (Some b) n = Inr (0, Some b')" "bstr_rep b' s" "n < bs_mlen b'" "arg_after b b' a = Inr (Some y)" "holds y t"
    | (refused) "\<not> grants A" "balloc A (Some b) n = Inr (-1, Some b)"
proof -
  obtain y where y: "arg_ptr b a = Some y" "holds y t" using a by (rule arg_holdsE)
  note buf = bstr_rep_buf [OF b]
  show thesis
  proof (cases "n < bs_mlen b")
    case True
    have "arg_after b b a = Inr (Some y)" using y(1) by (simp add: arg_after_same)
    then show thesis using ok [OF balloc_fits [OF buf n(1) True] b True _ y(2)] by blast
  next
    case False
    obtain d where d: "bs_data b = Some d" "bs_slen b = int (length s)" "bs_mlen b = int (length d)" "length s < length d"
    "int (length d) < 2 ^ 31" "take (length s) d = s" "d ! length s = NUL" using b by (rule bstr_repE)
    have "\<exists>p. a = Apart p"
    proof (rule ccontr)
      assume "\<nexists>p. a = Apart p"
      then have "length t \<le> length s" using arg_inside [OF a b] by blast
      with False n(2) d show False by simp
    qed
    then obtain p where p: "a = Apart p" by blast
    show thesis
    proof (rule balloc_buf [OF buf n(1), of A])
      show "n < 2 ^ 31" using n(3) by simp
    next
      fix b' assume b': "balloc A (Some b) n = Inr (0, Some b')" "n < 2 ^ 30 \<Longrightarrow> n < bs_mlen b'" "bstr_rep b s \<Longrightarrow> bstr_rep b' s"
      then show thesis using ok [OF b'(1) b'(3) [OF b] b'(2) [OF n(3)] _ y(2)] y(1) p by (simp add: arg_after_def)
    next
      assume "\<not> grants A" "balloc A (Some b) n = Inr (-1, Some b)"
      then show thesis by (rule refused)
    qed
  qed
qed

lemma overwrite:
  assumes b: "bstr_rep b s" and y: "load y j (int (length t)) = Inr t" and room: "int (length t) < bs_mlen b"
  obtains e where "memmove b 0 y j (int (length t)) = Inr (b\<lparr> bs_data := Some e \<rparr>)" "int (length e) = bs_mlen b" "take (length t) e = t"
proof -
  obtain d where d: "bs_data b = Some d" "bs_slen b = int (length s)" "bs_mlen b = int (length d)" "length s < length d"
    "int (length d) < 2 ^ 31" "take (length s) d = s" "d ! length s = NUL" using b by (rule bstr_repE)
  have "memmove b 0 y j (int (length t)) = Inr (b\<lparr> bs_data := Some (t @ drop (length t) d) \<rparr>)"
    using y d room blit_buf [of b d 0 t] by (simp add: memmove_def)
  then show thesis by (rule that) (use d room in simp_all)
qed

lemma terminate:
  assumes "bs_mlen b = int (length e)" "int (length e) < 2 ^ 31" "length t < length e" "take (length t) e = t"
  shows "store (b\<lparr> bs_data := Some e \<rparr>) (int (length t)) NUL = Inr (b\<lparr> bs_data := Some (e[length t := NUL]) \<rparr>)"
    "bstr_rep (b\<lparr> bs_data := Some (e[length t := NUL]), bs_slen := int (length t) \<rparr>) t"
    "bstr_rep (b\<lparr> bs_slen := int (length t), bs_data := Some (e[length t := NUL]) \<rparr>) t"
  using assms by (simp_all add: store_def bstr_rep_def)

lemma bstr_rep_lt: "bstr_rep b s \<Longrightarrow> bs_mlen b < 2 ^ 31"
  by (erule bstr_repE) simp

lemma bassign_yields:
  assumes b: "bstr_rep b s" and a: "arg_holds b a t" and len: "int (length t) < 2 ^ 30"
  shows "yields A b (bassign A (Some b) a) t"
proof -
  obtain d where d: "bs_data b = Some d" "bs_slen b = int (length s)" "bs_mlen b = int (length d)" "length s < length d"
    "int (length d) < 2 ^ 31" "take (length s) d = s" "d ! length s = NUL" using b by (rule bstr_repE)
  have ne: "d \<noteq> []" using d(4) by auto
  obtain y where y: "arg_ptr b a = Some y" "holds y t" using a by (rule arg_holdsE)
  obtain z where ylen: "bs_slen y = int (length t)" "bs_data y = Some z" using holds_fields [OF y(2)] by blast
  show ?thesis
  proof (cases "t = []")
    case True
    have "bassign A (Some b) a = Inr (0, Some (b\<lparr> bs_data := Some (d[0 := NUL]), bs_slen := 0 \<rparr>))"
      using True y(1) ylen d ne by (simp add: bassign_def BSTR_OK_def store_def)
    moreover have "bstr_rep (b\<lparr> bs_data := Some (d[0 := NUL]), bs_slen := 0 \<rparr>) t" using terminate(2) [of b d t] True d ne by simp
    ultimately show ?thesis by (simp add: yieldsI)
  next
    case False
    let ?n = "int (length t)"
    have n: "0 < ?n" using False by simp
    have eq: "bassign A (Some b) a = bind_res (bind_res (balloc A (Some b) ?n) (\<lambda>(r, p').
         if r \<noteq> BSTR_OK then Inr (BSTR_ERR, p') else bind_res (arg_after b (the p') a) (\<lambda>x.
           bind_res (memmove (the p') 0 (the x) 0 ?n) (\<lambda>q. Inr (BSTR_OK, Some q)))))
      (\<lambda>(r, p). if r \<noteq> BSTR_OK then Inr (BSTR_ERR, p) else bind_res (store (the p) ?n NUL) (\<lambda>q. Inr (BSTR_OK, Some (q\<lparr> bs_slen := ?n \<rparr>))))"
      unfolding bassign_def option.case y(1) ylen option.sel using False by simp
    show ?thesis
    proof (rule room_for [OF b a n order_refl len, of A])
      fix b' x assume r: "balloc A (Some b) ?n = Inr (0, Some b')" "bstr_rep b' s" "?n < bs_mlen b'" "arg_after b b' a = Inr (Some x)" "holds x t"
      obtain e where e: "memmove b' 0 x 0 ?n = Inr (b'\<lparr> bs_data := Some e \<rparr>)" "int (length e) = bs_mlen b'" "take (length t) e = t"
        using overwrite [OF r(2) load_holds [OF r(5)] r(3)] .
      note t = terminate [of b' e t]
      show ?thesis using eq r e t bstr_rep_lt [OF r(2)] by (simp add: BSTR_OK_def yieldsI)
    next
      assume "\<not> grants A" "balloc A (Some b) ?n = Inr (-1, Some b)"
      then show ?thesis using eq by (simp add: yields_def BSTR_ERR_def BSTR_OK_def)
    qed
  qed
qed

text \<open>The part of a string that (left, len) describes.\<close>

definition midstr :: "string \<Rightarrow> int \<Rightarrow> int \<Rightarrow> string" where
  "midstr s left len = (case clamp (int (length s)) left len of (l, n) \<Rightarrow> take (nat n) (drop (nat l) s))"

definition small :: "int \<Rightarrow> bool" where
  "small x \<longleftrightarrow> - (2 ^ 30) < x \<and> x < 2 ^ 30"

lemma clamp_small:
  assumes "small left" "small len" "small (int (length s))" "clamp (int (length s)) left len = (l, n)" "0 < n"
  shows "0 \<le> l" "l + n \<le> int (length s)" "length (take (nat n) (drop (nat l) s)) = nat n"
proof -
  show 1: "0 \<le> l" "l + n \<le> int (length s)"
    using assms by (auto simp: clamp_def Let_def small_def split: if_splits)
  show "length (take (nat n) (drop (nat l) s)) = nat n" using 1 assms(5) by (simp add: le_diff_conv nat_le_iff)
qed

lemma bmidstr_midstr:
  assumes "small left" "small len" "small (int (length s))"
  shows "bmidstr (Some s) left len = Some (midstr s left len)"
  using assms by (auto simp: bmidstr_def midstr_def clamp_def Let_def small_def blk2bstr_def)

lemma bassignmidstr_yields:
  assumes b: "bstr_rep b s" and a: "arg_holds b a t" and sm: "small left" "small len" "small (int (length t))"
  shows "yields A b (bassignmidstr A (Some b) a left len) (midstr t left len)"
proof -
  obtain d where d: "bs_data b = Some d" "bs_slen b = int (length s)" "bs_mlen b = int (length d)" "length s < length d"
    "int (length d) < 2 ^ 31" "take (length s) d = s" "d ! length s = NUL" using b by (rule bstr_repE)
  have ne: "d \<noteq> []" using d(4) by auto
  obtain y where y: "arg_ptr b a = Some y" "holds y t" using a by (rule arg_holdsE)
  obtain z where ylen: "bs_slen y = int (length t)" "bs_data y = Some z" using holds_fields [OF y(2)] by blast
  obtain l n where c: "clamp (int (length t)) left len = (l, n)" by fastforce
  have ok: "\<not> (bs_data b = None \<or> bs_mlen b < bs_slen b \<or> bs_slen b < 0 \<or> bs_mlen b = 0)" using d by auto
  show ?thesis
  proof (cases "0 < n")
    case False
    then have m: "midstr t left len = []" by (simp add: midstr_def c)
    have "bassignmidstr A (Some b) a left len = Inr (0, Some (b\<lparr> bs_data := Some (d[0 := NUL]), bs_slen := 0 \<rparr>))"
      using False y(1) ylen c ok d ne by (simp add: bassignmidstr_def BSTR_OK_def store_def)
    moreover have "bstr_rep (b\<lparr> bs_data := Some (d[0 := NUL]), bs_slen := 0 \<rparr>) (midstr t left len)" using terminate(2) [of b d "[]"] m d ne by simp
    ultimately show ?thesis by (simp add: yieldsI)
  next
    case True
    let ?m = "midstr t left len"
    have m: "?m = take (nat n) (drop (nat l) t)" by (simp add: midstr_def c)
    note cs = clamp_small [OF sm c True]
    have n: "int (length ?m) = n" using cs(3) m True by simp
    have eq: "bassignmidstr A (Some b) a left len = bind_res (balloc A (Some b) n) (\<lambda>(r, p').
        if r \<noteq> BSTR_OK then Inr (BSTR_ERR, p') else bind_res (arg_after b (the p') a) (\<lambda>x.
          bind_res (memmove (the p') 0 (the x) l n) (\<lambda>q. bind_res (store (q\<lparr> bs_slen := n \<rparr>) n NUL) (\<lambda>q. Inr (BSTR_OK, Some q)))))"
      unfolding bassignmidstr_def option.case y(1) ylen c prod.case Let_def using ok True d by simp
    have lt: "n \<le> int (length t)" "n < 2 ^ 30" using cs sm(3) by (simp_all add: small_def)
    show ?thesis
    proof (rule room_for [OF b a True lt, of A])
      fix b' x assume r: "balloc A (Some b) n = Inr (0, Some b')" "bstr_rep b' s" "n < bs_mlen b'" "arg_after b b' a = Inr (Some x)" "holds x t"
      have "take (nat n) (drop (nat l) w) = ?m" if "take (length t) w = t" for w
      proof -
        have "nat l + nat n \<le> length t" using cs(1,2) True by simp
        then have "take (nat n) (drop (nat l) w) = take (nat n) (drop (nat l) (take (length t) w))" by (simp add: take_drop min_def add.commute)
        then show ?thesis using that m by simp
      qed
      then have "load x l (int (length ?m)) = Inr ?m"
        using r(5) cs(1,2) True n by (auto simp: load_def holds_def split: option.splits)
      then obtain e where e: "memmove b' 0 x l n = Inr (b'\<lparr> bs_data := Some e \<rparr>)" "int (length e) = bs_mlen b'" "take (length ?m) e = ?m"
        using overwrite [OF r(2), of x l ?m] r(3) n by auto
      note t = terminate(1) [of "b'\<lparr> bs_slen := n \<rparr>" e ?m] terminate(3) [of b' e ?m]
      have "bs_mlen b' < 2 ^ 31" using bstr_rep_lt [OF r(2)] .
      then have "store (b'\<lparr> bs_slen := n, bs_data := Some e \<rparr>) n NUL = Inr (b'\<lparr> bs_slen := n, bs_data := Some (e[length ?m := NUL]) \<rparr>)"
        "bstr_rep (b'\<lparr> bs_slen := n, bs_data := Some (e[length ?m := NUL]) \<rparr>) ?m"
        using t e(2,3) r(3) n by simp_all
      then show ?thesis using eq r(1,4) e(1) by (simp add: BSTR_OK_def yieldsI)
    next
      assume "\<not> grants A" "balloc A (Some b) n = Inr (-1, Some b)"
      then show ?thesis using eq by (simp add: yields_def BSTR_ERR_def BSTR_OK_def)
    qed
  qed
qed

section \<open>Cutting\<close>

lemma bempty_yields:
  assumes "bstr_rep b s"
  shows "yields A b (bempty b) []"
proof -
  obtain d where d: "bs_data b = Some d" "bs_slen b = int (length s)" "bs_mlen b = int (length d)" "length s < length d"
    "int (length d) < 2 ^ 31" "take (length s) d = s" "d ! length s = NUL" using assms by (rule bstr_repE)
  have ne: "d \<noteq> []" using d(4) by auto
  then have "bempty b = Inr (0, Some (b\<lparr> bs_data := Some (d[0 := NUL]), bs_slen := 0 \<rparr>))"
    using terminate(1) [of b d "[]"] d by (simp add: bempty_def store_def)
  then show ?thesis using terminate(2) [of b d "[]"] d ne by (simp add: yieldsI)
qed

text \<open>Setting a smaller length and writing the terminator there.\<close>

lemma cut_rep:
  assumes "bstr_rep b s" "n \<le> length s"
  obtains b' where "\<And>l. store (b\<lparr> bs_slen := l \<rparr>) (int n) NUL = Inr (b'\<lparr> bs_slen := l \<rparr>)" "bstr_rep (b'\<lparr> bs_slen := int n \<rparr>) (take n s)"
    "store b (int n) NUL = Inr b'"
proof -
  obtain d where d: "bs_data b = Some d" "bs_slen b = int (length s)" "bs_mlen b = int (length d)" "length s < length d"
    "int (length d) < 2 ^ 31" "take (length s) d = s" "d ! length s = NUL" using assms(1) by (rule bstr_repE)
  have t: "take n d = take n s" using d(6) assms(2) by (metis min.absorb1 take_take)
  let ?b = "b\<lparr> bs_data := Some (d[n := NUL]) \<rparr>"
  show thesis
  proof (rule that [of ?b])
    show "store (b\<lparr> bs_slen := l \<rparr>) (int n) NUL = Inr (?b\<lparr> bs_slen := l \<rparr>)" for l
      using d assms(2) by (simp add: store_def)
    show "store b (int n) NUL = Inr ?b" using d assms(2) by (simp add: store_def)
    show "bstr_rep (?b\<lparr> bs_slen := int n \<rparr>) (take n s)" using d assms(2) t by (simp add: bstr_rep_def)
  qed
qed

lemma btrunc_yields:
  assumes b: "bstr_rep b s" and n: "0 \<le> n"
  shows "yields A b (btrunc (Some b) n) (take (nat n) s)"
proof (cases "bs_slen b > n")
  case True
  then have "nat n \<le> length s" using b by (auto elim!: bstr_repE)
  from cut_rep [OF b this] obtain b' where "\<And>l. store (b\<lparr> bs_slen := l \<rparr>) n NUL = Inr (b'\<lparr> bs_slen := l \<rparr>)" "bstr_rep (b'\<lparr> bs_slen := n \<rparr>) (take (nat n) s)"
    using n by auto
  then show ?thesis using True n bstr_rep_writable [OF b] by (simp add: btrunc.simps yieldsI)
next
  case False
  then have "take (nat n) s = s" using b n by (auto elim!: bstr_repE)
  then show ?thesis using False n b bstr_rep_writable [OF b] by (simp add: btrunc.simps yieldsI)
qed

lemma bdelete_yields:
  assumes b: "bstr_rep b s" and sm: "0 \<le> pos" "0 \<le> len" "pos + len < 2 ^ 31"
  shows "yields A b (bdelete (Some b) pos len) (take (nat pos) s @ drop (nat (pos + len)) s)"
proof -
  obtain d where d: "bs_data b = Some d" "bs_slen b = int (length s)" "bs_mlen b = int (length d)" "length s < length d"
    "int (length d) < 2 ^ 31" "take (length s) d = s" "d ! length s = NUL" using b by (rule bstr_repE)
  have i: "i32 (pos + len) = pos + len" using sm by simp
  consider (none) "len = 0 \<or> int (length s) \<le> pos" | (tail) "0 < len" "pos < int (length s)" "int (length s) \<le> pos + len"
    | (mid) "0 < len" "pos + len < int (length s)" using sm by linarith
  then show ?thesis
  proof cases
    case none
    then have "take (nat pos) s @ drop (nat (pos + len)) s = s" using sm by auto
    moreover have "bdelete (Some b) pos len = Inr (0, Some b)" using none sm d(2) bstr_rep_writable [OF b] by (auto simp: bdelete.simps BSTR_OK_def)
    ultimately show ?thesis using b by (simp add: yieldsI)
  next
    case tail
    have "nat pos \<le> length s" using tail sm by simp
    from cut_rep [OF b this] obtain b' where b': "\<And>l. store (b\<lparr> bs_slen := l \<rparr>) pos NUL = Inr (b'\<lparr> bs_slen := l \<rparr>)"
      "bstr_rep (b'\<lparr> bs_slen := pos \<rparr>) (take (nat pos) s)" using sm by auto
    have "bdelete (Some b) pos len = Inr (0, Some (b'\<lparr> bs_slen := pos \<rparr>))"
      using tail sm i d(2) b'(1) bstr_rep_writable [OF b] by (simp add: bdelete.simps BSTR_OK_def)
    moreover have "drop (nat (pos + len)) s = []" using tail sm by simp
    ultimately show ?thesis using b'(2) by (simp add: yieldsI)
  next
    case mid
    obtain p k where pk: "pos = int p" "len = int k" using sm(1,2) nonneg_int_cases by metis
    let ?q = "p + k" and ?n = "length s"
    let ?r = "take p s @ drop ?q s"
    let ?e = "take p d @ take (?n - ?q) (drop ?q d) @ drop (p + (?n - ?q)) d"
    have q: "0 < k" "?q < ?n" using mid pk by simp_all
    have i2: "i32 (int ?n - (int p + int k)) = int (?n - ?q)" "i32 (int ?n - int k) = int (length ?r)"
      using d(4,5) q by (simp_all add: of_nat_diff)
    have "bBlockCopy b pos b (pos + len) (int (?n - ?q)) = Inr (b\<lparr> bs_data := Some ?e \<rparr>)"
      using memmove_buf [OF d(1) _ d(1), of p "?n - ?q" ?q] d(4) q pk by (simp add: bBlockCopy_def)
    then have del: "bdelete (Some b) pos len = bind_res (store (b\<lparr> bs_slen := int (length ?r), bs_data := Some ?e \<rparr>) (int (length ?r)) NUL) (\<lambda>b. Inr (0, Some b))"
      unfolding bdelete.simps Let_def d(2) i using mid sm i2 pk d(2) bstr_rep_writable [OF b] by (simp add: BSTR_OK_def)
    have "take p d = take p s" "take (?n - ?q) (drop ?q d) = drop ?q s"
      using d(6) q by (metis add_lessD1 min.absorb1 less_imp_le take_take) (metis d(6) drop_take)
    then have e: "?e = ?r @ drop (length ?r) d" "length ?r < length d" using d(4) q by simp_all
    have "yields A b (bind_res (store (b\<lparr> bs_slen := int (length r), bs_data := Some (r @ drop (length r) d) \<rparr>) (int (length r)) NUL) (\<lambda>b. Inr (0, Some b))) r"
      if "length r < length d" for r
      using terminate(1) [of "b\<lparr> bs_slen := int (length r) \<rparr>" "r @ drop (length r) d" r] terminate(3) [of b "r @ drop (length r) d" r] that d(3,5)
      by (simp add: yieldsI)
    from this [OF e(2)] have "yields A b (bdelete (Some b) pos len) ?r" unfolding del e(1) .
    then show ?thesis using pk by (simp add: nat_add_distrib)
  qed
qed

lemma bdelete_negative_pos:
  assumes "pos < 0" "- (2 ^ 31) \<le> len + pos" "len + pos < 2 ^ 31"
  shows "bdelete (Some b) pos len = bdelete (Some b) 0 (len + pos)"
  using assms by (simp add: bdelete.simps Let_def)

section \<open>Characters\<close>

lemma case_loop_buf:
  assumes "bs_data b = Some d" "i + n \<le> length d"
  shows "case_loop f b (int i) n = Inr (b\<lparr> bs_data := Some (take i d @ List.map f (take n (drop i d)) @ drop (i + n) d) \<rparr>)"
  using assms
proof (induction n arbitrary: b d i)
  case 0
  then show ?case by (cases b) simp
next
  case (Suc n)
  then have i: "i < length d" by simp
  let ?b = "b\<lparr> bs_data := Some (d[i := f (d ! i)]) \<rparr>"
  have "case_loop f b (int i) (Suc n) = case_loop f ?b (int (Suc i)) n" using Suc.prems i by (simp add: fetch_def store_def add.commute)
  also have "\<dots> = Inr (?b\<lparr> bs_data := Some (take (Suc i) (d[i := f (d ! i)]) @ List.map f (take n (drop (Suc i) (d[i := f (d ! i)]))) @ drop (Suc i + n) (d[i := f (d ! i)])) \<rparr>)"
    using Suc.prems by (intro Suc.IH) simp_all
  finally show ?case using i by (simp add: take_Suc_conv_app_nth Cons_nth_drop_Suc [symmetric])
qed

lemma map_rep:
  assumes "bstr_rep b s"
  obtains b' where "case_loop f b 0 (nat (bs_slen b)) = Inr b'" "bstr_rep b' (List.map f s)"
proof -
  obtain d where d: "bs_data b = Some d" "bs_slen b = int (length s)" "bs_mlen b = int (length d)" "length s < length d"
    "int (length d) < 2 ^ 31" "take (length s) d = s" "d ! length s = NUL" using assms by (rule bstr_repE)
  let ?b = "b\<lparr> bs_data := Some (List.map f s @ drop (length s) d) \<rparr>"
  have "case_loop f b 0 (nat (bs_slen b)) = Inr ?b" using case_loop_buf [OF d(1), of 0 "length s" f] d by simp
  moreover have "bstr_rep ?b (List.map f s)" using d by (simp add: bstr_rep_def nth_append)
  ultimately show thesis by (rule that)
qed

lemma btoupper_yields: "bstr_rep b s \<Longrightarrow> yields A b (btoupper (Some b)) (List.map upcase s)"
  by (rule map_rep [of b s upcase]) (simp_all add: btoupper.simps bstr_rep_writable BSTR_OK_def yieldsI)

lemma btolower_yields: "bstr_rep b s \<Longrightarrow> yields A b (btolower (Some b)) (List.map downcase s)"
  by (rule map_rep [of b s downcase]) (simp_all add: btolower.simps bstr_rep_writable yieldsI)

lemma lscan_buf:
  assumes "bs_data b = Some d" "i + n \<le> length d"
  shows "lscan b (int i) n = Inr (if \<forall>c \<in> set (take n (drop i d)). wspace c then None
    else Some (int (i + length (takeWhile wspace (take n (drop i d))))))"
  using assms
proof (induction n arbitrary: i)
  case (Suc n)
  then have i: "drop i d = d ! i # drop (Suc i) d" by (simp add: Cons_nth_drop_Suc)
  show ?case using Suc.prems Suc.IH [of "Suc i"] unfolding i by (simp add: fetch_def add.commute)
qed simp

lemma rscan_buf:
  assumes "bs_data b = Some d" "n \<le> length d"
  shows "rscan b n = Inr (if \<forall>c \<in> set (take n d). wspace c then None else Some (int n - 1 - int (length (takeWhile wspace (rev (take n d))))))"
  using assms(2)
proof (induction n)
  case (Suc n)
  then show ?case using assms(1) by (simp add: fetch_def take_Suc_conv_app_nth)
qed simp

text \<open>What is left of a string without the white space on a side.\<close>

definition rtrim :: "string \<Rightarrow> string" where
  "rtrim s = rev (dropWhile wspace (rev s))"

lemma rtrim_take: "rtrim s = take (length s - length (takeWhile wspace (rev s))) s"
proof -
  have "length (dropWhile wspace (rev s)) = length s - length (takeWhile wspace (rev s))"
    by (metis diff_add_inverse length_append length_rev takeWhile_dropWhile_id)
  then show ?thesis by (simp add: rtrim_def dropWhile_eq_drop rev_drop)
qed

lemma rtrim_all: "(\<forall>c \<in> set s. wspace c) \<Longrightarrow> rtrim s = []"
  by (simp add: rtrim_def)

lemma bltrimws_yields:
  assumes b: "bstr_rep b s"
  shows "yields A b (bltrimws (Some b)) (dropWhile wspace s)"
proof -
  obtain d where d: "bs_data b = Some d" "bs_slen b = int (length s)" "bs_mlen b = int (length d)" "length s < length d"
    "int (length d) < 2 ^ 31" "take (length s) d = s" "d ! length s = NUL" using b by (rule bstr_repE)
  have l: "lscan b 0 (nat (bs_slen b)) = Inr (if \<forall>c \<in> set s. wspace c then None else Some (int (length (takeWhile wspace s))))"
    using lscan_buf [OF d(1), of 0 "length s"] d by simp
  show ?thesis
  proof (cases "\<forall>c \<in> set s. wspace c")
    case True
    then have dw: "dropWhile wspace s = []" by simp
    show ?thesis unfolding dw using True l bempty_yields [OF b, of A] bstr_rep_writable [OF b] by (simp add: bltrimws.simps)
  next
    case False
    have "length (takeWhile wspace s) \<le> length s" by (rule length_takeWhile_le)
    then have "yields A b (bdelete (Some b) 0 (int (length (takeWhile wspace s)))) (dropWhile wspace s)"
      using bdelete_yields [OF b, of 0 "int (length (takeWhile wspace s))" A] d(4,5) by (simp add: dropWhile_eq_drop)
    then show ?thesis using l False bstr_rep_writable [OF b] by (simp add: bltrimws.simps)
  qed
qed

lemma rcut_rep:
  assumes b: "bstr_rep b s" and n: "n < length s"
  obtains b' where "rcut b (int n) = Inr b'" "bstr_rep b' (take (Suc n) s)"
proof -
  obtain d where d: "bs_data b = Some d" "bs_slen b = int (length s)" "bs_mlen b = int (length d)" "length s < length d"
    "int (length d) < 2 ^ 31" "take (length s) d = s" "d ! length s = NUL" using b by (rule bstr_repE)
  from cut_rep [OF b, of "Suc n"] n obtain b' where "bstr_rep (b'\<lparr> bs_slen := int (Suc n) \<rparr>) (take (Suc n) s)" "store b (int (Suc n)) NUL = Inr b'"
    by auto
  then show thesis using d(3,4) n by (intro that [of "b'\<lparr> bs_slen := int (Suc n) \<rparr>"]) (simp_all add: rcut_def add.commute)
qed

lemma rscan_rep:
  assumes b: "bstr_rep b s"
  shows "rscan b (nat (bs_slen b)) = Inr (if \<forall>c \<in> set s. wspace c then None else Some (int (length (rtrim s) - 1)))"
    "\<not> (\<forall>c \<in> set s. wspace c) \<Longrightarrow> 0 < length (rtrim s) \<and> length (rtrim s) \<le> length s \<and> \<not> wspace (last (rtrim s)) \<and> rtrim s = take (length (rtrim s)) s"
proof -
  obtain d where d: "bs_data b = Some d" "bs_slen b = int (length s)" "bs_mlen b = int (length d)" "length s < length d"
    "int (length d) < 2 ^ 31" "take (length s) d = s" "d ! length s = NUL" using b by (rule bstr_repE)
  let ?k = "length (takeWhile wspace (rev s))"
  show *: "0 < length (rtrim s) \<and> length (rtrim s) \<le> length s \<and> \<not> wspace (last (rtrim s)) \<and> rtrim s = take (length (rtrim s)) s"
    if "\<not> (\<forall>c \<in> set s. wspace c)"
  proof -
    have "dropWhile wspace (rev s) \<noteq> []" using that by (simp add: dropWhile_eq_Nil_conv)
    then have "0 < length (rtrim s)" "\<not> wspace (last (rtrim s))" using hd_dropWhile [of wspace "rev s"] by (simp_all add: rtrim_def last_rev)
    moreover have "length (rtrim s) \<le> length s" "rtrim s = take (length (rtrim s)) s" by (simp_all add: rtrim_take)
    ultimately show ?thesis by simp
  qed
  have "rscan b (nat (bs_slen b)) = Inr (if \<forall>c \<in> set s. wspace c then None else Some (int (length s) - 1 - int ?k))"
    using rscan_buf [OF d(1), of "length s"] d by simp
  moreover have "int (length s) - 1 - int ?k = int (length (rtrim s) - 1)" if "\<not> (\<forall>c \<in> set s. wspace c)"
    using * [OF that] length_takeWhile_le [of wspace "rev s"] by (simp add: rtrim_take of_nat_diff)
  ultimately show "rscan b (nat (bs_slen b)) = Inr (if \<forall>c \<in> set s. wspace c then None else Some (int (length (rtrim s) - 1)))" by simp
qed

lemma brtrimws_yields:
  assumes b: "bstr_rep b s"
  shows "yields A b (brtrimws (Some b)) (rtrim s)"
proof (cases "\<forall>c \<in> set s. wspace c")
  case True
  then show ?thesis using rscan_rep(1) [OF b] bempty_yields [OF b, of A] bstr_rep_writable [OF b] rtrim_all [OF True] by (simp add: brtrimws.simps)
next
  case False
  note r = rscan_rep(2) [OF b False]
  obtain k where k: "length (rtrim s) = Suc k" using r by (cases "length (rtrim s)") auto
  then have lt: "k < length s" using r by simp
  obtain b' where "rcut b (int k) = Inr b'" "bstr_rep b' (take (Suc k) s)" using rcut_rep [OF b lt] by blast
  then show ?thesis using r k rscan_rep(1) [OF b] False bstr_rep_writable [OF b] by (simp add: brtrimws.simps yieldsI)
qed

lemma btrimws_yields:
  assumes b: "bstr_rep b s"
  shows "\<exists>b'. btrimws (Some b) = Inr (0, Some b') \<and> bstr_rep b' (dropWhile wspace (rtrim s))"
proof (cases "\<forall>c \<in> set s. wspace c")
  case True
  have "\<exists>b'. bempty b = Inr (0, Some b') \<and> bstr_rep b' []"
    using bempty_yields [OF b, of "\<lparr> a_malloc = \<lambda>_. True, a_realloc = \<lambda>_. True, a_fill = \<lambda>_. NUL \<rparr>"] by (simp add: yields_def grants_def)
  then show ?thesis using rscan_rep(1) [OF b] bstr_rep_writable [OF b] rtrim_all [OF True] True by (simp add: btrimws.simps)
next
  case False
  let ?r = "rtrim s"
  note r = rscan_rep(2) [OF b False]
  obtain k where k: "length ?r = Suc k" using r by (cases "length ?r") auto
  then have lt: "k < length s" using r by simp
  obtain b1 where b1: "rcut b (int k) = Inr b1" "bstr_rep b1 ?r" using rcut_rep [OF b lt] r k by auto
  obtain d where d: "bs_data b1 = Some d" "bs_slen b1 = int (length ?r)" "bs_mlen b1 = int (length d)" "length ?r < length d"
    "int (length d) < 2 ^ 31" "take (length ?r) d = ?r" "d ! length ?r = NUL" using b1(2) by (rule bstr_repE)
  have nsp: "\<not> (\<forall>c \<in> set ?r. wspace c)" using r last_in_set [of ?r] by auto
  have "lscan b1 0 (length d) = Inr (Some (int (length (takeWhile wspace ?r))))"
  proof -
    have dd: "d = ?r @ drop (length ?r) d" using d(6) by (metis append_take_drop_id)
    have "takeWhile wspace d = takeWhile wspace ?r" using nsp by (subst dd) (auto simp: takeWhile_append)
    moreover have "\<not> (\<forall>c \<in> set d. wspace c)" using nsp set_take_subset [of "length ?r" d] d(6) by auto
    ultimately show ?thesis using lscan_buf [OF d(1), of 0 "length d"] by simp
  qed
  moreover have "\<exists>b'. bdelete (Some b1) 0 (int (length (takeWhile wspace ?r))) = Inr (0, Some b') \<and> bstr_rep b' (dropWhile wspace ?r)"
    using bdelete_yields [OF b1(2), of 0 "int (length (takeWhile wspace ?r))" "\<lparr> a_malloc = \<lambda>_. True, a_realloc = \<lambda>_. True, a_fill = \<lambda>_. NUL \<rparr>"]
      d(4,5) length_takeWhile_le [of wspace ?r] by (simp add: dropWhile_eq_drop yields_def grants_def)
  ultimately show ?thesis using b1(1) k rscan_rep(1) [OF b] False bstr_rep_writable [OF b] d(1) by (simp add: btrimws.simps)
qed

section \<open>New strings from old ones\<close>

lemma bmidstr_creates:
  assumes b: "holds b s" and sm: "small left" "small len" "small (int (length s))"
  shows "creates A (bmidstr_buf A (Some b) left len) (midstr s left len)"
proof -
  obtain d where d: "bs_data b = Some d" "bs_slen b = int (length s)" "length s \<le> length d" "take (length s) d = s"
    using b by (auto simp: holds_def split: option.splits)
  obtain l n where c: "clamp (int (length s)) left len = (l, n)" by fastforce
  have eq: "bmidstr_buf A (Some b) left len = (if n \<le> 0 then bfromcstr A (Some []) else blk2bstr_buf A (Some (drop (nat l) d)) n)"
    using d c by (simp add: bmidstr_buf_def)
  have m: "midstr s left len = take (nat n) (drop (nat l) s)" by (simp add: midstr_def c)
  show ?thesis
  proof (cases "0 < n")
    case False
    then have "midstr s left len = []" using m by simp
    then show ?thesis using eq False bfromcstr_creates [of "[]" A] by simp
  next
    case True
    note cs = clamp_small [OF sm c True]
    have n: "int (length (midstr s left len)) = n" using cs(3) m True by simp
    have "nat l + nat n \<le> length s" using cs(1,2) True by simp
    then have "take (nat n) (drop (nat l) d) = take (nat n) (drop (nat l) (take (length s) d))" by (simp add: take_drop min_def add.commute)
    then have "take (nat n) (drop (nat l) d) = midstr s left len" using d(4) m by simp
    moreover have "nat n \<le> length d - nat l" using \<open>nat l + nat n \<le> length s\<close> d(3) by linarith
    ultimately have "creates A (blk2bstr_buf A (Some (drop (nat l) d)) (int (length (midstr s left len)))) (midstr s left len)"
      using cs sm(3) n d(3) True \<open>nat l + nat n \<le> length s\<close> by (intro blk2bstr_creates) (auto simp: small_def m min_def)
    then show ?thesis using eq True n by simp
  qed
qed

lemma bstr2cstr_loop_buf:
  assumes "bs_data b = Some d" "i + n \<le> length d"
  shows "bstr2cstr_loop b z (int i) n = Inr (List.map (\<lambda>c. if c = NUL then z else c) (take n (drop i d)))"
  using assms(2)
proof (induction n arbitrary: i)
  case (Suc n)
  then have i: "drop i d = d ! i # drop (Suc i) d" by (simp add: Cons_nth_drop_Suc)
  show ?case using Suc.prems Suc.IH [of "Suc i"] assms(1) unfolding i by (simp add: fetch_def add.commute)
qed simp

lemma bstr2cstr_rep:
  assumes b: "bstr_rep b s" and "grants A"
  shows "bstr2cstr A (Some b) z = Inr (Some (List.map (\<lambda>c. if c = NUL then z else c) s @ [NUL]))"
proof -
  obtain d where d: "bs_data b = Some d" "bs_slen b = int (length s)" "bs_mlen b = int (length d)" "length s < length d"
    "int (length d) < 2 ^ 31" "take (length s) d = s" "d ! length s = NUL" using b by (rule bstr_repE)
  have i: "i32 (int (length s) + 1) = int (length s) + 1" using d by simp
  have "malloc A (int (length s) + 1) \<noteq> None" using malloc_grants [OF assms(2), of "int (length s) + 1"] d(4,5) by simp
  then show ?thesis using bstr2cstr_loop_buf [OF d(1), of 0 "length s" z] d i by (auto simp: bstr2cstr_def)
qed

end
