(* ===== verification/BstrSearch.thy ===== *)
theory BstrSearch
  imports BstrOps
begin

text \<open>
  Comparing and searching (\<open>src/myriad/bstring/bstrlib.c\<close>): the loops with their byte accesses,
  and that they decide equality, order and the first or last occurrence.
\<close>

section \<open>Comparisons\<close>

text \<open>The test at the head of the functions that read a string.\<close>

definition unreadable :: "tagbstring \<Rightarrow> bool" where
  "unreadable b \<longleftrightarrow> bs_data b = None \<or> bs_slen b < 0"

text \<open>
  A loop over two strings at once, from position \<open>i\<close> with \<open>n\<close> bytes to go: the body \<open>f\<close> returns a
  value or goes on.
\<close>

primrec pair_loop :: "(char \<Rightarrow> char \<Rightarrow> int option) \<Rightarrow> tagbstring \<Rightarrow> tagbstring \<Rightarrow> int \<Rightarrow> nat \<Rightarrow> int option res" where
  "pair_loop f b0 b1 i 0 = Inr None"
| "pair_loop f b0 b1 i (Suc n) =
     bind_res (fetch b0 i) (\<lambda>c0. bind_res (fetch b1 i) (\<lambda>c1.
       case f c0 c1 of Some v \<Rightarrow> Inr (Some v) | None \<Rightarrow> pair_loop f b0 b1 (i + 1) n))"

definition UCHAR_MAX :: int where "UCHAR_MAX = 255"

definition icmp_body :: "char \<Rightarrow> char \<Rightarrow> int option" where
  "icmp_body c0 c1 = (if schar (downcase c0) - schar (downcase c1) \<noteq> 0 then Some (of_char c0 - of_char c1) else None)"

text \<open>The value for the first byte one string has more than the other.\<close>

definition icmp_extra :: "tagbstring \<Rightarrow> int \<Rightarrow> int \<Rightarrow> int res" where
  "icmp_extra b n sign =
     bind_res (fetch b n) (\<lambda>c. let v = sign * schar (downcase c) in Inr (if v \<noteq> 0 then v else sign * (UCHAR_MAX + 1)))"

text \<open>\<open>same\<close> says whether the two data pointers are equal.\<close>

definition bstricmp :: "bool \<Rightarrow> tagbstring option \<Rightarrow> tagbstring option \<Rightarrow> int res" where
  "bstricmp same p0 p1 =
     (case (p0, p1) of
        (Some b0, Some b1) \<Rightarrow>
          if unreadable b0 \<or> unreadable b1 then Inr SHRT_MIN
          else
            let n = (if bs_slen b0 > bs_slen b1 then bs_slen b1 else bs_slen b0)
            in if bs_slen b0 = bs_slen b1 \<and> same then Inr 0
               else
                 bind_res (pair_loop icmp_body b0 b1 0 (nat n)) (\<lambda>r.
                   case r of
                     Some v \<Rightarrow> Inr v
                   | None \<Rightarrow>
                       if bs_slen b0 > n then icmp_extra b0 n 1
                       else if bs_slen b1 > n then icmp_extra b1 n (-1)
                       else Inr 0)
      | _ \<Rightarrow> Inr SHRT_MIN)"

definition bstrnicmp :: "bool \<Rightarrow> tagbstring option \<Rightarrow> tagbstring option \<Rightarrow> int \<Rightarrow> int res" where
  "bstrnicmp same p0 p1 n =
     (case (p0, p1) of
        (Some b0, Some b1) \<Rightarrow>
          if unreadable b0 \<or> unreadable b1 \<or> n < 0 then Inr SHRT_MIN
          else
            let m = min (min n (bs_slen b0)) (bs_slen b1)
            in bind_res (if \<not> same then pair_loop icmp_body b0 b1 0 (nat m) else Inr None) (\<lambda>r.
                 case r of
                   Some v \<Rightarrow> Inr v
                 | None \<Rightarrow>
                     if n = m \<or> bs_slen b0 = bs_slen b1 then Inr 0
                     else if bs_slen b0 > m then icmp_extra b0 m 1
                     else icmp_extra b1 m (-1))
      | _ \<Rightarrow> Inr SHRT_MIN)"

definition eqcaseless_body :: "char \<Rightarrow> char \<Rightarrow> int option" where
  "eqcaseless_body c0 c1 = (if c0 \<noteq> c1 \<and> downcase c0 \<noteq> downcase c1 then Some 0 else None)"

definition eq_body :: "char \<Rightarrow> char \<Rightarrow> int option" where
  "eq_body c0 c1 = (if c0 \<noteq> c1 then Some 0 else None)"

definition all_equal :: "(char \<Rightarrow> char \<Rightarrow> int option) \<Rightarrow> tagbstring \<Rightarrow> tagbstring \<Rightarrow> int \<Rightarrow> int res" where
  "all_equal f b0 b1 n =
     bind_res (pair_loop f b0 b1 0 (nat n)) (\<lambda>r. Inr (case r of Some v \<Rightarrow> v | None \<Rightarrow> 1))"

definition biseqcaseless :: "bool \<Rightarrow> tagbstring option \<Rightarrow> tagbstring option \<Rightarrow> int res" where
  "biseqcaseless same p0 p1 =
     (case (p0, p1) of
        (Some b0, Some b1) \<Rightarrow>
          if unreadable b0 \<or> unreadable b1 then Inr BSTR_ERR
          else if bs_slen b0 \<noteq> bs_slen b1 then Inr 0
          else if same \<or> bs_slen b0 = 0 then Inr 1
          else all_equal eqcaseless_body b0 b1 (bs_slen b0)
      | _ \<Rightarrow> Inr BSTR_ERR)"

definition stemeq :: "(char \<Rightarrow> char \<Rightarrow> int option) \<Rightarrow> bool \<Rightarrow> tagbstring option \<Rightarrow> string option \<Rightarrow> int \<Rightarrow> int res" where
  "stemeq f same p blk len =
     (case p of
        None \<Rightarrow> Inr BSTR_ERR
      | Some b0 \<Rightarrow>
          if unreadable b0 \<or> blk = None \<or> len < 0 then Inr BSTR_ERR
          else if bs_slen b0 < len then Inr 0
          else if same \<or> len = 0 then Inr 1
          else all_equal f b0 (blk2tbstr blk len) len)"

definition bisstemeqcaselessblk :: "bool \<Rightarrow> tagbstring option \<Rightarrow> string option \<Rightarrow> int \<Rightarrow> int res" where
  "bisstemeqcaselessblk = stemeq eqcaseless_body"

definition bisstemeqblk :: "bool \<Rightarrow> tagbstring option \<Rightarrow> string option \<Rightarrow> int \<Rightarrow> int res" where
  "bisstemeqblk = stemeq eq_body"

definition biseq_buf :: "bool \<Rightarrow> tagbstring option \<Rightarrow> tagbstring option \<Rightarrow> int res" where
  "biseq_buf same p0 p1 =
     (case (p0, p1) of
        (Some b0, Some b1) \<Rightarrow>
          if unreadable b0 \<or> unreadable b1 then Inr BSTR_ERR
          else if bs_slen b0 \<noteq> bs_slen b1 then Inr 0
          else if same \<or> bs_slen b0 = 0 then Inr 1
          else bind_res (load b0 0 (bs_slen b0)) (\<lambda>s. bind_res (load b1 0 (bs_slen b0)) (\<lambda>t. Inr (if s = t then 1 else 0)))
      | _ \<Rightarrow> Inr BSTR_ERR)"

text \<open>The loop of \<open>biseqcstrcaseless\<close>; the C string is its characters before the NUL.\<close>

fun eqcstr_loop :: "tagbstring \<Rightarrow> int \<Rightarrow> nat \<Rightarrow> string \<Rightarrow> int res" where
  "eqcstr_loop b i 0 s = Inr (if s = [] then 1 else 0)"
| "eqcstr_loop b i (Suc n) [] = Inr 0"
| "eqcstr_loop b i (Suc n) (c # s) =
     bind_res (fetch b i) (\<lambda>x. if x \<noteq> c \<and> downcase x \<noteq> downcase c then Inr 0 else eqcstr_loop b (i + 1) n s)"

definition biseqcstrcaseless :: "tagbstring option \<Rightarrow> string option \<Rightarrow> int res" where
  "biseqcstrcaseless p str =
     (case (p, str) of
        (Some b, Some s) \<Rightarrow> if unreadable b then Inr BSTR_ERR else eqcstr_loop b 0 (nat (bs_slen b)) s
      | _ \<Rightarrow> Inr BSTR_ERR)"

definition ncmp_body :: "char \<Rightarrow> char \<Rightarrow> int option" where
  "ncmp_body c0 c1 = (if schar c0 - schar c1 \<noteq> 0 then Some (schar c0 - schar c1) else if c0 = NUL then Some 0 else None)"

definition bstrcmp_buf :: "bool \<Rightarrow> tagbstring option \<Rightarrow> tagbstring option \<Rightarrow> int res" where
  "bstrcmp_buf same p0 p1 =
     (case (p0, p1) of
        (Some b0, Some b1) \<Rightarrow>
          if unreadable b0 \<or> unreadable b1 then Inr SHRT_MIN
          else
            let n = min (bs_slen b0) (bs_slen b1)
            in if bs_slen b0 = bs_slen b1 \<and> (same \<or> bs_slen b0 = 0) then Inr 0
               else
                 bind_res (pair_loop ncmp_body b0 b1 0 (nat n)) (\<lambda>r.
                   Inr (case r of
                          Some v \<Rightarrow> v
                        | None \<Rightarrow> if bs_slen b0 > n then 1 else if bs_slen b1 > n then -1 else 0))
      | _ \<Rightarrow> Inr SHRT_MIN)"

definition bstrncmp :: "bool \<Rightarrow> tagbstring option \<Rightarrow> tagbstring option \<Rightarrow> int \<Rightarrow> int res" where
  "bstrncmp same p0 p1 n =
     (case (p0, p1) of
        (Some b0, Some b1) \<Rightarrow>
          if unreadable b0 \<or> unreadable b1 then Inr SHRT_MIN
          else
            let m = min (min n (bs_slen b0)) (bs_slen b1)
            in bind_res (if \<not> same then pair_loop ncmp_body b0 b1 0 (nat m) else Inr None) (\<lambda>r.
                 Inr (case r of
                        Some v \<Rightarrow> v
                      | None \<Rightarrow>
                          if n = m \<or> bs_slen b0 = bs_slen b1 then 0
                          else if bs_slen b0 > m then 1
                          else -1))
      | _ \<Rightarrow> Inr SHRT_MIN)"

section \<open>Searching for a string\<close>

definition eq_byte :: "char \<Rightarrow> char \<Rightarrow> bool" where "eq_byte x y \<longleftrightarrow> x = y"

definition eq_caseless :: "char \<Rightarrow> char \<Rightarrow> bool" where "eq_caseless x y \<longleftrightarrow> x = y \<or> downcase x = downcase y"

text \<open>The loops of the forward and of the backward search, \<open>j\<close> bytes matched at position \<open>i\<close>.\<close>

function instr_loop :: "(char \<Rightarrow> char \<Rightarrow> bool) \<Rightarrow> tagbstring \<Rightarrow> tagbstring \<Rightarrow> int \<Rightarrow> int \<Rightarrow> int \<Rightarrow> int \<Rightarrow> int res" where
  "instr_loop eq b1 b2 l ll i j =
     bind_res (fetch b2 j) (\<lambda>c0. bind_res (fetch b1 (i + j)) (\<lambda>c1.
       if eq c0 c1 then if j + 1 \<ge> ll then Inr i else instr_loop eq b1 b2 l ll i (j + 1)
       else if i + 1 \<ge> l then Inr BSTR_ERR
       else instr_loop eq b1 b2 l ll (i + 1) 0))"
  by pat_completeness auto
termination by (relation "measures [\<lambda>(eq, b1, b2, l, ll, i, j). nat (l - i), \<lambda>(eq, b1, b2, l, ll, i, j). nat (ll - j)]") auto

function instrr_loop :: "(char \<Rightarrow> char \<Rightarrow> bool) \<Rightarrow> tagbstring \<Rightarrow> tagbstring \<Rightarrow> int \<Rightarrow> int \<Rightarrow> int \<Rightarrow> int res" where
  "instrr_loop eq b1 b2 l i j =
     bind_res (fetch b2 j) (\<lambda>c0. bind_res (fetch b1 (i + j)) (\<lambda>c1.
       if eq c0 c1 then if j + 1 \<ge> l then Inr i else instrr_loop eq b1 b2 l i (j + 1)
       else if i - 1 < 0 then Inr BSTR_ERR
       else instrr_loop eq b1 b2 l (i - 1) 0))"
  by pat_completeness auto
termination by (relation "measures [\<lambda>(eq, b1, b2, l, i, j). nat i, \<lambda>(eq, b1, b2, l, i, j). nat (l - j)]") auto

declare instr_loop.simps [simp del] instrr_loop.simps [simp del]

definition instr :: "(char \<Rightarrow> char \<Rightarrow> bool) \<Rightarrow> bool \<Rightarrow> tagbstring option \<Rightarrow> int \<Rightarrow> tagbstring option \<Rightarrow> int res" where
  "instr eq same p1 pos p2 =
     (case (p1, p2) of
        (Some b1, Some b2) \<Rightarrow>
          if unreadable b1 \<or> unreadable b2 then Inr BSTR_ERR
          else if bs_slen b1 = pos then Inr (if bs_slen b2 = 0 then pos else BSTR_ERR)
          else if bs_slen b1 < pos \<or> pos < 0 then Inr BSTR_ERR
          else if bs_slen b2 = 0 then Inr pos
          else
            let l = i32 (bs_slen b1 - bs_slen b2 + 1)
            in if l \<le> pos then Inr BSTR_ERR
               else if same \<and> pos = 0 then Inr 0
               else instr_loop eq b1 b2 l (bs_slen b2) pos 0
      | _ \<Rightarrow> Inr BSTR_ERR)"

definition binstr :: "bool \<Rightarrow> tagbstring option \<Rightarrow> int \<Rightarrow> tagbstring option \<Rightarrow> int res" where
  "binstr = instr eq_byte"

definition binstrcaseless :: "bool \<Rightarrow> tagbstring option \<Rightarrow> int \<Rightarrow> tagbstring option \<Rightarrow> int res" where
  "binstrcaseless = instr eq_caseless"

definition instrr :: "(char \<Rightarrow> char \<Rightarrow> bool) \<Rightarrow> bool \<Rightarrow> tagbstring option \<Rightarrow> int \<Rightarrow> tagbstring option \<Rightarrow> int res" where
  "instrr eq same p1 pos p2 =
     (case (p1, p2) of
        (Some b1, Some b2) \<Rightarrow>
          if unreadable b1 \<or> unreadable b2 then Inr BSTR_ERR
          else if bs_slen b1 = pos \<and> bs_slen b2 = 0 then Inr pos
          else if bs_slen b1 < pos \<or> pos < 0 then Inr BSTR_ERR
          else if bs_slen b2 = 0 then Inr pos
          else if same \<and> pos = 0 \<and> bs_slen b2 \<le> bs_slen b1 then Inr 0
          else
            let l = i32 (bs_slen b1 - bs_slen b2)
            in if l < 0 then Inr BSTR_ERR
               else instrr_loop eq b1 b2 (bs_slen b2) (if l + 1 \<le> pos then l else pos) 0
      | _ \<Rightarrow> Inr BSTR_ERR)"

definition binstrr :: "bool \<Rightarrow> tagbstring option \<Rightarrow> int \<Rightarrow> tagbstring option \<Rightarrow> int res" where
  "binstrr = instrr eq_byte"

definition binstrrcaseless :: "bool \<Rightarrow> tagbstring option \<Rightarrow> int \<Rightarrow> tagbstring option \<Rightarrow> int res" where
  "binstrrcaseless = instrr eq_caseless"

section \<open>Searching for characters\<close>

text \<open>The loops of the character searches: the first position from \<open>i\<close> on among \<open>n\<close>, or the last below \<open>n\<close>.\<close>

primrec chr_loop :: "(char \<Rightarrow> bool) \<Rightarrow> tagbstring \<Rightarrow> int \<Rightarrow> nat \<Rightarrow> int res" where
  "chr_loop P b i 0 = Inr BSTR_ERR"
| "chr_loop P b i (Suc n) = bind_res (fetch b i) (\<lambda>c. if P c then Inr i else chr_loop P b (i + 1) n)"

primrec rchr_loop :: "(char \<Rightarrow> bool) \<Rightarrow> tagbstring \<Rightarrow> nat \<Rightarrow> int res" where
  "rchr_loop P b 0 = Inr BSTR_ERR"
| "rchr_loop P b (Suc n) = bind_res (fetch b (int n)) (\<lambda>c. if P c then Inr (int n) else rchr_loop P b n)"

text \<open>\<open>memchr\<close> is the forward loop.\<close>

fun bstrchrp :: "tagbstring option \<Rightarrow> char \<Rightarrow> int \<Rightarrow> int res" where
  "bstrchrp None c pos = Inr BSTR_ERR"
| "bstrchrp (Some b) c pos =
     (if bs_data b = None \<or> bs_slen b \<le> pos \<or> pos < 0 then Inr BSTR_ERR
      else chr_loop (\<lambda>x. x = c) b pos (nat (bs_slen b - pos)))"

fun bstrrchrp :: "tagbstring option \<Rightarrow> char \<Rightarrow> int \<Rightarrow> int res" where
  "bstrrchrp None c pos = Inr BSTR_ERR"
| "bstrrchrp (Some b) c pos =
     (if bs_data b = None \<or> bs_slen b \<le> pos \<or> pos < 0 then Inr BSTR_ERR
      else rchr_loop (\<lambda>x. x = c) b (nat pos + 1))"

type_synonym charField = "64 word list"

definition LONG_BITS_QTY :: nat where "LONG_BITS_QTY = 32"

definition testInCharField :: "charField \<Rightarrow> char \<Rightarrow> bool" where
  "testInCharField cf c =
     (let n = of_char c :: nat in bit (cf ! (n div LONG_BITS_QTY)) (n mod LONG_BITS_QTY))"

definition setInCharField :: "charField \<Rightarrow> char \<Rightarrow> charField" where
  "setInCharField cf c =
     (let n = of_char c :: nat
      in cf[n div LONG_BITS_QTY := set_bit (n mod LONG_BITS_QTY) (cf ! (n div LONG_BITS_QTY))])"

primrec build_loop :: "tagbstring \<Rightarrow> int \<Rightarrow> nat \<Rightarrow> charField \<Rightarrow> charField res" where
  "build_loop b i 0 cf = Inr cf"
| "build_loop b i (Suc n) cf = bind_res (fetch b i) (\<lambda>c. build_loop b (i + 1) n (setInCharField cf c))"

definition buildCharField :: "tagbstring option \<Rightarrow> charField option res" where
  "buildCharField p =
     (case p of
        None \<Rightarrow> Inr None
      | Some b1 \<Rightarrow>
          if bs_data b1 = None \<or> bs_slen b1 \<le> 0 then Inr None
          else bind_res (build_loop b1 0 (nat (bs_slen b1)) (replicate 8 0)) (\<lambda>cf. Inr (Some cf)))"

definition invertCharField :: "charField \<Rightarrow> charField" where
  "invertCharField cf = List.map Bit_Operations.not cf"

definition binchr_with :: "(charField \<Rightarrow> charField) \<Rightarrow> tagbstring option \<Rightarrow> int \<Rightarrow> tagbstring option \<Rightarrow> int res" where
  "binchr_with conv p0 pos p1 =
     (case p0 of
        None \<Rightarrow> Inr BSTR_ERR
      | Some b0 \<Rightarrow>
          if pos < 0 \<or> bs_data b0 = None \<or> bs_slen b0 \<le> pos then Inr BSTR_ERR
          else bind_res (buildCharField p1) (\<lambda>cf. case cf of
                 None \<Rightarrow> Inr BSTR_ERR
               | Some cf \<Rightarrow> chr_loop (testInCharField (conv cf)) b0 pos (nat (bs_slen b0 - pos))))"

definition binchrr_with :: "(charField \<Rightarrow> charField) \<Rightarrow> tagbstring option \<Rightarrow> int \<Rightarrow> tagbstring option \<Rightarrow> int res" where
  "binchrr_with conv p0 pos p1 =
     (case p0 of
        None \<Rightarrow> Inr BSTR_ERR
      | Some b0 \<Rightarrow>
          if pos < 0 \<or> bs_data b0 = None \<or> bs_slen b0 < pos then Inr BSTR_ERR
          else
            let pos = (if pos = bs_slen b0 then pos - 1 else pos)
            in bind_res (buildCharField p1) (\<lambda>cf. case cf of
                 None \<Rightarrow> Inr BSTR_ERR
               | Some cf \<Rightarrow> rchr_loop (testInCharField (conv cf)) b0 (nat (pos + 1))))"

definition binchr :: "tagbstring option \<Rightarrow> int \<Rightarrow> tagbstring option \<Rightarrow> int res" where
  "binchr = binchr_with (\<lambda>cf. cf)"

definition binchrr :: "tagbstring option \<Rightarrow> int \<Rightarrow> tagbstring option \<Rightarrow> int res" where
  "binchrr = binchrr_with (\<lambda>cf. cf)"

definition bninchr :: "tagbstring option \<Rightarrow> int \<Rightarrow> tagbstring option \<Rightarrow> int res" where
  "bninchr = binchr_with invertCharField"

definition bninchrr :: "tagbstring option \<Rightarrow> int \<Rightarrow> tagbstring option \<Rightarrow> int res" where
  "bninchrr = binchrr_with invertCharField"

section \<open>The comparisons decide\<close>

lemma fetch_holds: "holds x t \<Longrightarrow> i < length t \<Longrightarrow> fetch x (int i) = Inr (t ! i)"
  by (auto simp: holds_def fetch_def split: option.splits) (metis nth_take)

lemma holds_readable: "holds x t \<Longrightarrow> \<not> unreadable x"
  by (auto simp: holds_def unreadable_def split: option.splits)

lemma holds_slen: "holds x t \<Longrightarrow> bs_slen x = int (length t)"
  using holds_fields by blast

lemma holds_same: "holds x s \<Longrightarrow> holds y t \<Longrightarrow> bs_data x = bs_data y \<Longrightarrow> length s \<le> length t \<Longrightarrow> s = take (length s) t"
  by (auto simp: holds_def split: option.splits) (metis min.absorb1 take_take)

primrec first_of :: "(char \<Rightarrow> char \<Rightarrow> int option) \<Rightarrow> (char \<times> char) list \<Rightarrow> int option" where
  "first_of f [] = None"
| "first_of f (p # ps) = (case f (fst p) (snd p) of Some v \<Rightarrow> Some v | None \<Rightarrow> first_of f ps)"

lemma pair_loop_holds:
  assumes "holds b0 s" "holds b1 t"
  shows "i + n \<le> length s \<Longrightarrow> i + n \<le> length t \<Longrightarrow>
    pair_loop f b0 b1 (int i) n = Inr (first_of f (zip (take n (drop i s)) (take n (drop i t))))"
proof (induction n arbitrary: i)
  case (Suc n)
  then have d: "drop i s = s ! i # drop (Suc i) s" "drop i t = t ! i # drop (Suc i) t" by (simp_all add: Cons_nth_drop_Suc)
  have "int (Suc i) = int i + 1" by simp
  then show ?case using Suc.prems Suc.IH [of "Suc i"] assms unfolding d by (simp add: fetch_holds add.commute split: option.split)
qed simp

lemma zip_min: "zip (take (min (length s) (length t)) s) (take (min (length s) (length t)) t) = zip s t"
  by (metis take_zip length_zip take_all order_refl)

lemma pair_loop_all:
  assumes "holds b0 s" "holds b1 t"
  shows "pair_loop f b0 b1 0 (min (length s) (length t)) = Inr (first_of f (zip s t))"
  using pair_loop_holds [OF assms, of 0 "min (length s) (length t)" f] by (simp add: zip_min)

lemma bstrcmp_first_of:
  "bstrcmp_loop s t = (case first_of ncmp_body (zip s t) of Some v \<Rightarrow> v
     | None \<Rightarrow> if length s > length t then 1 else if length t > length s then -1 else 0)"
  by (induction s t rule: bstrcmp_loop.induct) (auto simp: ncmp_body_def split: option.splits)

lemma bstrcmp_buf_loop:
  assumes "holds b0 s" "holds b1 t" "same \<Longrightarrow> bs_data b0 = bs_data b1"
  shows "bstrcmp_buf same (Some b0) (Some b1) = Inr (bstrcmp_loop s t)"
proof -
  note h = assms(1,2) [THEN holds_slen] assms(1,2) [THEN holds_readable]
  show ?thesis
  proof (cases "length s = length t \<and> (same \<or> s = [])")
    case True
    then have "s = t" using holds_same [OF assms(1,2)] assms(3) by auto
    then show ?thesis using True h by (auto simp: bstrcmp_buf_def)
  next
    case False
    have "nat (min (int (length s)) (int (length t))) = min (length s) (length t)" by simp
    then show ?thesis using False h pair_loop_all [OF assms(1,2), of ncmp_body]
      by (auto simp: bstrcmp_buf_def Let_def bstrcmp_first_of min_def split: option.splits)
  qed
qed

lemma bstrncmp_loop:
  assumes "holds b0 s" "holds b1 t"
  shows "bstrncmp False (Some b0) (Some b1) n = Inr (bstrcmp_loop (take (nat n) s) (take (nat n) t))"
proof -
  note h = assms [THEN holds_slen] assms [THEN holds_readable]
  let ?m = "min (min (nat n) (length s)) (length t)"
  have m: "nat (min (min n (int (length s))) (int (length t))) = ?m" by linarith
  have "zip (take ?m s) (take ?m t) = zip (take (nat n) s) (take (nat n) t)"
  proof -
    have "?m = min (nat n) (length (zip s t))" by (simp add: min.assoc)
    then show ?thesis unfolding take_zip [symmetric] by (metis min.commute take_all take_take order_refl)
  qed
  then have "pair_loop ncmp_body b0 b1 0 ?m = Inr (first_of ncmp_body (zip (take (nat n) s) (take (nat n) t)))"
    using pair_loop_holds [OF assms, of 0 ?m ncmp_body] by simp
  then have eq: "bstrncmp False (Some b0) (Some b1) n = Inr (case first_of ncmp_body (zip (take (nat n) s) (take (nat n) t)) of
      Some v \<Rightarrow> v | None \<Rightarrow> if n = min (min n (int (length s))) (int (length t)) \<or> length s = length t then 0
        else if int (length s) > min (min n (int (length s))) (int (length t)) then 1 else -1)"
    unfolding bstrncmp_def option.case prod.case Let_def h(1,2) m using h(3,4) by (simp cong: if_cong)
  have q: "(if n = min (min n (int (length s))) (int (length t)) \<or> length s = length t then 0
        else if int (length s) > min (min n (int (length s))) (int (length t)) then 1 else -1) =
      (if length (take (nat n) s) > length (take (nat n) t) then 1 else if length (take (nat n) t) > length (take (nat n) s) then -1 else (0 :: int))"
  proof (cases "0 \<le> n")
    case True
    then obtain k where "n = int k" by (rule nonneg_int_cases)
    then show ?thesis by (cases "k \<le> length s"; cases "k \<le> length t"; cases "length s \<le> length t"; simp add: min_def)
  next
    case False
    then have "min (min n (int (length s))) (int (length t)) = n" "nat n = 0" by linarith+
    then show ?thesis by simp
  qed
  show ?thesis unfolding eq bstrcmp_first_of q ..
qed

lemma first_of_None: "first_of f ps = None \<longleftrightarrow> (\<forall>p \<in> set ps. f (fst p) (snd p) = None)"
  by (induction ps) (auto split: option.splits)

lemma first_of_Some: "first_of f ps = Some v \<Longrightarrow> \<exists>p \<in> set ps. f (fst p) (snd p) = Some v"
  by (induction ps) (auto split: option.splits)

lemma icmp_None: "icmp_body x y = None \<longleftrightarrow> downcase x = downcase y"
  by (simp add: icmp_body_def)

lemma icmp_Some: "icmp_body x y = Some v \<Longrightarrow> v \<noteq> 0"
  by (auto simp: icmp_body_def split: if_splits)

lemma zip_map_eq:
  "length s = length t \<Longrightarrow> (\<forall>p \<in> set (zip s t). f (fst p) = f (snd p)) \<longleftrightarrow> List.map f s = List.map f t"
  by (induction s t rule: list_induct2) auto

lemma bstricmp_zero:
  assumes "holds b0 s" "holds b1 t" "same \<Longrightarrow> bs_data b0 = bs_data b1"
  shows "\<exists>v. bstricmp same (Some b0) (Some b1) = Inr v \<and> (v = 0 \<longleftrightarrow> List.map downcase s = List.map downcase t)"
proof -
  note h = assms(1,2) [THEN holds_slen] assms(1,2) [THEN holds_readable]
  show ?thesis
  proof (cases "length s = length t \<and> same")
    case True
    then have "s = t" using holds_same [OF assms(1,2)] assms(3) by auto
    then show ?thesis using True h by (auto simp: bstricmp_def)
  next
    case False
    have n: "nat (if int (length s) > int (length t) then int (length t) else int (length s)) = min (length s) (length t)" by simp
    note loop = pair_loop_all [OF assms(1,2), of icmp_body]
    show ?thesis
    proof (cases "first_of icmp_body (zip s t)")
      case (Some v)
      then have v: "v \<noteq> 0" using first_of_Some icmp_Some by blast
      have "List.map downcase s \<noteq> List.map downcase t"
      proof
        assume eq: "List.map downcase s = List.map downcase t"
        then have "length s = length t" by (metis length_map)
        then show False using eq zip_map_eq [of s t downcase] Some first_of_None [of icmp_body "zip s t"] by (simp add: icmp_None)
      qed
      then show ?thesis using h loop n Some v False by (auto simp: bstricmp_def Let_def)
    next
      case None
      then have agree: "\<forall>p \<in> set (zip s t). downcase (fst p) = downcase (snd p)" by (simp add: first_of_None icmp_None)
      consider (eq) "length s = length t" | (lt) "length s < length t" | (gt) "length t < length s" by linarith
      then show ?thesis
      proof cases
        case eq
        then show ?thesis using h loop n None False agree zip_map_eq [OF eq, of downcase] by (auto simp: bstricmp_def Let_def)
      next
        case lt
        then have "List.map downcase s \<noteq> List.map downcase t" by (metis length_map less_irrefl)
        moreover have "fetch b1 (int (length s)) = Inr (t ! length s)" using fetch_holds [OF assms(2) lt] .
        ultimately show ?thesis using h loop n None False lt by (auto simp: bstricmp_def Let_def icmp_extra_def UCHAR_MAX_def)
      next
        case gt
        then have "List.map downcase s \<noteq> List.map downcase t" by (metis length_map less_irrefl)
        moreover have "fetch b0 (int (length t)) = Inr (s ! length t)" using fetch_holds [OF assms(1) gt] .
        ultimately show ?thesis using h loop n None False gt by (auto simp: bstricmp_def Let_def icmp_extra_def UCHAR_MAX_def)
      qed
    qed
  qed
qed

lemma all_equal_holds:
  assumes "holds b0 s" "holds b1 t" "length t \<le> length s" "\<And>x y. f x y = (if R x y then None else Some 0)"
  shows "all_equal f b0 b1 (int (length t)) = Inr (if list_all2 R (take (length t) s) t then 1 else 0)"
proof -
  have loop: "pair_loop f b0 b1 0 (length t) = Inr (first_of f (zip (take (length t) s) t))"
    using pair_loop_holds [OF assms(1,2), of 0 "length t" f] assms(3) by simp
  have "first_of f ps = (if \<forall>p \<in> set ps. R (fst p) (snd p) then None else Some 0)" for ps
    by (induction ps) (auto simp: assms(4))
  moreover have "list_all2 R (take (length t) s) t \<longleftrightarrow> (\<forall>p \<in> set (zip (take (length t) s) t). R (fst p) (snd p))"
    using assms(3) by (auto simp: list_all2_iff)
  ultimately show ?thesis using loop by (simp add: all_equal_def)
qed

section \<open>The searches find the first and the last occurrence\<close>

definition match_at :: "(char \<Rightarrow> char \<Rightarrow> bool) \<Rightarrow> string \<Rightarrow> string \<Rightarrow> nat \<Rightarrow> bool" where
  "match_at eq t s i \<longleftrightarrow> i + length t \<le> length s \<and> (\<forall>k<length t. eq (t ! k) (s ! (i + k)))"

definition found :: "nat option \<Rightarrow> int" where
  "found r = (case r of None \<Rightarrow> BSTR_ERR | Some i \<Rightarrow> int i)"

lemma instr_loop_find:
  assumes "holds b1 s" "holds b2 t"
  shows "i = int i' \<Longrightarrow> j = int j' \<Longrightarrow> l = int (Suc (length s) - length t) \<Longrightarrow> ll = int (length t) \<Longrightarrow> length t \<le> length s \<Longrightarrow>
    i' < Suc (length s) - length t \<Longrightarrow> j' < length t \<Longrightarrow> \<forall>k<j'. eq (t ! k) (s ! (i' + k)) \<Longrightarrow>
    instr_loop eq b1 b2 l ll i j = Inr (found (List.find (match_at eq t s) [i'..<Suc (length s) - length t]))"
  using assms
proof (induction eq b1 b2 l ll i j arbitrary: i' j' rule: instr_loop.induct)
  case (1 eq b1 b2 l ll i j)
  let ?L = "Suc (length s) - length t"
  have up: "[i'..<?L] = i' # [Suc i'..<?L]" using "1.prems" by (simp add: upt_conv_Cons)
  have f: "fetch b2 j = Inr (t ! j')" "fetch b1 (i + j) = Inr (s ! (i' + j'))"
    using "1.prems" fetch_holds [of b2 t j'] fetch_holds [of b1 s "i' + j'"] by auto
  show ?case
  proof (cases "eq (t ! j') (s ! (i' + j'))")
    case hit: True
    have all: "\<forall>k<Suc j'. eq (t ! k) (s ! (i' + k))" using "1.prems" hit less_Suc_eq by auto
    show ?thesis
    proof (cases "j + 1 \<ge> ll")
      case True
      then have "match_at eq t s i'" using "1.prems" all by (auto simp: match_at_def)
      then have "found (List.find (match_at eq t s) [i'..<?L]) = i" unfolding up using "1.prems" by (simp add: found_def)
      then show ?thesis using hit f True by (subst instr_loop.simps) simp
    next
      case False
      have "instr_loop eq b1 b2 l ll i (j + 1) = Inr (found (List.find (match_at eq t s) [i'..<?L]))"
        by (rule "1.IH"(1) [OF f hit False, of i' "Suc j'"]) (use "1.prems" all False in auto)
      then show ?thesis using hit f False by (subst instr_loop.simps) simp
    qed
  next
    case miss: False
    then have "\<not> match_at eq t s i'" using "1.prems" by (auto simp: match_at_def)
    then have next1: "List.find (match_at eq t s) [i'..<?L] = List.find (match_at eq t s) [Suc i'..<?L]" unfolding up by simp
    show ?thesis
    proof (cases "i + 1 \<ge> l")
      case True
      then have nil: "[Suc i'..<?L] = []" using "1.prems" by simp
      have "instr_loop eq b1 b2 l ll i j = Inr BSTR_ERR" using miss f True by (subst instr_loop.simps) simp
      then show ?thesis unfolding next1 nil by (simp add: found_def)
    next
      case False
      have "instr_loop eq b1 b2 l ll (i + 1) 0 = Inr (found (List.find (match_at eq t s) [Suc i'..<?L]))"
        by (rule "1.IH"(2) [OF f miss False, of "Suc i'" 0]) (use "1.prems" False in auto)
      then show ?thesis using miss f False next1 by (subst instr_loop.simps) simp
    qed
  qed
qed

definition first_occ :: "(char \<Rightarrow> char \<Rightarrow> bool) \<Rightarrow> string \<Rightarrow> int \<Rightarrow> string \<Rightarrow> int" where
  "first_occ eq s pos t =
     (if pos < 0 then BSTR_ERR else found (List.find (match_at eq t s) [nat pos..<Suc (length s) - length t]))"

lemma match_at_Nil [simp]: "match_at eq [] s i \<longleftrightarrow> i \<le> length s"
  by (simp add: match_at_def)

lemma instr_first_occ:
  assumes b: "holds b1 s" "holds b2 t" "same \<Longrightarrow> bs_data b2 = bs_data b1" and eq: "\<And>x. eq x x" and len: "int (length s) < 2 ^ 31 - 1" "int (length t) < 2 ^ 31"
  shows "instr eq same (Some b1) pos (Some b2) = Inr (first_occ eq s pos t)"
proof -
  note h = b(1,2) [THEN holds_slen] b(1,2) [THEN holds_readable]
  have i: "i32 (int (length s) - int (length t) + 1) = int (length s) - int (length t) + 1" using len by simp
  have found: "first_occ eq s pos [] = (if 0 \<le> pos \<and> pos \<le> int (length s) then pos else BSTR_ERR)"
  proof (cases "0 \<le> pos \<and> pos \<le> int (length s)")
    case True
    then have "[nat pos..<Suc (length s)] = nat pos # [Suc (nat pos)..<Suc (length s)]" by (intro upt_conv_Cons) linarith
    moreover have "nat pos \<le> length s" using True by linarith
    ultimately show ?thesis using True by (simp add: first_occ_def found_def del: upt_Suc)
  qed (auto simp: first_occ_def found_def)
  consider (empty) "t = []" | (out) "t \<noteq> []" "pos < 0 \<or> int (length s) - int (length t) + 1 \<le> pos"
    | (inside) "t \<noteq> []" "0 \<le> pos" "pos < int (length s) - int (length t) + 1" by linarith
  then show ?thesis
  proof cases
    case empty
    then show ?thesis using h found by (simp add: instr_def)
  next
    case out
    then have "first_occ eq s pos t = BSTR_ERR" by (auto simp: first_occ_def found_def)
    moreover have "instr eq same (Some b1) pos (Some b2) = Inr BSTR_ERR" using out h i by (auto simp: instr_def Let_def)
    ultimately show ?thesis by simp
  next
    case inside
    have lt: "length t \<le> length s" "nat pos < Suc (length s) - length t" "0 < length t" using inside by auto
    have ne: "int (length s) \<noteq> pos" "\<not> int (length s) < pos" using inside lt(3) by linarith+
    show ?thesis
    proof (cases "same \<and> pos = 0")
      case True
      have "t = take (length t) s" using holds_same [OF b(2,1)] b(3) True lt(1) by blast
      then have "t ! k = s ! k" if "k < length t" for k using that by (metis nth_take)
      then have "match_at eq t s 0" using lt(1) eq by (simp add: match_at_def)
      moreover have "[0..<Suc (length s) - length t] = 0 # [Suc 0..<Suc (length s) - length t]" using lt by (simp add: upt_conv_Cons)
      ultimately have "first_occ eq s pos t = 0" using True by (simp add: first_occ_def found_def)
      then show ?thesis using True inside h i ne by (simp add: instr_def Let_def)
    next
      case False
      have "instr_loop eq b1 b2 (int (length s) - int (length t) + 1) (int (length t)) pos 0 = Inr (first_occ eq s pos t)"
        using instr_loop_find [OF b(1,2), of pos "nat pos" 0 0 "int (length s) - int (length t) + 1" "int (length t)" eq] lt inside
        by (simp add: first_occ_def of_nat_diff)
      then show ?thesis using False inside h i ne by (auto simp: instr_def Let_def)
    qed
  qed
qed

lemma instrr_loop_find:
  assumes "holds b1 s" "holds b2 t"
  shows "i = int i' \<Longrightarrow> j = int j' \<Longrightarrow> l = int (length t) \<Longrightarrow> i' + length t \<le> length s \<Longrightarrow> j' < length t \<Longrightarrow>
    \<forall>k<j'. eq (t ! k) (s ! (i' + k)) \<Longrightarrow> instrr_loop eq b1 b2 l i j = Inr (found (List.find (match_at eq t s) (rev [0..<Suc i'])))"
  using assms
proof (induction eq b1 b2 l i j arbitrary: i' j' rule: instrr_loop.induct)
  case (1 eq b1 b2 l i j)
  have f: "fetch b2 j = Inr (t ! j')" "fetch b1 (i + j) = Inr (s ! (i' + j'))"
    using "1.prems" fetch_holds [of b2 t j'] fetch_holds [of b1 s "i' + j'"] by auto
  show ?case
  proof (cases "eq (t ! j') (s ! (i' + j'))")
    case hit: True
    have all: "\<forall>k<Suc j'. eq (t ! k) (s ! (i' + k))" using "1.prems" hit less_Suc_eq by auto
    show ?thesis
    proof (cases "j + 1 \<ge> l")
      case True
      then have "match_at eq t s i'" using "1.prems" all by (auto simp: match_at_def)
      then have "found (List.find (match_at eq t s) (rev [0..<Suc i'])) = i" using "1.prems" by (simp add: found_def)
      then show ?thesis using hit f True by (subst instrr_loop.simps) simp
    next
      case False
      have "instrr_loop eq b1 b2 l i (j + 1) = Inr (found (List.find (match_at eq t s) (rev [0..<Suc i'])))"
        by (rule "1.IH"(1) [OF f hit False, of i' "Suc j'"]) (use "1.prems" all False in auto)
      then show ?thesis using hit f False by (subst instrr_loop.simps) simp
    qed
  next
    case miss: False
    then have no: "\<not> match_at eq t s i'" using "1.prems" by (auto simp: match_at_def)
    show ?thesis
    proof (cases i')
      case 0
      then have "instrr_loop eq b1 b2 l i j = Inr BSTR_ERR" using miss f "1.prems"(1) by (subst instrr_loop.simps) simp
      then show ?thesis using 0 no by (simp add: found_def)
    next
      case (Suc m)
      then have pos: "\<not> i - 1 < 0" using "1.prems"(1) by simp
      have "instrr_loop eq b1 b2 l (i - 1) 0 = Inr (found (List.find (match_at eq t s) (rev [0..<Suc m])))"
        by (rule "1.IH"(2) [OF f miss pos, of m 0]) (use "1.prems" Suc in auto)
      then show ?thesis using miss f pos no Suc by (subst instrr_loop.simps) simp
    qed
  qed
qed

definition last_occ :: "(char \<Rightarrow> char \<Rightarrow> bool) \<Rightarrow> string \<Rightarrow> int \<Rightarrow> string \<Rightarrow> int" where
  "last_occ eq s pos t =
     (if pos < 0 \<or> int (length s) < pos \<or> length s < length t then BSTR_ERR
      else found (List.find (match_at eq t s) (rev [0..<Suc (min (nat pos) (length s - length t))])))"

lemma instrr_last_occ:
  assumes b: "holds b1 s" "holds b2 t" "same \<Longrightarrow> bs_data b2 = bs_data b1" and eq: "\<And>x. eq x x" and len: "int (length s) < 2 ^ 31" "int (length t) < 2 ^ 31"
  shows "instrr eq same (Some b1) pos (Some b2) = Inr (last_occ eq s pos t)"
proof -
  note h = b(1,2) [THEN holds_slen] b(1,2) [THEN holds_readable]
  have i: "i32 (int (length s) - int (length t)) = int (length s) - int (length t)" using len by simp
  consider (empty) "t = []" "0 \<le> pos" "pos \<le> int (length s)" | (out) "pos < 0 \<or> int (length s) < pos"
    | (long) "t \<noteq> []" "0 \<le> pos" "pos \<le> int (length s)" "length s < length t"
    | (inside) "t \<noteq> []" "0 \<le> pos" "pos \<le> int (length s)" "length t \<le> length s" by linarith
  then show ?thesis
  proof cases
    case empty
    then have "last_occ eq s pos t = pos" by (auto simp: last_occ_def found_def min_def nat_le_iff)
    then show ?thesis using h empty by (auto simp: instrr_def)
  next
    case out
    then show ?thesis using h by (auto simp: instrr_def last_occ_def)
  next
    case long
    then show ?thesis using h i by (auto simp: instrr_def last_occ_def Let_def)
  next
    case inside
    show ?thesis
    proof (cases "same \<and> pos = 0")
      case True
      have "t = take (length t) s" using holds_same [OF b(2,1)] b(3) True inside(4) by blast
      then have "t ! k = s ! k" if "k < length t" for k using that by (metis nth_take)
      then have "match_at eq t s 0" using inside(4) eq by (simp add: match_at_def)
      then have "last_occ eq s pos t = 0" using True inside by (simp add: last_occ_def found_def)
      then show ?thesis using True inside h by (simp add: instrr_def)
    next
      case False
      let ?i = "if int (length s) - int (length t) + 1 \<le> pos then int (length s) - int (length t) else pos"
      obtain p where p: "pos = int p" using inside(2) by (rule nonneg_int_cases)
      obtain q where q: "length s = length t + q" using inside(4) by (metis le_Suc_ex)
      have "?i = int (min (nat pos) (length s - length t))" unfolding p q by (simp add: min_def)
      then have "instrr_loop eq b1 b2 (int (length t)) ?i 0 = Inr (last_occ eq s pos t)"
        using instrr_loop_find [OF b(1,2), of ?i "min (nat pos) (length s - length t)" 0 0 "int (length t)" eq] inside
        by (simp add: last_occ_def)
      then show ?thesis using False inside h i by (auto simp: instrr_def Let_def)
    qed
  qed
qed

section \<open>Sets of characters\<close>

lemma of_char_lt: "(of_char c :: nat) < 256"
  by (simp add: of_char_def horner_sum_simps split: char.split)

lemma char_index: "(of_char c :: nat) div LONG_BITS_QTY < 8" "(of_char c :: nat) mod LONG_BITS_QTY < 32"
  using of_char_lt [of c] by (simp_all add: LONG_BITS_QTY_def less_mult_imp_div_less)

lemma char_index_inject:
  "(of_char c :: nat) div LONG_BITS_QTY = of_char d div LONG_BITS_QTY \<Longrightarrow> (of_char c :: nat) mod LONG_BITS_QTY = of_char d mod LONG_BITS_QTY \<Longrightarrow> c = d"
  by (metis div_mult_mod_eq of_char_eq_iff)

lemma test_set: "length cf = 8 \<Longrightarrow> testInCharField (setInCharField cf c) x \<longleftrightarrow> x = c \<or> testInCharField cf x"
proof -
  assume "length cf = 8"
  then have "testInCharField (setInCharField cf c) x \<longleftrightarrow>
      (if of_char c div LONG_BITS_QTY = (of_char x div LONG_BITS_QTY :: nat)
       then (of_char c :: nat) mod LONG_BITS_QTY = of_char x mod LONG_BITS_QTY \<or> testInCharField cf x else testInCharField cf x)"
    using char_index [of c] char_index [of x]
    by (simp add: testInCharField_def setInCharField_def Let_def nth_list_update bit_set_bit_iff disj_commute)
  then show ?thesis using char_index_inject [of c x] by auto
qed

lemma build_loop_holds:
  assumes "holds b t"
  shows "i + n \<le> length t \<Longrightarrow> length cf = 8 \<Longrightarrow>
    \<exists>cf'. build_loop b (int i) n cf = Inr cf' \<and> length cf' = 8 \<and> (\<forall>x. testInCharField cf' x \<longleftrightarrow> x \<in> set (take n (drop i t)) \<or> testInCharField cf x)"
proof (induction n arbitrary: i cf)
  case (Suc n)
  then have d: "drop i t = t ! i # drop (Suc i) t" by (simp add: Cons_nth_drop_Suc)
  have "length (setInCharField cf (t ! i)) = 8" using Suc.prems by (simp add: setInCharField_def Let_def)
  then show ?case using Suc.prems Suc.IH [of "Suc i" "setInCharField cf (t ! i)"] fetch_holds [OF assms, of i] unfolding d
    by (auto simp: test_set add.commute)
qed simp

lemma buildCharField_holds:
  assumes "holds b t" "t \<noteq> []"
  obtains cf where "buildCharField (Some b) = Inr (Some cf)" "length cf = 8" "\<forall>x. testInCharField cf x \<longleftrightarrow> x \<in> set t"
proof -
  have "\<not> testInCharField (replicate 8 0) x" for x using char_index [of x] by (simp add: testInCharField_def Let_def)
  then obtain cf where cf: "build_loop b 0 (length t) (replicate 8 0) = Inr cf" "length cf = 8" "\<forall>x. testInCharField cf x \<longleftrightarrow> x \<in> set t"
    using build_loop_holds [OF assms(1), of 0 "length t" "replicate 8 0"] by auto
  have "buildCharField (Some b) = Inr (Some cf)"
    using cf(1) holds_slen [OF assms(1)] holds_readable [OF assms(1)] assms(2) by (simp add: buildCharField_def unreadable_def)
  then show thesis using that cf(2,3) by blast
qed

lemma test_invert: "length cf = 8 \<Longrightarrow> testInCharField (invertCharField cf) x \<longleftrightarrow> \<not> testInCharField cf x"
  using char_index [of x] by (simp add: testInCharField_def invertCharField_def Let_def bit_not_iff)

lemma chr_loop_find:
  assumes "holds b s"
  shows "i + n \<le> length s \<Longrightarrow> chr_loop P b (int i) n = Inr (found (List.find (\<lambda>k. P (s ! k)) [i..<i + n]))"
proof (induction n arbitrary: i)
  case (Suc n)
  have "[i..<i + Suc n] = i # [Suc i..<Suc i + n]" by (simp add: upt_conv_Cons)
  then show ?case using Suc.prems Suc.IH [of "Suc i"] fetch_holds [OF assms, of i] by (simp add: found_def add.commute)
qed (simp add: found_def)

lemma rchr_loop_find:
  assumes "holds b s"
  shows "n \<le> length s \<Longrightarrow> rchr_loop P b n = Inr (found (List.find (\<lambda>k. P (s ! k)) (rev [0..<n])))"
proof (induction n)
  case (Suc n)
  then show ?case using fetch_holds [OF assms, of n] by (simp add: found_def)
qed (simp add: found_def)

text \<open>The first position from \<open>pos\<close> on, and the last one up to it, whose character is in a set.\<close>

definition first_pos :: "(char \<Rightarrow> bool) \<Rightarrow> string \<Rightarrow> int \<Rightarrow> int" where
  "first_pos P s pos = (if pos < 0 then BSTR_ERR else found (List.find (\<lambda>k. P (s ! k)) [nat pos..<length s]))"

definition last_pos :: "(char \<Rightarrow> bool) \<Rightarrow> string \<Rightarrow> int \<Rightarrow> int" where
  "last_pos P s pos =
     (if pos < 0 \<or> int (length s) < pos then BSTR_ERR
      else found (List.find (\<lambda>k. P (s ! k)) (rev [0..<min (Suc (nat pos)) (length s)])))"

lemma binchr_with_pos:
  assumes "holds b0 s" "holds b1 t" "t \<noteq> []" "\<And>cf x. length cf = 8 \<Longrightarrow> testInCharField (conv cf) x \<longleftrightarrow> Q (testInCharField cf x)"
  shows "binchr_with conv (Some b0) pos (Some b1) = Inr (first_pos (\<lambda>c. Q (c \<in> set t)) s pos)"
    "binchrr_with conv (Some b0) pos (Some b1) = Inr (last_pos (\<lambda>c. Q (c \<in> set t)) s pos)"
proof -
  obtain d where h: "bs_slen b0 = int (length s)" "bs_data b0 = Some d" using holds_fields [OF assms(1)] by blast
  obtain cf where cf: "buildCharField (Some b1) = Inr (Some cf)" "length cf = 8" "\<forall>x. testInCharField cf x \<longleftrightarrow> x \<in> set t"
    by (rule buildCharField_holds [OF assms(2,3)])
  have test: "testInCharField (conv cf) = (\<lambda>c. Q (c \<in> set t))" using assms(4) [OF cf(2)] cf(3) by auto
  show "binchr_with conv (Some b0) pos (Some b1) = Inr (first_pos (\<lambda>c. Q (c \<in> set t)) s pos)"
  proof (cases "pos < 0 \<or> int (length s) \<le> pos")
    case True
    then show ?thesis using h by (auto simp: binchr_with_def first_pos_def found_def)
  next
    case False
    then obtain k where k: "pos = int k" "k < length s" by (metis nonneg_int_cases not_less of_nat_less_iff)
    have "nat (int (length s) - int k) = length s - k" using k by simp
    then show ?thesis using False h cf(1) test k chr_loop_find [OF assms(1), of k "length s - k"] by (simp add: binchr_with_def first_pos_def)
  qed
  show "binchrr_with conv (Some b0) pos (Some b1) = Inr (last_pos (\<lambda>c. Q (c \<in> set t)) s pos)"
  proof (cases "pos < 0 \<or> int (length s) < pos")
    case True
    then show ?thesis using h by (auto simp: binchrr_with_def last_pos_def)
  next
    case False
    have "nat ((if pos = int (length s) then pos - 1 else pos) + 1) = min (Suc (nat pos)) (length s)" using False by auto
    then show ?thesis using False h cf(1) test rchr_loop_find [OF assms(1), of "min (Suc (nat pos)) (length s)"] by (simp add: binchrr_with_def Let_def last_pos_def)
  qed
qed

end
