(* ===== verification/BstrEdit.thy ===== *)
theory BstrEdit
  imports BstrSearch
begin

text \<open>
  The editing functions of \<open>src/myriad/bstring/bstrlib.c\<close>: overwriting, inserting, replacing a
  section, replacing all occurrences, filling and repeating, with what they do when an argument
  shares the buffer.
\<close>

section \<open>Overwriting and inserting\<close>

text \<open>\<open>for (i = from; i < to; i++) data[i] = c\<close>, with \<open>n\<close> bytes to go.\<close>

primrec fill_loop :: "tagbstring \<Rightarrow> int \<Rightarrow> nat \<Rightarrow> char \<Rightarrow> tagbstring res" where
  "fill_loop b i 0 c = Inr b"
| "fill_loop b i (Suc n) c = bind_res (store b i c) (\<lambda>b. fill_loop b (i + 1) n c)"

text \<open>\<open>for (i = l + n - 1; i >= l; i--) data[i] = data[i - k]\<close>\<close>

primrec shift_loop :: "tagbstring \<Rightarrow> int \<Rightarrow> int \<Rightarrow> nat \<Rightarrow> tagbstring res" where
  "shift_loop b l k 0 = Inr b"
| "shift_loop b l k (Suc n) =
     bind_res (fetch b (l + int n - k)) (\<lambda>c. bind_res (store b (l + int n) c) (\<lambda>b. shift_loop b l k n))"

text \<open>An argument that may be NULL: \<open>aux\<close> and its length.\<close>

definition arg_len :: "tagbstring \<Rightarrow> barg \<Rightarrow> int" where
  "arg_len b a = (case arg_ptr b a of None \<Rightarrow> 0 | Some x \<Rightarrow> bs_slen x)"

definition bsetstr_tail :: "tagbstring \<Rightarrow> tagbstring \<Rightarrow> int \<Rightarrow> barg \<Rightarrow> int \<Rightarrow> int \<Rightarrow> char \<Rightarrow> bstr_result" where
  "bsetstr_tail b0 b pos aux len d fill =
     (let newlen = (if pos > bs_slen b then pos else bs_slen b);
          newlen = (if d > newlen then d else newlen)
      in bind_res (if pos > bs_slen b then fill_loop b (bs_slen b) (nat (pos - bs_slen b)) fill else Inr b) (\<lambda>b.
         bind_res (arg_after b0 b aux) (\<lambda>x.
         bind_res (case x of None \<Rightarrow> Inr b | Some x \<Rightarrow> bBlockCopy b pos x 0 len) (\<lambda>b.
         bind_res (store (b\<lparr> bs_slen := newlen \<rparr>) newlen NUL) (\<lambda>b. Inr (BSTR_OK, Some b))))))"

definition bsetstr :: "allocator \<Rightarrow> tagbstring option \<Rightarrow> int \<Rightarrow> barg \<Rightarrow> char \<Rightarrow> bstr_result" where
  "bsetstr A p pos a fill =
     (case p of
        None \<Rightarrow> Inr (BSTR_ERR, None)
      | Some b0 \<Rightarrow>
          if pos < 0 \<or> unwritable b0 then Inr (BSTR_ERR, p)
          else if (case arg_ptr b0 a of None \<Rightarrow> False | Some b1 \<Rightarrow> unreadable b1) then Inr (BSTR_ERR, p)
          else
            bind_res (if arg_ptr b0 a = None then Inr (Some a) else unalias A b0 a (aliased b0 a)) (\<lambda>aux.
              case aux of
                None \<Rightarrow> Inr (BSTR_ERR, p)
              | Some aux \<Rightarrow>
                  let len = arg_len b0 aux;
                      d = i32 (pos + len)
                  in bind_res (balloc A p (i32 (d + 1))) (\<lambda>(r, p').
                       if r \<noteq> BSTR_OK then Inr (BSTR_ERR, p')
                       else bsetstr_tail b0 (the p') pos aux len d fill)))"

definition binsert_tail :: "tagbstring \<Rightarrow> tagbstring \<Rightarrow> int \<Rightarrow> barg \<Rightarrow> int \<Rightarrow> bstr_result" where
  "binsert_tail b1 b pos aux len =
     bind_res (arg_after b1 b aux) (\<lambda>x.
     bind_res (bBlockCopy b pos (the x) 0 len) (\<lambda>b.
     bind_res (store b (bs_slen b) NUL) (\<lambda>b. Inr (0, Some b))))"

definition binsert :: "allocator \<Rightarrow> tagbstring option \<Rightarrow> int \<Rightarrow> barg \<Rightarrow> char \<Rightarrow> bstr_result" where
  "binsert A p pos a fill =
     (case p of
        None \<Rightarrow> Inr (BSTR_ERR, None)
      | Some b1 \<Rightarrow>
          case arg_ptr b1 a of
            None \<Rightarrow> Inr (BSTR_ERR, p)
          | Some b2 \<Rightarrow>
              if pos < 0 \<or> bs_slen b1 < 0 \<or> bs_slen b2 < 0 \<or> bs_mlen b1 < bs_slen b1 \<or> bs_mlen b1 \<le> 0
              then Inr (BSTR_ERR, p)
              else
                bind_res (unalias A b1 a (aliased b1 a)) (\<lambda>aux.
                  case aux of
                    None \<Rightarrow> Inr (BSTR_ERR, p)
                  | Some aux \<Rightarrow>
                      let len = arg_len b1 aux;
                          d = i32 (bs_slen b1 + len);
                          l = i32 (pos + len)
                      in if d < 0 \<or> l < 0 then Inr (BSTR_ERR, p)
                         else
                           bind_res
                             (if l > d then
                                bind_res (balloc A p (i32 (l + 1))) (\<lambda>(r, p').
                                  if r \<noteq> BSTR_OK then Inr (BSTR_ERR, p')
                                  else
                                    bind_res (fill_loop (the p') (bs_slen (the p')) (nat (pos - bs_slen (the p'))) fill)
                                      (\<lambda>b. Inr (BSTR_OK, Some (b\<lparr> bs_slen := l \<rparr>))))
                              else
                                bind_res (balloc A p (i32 (d + 1))) (\<lambda>(r, p').
                                  if r \<noteq> BSTR_OK then Inr (BSTR_ERR, p')
                                  else
                                    bind_res (shift_loop (the p') l len (nat (d - l)))
                                      (\<lambda>b. Inr (BSTR_OK, Some (b\<lparr> bs_slen := d \<rparr>)))))
                             (\<lambda>(r, p').
                                if r \<noteq> BSTR_OK then Inr (BSTR_ERR, p')
                                else binsert_tail b1 (the p') pos aux len)))"

definition breplace_tail :: "tagbstring \<Rightarrow> tagbstring \<Rightarrow> int \<Rightarrow> int \<Rightarrow> barg \<Rightarrow> int \<Rightarrow> bstr_result" where
  "breplace_tail b1 b pos len aux al =
     bind_res (if al \<noteq> len then memmove b (pos + al) b (pos + len) (i32 (bs_slen b - i32 (pos + len))) else Inr b) (\<lambda>b.
     bind_res (arg_after b1 b aux) (\<lambda>x.
     bind_res (memmove b pos (the x) 0 al) (\<lambda>b.
     let n = i32 (bs_slen b + (al - len))
     in bind_res (store (b\<lparr> bs_slen := n \<rparr>) n NUL) (\<lambda>b. Inr (BSTR_OK, Some b)))))"

definition breplace :: "allocator \<Rightarrow> tagbstring option \<Rightarrow> int \<Rightarrow> int \<Rightarrow> barg \<Rightarrow> char \<Rightarrow> bstr_result" where
  "breplace A p pos len a fill =
     (case p of
        None \<Rightarrow> Inr (BSTR_ERR, None)
      | Some b1 \<Rightarrow>
          case arg_ptr b1 a of
            None \<Rightarrow> Inr (BSTR_ERR, p)
          | Some b2 \<Rightarrow>
              let pl = i32 (pos + len)
              in if pos < 0 \<or> len < 0 \<or> pl < 0 \<or> unwritable b1 \<or> unreadable b2 then Inr (BSTR_ERR, p)
                 else if pl \<ge> bs_slen b1 then
                   bind_res (bsetstr A p pos a fill) (\<lambda>(ret, p').
                     if ret < 0 then Inr (ret, p')
                     else
                       let n = i32 (pos + arg_len (the p') a)
                       in if n < bs_slen (the p') then
                            bind_res (store ((the p')\<lparr> bs_slen := n \<rparr>) n NUL) (\<lambda>b. Inr (ret, Some b))
                          else Inr (ret, p'))
                 else
                   bind_res (unalias A b1 a (case arg_offset a of None \<Rightarrow> False | Some pd \<Rightarrow> 0 \<le> pd \<and> pd < bs_slen b1)) (\<lambda>aux.
                     case aux of
                       None \<Rightarrow> Inr (BSTR_ERR, p)
                     | Some aux \<Rightarrow>
                         let al = arg_len b1 aux
                         in bind_res (if al > len then balloc A p (i32 (bs_slen b1 + al - len)) else Inr (BSTR_OK, p)) (\<lambda>(r, p').
                              if r \<noteq> BSTR_OK then Inr (BSTR_ERR, p')
                              else
                                breplace_tail b1 (the p') pos len aux al)))"

fun binsertch :: "allocator \<Rightarrow> tagbstring option \<Rightarrow> int \<Rightarrow> int \<Rightarrow> char \<Rightarrow> bstr_result" where
  "binsertch A None pos len fill = Inr (BSTR_ERR, None)"
| "binsertch A (Some b) pos len fill =
     (let d = i32 (bs_slen b + len);
          l = i32 (pos + len)
      in if pos < 0 \<or> bs_slen b < 0 \<or> bs_mlen b < bs_slen b \<or> bs_mlen b \<le> 0 \<or> len < 0 then Inr (BSTR_ERR, Some b)
         else if d < 0 \<or> l < 0 then Inr (BSTR_ERR, Some b)
         else
           bind_res
             (if l > d then
                bind_res (balloc A (Some b) (i32 (l + 1))) (\<lambda>(r, p').
                  if r \<noteq> BSTR_OK then Inr (BSTR_ERR, p', pos)
                  else Inr (BSTR_OK, Some ((the p')\<lparr> bs_slen := l \<rparr>), bs_slen (the p')))
              else
                bind_res (balloc A (Some b) (i32 (d + 1))) (\<lambda>(r, p').
                  if r \<noteq> BSTR_OK then Inr (BSTR_ERR, p', pos)
                  else
                    bind_res (shift_loop (the p') l len (nat (d - l)))
                      (\<lambda>b. Inr (BSTR_OK, Some (b\<lparr> bs_slen := d \<rparr>), pos))))
             (\<lambda>(r, p', pos).
                if r \<noteq> BSTR_OK then Inr (BSTR_ERR, p')
                else
                  bind_res (fill_loop (the p') pos (nat (l - pos)) fill) (\<lambda>b.
                  bind_res (store b (bs_slen b) NUL) (\<lambda>b. Inr (0, Some b)))))"

text \<open>\<open>for (i = from; i < to; i++) data[i] = data[i - d]\<close>\<close>

primrec repeat_loop :: "tagbstring \<Rightarrow> int \<Rightarrow> int \<Rightarrow> nat \<Rightarrow> tagbstring res" where
  "repeat_loop b d i 0 = Inr b"
| "repeat_loop b d i (Suc n) =
     bind_res (fetch b (i - d)) (\<lambda>c. bind_res (store b i c) (\<lambda>b. repeat_loop b d (i + 1) n))"

fun bpattern :: "allocator \<Rightarrow> tagbstring option \<Rightarrow> int \<Rightarrow> bstr_result" where
  "bpattern A None len = Inr (BSTR_ERR, None)"
| "bpattern A (Some b) len =
     (let d = (if bs_slen b < 0 then 0 else bs_slen b)
      in if d \<le> 0 \<or> len < 0 then Inr (BSTR_ERR, Some b)
         else
           bind_res (balloc A (Some b) (i32 (len + 1))) (\<lambda>(r, p).
             if r \<noteq> BSTR_OK then Inr (BSTR_ERR, p)
             else if len > 0 \<and> d = 1 then
               bind_res (fetch (the p) 0) (\<lambda>c. bsetstr A p len (Apart None) c)
             else
               bind_res (if len > 0 then repeat_loop (the p) d d (nat (len - d)) else Inr (the p)) (\<lambda>b.
               bind_res (store b len NUL) (\<lambda>b. Inr (0, Some (b\<lparr> bs_slen := len \<rparr>))))))"

section \<open>Replacing all occurrences\<close>

text \<open>The next occurrence of \<open>find\<close>; the data pointers agree only for an argument at the start of the buffer.\<close>

definition next_hit :: "(char \<Rightarrow> char \<Rightarrow> bool) \<Rightarrow> barg \<Rightarrow> tagbstring \<Rightarrow> int \<Rightarrow> int res" where
  "next_hit eq f b pos = instr eq (arg_offset f = Some 0) (Some b) pos (arg_ptr b f)"

text \<open>Find and replacement of equal length.\<close>

partial_function (option) inplace_loop ::
    "(char \<Rightarrow> char \<Rightarrow> bool) \<Rightarrow> barg \<Rightarrow> barg \<Rightarrow> tagbstring \<Rightarrow> int \<Rightarrow> tagbstring res option" where
  "inplace_loop eq f r b pos =
     (case next_hit eq f b pos of
        Inl e \<Rightarrow> Some (Inl e)
      | Inr q \<Rightarrow>
          if q < 0 then Some (Inr b)
          else
            case memmove b q (the (arg_ptr b r)) 0 (arg_len b r) of
              Inl e \<Rightarrow> Some (Inl e)
            | Inr b' \<Rightarrow> inplace_loop eq f r b' (i32 (q + arg_len b' f)))"

text \<open>A replacement that is shorter: what is kept is moved down by \<open>acc\<close>.\<close>

definition shrink_step :: "barg \<Rightarrow> tagbstring \<Rightarrow> int \<Rightarrow> int \<Rightarrow> int \<Rightarrow> tagbstring res" where
  "shrink_step r b pos acc i =
     bind_res (if acc \<noteq> 0 \<and> i > pos then memmove b (pos - acc) b pos (i - pos) else Inr b) (\<lambda>b.
       if arg_len b r \<noteq> 0 then memmove b (i - acc) (the (arg_ptr b r)) 0 (arg_len b r) else Inr b)"

partial_function (option) shrink_loop ::
    "(char \<Rightarrow> char \<Rightarrow> bool) \<Rightarrow> barg \<Rightarrow> barg \<Rightarrow> int \<Rightarrow> tagbstring \<Rightarrow> int \<Rightarrow> int \<Rightarrow> (tagbstring \<times> int \<times> int) res option" where
  "shrink_loop eq f r delta b pos acc =
     (case next_hit eq f b pos of
        Inl e \<Rightarrow> Some (Inl e)
      | Inr i \<Rightarrow>
          if i < 0 then Some (Inr (b, pos, acc))
          else
            case shrink_step r b pos acc i of
              Inl e \<Rightarrow> Some (Inl e)
            | Inr b' \<Rightarrow> shrink_loop eq f r delta b' (i32 (i + arg_len b' f)) (i32 (acc + delta)))"

definition shrink_end :: "tagbstring \<Rightarrow> int \<Rightarrow> int \<Rightarrow> bstr_result" where
  "shrink_end b pos acc =
     (if acc \<noteq> 0 then
        bind_res (if bs_slen b > pos then memmove b (pos - acc) b pos (bs_slen b - pos) else Inr b) (\<lambda>b.
          let n = i32 (bs_slen b - acc)
          in bind_res (store (b\<lparr> bs_slen := n \<rparr>) n NUL) (\<lambda>b. Inr (0, Some b)))
      else Inr (0, Some b))"

text \<open>
  A replacement that is longer: first the positions are collected in an array of \<open>mlen\<close> entries
  that is doubled when it is full; \<open>None\<close> when it cannot be.
\<close>

partial_function (option) collect_loop ::
    "allocator \<Rightarrow> (char \<Rightarrow> char \<Rightarrow> bool) \<Rightarrow> barg \<Rightarrow> int \<Rightarrow> tagbstring \<Rightarrow> int \<Rightarrow> int \<Rightarrow> int \<Rightarrow> int list \<Rightarrow>
      (int list \<times> int) option res option" where
  "collect_loop A eq f delta b pos acc mlen d =
     (case next_hit eq f b pos of
        Inl e \<Rightarrow> Some (Inl e)
      | Inr q \<Rightarrow>
          if q < 0 then Some (Inr (Some (d, acc)))
          else
            let full = int (length d) + 1 \<ge> mlen;
                mlen' = (if full then i32 (mlen + mlen) else mlen);
                sl = i32 (8 * mlen')
            in if full \<and> (sl < mlen' \<or> \<not> a_realloc A sl) then Some (Inr None)
               else
                 let acc' = i32 (acc - delta);
                     pos' = i32 (q + arg_len b f)
                 in if pos' < 0 \<or> acc' < 0 then Some (Inr None)
                    else collect_loop A eq f delta b pos' acc' mlen' (d @ [q]))"

text \<open>Then the parts are moved up, from the last one; \<open>next\<close> is where the part after this occurrence ends.\<close>

fun expand_loop :: "tagbstring \<Rightarrow> int \<Rightarrow> tagbstring \<Rightarrow> int \<Rightarrow> int \<Rightarrow> int \<Rightarrow> int list \<Rightarrow> tagbstring res" where
  "expand_loop x fl b delta acc nxt [] = Inr b"
| "expand_loop x fl b delta acc nxt (q # qs) =
     (let s = q + fl;
          l = nxt - s
      in bind_res (if l \<noteq> 0 then memmove b (s + acc) b s l else Inr b) (\<lambda>b.
         bind_res (if bs_slen x \<noteq> 0 then memmove b (s + acc - bs_slen x) x 0 (bs_slen x) else Inr b) (\<lambda>b.
         expand_loop x fl b delta (acc + delta) q qs)))"

text \<open>The three cases, by the difference of the lengths.\<close>

definition replace_loops :: "allocator \<Rightarrow> (char \<Rightarrow> char \<Rightarrow> bool) \<Rightarrow> tagbstring \<Rightarrow> barg \<Rightarrow> barg \<Rightarrow> int \<Rightarrow> bstr_result option" where
  "replace_loops A eq b auxf auxr pos =
     (let fl = arg_len b auxf;
          delta = i32 (fl - arg_len b auxr)
      in if delta = 0 then
           bind_opt (inplace_loop eq auxf auxr b pos) (\<lambda>b. Some (Inr (0, Some b)))
         else if delta > 0 then
           bind_opt (shrink_loop eq auxf auxr delta b pos 0) (\<lambda>(b, pos, acc). Some (shrink_end b pos acc))
         else
           bind_opt (collect_loop A eq auxf delta b pos 0 32 []) (\<lambda>c.
             case c of
               None \<Rightarrow> Some (Inr (BSTR_ERR, Some b))
             | Some (d, acc) \<Rightarrow>
                 Some (bind_res (balloc A (Some b) (i32 (bs_slen b + acc + 1))) (\<lambda>(ret, p').
                   if ret \<noteq> BSTR_OK then Inr (ret, p')
                   else
                     bind_res (arg_after b (the p') auxr) (\<lambda>x.
                     bind_res (expand_loop (the x) fl ((the p')\<lparr> bs_slen := bs_slen b + acc \<rparr>) delta acc (bs_slen b) (rev d)) (\<lambda>b.
                     bind_res (store b (bs_slen b) NUL) (\<lambda>b. Inr (ret, Some b))))))))"

definition findreplaceengine ::
    "allocator \<Rightarrow> (char \<Rightarrow> char \<Rightarrow> bool) \<Rightarrow> tagbstring option \<Rightarrow> barg \<Rightarrow> barg \<Rightarrow> int \<Rightarrow> bstr_result option" where
  "findreplaceengine A eq p f r pos =
     (case p of
        None \<Rightarrow> Some (Inr (BSTR_ERR, None))
      | Some b \<Rightarrow>
          case (arg_ptr b f, arg_ptr b r) of
            (Some fs, Some rs) \<Rightarrow>
              if unwritable b \<or> bs_data fs = None \<or> bs_data rs = None \<or> pos < 0 \<or> bs_slen fs \<le> 0 \<or> bs_slen rs < 0
              then Some (Inr (BSTR_ERR, p))
              else if pos > i32 (bs_slen b - bs_slen fs) then Some (Inr (0, p))
              else
                let shares = (\<lambda>a x. case arg_offset a of None \<Rightarrow> False
                       | Some pd \<Rightarrow> pos - bs_slen x < pd \<and> pd < bs_slen b)
                in case (unalias A b f (shares f fs), unalias A b r (shares r rs)) of
                     (Inl e, _) \<Rightarrow> Some (Inl e)
                   | (Inr None, _) \<Rightarrow> Some (Inr (BSTR_ERR, p))
                   | (Inr (Some auxf), Inl e) \<Rightarrow> Some (Inl e)
                   | (Inr (Some auxf), Inr None) \<Rightarrow> Some (Inr (BSTR_ERR, p))
                   | (Inr (Some auxf), Inr (Some auxr)) \<Rightarrow>
                       replace_loops A eq b auxf auxr pos
          | _ \<Rightarrow> Some (Inr (BSTR_ERR, p)))"

definition bfindreplace :: "allocator \<Rightarrow> tagbstring option \<Rightarrow> barg \<Rightarrow> barg \<Rightarrow> int \<Rightarrow> bstr_result option" where
  "bfindreplace A = findreplaceengine A eq_byte"

definition bfindreplacecaseless :: "allocator \<Rightarrow> tagbstring option \<Rightarrow> barg \<Rightarrow> barg \<Rightarrow> int \<Rightarrow> bstr_result option" where
  "bfindreplacecaseless A = findreplaceengine A eq_caseless"

declare binsertch.simps [simp del] bpattern.simps [simp del]

section \<open>The loops on the buffer\<close>

lemma fill_loop_buf:
  assumes "bs_data b = Some d" "i + n \<le> length d"
  shows "fill_loop b (int i) n c = Inr (b\<lparr> bs_data := Some (take i d @ replicate n c @ drop (i + n) d) \<rparr>)"
  using assms
proof (induction n arbitrary: b d i)
  case 0
  then show ?case by (cases b) simp
next
  case (Suc n)
  then have i: "i < length d" by simp
  let ?b = "b\<lparr> bs_data := Some (d[i := c]) \<rparr>"
  have "fill_loop b (int i) (Suc n) c = fill_loop ?b (int (Suc i)) n c" using Suc.prems i by (simp add: store_def add.commute)
  also have "\<dots> = Inr (?b\<lparr> bs_data := Some (take (Suc i) (d[i := c]) @ replicate n c @ drop (Suc i + n) (d[i := c])) \<rparr>)"
    using Suc.prems by (intro Suc.IH) simp_all
  finally show ?case using i by (simp add: take_Suc_conv_app_nth)
qed

lemma shift_loop_buf:
  assumes "bs_data b = Some d" "l + n \<le> length d" "k \<le> l"
  shows "shift_loop b (int l) (int k) n = Inr (b\<lparr> bs_data := Some (take l d @ take n (drop (l - k) d) @ drop (l + n) d) \<rparr>)"
  using assms
proof (induction n arbitrary: b d)
  case 0
  then show ?case by (cases b) simp
next
  case (Suc n)
  let ?v = "d ! (l + n - k)"
  let ?d = "d[l + n := ?v]"
  have f: "fetch b (int l + int n - int k) = Inr ?v" using Suc.prems by (simp add: fetch_def nat_diff_distrib' flip: of_nat_add of_nat_diff)
  have st: "store b (int l + int n) ?v = Inr (b\<lparr> bs_data := Some ?d \<rparr>)" using Suc.prems by (simp add: store_def nat_add_distrib)
  have IH: "shift_loop (b\<lparr> bs_data := Some ?d \<rparr>) (int l) (int k) n =
      Inr (b\<lparr> bs_data := Some ?d \<rparr>\<lparr> bs_data := Some (take l ?d @ take n (drop (l - k) ?d) @ drop (l + n) ?d) \<rparr>)"
    using Suc.prems by (intro Suc.IH) simp_all
  have "take l ?d @ take n (drop (l - k) ?d) @ drop (l + n) ?d = take l d @ take (Suc n) (drop (l - k) d) @ drop (l + Suc n) d"
  proof -
    have 1: "take n (drop (l - k) ?d) = take n (drop (l - k) d)" using Suc.prems(3) by (simp add: take_drop)
    have "drop (l + n) ?d = ?v # drop (l + Suc n) d"
      using Suc.prems(2) by (subst Cons_nth_drop_Suc [symmetric]) simp_all
    moreover have "take (Suc n) (drop (l - k) d) = take n (drop (l - k) d) @ [?v]"
      using Suc.prems(2,3) by (simp add: take_Suc_conv_app_nth)
    ultimately show ?thesis using 1 by simp
  qed
  then show ?case using f st IH by simp
qed

lemma repeat_loop_buf:
  assumes "bs_data b = Some d" "i + n \<le> length d" "0 < k" "k \<le> i"
  shows "\<exists>e. repeat_loop b (int k) (int i) n = Inr (b\<lparr> bs_data := Some e \<rparr>) \<and> length e = length d \<and>
    (\<forall>s. (\<forall>j<i. d ! j = s ! (j mod k)) \<longrightarrow> (\<forall>j<i + n. e ! j = s ! (j mod k)))"
  using assms
proof (induction n arbitrary: b d i)
  case 0
  then show ?case by (intro exI [of _ d]) (cases b, simp)
next
  case (Suc n)
  let ?v = "d ! (i - k)"
  let ?d = "d[i := ?v]"
  have f: "fetch b (int i - int k) = Inr ?v" using Suc.prems by (simp add: fetch_def nat_diff_distrib' flip: of_nat_diff)
  have st: "store b (int i) ?v = Inr (b\<lparr> bs_data := Some ?d \<rparr>)" using Suc.prems by (simp add: store_def)
  obtain e where e: "repeat_loop (b\<lparr> bs_data := Some ?d \<rparr>) (int k) (int (Suc i)) n = Inr (b\<lparr> bs_data := Some ?d \<rparr>\<lparr> bs_data := Some e \<rparr>)"
    "length e = length ?d" "\<And>s. \<forall>j<Suc i. ?d ! j = s ! (j mod k) \<Longrightarrow> \<forall>j<Suc i + n. e ! j = s ! (j mod k)"
    using Suc.IH [of "b\<lparr> bs_data := Some ?d \<rparr>" ?d "Suc i"] Suc.prems by auto
  have "\<forall>j<Suc i. ?d ! j = s ! (j mod k)" if "\<forall>j<i. d ! j = s ! (j mod k)" for s
  proof (intro allI impI)
    fix j assume "j < Suc i"
    show "?d ! j = s ! (j mod k)"
    proof (cases "j = i")
      case True
      have "i - k < i" using Suc.prems by simp
      then have "?v = s ! ((i - k) mod k)" using that by blast
      then show ?thesis using True Suc.prems by (simp add: le_mod_geq)
    qed (use \<open>j < Suc i\<close> that in simp)
  qed
  then show ?case using f st e by (intro exI [of _ e]) (simp add: add.commute)
qed

section \<open>Overwriting and inserting on contents\<close>

definition pad :: "string \<Rightarrow> nat \<Rightarrow> char \<Rightarrow> string" where
  "pad s n c = s @ replicate (n - length s) c"

definition setstr :: "string \<Rightarrow> nat \<Rightarrow> string \<Rightarrow> char \<Rightarrow> string" where
  "setstr s pos t fill = take pos (pad s pos fill) @ t @ drop (pos + length t) s"

definition insertstr :: "string \<Rightarrow> nat \<Rightarrow> string \<Rightarrow> char \<Rightarrow> string" where
  "insertstr s pos t fill = take pos (pad s pos fill) @ t @ drop pos s"

text \<open>A call that gets an argument, possibly none.\<close>

definition opt_holds :: "tagbstring \<Rightarrow> barg \<Rightarrow> string \<Rightarrow> bool" where
  "opt_holds b a t \<longleftrightarrow> a = Apart None \<and> t = [] \<or> arg_holds b a t"

lemma copy_at:
  assumes "bs_data b = Some d" "i + length t \<le> length d" "x = None \<and> t = [] \<or> (\<exists>y. x = Some y \<and> holds y t)"
  shows "(case x of None \<Rightarrow> Inr b | Some y \<Rightarrow> bBlockCopy b (int i) y 0 (int (length t))) =
    Inr (b\<lparr> bs_data := Some (take i d @ t @ drop (i + length t) d) \<rparr>)"
  using assms bBlockCopy_holds [OF _ assms(1,2)] by auto

lemma finish:
  assumes "length d = length f" "length r < length d" "take (length r) f = r" "bs_mlen b = int (length d)" "int (length d) < 2 ^ 31"
  obtains b' where "store (b\<lparr> bs_slen := int (length r), bs_data := Some f \<rparr>) (int (length r)) NUL = Inr b'" "bstr_rep b' r"
  using terminate(1) [of "b\<lparr> bs_slen := int (length r) \<rparr>" f r] terminate(3) [of b f r] assms by simp

lemma length_setstr: "length (setstr s pos t fill) = max (max (length s) pos) (pos + length t)"
  by (auto simp: setstr_def pad_def max_def)

lemma bsetstr_tail_rep:
  assumes b: "bstr_rep b s" and x: "\<And>b'. arg_after b0 b' aux = Inr x" "x = None \<and> t = [] \<or> (\<exists>y. x = Some y \<and> holds y t)"
    and room: "int (pos + length t) + 1 \<le> bs_mlen b"
  shows "\<exists>b'. bsetstr_tail b0 b (int pos) aux (int (length t)) (int (pos + length t)) fill = Inr (0, Some b') \<and> bstr_rep b' (setstr s pos t fill)"
proof -
  obtain d where d: "bs_data b = Some d" "bs_slen b = int (length s)" "bs_mlen b = int (length d)" "length s < length d"
    "int (length d) < 2 ^ 31" "take (length s) d = s" "d ! length s = NUL" using b by (rule bstr_repE)
  let ?N = "max (length s) pos" and ?d = "pos + length t" and ?R = "setstr s pos t fill"
  let ?e = "pad s pos fill @ drop ?N d"
  have fill: "(if int pos > bs_slen b then fill_loop b (bs_slen b) (nat (int pos - bs_slen b)) fill else Inr b) = Inr (b\<lparr> bs_data := Some ?e \<rparr>)"
  proof (cases "length s < pos")
    case True
    then show ?thesis using fill_loop_buf [OF d(1), of "length s" "pos - length s" fill] d(2,3,6) room
      by (simp add: pad_def flip: of_nat_diff)
  next
    case False
    have "d = s @ drop (length s) d" using d(6) by (metis append_take_drop_id)
    then show ?thesis using False d(1,2) by (cases b) (simp add: pad_def max_def)
  qed
  have le: "length ?e = length d" "?d < length d" "?N < length d" using d(3,4) room by (auto simp: pad_def max_def)
  let ?f = "take pos ?e @ t @ drop ?d ?e"
  have copy: "(case x of None \<Rightarrow> Inr (b\<lparr> bs_data := Some ?e \<rparr>) | Some y \<Rightarrow> bBlockCopy (b\<lparr> bs_data := Some ?e \<rparr>) (int pos) y 0 (int (length t))) = Inr (b\<lparr> bs_data := Some ?f \<rparr>)"
    using copy_at [of "b\<lparr> bs_data := Some ?e \<rparr>" ?e pos t x] le x(2) by simp
  have f: "length ?f = length d" "length ?R < length d" using le by (auto simp: length_setstr)
  have "?f = ?R @ drop (?d - ?N) (drop ?N d)"
  proof -
    have "drop ?d (pad s pos fill) = drop ?d s" "length (pad s pos fill) = ?N" by (auto simp: pad_def max_def)
    then show ?thesis by (simp add: setstr_def)
  qed
  then have tk: "take (length ?R) ?f = ?R" by (metis append_eq_conv_conj)
  have n: "(if int ?d > (if int pos > int (length s) then int pos else int (length s)) then int ?d
      else if int pos > int (length s) then int pos else int (length s)) = int (length ?R)"
    by (auto simp: length_setstr max_def)
  obtain b' where b': "store (b\<lparr> bs_slen := int (length ?R), bs_data := Some ?f \<rparr>) (int (length ?R)) NUL = Inr b'" "bstr_rep b' ?R"
    using finish [OF f(1)[symmetric] f(2) tk d(3,5)] .
  have "bsetstr_tail b0 b (int pos) aux (int (length t)) (int ?d) fill = Inr (0, Some b')"
    unfolding bsetstr_tail_def d(2) Let_def n fill [unfolded d(2)] bind_res_simps x(1) copy data_slen_order b'(1) BSTR_OK_def ..
  then show ?thesis using b'(2) by blast
qed

lemma bsetstr_yields:
  assumes b: "bstr_rep b s" and a: "opt_holds b a t" and len: "int (pos + length t) + 1 < 2 ^ 31"
  shows "yields A b (bsetstr A (Some b) (int pos) a fill) (setstr s pos t fill)"
proof -
  let ?d = "pos + length t"
  have i: "i32 (int pos + int (length t)) = int ?d" "i32 (int ?d + 1) = int ?d + 1" using len by simp_all
  let ?aux = "if arg_ptr b a = None then Inr (Some a) else unalias A b a (aliased b a)"
  have guard: "\<not> (case arg_ptr b a of None \<Rightarrow> False | Some b1 \<Rightarrow> unreadable b1)"
    using a by (auto simp: opt_holds_def elim!: arg_holdsE dest: holds_readable)
  consider (ok) aux x where "?aux = Inr (Some aux)" "\<And>b'. arg_after b b' aux = Inr x" "x = None \<and> t = [] \<or> (\<exists>y. x = Some y \<and> holds y t)" "arg_len b aux = int (length t)"
    | (refused) "\<not> grants A" "?aux = Inr None"
  proof (cases "a = Apart None")
    case True
    then have "t = []" using a by (auto simp: opt_holds_def arg_holds_def)
    then show thesis using True ok [of "Apart None" None] by (simp add: arg_after_def arg_len_def)
  next
    case False
    then have h: "arg_holds b a t" using a by (auto simp: opt_holds_def)
    then obtain y where y: "arg_ptr b a = Some y" by (rule arg_holdsE)
    show thesis
    proof (rule unalias_apart [OF h, of s A])
      show "bstr_rep b s \<or> (\<exists>p. a = Apart p)" "int (length t) + 1 < 2 ^ 31" using b len by simp_all
    next
      fix x assume "unalias A b a (aliased b a) = Inr (Some (Apart (Some x)))" "holds x t"
      then show thesis using y ok [of "Apart (Some x)" "Some x"] holds_slen by (simp add: arg_after_def arg_len_def)
    next
      assume "\<not> grants A" "unalias A b a (aliased b a) = Inr None"
      then show thesis using y by (intro refused) simp_all
    qed
  qed
  then show ?thesis
  proof cases
    case refused
    then show ?thesis using guard bstr_rep_writable [OF b] by (simp add: bsetstr_def yields_def BSTR_ERR_def)
  next
    case (ok aux x)
    have eq: "bsetstr A (Some b) (int pos) a fill =
      bind_res (balloc A (Some b) (int ?d + 1)) (\<lambda>(r, p'). if r \<noteq> BSTR_OK then Inr (BSTR_ERR, p')
        else bsetstr_tail b (the p') (int pos) aux (int (length t)) (int ?d) fill)"
      unfolding bsetstr_def option.case ok(1) bind_res_simps Let_def ok(4) i using guard bstr_rep_writable [OF b] by simp
    show ?thesis
    proof (rule balloc_buf [OF bstr_rep_buf [OF b], of "int ?d + 1" A])
      show "0 < int ?d + 1" "int ?d + 1 < 2 ^ 31" using len by simp_all
    next
      fix b1 assume b1: "balloc A (Some b) (int ?d + 1) = Inr (0, Some b1)" "int ?d + 1 \<le> bs_mlen b1" "bstr_rep b s \<Longrightarrow> bstr_rep b1 s"
      obtain d where d: "bs_data b1 = Some d" "bs_slen b1 = int (length s)" "bs_mlen b1 = int (length d)" "length s < length d"
    "int (length d) < 2 ^ 31" "take (length s) d = s" "d ! length s = NUL" using b1(3) [OF b] by (rule bstr_repE)
      have "int ?d + 1 \<le> int (length d)" using b1(2) d(3) by simp
      then obtain e where e: "bsetstr_tail b b1 (int pos) aux (int (length t)) (int ?d) fill = Inr (0, Some e)" "bstr_rep e (setstr s pos t fill)"
        using bsetstr_tail_rep [OF b1(3) [OF b] ok(2,3), of pos fill] b1(2) by auto
      then show ?thesis using eq b1(1) by (simp add: BSTR_OK_def yieldsI)
    next
      assume "\<not> grants A" "balloc A (Some b) (int ?d + 1) = Inr (-1, Some b)"
      then show ?thesis using eq by (simp add: yields_def BSTR_ERR_def BSTR_OK_def)
    qed
  qed
qed

lemma binsert_tail_rep:
  assumes x: "holds x t" and b: "bs_data b = Some e" "bs_mlen b = int (length e)" "int (length e) < 2 ^ 31"
    and r: "length r < length e" "pos + length t \<le> length r" "take (length r) (take pos e @ t @ drop (pos + length t) e) = r"
  shows "\<exists>b'. binsert_tail b1 (b\<lparr> bs_slen := int (length r) \<rparr>) (int pos) (Apart (Some x)) (int (length t)) = Inr (0, Some b') \<and> bstr_rep b' r"
proof -
  let ?f = "take pos e @ t @ drop (pos + length t) e"
  have copy: "bBlockCopy (b\<lparr> bs_slen := int (length r) \<rparr>) (int pos) x 0 (int (length t)) = Inr (b\<lparr> bs_slen := int (length r), bs_data := Some ?f \<rparr>)"
    using bBlockCopy_holds [OF x, of "b\<lparr> bs_slen := int (length r) \<rparr>" e pos] b r by simp
  have "length e = length ?f" using r by simp
  from finish [OF this r(1,3) b(2,3)] obtain b' where "store (b\<lparr> bs_slen := int (length r), bs_data := Some ?f \<rparr>) (int (length r)) NUL = Inr b'" "bstr_rep b' r" .
  then show ?thesis using copy by (simp add: binsert_tail_def arg_after_def)
qed

lemma insert_past:
  assumes d: "bs_data b = Some d" "bs_slen b = int (length s)" "bs_mlen b = int (length d)" "int (length d) < 2 ^ 31" "take (length s) d = s"
    and x: "holds x t" and pos: "length s < pos" "pos + length t < length d"
  shows "\<exists>e b'. fill_loop b (bs_slen b) (nat (int pos - bs_slen b)) fill = Inr (b\<lparr> bs_data := Some e \<rparr>) \<and>
    binsert_tail b1 (b\<lparr> bs_slen := int (pos + length t), bs_data := Some e \<rparr>) (int pos) (Apart (Some x)) (int (length t)) = Inr (0, Some b') \<and>
    bstr_rep b' (insertstr s pos t fill)"
proof -
  let ?e = "pad s pos fill @ drop pos d" and ?r = "insertstr s pos t fill"
  have fill: "fill_loop b (bs_slen b) (nat (int pos - bs_slen b)) fill = Inr (b\<lparr> bs_data := Some ?e \<rparr>)"
    using fill_loop_buf [OF d(1), of "length s" "pos - length s" fill] d(2,5) pos by (simp add: pad_def flip: of_nat_diff)
  have r: "?r = pad s pos fill @ t" "length (pad s pos fill) = pos" "length ?r = pos + length t" using pos by (simp_all add: insertstr_def pad_def)
  have "\<exists>b'. binsert_tail b1 ((b\<lparr> bs_data := Some ?e \<rparr>)\<lparr> bs_slen := int (length ?r) \<rparr>) (int pos) (Apart (Some x)) (int (length t)) = Inr (0, Some b') \<and> bstr_rep b' ?r"
    by (rule binsert_tail_rep [OF x, where e = ?e]) (use pos d r in simp_all)
  then show ?thesis using fill r(3) by auto
qed

lemma insert_mid:
  assumes d: "bs_data b = Some d" "bs_mlen b = int (length d)" "int (length d) < 2 ^ 31" "take (length s) d = s"
    and x: "holds x t" and pos: "pos \<le> length s" "length s + length t < length d"
  shows "\<exists>e b'. shift_loop b (int (pos + length t)) (int (length t)) (length s - pos) = Inr (b\<lparr> bs_data := Some e \<rparr>) \<and>
    binsert_tail b1 (b\<lparr> bs_slen := int (length s + length t), bs_data := Some e \<rparr>) (int pos) (Apart (Some x)) (int (length t)) = Inr (0, Some b') \<and>
    bstr_rep b' (insertstr s pos t fill)"
proof -
  let ?l = "pos + length t" and ?r = "insertstr s pos t fill"
  let ?e = "take ?l d @ take (length s - pos) (drop (?l - length t) d) @ drop (?l + (length s - pos)) d"
  have shift: "shift_loop b (int ?l) (int (length t)) (length s - pos) = Inr (b\<lparr> bs_data := Some ?e \<rparr>)"
    using shift_loop_buf [OF d(1), of ?l "length s - pos" "length t"] pos by simp
  have le: "length ?e = length d" using pos by simp
  have "take (length s - pos) (drop pos d) = drop pos s" using d(4) by (metis drop_take)
  moreover have tp: "take pos d = take pos s" using d(4) pos(1) by (metis min.absorb1 take_take)
  ultimately have f: "take pos ?e @ t @ drop ?l ?e = ?r @ drop (length s + length t) d" and r: "length ?r = length s + length t"
    using pos by (simp_all add: insertstr_def pad_def add.commute)
  have "\<exists>b'. binsert_tail b1 ((b\<lparr> bs_data := Some ?e \<rparr>)\<lparr> bs_slen := int (length ?r) \<rparr>) (int pos) (Apart (Some x)) (int (length t)) = Inr (0, Some b') \<and> bstr_rep b' ?r"
  proof (rule binsert_tail_rep [OF x, where e = ?e])
    show "take (length ?r) (take pos ?e @ t @ drop ?l ?e) = ?r" unfolding f by simp
  qed (use pos d le r in simp_all)
  then show ?thesis using shift r by auto
qed

lemma binsert_yields:
  assumes b: "bstr_rep b s" and a: "arg_holds b a t" and len: "int (max (length s) pos + length t) + 1 < 2 ^ 31"
  shows "yields A b (binsert A (Some b) (int pos) a fill) (insertstr s pos t fill)"
proof -
  obtain d0 where d0: "bs_data b = Some d0" "bs_slen b = int (length s)" "bs_mlen b = int (length d0)" "length s < length d0"
    "int (length d0) < 2 ^ 31" "take (length s) d0 = s" "d0 ! length s = NUL" using b by (rule bstr_repE)
  let ?d = "length s + length t" and ?l = "pos + length t"
  have i: "i32 (int (length s) + int (length t)) = int ?d" "i32 (int pos + int (length t)) = int ?l" "i32 (int ?l + 1) = int ?l + 1" "i32 (int ?d + 1) = int ?d + 1"
    using len by (simp_all add: max_def split: if_splits)
  obtain y where y: "arg_ptr b a = Some y" "holds y t" using a by (rule arg_holdsE)
  have ylen: "bs_slen y = int (length t)" by (rule holds_slen [OF y(2)])
  have guard: "\<not> (int pos < 0 \<or> bs_slen b < 0 \<or> bs_slen y < 0 \<or> bs_mlen b < bs_slen b \<or> bs_mlen b \<le> 0)" using d0 ylen by auto
  show ?thesis
  proof (rule unalias_apart [OF a, of s A])
    show "bstr_rep b s \<or> (\<exists>p. a = Apart p)" "int (length t) + 1 < 2 ^ 31" using b len by (auto simp: max_def split: if_splits)
  next
    assume "\<not> grants A" "unalias A b a (aliased b a) = Inr None"
    then show ?thesis using y guard by (simp add: binsert_def yields_def BSTR_ERR_def)
  next
    fix x assume x: "unalias A b a (aliased b a) = Inr (Some (Apart (Some x)))" "holds x t"
    have al: "arg_len b (Apart (Some x)) = int (length t)" using holds_slen [OF x(2)] by (simp add: arg_len_def)
    have nn: "\<not> (int ?d < 0 \<or> int ?l < 0)" by simp
    note eq = binsert_def [of A "Some b" "int pos" a fill, unfolded option.case y(1) x(1) bind_res_simps Let_def al d0(2) i]
    show ?thesis
    proof (cases "length s < pos")
      case True
      show ?thesis
      proof (rule balloc_buf [OF bstr_rep_buf [OF b], of "int ?l + 1" A])
        show "0 < int ?l + 1" "int ?l + 1 < 2 ^ 31" using len by (auto simp: max_def split: if_splits)
      next
        fix b1 assume b1: "balloc A (Some b) (int ?l + 1) = Inr (0, Some b1)" "int ?l + 1 \<le> bs_mlen b1" "bstr_rep b s \<Longrightarrow> bstr_rep b1 s"
        obtain d where d: "bs_data b1 = Some d" "bs_slen b1 = int (length s)" "bs_mlen b1 = int (length d)" "length s < length d"
    "int (length d) < 2 ^ 31" "take (length s) d = s" "d ! length s = NUL" using b1(3) [OF b] by (rule bstr_repE)
        have "?l < length d" using b1(2) d(3) by simp
        then obtain e b' where "fill_loop b1 (bs_slen b1) (nat (int pos - bs_slen b1)) fill = Inr (b1\<lparr> bs_data := Some e \<rparr>)"
          "binsert_tail b (b1\<lparr> bs_slen := int ?l, bs_data := Some e \<rparr>) (int pos) (Apart (Some x)) (int (length t)) = Inr (0, Some b')"
          "bstr_rep b' (insertstr s pos t fill)"
          using insert_past [OF d(1-3,5,6) x(2) True, of fill b] by blast
        then have "binsert A (Some b) (int pos) a fill = Inr (0, Some b')" unfolding eq using True b1(1) guard d0(2) by (simp add: BSTR_OK_def)
        then show ?thesis using \<open>bstr_rep b' (insertstr s pos t fill)\<close> by (simp add: yieldsI)
      next
        assume "\<not> grants A" "balloc A (Some b) (int ?l + 1) = Inr (-1, Some b)"
        then show ?thesis unfolding eq using True guard d0(2) by (simp add: yields_def BSTR_ERR_def BSTR_OK_def)
      qed
    next
      case False
      show ?thesis
      proof (rule balloc_buf [OF bstr_rep_buf [OF b], of "int ?d + 1" A])
        show "0 < int ?d + 1" "int ?d + 1 < 2 ^ 31" using len by (auto simp: max_def split: if_splits)
      next
        fix b1 assume b1: "balloc A (Some b) (int ?d + 1) = Inr (0, Some b1)" "int ?d + 1 \<le> bs_mlen b1" "bstr_rep b s \<Longrightarrow> bstr_rep b1 s"
        obtain d where d: "bs_data b1 = Some d" "bs_slen b1 = int (length s)" "bs_mlen b1 = int (length d)" "length s < length d"
    "int (length d) < 2 ^ 31" "take (length s) d = s" "d ! length s = NUL" using b1(3) [OF b] by (rule bstr_repE)
        have "?d < length d" "pos \<le> length s" using b1(2) d(3) False by simp_all
        then obtain e b' where *: "shift_loop b1 (int ?l) (int (length t)) (length s - pos) = Inr (b1\<lparr> bs_data := Some e \<rparr>)"
          "binsert_tail b (b1\<lparr> bs_slen := int ?d, bs_data := Some e \<rparr>) (int pos) (Apart (Some x)) (int (length t)) = Inr (0, Some b')"
          "bstr_rep b' (insertstr s pos t fill)"
          using insert_mid [OF d(1,3,5,6) x(2), of pos b fill] by blast
        have n: "nat (int ?d - int ?l) = length s - pos" by simp
        have "binsert A (Some b) (int pos) a fill = Inr (0, Some b')" unfolding eq n using False b1(1) guard d0(2) * by (simp add: BSTR_OK_def)
        then show ?thesis using *(3) by (simp add: yieldsI)
      next
        assume "\<not> grants A" "balloc A (Some b) (int ?d + 1) = Inr (-1, Some b)"
        then show ?thesis unfolding eq using False guard d0(2) by (simp add: yields_def BSTR_ERR_def BSTR_OK_def)
      qed
    qed
  qed
qed

text \<open>\<open>binsertch\<close> inserts a run of one character.\<close>

lemma binsertch_yields:
  assumes b: "bstr_rep b s" and len: "int (max (length s) pos + n) + 1 < 2 ^ 31"
  shows "yields A b (binsertch A (Some b) (int pos) (int n) fill) (insertstr s pos (replicate n fill) fill)"
proof -
  obtain d0 where d0: "bs_data b = Some d0" "bs_slen b = int (length s)" "bs_mlen b = int (length d0)" "length s < length d0"
    "int (length d0) < 2 ^ 31" "take (length s) d0 = s" "d0 ! length s = NUL" using b by (rule bstr_repE)
  let ?d = "length s + n" and ?l = "pos + n" and ?r = "insertstr s pos (replicate n fill) fill"
  have i: "i32 (int (length s) + int n) = int ?d" "i32 (int pos + int n) = int ?l" "i32 (int ?l + 1) = int ?l + 1" "i32 (int ?d + 1) = int ?d + 1"
    using len by (simp_all add: max_def split: if_splits)
  have guard: "\<not> (int pos < 0 \<or> bs_slen b < 0 \<or> bs_mlen b < bs_slen b \<or> bs_mlen b \<le> 0 \<or> int n < 0)" using d0 by auto
  note eq = binsertch.simps(2) [of A b "int pos" "int n" fill, unfolded Let_def d0(2) i]
  show ?thesis
  proof (cases "length s < pos")
    case True
    show ?thesis
    proof (rule balloc_buf [OF bstr_rep_buf [OF b], of "int ?l + 1" A])
      show "0 < int ?l + 1" "int ?l + 1 < 2 ^ 31" using len by (auto simp: max_def split: if_splits)
    next
      fix b1 assume b1: "balloc A (Some b) (int ?l + 1) = Inr (0, Some b1)" "int ?l + 1 \<le> bs_mlen b1" "bstr_rep b s \<Longrightarrow> bstr_rep b1 s"
      obtain d where d: "bs_data b1 = Some d" "bs_slen b1 = int (length s)" "bs_mlen b1 = int (length d)" "length s < length d"
    "int (length d) < 2 ^ 31" "take (length s) d = s" "d ! length s = NUL" using b1(3) [OF b] by (rule bstr_repE)
      have l: "?l < length d" using b1(2) d(3) by simp
      let ?f = "s @ replicate (?l - length s) fill @ drop ?l d"
      have r: "?r = s @ replicate (?l - length s) fill" "length ?r = ?l" using True by (simp_all add: insertstr_def pad_def flip: replicate_add)
      have fl: "fill_loop (b1\<lparr> bs_slen := int ?l \<rparr>) (bs_slen b1) (nat (int ?l - bs_slen b1)) fill = Inr (b1\<lparr> bs_slen := int ?l, bs_data := Some ?f \<rparr>)"
        using fill_loop_buf [of "b1\<lparr> bs_slen := int ?l \<rparr>" d "length s" "?l - length s" fill] d(1,2,6) l True by (simp flip: of_nat_diff of_nat_add)
      have "length d = length ?f" "length ?r < length d" "take (length ?r) ?f = ?r" using l True r by simp_all
      from finish [OF this d(3,5)] obtain b' where "store (b1\<lparr> bs_slen := int ?l, bs_data := Some ?f \<rparr>) (int ?l) NUL = Inr b'" "bstr_rep b' ?r"
        unfolding r(2) .
      then have "binsertch A (Some b) (int pos) (int n) fill = Inr (0, Some b')" unfolding eq using True b1(1) guard d0(2) fl by (simp add: BSTR_OK_def)
      then show ?thesis using \<open>bstr_rep b' ?r\<close> by (simp add: yieldsI)
    next
      assume "\<not> grants A" "balloc A (Some b) (int ?l + 1) = Inr (-1, Some b)"
      then show ?thesis unfolding eq using True guard d0(2) by (simp add: yields_def BSTR_ERR_def BSTR_OK_def)
    qed
  next
    case False
    then have pos: "pos \<le> length s" by simp
    show ?thesis
    proof (rule balloc_buf [OF bstr_rep_buf [OF b], of "int ?d + 1" A])
      show "0 < int ?d + 1" "int ?d + 1 < 2 ^ 31" using len by (auto simp: max_def split: if_splits)
    next
      fix b1 assume b1: "balloc A (Some b) (int ?d + 1) = Inr (0, Some b1)" "int ?d + 1 \<le> bs_mlen b1" "bstr_rep b s \<Longrightarrow> bstr_rep b1 s"
      obtain d where d: "bs_data b1 = Some d" "bs_slen b1 = int (length s)" "bs_mlen b1 = int (length d)" "length s < length d"
    "int (length d) < 2 ^ 31" "take (length s) d = s" "d ! length s = NUL" using b1(3) [OF b] by (rule bstr_repE)
      have l: "?d < length d" using b1(2) d(3) by simp
      let ?e = "take ?l d @ take (length s - pos) (drop (?l - n) d) @ drop (?l + (length s - pos)) d"
      have sh: "shift_loop b1 (int ?l) (int n) (length s - pos) = Inr (b1\<lparr> bs_data := Some ?e \<rparr>)"
        using shift_loop_buf [OF d(1), of ?l "length s - pos" n] pos l by simp
      let ?f = "take pos ?e @ replicate n fill @ drop ?l ?e"
      have le: "length ?e = length d" using pos l by simp
      have "take (length s - pos) (drop pos d) = drop pos s" using d(6) by (metis drop_take)
      moreover have "take pos d = take pos s" using d(6) pos by (metis min.absorb1 take_take)
      ultimately have f: "?f = ?r @ drop ?d d" and r: "length ?r = ?d" using pos l by (simp_all add: insertstr_def pad_def add.commute)
      have fl: "fill_loop (b1\<lparr> bs_slen := int ?d, bs_data := Some ?e \<rparr>) (int pos) n fill = Inr (b1\<lparr> bs_slen := int ?d, bs_data := Some ?f \<rparr>)"
        using fill_loop_buf [of "b1\<lparr> bs_slen := int ?d, bs_data := Some ?e \<rparr>" ?e pos n fill] le pos l by simp
      have "length d = length ?f" "length ?r < length d" "take (length ?r) ?f = ?r" unfolding f using r l by simp_all
      from finish [OF this d(3,5)] obtain b' where st: "store (b1\<lparr> bs_slen := int ?d, bs_data := Some ?f \<rparr>) (int ?d) NUL = Inr b'" "bstr_rep b' ?r"
        unfolding r .
      have n: "nat (int ?d - int ?l) = length s - pos" "nat (int ?l - int pos) = n" by simp_all
      have "binsertch A (Some b) (int pos) (int n) fill = Inr (0, Some b')"
        unfolding eq n(1) using False b1(1) guard d0(2) sh fl st(1) n(2) by (simp add: BSTR_OK_def)
      then show ?thesis using st(2) by (simp add: yieldsI)
    next
      assume "\<not> grants A" "balloc A (Some b) (int ?d + 1) = Inr (-1, Some b)"
      then show ?thesis unfolding eq using False guard d0(2) by (simp add: yields_def BSTR_ERR_def BSTR_OK_def)
    qed
  qed
qed

lemma bsetstr_null_fits:
  assumes b: "bstr_rep b s" and len: "int pos + 1 < bs_mlen b"
  shows "\<exists>b'. bsetstr A (Some b) (int pos) (Apart None) fill = Inr (0, Some b') \<and> bstr_rep b' (setstr s pos [] fill)"
proof -
  have "i32 (int pos + 1) = int pos + 1" "i32 (int pos) = int pos" using len bstr_rep_lt [OF b] by simp_all
  moreover have "balloc A (Some b) (int pos + 1) = Inr (0, Some b)" by (rule balloc_fits [OF bstr_rep_buf [OF b]]) (use len in simp_all)
  moreover have "\<exists>b'. bsetstr_tail b b (int pos) (Apart None) (int (length ([] :: string))) (int (pos + length ([] :: string))) fill = Inr (0, Some b') \<and> bstr_rep b' (setstr s pos [] fill)"
    by (rule bsetstr_tail_rep [OF b, where x = None]) (use len in \<open>simp_all add: arg_after_def\<close>)
  ultimately show ?thesis using bstr_rep_writable [OF b] by (simp add: bsetstr_def arg_len_def BSTR_OK_def Let_def)
qed

lemma bpattern_yields:
  assumes b: "bstr_rep b s" and s: "s \<noteq> []" and len: "int n + 1 < 2 ^ 30"
  shows "yields A b (bpattern A (Some b) (int n)) (List.map (\<lambda>j. s ! (j mod length s)) [0..<n])"
proof -
  obtain d0 where d0: "bs_data b = Some d0" "bs_slen b = int (length s)" "bs_mlen b = int (length d0)" "length s < length d0"
    "int (length d0) < 2 ^ 31" "take (length s) d0 = s" "d0 ! length s = NUL" using b by (rule bstr_repE)
  let ?r = "List.map (\<lambda>j. s ! (j mod length s)) [0..<n]"
  have guard: "\<not> (int (length s) \<le> 0 \<or> int n < 0)" "i32 (int n + 1) = int n + 1" "(if int (length s) < 0 then 0 else int (length s)) = int (length s)"
    using s len by simp_all
  note eq = bpattern.simps(2) [of A b "int n", unfolded d0(2) Let_def guard(2,3)]
  show ?thesis
  proof (rule balloc_buf [OF bstr_rep_buf [OF b], of "int n + 1" A])
    show "0 < int n + 1" "int n + 1 < 2 ^ 31" using len by simp_all
  next
    fix b1 assume b1: "balloc A (Some b) (int n + 1) = Inr (0, Some b1)" "int n + 1 < 2 ^ 30 \<Longrightarrow> int n + 1 < bs_mlen b1" "bstr_rep b s \<Longrightarrow> bstr_rep b1 s"
    have b1s: "bstr_rep b1 s" using b1(3) b by blast
    have room: "int n + 1 < bs_mlen b1" using b1(2) len by blast
    obtain d where d: "bs_data b1 = Some d" "bs_slen b1 = int (length s)" "bs_mlen b1 = int (length d)" "length s < length d"
    "int (length d) < 2 ^ 31" "take (length s) d = s" "d ! length s = NUL" using b1s by (rule bstr_repE)
    have "\<exists>b'. bpattern A (Some b) (int n) = Inr (0, Some b') \<and> bstr_rep b' ?r"
    proof (cases "0 < n \<and> length s = 1")
      case True
      then obtain c where c: "s = [c]" by (auto simp: length_Suc_conv)
      have "d ! 0 = s ! 0" using d(6) c by (metis length_Cons nth_take zero_less_Suc)
      then have "fetch b1 0 = Inr c" using d(1,4) c by (auto simp: fetch_def)
      moreover have "setstr s n [] c = ?r"
        using True c by (auto simp: setstr_def pad_def intro!: nth_equalityI simp: nth_append nth_Cons')
      moreover obtain b' where "bsetstr A (Some b1) (int n) (Apart None) c = Inr (0, Some b')" "bstr_rep b' (setstr s n [] c)"
        using bsetstr_null_fits [OF b1s room] by blast
      ultimately show ?thesis unfolding eq using True c b1(1) by (simp add: BSTR_OK_def)
    next
      case False
      obtain e where e: "(if int n > 0 then repeat_loop b1 (int (length s)) (int (length s)) (nat (int n - int (length s))) else Inr b1) = Inr (b1\<lparr> bs_data := Some e \<rparr>)"
        "length e = length d" "take n e = ?r"
      proof (cases "length s \<le> n")
        case True
        obtain e where e: "repeat_loop b1 (int (length s)) (int (length s)) (n - length s) = Inr (b1\<lparr> bs_data := Some e \<rparr>)" "length e = length d"
          "\<And>u. \<forall>j<length s. d ! j = u ! (j mod length s) \<Longrightarrow> \<forall>j<length s + (n - length s). e ! j = u ! (j mod length s)"
          using repeat_loop_buf [OF d(1), of "length s" "n - length s" "length s"] True s room d(3) by auto
        have "\<forall>j<length s. d ! j = s ! (j mod length s)" using d(6) by (metis mod_less nth_take)
        then have "\<forall>j<n. e ! j = s ! (j mod length s)" using e(3) [of s] True by simp
        then have "take n e = ?r" using e(2) room d(3) by (intro nth_equalityI) simp_all
        moreover have "0 < n" "nat (int n - int (length s)) = n - length s" using True s by (simp_all add: Suc_le_eq order_less_le_trans flip: of_nat_diff length_greater_0_conv)
        ultimately show thesis by (intro that [of e]) (use e(1,2) in simp_all)
      next
        case False
        have "take n d = ?r"
        proof (rule nth_equalityI)
          fix j assume "j < length (take n d)"
          then have "j < n" "j < length s" using False by simp_all
          then show "take n d ! j = ?r ! j" using d(6) by simp (metis nth_take)
        qed (use room d(3) in simp)
        then show thesis using that [of d] False d(1) by (cases b1) simp
      qed
      have "length ?r = n" by simp
      moreover have "length d = length e" "length ?r < length d" "take (length ?r) e = ?r" using e(2,3) room d(3) by simp_all
      from finish [OF this d(3,5)] obtain b' where st: "store (b1\<lparr> bs_slen := int (length ?r), bs_data := Some e \<rparr>) (int (length ?r)) NUL = Inr b'" "bstr_rep b' ?r" .
      have "store (b1\<lparr> bs_data := Some e \<rparr>) (int n) NUL = Inr (b1\<lparr> bs_data := Some (e[n := NUL]) \<rparr>)" "b' = b1\<lparr> bs_slen := int n, bs_data := Some (e[n := NUL]) \<rparr>"
        using st(1) e(2) room d(3) by (auto simp: store_def)
      then show ?thesis unfolding eq using False b1(1) guard(1) e(1) st(2) by (auto simp: BSTR_OK_def)
    qed
    then show ?thesis using yieldsI by auto
  next
    assume "\<not> grants A" "balloc A (Some b) (int n + 1) = Inr (-1, Some b)"
    then show ?thesis unfolding eq using guard(1) by (simp add: yields_def BSTR_ERR_def BSTR_OK_def)
  qed
qed

section \<open>Replacing a section\<close>

definition replacestr :: "string \<Rightarrow> nat \<Rightarrow> nat \<Rightarrow> string \<Rightarrow> char \<Rightarrow> string" where
  "replacestr s pos len t fill = take pos (pad s pos fill) @ t @ drop (pos + len) s"

lemma breplace_tail_rep:
  assumes b: "bstr_rep b s" and x: "holds x t" and pos: "pos + len \<le> length s"
    and room: "int (length s + length t) < bs_mlen b + int len"
  shows "\<exists>b'. breplace_tail b1 b (int pos) (int len) (Apart (Some x)) (int (length t)) = Inr (0, Some b') \<and> bstr_rep b' (replacestr s pos len t fill)"
proof -
  obtain d where d: "bs_data b = Some d" "bs_slen b = int (length s)" "bs_mlen b = int (length d)" "length s < length d"
    "int (length d) < 2 ^ 31" "take (length s) d = s" "d ! length s = NUL" using b by (rule bstr_repE)
  let ?q = "pos + len" and ?m = "length s - (pos + len)" and ?a = "length t"
  let ?e = "take (pos + ?a) d @ take ?m (drop ?q d) @ drop (pos + ?a + ?m) d"
  let ?r = "take pos s @ t @ drop ?q s"
  have r: "replacestr s pos len t fill = ?r" using pos by (simp add: replacestr_def pad_def)
  have le: "pos + ?a + ?m < length d" using room d(3) pos by simp
  have i: "i32 (int pos + int len) = int ?q" "i32 (int (length s) - int ?q) = int ?m" using pos d(4,5) by (simp_all add: of_nat_diff)
  have "take ?m (drop ?q d) = drop ?q s" using d(6) by (metis drop_take)
  moreover have "take pos d = take pos s" using d(6) pos by (metis add_leD1 min.absorb1 take_take)
  ultimately have f: "take pos ?e @ t @ drop (pos + ?a) ?e = ?r @ drop (length ?r) d" and lr: "length ?r = pos + ?a + ?m" using pos le by simp_all
  obtain e where e: "(if int ?a \<noteq> int len then memmove b (int pos + int ?a) b (int pos + int len) (int ?m) else Inr b) = Inr (b\<lparr> bs_data := Some e \<rparr>)"
    "length e = length d" "take pos e @ t @ drop (pos + ?a) e = ?r @ drop (length ?r) d"
  proof (cases "?a = len")
    case True
    have "take pos d @ t @ drop (pos + ?a) d = ?r @ drop (length ?r) d"
    proof -
      have "drop ?q d = drop ?q s @ drop (length s) d" by (metis (no_types, lifting) append_take_drop_id d(6) drop_append drop_drop diff_is_0_eq drop_0 pos)
      then show ?thesis using True lr pos \<open>take pos d = take pos s\<close> by simp
    qed
    then show thesis using that [of d] True d(1) by (cases b) simp
  next
    case False
    have le2: "?q + ?m \<le> length d" using pos d(4) by simp
    then have lm: "length (take ?m (drop ?q d)) = ?m" by simp
    have "length ?e = length d" unfolding length_append lm using le by simp
    moreover have "memmove b (int pos + int ?a) b (int pos + int len) (int ?m) = Inr (b\<lparr> bs_data := Some ?e \<rparr>)"
      using memmove_buf [OF d(1) less_imp_le [OF le] d(1) le2] by simp
    ultimately show thesis using that [of ?e, OF _ _ f] False by simp
  qed
  have "pos + ?a \<le> length e" using e(2) le by simp
  then have c: "memmove (b\<lparr> bs_data := Some e \<rparr>) (int pos) x 0 (int ?a) = Inr (b\<lparr> bs_data := Some (?r @ drop (length ?r) d) \<rparr>)"
    using blit_buf [of "b\<lparr> bs_data := Some e \<rparr>" e pos t] load_holds [OF x] e(3) by (simp add: memmove_def)
  have n: "i32 (int (length s) + (int ?a - int len)) = int (length ?r)" using lr le pos d(5) by (simp add: of_nat_diff)
  have "length d = length (?r @ drop (length ?r) d)" "length ?r < length d" "take (length ?r) (?r @ drop (length ?r) d) = ?r" using lr le by simp_all
  from finish [OF this d(3,5)] obtain b' where st: "store (b\<lparr> bs_slen := int (length ?r), bs_data := Some (?r @ drop (length ?r) d) \<rparr>) (int (length ?r)) NUL = Inr b'" "bstr_rep b' ?r" .
  have "breplace_tail b1 b (int pos) (int len) (Apart (Some x)) (int ?a) =
    bind_res (store (b\<lparr> bs_slen := int (length ?r), bs_data := Some (?r @ drop (length ?r) d) \<rparr>) (int (length ?r)) NUL) (\<lambda>b. Inr (BSTR_OK, Some b))"
    unfolding breplace_tail_def i d(2) e(1) bind_res_simps using d(2) n c by (simp add: arg_after_def Let_def del: length_append)
  then show ?thesis using st r by (simp add: BSTR_OK_def)
qed

text \<open>The length of an argument after the first string has changed to \<open>u\<close>.\<close>

lemma arg_len_after:
  assumes "arg_holds b a t" "bstr_rep b' u"
  shows "arg_len b' a = int (length t) \<or> a = Self \<and> arg_len b' a = int (length u)"
  using assms by (cases a) (auto simp: arg_holds_def arg_len_def holds_def blk2tbstr_def elim!: bstr_repE split: option.splits)

lemma breplace_yields:
  assumes b: "bstr_rep b s" and a: "arg_holds b a t" "t \<noteq> [] \<or> (\<exists>p. a = Apart p)" and sm: "int (length s) < 2 ^ 29" "int (length t) < 2 ^ 29" "int (pos + len) < 2 ^ 29"
  shows "yields A b (breplace A (Some b) (int pos) (int len) a fill) (replacestr s pos len t fill)"
proof -
  obtain d0 where d0: "bs_data b = Some d0" "bs_slen b = int (length s)" "bs_mlen b = int (length d0)" "length s < length d0"
    "int (length d0) < 2 ^ 31" "take (length s) d0 = s" "d0 ! length s = NUL" using b by (rule bstr_repE)
  obtain y where y: "arg_ptr b a = Some y" "holds y t" using a(1) by (rule arg_holdsE)
  have i: "i32 (int pos + int len) = int (pos + len)" using sm by simp
  have guard: "\<not> (int pos < 0 \<or> int len < 0 \<or> int (pos + len) < 0 \<or> unwritable b \<or> unreadable y)"
    using bstr_rep_writable [OF b] holds_readable [OF y(2)] by simp
  note eq = breplace_def [of A "Some b" "int pos" "int len" a fill, unfolded option.case y(1) Let_def i d0(2)]
  show ?thesis
  proof (cases "length s \<le> pos + len")
    case True
    let ?R = "setstr s pos t fill" and ?r = "replacestr s pos len t fill"
    have r: "?r = take pos (pad s pos fill) @ t" "take (pos + length t) ?R = ?r" "length ?r = pos + length t" using True by (auto simp: replacestr_def setstr_def pad_def)
    have R: "yields A b (bsetstr A (Some b) (int pos) a fill) ?R" using sm a by (intro bsetstr_yields [OF b]) (simp_all add: opt_holds_def)
    then consider (ok) b1 where "bsetstr A (Some b) (int pos) a fill = Inr (0, Some b1)" "bstr_rep b1 ?R"
      | (refused) "\<not> grants A" "bsetstr A (Some b) (int pos) a fill = Inr (-1, Some b)" by (auto simp: yields_def)
    then show ?thesis
    proof cases
      case refused
      then show ?thesis unfolding eq using True guard by (simp add: yields_def)
    next
      case (ok b1)
      have slen: "bs_slen b1 = int (length ?R)" using ok(2) by (rule bstr_repE)
      have "int (length ?R) < 2 ^ 30" using sm by (simp add: length_setstr max_def)
      from arg_len_after [OF a(1) ok(2)] have n: "i32 (int pos + arg_len b1 a) = int pos + arg_len b1 a" using sm \<open>int (length ?R) < 2 ^ 30\<close> by auto
      show ?thesis
      proof (cases "int pos + arg_len b1 a < bs_slen b1")
        case less: True
        then have al: "arg_len b1 a = int (length t)" using arg_len_after [OF a(1) ok(2)] slen by auto
        then have "pos + length t \<le> length ?R" using less slen by simp
        from cut_rep [OF ok(2) this] obtain b' where "store (b1\<lparr> bs_slen := int (pos + length t) \<rparr>) (int (pos + length t)) NUL = Inr (b'\<lparr> bs_slen := int (pos + length t) \<rparr>)"
          "bstr_rep (b'\<lparr> bs_slen := int (pos + length t) \<rparr>) ?r" unfolding r(2) by blast
        then show ?thesis unfolding eq using True guard ok(1) n less al by (simp add: yieldsI)
      next
        case False
        have "?R = ?r"
        proof (cases "arg_len b1 a = int (length t)")
          case True
          then have "length ?R \<le> pos + length t" using False slen by simp
          then show ?thesis using r(2) by simp
        next
          case not: False
          then have "a = Self" using arg_len_after [OF a(1) ok(2)] by simp
          then have "length t = length s" using y d0(2) holds_slen by fastforce
          then show ?thesis using r(2) True by (simp add: length_setstr)
        qed
        then show ?thesis unfolding eq using True guard ok n False by (simp add: yieldsI)
      qed
    qed
  next
    case False
    let ?share = "case arg_offset a of None \<Rightarrow> False | Some pd \<Rightarrow> 0 \<le> pd \<and> pd < int (length s)"
    have share: "?share = aliased b a"
    proof (cases a)
      case (Within pd n)
      then have "n = int (length t)" "0 \<le> pd" "pd + n \<le> int (length s)" using a(1) d0 by (auto simp: arg_holds_def holds_def blk2tbstr_def)
      moreover have "0 < length t" using a(2) Within by simp
      ultimately have "0 \<le> pd" "pd < int (length s)" by linarith+
      then show ?thesis using Within d0(3,4) by (simp add: aliased_def)
    qed (use False d0(3,4) in \<open>auto simp: aliased_def\<close>)
    show ?thesis
    proof (rule unalias_apart [OF a(1), of s A])
      show "bstr_rep b s \<or> (\<exists>p. a = Apart p)" "int (length t) + 1 < 2 ^ 31" using b sm by auto
    next
      assume "\<not> grants A" "unalias A b a (aliased b a) = Inr None"
      then show ?thesis unfolding eq share using False guard by (simp add: yields_def BSTR_ERR_def)
    next
      fix x assume x: "unalias A b a (aliased b a) = Inr (Some (Apart (Some x)))" "holds x t"
      have al: "arg_len b (Apart (Some x)) = int (length t)" using holds_slen [OF x(2)] by (simp add: arg_len_def)
      have eq2: "breplace A (Some b) (int pos) (int len) a fill =
        bind_res (if int (length t) > int len then balloc A (Some b) (i32 (int (length s) + int (length t) - int len)) else Inr (BSTR_OK, Some b))
          (\<lambda>(r, p'). if r \<noteq> BSTR_OK then Inr (BSTR_ERR, p') else breplace_tail b (the p') (int pos) (int len) (Apart (Some x)) (int (length t)))"
        unfolding eq share x(1) bind_res_simps option.case al using False guard by simp
      show ?thesis
      proof (cases "len < length t")
        case False
        from breplace_tail_rep [OF b x(2), of pos len b fill] \<open>\<not> length s \<le> pos + len\<close> False d0(3,4) obtain b' where
          "breplace_tail b b (int pos) (int len) (Apart (Some x)) (int (length t)) = Inr (0, Some b')" "bstr_rep b' (replacestr s pos len t fill)" by auto
        then show ?thesis unfolding eq2 using False by (simp add: BSTR_OK_def yieldsI)
      next
        case grow: True
        let ?n = "int (length s) + int (length t) - int len"
        have n: "i32 ?n = ?n" "0 < ?n" "?n < 2 ^ 30" using sm grow by auto
        show ?thesis
        proof (rule balloc_buf [OF bstr_rep_buf [OF b] n(2), of A])
          show "?n < 2 ^ 31" using n(3) by simp
        next
          fix b1 assume b1: "balloc A (Some b) ?n = Inr (0, Some b1)" "?n < 2 ^ 30 \<Longrightarrow> ?n < bs_mlen b1" "bstr_rep b s \<Longrightarrow> bstr_rep b1 s"
          from breplace_tail_rep [OF b1(3) [OF b] x(2), of pos len b fill] False b1(2) [OF n(3)] obtain b' where
            "breplace_tail b b1 (int pos) (int len) (Apart (Some x)) (int (length t)) = Inr (0, Some b')" "bstr_rep b' (replacestr s pos len t fill)" by auto
          then show ?thesis unfolding eq2 n(1) using grow b1(1) by (simp add: BSTR_OK_def yieldsI)
        next
          assume "\<not> grants A" "balloc A (Some b) ?n = Inr (-1, Some b)"
          then show ?thesis unfolding eq2 n(1) using grow by (simp add: yields_def BSTR_ERR_def BSTR_OK_def)
        qed
      qed
    qed
  qed
qed

end
