(* ===== verification/BstrReplace.thy ===== *)
theory BstrReplace
  imports BstrEdit
begin

text \<open>
  The loops of \<open>findreplaceengine\<close> of \<open>src/myriad/bstring/bstrlib.c\<close>: in place, shrinking and
  expanding, each leaves the leftmost occurrences replaced.
\<close>

section \<open>Replacement on lists\<close>

text \<open>The occurrences of \<open>f\<close> from the left, without overlap, replaced by \<open>r\<close>.\<close>

fun subst :: "(char \<Rightarrow> char \<Rightarrow> bool) \<Rightarrow> string \<Rightarrow> string \<Rightarrow> string \<Rightarrow> string" where
  "subst eq f r [] = []"
| "subst eq f r (c # v) =
     (if match_at eq f (c # v) 0 then r @ subst eq f r (drop (length f - 1) v) else c # subst eq f r v)"

lemma match_at_append [simp]: "match_at eq f (u @ v) (length u + k) = match_at eq f v k"
  by (auto simp: match_at_def nth_append)

lemma match_at_Suc [simp]: "match_at eq f (c # v) (Suc k) = match_at eq f v k"
  using match_at_append [of eq f "[c]" v k] by simp

lemma subst_skip: "\<forall>k<length w. \<not> match_at eq f (w @ v) k \<Longrightarrow> subst eq f r (w @ v) = w @ subst eq f r v"
proof (induction w)
  case (Cons c w)
  have "\<not> match_at eq f (c # w @ v) 0" "\<forall>k<length w. \<not> match_at eq f (w @ v) k" using Cons.prems by auto
  then show ?case using Cons.IH by simp
qed simp

lemma subst_hit:
  assumes "f \<noteq> []" "match_at eq f v 0"
  shows "subst eq f r v = r @ subst eq f r (drop (length f) v)"
proof (cases v)
  case (Cons c v')
  then show ?thesis using assms by (cases f) simp_all
qed (use assms in \<open>simp add: match_at_def\<close>)

text \<open>What the search from the end of \<open>u\<close> finds in \<open>u @ v\<close>.\<close>

lemma first_occ_cases:
  assumes f: "f \<noteq> []"
  obtains (none) "first_occ eq (u @ v) (int (length u)) f = -1" "\<forall>r. subst eq f r v = v"
    | (hit) w m v' where "first_occ eq (u @ v) (int (length u)) f = int (length u + length w)" "v = w @ m @ v'" "length m = length f"
      "\<forall>r. subst eq f r v = w @ r @ subst eq f r v'"
proof -
  let ?L = "[length u..<Suc (length (u @ v)) - length f]"
  have in_L: "length u + k \<in> set ?L" if "match_at eq f v k" for k using that by (auto simp: match_at_def)
  have shift: "match_at eq f (u @ v) (length u + k) = match_at eq f v k" for k by simp
  show thesis
  proof (cases "List.find (match_at eq f (u @ v)) ?L")
    case None
    then have "\<not> match_at eq f v k" for k using in_L [of k] shift [of k] by (auto simp only: find_None_iff)
    then have "subst eq f r v = v" for r using subst_skip [of v eq f "[]" r] by simp
    moreover have "first_occ eq (u @ v) (int (length u)) f = -1" using None by (simp add: first_occ_def found_def BSTR_ERR_def)
    ultimately show thesis by (intro none) simp_all
  next
    case (Some q)
    then obtain i where i: "i < length ?L" "match_at eq f (u @ v) (?L ! i)" "q = ?L ! i" "\<forall>j<i. \<not> match_at eq f (u @ v) (?L ! j)"
      by (auto simp only: find_Some_iff)
    have nth: "?L ! j = length u + j" if "j \<le> i" for j using that i(1) by simp
    have q: "q = length u + i" using nth [of i] i(3) by simp
    have m: "match_at eq f v i" using i(2) nth [of i] shift [of i] by simp
    have no: "\<forall>j<i. \<not> match_at eq f v j" using i(4) nth shift by (metis less_imp_le)
    have len: "i + length f \<le> length v" using m by (simp add: match_at_def)
    let ?w = "take i v" and ?m = "take (length f) (drop i v)" and ?v = "drop (length f) (drop i v)"
    have v: "v = ?w @ drop i v" "drop i v = ?m @ ?v" by (simp_all only: append_take_drop_id)
    have "match_at eq f (drop i v) 0" using match_at_append [of eq f ?w "drop i v" 0] m len by simp
    then have s1: "subst eq f r (drop i v) = r @ subst eq f r ?v" for r by (rule subst_hit [OF f])
    have s2: "subst eq f r v = ?w @ subst eq f r (drop i v)" for r using subst_skip [of ?w eq f "drop i v" r] no len by simp
    have occ: "first_occ eq (u @ v) (int (length u)) f = int (length u + length ?w)"
      using Some q len by (simp add: first_occ_def found_def)
    show thesis
    proof (rule hit [OF occ])
      show "v = ?w @ ?m @ ?v" using v by (metis)
      show "length ?m = length f" using len by simp
      show "\<forall>r. subst eq f r v = ?w @ r @ subst eq f r ?v" using s1 s2 by metis
    qed
  qed
qed

section \<open>The search and the moves on a buffer\<close>

lemma next_hit_rep:
  assumes "bstr_buf b s" "holds x f" "\<And>c. eq c c" "int (length s) < 2 ^ 30" "int (length f) < 2 ^ 30"
  shows "next_hit eq (Apart (Some x)) b pos = Inr (first_occ eq s pos f)"
  using assms by (simp add: next_hit_def instr_first_occ [OF rep_holds])

text \<open>Bytes read and written within the contents of a buffer.\<close>

lemma load_within:
  assumes b: "bstr_buf b (p @ q @ z)"
  shows "load b (int (length p)) (int (length q)) = Inr q"
proof -
  obtain d where d: "bs_data b = Some d" "bs_slen b = int (length (p @ q @ z))" "bs_mlen b = int (length d)" "length (p @ q @ z) \<le> length d"
    "0 < length d" "int (length d) < 2 ^ 31" "take (length (p @ q @ z)) d = (p @ q @ z)" using b by (rule bstr_bufE)
  have d: "d = p @ q @ z @ drop (length (p @ q @ z)) d" using append_take_drop_id [of "length (p @ q @ z)" d] unfolding d(7) append.assoc by (rule sym)
  have "take (length q) (drop (length p) d) = q" by (subst d) simp
  then show ?thesis using load_buf [OF \<open>bs_data b = Some d\<close>, of "length p" "length q"] \<open>length (p @ q @ z) \<le> length d\<close> by simp
qed

lemma memmove_within:
  assumes b: "bstr_buf b (p @ q @ z)" and l: "load x j (int (length t)) = Inr t" "length q = length t"
  obtains b' where "memmove b (int (length p)) x j (int (length t)) = Inr b'" "bstr_buf b' (p @ t @ z)" "bs_mlen b' = bs_mlen b"
    "bstr_rep b (p @ q @ z) \<Longrightarrow> bstr_rep b' (p @ t @ z)"
proof -
  obtain d where d: "bs_data b = Some d" "bs_slen b = int (length (p @ q @ z))" "bs_mlen b = int (length d)" "length (p @ q @ z) \<le> length d"
    "0 < length d" "int (length d) < 2 ^ 31" "take (length (p @ q @ z)) d = (p @ q @ z)" using b by (rule bstr_bufE)
  let ?d = "take (length p) d @ t @ drop (length p + length t) d" and ?n = "length (p @ q @ z)"
  have d: "d = p @ q @ z @ drop ?n d" using append_take_drop_id [of ?n d] unfolding d(7) append.assoc by (rule sym)
  have new: "?d = p @ t @ z @ drop ?n d" using l(2) by (subst (1 2) d) simp
  show thesis
  proof (rule that [of "b\<lparr> bs_data := Some ?d \<rparr>"])
    show "memmove b (int (length p)) x j (int (length t)) = Inr (b\<lparr> bs_data := Some ?d \<rparr>)"
      using l blit_buf [OF \<open>bs_data b = Some d\<close>, of "length p" t] \<open>length (p @ q @ z) \<le> length d\<close> by (simp add: memmove_def)
    have len: "length ?d = length d" using l(2) \<open>length (p @ q @ z) \<le> length d\<close> by simp
    show "bstr_buf (b\<lparr> bs_data := Some ?d \<rparr>) (p @ t @ z)"
      using b l(2) \<open>bs_data b = Some d\<close> len unfolding bstr_buf_def new by auto
    show "bs_mlen (b\<lparr> bs_data := Some ?d \<rparr>) = bs_mlen b" by simp
    assume "bstr_rep b (p @ q @ z)"
    moreover have "?d ! (length p + (length t + length z)) = d ! (length p + (length t + length z))" 
      unfolding new using l(2) by (subst (2) d) (simp add: nth_append)
    ultimately show "bstr_rep (b\<lparr> bs_data := Some ?d \<rparr>) (p @ t @ z)"
      using l(2) \<open>bs_data b = Some d\<close> len unfolding bstr_rep_def new by simp
  qed
qed

lemma arg_len_Apart [simp]: "holds x t \<Longrightarrow> arg_len b (Apart (Some x)) = int (length t)"
  by (simp add: arg_len_def holds_slen)

section \<open>The three loops\<close>

lemma inplace_loop_rep:
  assumes x: "holds x f" and y: "holds y r" and f: "f \<noteq> []" "length r = length f" "int (length f) < 2 ^ 29" and eq: "\<And>c. eq c c"
  shows "bstr_rep b (u @ v) \<Longrightarrow> int (length (u @ v)) < 2 ^ 29 \<Longrightarrow>
    \<exists>b'. inplace_loop eq (Apart (Some x)) (Apart (Some y)) b (int (length u)) = Some (Inr b') \<and> bstr_rep b' (u @ subst eq f r v)"
proof (induction "length v" arbitrary: b u v rule: less_induct)
  case less
  have hit: "next_hit eq (Apart (Some x)) b (int (length u)) = Inr (first_occ eq (u @ v) (int (length u)) f)"
    using less.prems f by (intro next_hit_rep bstr_rep_buf x eq) simp_all
  show ?case
  proof (rule first_occ_cases [OF f(1), of eq u v])
    assume "first_occ eq (u @ v) (int (length u)) f = -1" "\<forall>r. subst eq f r v = v"
    then show ?thesis using hit less.prems by (subst inplace_loop.simps) simp
  next
    fix w m v' assume h: "first_occ eq (u @ v) (int (length u)) f = int (length u + length w)" "v = w @ m @ v'" "length m = length f"
      "\<forall>r. subst eq f r v = w @ r @ subst eq f r v'"
    have b: "bstr_rep b ((u @ w) @ m @ v')" using less.prems(1) h(2) by simp
    obtain b' where b': "memmove b (int (length (u @ w))) y 0 (int (length r)) = Inr b'" "bstr_rep b' ((u @ w) @ r @ v')"
      using memmove_within [OF bstr_rep_buf [OF b] load_holds [OF y]] b h(3) f(2) by auto
    have "int (length u + length w) + int (length f) < 2 ^ 29" using less.prems(2) h(2,3) by simp
    then have pos: "i32 (int (length u + length w) + int (length f)) = int (length (u @ w @ r))" using f(2) by simp
    have "\<exists>b''. inplace_loop eq (Apart (Some x)) (Apart (Some y)) b' (int (length (u @ w @ r))) = Some (Inr b'') \<and> bstr_rep b'' ((u @ w @ r) @ subst eq f r v')"
      using b'(2) h(2,3) f less.prems(2) by (intro less.hyps) simp_all
    then show ?thesis using hit h(1,4) b'(1) pos x y by (subst inplace_loop.simps) simp
  qed
qed

text \<open>While shrinking the buffer holds what is done, \<open>acc\<close> bytes that are free, and what is left.\<close>

lemma shrink_step_rep:
  assumes b: "bstr_rep b (p @ j @ w @ m @ v)" and y: "holds y r" and len: "length r < length m"
  obtains b' j' where "shrink_step (Apart (Some y)) b (int (length p + length j)) (int (length j)) (int (length p + length j + length w)) = Inr b'"
    "bstr_rep b' ((p @ w @ r) @ j' @ v)" "length j' = length j + (length m - length r)"
proof -
  obtain b1 k where b1: "(if int (length j) \<noteq> 0 \<and> int (length p + length j + length w) > int (length p + length j)
      then memmove b (int (length p)) b (int (length p + length j)) (int (length w)) else Inr b) = Inr b1"
    "bstr_rep b1 ((p @ w) @ k @ v)" "length k = length j + length m"
  proof (cases "j \<noteq> [] \<and> w \<noteq> []")
    case True
    have l: "load b (int (length p + length j)) (int (length w)) = Inr w" using load_within [of b "p @ j" w "m @ v"] bstr_rep_buf [OF b] by simp
    have ql: "length (take (length w) (j @ w)) = length w" by (simp del: take_append)
    have b2: "bstr_rep b (p @ take (length w) (j @ w) @ drop (length w) (j @ w) @ m @ v)" using b by (metis append.assoc append_take_drop_id)
    obtain b' where "memmove b (int (length p)) b (int (length p + length j)) (int (length w)) = Inr b'"
      "bstr_rep b' (p @ w @ drop (length w) (j @ w) @ m @ v)"
      using memmove_within [OF bstr_rep_buf [OF b2] l ql] b2 by blast
    then show thesis using True by (intro that [of b' "drop (length w) (j @ w) @ m"]) simp_all
  next
    case False
    then have "p @ j @ w @ m @ v = (p @ w) @ (j @ m) @ v" by auto
    then show thesis using False b by (intro that [of b "j @ m"]) auto
  qed
  obtain b' where b': "(if int (length r) \<noteq> 0 then memmove b1 (int (length (p @ w))) y 0 (int (length r)) else Inr b1) = Inr b'"
    "bstr_rep b' ((p @ w) @ r @ drop (length r) k @ v)"
  proof (cases "r = []")
    case False
    have b2: "bstr_rep b1 ((p @ w) @ take (length r) k @ drop (length r) k @ v)" using b1(2) by (metis append.assoc append_take_drop_id)
    show thesis using memmove_within [OF bstr_rep_buf [OF b2] load_holds [OF y]] b2 b1(3) len False that by auto
  qed (use b1(2) that in auto)
  have mv: "int (length p + length j) - int (length j) = int (length p)" "int (length p + length j + length w) - int (length p + length j) = int (length w)"
    "int (length p + length j + length w) - int (length j) = int (length (p @ w))" by simp_all
  show thesis
  proof (rule that)
    show "shrink_step (Apart (Some y)) b (int (length p + length j)) (int (length j)) (int (length p + length j + length w)) = Inr b'"
      unfolding shrink_step_def mv b1(1) bind_res_simps using b'(1) y by (simp del: of_nat_add split: if_splits)
    show "bstr_rep b' ((p @ w @ r) @ drop (length r) k @ v)" using b'(2) by simp
    show "length (drop (length r) k) = length j + (length m - length r)" using b1(3) len by simp
  qed
qed

lemma shrink_loop_rep:
  assumes x: "holds x f" and y: "holds y r" and f: "length r < length f" "int (length f) < 2 ^ 29" and eq: "\<And>c. eq c c"
  shows "bstr_rep b (p @ j @ v) \<Longrightarrow> int (length (p @ j @ v)) < 2 ^ 29 \<Longrightarrow>
    \<exists>b' p' j' v'. shrink_loop eq (Apart (Some x)) (Apart (Some y)) (int (length f) - int (length r)) b (int (length p + length j)) (int (length j)) =
        Some (Inr (b', int (length p' + length j'), int (length j'))) \<and>
      bstr_rep b' (p' @ j' @ v') \<and> p' @ v' = p @ subst eq f r v \<and> length (p' @ j' @ v') = length (p @ j @ v)"
proof (induction "length v" arbitrary: b p j v rule: less_induct)
  case less
  have f0: "f \<noteq> []" using f(1) by auto
  have hit: "next_hit eq (Apart (Some x)) b (int (length p + length j)) = Inr (first_occ eq ((p @ j) @ v) (int (length (p @ j))) f)"
    using less.prems f next_hit_rep [of b "p @ j @ v" x f eq "int (length p + length j)"] bstr_rep_buf x eq by simp
  show ?case
  proof (rule first_occ_cases [OF f0, of eq "p @ j" v])
    assume n: "first_occ eq ((p @ j) @ v) (int (length (p @ j))) f = -1" "\<forall>r. subst eq f r v = v"
    show ?thesis
    proof (intro exI conjI)
      show "shrink_loop eq (Apart (Some x)) (Apart (Some y)) (int (length f) - int (length r)) b (int (length p + length j)) (int (length j)) =
        Some (Inr (b, int (length p + length j), int (length j)))" using n hit by (subst shrink_loop.simps) simp
    qed (use less.prems n in simp_all)
  next
    fix w m v' assume h: "first_occ eq ((p @ j) @ v) (int (length (p @ j))) f = int (length (p @ j) + length w)" "v = w @ m @ v'" "length m = length f"
      "\<forall>r. subst eq f r v = w @ r @ subst eq f r v'"
    have b: "bstr_rep b (p @ j @ w @ m @ v')" using less.prems(1) h(2) by simp
    have len: "length r < length m" using f(1) h(3) by simp
    obtain b' j' where s: "shrink_step (Apart (Some y)) b (int (length p + length j)) (int (length j)) (int (length p + length j + length w)) = Inr b'"
      "bstr_rep b' ((p @ w @ r) @ j' @ v')" "length j' = length j + (length m - length r)" by (rule shrink_step_rep [OF b y len])
    have small: "int (length p + length j + length w) + int (length f) < 2 ^ 29" using less.prems(2) h(2,3) by simp
    then have pos: "i32 (int (length p + length j + length w) + int (length f)) = int (length (p @ w @ r) + length j')" using s(3) h(3) f(1) by simp
    have acc: "i32 (int (length j) + (int (length f) - int (length r))) = int (length j')" using small s(3) h(3) f(1) by simp
    have "\<exists>b'' p' j'' v''. shrink_loop eq (Apart (Some x)) (Apart (Some y)) (int (length f) - int (length r)) b' (int (length (p @ w @ r) + length j')) (int (length j')) =
        Some (Inr (b'', int (length p' + length j''), int (length j''))) \<and>
      bstr_rep b'' (p' @ j'' @ v'') \<and> p' @ v'' = (p @ w @ r) @ subst eq f r v' \<and> length (p' @ j'' @ v'') = length ((p @ w @ r) @ j' @ v')"
      using s h f f0 less.prems(2) by (intro less.hyps) simp_all
    moreover have "length ((p @ w @ r) @ j' @ v') = length (p @ j @ v)" using s(3) h(2,3) f(1) by simp
    moreover have "shrink_loop eq (Apart (Some x)) (Apart (Some y)) (int (length f) - int (length r)) b (int (length p + length j)) (int (length j)) =
      shrink_loop eq (Apart (Some x)) (Apart (Some y)) (int (length f) - int (length r)) b' (int (length (p @ w @ r) + length j')) (int (length j'))"
      using hit h(1) s(1) pos acc x by (subst shrink_loop.simps) (simp add: add.assoc)
    ultimately show ?thesis using h(4) by simp
  qed
qed

lemma shrink_end_rep:
  assumes b: "bstr_rep b (p @ j @ v)" and len: "int (length (p @ j @ v)) < 2 ^ 30"
  obtains b' where "shrink_end b (int (length p + length j)) (int (length j)) = Inr (0, Some b')" "bstr_rep b' (p @ v)"
proof (cases "j = []")
  case True
  then show thesis using b by (intro that [of b]) (simp_all add: shrink_end_def)
next
  case False
  have slen: "bs_slen b = int (length p + length j) + int (length v)" using b by (rule bstr_repE) simp
  obtain b1 k where b1: "(if bs_slen b > int (length p + length j)
      then memmove b (int (length p)) b (int (length p + length j)) (int (length v)) else Inr b) = Inr b1"
    "bstr_rep b1 (p @ v @ k)" "length k = length j"
  proof (cases "v = []")
    case True
    then show thesis using slen b by (intro that [of b j]) simp_all
  next
    case v: False
    have l: "load b (int (length p + length j)) (int (length v)) = Inr v" using load_within [of b "p @ j" v "[]"] bstr_rep_buf [OF b] by simp
    have ql: "length (take (length v) (j @ v)) = length v" by (simp del: take_append)
    have b2: "bstr_rep b (p @ take (length v) (j @ v) @ drop (length v) (j @ v))" using b by (metis append_take_drop_id)
    obtain b' where "memmove b (int (length p)) b (int (length p + length j)) (int (length v)) = Inr b'"
      "bstr_rep b' (p @ v @ drop (length v) (j @ v))"
      using memmove_within [OF bstr_rep_buf [OF b2] l ql] b2 by blast
    then show thesis using slen v by (intro that [of b' "drop (length v) (j @ v)"]) (simp_all del: drop_append)
  qed
  have slen1: "bs_slen b1 = int (length (p @ v @ k))" using b1(2) by (rule bstr_repE)
  have n: "i32 (int (length (p @ v @ k)) - int (length j)) = int (length (p @ v))" using b1(3) len by simp
  obtain b' where b': "\<And>l. store (b1\<lparr> bs_slen := l \<rparr>) (int (length (p @ v))) NUL = Inr (b'\<lparr> bs_slen := l \<rparr>)"
    "bstr_rep (b'\<lparr> bs_slen := int (length (p @ v)) \<rparr>) (take (length (p @ v)) (p @ v @ k))" using cut_rep [OF b1(2), of "length (p @ v)"] by auto
  show thesis
  proof (rule that)
    have mv: "int (length p + length j) - int (length j) = int (length p)" "bs_slen b - int (length p + length j) = int (length v)" using slen by simp_all
    show "shrink_end b (int (length p + length j)) (int (length j)) = Inr (0, Some (b'\<lparr> bs_slen := int (length (p @ v)) \<rparr>))"
      unfolding shrink_end_def mv b1(1) bind_res_simps slen1 n Let_def b'(1) using False by simp
    show "bstr_rep (b'\<lparr> bs_slen := int (length (p @ v)) \<rparr>) (p @ v)" using b'(2) by simp
  qed
qed

text \<open>The parts of a string: what is kept and what is replaced, in turn.\<close>

definition parts :: "(string \<times> string) list \<Rightarrow> string" where
  "parts ws = concat (List.map (\<lambda>(w, m). w @ m) ws)"

definition parts_with :: "string \<Rightarrow> (string \<times> string) list \<Rightarrow> string" where
  "parts_with r ws = concat (List.map (\<lambda>(w, m). w @ r) ws)"

fun hits_at :: "nat \<Rightarrow> (string \<times> string) list \<Rightarrow> int list" where
  "hits_at n [] = []"
| "hits_at n ((w, m) # ws) = int (n + length w) # hits_at (n + length w + length m) ws"

lemma parts_simps [simp]:
  "parts [] = []" "parts ((w, m) # ws) = w @ m @ parts ws" "parts (ws @ [(w, m)]) = parts ws @ w @ m"
  "parts_with r [] = []" "parts_with r ((w, m) # ws) = w @ r @ parts_with r ws" "parts_with r (ws @ [(w, m)]) = parts_with r ws @ w @ r"
  by (simp_all add: parts_def parts_with_def)

lemma hits_at_snoc: "hits_at n (ws @ [(w, m)]) = hits_at n ws @ [int (n + length (parts ws) + length w)]"
  by (induction n ws rule: hits_at.induct) (simp_all add: add.assoc)

lemma collect_loop_rep:
  assumes x: "holds x f" and f: "f \<noteq> []" "int (length f) < 2 ^ 26" and eq: "\<And>c. eq c c" and k: "0 \<le> k"
  shows "bstr_rep b (u @ v) \<Longrightarrow> int (length (u @ v)) < 2 ^ 26 \<Longrightarrow> 0 \<le> acc \<Longrightarrow> acc + int (length v) * k < 2 ^ 30 \<Longrightarrow>
    32 \<le> mlen \<Longrightarrow> mlen \<le> 32 + 2 * int (length d) \<Longrightarrow> length d \<le> length u \<Longrightarrow>
    (\<exists>ws z. collect_loop A eq (Apart (Some x)) (- k) b (int (length u)) acc mlen d = Some (Inr (Some (d @ hits_at (length u) ws, acc + int (length ws) * k))) \<and>
       v = parts ws @ z \<and> (\<forall>(w, m) \<in> set ws. length m = length f) \<and> (\<forall>r. subst eq f r v = parts_with r ws @ z)) \<or>
    \<not> grants A \<and> collect_loop A eq (Apart (Some x)) (- k) b (int (length u)) acc mlen d = Some (Inr None)"
proof (induction "length v" arbitrary: u v acc mlen d rule: less_induct)
  case less
  let ?c = "collect_loop A eq (Apart (Some x)) (- k) b"
  have hit: "next_hit eq (Apart (Some x)) b (int (length u)) = Inr (first_occ eq (u @ v) (int (length u)) f)"
    using less.prems f by (intro next_hit_rep bstr_rep_buf x eq) simp_all
  show ?case
  proof (rule first_occ_cases [OF f(1), of eq u v])
    assume n: "first_occ eq (u @ v) (int (length u)) f = -1" "\<forall>r. subst eq f r v = v"
    have "?c (int (length u)) acc mlen d = Some (Inr (Some (d, acc)))" using hit n by (subst collect_loop.simps) simp
    then show ?thesis using n by (intro disjI1 exI [of _ "[]"] exI [of _ v]) simp
  next
    fix w m v' assume h: "first_occ eq (u @ v) (int (length u)) f = int (length u + length w)" "v = w @ m @ v'" "length m = length f"
      "\<forall>r. subst eq f r v = w @ r @ subst eq f r v'"
    let ?u = "u @ w @ m" and ?d = "d @ [int (length u + length w)]"
    define full where "full \<longleftrightarrow> int (length d) + 1 \<ge> mlen"
    define ml where "ml = (if full then mlen + mlen else mlen)"
    have ml: "32 \<le> ml" "ml \<le> 32 + 2 * int (length ?d)" using less.prems by (auto simp: ml_def full_def)
    have "int (length d) < 2 ^ 26" using less.prems by simp
    then have sl: "i32 (8 * ml) = 8 * ml" "0 \<le> 8 * ml" "8 * ml < 2 ^ 31" using ml by simp_all
    have i: "(if full then i32 (mlen + mlen) else mlen) = ml" using sl ml(1) by (auto simp: ml_def)
    have f1: "1 \<le> int (length f)" using f(1) by (cases f) simp_all
    have "1 * k \<le> int (length v) * k" using h(2,3) f1 k by (intro mult_right_mono) auto
    then have acc: "i32 (acc + k) = acc + k" "0 \<le> acc + k" using less.prems k by simp_all
    have pos: "i32 (int (length u + length w) + int (length f)) = int (length ?u)" using less.prems(2) h(2,3) by simp
    have step: "?c (int (length u)) acc mlen d = (if full \<and> \<not> a_realloc A (8 * ml) then Some (Inr None) else ?c (int (length ?u)) (acc + k) ml ?d)"
      using hit h(1) x by (subst collect_loop.simps) (simp add: i sl acc pos Let_def ml(1) flip: full_def del: of_nat_add length_append, use ml acc(2) in simp)
    have "acc + k + int (length v') * k \<le> acc + int (length v) * k"
    proof -
      have "(1 + int (length v')) * k \<le> int (length v) * k" using h(2,3) f1 k by (intro mult_right_mono) auto
      then show ?thesis by (simp add: distrib_right)
    qed
    then have rest: "acc + k + int (length v') * k < 2 ^ 30" using less.prems(4) by simp
    have nd: "length ?d \<le> length ?u" using less.prems(7) h(3) f1 by simp
    have IH: "(\<exists>ws z. ?c (int (length ?u)) (acc + k) ml ?d = Some (Inr (Some (?d @ hits_at (length ?u) ws, acc + k + int (length ws) * k))) \<and>
       v' = parts ws @ z \<and> (\<forall>(w, m) \<in> set ws. length m = length f) \<and> (\<forall>r. subst eq f r v' = parts_with r ws @ z)) \<or>
      \<not> grants A \<and> ?c (int (length ?u)) (acc + k) ml ?d = Some (Inr None)"
      using less.prems(1,2) h(2,3) f(1) by (intro less.hyps [OF _ _ _ acc(2) rest ml nd]) simp_all
    show ?thesis
    proof (cases "full \<and> \<not> a_realloc A (8 * ml)")
      case True
      then have "\<not> grants A" using sl unfolding grants_def by blast
      then show ?thesis using step True by simp
    next
      case False
      have step: "?c (int (length u)) acc mlen d = ?c (int (length ?u)) (acc + k) ml ?d" unfolding step if_not_P [OF False] ..
      from IH show ?thesis
      proof (elim disjE exE conjE)
        fix ws z assume ws: "?c (int (length ?u)) (acc + k) ml ?d = Some (Inr (Some (?d @ hits_at (length ?u) ws, acc + k + int (length ws) * k)))"
          "v' = parts ws @ z" "\<forall>(w, m) \<in> set ws. length m = length f" "\<forall>r. subst eq f r v' = parts_with r ws @ z"
        show ?thesis unfolding step ws(1) using ws(2-4) h by (intro disjI1 exI [of _ "(w, m) # ws"] exI [of _ z]) (simp add: distrib_right add.assoc)
      qed (use step in simp)
    qed
  qed
qed

text \<open>While expanding the buffer holds what is left, \<open>acc\<close> bytes that are free, and what is done.\<close>

lemma expand_loop_rep:
  assumes y: "holds y r" "r \<noteq> []" and k: "length r = length f + k"
  shows "bstr_buf b (u @ parts ws @ z @ j @ done) \<Longrightarrow> \<forall>(w, m) \<in> set ws. length m = length f \<Longrightarrow> length j = length ws * k \<Longrightarrow>
    \<exists>b'. expand_loop y (int (length f)) b (- int k) (int (length j)) (int (length (u @ parts ws @ z))) (rev (hits_at (length u) ws)) = Inr b' \<and>
      bstr_buf b' (u @ parts_with r ws @ z @ done) \<and> bs_mlen b' = bs_mlen b"
proof (induction ws arbitrary: b z j "done" rule: rev_induct)
  case Nil
  then show ?case by simp
next
  case (snoc wm ws)
  obtain w m where wm: "wm = (w, m)" by (cases wm)
  let ?o = "u @ parts ws @ w"
  have m: "length m = length f" "\<forall>(w, m) \<in> set ws. length m = length f" using snoc.prems(2) wm by auto
  have b: "bstr_buf b (?o @ m @ z @ j @ done)" using snoc.prems(1) wm by simp
  let ?s = "length ?o + length f"
  obtain b1 k1 where b1: "(if int (length z) \<noteq> 0 then memmove b (int (?s + length j)) b (int ?s) (int (length z)) else Inr b) = Inr b1"
    "bstr_buf b1 ((?o @ k1) @ z @ done)" "length k1 = length f + length j" "bs_mlen b1 = bs_mlen b"
  proof (cases "z = []")
    case True
    then show thesis using b m(1) by (intro that [of b "m @ j"]) simp_all
  next
    case False
    have l: "load b (int ?s) (int (length z)) = Inr z" using load_within [of b "?o @ m" z "j @ done"] b m(1) by (simp add: add.assoc)
    have ql: "length (drop (length j) (z @ j)) = length z" by (simp del: drop_append)
    have e: "z @ j @ done = take (length j) (z @ j) @ drop (length j) (z @ j) @ done" by (metis append.assoc append_take_drop_id)
    have b2: "bstr_buf b ((?o @ m @ take (length j) (z @ j)) @ drop (length j) (z @ j) @ done)" using b [unfolded e] by (simp only: append.assoc)
    have len: "length (?o @ m @ take (length j) (z @ j)) = ?s + length j" using m(1) by (simp del: take_append)
    show thesis
    proof (rule memmove_within [OF b2 l ql, unfolded len])
      fix b' assume "memmove b (int (?s + length j)) b (int ?s) (int (length z)) = Inr b'" "bs_mlen b' = bs_mlen b"
        "bstr_buf b' ((?o @ m @ take (length j) (z @ j)) @ z @ done)"
      then show thesis using False m(1) by (intro that [of b' "m @ take (length j) (z @ j)"]) (simp_all del: take_append of_nat_add)
    qed
  qed
  have j: "length j = k + length ws * k" using snoc.prems(3) by simp
  define j' where "j' = take (length ws * k) k1"
  have lens: "length j' = length ws * k" "length (drop (length ws * k) k1) = length r" using b1(3) j k by (simp_all add: j'_def)
  have k1: "k1 = j' @ drop (length ws * k) k1" by (simp add: j'_def)
  have "bstr_buf b1 ((?o @ j') @ drop (length ws * k) k1 @ z @ done)" using b1(2) by (subst (asm) k1) (simp only: append.assoc)
  from memmove_within [OF this load_holds [OF y(1)] lens(2)] obtain b2 where b2: "memmove b1 (int (length (?o @ j'))) y 0 (int (length r)) = Inr b2"
    "bstr_buf b2 ((?o @ j') @ r @ z @ done)" "bs_mlen b2 = bs_mlen b1" by blast
  have b2': "(if bs_slen y \<noteq> 0 then memmove b1 (int (length (?o @ j'))) y 0 (bs_slen y) else Inr b1) = Inr b2"
    using b2(1) y(2) holds_slen [OF y(1)] by simp
  have IH: "\<exists>b'. expand_loop y (int (length f)) b2 (- int k) (int (length j')) (int (length (u @ parts ws @ w))) (rev (hits_at (length u) ws)) = Inr b' \<and>
      bstr_buf b' (u @ parts_with r ws @ w @ r @ z @ done) \<and> bs_mlen b' = bs_mlen b2"
    using b2(2) m(2) lens(1) by (intro snoc.IH) simp_all
  have eqs: "int (length ?o) + int (length f) = int ?s" "int (length (u @ parts (ws @ [wm]) @ z)) - int ?s = int (length z)"
    "int ?s + int (length j) = int (?s + length j)" "int (?s + length j) - bs_slen y = int (length (?o @ j'))" "int (length j) + - int k = int (length j')"
    using wm m(1) lens(1) j k holds_slen [OF y(1)] by simp_all
  have h: "rev (hits_at (length u) (ws @ [wm])) = int (length ?o) # rev (hits_at (length u) ws)" by (simp add: wm hits_at_snoc)
  show ?case unfolding h expand_loop.simps Let_def eqs b1(1) bind_res_simps b2' using IH b1(4) b2(3) wm by simp
qed

section \<open>Replacing all occurrences\<close>

text \<open>An argument that lies in the buffer is copied when it reaches past \<open>pos\<close>.\<close>

definition reaches :: "tagbstring \<Rightarrow> nat \<Rightarrow> barg \<Rightarrow> bool" where
  "reaches b pos a = (case a of Within pd n \<Rightarrow> int pos < pd + n \<and> pd < bs_slen b | _ \<Rightarrow> True)"

lemma shares_aliased:
  assumes b: "bstr_rep b s" and a: "arg_holds b a t" "arg_ptr b a = Some x" "reaches b pos a" and pos: "pos < length s"
  shows "(case arg_offset a of None \<Rightarrow> False | Some pd \<Rightarrow> int pos - bs_slen x < pd \<and> pd < bs_slen b) = aliased b a"
proof -
  obtain d where d: "bs_data b = Some d" "bs_slen b = int (length s)" "bs_mlen b = int (length d)" "length s < length d"
    "int (length d) < 2 ^ 31" "take (length s) d = s" "d ! length s = NUL" using b by (rule bstr_repE)
  show ?thesis
  proof (cases a)
    case (Within pd n)
    then have "bs_slen x = n" "0 \<le> pd" using a by (auto simp: arg_holds_def blk2tbstr_def)
    then show ?thesis using Within a(3) d by (simp add: reaches_def aliased_def)
  qed (use a d pos in \<open>auto simp: aliased_def\<close>)
qed

lemma expand_yields:
  assumes b: "bstr_rep b (u @ parts ws @ z)" and y: "holds y r" and f: "f \<noteq> []" "length r = length f + k"
    and m: "\<forall>(w, m) \<in> set ws. length m = length f" and len: "int (length (u @ parts ws @ z)) + int (length ws * k) + 1 < 2 ^ 30"
  shows "yields A b (bind_res (balloc A (Some b) (i32 (bs_slen b + int (length ws * k) + 1))) (\<lambda>(ret, p').
     if ret \<noteq> BSTR_OK then Inr (ret, p')
     else bind_res (arg_after b (the p') (Apart (Some y))) (\<lambda>x.
       bind_res (expand_loop (the x) (int (length f)) ((the p')\<lparr> bs_slen := bs_slen b + int (length ws * k) \<rparr>) (- int k) (int (length ws * k)) (bs_slen b) (rev (hits_at (length u) ws))) (\<lambda>b.
       bind_res (store b (bs_slen b) NUL) (\<lambda>b. Inr (ret, Some b)))))) (u @ parts_with r ws @ z)"
proof -
  let ?s = "u @ parts ws @ z" and ?r = "u @ parts_with r ws @ z"
  let ?n = "int (length ?s) + int (length ws * k) + 1"
  have slen: "bs_slen b = int (length ?s)" using b by (rule bstr_repE)
  have n: "i32 ?n = ?n" "0 < ?n" "?n < 2 ^ 31" using len by simp_all
  show ?thesis
  proof (rule balloc_buf [OF bstr_rep_buf [OF b] n(2,3), of A])
    assume "\<not> grants A" "balloc A (Some b) ?n = Inr (-1, Some b)"
    then show ?thesis unfolding slen n(1) by (simp add: yields_def BSTR_OK_def)
  next
    fix b1 assume b1: "balloc A (Some b) ?n = Inr (0, Some b1)" "bstr_buf b1 ?s" "?n \<le> bs_mlen b1"
    obtain e where e: "bs_data b1 = Some e" "bs_slen b1 = int (length (u @ parts ws @ z))" "bs_mlen b1 = int (length e)" "length (u @ parts ws @ z) \<le> length e"
    "0 < length e" "int (length e) < 2 ^ 31" "take (length (u @ parts ws @ z)) e = (u @ parts ws @ z)" using b1(2) by (rule bstr_bufE)
    define j where "j = take (length ws * k) (drop (length ?s) e)"
    have room: "length ?s + length ws * k < length e" using b1(3) e(3) by linarith
    then have lj: "length j = length ws * k" by (simp add: j_def)
    let ?b = "b1\<lparr> bs_slen := int (length ?s) + int (length ws * k) \<rparr>"
    have lsj: "length (u @ parts ws @ z @ j) = length ?s + length ws * k" using lj by simp
    have "take (length (u @ parts ws @ z @ j)) e = u @ parts ws @ z @ j" unfolding lsj unfolding take_add e(7) j_def append.assoc ..
    then have buf: "bstr_buf ?b (u @ parts ws @ z @ j @ [])" using e lj room by (simp add: bstr_buf_def)
    have r: "r \<noteq> []" using f by auto
    from expand_loop_rep [OF y r f(2) buf m lj] obtain b2 where b2:
      "expand_loop y (int (length f)) ?b (- int k) (int (length ws * k)) (int (length ?s)) (rev (hits_at (length u) ws)) = Inr b2"
      "bstr_buf b2 ?r" "bs_mlen b2 = bs_mlen b1" using lj by auto
    obtain g where g: "bs_data b2 = Some g" "bs_slen b2 = int (length (u @ parts_with r ws @ z))" "bs_mlen b2 = int (length g)" "length (u @ parts_with r ws @ z) \<le> length g"
    "0 < length g" "int (length g) < 2 ^ 31" "take (length (u @ parts_with r ws @ z)) g = (u @ parts_with r ws @ z)" using b2(2) by (rule bstr_bufE)
    have "length ?r = length ?s + length ws * k" using m f(2) by (induction ws) auto
    then have lt: "length ?r < length g" using b1(3) b2(3) g(3) by linarith
    have "b2 = b2\<lparr> bs_slen := int (length ?r), bs_data := Some g \<rparr>" using g by simp
    then obtain b3 where b3: "store b2 (bs_slen b2) NUL = Inr b3" "bstr_rep b3 ?r"
      using finish [OF refl lt g(7,3,6)] g(2) by metis
    show ?thesis unfolding slen n(1) b1(1) bind_res_simps prod.case option.sel arg_after_def using b2(1) b3
      by (simp add: yieldsI BSTR_OK_def)
  qed
qed

lemma replace_loops_yields:
  assumes b: "bstr_rep b s" and x: "holds x f" and y: "holds y r" and f: "f \<noteq> []" and eq: "\<And>c. eq c c" and pos: "pos \<le> length s"
    and len: "int (length s) < 2 ^ 26" "int (length f) < 2 ^ 26" "int (length r) < 2 ^ 26" "int (length s) * int (length r) < 2 ^ 29"
  shows "\<exists>res. replace_loops A eq b (Apart (Some x)) (Apart (Some y)) (int pos) = Some res \<and> yields A b res (take pos s @ subst eq f r (drop pos s))"
proof -
  let ?u = "take pos s" and ?v = "drop pos s" and ?delta = "int (length f) - int (length r)"
  have u: "length ?u = pos" using pos by simp
  have b': "bstr_rep b (?u @ ?v)" using b by simp
  have delta: "i32 ?delta = ?delta" using len by simp
  note def = replace_loops_def [of A eq b "Apart (Some x)" "Apart (Some y)" "int pos", unfolded Let_def arg_len_Apart [OF x] arg_len_Apart [OF y] delta]
  consider (same) "length r = length f" | (less) "length r < length f" | (more) k where "length r = length f + k" "0 < k"
    by (metis less_imp_add_positive linorder_neqE_nat)
  then show ?thesis
  proof cases
    case same
    then obtain b1 where "inplace_loop eq (Apart (Some x)) (Apart (Some y)) b (int pos) = Some (Inr b1)" "bstr_rep b1 (?u @ subst eq f r ?v)"
      using inplace_loop_rep [of x f y r eq b ?u ?v] x y f same eq b len u by auto
    then show ?thesis unfolding def using same by (simp add: yieldsI)
  next
    case less
    obtain b1 p j v where b1: "shrink_loop eq (Apart (Some x)) (Apart (Some y)) ?delta b (int pos) 0 = Some (Inr (b1, int (length p + length j), int (length j)))"
      "bstr_rep b1 (p @ j @ v)" "p @ v = ?u @ subst eq f r ?v" "length (p @ j @ v) = length s"
      using shrink_loop_rep [of x f y r eq b ?u "[]" ?v] x y f less eq b len u by auto
    then obtain b2 where "shrink_end b1 (int (length p + length j)) (int (length j)) = Inr (0, Some b2)" "bstr_rep b2 (p @ v)"
      using shrink_end_rep [OF b1(2)] len(1) by (auto simp: b1(4))
    then show ?thesis unfolding def b1(1) bind_opt_simps prod.case using less b1(3) by (simp add: yieldsI)
  next
    case (more k)
    have d: "?delta = - int k" using more by simp
    have "int (length ?v) * int k \<le> int (length s) * int (length r)" using more by (intro mult_mono) simp_all
    then have bound: "0 + int (length ?v) * int k < 2 ^ 30" using len(4) by simp
    have "(\<exists>ws z. collect_loop A eq (Apart (Some x)) (- int k) b (int (length ?u)) 0 32 [] = Some (Inr (Some ([] @ hits_at (length ?u) ws, 0 + int (length ws) * int k))) \<and>
       ?v = parts ws @ z \<and> (\<forall>(w, m) \<in> set ws. length m = length f) \<and> (\<forall>r. subst eq f r ?v = parts_with r ws @ z)) \<or>
      \<not> grants A \<and> collect_loop A eq (Apart (Some x)) (- int k) b (int (length ?u)) 0 32 [] = Some (Inr None)"
      using len by (intro collect_loop_rep [OF x f _ eq _ b' _ _ bound]) simp_all
    then show ?thesis
    proof (elim disjE exE conjE)
      fix ws z assume c: "collect_loop A eq (Apart (Some x)) (- int k) b (int (length ?u)) 0 32 [] = Some (Inr (Some ([] @ hits_at (length ?u) ws, 0 + int (length ws) * int k)))"
        "?v = parts ws @ z" "\<forall>(w, m) \<in> set ws. length m = length f" "\<forall>r. subst eq f r ?v = parts_with r ws @ z"
      have f1: "1 \<le> length f" using f by (cases f) simp_all
      have "length ws \<le> length (parts ws)" using c(3) by (induction ws) (use f1 in auto)
      also have "\<dots> \<le> length s" using arg_cong [OF c(2), of length] by simp
      finally have "int (length ws * k) \<le> int (length s) * int (length r)" using more by (simp add: mult_mono)
      then have bnd: "int (length (?u @ parts ws @ z)) + int (length ws * k) + 1 < 2 ^ 30" using len unfolding c(2) [symmetric] append_take_drop_id by simp
      have b2: "bstr_rep b (?u @ parts ws @ z)" using b' c(2) by simp
      note y = expand_yields [OF b2 y f more(1) c(3) bnd, of A, unfolded u of_nat_mult]
      show ?thesis unfolding def d using more y c(1,4) u by simp
    next
      assume "\<not> grants A" "collect_loop A eq (Apart (Some x)) (- int k) b (int (length ?u)) 0 32 [] = Some (Inr None)"
      then show ?thesis unfolding def d using more u by (simp add: yields_def BSTR_ERR_def)
    qed
  qed
qed

lemma findreplaceengine_yields:
  assumes b: "bstr_rep b s" and a: "arg_holds b a f" "reaches b pos a" and c: "arg_holds b c r" "reaches b pos c" and f: "f \<noteq> []" and eq: "\<And>c. eq c c"
    and len: "int (length s) < 2 ^ 26" "int (length f) < 2 ^ 26" "int (length r) < 2 ^ 26" "int (length s) * int (length r) < 2 ^ 29"
  shows "\<exists>res. findreplaceengine A eq (Some b) a c (int pos) = Some res \<and> yields A b res (take pos s @ subst eq f r (drop pos s))"
proof -
  obtain x where x: "arg_ptr b a = Some x" "holds x f" using a(1) by (rule arg_holdsE)
  obtain y where y: "arg_ptr b c = Some y" "holds y r" using c(1) by (rule arg_holdsE)
  have slen: "bs_slen b = int (length s)" using b by (rule bstr_repE)
  have guard: "\<not> (unwritable b \<or> bs_data x = None \<or> bs_data y = None \<or> int pos < 0 \<or> bs_slen x \<le> 0 \<or> bs_slen y < 0)"
    using bstr_rep_writable [OF b] holds_fields [OF x(2)] holds_fields [OF y(2)] f by simp
  have diff: "i32 (bs_slen b - bs_slen x) = int (length s) - int (length f)" using slen holds_slen [OF x(2)] len by simp
  note def = findreplaceengine_def [of A eq "Some b" a c "int pos", unfolded option.case x(1) y(1) prod.case Let_def diff if_not_P [OF guard]]
  show ?thesis
  proof (cases "int pos > int (length s) - int (length f)")
    case True
    then have "\<not> k + length f \<le> length (drop pos s)" for k using f by (cases f) auto
    then have "\<not> match_at eq f (drop pos s) k" for k by (simp add: match_at_def)
    then have "subst eq f r (drop pos s) = drop pos s" using subst_skip [of "drop pos s" eq f "[]" r] by simp
    then show ?thesis unfolding def using True yieldsI [OF b] by simp
  next
    case False
    then have pos: "pos < length s" using f by (cases f) auto
    note sh = shares_aliased [OF b a(1) x(1) a(2) pos] shares_aliased [OF b c(1) y(1) c(2) pos]
    note def = def [unfolded sh if_not_P [OF False]]
    have l: "int (length f) + 1 < 2 ^ 31" "int (length r) + 1 < 2 ^ 31" using len by simp_all
    show ?thesis
    proof (rule unalias_apart [OF a(1) disjI1 [OF b] l(1), of A])
      assume "\<not> grants A" "unalias A b a (aliased b a) = Inr None"
      then show ?thesis unfolding def by (simp add: yields_def BSTR_ERR_def)
    next
      fix x' assume x': "unalias A b a (aliased b a) = Inr (Some (Apart (Some x')))" "holds x' f"
      show ?thesis
      proof (rule unalias_apart [OF c(1) disjI1 [OF b] l(2), of A])
        assume "\<not> grants A" "unalias A b c (aliased b c) = Inr None"
        then show ?thesis unfolding def x'(1) by (simp add: yields_def BSTR_ERR_def)
      next
        fix y' assume y': "unalias A b c (aliased b c) = Inr (Some (Apart (Some y')))" "holds y' r"
        show ?thesis unfolding def x'(1) y'(1) prod.case sum.case option.case barg.case
          using pos len by (intro replace_loops_yields b x' y' f eq) simp_all
      qed
    qed
  qed
qed

end
