(* ===== verification/BstrSplit.thy ===== *)
theory BstrSplit
  imports BstrReplace
begin

text \<open>
  Lists of strings of \<open>src/myriad/bstring/bstrlib.c\<close>: \<open>bsplit\<close> and \<open>bsplits\<close> over the iterating
  \<open>bsplitcb\<close> and \<open>bsplitscb\<close>, and \<open>bjoin\<close>, with the proof that joining what was split gives the
  string back.
\<close>

section \<open>Iterating\<close>

text \<open>\<open>for (i = p; i < slen; i++) if (P (data[i])) break;\<close>\<close>

primrec span_loop :: "(char \<Rightarrow> bool) \<Rightarrow> tagbstring \<Rightarrow> int \<Rightarrow> nat \<Rightarrow> int res" where
  "span_loop P b i 0 = Inr i"
| "span_loop P b i (Suc n) = bind_res (fetch b i) (\<lambda>c. if P c then Inr i else span_loop P b (i + 1) n)"

text \<open>
  The loop of \<open>bsplitcb\<close> and \<open>bsplitscb\<close>. The callback \<open>cb\<close> gets and returns its parameter; it is
  one that leaves the string as it is.
\<close>

partial_function (option) split_loop ::
    "(char \<Rightarrow> bool) \<Rightarrow> ('p \<Rightarrow> int \<Rightarrow> int \<Rightarrow> (int \<times> 'p) res option) \<Rightarrow> tagbstring \<Rightarrow> int \<Rightarrow> 'p \<Rightarrow> (int \<times> 'p) res option" where
  "split_loop P cb b p parm =
     (case span_loop P b p (nat (bs_slen b - p)) of
        Inl e \<Rightarrow> Some (Inl e)
      | Inr i \<Rightarrow>
          case cb parm p (i - p) of
            None \<Rightarrow> None
          | Some (Inl e) \<Rightarrow> Some (Inl e)
          | Some (Inr (ret, parm)) \<Rightarrow>
              if ret < 0 then Some (Inr (ret, parm))
              else
                let p' = i32 (i + 1)
                in if p' \<le> bs_slen b then split_loop P cb b p' parm else Some (Inr (0, parm)))"

definition bsplitcb ::
    "tagbstring option \<Rightarrow> char \<Rightarrow> int \<Rightarrow> ('p \<Rightarrow> int \<Rightarrow> int \<Rightarrow> (int \<times> 'p) res option) \<Rightarrow> 'p \<Rightarrow> (int \<times> 'p) res option" where
  "bsplitcb str splitChar pos cb parm =
     (case str of
        None \<Rightarrow> Some (Inr (BSTR_ERR, parm))
      | Some b \<Rightarrow>
          if pos < 0 \<or> pos > bs_slen b then Some (Inr (BSTR_ERR, parm))
          else split_loop (\<lambda>c. c = splitChar) cb b pos parm)"

definition bsplitscb ::
    "tagbstring option \<Rightarrow> tagbstring option \<Rightarrow> int \<Rightarrow> ('p \<Rightarrow> int \<Rightarrow> int \<Rightarrow> (int \<times> 'p) res option) \<Rightarrow> 'p \<Rightarrow> (int \<times> 'p) res option" where
  "bsplitscb str splitStr pos cb parm =
     (case (str, splitStr) of
        (Some b, Some t) \<Rightarrow>
          if pos < 0 \<or> pos > bs_slen b \<or> bs_slen t < 0 then Some (Inr (BSTR_ERR, parm))
          else if bs_slen t = 0 then
            bind_opt (cb parm 0 (bs_slen b)) (\<lambda>(ret, parm). Some (Inr (if ret > 0 then 0 else ret, parm)))
          else if bs_slen t = 1 then
            bind_opt (Some (fetch t 0)) (\<lambda>c. bsplitcb str c pos cb parm)
          else
            bind_opt (Some (buildCharField splitStr)) (\<lambda>cf.
              case cf of None \<Rightarrow> Some (Inl Undefined) | Some cf \<Rightarrow> split_loop (testInCharField cf) cb b pos parm)
      | _ \<Rightarrow> Some (Inr (BSTR_ERR, parm)))"

section \<open>Lists of strings\<close>

text \<open>\<open>entry\<close> has as many places as were allocated, of which the first \<open>qty\<close> are set.\<close>

record bstrList =
  qty :: int
  entry :: "tagbstring option list"

record genBstrList =
  g_b :: tagbstring
  g_bl :: bstrList
  g_mlen :: int

definition BLE_SZ :: int where "BLE_SZ = 8"

definition SIZEOF_BSTRING :: int where "SIZEOF_BSTRING = 8"

text \<open>\<open>while (qty >= mlen) mlen += mlen;\<close>\<close>

partial_function (option) double_loop :: "int \<Rightarrow> int \<Rightarrow> int option" where
  "double_loop q mlen = (if q \<ge> mlen then double_loop q (i32 (mlen + mlen)) else Some mlen)"

definition bscb_grow :: "allocator \<Rightarrow> genBstrList \<Rightarrow> genBstrList option option" where
  "bscb_grow A g =
     (if qty (g_bl g) \<ge> g_mlen g then
        case double_loop (qty (g_bl g)) (i32 (g_mlen g * 2)) of
          None \<Rightarrow> None
        | Some mlen \<Rightarrow>
            if a_realloc A ((BLE_SZ + SIZEOF_BSTRING * mlen) mod 2 ^ 64) then
              Some (Some (g\<lparr> g_mlen := mlen,
                g_bl := (g_bl g)\<lparr> entry := entry (g_bl g) @ replicate (nat mlen - length (entry (g_bl g))) None \<rparr> \<rparr>))
            else Some None
      else Some (Some g))"

definition bscb :: "allocator \<Rightarrow> genBstrList \<Rightarrow> int \<Rightarrow> int \<Rightarrow> (int \<times> genBstrList) res option" where
  "bscb A g ofs len =
     (case bscb_grow A g of
        None \<Rightarrow> None
      | Some None \<Rightarrow> Some (Inr (BSTR_ERR, g))
      | Some (Some g) \<Rightarrow>
          let bl = g_bl g
          in bind_opt (Some (bmidstr_buf A (Some (g_b g)) ofs len)) (\<lambda>e.
               if 0 \<le> qty bl \<and> qty bl < int (length (entry bl)) then
                 Some (Inr (0, g\<lparr> g_bl := bl\<lparr> entry := (entry bl)[nat (qty bl) := e], qty := i32 (qty bl + 1) \<rparr> \<rparr>))
               else Some (Inl Undefined)))"

text \<open>What is left of the list after \<open>bstrListDestroy\<close> has been freed.\<close>

definition bstrListDestroy :: "bstrList option \<Rightarrow> int \<times> bstrList option" where
  "bstrListDestroy sl =
     (case sl of
        None \<Rightarrow> (BSTR_ERR, None)
      | Some l \<Rightarrow> if qty l < 0 then (BSTR_ERR, sl) else (BSTR_OK, None))"

definition new_list :: "allocator \<Rightarrow> tagbstring \<Rightarrow> genBstrList option" where
  "new_list A b =
     (if a_malloc A ((BLE_SZ + SIZEOF_BSTRING * 4) mod 2 ^ 64)
      then Some \<lparr> g_b = b, g_bl = \<lparr> qty = 0, entry = replicate 4 None \<rparr>, g_mlen = 4 \<rparr> else None)"

definition bsplit :: "allocator \<Rightarrow> tagbstring option \<Rightarrow> char \<Rightarrow> bstrList option res option" where
  "bsplit A str splitChar =
     (case str of
        None \<Rightarrow> Some (Inr None)
      | Some b \<Rightarrow>
          if bs_data b = None \<or> bs_slen b < 0 then Some (Inr None)
          else
            case new_list A b of
              None \<Rightarrow> Some (Inr None)
            | Some g \<Rightarrow>
                bind_opt (bsplitcb str splitChar 0 (bscb A) g) (\<lambda>(ret, g).
                  if ret < 0 then Some (Inr (snd (bstrListDestroy (Some (g_bl g))))) else Some (Inr (Some (g_bl g)))))"

definition bsplits :: "allocator \<Rightarrow> tagbstring option \<Rightarrow> tagbstring option \<Rightarrow> bstrList option res option" where
  "bsplits A str splitStr =
     (case (str, splitStr) of
        (Some b, Some t) \<Rightarrow>
          if bs_slen b < 0 \<or> bs_data b = None \<or> bs_slen t < 0 \<or> bs_data t = None then Some (Inr None)
          else
            (case new_list A b of
               None \<Rightarrow> Some (Inr None)
             | Some g \<Rightarrow>
                 bind_opt (bsplitscb str splitStr 0 (bscb A) g) (\<lambda>(ret, g).
                   if ret < 0 then Some (Inr (snd (bstrListDestroy (Some (g_bl g))))) else Some (Inr (Some (g_bl g)))))
      | _ \<Rightarrow> Some (Inr None))"

section \<open>Joining\<close>

text \<open>The entry at index \<open>i\<close>.\<close>

definition entry_at :: "bstrList \<Rightarrow> nat \<Rightarrow> tagbstring res" where
  "entry_at bl i =
     (if i < length (entry bl) then case entry bl ! i of None \<Rightarrow> Inl NullDeref | Some e \<Rightarrow> Inr e else Inl Undefined)"

text \<open>The sum of the lengths; \<open>None\<close> when one is negative or the sum wraps around.\<close>

fun size_loop :: "bstrList \<Rightarrow> nat list \<Rightarrow> int \<Rightarrow> int option res" where
  "size_loop bl [] c = Inr (Some c)"
| "size_loop bl (i # is) c =
     bind_res (entry_at bl i) (\<lambda>e.
       let c' = i32 (c + bs_slen e)
       in if bs_slen e < 0 \<or> c' < 0 then Inr None else size_loop bl is c')"

fun join_loop :: "bstrList \<Rightarrow> tagbstring option \<Rightarrow> nat list \<Rightarrow> tagbstring \<Rightarrow> int \<Rightarrow> (tagbstring \<times> int) res" where
  "join_loop bl sep [] b c = Inr (b, c)"
| "join_loop bl sep (i # is) b c =
     bind_res (case sep of
         Some t \<Rightarrow> if i > 0 then bind_res (memmove b c t 0 (bs_slen t)) (\<lambda>b. Inr (b, i32 (c + bs_slen t))) else Inr (b, c)
       | None \<Rightarrow> Inr (b, c)) (\<lambda>(b, c).
     bind_res (entry_at bl i) (\<lambda>e.
     bind_res (memmove b c e 0 (bs_slen e)) (\<lambda>b. join_loop bl sep is b (i32 (c + bs_slen e)))))"

definition bjoin :: "allocator \<Rightarrow> bstrList option \<Rightarrow> tagbstring option \<Rightarrow> tagbstring option res" where
  "bjoin A bl sep =
     (case bl of
        None \<Rightarrow> Inr None
      | Some bl \<Rightarrow>
          if qty bl < 0 then Inr None
          else if (case sep of None \<Rightarrow> False | Some t \<Rightarrow> bs_slen t < 0 \<or> bs_data t = None) then Inr None
          else
            bind_res (size_loop bl [0..<nat (qty bl)] 1) (\<lambda>c.
              case c of
                None \<Rightarrow> Inr None
              | Some c \<Rightarrow>
                  let c = (case sep of None \<Rightarrow> c | Some t \<Rightarrow> i32 (c + i32 ((qty bl - 1) * bs_slen t)))
                  in if \<not> a_malloc A SIZEOF_TAGBSTRING then Inr None
                     else
                       case malloc A c of
                         None \<Rightarrow> Inr None
                       | Some d \<Rightarrow>
                           bind_res (join_loop bl sep [0..<nat (qty bl)] \<lparr> bs_mlen = c, bs_slen = i32 (c - 1), bs_data = Some d \<rparr> 0) (\<lambda>(b, c).
                           bind_res (store b c NUL) (\<lambda>b. Inr (Some b)))))"

section \<open>The pieces of a string\<close>

fun split_on :: "(char \<Rightarrow> bool) \<Rightarrow> string \<Rightarrow> string list" where
  "split_on P [] = [[]]"
| "split_on P (c # s) = (if P c then [] # split_on P s else (case split_on P s of [] \<Rightarrow> [[c]] | w # ws \<Rightarrow> (c # w) # ws))"

lemma split_on_Nil [simp]: "split_on P s \<noteq> []"
  by (cases s) (simp_all split: list.splits)

lemma split_on_last: "\<forall>c\<in>set w. \<not> P c \<Longrightarrow> split_on P w = [w]"
  by (induction w) simp_all

lemma split_on_at: "\<forall>c\<in>set w. \<not> P c \<Longrightarrow> P c \<Longrightarrow> split_on P (w @ c # s) = w # split_on P s"
  by (induction w) simp_all

lemma length_split_on: "length (split_on P s) \<le> Suc (length s)"
  by (induction s) (auto split: list.splits)

text \<open>Where the pieces are, and the callback applied to them in order.\<close>

fun places :: "nat \<Rightarrow> string list \<Rightarrow> (int \<times> int) list" where
  "places n [] = []"
| "places n (w # ws) = (int n, int (length w)) # places (n + length w + 1) ws"

fun calls :: "('p \<Rightarrow> int \<Rightarrow> int \<Rightarrow> (int \<times> 'p) res option) \<Rightarrow> (int \<times> int) list \<Rightarrow> 'p \<Rightarrow> (int \<times> 'p) res option" where
  "calls cb [] parm = Some (Inr (0, parm))"
| "calls cb ((ofs, len) # xs) parm =
     bind_opt (cb parm ofs len) (\<lambda>(ret, parm). if ret < 0 then Some (Inr (ret, parm)) else calls cb xs parm)"

lemma span_loop_holds:
  assumes b: "holds b (u @ w @ z)" and w: "\<forall>c\<in>set w. \<not> P c" "z = [] \<or> P (hd z)"
  shows "span_loop P b (int (length u)) (length w + length z) = Inr (int (length u + length w))"
  using b w(1)
proof (induction w arbitrary: u)
  case Nil
  then show ?case using w(2) fetch_holds [of b "u @ z" "length u"] by (cases z) simp_all
next
  case (Cons c w)
  have "fetch b (int (length u)) = Inr c" using fetch_holds [OF Cons.prems(1), of "length u"] by simp
  moreover have "span_loop P b (int (length (u @ [c]))) (length w + length z) = Inr (int (length (u @ [c]) + length w))"
    using Cons.prems by (intro Cons.IH) simp_all
  ultimately show ?case using Cons.prems(2) by (simp add: add.commute)
qed

text \<open>The loop calls back once for every piece, until one call fails.\<close>

lemma split_loop_calls:
  assumes len: "int (length s) < 2 ^ 30" and b: "holds b s"
  shows "s = u @ v \<Longrightarrow> split_loop P cb b (int (length u)) parm = calls cb (places (length u) (split_on P v)) parm"
proof (induction "length v" arbitrary: u v parm rule: less_induct)
  case less
  obtain w z where v: "v = w @ z" and w: "\<forall>c\<in>set w. \<not> P c" "z = [] \<or> P (hd z)"
    using takeWhile_dropWhile_id [of "\<lambda>c. \<not> P c" v] hd_dropWhile [of "\<lambda>c. \<not> P c" v] set_takeWhileD by metis
  have slen: "bs_slen b = int (length u + (length w + length z))" using holds_slen [OF b] less.prems v by simp
  have n: "nat (bs_slen b - int (length u)) = length w + length z" using slen by linarith
  have span: "span_loop P b (int (length u)) (nat (bs_slen b - int (length u))) = Inr (int (length u + length w))"
    unfolding n using less.prems v b w by (intro span_loop_holds) simp_all
  show ?case
  proof (cases z)
    case Nil
    then have s: "split_on P v = [w]" using split_on_last [OF w(1)] v by simp
    have "i32 (int (length u + length w) + 1) = int (length u + length w) + 1" using slen len holds_slen [OF b] by simp
    then show ?thesis unfolding s using span slen Nil
      by (subst split_loop.simps) (auto split: option.splits sum.splits simp: bind_opt_def)
  next
    case (Cons c z')
    then have c: "P c" using w(2) by simp
    have s: "split_on P v = w # split_on P z'" unfolding v Cons by (rule split_on_at [OF w(1) c])
    have i: "i32 (int (length u + length w) + 1) = int (length (u @ w @ [c]))" using slen len holds_slen [OF b] Cons by simp
    have IH: "split_loop P cb b (int (length (u @ w @ [c]))) parm = calls cb (places (length (u @ w @ [c])) (split_on P z')) parm" for parm
      using less.prems v Cons by (intro less.hyps) simp_all
    have le: "int (length (u @ w @ [c])) \<le> bs_slen b" using slen Cons by simp
    have n: "length u + length w + 1 = length (u @ w @ [c])" by simp
    show ?thesis unfolding s places.simps calls.simps n
      using span i IH le by (subst split_loop.simps) (auto split: option.splits sum.splits simp: bind_opt_def Let_def simp del: length_append)
  qed
qed

section \<open>Splitting\<close>

text \<open>The list holds the strings \<open>ws\<close>.\<close>

definition entries :: "bstrList \<Rightarrow> string list \<Rightarrow> bool" where
  "entries bl ws \<longleftrightarrow> qty bl = int (length ws) \<and> length ws \<le> length (entry bl) \<and>
     (\<forall>i<length ws. \<exists>e. entry bl ! i = Some e \<and> bstr_rep e (ws ! i))"

definition gathers :: "tagbstring \<Rightarrow> genBstrList \<Rightarrow> string list \<Rightarrow> bool" where
  "gathers b g ws \<longleftrightarrow> g_b g = b \<and> entries (g_bl g) ws \<and> g_mlen g = int (length (entry (g_bl g))) \<and> 4 \<le> g_mlen g \<and> g_mlen g \<le> 4 + 2 * int (length ws)"

lemma bscb_grow_gathers:
  assumes g: "gathers b g ws" and A: "grants A" and len: "int (length ws) < 2 ^ 26"
  obtains g' where "bscb_grow A g = Some (Some g')" "gathers b g' ws" "length ws < length (entry (g_bl g'))"
proof (cases "g_mlen g \<le> qty (g_bl g)")
  case False
  then show thesis using g by (intro that [of g]) (auto simp: bscb_grow_def gathers_def entries_def)
next
  case True
  let ?m = "2 * g_mlen g"
  have m: "qty (g_bl g) = int (length ws)" "g_mlen g = int (length ws)" "4 \<le> g_mlen g" using g True by (auto simp: gathers_def entries_def)
  have i: "i32 (g_mlen g * 2) = ?m" using m len by simp
  have d: "double_loop (qty (g_bl g)) ?m = Some ?m" using m by (subst double_loop.simps) auto
  have "(BLE_SZ + SIZEOF_BSTRING * ?m) mod 2 ^ 64 = BLE_SZ + SIZEOF_BSTRING * ?m" "0 \<le> BLE_SZ + SIZEOF_BSTRING * ?m" "BLE_SZ + SIZEOF_BSTRING * ?m < 2 ^ 31"
    using m len by (simp_all add: BLE_SZ_def SIZEOF_BSTRING_def)
  then have r: "a_realloc A ((BLE_SZ + SIZEOF_BSTRING * ?m) mod 2 ^ 64)" using A unfolding grants_def by metis
  show thesis
  proof (rule that)
    show "bscb_grow A g = Some (Some (g\<lparr> g_mlen := ?m,
        g_bl := (g_bl g)\<lparr> entry := entry (g_bl g) @ replicate (nat ?m - length (entry (g_bl g))) None \<rparr> \<rparr>))"
      using True i d r by (simp add: bscb_grow_def)
  qed (use g m in \<open>auto simp: gathers_def entries_def nth_append\<close>)
qed

lemma bscb_gathers:
  assumes g: "gathers b g ws" and A: "grants A" and len: "int (length ws) < 2 ^ 26" and b: "holds b (u @ w @ z)" "int (length (u @ w @ z)) < 2 ^ 30"
  obtains g' where "bscb A g (int (length u)) (int (length w)) = Some (Inr (0, g'))" "gathers b g' (ws @ [w])"
proof -
  obtain g1 where g1: "bscb_grow A g = Some (Some g1)" "gathers b g1 ws" "length ws < length (entry (g_bl g1))" using g A len by (rule bscb_grow_gathers)
  have "midstr (u @ w @ z) (int (length u)) (int (length w)) = w" using b(2) by (simp add: midstr_def clamp_def Let_def)
  moreover have "small (int (length u))" "small (int (length w))" "small (int (length (u @ w @ z)))" using b(2) by (simp_all add: small_def)
  ultimately have "creates A (bmidstr_buf A (Some b) (int (length u)) (int (length w))) w" using bmidstr_creates [OF b(1)] by metis
  then obtain e where e: "bmidstr_buf A (Some b) (int (length u)) (int (length w)) = Inr (Some e)" "bstr_rep e w" using A by (auto simp: creates_def)
  have q: "qty (g_bl g1) = int (length ws)" "g_b g1 = b" using g1(2) by (auto simp: gathers_def entries_def)
  have i: "i32 (int (length ws) + 1) = int (length ws) + 1" using len by simp
  show thesis
  proof (rule that)
    show "bscb A g (int (length u)) (int (length w)) =
      Some (Inr (0, g1\<lparr> g_bl := (g_bl g1)\<lparr> entry := (entry (g_bl g1))[length ws := Some e], qty := int (length ws) + 1 \<rparr> \<rparr>))"
      using g1(1,3) q e(1) i by (simp add: bscb_def Let_def)
  qed (use g1(2,3) e(2) in \<open>auto simp: gathers_def entries_def nth_append nth_list_update less_Suc_eq\<close>)
qed

lemma calls_gathers:
  assumes A: "grants A" and b: "holds b s" "int (length s) < 2 ^ 26"
  shows "gathers b g vs \<Longrightarrow> s = u @ v \<Longrightarrow> length vs \<le> length u \<Longrightarrow>
    \<exists>g'. calls (bscb A) (places (length u) (split_on P v)) g = Some (Inr (0, g')) \<and> gathers b g' (vs @ split_on P v)"
proof (induction "length v" arbitrary: g vs u v rule: less_induct)
  case less
  obtain w z where v: "v = w @ z" and w: "\<forall>c\<in>set w. \<not> P c" "z = [] \<or> P (hd z)"
    using takeWhile_dropWhile_id [of "\<lambda>c. \<not> P c" v] hd_dropWhile [of "\<lambda>c. \<not> P c" v] set_takeWhileD by metis
  have n: "int (length vs) < 2 ^ 26" "int (length (u @ w @ z)) < 2 ^ 30" "holds b (u @ w @ z)" using less.prems(2,3) b v by simp_all
  obtain g1 where g1: "bscb A g (int (length u)) (int (length w)) = Some (Inr (0, g1))" "gathers b g1 (vs @ [w])"
    by (rule bscb_gathers [OF less.prems(1) A n(1,3,2)])
  show ?case
  proof (cases z)
    case Nil
    then have "split_on P v = [w]" using split_on_last [OF w(1)] v by simp
    then show ?thesis using g1 by simp
  next
    case (Cons c z')
    then have c: "P c" using w(2) by simp
    have s: "split_on P v = w # split_on P z'" unfolding v Cons by (rule split_on_at [OF w(1) c])
    have "\<exists>g'. calls (bscb A) (places (length (u @ w @ [c])) (split_on P z')) g1 = Some (Inr (0, g')) \<and> gathers b g' ((vs @ [w]) @ split_on P z')"
      using less.prems v Cons g1(2) by (intro less.hyps) simp_all
    then show ?thesis unfolding s places.simps calls.simps using g1(1) by simp
  qed
qed

lemma gathers_entries: "gathers b g ws \<Longrightarrow> entries (g_bl g) ws"
  by (simp add: gathers_def)

lemma new_list_gathers: "grants A \<Longrightarrow> \<exists>g. new_list A b = Some g \<and> gathers b g []"
  by (simp add: new_list_def gathers_def entries_def grants_def BLE_SZ_def SIZEOF_BSTRING_def)

lemma bsplit_entries:
  assumes A: "grants A" and b: "holds b s" "int (length s) < 2 ^ 26"
  obtains bl where "bsplit A (Some b) c = Some (Inr (Some bl))" "entries bl (split_on (\<lambda>x. x = c) s)"
proof -
  obtain g where g: "new_list A b = Some g" "gathers b g []" using new_list_gathers [OF A] by blast
  from calls_gathers [OF A b g(2), of "[]" s "\<lambda>x. x = c"] obtain g' where
    g': "calls (bscb A) (places 0 (split_on (\<lambda>x. x = c) s)) g = Some (Inr (0, g'))" "gathers b g' (split_on (\<lambda>x. x = c) s)" by auto
  have "split_loop (\<lambda>x. x = c) (bscb A) b 0 g = calls (bscb A) (places 0 (split_on (\<lambda>x. x = c) s)) g"
    using split_loop_calls [of s b "[]" s "\<lambda>x. x = c" "bscb A" g] b by simp
  then have "bsplit A (Some b) c = Some (Inr (Some (g_bl g')))"
    using g g' holds_fields [OF b(1)] by (simp add: bsplit_def bsplitcb_def)
  then show thesis by (rule that [OF _ gathers_entries [OF g'(2)]])
qed

lemma bsplits_entries:
  assumes A: "grants A" and b: "holds b s" "int (length s) < 2 ^ 26" and t: "holds x t"
  obtains bl where "bsplits A (Some b) (Some x) = Some (Inr (Some bl))" "entries bl (if t = [] then [s] else split_on (\<lambda>c. c \<in> set t) s)"
proof -
  obtain g where g: "new_list A b = Some g" "gathers b g []" using new_list_gathers [OF A] by blast
  note f = holds_fields [OF b(1)] holds_fields [OF t]
  have pieces: "\<exists>g'. split_loop P (bscb A) b 0 g = Some (Inr (0, g')) \<and> gathers b g' (split_on P s)" for P
    using calls_gathers [OF A b g(2), of "[]" s P] split_loop_calls [of s b "[]" s P "bscb A" g] b by simp
  consider (none) "t = []" | (one) c where "t = [c]" | (more) "2 \<le> length t" by (cases t rule: remdups_adj.cases) auto
  then have "\<exists>g'. bsplitscb (Some b) (Some x) 0 (bscb A) g = Some (Inr (0, g')) \<and> gathers b g' (if t = [] then [s] else split_on (\<lambda>c. c \<in> set t) s)"
  proof cases
    case none
    obtain g' where "bscb A g (int (length ([] :: string))) (int (length s)) = Some (Inr (0, g'))" "gathers b g' ([] @ [s])"
      using bscb_gathers [OF g(2) A, of "[]" s "[]"] b by auto
    then show ?thesis using none f by (simp add: bsplitscb_def)
  next
    case (one c)
    have "fetch x 0 = Inr c" using fetch_holds [OF t, of 0] one by simp
    moreover have "(\<lambda>x. x = c) = (\<lambda>x. x \<in> set t)" using one by auto
    ultimately show ?thesis using one f pieces [of "\<lambda>x. x = c"] by (simp add: bsplitscb_def bsplitcb_def)
  next
    case more
    then have t0: "t \<noteq> []" by auto
    obtain cf where cf: "buildCharField (Some x) = Inr (Some cf)" "\<forall>c. testInCharField cf c \<longleftrightarrow> c \<in> set t" using buildCharField_holds [OF t t0] by blast
    then have "testInCharField cf = (\<lambda>c. c \<in> set t)" by auto
    then show ?thesis using more t0 f cf(1) pieces [of "\<lambda>c. c \<in> set t"] by (simp add: bsplitscb_def)
  qed
  then obtain g' where g': "bsplitscb (Some b) (Some x) 0 (bscb A) g = Some (Inr (0, g'))" "gathers b g' (if t = [] then [s] else split_on (\<lambda>c. c \<in> set t) s)" by blast
  then have "bsplits A (Some b) (Some x) = Some (Inr (Some (g_bl g')))" using g f by (simp add: bsplits_def)
  then show thesis by (rule that [OF _ gathers_entries [OF g'(2)]])
qed

section \<open>Joining\<close>

fun joined :: "string \<Rightarrow> string list \<Rightarrow> string" where
  "joined t [] = []"
| "joined t (w # ws) = w @ concat (List.map (\<lambda>v. t @ v) ws)"

lemma joined_snoc: "joined t (ws @ [w]) = (if ws = [] then w else joined t ws @ t @ w)"
  by (cases ws) simp_all

lemma joined_prefix: "length (joined t vs) \<le> length (joined t (vs @ us))"
  by (cases vs) simp_all

lemma joined_Cons: "ws \<noteq> [] \<Longrightarrow> joined t (w # ws) = w @ t @ joined t ws"
  by (cases ws) simp_all

lemma joined_split_on: "joined [c] (split_on (\<lambda>x. x = c) s) = s"
proof (induction s)
  case (Cons x s)
  then show ?case by (cases "split_on (\<lambda>x. x = c) s") (auto simp: joined_Cons)
qed simp

lemma length_joined: "ws \<noteq> [] \<Longrightarrow> int (length (joined t ws)) = (\<Sum>w\<leftarrow>ws. int (length w)) + (int (length ws) - 1) * int (length t)"
proof (induction ws rule: induct_list012)
  case (3 w v ws)
  then show ?case by (simp add: joined_Cons algebra_simps)
qed simp_all

lemma entry_at_entries: "entries bl ws \<Longrightarrow> i < length ws \<Longrightarrow> \<exists>e. entry_at bl i = Inr e \<and> bstr_rep e (ws ! i)"
  by (fastforce simp: entries_def entry_at_def)

lemma size_loop_entries:
  assumes bl: "entries bl ws"
  shows "n + length vs = length ws \<Longrightarrow> drop n ws = vs \<Longrightarrow> 0 \<le> c \<Longrightarrow> c + (\<Sum>w\<leftarrow>vs. int (length w)) < 2 ^ 31 \<Longrightarrow>
    size_loop bl [n..<length ws] c = Inr (Some (c + (\<Sum>w\<leftarrow>vs. int (length w))))"
proof (induction vs arbitrary: n c)
  case (Cons w vs)
  have n: "n < length ws" using Cons.prems(1) by simp
  then have d: "ws ! n = w" "drop (Suc n) ws = vs" using Cons.prems(2) by (metis Cons_nth_drop_Suc list.inject)+
  obtain e where e: "entry_at bl n = Inr e" "bstr_rep e w" using entry_at_entries [OF bl n] d(1) by blast
  have l: "bs_slen e = int (length w)" using e(2) by (rule bstr_repE)
  have "0 \<le> (\<Sum>w\<leftarrow>vs. int (length w))" by (induction vs) simp_all
  then have i: "i32 (c + int (length w)) = c + int (length w)" using Cons.prems(3,4) by simp
  have "size_loop bl [Suc n..<length ws] (c + int (length w)) = Inr (Some (c + int (length w) + (\<Sum>w\<leftarrow>vs. int (length w))))"
    using Cons.prems d(2) by (intro Cons.IH) simp_all
  then show ?case using n e(1) l i Cons.prems(3) by (simp add: upt_conv_Cons add.assoc)
qed simp

text \<open>A piece written behind what is there.\<close>

lemma put:
  assumes d: "bs_data b = Some d" "take (length p) d = p" and room: "length p + length w \<le> length d" and e: "holds e w"
  obtains d' where "memmove b (int (length p)) e 0 (int (length w)) = Inr (b\<lparr> bs_data := Some d' \<rparr>)" "take (length p + length w) d' = p @ w" "length d' = length d"
proof (rule that)
  let ?d = "take (length p) d @ w @ drop (length p + length w) d"
  show "memmove b (int (length p)) e 0 (int (length w)) = Inr (b\<lparr> bs_data := Some ?d \<rparr>)"
    using blit_buf [OF d(1) room] load_holds [OF e] by (simp add: memmove_def)
  show "take (length p + length w) ?d = p @ w" "length ?d = length d" using d(2) room by simp_all
qed

definition sep_holds :: "tagbstring option \<Rightarrow> string \<Rightarrow> bool" where
  "sep_holds sep t = (case sep of None \<Rightarrow> t = [] | Some x \<Rightarrow> holds x t)"

lemma join_loop_entries:
  assumes bl: "entries bl ws" and t: "sep_holds sep t"
  shows "n \<le> length ws \<Longrightarrow> bs_data b = Some d \<Longrightarrow> take (length (joined t (take n ws))) d = joined t (take n ws) \<Longrightarrow> length (joined t ws) < length d \<Longrightarrow> int (length d) < 2 ^ 31 \<Longrightarrow>
    \<exists>d'. join_loop bl sep [n..<length ws] b (int (length (joined t (take n ws)))) = Inr (b\<lparr> bs_data := Some d' \<rparr>, int (length (joined t ws))) \<and>
      take (length (joined t ws)) d' = joined t ws \<and> length d' = length d"
proof (induction "length ws - n" arbitrary: n b d)
  case 0
  then show ?case by (auto intro!: exI [of _ d])
next
  case (Suc k)
  then have n: "n < length ws" by simp
  let ?p = "joined t (take n ws)" and ?q = "joined t (take (Suc n) ws)" and ?w = "ws ! n"
  define m where "m = (if n = 0 then [] else t)"
  have q: "?q = ?p @ m @ ?w" using n by (auto simp: take_Suc_conv_app_nth joined_snoc m_def)
  have "length ?q \<le> length (joined t ws)" using joined_prefix [of t "take (Suc n) ws" "drop (Suc n) ws"] by simp
  then have room: "length (?p @ m @ ?w) < length d" using Suc.prems(4) q by simp
  obtain d1 where d1: "(case sep of
         Some t \<Rightarrow> if n > 0 then bind_res (memmove b (int (length ?p)) t 0 (bs_slen t)) (\<lambda>b. Inr (b, i32 (int (length ?p) + bs_slen t))) else Inr (b, int (length ?p))
       | None \<Rightarrow> Inr (b, int (length ?p))) = Inr (b\<lparr> bs_data := Some d1 \<rparr>, int (length (?p @ m)))" "take (length (?p @ m)) d1 = ?p @ m" "length d1 = length d"
  proof (cases "n > 0 \<and> sep \<noteq> None")
    case True
    then obtain x where x: "sep = Some x" "holds x t" using t by (auto simp: sep_holds_def)
    have mt: "m = t" using True by (simp add: m_def)
    have "length ?p + length t \<le> length d" using room mt by simp
    from put [OF Suc.prems(2,3) this x(2)] obtain d1 where d1: "memmove b (int (length ?p)) x 0 (int (length t)) = Inr (b\<lparr> bs_data := Some d1 \<rparr>)"
      "take (length ?p + length t) d1 = ?p @ t" "length d1 = length d" by blast
    have "i32 (int (length ?p) + int (length t)) = int (length ?p) + int (length t)" using room mt Suc.prems(5) by simp
    then show thesis using True x d1 mt holds_slen [OF x(2)] by (intro that [of d1]) simp_all
  next
    case False
    then have "m = []" using t by (cases sep) (auto simp: m_def sep_holds_def)
    then show thesis using False Suc.prems(2,3) by (intro that [of d]) (auto split: option.splits)
  qed
  obtain e where e: "entry_at bl n = Inr e" "bstr_rep e ?w" using entry_at_entries [OF bl n] by blast
  have l: "bs_slen e = int (length ?w)" using e(2) by (rule bstr_repE)
  have "length (?p @ m) + length ?w \<le> length d1" using room d1(3) by simp
  then obtain d2 where d2: "memmove (b\<lparr> bs_data := Some d1 \<rparr>) (int (length (?p @ m))) e 0 (int (length ?w)) = Inr (b\<lparr> bs_data := Some d2 \<rparr>)"
    "take (length (?p @ m) + length ?w) d2 = (?p @ m) @ ?w" "length d2 = length d1" using put [of "b\<lparr> bs_data := Some d1 \<rparr>" d1 "?p @ m" ?w e] d1(2) rep_holds [OF bstr_rep_buf [OF e(2)]] by auto
  have i: "i32 (int (length (?p @ m)) + int (length ?w)) = int (length ?q)" using room Suc.prems(5) q by simp
  have "\<exists>d'. join_loop bl sep [Suc n..<length ws] (b\<lparr> bs_data := Some d2 \<rparr>) (int (length ?q)) = Inr (b\<lparr> bs_data := Some d2, bs_data := Some d' \<rparr>, int (length (joined t ws))) \<and>
      take (length (joined t ws)) d' = joined t ws \<and> length d' = length d2"
    using Suc.hyps(2) Suc.prems n d2(2,3) d1(3) q by (intro Suc.hyps(1)) (simp_all add: add.assoc)
  then show ?case using n d1(1,3) d2(1,3) e(1) l i by (simp add: upt_conv_Cons del: length_append of_nat_add)
qed

lemma joined_size:
  assumes "ws \<noteq> [] \<or> t = []"
  shows "(\<Sum>w\<leftarrow>ws. int (length w)) + (int (length ws) - 1) * int (length t) = int (length (joined t ws))"
  using assms length_joined [of ws t] by (cases ws) simp_all

lemma bjoin_creates:
  assumes bl: "entries bl ws" and t: "sep_holds sep t" "ws \<noteq> [] \<or> t = []" and len: "int (length (joined t ws)) < 2 ^ 31 - 1"
  shows "creates A (bjoin A (Some bl) sep) (joined t ws)"
proof -
  let ?sum = "\<Sum>w\<leftarrow>ws. int (length w)" and ?J = "joined t ws"
  have q: "qty bl = int (length ws)" using bl by (simp add: entries_def)
  have "0 \<le> ?sum" by (induction ws) simp_all
  moreover have "0 \<le> (int (length ws) - 1) * int (length t)" using t(2) by (cases ws) simp_all
  ultimately have pos: "0 \<le> ?sum" "0 \<le> (int (length ws) - 1) * int (length t)" .
  note size = joined_size [OF t(2)]
  have c: "size_loop bl [0..<length ws] 1 = Inr (Some (1 + ?sum))" using size pos len by (intro size_loop_entries [OF bl]) simp_all
  have c': "(case sep of None \<Rightarrow> 1 + ?sum | Some x \<Rightarrow> i32 (1 + ?sum + i32 ((qty bl - 1) * bs_slen x))) = int (length ?J) + 1"
  proof (cases sep)
    case None
    then show ?thesis using size t(1) by (simp add: sep_holds_def)
  next
    case (Some x)
    then have "bs_slen x = int (length t)" using t(1) holds_slen by (simp add: sep_holds_def)
    then show ?thesis using Some size pos len q by simp
  qed
  have guard: "\<not> qty bl < 0" "\<not> (case sep of None \<Rightarrow> False | Some t \<Rightarrow> bs_slen t < 0 \<or> bs_data t = None)"
    using q t(1) holds_fields by (auto simp: sep_holds_def split: option.splits)
  note def = bjoin_def [of A "Some bl" sep, unfolded option.case q nat_int c bind_res_simps c' [unfolded q] Let_def if_not_P [OF guard(1) [unfolded q]] if_not_P [OF guard(2)]]
  show ?thesis
  proof (cases "a_malloc A SIZEOF_TAGBSTRING \<and> a_malloc A (int (length ?J) + 1)")
    case False
    then have "\<not> grants A" using header_grants [of A] malloc_grants [of A "int (length ?J) + 1"] len by (auto simp: malloc_def split: if_splits)
    then show ?thesis unfolding def using False len by (auto simp: creates_def malloc_def)
  next
    case True
    define d where "d = List.map (a_fill A) [0..<length ?J + 1]"
    have m: "malloc A (int (length ?J) + 1) = Some d" using True len by (simp add: malloc_def d_def nat_add_distrib)
    let ?b = "\<lparr> bs_mlen = int (length ?J) + 1, bs_slen = i32 (int (length ?J) + 1 - 1), bs_data = Some d \<rparr>"
    have "\<exists>d'. join_loop bl sep [0..<length ws] ?b (int (length (joined t (take 0 ws)))) = Inr (?b\<lparr> bs_data := Some d' \<rparr>, int (length ?J)) \<and>
      take (length ?J) d' = ?J \<and> length d' = length d" using len by (intro join_loop_entries [OF bl t(1)]) (simp_all add: d_def)
    then obtain d' where d': "join_loop bl sep [0..<length ws] ?b 0 = Inr (?b\<lparr> bs_data := Some d' \<rparr>, int (length ?J))" "take (length ?J) d' = ?J" "length d' = length ?J + 1"
      by (auto simp: d_def)
    obtain b' where b': "store (?b\<lparr> bs_data := Some d' \<rparr>) (int (length ?J)) NUL = Inr b'" "bstr_rep b' ?J"
      using d'(2,3) len by (auto simp: store_def bstr_rep_def)
    show ?thesis unfolding def m option.case d'(1) bind_res_simps prod.case b'(1) using True b'(2) by (simp add: creates_def)
  qed
qed

text \<open>Splitting at a character and joining with it gives the string back.\<close>

lemma bsplit_bjoin_id:
  assumes A: "grants A" and b: "holds b s" "int (length s) < 2 ^ 26" and x: "holds x [c]"
  obtains bl b' where "bsplit A (Some b) c = Some (Inr (Some bl))" "bjoin A (Some bl) (Some x) = Inr (Some b')" "bstr_rep b' s"
proof (rule bsplit_entries [OF A b, of c])
  fix bl assume bl: "bsplit A (Some b) c = Some (Inr (Some bl))" "entries bl (split_on (\<lambda>x. x = c) s)"
  have "creates A (bjoin A (Some bl) (Some x)) s"
    using bjoin_creates [OF bl(2), of "Some x" "[c]" A] x b(2) by (simp add: sep_holds_def joined_split_on)
  then show thesis using A bl(1) that by (auto simp: creates_def)
qed

text \<open>An empty list with a separator of one character asks for no storage and then writes the terminator.\<close>

lemma bjoin_empty_list:
  assumes "holds x [c]" "a_malloc A SIZEOF_TAGBSTRING" "a_malloc A 0"
  shows "bjoin A (Some \<lparr> qty = 0, entry = es \<rparr>) (Some x) = Inl Undefined"
  using assms holds_fields [OF assms(1)] by (simp add: bjoin_def malloc_def store_def)

end
