(* ===== verification/BstrStream.thy ===== *)
theory BstrStream
  imports BstrSplit
begin

text \<open>
  Input of \<open>src/myriad/bstring/bstrlib.c\<close>: reading whole sources and lines through an
  \<open>fread\<close>- or \<open>fgetc\<close>-like function, and the buffered \<open>bStream\<close>. The function and the state of its
  handle are parameters.
\<close>

text \<open>
  A call of the reader for at most so many bytes gives the bytes it stored; a call of \<open>getcPtr\<close>
  gives a character or a negative number.
\<close>

type_synonym 'st bNread = "'st \<Rightarrow> int \<Rightarrow> string \<times> 'st"

type_synonym 'st bNgetc = "'st \<Rightarrow> int \<times> 'st"

type_synonym 'st read_result = "(int \<times> tagbstring option \<times> 'st) res option"

definition BS_BUFF_SZ :: int where "BS_BUFF_SZ = 1024"

section \<open>Whole sources\<close>

text \<open>The loop of \<open>breada\<close>: room for \<open>n\<close> bytes, of which \<open>i\<close> are there.\<close>

partial_function (option) breada_loop ::
    "allocator \<Rightarrow> 'st bNread \<Rightarrow> 'st \<Rightarrow> tagbstring \<Rightarrow> int \<Rightarrow> int \<Rightarrow> 'st read_result" where
  "breada_loop A rd st b i n =
     (case balloc A (Some b) (i32 (n + 1)) of
        Inl e \<Rightarrow> Some (Inl e)
      | Inr (ret, p) \<Rightarrow>
          if ret \<noteq> BSTR_OK then Some (Inr (BSTR_ERR, p, st))
          else
            case rd st (i32 (n - i)) of (t, st') \<Rightarrow>
              case blit (the p) i t of
                Inl e \<Rightarrow> Some (Inl e)
              | Inr b' \<Rightarrow>
                  let i' = i32 (i + int (length t));
                      b' = b'\<lparr> bs_slen := i' \<rparr>
                  in if i' < n then Some (bind_res (store b' i' NUL) (\<lambda>b. Inr (0, Some b, st')))
                     else breada_loop A rd st' b' i' (i32 (n + (if n < BS_BUFF_SZ then n else BS_BUFF_SZ))))"

definition breada :: "allocator \<Rightarrow> tagbstring option \<Rightarrow> 'st bNread option \<Rightarrow> 'st \<Rightarrow> 'st read_result" where
  "breada A p readPtr st =
     (case (p, readPtr) of
        (Some b, Some rd) \<Rightarrow>
          if bs_mlen b \<le> 0 \<or> bs_slen b < 0 \<or> bs_mlen b < bs_slen b then Some (Inr (BSTR_ERR, p, st))
          else breada_loop A rd st b (bs_slen b) (i32 (bs_slen b + 16))
      | _ \<Rightarrow> Some (Inr (BSTR_ERR, p, st)))"

definition bread :: "allocator \<Rightarrow> 'st bNread option \<Rightarrow> 'st \<Rightarrow> (tagbstring option \<times> 'st) res option" where
  "bread A readPtr st =
     (if readPtr = None then Some (Inr (None, st))
      else
        bind_opt (Some (bfromcstr A (Some []))) (\<lambda>buff.
          if buff = None then Some (Inr (None, st))
          else bind_opt (breada A buff readPtr st) (\<lambda>(ret, p, st). Some (Inr (if ret < 0 then None else p, st)))))"

section \<open>Lines by characters\<close>

text \<open>
  The loop of \<open>bassigngets\<close> and \<open>bgetsa\<close>; \<open>None\<close> when there is no storage. The terminator is a
  plain \<open>char\<close>, which is signed.
\<close>

partial_function (option) gets_loop ::
    "allocator \<Rightarrow> 'st bNgetc \<Rightarrow> char \<Rightarrow> 'st \<Rightarrow> tagbstring \<Rightarrow> int \<Rightarrow> int \<Rightarrow> (tagbstring \<times> 'st \<times> (int \<times> int) option) res option" where
  "gets_loop A gc tm st b d e =
     (case gc st of (c, st') \<Rightarrow>
        if c < 0 then Some (Inr (b, st', Some (d, c)))
        else
          case (if d > e then balloc A (Some (b\<lparr> bs_slen := d \<rparr>)) (i32 (d + 2)) else Inr (BSTR_OK, Some b)) of
            Inl f \<Rightarrow> Some (Inl f)
          | Inr (ret, p) \<Rightarrow>
              if ret \<noteq> BSTR_OK then Some (Inr (the p, st', None))
              else
                case store (the p) d (char_of (nat c)) of
                  Inl f \<Rightarrow> Some (Inl f)
                | Inr b' \<Rightarrow>
                    let d' = i32 (d + 1)
                    in if c = schar tm then Some (Inr (b', st', Some (d', c)))
                       else gets_loop A gc tm st' b' d' (if d > e then bs_mlen (the p) - 2 else e))"

definition gets_from :: "allocator \<Rightarrow> tagbstring option \<Rightarrow> 'st bNgetc option \<Rightarrow> 'st \<Rightarrow> char \<Rightarrow> (tagbstring \<Rightarrow> int) \<Rightarrow> 'st read_result" where
  "gets_from A p getcPtr st tm start =
     (case (p, getcPtr) of
        (Some b, Some gc) \<Rightarrow>
          if bs_mlen b \<le> 0 \<or> bs_slen b < 0 \<or> bs_mlen b < bs_slen b then Some (Inr (BSTR_ERR, p, st))
          else
            bind_opt (gets_loop A gc tm st b (start b) (bs_mlen b - 2)) (\<lambda>(b, st, r).
              case r of
                None \<Rightarrow> Some (Inr (BSTR_ERR, Some b, st))
              | Some (d, c) \<Rightarrow>
                  Some (bind_res (store b d NUL) (\<lambda>b. Inr (if d = 0 \<and> c < 0 then 1 else 0, Some (b\<lparr> bs_slen := d \<rparr>), st))))
      | _ \<Rightarrow> Some (Inr (BSTR_ERR, p, st)))"

definition bassigngets :: "allocator \<Rightarrow> tagbstring option \<Rightarrow> 'st bNgetc option \<Rightarrow> 'st \<Rightarrow> char \<Rightarrow> 'st read_result" where
  "bassigngets A p getcPtr st tm = gets_from A p getcPtr st tm (\<lambda>b. 0)"

definition bgetsa :: "allocator \<Rightarrow> tagbstring option \<Rightarrow> 'st bNgetc option \<Rightarrow> 'st \<Rightarrow> char \<Rightarrow> 'st read_result" where
  "bgetsa A p getcPtr st tm = gets_from A p getcPtr st tm bs_slen"

definition bgets :: "allocator \<Rightarrow> 'st bNgetc option \<Rightarrow> 'st \<Rightarrow> char \<Rightarrow> (tagbstring option \<times> 'st) res option" where
  "bgets A getcPtr st tm =
     (if getcPtr = None then Some (Inr (None, st))
      else
        bind_opt (Some (bfromcstr A (Some []))) (\<lambda>buff.
          if buff = None then Some (Inr (None, st))
          else
            bind_opt (bgetsa A buff getcPtr st tm) (\<lambda>(ret, p, st).
              Some (Inr (if ret < 0 \<or> bs_slen (the p) \<le> 0 then None else p, st)))))"

section \<open>Buffered streams\<close>

record 'st bStream =
  buff :: "tagbstring option"
  handle :: 'st
  readFnPtr :: "'st bNread option"
  isEOF :: bool
  maxBuffSz :: int

type_synonym 'st stream_result = "(int \<times> tagbstring option \<times> 'st bStream option) res option"

definition SIZEOF_BSTREAM :: int where "SIZEOF_BSTREAM = 32"

definition bsopen :: "allocator \<Rightarrow> 'st bNread option \<Rightarrow> 'st \<Rightarrow> 'st bStream option res" where
  "bsopen A readPtr st =
     (if readPtr = None \<or> \<not> a_malloc A SIZEOF_BSTREAM then Inr None
      else bind_res (bfromcstr A (Some [])) (\<lambda>b.
        Inr (Some \<lparr> buff = b, handle = st, readFnPtr = readPtr, isEOF = False, maxBuffSz = BS_BUFF_SZ \<rparr>)))"

definition bsbufflength :: "'st bStream option \<Rightarrow> int \<Rightarrow> int \<times> 'st bStream option" where
  "bsbufflength s sz =
     (case s of
        None \<Rightarrow> (BSTR_ERR, None)
      | Some t \<Rightarrow> if sz < 0 then (BSTR_ERR, s) else (maxBuffSz t, Some (if sz > 0 then t\<lparr> maxBuffSz := sz \<rparr> else t)))"

definition bseof :: "'st bStream option \<Rightarrow> int res" where
  "bseof s =
     (case s of
        None \<Rightarrow> Inr BSTR_ERR
      | Some s \<Rightarrow>
          if readFnPtr s = None then Inr BSTR_ERR
          else if \<not> isEOF s then Inr 0
          else case buff s of None \<Rightarrow> Inl NullDeref | Some b \<Rightarrow> Inr (if bs_slen b = 0 then 1 else 0))"

text \<open>The handle comes back; the stream is gone.\<close>

definition bsclose :: "'st bStream option \<Rightarrow> 'st option" where
  "bsclose s = map_option handle s"

subsection \<open>Reading up to a terminator\<close>

text \<open>
  \<open>for (i = 0; !P (b[i]); i++) ;\<close> from offset \<open>o\<close>, with a sentinel \<open>l\<close> bytes on: it stops there at
  the latest.
\<close>

definition sentinel_scan :: "(char \<Rightarrow> bool) \<Rightarrow> char \<Rightarrow> tagbstring \<Rightarrow> int \<Rightarrow> int \<Rightarrow> (tagbstring \<times> int) res" where
  "sentinel_scan P c b ofs l =
     bind_res (store b (ofs + l) c) (\<lambda>b. bind_res (span_loop P b ofs (nat l + 1)) (\<lambda>i. Inr (b, i - ofs)))"

text \<open>What was read beyond the terminator goes back to the buffer.\<close>

definition push_back :: "'st bStream \<Rightarrow> tagbstring \<Rightarrow> int \<Rightarrow> int \<Rightarrow> (int \<times> tagbstring option \<times> 'st bStream option) res" where
  "push_back s r i l =
     (let n = i32 (bs_slen r + i)
      in bind_res (memmove ((the (buff s))\<lparr> bs_slen := l - i \<rparr>) 0 r n (l - i)) (\<lambda>b.
         bind_res (store (r\<lparr> bs_slen := n \<rparr>) n NUL) (\<lambda>r. Inr (BSTR_OK, Some r, Some (s\<lparr> buff := Some b \<rparr>)))))"

partial_function (option) fill_lines ::
    "allocator \<Rightarrow> (char \<Rightarrow> bool) \<Rightarrow> char \<Rightarrow> int \<Rightarrow> 'st bNread \<Rightarrow> 'st bStream \<Rightarrow> tagbstring \<Rightarrow> 'st stream_result" where
  "fill_lines A P c rlo rd s r =
     (case balloc A (Some r) (i32 (bs_slen r + maxBuffSz s + 1)) of
        Inl e \<Rightarrow> Some (Inl e)
      | Inr (ret, p) \<Rightarrow>
          if ret \<noteq> BSTR_OK then Some (Inr (BSTR_ERR, p, Some s))
          else
            case rd (handle s) (maxBuffSz s) of (t, st) \<Rightarrow>
              case blit (the p) (bs_slen (the p)) t of
                Inl e \<Rightarrow> Some (Inl e)
              | Inr r \<Rightarrow>
                  let l = int (length t);
                      s = s\<lparr> handle := st \<rparr>
                  in if l \<le> 0 then
                       Some (bind_res (store r (bs_slen r) NUL) (\<lambda>r'.
                         Inr (if bs_slen r = rlo then BSTR_ERR else 0, Some r',
                           Some (s\<lparr> buff := map_option (\<lambda>b. b\<lparr> bs_slen := 0 \<rparr>) (buff s), isEOF := True \<rparr>))))
                     else
                       case sentinel_scan P c r (bs_slen r) l of
                         Inl e \<Rightarrow> Some (Inl e)
                       | Inr (r, i) \<Rightarrow>
                           if i < l then Some (push_back s r (i + 1) l)
                           else fill_lines A P c rlo rd s (r\<lparr> bs_slen := i32 (bs_slen r + l) \<rparr>))"

text \<open>The common part of \<open>bsreadlna\<close> and \<open>bsreadlnsa\<close>, which differ in the test and the sentinel.\<close>

definition read_line ::
    "allocator \<Rightarrow> (char \<Rightarrow> bool) \<Rightarrow> char \<Rightarrow> tagbstring \<Rightarrow> tagbstring \<Rightarrow> 'st bStream \<Rightarrow> 'st stream_result" where
  "read_line A P c r b s =
     (let l = bs_slen b
      in bind_opt (Some (balloc A (Some b) (i32 (maxBuffSz s + 1)))) (\<lambda>(ret, p).
         if ret \<noteq> BSTR_OK then Some (Inr (BSTR_ERR, Some r, Some (s\<lparr> buff := p \<rparr>)))
         else
           bind_opt (Some (sentinel_scan P c (the p) 0 l)) (\<lambda>(b, i).
             if i < l then
               bind_opt (Some (bconcat_buf A (Some r) (Apart (Some (blk2tbstr (bs_data b) (i + 1)))))) (\<lambda>(ret, r).
                 if ret = BSTR_OK then
                   bind_opt (Some (bdelete (Some (b\<lparr> bs_slen := l \<rparr>)) 0 (i + 1))) (\<lambda>(_, b).
                     Some (Inr (0, r, Some (s\<lparr> buff := b \<rparr>))))
                 else Some (Inr (0, r, Some (s\<lparr> buff := Some (b\<lparr> bs_slen := l \<rparr>) \<rparr>))))
             else
               bind_opt (Some (bconcat_buf A (Some r) (Apart (Some (blk2tbstr (bs_data b) l))))) (\<lambda>(ret, r').
                 if ret \<noteq> BSTR_OK then Some (Inr (BSTR_ERR, r', Some (s\<lparr> buff := Some b \<rparr>)))
                 else
                   case readFnPtr s of
                     None \<Rightarrow> Some (Inl NullDeref)
                   | Some rd \<Rightarrow> fill_lines A P c (bs_slen r) rd (s\<lparr> buff := Some b \<rparr>) (the r')))))"

definition bsreadlna :: "allocator \<Rightarrow> tagbstring option \<Rightarrow> 'st bStream option \<Rightarrow> char \<Rightarrow> 'st stream_result" where
  "bsreadlna A p s tm =
     (case (s, p) of
        (Some t, Some r) \<Rightarrow>
          (case buff t of
             None \<Rightarrow> Some (Inr (BSTR_ERR, p, s))
           | Some b \<Rightarrow>
               if bs_mlen r \<le> 0 \<or> bs_slen r < 0 \<or> bs_mlen r < bs_slen r then Some (Inr (BSTR_ERR, p, s))
               else read_line A (\<lambda>x. x = tm) tm r b t)
      | _ \<Rightarrow> Some (Inr (BSTR_ERR, p, s)))"

definition bsreadlnsa :: "allocator \<Rightarrow> tagbstring option \<Rightarrow> 'st bStream option \<Rightarrow> tagbstring option \<Rightarrow> 'st stream_result" where
  "bsreadlnsa A p s tm =
     (case (s, p, tm) of
        (Some t, Some r, Some x) \<Rightarrow>
          (case buff t of
             None \<Rightarrow> Some (Inr (BSTR_ERR, p, s))
           | Some b \<Rightarrow>
               if bs_data x = None \<or> bs_mlen r \<le> 0 \<or> bs_slen r < 0 \<or> bs_mlen r < bs_slen r then Some (Inr (BSTR_ERR, p, s))
               else if bs_slen x = 1 then bind_opt (Some (fetch x 0)) (\<lambda>c. bsreadlna A p s c)
               else if bs_slen x < 1 then Some (Inr (BSTR_ERR, p, s))
               else
                 bind_opt (Some (buildCharField tm)) (\<lambda>cf.
                   case cf of
                     None \<Rightarrow> Some (Inr (BSTR_ERR, p, s))
                   | Some cf \<Rightarrow> bind_opt (Some (fetch x 0)) (\<lambda>c. read_line A (testInCharField cf) c r b t)))
      | _ \<Rightarrow> Some (Inr (BSTR_ERR, p, s)))"

definition bsreadln :: "allocator \<Rightarrow> tagbstring option \<Rightarrow> 'st bStream option \<Rightarrow> char \<Rightarrow> 'st stream_result" where
  "bsreadln A p s tm =
     (case (s, p) of
        (Some t, Some r) \<Rightarrow>
          if buff t = None \<or> bs_mlen r \<le> 0 then Some (Inr (BSTR_ERR, p, s))
          else
            bind_opt (Some (balloc A (buff t) (i32 (maxBuffSz t + 1)))) (\<lambda>(ret, b).
              if ret \<noteq> BSTR_OK then Some (Inr (BSTR_ERR, p, Some (t\<lparr> buff := b \<rparr>)))
              else bsreadlna A (Some (r\<lparr> bs_slen := 0 \<rparr>)) (Some (t\<lparr> buff := b \<rparr>)) tm)
      | _ \<Rightarrow> Some (Inr (BSTR_ERR, p, s)))"

definition bsreadlns :: "allocator \<Rightarrow> tagbstring option \<Rightarrow> 'st bStream option \<Rightarrow> tagbstring option \<Rightarrow> 'st stream_result" where
  "bsreadlns A p s tm =
     (case (s, p, tm) of
        (Some t, Some r, Some x) \<Rightarrow>
          if buff t = None \<or> bs_data x = None \<or> bs_mlen r \<le> 0 then Some (Inr (BSTR_ERR, p, s))
          else if bs_slen x = 1 then bind_opt (Some (fetch x 0)) (\<lambda>c. bsreadln A p s c)
          else if bs_slen x < 1 then Some (Inr (BSTR_ERR, p, s))
          else
            bind_opt (Some (balloc A (buff t) (i32 (maxBuffSz t + 1)))) (\<lambda>(ret, b).
              if ret \<noteq> BSTR_OK then Some (Inr (BSTR_ERR, p, Some (t\<lparr> buff := b \<rparr>)))
              else bsreadlnsa A (Some (r\<lparr> bs_slen := 0 \<rparr>)) (Some (t\<lparr> buff := b \<rparr>)) tm)
      | _ \<Rightarrow> Some (Inr (BSTR_ERR, p, s)))"

subsection \<open>Reading a number of bytes\<close>

definition empty_err :: "tagbstring \<Rightarrow> int" where
  "empty_err r = (if bs_slen r = 0 then BSTR_ERR else 0)"

text \<open>After the loop of \<open>bsreada\<close>.\<close>

definition bsreada_end :: "'st bStream \<Rightarrow> tagbstring \<Rightarrow> tagbstring \<Rightarrow> int \<Rightarrow> int \<times> tagbstring option \<times> 'st bStream option" where
  "bsreada_end s b r l =
     (empty_err r, Some r, Some (s\<lparr> buff := Some (b\<lparr> bs_slen := max l 0 \<rparr>), isEOF := (isEOF s \<or> l \<le> 0) \<rparr>))"

text \<open>The buffer \<open>b\<close> holds \<open>l\<close> bytes, and \<open>r\<close> is to become \<open>n\<close> long.\<close>

partial_function (option) bsreada_loop ::
    "allocator \<Rightarrow> int \<Rightarrow> 'st bStream \<Rightarrow> tagbstring \<Rightarrow> tagbstring \<Rightarrow> int \<Rightarrow> 'st stream_result" where
  "bsreada_loop A n s b r l =
     (if i32 (l + bs_slen r) \<ge> n then
        let k = i32 (n - bs_slen r)
        in bind_opt (Some (bconcat_buf A (Some r) (Apart (Some (blk2tbstr (bs_data b) k))))) (\<lambda>(ret, r).
             if ret = BSTR_OK then
               bind_opt (Some (bdelete (Some (b\<lparr> bs_slen := l \<rparr>)) 0 k)) (\<lambda>(_, b). Some (Inr (empty_err (the r), r, Some (s\<lparr> buff := b \<rparr>))))
             else Some (Inr (empty_err (the r), r, Some (s\<lparr> buff := Some (b\<lparr> bs_slen := l \<rparr>) \<rparr>))))
      else
        case bconcat_buf A (Some r) (Apart (Some (blk2tbstr (bs_data b) l))) of
          Inl e \<Rightarrow> Some (Inl e)
        | Inr (ret, r) \<Rightarrow>
            if ret \<noteq> BSTR_OK then Some (Inr (bsreada_end s b (the r) l))
            else
              case readFnPtr s of
                None \<Rightarrow> Some (Inl NullDeref)
              | Some rd \<Rightarrow>
                  case rd (handle s) (min (i32 (n - bs_slen (the r))) (maxBuffSz s)) of (t, st) \<Rightarrow>
                    case blit b 0 t of
                      Inl e \<Rightarrow> Some (Inl e)
                    | Inr b \<Rightarrow>
                        if int (length t) > 0 then bsreada_loop A n (s\<lparr> handle := st \<rparr>) b (the r) (int (length t))
                        else Some (Inr (bsreada_end (s\<lparr> handle := st \<rparr>) b (the r) (int (length t)))))"

definition bsreada :: "allocator \<Rightarrow> tagbstring option \<Rightarrow> 'st bStream option \<Rightarrow> int \<Rightarrow> 'st stream_result" where
  "bsreada A p s n =
     (case (s, p) of
        (Some t, Some r) \<Rightarrow>
          (case buff t of
             None \<Rightarrow> Some (Inr (BSTR_ERR, p, s))
           | Some b \<Rightarrow>
               if bs_mlen r \<le> 0 \<or> bs_slen r < 0 \<or> bs_mlen r < bs_slen r \<or> n \<le> 0 then Some (Inr (BSTR_ERR, p, s))
               else if i32 (n + bs_slen r) \<le> 0 then Some (Inr (BSTR_ERR, p, s))
               else
                 bind_opt (Some (balloc A (Some b) (i32 (maxBuffSz t + 1)))) (\<lambda>(ret, b').
                   if ret \<noteq> BSTR_OK then Some (Inr (BSTR_ERR, p, Some (t\<lparr> buff := b' \<rparr>)))
                   else bsreada_loop A (i32 (n + bs_slen r)) t (the b') r (bs_slen b)))
      | _ \<Rightarrow> Some (Inr (BSTR_ERR, p, s)))"

definition bsread :: "allocator \<Rightarrow> tagbstring option \<Rightarrow> 'st bStream option \<Rightarrow> int \<Rightarrow> 'st stream_result" where
  "bsread A p s n =
     (case (s, p) of
        (Some t, Some r) \<Rightarrow>
          if buff t = None \<or> bs_mlen r \<le> 0 \<or> n \<le> 0 then Some (Inr (BSTR_ERR, p, s))
          else
            bind_opt (Some (balloc A (buff t) (i32 (maxBuffSz t + 1)))) (\<lambda>(ret, b).
              if ret \<noteq> BSTR_OK then Some (Inr (BSTR_ERR, p, Some (t\<lparr> buff := b \<rparr>)))
              else bsreada A (Some (r\<lparr> bs_slen := 0 \<rparr>)) (Some (t\<lparr> buff := b \<rparr>)) n)
      | _ \<Rightarrow> Some (Inr (BSTR_ERR, p, s)))"

definition bsunread :: "allocator \<Rightarrow> 'st bStream option \<Rightarrow> barg \<Rightarrow> (int \<times> 'st bStream option) res" where
  "bsunread A s a =
     (case s of
        None \<Rightarrow> Inr (BSTR_ERR, None)
      | Some t \<Rightarrow>
          if buff t = None then Inr (BSTR_ERR, s)
          else bind_res (binsert A (buff t) 0 a (CHR ''?'')) (\<lambda>(ret, b). Inr (ret, Some (t\<lparr> buff := b \<rparr>))))"

definition bspeek :: "allocator \<Rightarrow> tagbstring option \<Rightarrow> 'st bStream option \<Rightarrow> bstr_result" where
  "bspeek A r s =
     (case s of
        None \<Rightarrow> Inr (BSTR_ERR, r)
      | Some t \<Rightarrow> if buff t = None then Inr (BSTR_ERR, r) else bassign A r (Apart (buff t)))"

subsection \<open>Splitting a stream\<close>

definition BSSSC_BUFF_LEN :: int where "BSSSC_BUFF_LEN = 256"

text \<open>\<open>while (bsreada (buff, s, BSSSC_BUFF_LEN) >= 0) ;\<close>\<close>

partial_function (option) drain ::
    "allocator \<Rightarrow> tagbstring option \<Rightarrow> 'st bStream option \<Rightarrow> (tagbstring option \<times> 'st bStream option) res option" where
  "drain A p s =
     (case bsreada A p s BSSSC_BUFF_LEN of
        None \<Rightarrow> None
      | Some (Inl e) \<Rightarrow> Some (Inl e)
      | Some (Inr (ret, p, s)) \<Rightarrow> if ret \<ge> 0 then drain A p s else Some (Inr (p, s)))"

text \<open>
  The loop of \<open>bssplitscb\<close>. The callback gets its parameter, the offset and the piece; it is one
  that does not act on the stream itself.
\<close>

definition refill :: "allocator \<Rightarrow> tagbstring \<Rightarrow> 'st bStream option \<Rightarrow> int \<Rightarrow> (tagbstring \<times> 'st bStream option) res option" where
  "refill A b s i =
     (if i \<ge> bs_slen b then bind_opt (bsreada A (Some b) s BSSSC_BUFF_LEN) (\<lambda>(_, p, s). Some (Inr (the p, s)))
      else Some (Inr (b, s)))"

partial_function (option) ssplit_loop ::
    "allocator \<Rightarrow> charField \<Rightarrow> ('p \<Rightarrow> int \<Rightarrow> tagbstring \<Rightarrow> int \<times> 'p) \<Rightarrow> tagbstring \<Rightarrow> 'st bStream option \<Rightarrow> int \<Rightarrow> int \<Rightarrow> 'p \<Rightarrow>
      (int \<times> 'p \<times> 'st bStream option) res option" where
  "ssplit_loop A cf cb b s i p parm =
     (case refill A b s i of
        None \<Rightarrow> None
      | Some (Inl e) \<Rightarrow> Some (Inl e)
      | Some (Inr (b, s)) \<Rightarrow>
          if i \<ge> bs_slen b then
            case cb parm p b of (ret, parm) \<Rightarrow> Some (Inr (if 0 < ret then 0 else ret, parm, s))
          else
            case fetch b i of
              Inl e \<Rightarrow> Some (Inl e)
            | Inr c \<Rightarrow>
                if testInCharField cf c then
                  case bsunread A s (Apart (Some (blk2tbstr (map_option (drop (nat (i + 1))) (bs_data b)) (bs_slen b - (i + 1))))) of
                    Inl e \<Rightarrow> Some (Inl e)
                  | Inr (ret, s) \<Rightarrow>
                      if ret < 0 then Some (Inr (ret, parm, s))
                      else
                        case store (b\<lparr> bs_slen := i \<rparr>) i NUL of
                          Inl e \<Rightarrow> Some (Inl e)
                        | Inr b \<Rightarrow>
                            case cb parm p b of (ret, parm) \<Rightarrow>
                              if ret < 0 then Some (Inr (ret, parm, s))
                              else
                                case store b i c of
                                  Inl e \<Rightarrow> Some (Inl e)
                                | Inr b \<Rightarrow> ssplit_loop A cf cb (b\<lparr> bs_slen := 0 \<rparr>) s 0 (i32 (p + (i + 1))) parm
                else ssplit_loop A cf cb b s (i + 1) p parm)"

definition bssplitscb ::
    "allocator \<Rightarrow> 'st bStream option \<Rightarrow> tagbstring option \<Rightarrow> ('p \<Rightarrow> int \<Rightarrow> tagbstring \<Rightarrow> int \<times> 'p) \<Rightarrow> 'p \<Rightarrow>
      (int \<times> 'p \<times> 'st bStream option) res option" where
  "bssplitscb A s splitStr cb parm =
     (case (s, splitStr) of
        (Some t, Some x) \<Rightarrow>
          if readFnPtr t = None \<or> bs_slen x < 0 then Some (Inr (BSTR_ERR, parm, s))
          else
            bind_opt (Some (bfromcstr A (Some []))) (\<lambda>b.
              case b of
                None \<Rightarrow> Some (Inr (BSTR_ERR, parm, s))
              | Some b \<Rightarrow>
                  if bs_slen x = 0 then
                    bind_opt (drain A (Some b) s) (\<lambda>(b, s).
                      case cb parm 0 (the b) of (ret, parm) \<Rightarrow> Some (Inr (if ret > 0 then 0 else ret, parm, s)))
                  else
                    bind_opt (Some (buildCharField splitStr)) (\<lambda>cf.
                      case cf of
                        None \<Rightarrow> Some (Inl Undefined)
                      | Some cf \<Rightarrow> ssplit_loop A cf cb b s 0 0 parm))
      | _ \<Rightarrow> Some (Inr (BSTR_ERR, parm, s)))"

end
