(* ===== verification/BstrStreamRep.thy ===== *)
theory BstrStreamRep
  imports BstrStream
begin

text \<open>
  What the input functions of \<open>src/myriad/bstring/bstrlib.c\<close> deliver, whatever the sizes in which
  the reader hands out its bytes.
\<close>

section \<open>Sources\<close>

text \<open>
  \<open>pend\<close> is what is still to come. A reader asked for a positive number of bytes gives a
  beginning of it that is not longer, and nothing only at the end; \<open>fread\<close> gives less than
  asked for only at the end.
\<close>

definition source :: "'st bNread \<Rightarrow> ('st \<Rightarrow> string) \<Rightarrow> bool" where
  "source rd pend \<longleftrightarrow>
     (\<forall>st n. 0 < n \<longrightarrow> (case rd st n of (t, st') \<Rightarrow> pend st = t @ pend st' \<and> int (length t) \<le> n \<and> (t = [] \<longrightarrow> pend st = [])))"

definition full_source :: "'st bNread \<Rightarrow> ('st \<Rightarrow> string) \<Rightarrow> bool" where
  "full_source rd pend \<longleftrightarrow> source rd pend \<and>
     (\<forall>st n. 0 < n \<longrightarrow> (case rd st n of (t, st') \<Rightarrow> int (length t) < n \<longrightarrow> pend st' = []))"

definition char_source :: "'st bNgetc \<Rightarrow> ('st \<Rightarrow> string) \<Rightarrow> bool" where
  "char_source gc pend \<longleftrightarrow>
     (\<forall>st. case gc st of (c, st') \<Rightarrow> (case pend st of [] \<Rightarrow> c < 0 \<and> pend st' = [] | x # xs \<Rightarrow> c = of_char x \<and> pend st' = xs))"

lemma sourceE:
  assumes "source rd pend" "0 < n"
  obtains t st' where "rd st n = (t, st')" "pend st = t @ pend st'" "int (length t) \<le> n" "t = [] \<longrightarrow> pend st = []"
proof (cases "rd st n")
  case (Pair t st')
  note s = assms(1) [unfolded source_def, THEN spec, THEN spec, THEN mp, OF assms(2), of st, unfolded Pair prod.case]
  show thesis using s Pair by (intro that [of t st']) auto
qed

lemma full_sourceE:
  assumes "full_source rd pend" "0 < n"
  obtains t st' where "rd st n = (t, st')" "pend st = t @ pend st'" "int (length t) \<le> n" "int (length t) < n \<longrightarrow> pend st' = []"
proof -
  have s: "source rd pend" using assms(1) by (simp add: full_source_def)
  obtain t st' where r: "rd st n = (t, st')" "pend st = t @ pend st'" "int (length t) \<le> n" by (rule sourceE [OF s assms(2), of st])
  have "case rd st n of (t, st') \<Rightarrow> int (length t) < n \<longrightarrow> pend st' = []" using assms by (auto simp: full_source_def)
  then show thesis using r by (intro that [of t st']) auto
qed

section \<open>Writing behind the contents\<close>

lemma append_blit:
  assumes b: "bstr_buf b s" and room: "int (length (s @ t)) \<le> bs_mlen b"
  obtains b' where "blit b (int (length s)) t = Inr b'" "\<And>l. bstr_buf (b'\<lparr> bs_slen := int (length (s @ t)) \<rparr>) (s @ t)" "bs_mlen b' = bs_mlen b" "bs_slen b' = bs_slen b"
    "bstr_buf b' s"
proof -
  obtain d where d: "bs_data b = Some d" "bs_slen b = int (length s)" "bs_mlen b = int (length d)" "length s \<le> length d"
    "0 < length d" "int (length d) < 2 ^ 31" "take (length s) d = s" using b by (rule bstr_bufE)
  have r: "length s + length t \<le> length d" using room d(3) by simp
  show thesis
  proof (rule that)
    show "blit b (int (length s)) t = Inr (b\<lparr> bs_data := Some (take (length s) d @ t @ drop (length s + length t) d) \<rparr>)" by (rule blit_buf [OF d(1) r])
  qed (use d r in \<open>auto simp: bstr_buf_def\<close>)
qed

lemma seal:
  assumes b: "bstr_buf b s" and room: "int (length s) < bs_mlen b"
  obtains b' where "store b (int (length s)) NUL = Inr b'" "bstr_rep b' s" "bs_slen b' = bs_slen b"
proof -
  obtain d where d: "bs_data b = Some d" "bs_slen b = int (length s)" "bs_mlen b = int (length d)" "length s \<le> length d"
    "0 < length d" "int (length d) < 2 ^ 31" "take (length s) d = s" using b by (rule bstr_bufE)
  show thesis
  proof (rule that)
    show "store b (int (length s)) NUL = Inr (b\<lparr> bs_data := Some (d[length s := NUL]) \<rparr>)" using d room by (simp add: store_def)
  qed (use d room in \<open>simp_all add: bstr_rep_def\<close>)
qed

section \<open>Whole sources\<close>

lemma breada_loop_rep:
  assumes rd: "full_source rd pend" and A: "grants A"
  shows "bstr_buf b s \<Longrightarrow> int (length s) < n \<Longrightarrow> n \<le> int (length s) + BS_BUFF_SZ \<Longrightarrow> int (length s + length (pend st)) + 2048 < 2 ^ 30 \<Longrightarrow>
    \<exists>b' st'. breada_loop A rd st b (int (length s)) n = Some (Inr (0, Some b', st')) \<and> bstr_rep b' (s @ pend st) \<and> pend st' = []"
proof (induction "length (pend st)" arbitrary: b s n st rule: less_induct)
  case less
  note bs = BS_BUFF_SZ_def
  have i: "i32 (n + 1) = n + 1" "i32 (n - int (length s)) = n - int (length s)" "0 < n + 1" "n + 1 < 2 ^ 31" "0 < n - int (length s)" "n + 1 < 2 ^ 30"
    using less.prems by (simp_all add: bs)
  obtain b1 where b1: "balloc A (Some b) (n + 1) = Inr (0, Some b1)" "bstr_buf b1 s" "n + 1 \<le> bs_mlen b1"
    using balloc_buf [OF less.prems(1) i(3,4), of A] A by metis
  obtain t st' where t: "rd st (n - int (length s)) = (t, st')" "pend st = t @ pend st'" "int (length t) \<le> n - int (length s)"
    "int (length t) < n - int (length s) \<longrightarrow> pend st' = []" by (rule full_sourceE [OF rd i(5), of st])
  have "int (length (s @ t)) \<le> bs_mlen b1" using t(3) b1(3) by simp
  then obtain b2 where b2: "blit b1 (int (length s)) t = Inr b2" "bstr_buf (b2\<lparr> bs_slen := int (length (s @ t)) \<rparr>) (s @ t)" "bs_mlen b2 = bs_mlen b1"
    using append_blit [OF b1(2)] by metis
  let ?b = "b2\<lparr> bs_slen := int (length (s @ t)) \<rparr>"
  have i': "i32 (int (length s) + int (length t)) = int (length (s @ t))" using t(3) i(6) by simp
  show ?case
  proof (cases "int (length (s @ t)) < n")
    case True
    then have p: "pend st' = []" "s @ pend st = s @ t" using t(2,4) True by simp_all
    have "int (length (s @ t)) < bs_mlen ?b" using True b1(3) b2(3) by simp
    then obtain b3 where b3: "store ?b (int (length (s @ t))) NUL = Inr b3" "bstr_rep b3 (s @ t)" using seal [OF b2(2)] by metis
    show ?thesis unfolding p(2) using b1(1) t(1) b2(1) i i' b3 p(1) True
      by (subst breada_loop.simps) (simp add: BSTR_OK_def del: length_append of_nat_add)
  next
    case False
    then have n: "n = int (length (s @ t))" "t \<noteq> []" using t(3) less.prems(2) by auto
    let ?n = "n + (if n < BS_BUFF_SZ then n else BS_BUFF_SZ)"
    have n': "i32 ?n = ?n" using i(6) n(1) by (simp add: bs)
    have "0 < n" using less.prems(2) by simp
    then have "\<exists>b' st''. breada_loop A rd st' ?b (int (length (s @ t))) ?n = Some (Inr (0, Some b', st'')) \<and> bstr_rep b' ((s @ t) @ pend st') \<and> pend st'' = []"
      using n t(2) b2(2) less.prems(4) by (intro less.hyps) (simp_all add: bs)
    moreover have "breada_loop A rd st b (int (length s)) n = breada_loop A rd st' ?b (int (length (s @ t))) ?n"
      using b1(1) t(1) b2(1) i i' n' False by (subst breada_loop.simps) (simp add: BSTR_OK_def Let_def del: length_append of_nat_add)
    ultimately show ?thesis using t(2) by simp
  qed
qed

lemma breada_whole:
  assumes rd: "full_source rd pend" and A: "grants A" and b: "bstr_rep b s" and len: "int (length s + length (pend st)) < 2 ^ 29"
  obtains b' st' where "breada A (Some b) (Some rd) st = Some (Inr (0, Some b', st'))" "bstr_rep b' (s @ pend st)" "pend st' = []"
proof -
  obtain d where d: "bs_data b = Some d" "bs_slen b = int (length s)" "bs_mlen b = int (length d)" "length s < length d"
    "int (length d) < 2 ^ 31" "take (length s) d = s" "d ! length s = NUL" using b by (rule bstr_repE)
  have "\<exists>b' st'. breada_loop A rd st b (int (length s)) (int (length s) + 16) = Some (Inr (0, Some b', st')) \<and> bstr_rep b' (s @ pend st) \<and> pend st' = []"
    using len by (intro breada_loop_rep [OF rd A bstr_rep_buf [OF b]]) (simp_all add: BS_BUFF_SZ_def)
  moreover have "i32 (int (length s) + 16) = int (length s) + 16" using len by simp
  moreover have "d \<noteq> []" using d(4) by auto
  ultimately show thesis using d that by (auto simp: breada_def)
qed

lemma bread_whole:
  assumes rd: "full_source rd pend" and A: "grants A" and len: "int (length (pend st)) < 2 ^ 29"
  obtains b' st' where "bread A (Some rd) st = Some (Inr (Some b', st'))" "bstr_rep b' (pend st)" "pend st' = []"
proof -
  obtain b where b: "bfromcstr A (Some []) = Inr (Some b)" "bstr_rep b []" using bfromcstr_creates [of "[]" A] A by (auto simp: creates_def)
  obtain b' st' where "breada A (Some b) (Some rd) st = Some (Inr (0, Some b', st'))" "bstr_rep b' ([] @ pend st)" "pend st' = []"
    using breada_whole [OF rd A b(2), of st] len by auto
  then show thesis using b(1) by (intro that [of b' st']) (simp_all add: bread_def)
qed

section \<open>Lines by characters\<close>

text \<open>A line up to and with its terminator, and what comes after it.\<close>

fun first_line :: "(char \<Rightarrow> bool) \<Rightarrow> string \<Rightarrow> string" where
  "first_line P [] = []"
| "first_line P (c # z) = (if P c then [c] else c # first_line P z)"

definition after_line :: "(char \<Rightarrow> bool) \<Rightarrow> string \<Rightarrow> string" where
  "after_line P z = drop (length (first_line P z)) z"

lemma first_line_after [simp]: "first_line P z @ after_line P z = z"
proof -
  have "take (length (first_line P z)) z = first_line P z" by (induction z) simp_all
  then show ?thesis unfolding after_line_def by (metis append_take_drop_id)
qed

lemma after_line_simps [simp]: "after_line P [] = []" "after_line P (c # z) = (if P c then z else after_line P z)"
  by (simp_all add: after_line_def)

lemma first_line_Nil [simp]: "first_line P z = [] \<longleftrightarrow> z = []"
  by (cases z) simp_all

lemma of_char_int: "(of_char x :: int) = int (of_char x)"
  by (rule of_nat_of_char [symmetric])

lemma char_of_int [simp]: "char_of (nat (of_char x :: int)) = x"
  by (simp only: of_char_int nat_int char_of_char)

lemma of_char_nonneg [simp]: "\<not> of_char x < (0 :: int)" "0 \<le> (of_char x :: int)"
  by (simp_all only: of_char_int)

lemma gets_loop_line:
  fixes tm :: char
  defines "P \<equiv> \<lambda>x. of_char x = schar tm"
  assumes gc: "char_source gc pend" and A: "grants A"
  shows "bstr_buf (b\<lparr> bs_slen := int (length s) \<rparr>) s \<Longrightarrow> int (length s) < bs_mlen b \<Longrightarrow> int (length (s @ pend st)) + 2 < 2 ^ 30 \<Longrightarrow>
    \<exists>b' st' c. gets_loop A gc tm st b (int (length s)) (bs_mlen b - 2) = Some (Inr (b', st', Some (int (length (s @ first_line P (pend st))), c))) \<and>
      bstr_buf (b'\<lparr> bs_slen := int (length (s @ first_line P (pend st))) \<rparr>) (s @ first_line P (pend st)) \<and> int (length (s @ first_line P (pend st))) < bs_mlen b' \<and>
      pend st' = after_line P (pend st) \<and> (c < 0 \<longleftrightarrow> (\<forall>x\<in>set (pend st). \<not> P x))"
proof (induction "pend st" arbitrary: b s st)
  case Nil
  obtain c st' where c: "gc st = (c, st')" by (cases "gc st")
  have "case gc st of (c, st') \<Rightarrow> (case pend st of [] \<Rightarrow> c < 0 \<and> pend st' = [] | x # xs \<Rightarrow> c = of_char x \<and> pend st' = xs)" using gc by (simp add: char_source_def)
  then have p: "c < 0" "pend st' = []" using c Nil.hyps by (simp_all flip: Nil.hyps)
  show ?case using Nil.prems Nil.hyps [symmetric] c p by (subst gets_loop.simps) simp
next
  case (Cons x xs)
  obtain c st' where c: "gc st = (c, st')" by (cases "gc st")
  have "case gc st of (c, st') \<Rightarrow> (case pend st of [] \<Rightarrow> c < 0 \<and> pend st' = [] | x # xs \<Rightarrow> c = of_char x \<and> pend st' = xs)" using gc by (simp add: char_source_def)
  then have p: "c = of_char x" "pend st' = xs" using c by (simp_all flip: Cons.hyps(2))
  let ?n = "int (length s) + 2"
  have i: "i32 ?n = ?n" "0 < ?n" "?n < 2 ^ 31" "i32 (int (length s) + 1) = int (length (s @ [x]))" using Cons.prems(3) by simp_all
  let ?grow = "int (length s) > bs_mlen b - 2"
  obtain b1 where b1: "(if ?grow then balloc A (Some (b\<lparr> bs_slen := int (length s) \<rparr>)) ?n else Inr (BSTR_OK, Some b)) = Inr (BSTR_OK, Some b1)"
    "bstr_buf (b1\<lparr> bs_slen := int (length s) \<rparr>) s" "?n \<le> bs_mlen b1" "(if ?grow then bs_mlen b1 - 2 else bs_mlen b - 2) = bs_mlen b1 - 2"
  proof (cases ?grow)
    case True
    obtain b1 where b1: "balloc A (Some (b\<lparr> bs_slen := int (length s) \<rparr>)) ?n = Inr (0, Some b1)" "bstr_buf b1 s" "?n \<le> bs_mlen b1"
      using balloc_buf [OF Cons.prems(1) i(2,3), of A] A by metis
    have "bs_slen b1 = int (length s)" using b1(2) by (rule bstr_bufE)
    then have "b1\<lparr> bs_slen := int (length s) \<rparr> = b1" by simp
    then show thesis using True b1 by (intro that [of b1]) (simp_all add: BSTR_OK_def)
  next
    case False
    then show thesis using Cons.prems(1) by (intro that [of b]) simp_all
  qed
  obtain d where d: "bs_data (b1\<lparr> bs_slen := int (length s) \<rparr>) = Some d" "bs_slen (b1\<lparr> bs_slen := int (length s) \<rparr>) = int (length s)" "bs_mlen (b1\<lparr> bs_slen := int (length s) \<rparr>) = int (length d)" "length s \<le> length d"
    "0 < length d" "int (length d) < 2 ^ 31" "take (length s) d = s" using b1(2) by (rule bstr_bufE)
  have lt: "length s < length d" using d(3) b1(3) by simp
  let ?b = "b1\<lparr> bs_data := Some (d[length s := x]) \<rparr>"
  have st: "store b1 (int (length s)) (char_of (nat c)) = Inr ?b" using d lt p(1) by (simp add: store_def)
  have buf: "bstr_buf (?b\<lparr> bs_slen := int (length (s @ [x])) \<rparr>) (s @ [x])" using d lt by (simp add: bstr_buf_def take_Suc_conv_app_nth)
  have step: "gets_loop A gc tm st b (int (length s)) (bs_mlen b - 2) =
    (if P x then Some (Inr (?b, st', Some (int (length (s @ [x])), c))) else gets_loop A gc tm st' ?b (int (length (s @ [x]))) (bs_mlen ?b - 2))"
    unfolding gets_loop.simps [of A gc tm st] c prod.case i b1(1) sum.case option.sel st Let_def P_def b1(4) using p(1) by simp
  show ?case
  proof (cases "P x")
    case True
    then show ?thesis using step buf b1(3) p by (simp flip: Cons.hyps(2))
  next
    case False
    have "\<exists>b' st'' c. gets_loop A gc tm st' ?b (int (length (s @ [x]))) (bs_mlen ?b - 2) = Some (Inr (b', st'', Some (int (length ((s @ [x]) @ first_line P (pend st'))), c))) \<and>
      bstr_buf (b'\<lparr> bs_slen := int (length ((s @ [x]) @ first_line P (pend st'))) \<rparr>) ((s @ [x]) @ first_line P (pend st')) \<and> int (length ((s @ [x]) @ first_line P (pend st'))) < bs_mlen b' \<and>
      pend st'' = after_line P (pend st') \<and> (c < 0 \<longleftrightarrow> (\<forall>x\<in>set (pend st'). \<not> P x))"
      using Cons.prems(3) b1(3) p(2) buf by (intro Cons.hyps(1)) (simp_all flip: Cons.hyps(2))
    then show ?thesis using step False p(2) by (simp flip: Cons.hyps(2))
  qed
qed

lemma gets_from_line:
  fixes tm :: char
  defines "P \<equiv> \<lambda>x. of_char x = schar tm"
  assumes gc: "char_source gc pend" and A: "grants A" and b: "bstr_rep b u" and start: "start b = int (length s)" "s = u \<or> s = []"
    and len: "int (length (s @ pend st)) + 2 < 2 ^ 30"
  obtains b' st' where "gets_from A (Some b) (Some gc) st tm start = Some (Inr (if s @ pend st = [] then 1 else 0, Some b', st'))"
    "bstr_rep b' (s @ first_line P (pend st))" "pend st' = after_line P (pend st)"
proof -
  let ?r = "s @ first_line P (pend st)"
  obtain d where d: "bs_data b = Some d" "bs_slen b = int (length u)" "bs_mlen b = int (length d)" "length u < length d"
    "int (length d) < 2 ^ 31" "take (length u) d = u" "d ! length u = NUL" using b by (rule bstr_repE)
  have buf: "bstr_buf (b\<lparr> bs_slen := int (length s) \<rparr>) s" "int (length s) < bs_mlen b" using d start(2) by (auto simp: bstr_buf_def)
  obtain b1 st1 c where b1: "gets_loop A gc tm st b (int (length s)) (bs_mlen b - 2) = Some (Inr (b1, st1, Some (int (length ?r), c)))"
    "bstr_buf (b1\<lparr> bs_slen := int (length ?r) \<rparr>) ?r" "int (length ?r) < bs_mlen b1" "pend st1 = after_line P (pend st)" "c < 0 \<longleftrightarrow> (\<forall>x\<in>set (pend st). \<not> P x)"
    using gets_loop_line [OF gc A buf len, of tm] unfolding P_def by blast
  obtain b2 where b2: "store (b1\<lparr> bs_slen := int (length ?r) \<rparr>) (int (length ?r)) NUL = Inr b2" "bstr_rep b2 ?r" using seal [OF b1(2)] b1(3) by auto
  obtain e where e: "bs_data (b1\<lparr> bs_slen := int (length (s @ first_line P (pend st))) \<rparr>) = Some e" "bs_slen (b1\<lparr> bs_slen := int (length (s @ first_line P (pend st))) \<rparr>) = int (length (s @ first_line P (pend st)))" "bs_mlen (b1\<lparr> bs_slen := int (length (s @ first_line P (pend st))) \<rparr>) = int (length e)" "length (s @ first_line P (pend st)) \<le> length e"
    "0 < length e" "int (length e) < 2 ^ 31" "take (length (s @ first_line P (pend st))) e = (s @ first_line P (pend st))" using b1(2) by (rule bstr_bufE)
  have st: "store b1 (int (length ?r)) NUL = Inr (b1\<lparr> bs_data := Some (e[length ?r := NUL]) \<rparr>)" "b2 = b1\<lparr> bs_data := Some (e[length ?r := NUL]), bs_slen := int (length ?r) \<rparr>"
    using b2(1) e b1(3) by (auto simp: store_def simp del: length_append)
  have ret: "(if int (length ?r) = 0 \<and> c < 0 then 1 else 0 :: int) = (if s @ pend st = [] then 1 else 0)"
    using b1(5) by (cases "?r = []") (auto simp flip: of_nat_add length_append)
  show thesis
  proof (rule that [of b2 st1])
    show "gets_from A (Some b) (Some gc) st tm start = Some (Inr (if s @ pend st = [] then 1 else 0, Some b2, st1))"
      using d start(1) b1(1) st ret by (auto simp: gets_from_def)
    show "bstr_rep b2 ?r" "pend st1 = after_line P (pend st)" by fact+
  qed
qed

text \<open>A terminator below 128 ends the line; one above never does, since a plain \<open>char\<close> is then negative.\<close>

lemma terminator_below: "of_char tm < (128 :: int) \<Longrightarrow> (\<lambda>x. of_char x = schar tm) = (\<lambda>x. x = tm)"
  by (auto simp: schar_def Let_def fun_eq_iff)

lemma terminator_above: "128 \<le> (of_char tm :: int) \<Longrightarrow> (\<lambda>x. of_char x = schar tm) = (\<lambda>x. False)"
proof -
  have "(of_char tm :: int) < 256" by (simp add: of_char_def horner_sum_simps split: char.split)
  then show "128 \<le> (of_char tm :: int) \<Longrightarrow> ?thesis" by (auto simp: schar_def Let_def fun_eq_iff) (metis of_char_nonneg(1) diff_less_0_iff_less)
qed

lemma first_line_never: "first_line (\<lambda>x. False) z = z"
  by (induction z) simp_all

section \<open>Streams\<close>

text \<open>Bytes taken from the front of a buffer whose terminator has been overwritten.\<close>

lemma bdelete_front:
  assumes b: "bstr_buf b v" and room: "int (length v) < bs_mlen b" and k: "0 < k" "k \<le> length v"
  obtains b' where "bdelete (Some b) 0 (int k) = Inr (0, Some b')" "bstr_rep b' (drop k v)" "bs_mlen b' = bs_mlen b"
proof -
  obtain d where d: "bs_data b = Some d" "bs_slen b = int (length v)" "bs_mlen b = int (length d)" "length v \<le> length d"
    "0 < length d" "int (length d) < 2 ^ 31" "take (length v) d = v" using b by (rule bstr_bufE)
  have lt: "length v < length d" using room d(3) by simp
  have i: "i32 (int k) = int k" "i32 (int (length v) - int k) = int (length (drop k v))" using k lt d(6) by simp_all
  let ?e = "if k = length v then d else drop k v @ drop (length v - k) d"
  have e: "length d = length ?e" "length (drop k v) < length d" "take (length (drop k v)) ?e = drop k v" using lt k by auto
  have step: "(if int k \<ge> int (length v) then Inr (b\<lparr> bs_slen := 0 \<rparr>)
      else bind_res (bBlockCopy b 0 b (int k) (int (length (drop k v)))) (\<lambda>b. Inr (b\<lparr> bs_slen := i32 (bs_slen b - int k) \<rparr>)))
    = Inr (b\<lparr> bs_slen := int (length (drop k v)), bs_data := Some ?e \<rparr>)"
  proof (cases "k = length v")
    case True
    then show ?thesis using d(1,2) by (cases b) simp
  next
    case False
    have "take (length v - k) (drop k d) = drop k v" using d(7) k by (metis drop_take)
    then have "memmove b 0 b (int k) (int (length v - k)) = Inr (b\<lparr> bs_data := Some ?e \<rparr>)"
      using memmove_buf [OF d(1) _ d(1), of 0 "length v - k" k] k lt False by simp
    then show ?thesis using False k d(2) i(2) by (simp add: bBlockCopy_def)
  qed
  obtain b' where b': "store (b\<lparr> bs_slen := int (length (drop k v)), bs_data := Some ?e \<rparr>) (int (length (drop k v))) NUL = Inr b'" "bstr_rep b' (drop k v)"
    using finish [OF e d(3,6)] by blast
  have "v \<noteq> []" using k by auto
  then have eq: "bdelete (Some b) 0 (int k) = bind_res (if int k \<ge> int (length v) then Inr (b\<lparr> bs_slen := 0 \<rparr>)
      else bind_res (bBlockCopy b 0 b (int k) (int (length (drop k v)))) (\<lambda>b. Inr (b\<lparr> bs_slen := i32 (bs_slen b - int k) \<rparr>)))
    (\<lambda>b. bind_res (store b (bs_slen b) NUL) (\<lambda>b. Inr (0, Some b)))"
    using bstr_buf_writable [OF b] k d(2) i by (simp add: bdelete.simps Let_def BSTR_OK_def del: length_drop)
  show thesis
  proof (rule that)
    show "bdelete (Some b) 0 (int k) = Inr (0, Some b')"
      unfolding eq step bind_res_simps using b'(1) by simp
    show "bs_mlen b' = bs_mlen b" using b'(1) by (auto simp: store_def split: if_splits)
  qed fact
qed

lemma fetch_slen [simp]: "fetch (b\<lparr> bs_slen := x \<rparr>) i = fetch b i"
  by (simp add: fetch_def)

lemma span_loop_slen [simp]: "span_loop P (b\<lparr> bs_slen := x \<rparr>) i n = span_loop P b i n"
proof (induction n arbitrary: i)
  case (Suc n)
  then show ?case by (cases "fetch b i") simp_all
qed simp

text \<open>The search that a sentinel stops.\<close>

lemma sentinel_scan_data:
  assumes d: "bs_data b = Some d" "take (length u + length v) d = u @ v" "length u + length v < length d" and c: "P c"
  shows "sentinel_scan P c b (int (length u)) (int (length v)) =
    Inr (b\<lparr> bs_data := Some (d[length u + length v := c]) \<rparr>, int (length (takeWhile (\<lambda>x. \<not> P x) v)))"
proof -
  let ?b = "b\<lparr> bs_data := Some (d[length u + length v := c]) \<rparr>"
  obtain w z where v: "v = w @ z" "takeWhile (\<lambda>x. \<not> P x) v = w" "dropWhile (\<lambda>x. \<not> P x) v = z"
    using takeWhile_dropWhile_id [of "\<lambda>x. \<not> P x" v] by metis
  have st: "store b (int (length u) + int (length v)) c = Inr ?b" using d by (simp add: store_def nat_add_distrib)
  have "take (length u + length v + 1) (d[length u + length v := c]) = (u @ v) @ [c]" using d by (simp add: take_Suc_conv_app_nth)
  then have h: "holds (?b\<lparr> bs_slen := int (length (u @ w @ z @ [c])) \<rparr>) (u @ w @ z @ [c])" using d(3) v(1) by (simp add: holds_def)
  have w: "\<forall>x\<in>set w. \<not> P x" "z @ [c] = [] \<or> P (hd (z @ [c]))"
    using set_takeWhileD [of _ "\<lambda>x. \<not> P x" v, unfolded v(2)] hd_dropWhile [of "\<lambda>x. \<not> P x" v, unfolded v(3)] c by (auto simp: hd_append)
  have n: "nat (int (length v)) + 1 = length w + length (z @ [c])" by (subst v(1)) simp
  show ?thesis unfolding sentinel_scan_def st bind_res_simps n using span_loop_holds [OF h w, unfolded span_loop_slen] by (simp add: v(2) del: length_append)
qed

lemma first_line_none: "\<forall>x\<in>set t. \<not> P x \<Longrightarrow> first_line P (t @ z) = t @ first_line P z \<and> after_line P (t @ z) = after_line P z"
  by (induction t) auto

lemma first_line_some: "\<exists>x\<in>set t. P x \<Longrightarrow> first_line P (t @ z) = take (Suc (length (takeWhile (\<lambda>x. \<not> P x) t))) t \<and>
    after_line P (t @ z) = drop (Suc (length (takeWhile (\<lambda>x. \<not> P x) t))) t @ z \<and> length (takeWhile (\<lambda>x. \<not> P x) t) < length t"
  by (induction t) auto

lemma no_hit_length: "length (takeWhile (\<lambda>x. \<not> P x) t) = length t \<longleftrightarrow> (\<forall>x\<in>set t. \<not> P x)"
  by (induction t) auto

text \<open>A stream with \<open>z\<close> to come, of which the buffer holds a part.\<close>

definition stream_rep :: "'st bNread \<Rightarrow> ('st \<Rightarrow> string) \<Rightarrow> 'st bStream \<Rightarrow> string \<Rightarrow> bool" where
  "stream_rep rd pend s z \<longleftrightarrow>
     (\<exists>b v. buff s = Some b \<and> bstr_buf b v \<and> int (length v) < bs_mlen b \<and> readFnPtr s = Some rd \<and>
        0 < maxBuffSz s \<and> maxBuffSz s < 2 ^ 28 \<and> z = v @ pend (handle s))"

lemma push_back_rep:
  assumes r: "bs_data r = Some e" "bs_slen r = int (length u)" "bs_mlen r = int (length e)" "int (length e) < 2 ^ 31" "take (length u + length t) e = u @ t" "length u + length t < length e"
    and k: "k \<le> length t" and b: "buff s = Some b" "bstr_buf b w" "int (length t) < bs_mlen b"
  obtains r' b' where "push_back s r (int k) (int (length t)) = Inr (0, Some r', Some (s\<lparr> buff := Some b' \<rparr>))"
    "bstr_rep r' (u @ take k t)" "bstr_buf b' (drop k t)" "bs_mlen b' = bs_mlen b"
proof -
  let ?n = "length u + k"
  obtain d where d: "bs_data b = Some d" "bs_slen b = int (length w)" "bs_mlen b = int (length d)" "length w \<le> length d"
    "0 < length d" "int (length d) < 2 ^ 31" "take (length w) d = w" using b(2) by (rule bstr_bufE)
  have n: "i32 (int (length u) + int k) = int ?n" using r(4,6) k by simp
  have e: "take (length t - k) (drop ?n e) = drop k t" "take ?n e = u @ take k t"
  proof -
    have "take (length t - k) (drop ?n e) = drop ?n (take (length u + length t) e)" using k by (simp add: drop_take)
    then show "take (length t - k) (drop ?n e) = drop k t" unfolding r(5) by simp
    have "take ?n e = take ?n (take (length u + length t) e)" using k by (simp add: min_def)
    then show "take ?n e = u @ take k t" unfolding r(5) by simp
  qed
  let ?b = "b\<lparr> bs_slen := int (length t) - int k, bs_data := Some (drop k t @ drop (length t - k) d) \<rparr>"
  have "memmove (b\<lparr> bs_slen := int (length t) - int k \<rparr>) 0 r (int ?n) (int (length t - k)) = Inr ?b"
    using memmove_buf [of "b\<lparr> bs_slen := int (length t) - int k \<rparr>" d 0 "length t - k" r e ?n] d(1,3) b(3) r(1,6) k e(1) by simp
  then have mv: "memmove (b\<lparr> bs_slen := int (length t) - int k \<rparr>) 0 r (int ?n) (int (length t) - int k) = Inr ?b" using k by (simp add: of_nat_diff)
  have lt: "length (u @ take k t) < length e" using r(6) k by simp
  have ln: "length (u @ take k t) = ?n" using k by simp
  obtain r' where r': "store (r\<lparr> bs_slen := int ?n, bs_data := Some e \<rparr>) (int ?n) NUL = Inr r'" "bstr_rep r' (u @ take k t)"
    using finish [OF refl lt _ r(3,4)] e(2) unfolding ln by auto
  have re: "r\<lparr> bs_slen := int ?n, bs_data := Some e \<rparr> = r\<lparr> bs_slen := int ?n \<rparr>" using r(1) by (cases r) simp
  show thesis
  proof (rule that)
    show "push_back s r (int k) (int (length t)) = Inr (0, Some r', Some (s\<lparr> buff := Some ?b \<rparr>))"
      unfolding push_back_def r(2) n Let_def b(1) option.sel mv bind_res_simps using r'(1) unfolding re by (simp add: BSTR_OK_def)
    show "bstr_buf ?b (drop k t)" using d b(3) k by (auto simp: bstr_buf_def)
  qed (use r' in simp_all)
qed

lemma fill_lines_rep:
  assumes rd: "source rd pend" and A: "grants A" and c: "P c"
  shows "bstr_buf r u \<Longrightarrow> buff s = Some b \<Longrightarrow> bstr_buf b w \<Longrightarrow> maxBuffSz s < bs_mlen b \<Longrightarrow> readFnPtr s = Some rd \<Longrightarrow> 0 < maxBuffSz s \<Longrightarrow> maxBuffSz s < 2 ^ 28 \<Longrightarrow>
    int (length u + length (pend (handle s))) < 2 ^ 28 \<Longrightarrow> rlo \<le> int (length u) \<Longrightarrow>
    \<exists>r' s'. fill_lines A P c rlo rd s r = Some (Inr (if pend (handle s) = [] \<and> int (length u) = rlo then -1 else 0, Some r', Some s')) \<and>
      bstr_rep r' (u @ first_line P (pend (handle s))) \<and> stream_rep rd pend s' (after_line P (pend (handle s)))"
proof (induction "length (pend (handle s))" arbitrary: s r u rule: less_induct)
  case less
  let ?m = "maxBuffSz s" and ?z = "pend (handle s)"
  let ?n = "int (length u) + ?m + 1"
  have n: "i32 ?n = ?n" "0 < ?n" "?n < 2 ^ 31" using less.prems(6-8) by simp_all
  have slen: "bs_slen r = int (length u)" using less.prems(1) by (rule bstr_bufE)
  obtain r1 where r1: "balloc A (Some r) ?n = Inr (0, Some r1)" "bstr_buf r1 u" "?n \<le> bs_mlen r1" using balloc_buf [OF less.prems(1) n(2,3), of A] A by metis
  obtain d where d: "bs_data r1 = Some d" "bs_slen r1 = int (length u)" "bs_mlen r1 = int (length d)" "length u \<le> length d"
    "0 < length d" "int (length d) < 2 ^ 31" "take (length u) d = u" using r1(2) by (rule bstr_bufE)
  obtain t st where t: "rd (handle s) ?m = (t, st)" "?z = t @ pend st" "int (length t) \<le> ?m" "t = [] \<longrightarrow> ?z = []" by (rule sourceE [OF rd less.prems(6), of "handle s"])
  have room: "length u + length t < length d" using t(3) r1(3) d(3) by linarith
  let ?d = "take (length u) d @ t @ drop (length u + length t) d"
  let ?r2 = "r1\<lparr> bs_data := Some ?d \<rparr>" and ?s = "s\<lparr> handle := st \<rparr>"
  have bl: "blit r1 (int (length u)) t = Inr ?r2" using blit_buf [OF d(1), of "length u" t] room by simp
  have r2: "bs_data ?r2 = Some ?d" "bs_slen ?r2 = int (length u)" "bs_mlen ?r2 = int (length ?d)" "int (length ?d) < 2 ^ 31" "take (length u + length t) ?d = u @ t" "length u + length t < length ?d"
    using d room by simp_all
  note step = fill_lines.simps [of A P c rlo rd s r, unfolded slen n(1) r1(1) sum.case prod.case option.sel d(2) t(1) bl Let_def]
  show ?case
  proof (cases "t = []")
    case True
    then have z: "?z = []" "pend st = []" using t(2,4) by simp_all
    have "bstr_buf ?r2 u" using r2 d(5) by (auto simp: bstr_buf_def)
    moreover have "int (length u) < bs_mlen ?r2" using r2 by simp
    ultimately obtain r3 where r3: "store ?r2 (int (length u)) NUL = Inr r3" "bstr_rep r3 u" by (rule seal)
    have "stream_rep rd pend (?s\<lparr> buff := Some (b\<lparr> bs_slen := 0 \<rparr>), isEOF := True \<rparr>) []"
      using less.prems(3-7) z(2) by (auto simp: stream_rep_def bstr_buf_def split: option.splits intro!: exI [of _ "[]"])
    then show ?thesis unfolding step using True z r3 less.prems(2) r2(2) d(2) by (simp add: BSTR_OK_def BSTR_ERR_def)
  next
    case False
    let ?r3 = "r1\<lparr> bs_data := Some (?d[length u + length t := c]) \<rparr>" and ?i = "length (takeWhile (\<lambda>x. \<not> P x) t)"
    have scan: "sentinel_scan P c ?r2 (int (length u)) (int (length t)) = Inr (?r3, int ?i)"
      using sentinel_scan_data [where P = P, OF r2(1,5,6) c] by simp
    have r3: "bs_data ?r3 = Some (?d[length u + length t := c])" "bs_slen ?r3 = int (length u)" "bs_mlen ?r3 = int (length (?d[length u + length t := c]))"
      "int (length (?d[length u + length t := c])) < 2 ^ 31" "take (length u + length t) (?d[length u + length t := c]) = u @ t" "length u + length t < length (?d[length u + length t := c])"
      using r2 d(2) by simp_all
    show ?thesis
    proof (cases "?i < length t")
      case True
      then have "\<exists>x\<in>set t. P x" using no_hit_length [of P t] by auto
      note line = first_line_some [OF this, of "pend st"]
      have tb: "int (length t) < bs_mlen b" using t(3) less.prems(4) by simp
      obtain r' b' where r': "push_back ?s ?r3 (int (Suc ?i)) (int (length t)) = Inr (0, Some r', Some (?s\<lparr> buff := Some b' \<rparr>))"
        "bstr_rep r' (u @ take (Suc ?i) t)" "bstr_buf b' (drop (Suc ?i) t)" "bs_mlen b' = bs_mlen b"
        by (rule push_back_rep [OF r3 Suc_leI [OF True], of ?s b w]) (use less.prems(2,3) tb in simp_all)
      have "stream_rep rd pend (?s\<lparr> buff := Some b' \<rparr>) (drop (Suc ?i) t @ pend st)"
        using less.prems(5-7) r'(3,4) tb unfolding stream_rep_def by (intro exI [of _ b'] exI [of _ "drop (Suc ?i) t"]) simp
      then show ?thesis unfolding step t(2) using line r'(1,2) scan True False d(2) by (simp add: BSTR_OK_def add.commute)
    next
      case no: False
      then have "?i = length t" using length_takeWhile_le [of "\<lambda>x. \<not> P x" t] by linarith
      then have "\<forall>x\<in>set t. \<not> P x" using no_hit_length [of P t] by simp
      note line = first_line_none [OF this, of "pend st"]
      let ?r4 = "?r3\<lparr> bs_slen := int (length (u @ t)) \<rparr>"
      have i: "i32 (int (length u) + int (length t)) = int (length (u @ t))" using room d(6) by simp
      have buf: "bstr_buf ?r4 (u @ t)" using r3 d(5) by (auto simp: bstr_buf_def)
      have tl: "0 < length t" using False by simp
      have "\<exists>r' s'. fill_lines A P c rlo rd ?s ?r4 = Some (Inr (if pend (handle ?s) = [] \<and> int (length (u @ t)) = rlo then -1 else 0, Some r', Some s')) \<and>
        bstr_rep r' ((u @ t) @ first_line P (pend (handle ?s))) \<and> stream_rep rd pend s' (after_line P (pend (handle ?s)))"
        by (rule less.hyps [OF _ buf]) (use less.prems t(2) tl in simp_all)
      moreover have "int (length (u @ t)) \<noteq> rlo" using less.prems(9) tl unfolding length_append of_nat_add by linarith
      moreover have "fill_lines A P c rlo rd s r = fill_lines A P c rlo rd ?s ?r4"
        unfolding step using scan no False i d(2) by (simp add: BSTR_OK_def del: length_append)
      ultimately show ?thesis unfolding t(2) using line False by simp
    qed
  qed
qed

lemma bconcat_apart:
  assumes A: "grants A" and b: "bstr_buf b s" and x: "holds x t" and len: "int (length s + length t) + 1 < 2 ^ 31"
  obtains b' where "bconcat_buf A (Some b) (Apart (Some x)) = Inr (0, Some b')" "bstr_rep b' (s @ t)"
  using bconcat_yields [OF b, of "Apart (Some x)" t A] A x len by (auto simp: yields_def arg_Apart)

lemma stream_repE:
  assumes "stream_rep rd pend s z"
  obtains b v where "buff s = Some b" "bstr_buf b v" "int (length v) < bs_mlen b" "readFnPtr s = Some rd" "0 < maxBuffSz s" "maxBuffSz s < 2 ^ 28" "z = v @ pend (handle s)"
  using assms unfolding stream_rep_def by blast

lemma read_line_rep:
  assumes rd: "source rd pend" and A: "grants A" and c: "P c" and r: "bstr_buf r u" and s: "stream_rep rd pend s z" and b: "buff s = Some b" and len: "int (length u + length z) < 2 ^ 28"
  shows "\<exists>r' s'. read_line A P c r b s = Some (Inr (if z = [] then -1 else 0, Some r', Some s')) \<and> bstr_rep r' (u @ first_line P z) \<and> stream_rep rd pend s' (after_line P z)"
proof -
  obtain v where v: "bstr_buf b v" "int (length v) < bs_mlen b" "readFnPtr s = Some rd" "0 < maxBuffSz s" "maxBuffSz s < 2 ^ 28" "z = v @ pend (handle s)"
    using s b by (auto elim!: stream_repE)
  let ?m = "maxBuffSz s"
  have m: "i32 (?m + 1) = ?m + 1" "0 < ?m + 1" "?m + 1 < 2 ^ 31" using v(4,5) by simp_all
  obtain b1 where b1: "balloc A (Some b) (?m + 1) = Inr (0, Some b1)" "bstr_buf b1 v" "bs_mlen b \<le> bs_mlen b1" "?m + 1 \<le> bs_mlen b1"
    using balloc_buf [OF v(1) m(2,3), of A] A by metis
  have bv: "bs_slen b = int (length v)" using v(1) by (rule bstr_bufE)
  obtain d where d: "bs_data b1 = Some d" "bs_slen b1 = int (length v)" "bs_mlen b1 = int (length d)" "length v \<le> length d"
    "0 < length d" "int (length d) < 2 ^ 31" "take (length v) d = v" using b1(2) by (rule bstr_bufE)
  have lt: "length v < length d" using v(2) b1(3) d(3) by simp
  let ?b2 = "b1\<lparr> bs_data := Some (d[length v := c]) \<rparr>" and ?i = "length (takeWhile (\<lambda>x. \<not> P x) v)"
  have scan: "sentinel_scan P c b1 0 (int (length v)) = Inr (?b2, int ?i)"
    using sentinel_scan_data [where P = P and u = "[]" and v = v, OF d(1) _ _ c] d(7) lt by simp
  have buf: "bstr_buf ?b2 v" using d lt by (simp add: bstr_buf_def)
  have hold: "holds (blk2tbstr (Some (d[length v := c])) (int k)) (take k v)" if "k \<le> length v" for k
  proof -
    have "take k (d[length v := c]) = take k v" using that d(7) by (metis min.absorb1 take_take take_update_cancel order_refl)
    then show ?thesis using that lt by (simp add: holds_def blk2tbstr_def)
  qed
  have ru: "bs_slen r = int (length u)" using r by (rule bstr_bufE)
  note def = read_line_def [of A P c r b s, unfolded Let_def bv m(1) b1(1) bind_opt_simps prod.case option.sel scan]
  show ?thesis
  proof (cases "?i < length v")
    case True
    then have "\<exists>x\<in>set v. P x" using no_hit_length [of P v] by auto
    note line = first_line_some [OF this, of "pend (handle s)"]
    have k: "Suc ?i \<le> length v" using True by simp
    obtain r' where r': "bconcat_buf A (Some r) (Apart (Some (blk2tbstr (Some (d[length v := c])) (int (Suc ?i))))) = Inr (0, Some r')" "bstr_rep r' (u @ take (Suc ?i) v)"
      using bconcat_apart [OF A r hold [OF k]] len v(6) k by auto
    have l2: "?b2\<lparr> bs_slen := int (length v) \<rparr> = ?b2" using d(2) by (cases b1) simp
    obtain b3 where b3: "bdelete (Some ?b2) 0 (int (Suc ?i)) = Inr (0, Some b3)" "bstr_rep b3 (drop (Suc ?i) v)"
      using bdelete_front [OF buf _ _ k] lt d(3) by auto
    have s': "stream_rep rd pend (s\<lparr> buff := Some b3 \<rparr>) (drop (Suc ?i) v @ pend (handle s))"
      using v(3-5) b3(2) bstr_rep_buf [OF b3(2)] unfolding stream_rep_def by (intro exI [of _ b3] exI [of _ "drop (Suc ?i) v"]) (auto elim!: bstr_repE)
    have "read_line A P c r b s = Some (Inr (0, Some r', Some (s\<lparr> buff := Some b3 \<rparr>)))"
      unfolding def using True r'(1) b3(1) l2 by (simp add: BSTR_OK_def add.commute)
    then show ?thesis using line s' r'(2) v(6) k by auto
  next
    case False
    then have "?i = length v" using length_takeWhile_le [of "\<lambda>x. \<not> P x" v] by linarith
    then have "\<forall>x\<in>set v. \<not> P x" using no_hit_length [of P v] by simp
    note line = first_line_none [OF this, of "pend (handle s)"]
    obtain r' where r': "bconcat_buf A (Some r) (Apart (Some (blk2tbstr (Some (d[length v := c])) (int (length v))))) = Inr (0, Some r')" "bstr_rep r' (u @ v)"
      using bconcat_apart [OF A r hold [OF order_refl]] len v(6) by auto
    have "\<exists>r'' s'. fill_lines A P c (int (length u)) rd (s\<lparr> buff := Some ?b2 \<rparr>) r' =
        Some (Inr (if pend (handle (s\<lparr> buff := Some ?b2 \<rparr>)) = [] \<and> int (length (u @ v)) = int (length u) then -1 else 0, Some r'', Some s')) \<and>
      bstr_rep r'' ((u @ v) @ first_line P (pend (handle (s\<lparr> buff := Some ?b2 \<rparr>)))) \<and> stream_rep rd pend s' (after_line P (pend (handle (s\<lparr> buff := Some ?b2 \<rparr>))))"
      by (rule fill_lines_rep [where P = P, OF rd A c bstr_rep_buf [OF r'(2)] _ buf]) (use v b1(4) len in simp_all)
    then obtain r'' s' where f: "fill_lines A P c (int (length u)) rd (s\<lparr> buff := Some ?b2 \<rparr>) r' = Some (Inr (if pend (handle s) = [] \<and> v = [] then -1 else 0, Some r'', Some s'))"
      "bstr_rep r'' (u @ v @ first_line P (pend (handle s)))" "stream_rep rd pend s' (after_line P (pend (handle s)))" by auto
    have "read_line A P c r b s = fill_lines A P c (int (length u)) rd (s\<lparr> buff := Some ?b2 \<rparr>) r'"
      unfolding def using False r'(1) v(3) ru by (simp add: BSTR_OK_def)
    then have "read_line A P c r b s = Some (Inr (if z = [] then -1 else 0, Some r'', Some s'))" unfolding f(1) using v(6) by auto
    then show ?thesis using f(2,3) line v(6) by simp
  qed
qed

text \<open>The functions on streams; a reader that is not there is not asked.\<close>

lemma bsreadlna_line:
  assumes rd: "source rd pend" and A: "grants A" and r: "bstr_buf r u" and s: "stream_rep rd pend s z" and len: "int (length u + length z) < 2 ^ 28"
  shows "\<exists>r' s'. bsreadlna A (Some r) (Some s) c = Some (Inr (if z = [] then -1 else 0, Some r', Some s')) \<and>
    bstr_rep r' (u @ first_line (\<lambda>x. x = c) z) \<and> stream_rep rd pend s' (after_line (\<lambda>x. x = c) z)"
proof -
  obtain b where b: "buff s = Some b" using s by (rule stream_repE)
  obtain d where d: "bs_data r = Some d" "bs_slen r = int (length u)" "bs_mlen r = int (length d)" "length u \<le> length d"
    "0 < length d" "int (length d) < 2 ^ 31" "take (length u) d = u" using r by (rule bstr_bufE)
  show ?thesis using read_line_rep [where P = "\<lambda>x. x = c" and c = c, OF rd A refl r s b len] b d by (auto simp: bsreadlna_def)
qed

lemma bsreadlnsa_line:
  assumes rd: "source rd pend" and A: "grants A" and r: "bstr_buf r u" and s: "stream_rep rd pend s z" and len: "int (length u + length z) < 2 ^ 28" and x: "holds x t" "t \<noteq> []"
  shows "\<exists>r' s'. bsreadlnsa A (Some r) (Some s) (Some x) = Some (Inr (if z = [] then -1 else 0, Some r', Some s')) \<and>
    bstr_rep r' (u @ first_line (\<lambda>x. x \<in> set t) z) \<and> stream_rep rd pend s' (after_line (\<lambda>x. x \<in> set t) z)"
proof -
  obtain b where b: "buff s = Some b" using s by (rule stream_repE)
  obtain d where d: "bs_data r = Some d" "bs_slen r = int (length u)" "bs_mlen r = int (length d)" "length u \<le> length d"
    "0 < length d" "int (length d) < 2 ^ 31" "take (length u) d = u" using r by (rule bstr_bufE)
  have x0: "fetch x 0 = Inr (t ! 0)" using fetch_holds [OF x(1), of 0] x(2) by simp
  have in_t: "t ! 0 \<in> set t" using x(2) by simp
  note f = holds_fields [OF x(1)]
  show ?thesis
  proof (cases "length t = 1")
    case True
    then have "(\<lambda>y. y \<in> set t) = (\<lambda>y. y = t ! 0)" by (cases t) auto
    then show ?thesis using bsreadlna_line [OF rd A r s len, of "t ! 0"] True b d x0 f by (auto simp: bsreadlnsa_def)
  next
    case False
    then have t: "\<not> int (length t) < 1" "int (length t) \<noteq> 1" using x(2) by (cases t, simp_all)
    obtain cf where cf: "buildCharField (Some x) = Inr (Some cf)" "\<forall>c. testInCharField cf c \<longleftrightarrow> c \<in> set t" using buildCharField_holds [OF x] by blast
    then have "testInCharField cf = (\<lambda>c. c \<in> set t)" by auto
    then show ?thesis using read_line_rep [where P = "\<lambda>y. y \<in> set t" and c = "t ! 0", OF rd A in_t r s b len] b d x0 f t cf(1) by (auto simp: bsreadlnsa_def)
  qed
qed

lemma bsreada_loop_rep:
  assumes rd: "source rd pend" and A: "grants A" and n: "int n < 2 ^ 29"
  shows "bstr_buf (b\<lparr> bs_slen := int (length v) \<rparr>) v \<Longrightarrow> int (length v) < bs_mlen b \<Longrightarrow> maxBuffSz s < bs_mlen b \<Longrightarrow> bstr_buf r u \<Longrightarrow> length u < n \<Longrightarrow>
    readFnPtr s = Some rd \<Longrightarrow> 0 < maxBuffSz s \<Longrightarrow> maxBuffSz s < 2 ^ 28 \<Longrightarrow> z = v @ pend (handle s) \<Longrightarrow> int (length u + length z) < 2 ^ 28 \<Longrightarrow>
    \<exists>r' s'. bsreada_loop A (int n) s b r (int (length v)) = Some (Inr (if u = [] \<and> z = [] then -1 else 0, Some r', Some s')) \<and>
      bstr_rep r' (u @ take (n - length u) z) \<and> stream_rep rd pend s' (drop (n - length u) z)"
proof (induction "length (pend (handle s))" arbitrary: b v s r u z rule: less_induct)
  case less
  obtain d where d: "bs_data (b\<lparr> bs_slen := int (length v) \<rparr>) = Some d" "bs_slen (b\<lparr> bs_slen := int (length v) \<rparr>) = int (length v)" "bs_mlen (b\<lparr> bs_slen := int (length v) \<rparr>) = int (length d)" "length v \<le> length d"
    "0 < length d" "int (length d) < 2 ^ 31" "take (length v) d = v" using less.prems(1) by (rule bstr_bufE)
  have bd: "bs_data b = Some d" "bs_mlen b = int (length d)" using d(1,3) by simp_all
  have ru: "bs_slen r = int (length u)" using less.prems(4) by (rule bstr_bufE)
  have hold: "holds (blk2tbstr (bs_data b) (int k)) (take k v)" if "k \<le> length v" for k
  proof -
    have "take k d = take k v" using that d(7) by (metis min.absorb1 take_take)
    then show ?thesis using that bd(1) d(4) by (simp add: holds_def blk2tbstr_def)
  qed
  have i: "i32 (int (length v) + int (length u)) = int (length v) + int (length u)" using less.prems(9,10) by simp
  show ?case
  proof (cases "n \<le> length v + length u")
    case True
    define k where "k = n - length u"
    have k: "0 < k" "k \<le> length v" "i32 (int n - int (length u)) = int k" "length u + k = n" using True less.prems(5) n by (auto simp: k_def)
    obtain r' where r': "bconcat_buf A (Some r) (Apart (Some (blk2tbstr (bs_data b) (int k)))) = Inr (0, Some r')" "bstr_rep r' (u @ take k v)"
      using bconcat_apart [OF A less.prems(4) hold [OF k(2)]] k(2) less.prems(9,10) by auto
    have room: "int (length v) < bs_mlen (b\<lparr> bs_slen := int (length v) \<rparr>)" using less.prems(2) by simp
    obtain b' where b': "bdelete (Some (b\<lparr> bs_slen := int (length v) \<rparr>)) 0 (int k) = Inr (0, Some b')" "bstr_rep b' (drop k v)" "bs_mlen b' = bs_mlen (b\<lparr> bs_slen := int (length v) \<rparr>)"
      by (rule bdelete_front [OF less.prems(1) room k(1,2)])
    have "bs_slen r' = int (length (u @ take k v))" using r'(2) by (rule bstr_repE)
    then have e: "empty_err r' = 0" "\<not> (u = [] \<and> z = [])" using k(1,2) less.prems(9) by (auto simp: empty_err_def)
    have "stream_rep rd pend (s\<lparr> buff := Some b' \<rparr>) (drop k v @ pend (handle s))"
      using less.prems(2,6-8) b'(3) bstr_rep_buf [OF b'(2)] unfolding stream_rep_def by (intro exI [of _ b'] exI [of _ "drop k v"]) simp
    moreover have "take k z = take k v" "drop k z = drop k v @ pend (handle s)" using k(2) less.prems(9) by simp_all
    moreover have "bsreada_loop A (int n) s b r (int (length v)) = Some (Inr (0, Some r', Some (s\<lparr> buff := Some b' \<rparr>)))"
      using True i ru k(3) r'(1) b'(1) e(1) by (subst bsreada_loop.simps) (simp add: BSTR_OK_def)
    ultimately show ?thesis using r'(2) e(2) unfolding k_def [symmetric] by simp
  next
    case False
    obtain r1 where r1: "bconcat_buf A (Some r) (Apart (Some (blk2tbstr (bs_data b) (int (length v))))) = Inr (0, Some r1)" "bstr_rep r1 (u @ v)"
      using bconcat_apart [OF A less.prems(4) hold [OF order_refl]] less.prems(9,10) by auto
    have r1s: "bs_slen r1 = int (length (u @ v))" using r1(2) by (rule bstr_repE)
    let ?l = "min (int n - int (length (u @ v))) (maxBuffSz s)"
    have l: "0 < ?l" "i32 (int n - int (length (u @ v))) = int n - int (length (u @ v))" using False less.prems(7) n by (auto simp: min_def)
    obtain t st where t: "rd (handle s) ?l = (t, st)" "pend (handle s) = t @ pend st" "int (length t) \<le> ?l" "t = [] \<longrightarrow> pend (handle s) = []" by (rule sourceE [OF rd l(1), of "handle s"])
    have tm: "int (length t) \<le> maxBuffSz s" using t(3) by linarith
    have tr: "length t < length d" using tm less.prems(3) bd(2) by linarith
    let ?b = "b\<lparr> bs_data := Some (t @ drop (length t) d) \<rparr>" and ?s = "s\<lparr> handle := st \<rparr>"
    have bl: "blit b 0 t = Inr ?b" using blit_buf [OF bd(1), of 0 t] tr by simp
    have buf: "bstr_buf (?b\<lparr> bs_slen := int (length t) \<rparr>) t" using bd d(5,6) tr by (simp add: bstr_buf_def)
    have step: "bsreada_loop A (int n) s b r (int (length v)) =
      (if t \<noteq> [] then bsreada_loop A (int n) ?s ?b r1 (int (length t)) else Some (Inr (bsreada_end ?s ?b r1 0)))"
    proof -
      have "\<not> int (length v) + int (length u) \<ge> int n" using False by linarith
      then show ?thesis unfolding bsreada_loop.simps [of A "int n" s b r] ru i r1(1) sum.case prod.case option.sel r1s l(2) less.prems(6) option.case t(1) bl
        by (simp add: BSTR_OK_def)
    qed
    have e: "empty_err r1 = (if u @ v = [] then -1 else 0)" using r1s by (simp add: empty_err_def BSTR_ERR_def del: length_append)
    show ?thesis
    proof (cases "t = []")
      case True
      then have z: "pend (handle s) = []" "pend st = []" using t(2,4) by simp_all
      have "stream_rep rd pend (?s\<lparr> buff := Some (?b\<lparr> bs_slen := 0 \<rparr>), isEOF := True \<rparr>) []"
        using less.prems(3,6-8) buf True z(2) unfolding stream_rep_def by (intro exI [of _ "?b\<lparr> bs_slen := 0 \<rparr>"] exI [of _ "[]"]) simp
      then show ?thesis unfolding step using True z less.prems(9) r1(2) r1s False by (auto simp: bsreada_end_def e)
    next
      case t0: False
      have "\<exists>r' s'. bsreada_loop A (int n) ?s ?b r1 (int (length t)) = Some (Inr (if u @ v = [] \<and> t @ pend st = [] then -1 else 0, Some r', Some s')) \<and>
        bstr_rep r' ((u @ v) @ take (n - length (u @ v)) (t @ pend st)) \<and> stream_rep rd pend s' (drop (n - length (u @ v)) (t @ pend st))"
        by (rule less.hyps [OF _ buf _ _ bstr_rep_buf [OF r1(2)]]) (use less.prems tm tr bd(2) t(2) t0 False in simp_all)
      moreover have "take (n - length u) z = v @ take (n - length (u @ v)) (t @ pend st)" "drop (n - length u) z = drop (n - length (u @ v)) (t @ pend st)"
        using False less.prems(9) t(2) by simp_all
      ultimately show ?thesis unfolding step using t0 less.prems(9) t(2) by simp
    qed
  qed
qed

text \<open>The buffer is made large enough first.\<close>

lemma stream_buffer:
  assumes s: "stream_rep rd pend s z" and A: "grants A" and b: "buff s = Some b"
  obtains b' v where "balloc A (Some b) (i32 (maxBuffSz s + 1)) = Inr (0, Some b')" "bs_slen b = int (length v)" "bstr_buf b' v" "int (length v) < bs_mlen b'" "maxBuffSz s < bs_mlen b'"
    "stream_rep rd pend (s\<lparr> buff := Some b' \<rparr>) z" "z = v @ pend (handle s)"
proof -
  obtain v where v: "bstr_buf b v" "int (length v) < bs_mlen b" "readFnPtr s = Some rd" "0 < maxBuffSz s" "maxBuffSz s < 2 ^ 28" "z = v @ pend (handle s)"
    using s b by (auto elim!: stream_repE)
  have m: "i32 (maxBuffSz s + 1) = maxBuffSz s + 1" "0 < maxBuffSz s + 1" "maxBuffSz s + 1 < 2 ^ 31" using v(4,5) by simp_all
  obtain b' where b': "balloc A (Some b) (maxBuffSz s + 1) = Inr (0, Some b')" "bstr_buf b' v" "bs_mlen b \<le> bs_mlen b'" "maxBuffSz s + 1 \<le> bs_mlen b'"
    using balloc_buf [OF v(1) m(2,3), of A] A by metis
  have "bs_slen b = int (length v)" using v(1) by (rule bstr_bufE)
  moreover have "stream_rep rd pend (s\<lparr> buff := Some b' \<rparr>) z" using v b' unfolding stream_rep_def by (intro exI [of _ b'] exI [of _ v]) simp
  ultimately show thesis using m(1) b' v by (intro that [of b' v]) simp_all
qed

lemma bsreada_bytes:
  assumes rd: "source rd pend" and A: "grants A" and r: "bstr_buf r u" and s: "stream_rep rd pend s z" and len: "int (length u + length z) < 2 ^ 28" "0 < n" "int n < 2 ^ 28"
  shows "\<exists>r' s'. bsreada A (Some r) (Some s) (int n) = Some (Inr (if u = [] \<and> z = [] then -1 else 0, Some r', Some s')) \<and>
    bstr_rep r' (u @ take n z) \<and> stream_rep rd pend s' (drop n z)"
proof -
  obtain b where b: "buff s = Some b" "readFnPtr s = Some rd" "0 < maxBuffSz s" "maxBuffSz s < 2 ^ 28" using s by (rule stream_repE)
  obtain d where d: "bs_data r = Some d" "bs_slen r = int (length u)" "bs_mlen r = int (length d)" "length u \<le> length d"
    "0 < length d" "int (length d) < 2 ^ 31" "take (length u) d = u" using r by (rule bstr_bufE)
  obtain b' v where b': "balloc A (Some b) (i32 (maxBuffSz s + 1)) = Inr (0, Some b')" "bs_slen b = int (length v)" "bstr_buf b' v" "int (length v) < bs_mlen b'" "maxBuffSz s < bs_mlen b'"
    "z = v @ pend (handle s)" by (rule stream_buffer [OF s A b(1)])
  have "bs_slen b' = int (length v)" using b'(3) by (rule bstr_bufE)
  then have buf: "bstr_buf (b'\<lparr> bs_slen := int (length v) \<rparr>) v" using b'(3) by (auto simp: bstr_buf_def split: option.splits)
  have i: "i32 (int n + int (length u)) = int (n + length u)" using len by simp
  have "int (n + length u) < 2 ^ 29" using len by simp
  from bsreada_loop_rep [OF rd A this buf b'(4,5) r _ b(2-4) b'(6) len(1)] len(2)
  show ?thesis using b(1) b'(1,2) d i len(2) by (auto simp: bsreada_def BSTR_OK_def)
qed

lemma empty_buf: "bstr_buf r w \<Longrightarrow> bstr_buf (r\<lparr> bs_slen := 0 \<rparr>) []"
  by (erule bstr_bufE) (simp add: bstr_buf_def)

text \<open>Reading a line: what comes is the first line, whatever the sizes of the buffer and of the reads.\<close>

lemma bsreadln_line:
  assumes rd: "source rd pend" and A: "grants A" and r: "bstr_buf r u" and s: "stream_rep rd pend s z" and len: "int (length z) < 2 ^ 28"
  shows "\<exists>r' s'. bsreadln A (Some r) (Some s) c = Some (Inr (if z = [] then -1 else 0, Some r', Some s')) \<and>
    bstr_rep r' (first_line (\<lambda>x. x = c) z) \<and> stream_rep rd pend s' (after_line (\<lambda>x. x = c) z)"
proof -
  obtain b where b: "buff s = Some b" using s by (rule stream_repE)
  obtain b' where b': "balloc A (Some b) (i32 (maxBuffSz s + 1)) = Inr (0, Some b')" "stream_rep rd pend (s\<lparr> buff := Some b' \<rparr>) z" by (rule stream_buffer [OF s A b])
  obtain d where d: "bs_data r = Some d" "bs_slen r = int (length u)" "bs_mlen r = int (length d)" "length u \<le> length d"
    "0 < length d" "int (length d) < 2 ^ 31" "take (length u) d = u" using r by (rule bstr_bufE)
  show ?thesis using bsreadlna_line [OF rd A empty_buf [OF r] b'(2), of c] len b b'(1) d by (auto simp: bsreadln_def BSTR_OK_def)
qed

lemma bsread_bytes:
  assumes rd: "source rd pend" and A: "grants A" and r: "bstr_buf r u" and s: "stream_rep rd pend s z" and len: "int (length z) < 2 ^ 28" "0 < n" "int n < 2 ^ 28"
  shows "\<exists>r' s'. bsread A (Some r) (Some s) (int n) = Some (Inr (if z = [] then -1 else 0, Some r', Some s')) \<and> bstr_rep r' (take n z) \<and> stream_rep rd pend s' (drop n z)"
proof -
  obtain b where b: "buff s = Some b" using s by (rule stream_repE)
  obtain b' where b': "balloc A (Some b) (i32 (maxBuffSz s + 1)) = Inr (0, Some b')" "stream_rep rd pend (s\<lparr> buff := Some b' \<rparr>) z" by (rule stream_buffer [OF s A b])
  obtain d where d: "bs_data r = Some d" "bs_slen r = int (length u)" "bs_mlen r = int (length d)" "length u \<le> length d"
    "0 < length d" "int (length d) < 2 ^ 31" "take (length u) d = u" using r by (rule bstr_bufE)
  show ?thesis using bsreada_bytes [OF rd A empty_buf [OF r] b'(2) _ len(2,3)] len b b'(1) d by (auto simp: bsread_def BSTR_OK_def)
qed

text \<open>
  A loop that reads until \<open>bsreada\<close> fails does not end once something has been read: \<open>bsreada\<close> fails
  only when its first argument is empty.
\<close>

definition reading :: "'st bNread \<Rightarrow> ('st \<Rightarrow> string) \<Rightarrow> tagbstring option \<Rightarrow> 'st bStream option \<Rightarrow> bool" where
  "reading rd pend p s \<longleftrightarrow> (\<exists>r u t z. p = Some r \<and> s = Some t \<and> bstr_buf r u \<and> stream_rep rd pend t z \<and> (u \<noteq> [] \<or> z \<noteq> []) \<and> int (length u + length z) < 2 ^ 28)"

lemma bsreada_reading:
  assumes rd: "source rd pend" and A: "grants A" and r: "reading rd pend p s"
  obtains p' s' where "bsreada A p s BSSSC_BUFF_LEN = Some (Inr (0, p', s'))" "reading rd pend p' s'"
proof -
  obtain r u t z where r: "p = Some r" "s = Some t" "bstr_buf r u" "stream_rep rd pend t z" "u \<noteq> [] \<or> z \<noteq> []" "int (length u + length z) < 2 ^ 28" using r unfolding reading_def by blast
  have ne: "\<not> (u = [] \<and> z = [])" using r(5) by auto
  obtain r' s' where r': "bsreada A (Some r) (Some t) (int 256) = Some (Inr (0, Some r', Some s'))" "bstr_rep r' (u @ take 256 z)" "stream_rep rd pend s' (drop 256 z)"
    using bsreada_bytes [OF rd A r(3,4,6), of 256] unfolding if_not_P [OF ne] by auto
  have "u @ take 256 z \<noteq> []" "length (u @ take 256 z) + length (drop 256 z) = length u + length z" using r(5) by auto
  then have "reading rd pend (Some r') (Some s')" using bstr_rep_buf [OF r'(2)] r'(3) r(6) unfolding reading_def by metis
  then show thesis using r(1,2) r'(1) by (intro that [of "Some r'" "Some s'"]) (simp_all add: BSSSC_BUFF_LEN_def)
qed

lemma drain_diverges:
  assumes rd: "source rd pend" and A: "grants A" and r: "reading rd pend p s"
  shows "drain A p s = None"
proof (rule ccontr)
  assume "drain A p s \<noteq> None"
  then obtain y where y: "drain A p s = Some y" by blast
  have "A = A \<longrightarrow> \<not> reading rd pend p s"
  proof (rule drain.raw_induct [where P = "\<lambda>B p s y. B = A \<longrightarrow> \<not> reading rd pend p s", OF _ y])
    fix f :: "allocator \<Rightarrow> tagbstring option \<Rightarrow> 'a bStream option \<Rightarrow> (tagbstring option \<times> 'a bStream option) res option" and B p s y
    assume IH: "\<And>B p s y. f B p s = Some y \<Longrightarrow> B = A \<longrightarrow> \<not> reading rd pend p s"
      and eq: "(case bsreada B p s BSSSC_BUFF_LEN of None \<Rightarrow> None | Some (Inl e) \<Rightarrow> Some (Inl e)
        | Some (Inr (ret, p, s)) \<Rightarrow> if 0 \<le> ret then f B p s else Some (Inr (p, s))) = Some y"
    show "B = A \<longrightarrow> \<not> reading rd pend p s"
    proof (intro impI notI)
      assume "B = A" and r: "reading rd pend p s"
      obtain p' s' where "bsreada A p s BSSSC_BUFF_LEN = Some (Inr (0, p', s'))" "reading rd pend p' s'" by (rule bsreada_reading [OF rd A r])
      then show False using eq IH \<open>B = A\<close> by auto
    qed
  qed
  then show False using r by simp
qed

end
