(* ===== verification/BstrFormat.thy ===== *)
theory BstrFormat
  imports BstrSplit
begin

text \<open>
  The printf functions of \<open>src/myriad/bstring/bstrlib.c\<close>. What the format and its arguments expand to
  is a parameter \<open>out\<close>; \<open>vsnprintf\<close> stores what fits of it and returns its length.
\<close>

section \<open>Formatting\<close>

definition START_VSNBUFF :: int where "START_VSNBUFF = 16"

definition vsnprintf :: "tagbstring \<Rightarrow> int \<Rightarrow> string \<Rightarrow> (int \<times> tagbstring) res" where
  "vsnprintf b n out =
     (if n \<le> 0 then Inr (int (length out), b)
      else bind_res (blit b 0 (take (nat (n - 1)) out @ [NUL])) (\<lambda>b. Inr (int (length out), b)))"

definition strlen_of :: "tagbstring \<Rightarrow> int res" where
  "strlen_of b =
     (case bs_data b of
        None \<Rightarrow> Inl NullDeref
      | Some d \<Rightarrow> if NUL \<in> set d then Inr (int (length (takeWhile (\<lambda>c. c \<noteq> NUL) d))) else Inl Undefined)"

text \<open>The loop with room for \<open>n\<close> characters; \<open>None\<close> when there is no storage.\<close>

partial_function (option) format_loop :: "allocator \<Rightarrow> string \<Rightarrow> tagbstring \<Rightarrow> int \<Rightarrow> tagbstring option res option" where
  "format_loop A out buff n =
     (case bind_res (vsnprintf buff (i32 (n + 1)) out) (\<lambda>(r, b). bind_res (store b n NUL) (\<lambda>b. bind_res (strlen_of b) (\<lambda>l. Inr (r, b\<lparr> bs_slen := l \<rparr>)))) of
        Inl e \<Rightarrow> Some (Inl e)
      | Inr (r, b) \<Rightarrow>
          if bs_slen b < n then Some (Inr (Some b))
          else
            let n' = (if r > n then r else i32 (n + n))
            in case balloc A (Some b) (i32 (n' + 2)) of
                 Inl e \<Rightarrow> Some (Inl e)
               | Inr (ret, p) \<Rightarrow> if ret \<noteq> BSTR_OK then Some (Inr None) else format_loop A out (the p) n')"

definition format_start :: "allocator \<Rightarrow> string \<Rightarrow> (tagbstring \<times> int) option res" where
  "format_start A fmt =
     (let n = max (i32 (2 * int (length fmt))) START_VSNBUFF
      in bind_res (bfromcstralloc A (i32 (n + 2)) (Some [])) (\<lambda>b.
           case b of
             Some b \<Rightarrow> Inr (Some (b, n))
           | None \<Rightarrow> bind_res (bfromcstralloc A 3 (Some [])) (\<lambda>b. Inr (map_option (\<lambda>b. (b, 1)) b))))"

definition bformat :: "allocator \<Rightarrow> string option \<Rightarrow> string \<Rightarrow> tagbstring option res option" where
  "bformat A fmt out =
     (case fmt of
        None \<Rightarrow> Some (Inr None)
      | Some fmt \<Rightarrow>
          bind_opt (Some (format_start A fmt)) (\<lambda>s.
            case s of None \<Rightarrow> Some (Inr None) | Some (b, n) \<Rightarrow> format_loop A out b n))"

text \<open>\<open>bformata\<close> appends the result with \<open>bconcat\<close>, \<open>bassignformat\<close> assigns it with \<open>bassign\<close>.\<close>

definition format_into ::
    "(tagbstring option \<Rightarrow> barg \<Rightarrow> bstr_result) \<Rightarrow> allocator \<Rightarrow> tagbstring option \<Rightarrow> string option \<Rightarrow> string \<Rightarrow> bstr_result option" where
  "format_into put A p fmt out =
     (case (p, fmt) of
        (Some b, Some f) \<Rightarrow>
          if unwritable b then Some (Inr (BSTR_ERR, p))
          else bind_opt (bformat A fmt out) (\<lambda>buff.
            case buff of None \<Rightarrow> Some (Inr (BSTR_ERR, p)) | Some x \<Rightarrow> Some (put p (Apart (Some x))))
      | _ \<Rightarrow> Some (Inr (BSTR_ERR, p)))"

definition bformata_buf :: "allocator \<Rightarrow> tagbstring option \<Rightarrow> string option \<Rightarrow> string \<Rightarrow> bstr_result option" where
  "bformata_buf A = format_into (bconcat_buf A) A"

definition bassignformat :: "allocator \<Rightarrow> tagbstring option \<Rightarrow> string option \<Rightarrow> string \<Rightarrow> bstr_result option" where
  "bassignformat A = format_into (bassign A) A"

section \<open>The loop ends with the text up to its first zero byte\<close>

definition ctext :: "string \<Rightarrow> string" where
  "ctext out = takeWhile (\<lambda>c. c \<noteq> NUL) out"

lemma ctext_append: "takeWhile (\<lambda>c. c \<noteq> NUL) (t @ NUL # r) = ctext t"
  by (induction t) (simp_all add: ctext_def)

lemma ctext_take: "length (ctext (take n out)) < n \<Longrightarrow> ctext (take n out) = ctext out"
proof (induction out arbitrary: n)
  case (Cons c out)
  then show ?case by (cases n) (auto simp: ctext_def)
qed (simp add: ctext_def)

lemma ctext_full: "n \<le> length (ctext (take n out)) \<Longrightarrow> ctext (take n out) = take n out \<and> n \<le> length out"
proof (induction out arbitrary: n)
  case (Cons c out)
  then show ?case by (cases n) (auto simp: ctext_def split: if_splits)
qed (simp add: ctext_def)

lemma length_ctext_take: "length (ctext (take n out)) \<le> n"
  by (metis ctext_def length_takeWhile_le length_take min.cobounded2 order_trans)

lemma format_pass:
  assumes b: "bstr_buf buff u" and n: "0 < n" "int n + 2 \<le> bs_mlen buff" "int n < 2 ^ 30"
  obtains b where "bind_res (vsnprintf buff (i32 (int n + 1)) out) (\<lambda>(r, b). bind_res (store b (int n) NUL) (\<lambda>b. bind_res (strlen_of b) (\<lambda>l. Inr (r, b\<lparr> bs_slen := l \<rparr>)))) =
    Inr (int (length out), b)" "bstr_rep b (ctext (take n out))" "bs_mlen b = bs_mlen buff"
proof -
  obtain d where d: "bs_data buff = Some d" "bs_slen buff = int (length u)" "bs_mlen buff = int (length d)" "length u \<le> length d"
    "0 < length d" "int (length d) < 2 ^ 31" "take (length u) d = u" using b by (rule bstr_bufE)
  let ?t = "take n out"
  let ?d = "?t @ [NUL] @ drop (length ?t + 1) d"
  let ?e = "?d[n := NUL]"
  have len: "n + 1 < length d" "length ?t \<le> n" using n(2) d(3) by simp_all
  have i: "i32 (int n + 1) = int n + 1" using n(3) by simp
  have v: "vsnprintf buff (int n + 1) out = Inr (int (length out), buff\<lparr> bs_data := Some ?d \<rparr>)"
    using blit_buf [OF d(1), of 0 "?t @ [NUL]"] len by (simp add: vsnprintf_def)
  have st: "store (buff\<lparr> bs_data := Some ?d \<rparr>) (int n) NUL = Inr (buff\<lparr> bs_data := Some ?e \<rparr>)" using len by (simp add: store_def)
  have "take (length ?t) ?e = ?t" using len by (simp add: min_def)
  have at: "?e ! length ?t = NUL" using len by (simp add: nth_list_update)
  have e: "?e = ?t @ NUL # drop (length ?t + 1) ?e"
  proof -
    have "length ?t < length ?e" using len by simp
    from id_take_nth_drop [OF this] show ?thesis using \<open>take (length ?t) ?e = ?t\<close> at by simp
  qed
  have tw: "takeWhile (\<lambda>c. c \<noteq> NUL) ?e = ctext ?t" by (subst e) (simp only: ctext_append)
  have in_e: "NUL \<in> set ?e" by (subst e) simp
  have sl: "strlen_of (buff\<lparr> bs_data := Some ?e \<rparr>) = Inr (int (length (ctext ?t)))" using in_e tw by (simp add: strlen_of_def)
  let ?b = "buff\<lparr> bs_data := Some ?e, bs_slen := int (length (ctext ?t)) \<rparr>"
  have lt: "length (ctext ?t) < length ?e" using length_ctext_take [of n out] len by simp
  have "take (length (ctext ?t)) ?e = ctext ?t" using takeWhile_eq_take [of "\<lambda>c. c \<noteq> NUL" ?e] unfolding tw by simp
  moreover have "?e ! length (ctext ?t) = NUL" using nth_length_takeWhile [of "\<lambda>c. c \<noteq> NUL" ?e] lt unfolding tw by simp
  ultimately have "bstr_rep ?b (ctext ?t)" using d(3,6) len lt by (simp add: bstr_rep_def)
  then show thesis using v st sl i by (intro that [of ?b]) simp_all
qed

lemma format_loop_text:
  assumes A: "grants A" and len: "int (length out) < 2 ^ 27"
  shows "bstr_buf b u \<Longrightarrow> 0 < n \<Longrightarrow> int n + 2 \<le> bs_mlen b \<Longrightarrow> int n < 2 ^ 28 \<Longrightarrow>
    \<exists>b'. format_loop A out b (int n) = Some (Inr (Some b')) \<and> bstr_rep b' (ctext out)"
proof (induction "length out + 1 - n" arbitrary: b u n rule: less_induct)
  case less
  have n30: "int n < 2 ^ 30" using less.prems(4) by simp
  obtain b1 where b1: "bind_res (vsnprintf b (i32 (int n + 1)) out) (\<lambda>(r, b). bind_res (store b (int n) NUL) (\<lambda>b. bind_res (strlen_of b) (\<lambda>l. Inr (r, b\<lparr> bs_slen := l \<rparr>)))) =
    Inr (int (length out), b1)" "bstr_rep b1 (ctext (take n out))" by (rule format_pass [OF less.prems(1-3) n30])
  have slen: "bs_slen b1 = int (length (ctext (take n out)))" using b1(2) by (rule bstr_repE)
  note step = format_loop.simps [of A out b "int n", unfolded b1(1) sum.case prod.case Let_def slen]
  show ?case
  proof (cases "length (ctext (take n out)) < n")
    case True
    then show ?thesis unfolding step using b1(2) ctext_take [OF True] by simp
  next
    case False
    then have full: "n \<le> length out" using ctext_full [of n out] by simp
    define m where "m = (if length out > n then length out else n + n)"
    have m: "n < m" "int m < 2 ^ 28" using full less.prems(2) len by (auto simp: m_def)
    have i: "(if int (length out) > int n then int (length out) else i32 (int n + int n)) = int m" "i32 (int m + 2) = int m + 2" "0 < int m + 2" "int m + 2 < 2 ^ 31"
      using m(2) less.prems(4) by (auto simp: m_def)
    obtain b2 where b2: "balloc A (Some b1) (int m + 2) = Inr (0, Some b2)" "bstr_buf b2 (ctext (take n out))" "int m + 2 \<le> bs_mlen b2"
      using balloc_buf [OF bstr_rep_buf [OF b1(2)] i(3,4), of A] A by metis
    have "\<exists>b'. format_loop A out b2 (int m) = Some (Inr (Some b')) \<and> bstr_rep b' (ctext out)"
      by (rule less.hyps [OF _ b2(2) _ b2(3) m(2)]) (use m(1) full in simp_all)
    then show ?thesis unfolding step i b2(1) sum.case prod.case option.sel using False by (simp add: BSTR_OK_def)
  qed
qed

lemma bformat_text:
  assumes A: "grants A" and len: "int (length out) < 2 ^ 27" "int (length fmt) < 2 ^ 26"
  obtains b where "bformat A (Some fmt) out = Some (Inr (Some b))" "bstr_rep b (ctext out)"
proof -
  define n where "n = max (2 * length fmt) 16"
  have n: "max (i32 (2 * int (length fmt))) START_VSNBUFF = int n" "i32 (int n + 2) = int n + 2" "0 < n" "int n < 2 ^ 28" using len(2) by (auto simp: n_def START_VSNBUFF_def max_def)
  obtain b where b: "bfromcstralloc A (int n + 2) (Some []) = Inr (Some b)" "bstr_rep b []" using bfromcstralloc_creates [of "[]" "int n + 2" A] A n(4) by (auto simp: creates_def)
  have "int n + 2 \<le> bs_mlen b" using b(1) by (auto simp: bfromcstralloc_def bfromcstr_mlen_def Let_def blit_def split: if_splits option.splits)
  from format_loop_text [OF A len(1) bstr_rep_buf [OF b(2)] n(3) this n(4)] show thesis
    using b(1) n that by (auto simp: bformat_def format_start_def Let_def)
qed

lemma bformata_text:
  assumes A: "grants A" and b: "bstr_rep b s" and len: "int (length out) < 2 ^ 27" "int (length fmt) < 2 ^ 26" "int (length s) < 2 ^ 28"
  shows "\<exists>b'. bformata_buf A (Some b) (Some fmt) out = Some (Inr (0, Some b')) \<and> bstr_rep b' (s @ ctext out)"
    "\<exists>b'. bassignformat A (Some b) (Some fmt) out = Some (Inr (0, Some b')) \<and> bstr_rep b' (ctext out)"
proof -
  obtain x where x: "bformat A (Some fmt) out = Some (Inr (Some x))" "bstr_rep x (ctext out)" by (rule bformat_text [OF A len(1,2)])
  have l: "length (ctext out) \<le> length out" by (simp add: ctext_def length_takeWhile_le)
  have a: "arg_holds b (Apart (Some x)) (ctext out)" using x(2) by (simp add: arg_Apart rep_holds bstr_rep_buf)
  have "yields A b (bconcat_buf A (Some b) (Apart (Some x))) (s @ ctext out)" using len l by (intro bconcat_yields [OF bstr_rep_buf [OF b] _ a]) auto
  then show "\<exists>b'. bformata_buf A (Some b) (Some fmt) out = Some (Inr (0, Some b')) \<and> bstr_rep b' (s @ ctext out)"
    using A x(1) bstr_rep_writable [OF b] by (auto simp: bformata_buf_def format_into_def yields_def)
  have "yields A b (bassign A (Some b) (Apart (Some x))) (ctext out)" using len l by (intro bassign_yields [OF b a]) auto
  then show "\<exists>b'. bassignformat A (Some b) (Some fmt) out = Some (Inr (0, Some b')) \<and> bstr_rep b' (ctext out)"
    using A x(1) bstr_rep_writable [OF b] by (auto simp: bassignformat_def format_into_def yields_def)
qed

end
