(* ===== verification/BstrSpec.thy ===== *)
theory BstrSpec
  imports BstrStreamRep BstrFormat
begin

text \<open>
  What the bstring library promises: a string is a list of characters under any sequence of
  editing calls, and a stream is its contents under any sequence of reading calls. Both are
  instances of one refinement. The theory also has the properties of the growth, search,
  replacement and list functions, and the calls that go wrong.
\<close>

section \<open>Refinement of a sequence of calls\<close>

fun runs :: "('b \<Rightarrow> 'e \<Rightarrow> 'b option) \<Rightarrow> 'b \<Rightarrow> 'e list \<Rightarrow> 'b option" where
  "runs step b [] = Some b"
| "runs step b (e # es) = (case step b e of None \<Rightarrow> None | Some b' \<Rightarrow> runs step b' es)"

fun allowed :: "('s \<Rightarrow> 'e \<Rightarrow> bool) \<Rightarrow> ('s \<Rightarrow> 'e \<Rightarrow> 's) \<Rightarrow> 's \<Rightarrow> 'e list \<Rightarrow> bool" where
  "allowed ok spec s [] = True"
| "allowed ok spec s (e # es) = (ok s e \<and> allowed ok spec (spec s e) es)"

locale refinement =
  fixes rep :: "'b \<Rightarrow> 's \<Rightarrow> bool" and step :: "'b \<Rightarrow> 'e \<Rightarrow> 'b option" and spec :: "'s \<Rightarrow> 'e \<Rightarrow> 's" and ok :: "'s \<Rightarrow> 'e \<Rightarrow> bool"
  assumes step_rep: "rep b s \<Longrightarrow> ok s e \<Longrightarrow> \<exists>b'. step b e = Some b' \<and> rep b' (spec s e)"
begin

lemma runs_rep: "rep b s \<Longrightarrow> allowed ok spec s es \<Longrightarrow> \<exists>b'. runs step b es = Some b' \<and> rep b' (foldl spec s es)"
proof (induction es arbitrary: b s)
  case (Cons e es)
  then obtain b' where "step b e = Some b'" "rep b' (spec s e)" using step_rep by fastforce
  then show ?case using Cons by simp
qed simp

end

section \<open>Editing\<close>


definition lit :: "string \<Rightarrow> tagbstring" where
  "lit t = blk2tbstr (Some t) (int (length t))"










lemma lit_holds [simp]: "holds (lit t) t"
  by (simp add: lit_def blk2tbstr_def holds_def)



lemma eq_refl: "eq_byte c c" "eq_caseless c c"
  by (simp_all add: eq_byte_def eq_caseless_def)





section \<open>Reading\<close>

datatype reading_call = Line char | Lines string | Bytes nat

text \<open>The destination, the stream, and what was returned and delivered so far.\<close>

type_synonym 'st reader = "allocator \<times> tagbstring \<times> 'st bStream \<times> (int \<times> string) list"

definition contents :: "tagbstring \<Rightarrow> string" where
  "contents b = take (nat (bs_slen b)) (the (bs_data b))"

fun read_call :: "allocator \<Rightarrow> tagbstring \<Rightarrow> 'st bStream \<Rightarrow> reading_call \<Rightarrow> 'st stream_result" where
  "read_call A r s (Line c) = bsreadln A (Some r) (Some s) c"
| "read_call A r s (Lines t) = bsreadlns A (Some r) (Some s) (Some (lit t))"
| "read_call A r s (Bytes n) = bsread A (Some r) (Some s) (int n)"

definition read_step :: "'st reader \<Rightarrow> reading_call \<Rightarrow> 'st reader option" where
  "read_step = (\<lambda>(A, r, s, out) e.
     case read_call A r s e of
       Some (Inr (ret, Some r', Some s')) \<Rightarrow> Some (A, r', s', out @ [(ret, contents r')])
     | _ \<Rightarrow> None)"

fun taken :: "string \<Rightarrow> reading_call \<Rightarrow> string \<times> string" where
  "taken z (Line c) = (first_line (\<lambda>x. x = c) z, after_line (\<lambda>x. x = c) z)"
| "taken z (Lines t) = (first_line (\<lambda>x. x \<in> set t) z, after_line (\<lambda>x. x \<in> set t) z)"
| "taken z (Bytes n) = (take n z, drop n z)"

text \<open>A call returns -1 exactly when nothing is left to read.\<close>

definition delivered :: "string \<times> (int \<times> string) list \<Rightarrow> reading_call \<Rightarrow> string \<times> (int \<times> string) list" where
  "delivered = (\<lambda>(z, out) e. (snd (taken z e), out @ [(if z = [] then -1 else 0, fst (taken z e))]))"

fun readable :: "string \<times> (int \<times> string) list \<Rightarrow> reading_call \<Rightarrow> bool" where
  "readable (z, out) (Line c) = (int (length z) < 2 ^ 28)"
| "readable (z, out) (Lines t) = (int (length z) < 2 ^ 28 \<and> t \<noteq> [])"
| "readable (z, out) (Bytes n) = (int (length z) < 2 ^ 28 \<and> 0 < n \<and> int n < 2 ^ 28)"

definition reader_rep :: "'st reader \<Rightarrow> string \<times> (int \<times> string) list \<Rightarrow> bool" where
  "reader_rep = (\<lambda>(A, r, s, out) (z, out').
     grants A \<and> (\<exists>u. bstr_buf r u) \<and> (\<exists>rd pend. source rd pend \<and> stream_rep rd pend s z) \<and> out = out')"

lemma contents_rep: "bstr_rep b s \<Longrightarrow> contents b = s"
  by (erule bstr_repE) (simp add: contents_def)

lemma bsreadlns_line:
  assumes rd: "source rd pend" and A: "grants A" and r: "bstr_buf r u" and s: "stream_rep rd pend s z" and len: "int (length z) < 2 ^ 28" and x: "holds x t" "t \<noteq> []"
  shows "\<exists>r' s'. bsreadlns A (Some r) (Some s) (Some x) = Some (Inr (if z = [] then -1 else 0, Some r', Some s')) \<and>
    bstr_rep r' (first_line (\<lambda>x. x \<in> set t) z) \<and> stream_rep rd pend s' (after_line (\<lambda>x. x \<in> set t) z)"
proof -
  obtain b where b: "buff s = Some b" using s by (rule stream_repE)
  obtain b' where b': "balloc A (Some b) (i32 (maxBuffSz s + 1)) = Inr (0, Some b')" "stream_rep rd pend (s\<lparr> buff := Some b' \<rparr>) z" by (rule stream_buffer [OF s A b])
  obtain d where d: "bs_data r = Some d" "bs_slen r = int (length u)" "bs_mlen r = int (length d)" "length u \<le> length d"
    "0 < length d" "int (length d) < 2 ^ 31" "take (length u) d = u" using r by (rule bstr_bufE)
  note f = holds_fields [OF x(1)]
  show ?thesis
  proof (cases "length t = 1")
    case True
    then have "fetch x 0 = Inr (t ! 0)" using fetch_holds [OF x(1), of 0] by simp
    moreover have "(\<lambda>y. y \<in> set t) = (\<lambda>y. y = t ! 0)" using True by (cases t) auto
    ultimately show ?thesis using bsreadln_line [OF rd A r s len, of "t ! 0"] True b d f by (auto simp: bsreadlns_def)
  next
    case False
    then have t: "\<not> int (length t) < 1" "int (length t) \<noteq> 1" using x(2) by (cases t, simp_all)
    then show ?thesis using bsreadlnsa_line [OF rd A empty_buf [OF r] b'(2) _ x] len b b'(1) d f by (auto simp: bsreadlns_def BSTR_OK_def)
  qed
qed

lemma read_call_taken:
  assumes rd: "source rd pend" and A: "grants A" and r: "bstr_buf r u" and s: "stream_rep rd pend s z" and e: "readable (z, out) e"
  shows "\<exists>r' s'. read_call A r s e = Some (Inr (if z = [] then -1 else 0, Some r', Some s')) \<and> bstr_rep r' (fst (taken z e)) \<and> stream_rep rd pend s' (snd (taken z e))"
proof (cases e)
  case (Line c)
  then show ?thesis using bsreadln_line [OF rd A r s, of c] e by auto
next
  case (Lines t)
  then show ?thesis using bsreadlns_line [OF rd A r s _ lit_holds, of t] e by auto
next
  case (Bytes n)
  then show ?thesis using bsread_bytes [OF rd A r s, of n] e by auto
qed

interpretation reads: refinement reader_rep read_step delivered readable
proof
  fix b :: "'a reader" and s e
  assume r: "reader_rep b s" "readable s e"
  obtain A r0 t out where b: "b = (A, r0, t, out)" by (cases b)
  obtain z out' where z: "s = (z, out')" by (cases s)
  have o: "out = out'" "grants A" using r(1) b z by (simp_all add: reader_rep_def)
  obtain u rd pend where u: "bstr_buf r0 u" "source rd pend" "stream_rep rd pend t z" using r(1) b z by (auto simp: reader_rep_def)
  have rz: "readable (z, out') e" using r(2) z by simp
  obtain r' s' where c: "read_call A r0 t e = Some (Inr (if z = [] then -1 else 0, Some r', Some s'))" "bstr_rep r' (fst (taken z e))" "stream_rep rd pend s' (snd (taken z e))"
    using read_call_taken [OF u(2) o(2) u(1,3) rz] by blast
  show "\<exists>b'. read_step b e = Some b' \<and> reader_rep b' (delivered s e)"
  proof (intro exI conjI)
    show "read_step b e = Some (A, r', s', out @ [(if z = [] then -1 else 0, fst (taken z e))])" using b c(1) contents_rep [OF c(2)] by (simp add: read_step_def)
    show "reader_rep (A, r', s', out @ [(if z = [] then -1 else 0, fst (taken z e))]) (delivered s e)"
      using o z u(2) c(3) bstr_rep_buf [OF c(2)] by (auto simp: reader_rep_def delivered_def)
  qed
qed

lemma taken_splits: "fst (taken z e) @ snd (taken z e) = z"
  by (cases e) simp_all

lemma delivered_all: "concat (List.map snd (snd (foldl delivered (z, out) es))) @ fst (foldl delivered (z, out) es) = concat (List.map snd out) @ z"
proof (induction es arbitrary: z out)
  case (Cons e es)
  then show ?case using taken_splits [of z e] by (simp add: delivered_def)
qed simp

section \<open>Properties\<close>

text \<open>Storage as the witnesses use it: every request is granted, and new bytes are zero.\<close>

definition plain_storage :: allocator where
  "plain_storage = \<lparr> a_malloc = (\<lambda>n. True), a_realloc = (\<lambda>n. True), a_fill = (\<lambda>i. NUL) \<rparr>"

definition fresh :: "string \<Rightarrow> tagbstring" where
  "fresh s = \<lparr> bs_mlen = int (length s) + 1, bs_slen = int (length s), bs_data = Some (s @ [NUL]) \<rparr>"

lemma plain_grants [simp]: "grants plain_storage"
  by (simp add: grants_def plain_storage_def)

lemma fresh_rep: "int (length s) + 1 < 2 ^ 31 \<Longrightarrow> bstr_rep (fresh s) s"
  by (simp add: fresh_def bstr_rep_def)



text \<open>
  (C16) When storage is granted: after opening a stream on a source of less than \<open>2 ^ 28\<close> bytes and
  setting its buffer to any positive size below \<open>2 ^ 28\<close>, any sequence of \<open>bsreadln\<close>, \<open>bsreadlns\<close> with
  a non-empty set and \<open>bsread\<close> with a positive count delivers the consecutive parts of the source that
  the list functions give, and returns -1 exactly when nothing was left, whatever the amounts in
  which the reader hands out its bytes.
\<close>

theorem stream_reads_consecutive:
  assumes "source rd pend" "grants A" "bstr_rep r u" "bsopen A (Some rd) st = Inr (Some s0)" "bsbufflength (Some s0) sz = (old, Some s)" "0 < sz" "sz < 2 ^ 28"
    "allowed readable delivered (pend st, []) es"
  shows "\<exists>A' r' s' out. runs read_step (A, r, s, []) es = Some (A', r', s', out) \<and> out = snd (foldl delivered (pend st, []) es) \<and>
    concat (List.map snd out) @ fst (foldl delivered (pend st, []) es) = pend st"
proof -
  obtain b where b: "bfromcstr A (Some []) = Inr (Some b)" "bstr_rep b []" using bfromcstr_creates [of "[]" A] assms(2) by (auto simp: creates_def)
  have "s0 = \<lparr> buff = Some b, handle = st, readFnPtr = Some rd, isEOF = False, maxBuffSz = BS_BUFF_SZ \<rparr>"
    using assms(4) b(1) by (auto simp: bsopen_def split: if_splits)
  then have s: "s = \<lparr> buff = Some b, handle = st, readFnPtr = Some rd, isEOF = False, maxBuffSz = sz \<rparr>" using assms(5,6) by (simp add: bsbufflength_def)
  have "int (length ([] :: string)) < bs_mlen b" using b(2) by (auto elim: bstr_repE)
  then have "stream_rep rd pend s (pend st)" using s bstr_rep_buf [OF b(2)] assms(6,7) unfolding stream_rep_def by auto
  then have "reader_rep (A, r, s, []) (pend st, [])" using assms(1,2) bstr_rep_buf [OF assms(3)] by (auto simp: reader_rep_def)
  from reads.runs_rep [OF this assms(8)] obtain q where q: "runs read_step (A, r, s, []) es = Some q" "reader_rep q (foldl delivered (pend st, []) es)" by blast
  obtain A' r' s' out where o: "q = (A', r', s', out)" by (cases q)
  have "out = snd (foldl delivered (pend st, []) es)" using q(2) o by (auto simp: reader_rep_def split: prod.splits)
  then show ?thesis using q(1) o delivered_all [of "pend st" "[]" es] by auto
qed

text \<open>A reader that gives at most two bytes a call.\<close>

definition two_bytes :: "string bNread" where
  "two_bytes st n = (let k = min 2 (nat n) in (take k st, drop k st))"

lemma two_bytes_source: "source two_bytes (\<lambda>st. st)"
  by (auto simp: source_def two_bytes_def Let_def min_def)

theorem stream_reads_consecutive_witness:
  "\<exists>s0 s A' r' s' out. bsopen plain_storage (Some two_bytes) ''ab;cd'' = Inr (Some s0) \<and> bsbufflength (Some s0) 3 = (1024, Some s) \<and>
    runs read_step (plain_storage, fresh [], s, []) [Line (CHR '';''), Bytes 1, Bytes 2, Line (CHR '';'')] = Some (A', r', s', out) \<and> out = [(0, ''ab;''), (0, ''c''), (0, ''d''), (-1, [])]"
proof -
  obtain b where b: "bfromcstr plain_storage (Some []) = Inr (Some b)" using bfromcstr_creates [of "[]" plain_storage] by (auto simp: creates_def)
  define s0 where "s0 = \<lparr> buff = Some b, handle = ''ab;cd'', readFnPtr = Some two_bytes, isEOF = False, maxBuffSz = BS_BUFF_SZ \<rparr>"
  have o: "bsopen plain_storage (Some two_bytes) ''ab;cd'' = Inr (Some s0)" using b by (simp add: bsopen_def s0_def plain_storage_def)
  have l: "bsbufflength (Some s0) 3 = (1024, Some (s0\<lparr> maxBuffSz := 3 \<rparr>))" by (simp add: bsbufflength_def s0_def BS_BUFF_SZ_def)
  have f: "bstr_rep (fresh []) []" by (rule fresh_rep) simp
  have a: "allowed readable delivered (''ab;cd'', []) [Line (CHR '';''), Bytes 1, Bytes 2, Line (CHR '';'')]" by (simp add: delivered_def)
  have r: "foldl delivered (''ab;cd'', []) [Line (CHR '';''), Bytes 1, Bytes 2, Line (CHR '';'')] = ([], [(0, ''ab;''), (0, ''c''), (0, ''d''), (-1, [])])" by (simp add: delivered_def)
  define s where "s = s0\<lparr> maxBuffSz := 3 \<rparr>"
  define es where "es = [Line (CHR '';''), Bytes 1, Bytes 2, Line (CHR '';'')]"
  have "\<exists>A' r' s' out. runs read_step (plain_storage, fresh [], s, []) es = Some (A', r', s', out) \<and>
      out = snd (foldl delivered (''ab;cd'', []) es) \<and> concat (List.map snd out) @ fst (foldl delivered (''ab;cd'', []) es) = ''ab;cd''"
    by (rule stream_reads_consecutive [where pend = "\<lambda>st. st" and st = "''ab;cd''" and A = plain_storage, OF two_bytes_source plain_grants f o l [folded s_def] _ _ a [folded es_def]]) simp_all
  then show ?thesis unfolding r [folded es_def] snd_conv using o l [folded s_def] unfolding es_def by blast
qed

text \<open>
  The size a buffer grows to: the next power of two above the request, at least 8 and at most
  twice the request; from \<open>2 ^ 30\<close> on exactly the request, without room for a terminator.
\<close>

theorem snapUpSize_next_power:
  "(\<forall>i<8. snapUpSize i = 8) \<and>
   (\<forall>i. 8 \<le> i \<and> i < 2 ^ 30 \<longrightarrow> (\<exists>m. snapUpSize i = 2 ^ m \<and> i < 2 ^ m \<and> 2 ^ m \<le> 2 * i)) \<and>
   (\<forall>i. 2 ^ 30 \<le> i \<and> i < 2 ^ 31 \<longrightarrow> snapUpSize i = i)"
proof (intro conjI allI impI)
  fix i :: int assume i: "8 \<le> i \<and> i < 2 ^ 30"
  then obtain m where m: "2 ^ m \<le> i" "i < 2 ^ Suc m" "3 \<le> m" "m < 31" using power_interval [of i] by auto
  have "m < 30"
  proof (rule ccontr)
    assume "\<not> m < 30"
    then have "(2::int) ^ 30 \<le> 2 ^ m" by (intro power_increasing) simp_all
    with m(1) i show False by simp
  qed
  then show "\<exists>m. snapUpSize i = 2 ^ m \<and> i < 2 ^ m \<and> 2 ^ m \<le> 2 * i" using snapUpSize_power [OF m] m by (intro exI [of _ "Suc m"]) simp
next
  fix i :: int assume "i < 8"
  then show "snapUpSize i = 8" by (simp add: snapUpSize_def)
next
  fix i :: int assume "2 ^ 30 \<le> i \<and> i < 2 ^ 31"
  then show "snapUpSize i = i" using snapUpSize_bounds(4) by blast
qed

theorem snapUpSize_next_power_witness: "\<exists>m. snapUpSize 100 = 2 ^ m \<and> (100 :: int) < 2 ^ m \<and> (2 :: int) ^ m \<le> 200"
  using snapUpSize_next_power [THEN conjunct2, THEN conjunct1, THEN spec, of 100] by simp

lemma match_at_byte: "t \<noteq> [] \<Longrightarrow> match_at eq_byte t s i \<longleftrightarrow> take (length t) (drop i s) = t"
proof (cases "i + length t \<le> length s")
  case True
  then show ?thesis by (simp add: match_at_def eq_byte_def list_eq_iff_nth_eq) metis
next
  case False
  assume "t \<noteq> []"
  then have "0 < length t" by simp
  then have "length s - i < length t" using False by linarith
  then have "length (take (length t) (drop i s)) < length t" by simp
  then show ?thesis using False by (auto simp: match_at_def)
qed

text \<open>
  \<open>binstr\<close> returns the first position from \<open>pos\<close> on at which the second string occurs in the first
  one, and -1 when there is none.
\<close>

theorem binstr_first:
  assumes "holds b s" "holds x t" "int (length s) < 2 ^ 30" "int (length t) < 2 ^ 30" "t \<noteq> []"
  shows "\<exists>r. binstr False (Some b) (int pos) (Some x) = Inr r \<and>
    (r = -1 \<longrightarrow> (\<forall>i\<ge>pos. take (length t) (drop i s) \<noteq> t)) \<and>
    (r \<noteq> -1 \<longrightarrow> int pos \<le> r \<and> take (length t) (drop (nat r) s) = t \<and> (\<forall>i. pos \<le> i \<and> int i < r \<longrightarrow> take (length t) (drop i s) \<noteq> t))"
proof -
  let ?L = "[pos..<Suc (length s) - length t]"
  have "binstr False (Some b) (int pos) (Some x) = Inr (first_occ eq_byte s (int pos) t)"
    using instr_first_occ [where eq = eq_byte and same = False, OF assms(1,2) _ eq_refl(1)] assms(3,4) by (simp add: binstr_def)
  then have r: "binstr False (Some b) (int pos) (Some x) = Inr (found (List.find (match_at eq_byte t s) ?L))" by (simp add: first_occ_def)
  note m = match_at_byte [OF assms(5), of s]
  have in_L: "i \<in> set ?L" if "pos \<le> i" "match_at eq_byte t s i" for i using that by (auto simp: match_at_def)
  show ?thesis
  proof (cases "List.find (match_at eq_byte t s) ?L")
    case None
    then have "\<not> match_at eq_byte t s i" if "pos \<le> i" for i using in_L [OF that] by (auto simp only: find_None_iff)
    then show ?thesis using r None m by (simp add: found_def BSTR_ERR_def)
  next
    case (Some q)
    then obtain k where k: "k < length ?L" "match_at eq_byte t s (?L ! k)" "q = ?L ! k" "\<forall>j<k. \<not> match_at eq_byte t s (?L ! j)" by (auto simp only: find_Some_iff)
    have nth: "?L ! j = pos + j" if "j \<le> k" for j using that k(1) by simp
    have "\<not> match_at eq_byte t s i" if "pos \<le> i" "i < q" for i using k(4) nth [of "i - pos"] that k(3) nth [of k] by (auto dest: spec [of _ "i - pos"])
    then show ?thesis using r Some k(2,3) nth [of k] m by (simp add: found_def nat_int_add)
  qed
qed

theorem binstr_first_witness:
  "\<exists>r. binstr False (Some (lit ''xabcab'')) (int 2) (Some (lit ''ab'')) = Inr r \<and>
    (r = -1 \<longrightarrow> (\<forall>i\<ge>2. take 2 (drop i ''xabcab'') \<noteq> ''ab'')) \<and>
    (r \<noteq> -1 \<longrightarrow> int 2 \<le> r \<and> take 2 (drop (nat r) ''xabcab'') = ''ab'' \<and> (\<forall>i. 2 \<le> i \<and> int i < r \<longrightarrow> take 2 (drop i ''xabcab'') \<noteq> ''ab''))"
  using binstr_first [OF lit_holds lit_holds, of "''xabcab''" "''ab''" 2] by (simp add: numeral_2_eq_2)

text \<open>
  (C39) \<open>bfindreplace\<close> ends and leaves the text in which the occurrences of the first argument from the
  position on, taken from the left without overlap, are replaced by the second, when storage is
  granted, the texts are shorter than \<open>2 ^ 26\<close> and the lengths of the string and the replacement
  have a product below \<open>2 ^ 29\<close>. The arguments may be
  parts of the string itself that reach past the position.
\<close>

theorem bfindreplace_leftmost:
  assumes "grants A" "bstr_rep b s" "arg_holds b a f" "reaches b pos a" "f \<noteq> []" "arg_holds b c r" "reaches b pos c"
    "int (length s) < 2 ^ 26" "int (length f) < 2 ^ 26" "int (length r) < 2 ^ 26" "int (length s) * int (length r) < 2 ^ 29"
  shows "\<exists>b'. bfindreplace A (Some b) a c (int pos) = Some (Inr (0, Some b')) \<and> bstr_rep b' (take pos s @ subst eq_byte f r (drop pos s))"
proof -
  obtain res where "findreplaceengine A eq_byte (Some b) a c (int pos) = Some res" "yields A b res (take pos s @ subst eq_byte f r (drop pos s))"
    using findreplaceengine_yields [where eq = eq_byte, OF assms(2,3,4,6,7,5) eq_refl(1) assms(8-11), of A] by blast
  then show ?thesis using assms(1) by (auto simp: bfindreplace_def yields_def)
qed

theorem bfindreplace_leftmost_witness:
  "\<exists>b'. bfindreplace plain_storage (Some (fresh ''aXbX'')) (Within 1 1) Self (int 0) = Some (Inr (0, Some b')) \<and> bstr_rep b' ''aaXbXbaXbX''"
proof -
  have r: "bstr_rep (fresh ''aXbX'') ''aXbX''" by (rule fresh_rep) simp
  have a: "arg_holds (fresh ''aXbX'') (Within 1 1) ''X''" "arg_holds (fresh ''aXbX'') Self ''aXbX''"
    by (simp_all add: arg_holds_def holds_def blk2tbstr_def fresh_def)
  have c: "reaches (fresh ''aXbX'') 0 (Within 1 1)" "reaches (fresh ''aXbX'') 0 Self" by (simp_all add: reaches_def fresh_def)
  have "take 0 ''aXbX'' @ subst eq_byte ''X'' ''aXbX'' (drop 0 ''aXbX'') = ''aaXbXbaXbX''" by (simp add: match_at_def eq_byte_def All_less_Suc)
  then show ?thesis using bfindreplace_leftmost [OF plain_grants r a(1) c(1) _ a(2) c(2)] by simp
qed

text \<open>
  (C40) When storage is granted, a string shorter than \<open>2 ^ 26\<close> is split by \<open>bsplit\<close> at a character
  into its maximal parts without the character, and \<open>bjoin\<close> with the character gives the string
  again, terminated and within its buffer.
\<close>

theorem split_join_roundtrip:
  assumes "grants A" "holds b s" "int (length s) < 2 ^ 26" "holds x [c]"
  shows "\<exists>bl b'. bsplit A (Some b) c = Some (Inr (Some bl)) \<and> entries bl (split_on (\<lambda>y. y = c) s) \<and> bjoin A (Some bl) (Some x) = Inr (Some b') \<and> bstr_rep b' s"
proof -
  obtain bl b' where "bsplit A (Some b) c = Some (Inr (Some bl))" "bjoin A (Some bl) (Some x) = Inr (Some b')" "bstr_rep b' s" by (rule bsplit_bjoin_id [OF assms])
  moreover obtain bl' where "bsplit A (Some b) c = Some (Inr (Some bl'))" "entries bl' (split_on (\<lambda>y. y = c) s)" by (rule bsplit_entries [OF assms(1-3), of c])
  ultimately show ?thesis by auto
qed

theorem split_join_roundtrip_witness:
  "\<exists>bl b'. bsplit plain_storage (Some (lit ''a,bc,'')) (CHR '','') = Some (Inr (Some bl)) \<and> entries bl [''a'', ''bc'', []] \<and>
    bjoin plain_storage (Some bl) (Some (lit '','')) = Inr (Some b') \<and> bstr_rep b' ''a,bc,''"
  using split_join_roundtrip [OF plain_grants lit_holds _ lit_holds, of "''a,bc,''" "CHR '',''"] by simp

text \<open>
  \<open>bssplitscb\<close> with an empty set of separators never returns on a stream that is not empty: it
  reads until \<open>bsreada\<close> fails, and \<open>bsreada\<close> does not fail once anything has been read.
\<close>

theorem bssplitscb_never_returns:
  assumes "source rd pend" "grants A" "bsopen A (Some rd) st = Inr (Some s)" "pend st \<noteq> []" "int (length (pend st)) < 2 ^ 28" "bs_slen x = 0"
  shows "bssplitscb A (Some s) (Some x) cb q = None"
proof -
  obtain b where b: "bfromcstr A (Some []) = Inr (Some b)" "bstr_rep b []" using bfromcstr_creates [of "[]" A] assms(2) by (auto simp: creates_def)
  have s: "s = \<lparr> buff = Some b, handle = st, readFnPtr = Some rd, isEOF = False, maxBuffSz = BS_BUFF_SZ \<rparr>"
    using assms(3) b(1) by (auto simp: bsopen_def split: if_splits)
  have "int (length ([] :: string)) < bs_mlen b" using b(2) by (auto elim: bstr_repE)
  then have "stream_rep rd pend s (pend st)" using s bstr_rep_buf [OF b(2)] unfolding stream_rep_def by (auto simp: BS_BUFF_SZ_def)
  then have "reading rd pend (Some b) (Some s)" using assms(4,5) bstr_rep_buf [OF b(2)] unfolding reading_def by fastforce
  from drain_diverges [OF assms(1,2) this] show ?thesis using b(1) assms(6) s by (simp add: bssplitscb_def)
qed

theorem bssplitscb_never_returns_witness:
  "\<exists>s. bsopen plain_storage (Some two_bytes) ''a'' = Inr (Some s) \<and> bssplitscb plain_storage (Some s) (Some (lit [])) (\<lambda>q ofs e. (0, q)) () = None"
proof -
  obtain b where b: "bfromcstr plain_storage (Some []) = Inr (Some b)" using bfromcstr_creates [of "[]" plain_storage] by (auto simp: creates_def)
  then obtain s where s: "bsopen plain_storage (Some two_bytes) ''a'' = Inr (Some s)" by (simp add: bsopen_def plain_storage_def)
  have "bs_slen (lit []) = 0" by (simp add: lit_def blk2tbstr_def)
  then show ?thesis using bssplitscb_never_returns [OF two_bytes_source plain_grants s, of "lit []" "\<lambda>q ofs e. (0, q)" "()"] s by simp
qed

text \<open>
  Assigning a string of \<open>2 ^ 30\<close> bytes or more to a smaller buffer writes the terminator past the
  end of the new buffer, which is exactly as large as the string.
\<close>

theorem bassign_terminator_overrun:
  assumes "grants A" "bstr_rep b s" "holds x t" "2 ^ 30 \<le> int (length t)" "int (length t) < 2 ^ 31" "bs_mlen b \<le> int (length t)"
  shows "bassign A (Some b) (Apart (Some x)) = Inl Undefined"
proof -
  obtain d where d: "bs_data b = Some d" "bs_slen b = int (length s)" "bs_mlen b = int (length d)" "length s < length d" using assms(2) by (rule bstr_repE)
  have pos: "0 < int (length t)" "0 < length d" "length s \<le> length d" using assms(4) d(4) by auto
  have mv: "bassign A (Some b) (Apart (Some x)) = Inl Undefined" if b': "balloc A (Some b) (int (length t)) = Inr (0, Some b')" "bs_data b' = Some d'" "length d' = length t" for b' d'
  proof -
    have "memmove b' 0 x 0 (int (length t)) = Inr (b'\<lparr> bs_data := Some t \<rparr>)"
      using blit_buf [OF b'(2), of 0 t] b'(3) load_holds [OF assms(3)] by (simp add: memmove_def)
    then show ?thesis using b'(1) pos(1) holds_fields [OF assms(3)] by (simp add: bassign_def BSTR_OK_def arg_after_def store_def)
  qed
  show ?thesis
  proof (cases rule: balloc_cases [OF d(1,2,3) pos(3,2,1) assms(5), of A, case_names same grown full refused])
    case (grown b' d')
    then show ?thesis using mv snapUpSize_bounds(4) [OF assms(5,4)] by simp
  next
    case full
    then show ?thesis using mv d(1,3) by simp
  qed (use assms in simp_all)
qed

theorem bassign_terminator_overrun_witness: "bassign plain_storage (Some (fresh [])) (Apart (Some (lit (replicate (2 ^ 30) (CHR ''x''))))) = Inl Undefined"
proof -
  define t where "t = replicate (2 ^ 30) (CHR ''x'')"
  have t: "length t = 2 ^ 30" unfolding t_def by (rule length_replicate)
  have n: "int (length t) = 2 ^ 30" by (simp only: t of_nat_power of_nat_numeral)
  have f: "bstr_rep (fresh []) []" "bs_mlen (fresh []) = 1" by (rule fresh_rep) (simp_all add: fresh_def)
  show ?thesis unfolding t_def [symmetric] by (rule bassign_terminator_overrun [OF plain_grants f(1) lit_holds]) (simp_all add: n f(2))
qed

end
