(* ===== verification/Spec2Isabelle.thy ===== *)
theory Spec2Isabelle
  imports NodeFormat ParserFaults Registration Forgery Trust Service BstrSpec
begin

text \<open>
  A model of the Utu hub (\<open>src/\<close>) and of the library code it rests on. A hub accepts connections,
  agrees on keys with each peer, and passes messages between the members that registered for a
  route. Documents on the wire and inside the hub are stackish trees. From the bottom up the
  program has: counted strings (\<open>myriad/bstring\<close>), trees and their parser (\<open>stackish\<close>), messages,
  cryptography, frames and peers (\<open>protocol\<close>), and pointer arrays, queues, members, routes,
  commands, connections and the hub itself (\<open>hub\<close>). The theories follow this order. Each definition
  has the name of the C function, macro or structure it models; loops and shared pieces of
  functions have names of their own.

  \<^bold>\<open>Conventions.\<close>
  \<^item> \<open>Prelude\<close>: a function that can fail an assertion, dereference NULL or use released storage
    returns \<open>'a res\<close>, a sum of \<open>fault\<close> and result; \<open>check\<close> and \<open>on_fail\<close> of \<open>myriad/defend.h\<close> are the
    branches of the model. A NULL pointer is \<open>None\<close>. \<open>errno\<close> is part of the state where \<open>check\<close>
    reads it. \<open>i32\<close> is the wrap-around of \<open>int\<close>; sizes and offsets are \<open>64 word\<close>.
  \<^item> \<open>CStdlib\<close>: printing and reading of numbers, with \<open>errno\<close>; doubles are kept as their 64 bits.
  \<^item> Storage with aliases (messages, members, routes, connections) is a store from allocation
    numbers to records. A released entry is gone, and using it is the fault \<open>Dangling\<close>.
  \<^item> A loop that need not end is a \<open>partial_function\<close>, with \<open>None\<close> for not returning. Theorems about such
    a loop state that it returns \<open>Some\<close>, or that it never does.

  \<^bold>\<open>Strings\<close> (\<open>src/myriad/bstring/bstrlib.c\<close>), on two levels.
  \<^item> \<open>Bstring\<close>: the functions the rest of the program calls, on the contents of a string. The other
    components use this level.
  \<^item> \<open>Bstrlib\<close>, \<open>BstrRep\<close>, \<open>BstrOps\<close>, \<open>BstrSearch\<close>, \<open>BstrEdit\<close>, \<open>BstrReplace\<close>, \<open>BstrSplit\<close>,
    \<open>BstrStream\<close>, \<open>BstrStreamRep\<close>, \<open>BstrFormat\<close>: \<open>struct tagbstring\<close> with its buffer, growth through
    \<open>balloc\<close>, arguments that lie in the buffer being changed, every access checked against the
    buffer. The allocator, the reader of a stream and the text a format expands to are parameters.
    Each function is shown to leave a consistent, terminated buffer that holds the contents a
    function on lists gives.
  \<^item> \<open>BstrSpec\<close>: the contract. The locale \<open>refinement\<close> lifts one call to any sequence of calls; it is
    interpreted for editing calls against lists and for reading calls on a stream against the text
    still to come. Bounds (\<open>2 ^ 24\<close> for editing, \<open>2 ^ 26\<close> for replacing and splitting, \<open>2 ^ 28\<close> for
    streams) keep every sum of lengths in \<open>int\<close>. The theory also shows what happens beyond the
    contract: a terminator written past the buffer from \<open>2 ^ 30\<close> bytes on, and a loop of
    \<open>bssplitscb\<close> that does not end.

  \<^bold>\<open>Trees and their text\<close> (\<open>src/stackish\<close>).
  \<^item> \<open>Node\<close>, \<open>NodeFormat\<close>, \<open>NodeDestroy\<close>: \<open>node.c\<close> and \<open>node_algo.h\<close>. The format interpreters \<open>Node_cons\<close>
    and \<open>Node_decons\<close> undo each other; the non-recursive destruction is post-order and asserts
    exactly on trees that are too deep for its arrays. Siblings count as depth.
  \<^item> \<open>Ragel\<close>, \<open>StackishTables\<close>: one interpreter for the tables of the three generated machines. The
    locale \<open>ragel_machine\<close> derives the binary searches from a check of the tables and is
    interpreted for the scanner, whose tables are shown to encode its chart.
  \<^item> \<open>Stackish\<close>, \<open>StackishRun\<close>, \<open>Roundtrip\<close>, \<open>ParserSafety\<close>, \<open>ParserFaults\<close>: the actions of \<open>stackish.c\<close>,
    the entry points of \<open>ragel.h\<close> and \<open>Node_parse_seq\<close>. What \<open>Node_bstr\<close> writes is read back; the trees
    returned are well formed; the parser returns on every document that opens a group and whose
    blob lengths fit; it loops or faults on the inputs given.

  \<^bold>\<open>Protocol\<close> (\<open>src/protocol\<close>).
  \<^item> \<open>Message\<close>: \<open>message.c\<close>, with the count of references and the dump.
  \<^item> \<open>Session\<close>, \<open>Crypto\<close>, \<open>Challenge\<close>, \<open>Frame\<close>, \<open>Peer\<close>: \<open>crypto.c\<close>, \<open>frame.c\<close> and \<open>peer.c\<close> on the state of one
    end. The cryptographic library and the socket buffers are records of functions; predicates
    such as \<open>ltc_ok\<close> state what is documented of them, and witnesses instantiate them.
  \<^item> \<open>Keeps\<close>, \<open>Envelope\<close>, \<open>Handshake\<close>, \<open>Agreement\<close>, \<open>Transport\<close>: two honest ends reach the same keys and
    nonces, and messages arrive as they were sent.
  \<^item> \<open>Forgery\<close>, \<open>Trust\<close>: what dishonest packets do, what a signature does not cover, and when the hate
    challenge is solved. The search for an answer is bounded as in the code.

  \<^bold>\<open>Hub\<close> (\<open>src/hub\<close>).
  \<^item> \<open>Heap\<close>: \<open>heap.c\<close>. The locale \<open>heap_order\<close> proves the sorted array correct for any comparison; it is
    interpreted for pointers (\<open>Heap\<close>), for keys (\<open>Member\<close>) and for route names (\<open>Routing\<close>). Counts stay
    below \<open>2 ^ 30\<close>, so the sum of two indices does not wrap.
  \<^item> \<open>MsgQueue\<close>: \<open>queue.c\<close>, an interpretation of the locale \<open>bounded_fifo\<close>.
  \<^item> \<open>Member\<close>: \<open>member.c\<close>. The red-black tree of sglib is a parameter. Logging out yields to other
    tasks half way, so it is modelled in two halves.
  \<^item> \<open>Routing\<close>, \<open>Registration\<close>: \<open>routing.c\<close>. The tree is well formed, members and routes name each other,
    registering is found again, delivery reaches the members in order.
  \<^item> \<open>Hub\<close>, \<open>Commands\<close>, \<open>Connection\<close>, \<open>HubMachine\<close>: \<open>hub.h\<close>, \<open>info.c\<close>, \<open>commands.c\<close>, \<open>connection.c\<close>,
    \<open>connection_state.c\<close>, \<open>hub.c\<close> and \<open>hub_state.c\<close>. \<open>ConnectionState_exec\<close> runs actions that run it again;
    its first argument bounds the nesting, and a run that needs more is \<open>None\<close>, like a run that
    does not return. The theorems that state a result hold for every positive bound.
  \<^item> \<open>Chart\<close>: the charts of \<open>connection.rl\<close> and \<open>hub.rl\<close>, that the generated tables implement them, and,
    by rule induction over the runs of a connection, that no message is serviced before a
    connection is set up or after it is half closed.
  \<^item> \<open>HubFrame\<close>, \<open>HubTyping\<close>, \<open>ConnectionFaults\<close>, \<open>Service\<close>: every step keeps the types of the hub's state,
    a new hub answers its twelve commands, and the runs that end in a fault. What other tasks do
    while one waits is the parameter \<open>e_yield\<close> of the environment.

  \<^bold>\<open>Not modelled.\<close> \<open>src/client\<close> (a process that copies lines between sockets and a peer), \<open>src/server\<close>
  (process set-up), \<open>src/lang/ruby\<close> (a client in another language), logging, \<open>Route_dump\<close> and
  \<open>CryptState_print_key\<close> (output only), the task library, sglib, halloc and the cryptographic library
  (not part of the sources). Allocation succeeds everywhere but in the storage level of strings.
\<close>

end
